(* ===== verification/Prelude.thy ===== *)
theory Prelude
  imports Main "HOL-Library.Word"
begin

text \<open>
  Shared vocabulary of the development: C++ integer conversions and division written out on
  \<open>int\<close>, the bounds-checked element access of \<open>std::vector::at\<close>, the binary searches
  \<open>std::lower_bound\<close> and \<open>std::upper_bound\<close>, and the generic list facts the components
  share.  The collections \<open>width_simps\<close> (integer widths) and \<open>search_simps\<close> (binary
  searches against their list specification) are extended by the later theories.
\<close>

named_theorems width_simps
named_theorems search_simps

section \<open>C++ integers\<close>

text \<open>
  A signed C++ integer is an \<open>int\<close>.  Signed overflow is undefined behaviour in C++, so the
  model of \<open>+\<close>, \<open>-\<close> and \<open>*\<close> is exact arithmetic and the predicates below say when the
  result is in range; conversions to a narrower type (\<open>static_cast\<close>) are modular, as C++20
  defines them, and are written out.
\<close>

abbreviation i32_ok :: "int \<Rightarrow> bool" where
  "i32_ok x \<equiv> - (2 ^ 31) \<le> x \<and> x < 2 ^ 31"

abbreviation i64_ok :: "int \<Rightarrow> bool" where
  "i64_ok x \<equiv> - (2 ^ 63) \<le> x \<and> x < 2 ^ 63"

definition to_i32 :: "int \<Rightarrow> int" where
  "to_i32 x = (x + 2 ^ 31) mod 2 ^ 32 - 2 ^ 31"

definition to_i64 :: "int \<Rightarrow> int" where
  "to_i64 x = (x + 2 ^ 63) mod 2 ^ 64 - 2 ^ 63"

definition to_u32 :: "int \<Rightarrow> int" where
  "to_u32 x = x mod 2 ^ 32"

lemma to_i32_id [width_simps]: "i32_ok x \<Longrightarrow> to_i32 x = x"
  by (simp add: to_i32_def)

lemma to_i64_id [width_simps]: "i64_ok x \<Longrightarrow> to_i64 x = x"
  by (simp add: to_i64_def)

lemma to_u32_id [width_simps]: "0 \<le> x \<Longrightarrow> x < 2 ^ 32 \<Longrightarrow> to_u32 x = x"
  by (simp add: to_u32_def)

lemma to_i32_ok: "i32_ok (to_i32 x)"
  using pos_mod_bound [of "2 ^ 32" "x + 2 ^ 31"] pos_mod_sign [of "2 ^ 32" "x + 2 ^ 31"]
  by (simp add: to_i32_def)

lemma to_i64_ok: "i64_ok (to_i64 x)"
  using pos_mod_bound [of "2 ^ 64" "x + 2 ^ 63"] pos_mod_sign [of "2 ^ 64" "x + 2 ^ 63"]
  by (simp add: to_i64_def)

text \<open>C++ integer division truncates toward zero; \<open>cmod\<close> takes the sign of the dividend.\<close>

definition cdiv :: "int \<Rightarrow> int \<Rightarrow> int" where
  "cdiv a b = sgn a * sgn b * (\<bar>a\<bar> div \<bar>b\<bar>)"

definition cmod :: "int \<Rightarrow> int \<Rightarrow> int" where
  "cmod a b = a - b * cdiv a b"

lemma cdiv_nonneg [width_simps]: "0 \<le> a \<Longrightarrow> 0 < b \<Longrightarrow> cdiv a b = a div b"
  by (cases "a = 0") (auto simp: cdiv_def)

lemma cdiv_neg: "a < 0 \<Longrightarrow> 0 < b \<Longrightarrow> cdiv a b = - ((- a) div b)"
  by (simp add: cdiv_def)

lemma cmod_nonneg [width_simps]: "0 \<le> a \<Longrightarrow> 0 < b \<Longrightarrow> cmod a b = a mod b"
  by (simp add: cmod_def cdiv_nonneg minus_mult_div_eq_mod)

lemma cdiv_abs_le: "\<bar>cdiv a b\<bar> \<le> \<bar>a\<bar>"
proof -
  have "int (nat \<bar>a\<bar> div nat \<bar>b\<bar>) \<le> int (nat \<bar>a\<bar>)"
    by (simp only: of_nat_le_iff div_le_dividend)
  then have le: "\<bar>a\<bar> div \<bar>b\<bar> \<le> \<bar>a\<bar>" by (simp add: zdiv_int)
  have "0 \<le> \<bar>a\<bar> div \<bar>b\<bar>"
    by (cases "b = 0") (simp_all add: pos_imp_zdiv_nonneg_iff)
  with le show ?thesis
    by (auto simp: cdiv_def abs_mult sgn_if)
qed

lemma div_eqI:
  fixes a b k :: int
  assumes "k * b \<le> a" and "a < (k + 1) * b"
  shows "a div b = k"
proof -
  have "0 < b" using assms by (simp add: algebra_simps)
  then show ?thesis
    using assms by (intro int_div_pos_eq [of a b k "a - k * b"]) (auto simp: algebra_simps)
qed

lemma div_add_one:
  fixes a k :: int
  assumes "0 < k"
  shows "(a + 1) div k = a div k + (if (a + 1) mod k = 0 then 1 else 0)"
proof (cases "a mod k + 1 = k")
  case True
  have "k * (a div k) + a mod k = a" by simp
  with True have "a + 1 = k * (a div k) + k" by linarith
  then have a: "a + 1 = 0 + (a div k + 1) * k" by (simp add: algebra_simps)
  have "(a + 1) mod k = 0" unfolding a by (simp only: mod_mult_self1 mod_0)
  moreover have "(a + 1) div k = a div k + 1"
    by (rule div_eqI) (use a assms in \<open>simp_all add: algebra_simps\<close>)
  ultimately show ?thesis by simp
next
  case False
  with assms have r: "a mod k + 1 < k" using pos_mod_bound [of k a] by linarith
  have nn: "0 \<le> a mod k" using assms by simp
  have k: "k * (a div k) + a mod k = a" by simp
  then have lo: "(a div k) * k \<le> a + 1" using nn by (simp only: mult.commute [of "a div k"])
  from k have "a + 1 < k * (a div k) + k" using r by linarith
  then have "a + 1 < (a div k + 1) * k" by (simp only: distrib_right mult_1_left mult.commute [of "a div k"])
  with lo have d: "(a + 1) div k = a div k" by (rule div_eqI)
  have "(a + 1) mod k = a + 1 - k * ((a + 1) div k)" by (rule minus_mult_div_eq_mod [symmetric])
  then have "(a + 1) mod k = a mod k + 1" unfolding d using k by linarith
  with d nn show ?thesis by simp
qed

section \<open>Exceptions\<close>

text \<open>
  The exceptions the code throws, the standard library's and the \<open>type_error\<close> of the Python
  bindings, with the message they carry.  A function that may throw returns a sum: \<open>Inl\<close> the
  exception, \<open>Inr\<close> the result.
\<close>

datatype exn =
    OutOfRange string
  | InvalidArgument string
  | LogicError string
  | RuntimeError string
  | TypeError string

text \<open>A loop whose body may throw.\<close>

fun try_fold :: "('a \<Rightarrow> 's \<Rightarrow> 'e + 's) \<Rightarrow> 'a list \<Rightarrow> 's \<Rightarrow> 'e + 's" where
  "try_fold f [] s = Inr s"
| "try_fold f (x # xs) s = (case f x s of Inl e \<Rightarrow> Inl e | Inr s' \<Rightarrow> try_fold f xs s')"

lemma try_fold_append:
  "try_fold f (xs @ ys) s = (case try_fold f xs s of Inl e \<Rightarrow> Inl e | Inr s' \<Rightarrow> try_fold f ys s')"
  by (induction xs arbitrary: s) (auto split: sum.splits)

lemma try_fold_invariant:
  assumes "try_fold f xs s = Inr s'" and "P s"
    and "\<And>x t t'. x \<in> set xs \<Longrightarrow> P t \<Longrightarrow> f x t = Inr t' \<Longrightarrow> P t'"
  shows "P s'"
  using assms
proof (induction xs arbitrary: s)
  case (Cons x xs)
  then obtain t where t: "f x s = Inr t" "try_fold f xs t = Inr s'" by (auto split: sum.splits)
  then have "P t" using Cons.prems(2,3) by (meson list.set_intros(1))
  then show ?case using Cons.IH [OF t(2)] Cons.prems(3) by (meson list.set_intros(2))
qed simp

lemma try_fold_total:
  assumes "P s" and "\<And>x t. x \<in> set xs \<Longrightarrow> P t \<Longrightarrow> \<exists>t'. f x t = Inr t' \<and> P t'"
  shows "\<exists>s'. try_fold f xs s = Inr s' \<and> P s'"
  using assms
proof (induction xs arbitrary: s)
  case (Cons x xs)
  then obtain t where "f x s = Inr t" "P t" by (metis list.set_intros(1))
  with Cons show ?case by auto
qed simp

section \<open>Vectors\<close>

text \<open>\<open>std::vector::at\<close>: the element, or the exception it throws out of range.\<close>

definition nth_opt :: "'a list \<Rightarrow> nat \<Rightarrow> 'a option" where
  "nth_opt xs i = (if i < length xs then Some (xs ! i) else None)"

lemma nth_opt_Some_iff: "nth_opt xs i = Some x \<longleftrightarrow> i < length xs \<and> xs ! i = x"
  by (simp add: nth_opt_def)

lemma nth_opt_None_iff: "nth_opt xs i = None \<longleftrightarrow> length xs \<le> i"
  by (simp add: nth_opt_def)

lemma nth_opt_append:
  "nth_opt (xs @ ys) i = (if i < length xs then nth_opt xs i else nth_opt ys (i - length xs))"
  by (auto simp: nth_opt_def nth_append)

section \<open>Binary search\<close>

text \<open>
  \<open>std::lower_bound\<close> and \<open>std::upper_bound\<close> are the same halving loop; they differ in the
  test that keeps the left half.  \<open>bsearch p xs first len\<close> looks at \<open>len\<close> elements from
  \<open>first\<close> and returns the first position where \<open>p\<close> holds, on a range where \<open>p\<close> is
  false up to a point and true from there on.
\<close>

function bsearch :: "('a \<Rightarrow> bool) \<Rightarrow> 'a list \<Rightarrow> nat \<Rightarrow> nat \<Rightarrow> nat" where
  "bsearch p xs first len =
     (if len = 0 then first
      else let half = len div 2; middle = first + half
           in if p (xs ! middle) then bsearch p xs first half
              else bsearch p xs (Suc middle) (len - half - 1))"
  by pat_completeness auto
termination
  by (relation "measure (\<lambda>(p, xs, first, len). len)") auto

declare bsearch.simps [simp del]

definition upper_bound :: "'a::linorder list \<Rightarrow> 'a \<Rightarrow> nat" where
  "upper_bound xs t = bsearch (\<lambda>x. t < x) xs 0 (length xs)"

definition lower_bound :: "'a::linorder list \<Rightarrow> 'a \<Rightarrow> nat" where
  "lower_bound xs t = bsearch (\<lambda>x. \<not> x < t) xs 0 (length xs)"

lemma length_takeWhile_eqI:
  assumes "k \<le> length xs" and "\<And>i. i < k \<Longrightarrow> P (xs ! i)" and "k < length xs \<Longrightarrow> \<not> P (xs ! k)"
  shows "length (takeWhile P xs) = k"
proof (cases "k < length xs")
  case True
  then show ?thesis
    using takeWhile_eq_take_P_nth [of k xs P] assms by simp
next
  case False
  then have "k = length xs" using assms(1) by simp
  then show ?thesis
    using assms(2) by (metis in_set_conv_nth takeWhile_eq_all_conv)
qed

lemma bsearch_partition:
  assumes "first + len \<le> length xs"
    and "\<And>i j. i \<le> j \<Longrightarrow> j < length xs \<Longrightarrow> p (xs ! i) \<Longrightarrow> p (xs ! j)"
    and "\<And>i. i < first \<Longrightarrow> \<not> p (xs ! i)"
    and "first + len < length xs \<Longrightarrow> p (xs ! (first + len))"
  shows "bsearch p xs first len = length (takeWhile (\<lambda>x. \<not> p x) xs)"
  using assms
proof (induction p xs first len rule: bsearch.induct)
  case (1 p xs first len)
  show ?case
  proof (cases "len = 0")
    case True
    with "1.prems" show ?thesis
      by (subst bsearch.simps) (simp add: length_takeWhile_eqI)
  next
    case False
    let ?half = "len div 2" and ?mid = "first + len div 2"
    have mid: "?mid < length xs" "?half < len" using False "1.prems"(1) by auto
    show ?thesis
    proof (cases "p (xs ! ?mid)")
      case True
      have "bsearch p xs first ?half = length (takeWhile (\<lambda>x. \<not> p x) xs)"
        using "1.IH"(1) [OF False refl refl True] "1.prems" True mid by auto
      with False True show ?thesis by (subst bsearch.simps) (simp add: Let_def)
    next
      case notp: False
      have below: "\<not> p (xs ! i)" if "i < Suc ?mid" for i
        using "1.prems"(2) [of i ?mid] that mid notp by auto
      have "bsearch p xs (Suc ?mid) (len - ?half - 1) = length (takeWhile (\<lambda>x. \<not> p x) xs)"
        using "1.IH"(2) [OF False refl refl notp] "1.prems" below mid by auto
      with False notp show ?thesis by (subst bsearch.simps) (simp add: Let_def)
    qed
  qed
qed

lemma bsearch_le: "bsearch p xs first len \<le> first + len"
proof (induction p xs first len rule: bsearch.induct)
  case (1 p xs first len)
  show ?case
  proof (cases "len = 0")
    case False
    have "first + len div 2 \<le> first + len" by simp
    moreover have "bsearch p xs first (len div 2) \<le> first + len div 2" if "p (xs ! (first + len div 2))"
      using "1.IH"(1) [OF False refl refl that] .
    moreover have "bsearch p xs (Suc (first + len div 2)) (len - len div 2 - 1) \<le> first + len"
      if "\<not> p (xs ! (first + len div 2))"
      using "1.IH"(2) [OF False refl refl that] False by linarith
    ultimately show ?thesis
      using False by (subst bsearch.simps) (auto simp: Let_def intro: order_trans)
  qed (subst bsearch.simps, simp)
qed

lemma sorted_bsearch:
  assumes "sorted_wrt R xs" and "\<And>x y. R x y \<Longrightarrow> p x \<Longrightarrow> p y"
  shows "bsearch p xs 0 (length xs) = length (takeWhile (\<lambda>x. \<not> p x) xs)"
proof (rule bsearch_partition)
  fix i j
  assume "i \<le> j" "j < length xs" "p (xs ! i)"
  then show "p (xs ! j)"
    using assms sorted_wrt_nth_less [OF assms(1), of i j] by (cases "i = j") auto
qed auto

lemma upper_bound_sorted [search_simps]:
  "sorted xs \<Longrightarrow> upper_bound xs t = length (takeWhile (\<lambda>x. x \<le> t) xs)"
  unfolding upper_bound_def
  by (subst sorted_bsearch [where R = "(\<le>)"]) (auto simp: not_less)

lemma lower_bound_sorted [search_simps]:
  "sorted xs \<Longrightarrow> lower_bound xs t = length (takeWhile (\<lambda>x. x < t) xs)"
  unfolding lower_bound_def
  by (subst sorted_bsearch [where R = "(\<le>)"]) auto

section \<open>Sorted lists\<close>

lemma takeWhile_sorted_filter:
  assumes "sorted_wrt R xs" and "\<And>x y. R x y \<Longrightarrow> P y \<Longrightarrow> P x"
  shows "takeWhile P xs = filter P xs"
  using assms(1)
proof (induction xs)
  case (Cons x xs)
  then show ?case
    using assms(2) by (auto intro!: filter_False [symmetric])
qed simp

lemma sorted_le_last: "sorted xs \<Longrightarrow> x \<in> set xs \<Longrightarrow> x \<le> last xs"
  by (induction xs) (auto split: if_splits intro: order_trans)

lemma strict_remdups_adj: "sorted xs \<Longrightarrow> sorted_wrt (<) (remdups_adj xs)"
proof (induction xs rule: remdups_adj.induct)
  case (3 x y xs)
  then show ?case
    using remdups_adj_set [of "y # xs"] by (auto simp: order_le_less_trans le_less)
qed auto

lemma takeWhile_le_filter: "sorted xs \<Longrightarrow> takeWhile (\<lambda>x. x \<le> t) xs = filter (\<lambda>x. x \<le> (t :: 'a::linorder)) xs"
  by (rule takeWhile_sorted_filter [where R = "(\<le>)"]) auto

lemma take_length_takeWhile: "take (length (takeWhile P xs)) xs = takeWhile P xs"
  by (metis takeWhile_eq_take)

lemma nth_length_takeWhile_less: "i < length (takeWhile P xs) \<Longrightarrow> P (xs ! i)"
  by (metis nth_mem set_takeWhileD takeWhile_nth)

end
