(* ===== verification/CoreTypes.thy ===== *)
theory CoreTypes
  imports Prelude
begin

text \<open>
  The value types of \<open>types.hpp\<close>: timestamps, dates, fixed-point prices and money,
  instrument classification and handles.  Each C++ struct with one integer member is a
  one-constructor datatype whose selector is the member; the defaulted \<open>operator<=>\<close> is the
  \<open>linorder\<close> instance and the hand-written \<open>operator+\<close> and \<open>operator-\<close> are the group
  operations, so that the library's sorting and summation lemmas apply to them.
\<close>

section \<open>Types\<close>

datatype timestamp = Timestamp (nanos: int)

datatype date = Date (yyyymmdd: int)

datatype price = Price (minor: int)

datatype money = Money (amount: int)

datatype instrument_id = InstrumentId (index_of: int)

datatype underlying_id = UnderlyingId (uindex: int)

datatype right = Call | Put

datatype instrument_kind = Spot | Future | Option

text \<open>Contracts or shares, never lots (\<open>using Qty = std::int32_t\<close>).\<close>

type_synonym qty = int

section \<open>Comparison\<close>

instantiation timestamp :: linorder
begin

definition less_eq_timestamp :: "timestamp \<Rightarrow> timestamp \<Rightarrow> bool" where
  "less_eq_timestamp a b = (nanos a \<le> nanos b)"

definition less_timestamp :: "timestamp \<Rightarrow> timestamp \<Rightarrow> bool" where
  "less_timestamp a b = (nanos a < nanos b)"

instance
  by standard (auto simp: less_eq_timestamp_def less_timestamp_def timestamp.expand)

end

instantiation date :: linorder
begin

definition less_eq_date :: "date \<Rightarrow> date \<Rightarrow> bool" where
  "less_eq_date a b = (yyyymmdd a \<le> yyyymmdd b)"

definition less_date :: "date \<Rightarrow> date \<Rightarrow> bool" where
  "less_date a b = (yyyymmdd a < yyyymmdd b)"

instance
  by standard (auto simp: less_eq_date_def less_date_def date.expand)

end

instantiation price :: linorder
begin

definition less_eq_price :: "price \<Rightarrow> price \<Rightarrow> bool" where
  "less_eq_price a b = (minor a \<le> minor b)"

definition less_price :: "price \<Rightarrow> price \<Rightarrow> bool" where
  "less_price a b = (minor a < minor b)"

instance
  by standard (auto simp: less_eq_price_def less_price_def price.expand)

end

instantiation money :: linorder
begin

definition less_eq_money :: "money \<Rightarrow> money \<Rightarrow> bool" where
  "less_eq_money a b = (amount a \<le> amount b)"

definition less_money :: "money \<Rightarrow> money \<Rightarrow> bool" where
  "less_money a b = (amount a < amount b)"

instance
  by standard (auto simp: less_eq_money_def less_money_def money.expand)

end

instantiation instrument_id :: linorder
begin

definition less_eq_instrument_id :: "instrument_id \<Rightarrow> instrument_id \<Rightarrow> bool" where
  "less_eq_instrument_id a b = (index_of a \<le> index_of b)"

definition less_instrument_id :: "instrument_id \<Rightarrow> instrument_id \<Rightarrow> bool" where
  "less_instrument_id a b = (index_of a < index_of b)"

instance
  by standard (auto simp: less_eq_instrument_id_def less_instrument_id_def instrument_id.expand)

end

named_theorems order_defs

lemmas [order_defs] =
  less_eq_timestamp_def less_timestamp_def less_eq_date_def less_date_def
  less_eq_price_def less_price_def less_eq_money_def less_money_def
  less_eq_instrument_id_def less_instrument_id_def

lemma timestamp_le [simp]: "Timestamp a \<le> Timestamp b \<longleftrightarrow> a \<le> b"
  and timestamp_less [simp]: "Timestamp a < Timestamp b \<longleftrightarrow> a < b"
  and date_le [simp]: "Date a \<le> Date b \<longleftrightarrow> a \<le> b"
  and date_less [simp]: "Date a < Date b \<longleftrightarrow> a < b"
  and price_le [simp]: "Price a \<le> Price b \<longleftrightarrow> a \<le> b"
  and price_less [simp]: "Price a < Price b \<longleftrightarrow> a < b"
  and money_le [simp]: "Money a \<le> Money b \<longleftrightarrow> a \<le> b"
  and money_less [simp]: "Money a < Money b \<longleftrightarrow> a < b"
  and instrument_le [simp]: "InstrumentId a \<le> InstrumentId b \<longleftrightarrow> a \<le> b"
  and instrument_less [simp]: "InstrumentId a < InstrumentId b \<longleftrightarrow> a < b"
  by (simp_all add: order_defs)

section \<open>Arithmetic\<close>

instantiation price :: ab_group_add
begin

definition zero_price :: price where
  "zero_price = Price 0"

definition plus_price :: "price \<Rightarrow> price \<Rightarrow> price" where
  "plus_price a b = Price (minor a + minor b)"

definition minus_price :: "price \<Rightarrow> price \<Rightarrow> price" where
  "minus_price a b = Price (minor a - minor b)"

definition uminus_price :: "price \<Rightarrow> price" where
  "uminus_price a = Price (- minor a)"

instance
  by standard (auto simp: zero_price_def plus_price_def minus_price_def uminus_price_def)

end

instantiation money :: ab_group_add
begin

definition zero_money :: money where
  "zero_money = Money 0"

definition plus_money :: "money \<Rightarrow> money \<Rightarrow> money" where
  "plus_money a b = Money (amount a + amount b)"

definition minus_money :: "money \<Rightarrow> money \<Rightarrow> money" where
  "minus_money a b = Money (amount a - amount b)"

definition uminus_money :: "money \<Rightarrow> money" where
  "uminus_money a = Money (- amount a)"

instance
  by standard (auto simp: zero_money_def plus_money_def minus_money_def uminus_money_def)

end

lemma minor_arith [simp]:
  "minor 0 = 0" "minor (a + b) = minor a + minor b" "minor (a - b) = minor a - minor b"
  "minor (- a) = - minor a"
  by (simp_all add: zero_price_def plus_price_def minus_price_def uminus_price_def)

lemma amount_arith [simp]:
  "amount 0 = 0" "amount (a + b) = amount a + amount b" "amount (a - b) = amount a - amount b"
  "amount (- a) = - amount a"
  by (simp_all add: zero_money_def plus_money_def minus_money_def uminus_money_def)

lemma amount_sum_list [simp]: "amount (sum_list ms) = sum_list (map amount ms)"
  by (induction ms) simp_all

text \<open>\<open>notional\<close>: price times quantity, widened to 64 bits before the product.\<close>

definition notional :: "price \<Rightarrow> qty \<Rightarrow> money" where
  "notional p q = Money (minor p * q)"

lemma amount_notional [simp]: "amount (notional p q) = minor p * q"
  by (simp add: notional_def)

lemma abs_mult_le:
  fixes a b :: int
  assumes "\<bar>a\<bar> \<le> m" and "\<bar>b\<bar> \<le> n"
  shows "\<bar>a * b\<bar> \<le> m * n"
proof -
  have "0 \<le> m" using assms(1) by (rule order_trans [OF abs_ge_zero])
  then have "\<bar>a\<bar> * \<bar>b\<bar> \<le> m * n" by (intro mult_mono assms) auto
  then show ?thesis by (simp add: abs_mult)
qed

lemma notional_i64:
  assumes "i32_ok (minor p)" and "i32_ok q"
  shows "\<bar>amount (notional p q)\<bar> \<le> 2 ^ 62"
proof -
  have "\<bar>minor p\<bar> \<le> 2 ^ 31" and "\<bar>q\<bar> \<le> 2 ^ 31" using assms by auto
  then have "\<bar>minor p * q\<bar> \<le> 2 ^ 31 * 2 ^ 31" by (rule abs_mult_le)
  then show ?thesis by simp
qed

section \<open>Handles\<close>

definition invalid_instrument :: instrument_id where
  "invalid_instrument = InstrumentId (-1)"

definition valid :: "instrument_id \<Rightarrow> bool" where
  "valid i \<longleftrightarrow> i \<noteq> invalid_instrument"

section \<open>Timestamps\<close>

definition from_seconds :: "int \<Rightarrow> timestamp" where
  "from_seconds s = Timestamp (s * 1000000000)"

definition from_millis :: "int \<Rightarrow> timestamp" where
  "from_millis ms = Timestamp (ms * 1000000)"

definition seconds :: "timestamp \<Rightarrow> int" where
  "seconds t = cdiv (nanos t) 1000000000"

definition kNoTime :: timestamp where
  "kNoTime = Timestamp (- (2 ^ 63))"

lemma seconds_from_seconds: "seconds (from_seconds s) = s"
  by (cases "0 \<le> s") (simp_all add: seconds_def from_seconds_def cdiv_nonneg cdiv_neg)

end
