(* ===== verification/Quotes.thy ===== *)
theory Quotes
  imports CoreTypes
begin

text \<open>
  \<open>quotes.hpp\<close> and \<open>quotes.cpp\<close>: one observation, the column-oriented session of one
  instrument and the search for the last observation at or before a time.  A span is a list and
  \<open>npos\<close> is \<open>None\<close>.  \<open>upto\<close> is the specification of "what had happened by \<open>t\<close>": every later
  component is shown to depend on the columns only through it.
\<close>

section \<open>State and operations\<close>

record quote =
  q_ts :: timestamp
  q_last :: price
  q_bid :: price
  q_ask :: price
  q_bid_qty :: qty
  q_ask_qty :: qty
  q_last_qty :: qty
  q_open_interest :: int

definition traded :: "quote \<Rightarrow> bool" where
  "traded q \<longleftrightarrow> 0 < q_last_qty q"

definition two_sided :: "quote \<Rightarrow> bool" where
  "two_sided q \<longleftrightarrow> 0 < minor (q_bid q) \<and> 0 < minor (q_ask q)"

definition spread :: "quote \<Rightarrow> price" where
  "spread q = q_ask q - q_bid q"

definition mid :: "quote \<Rightarrow> price" where
  "mid q = Price (cdiv (minor (q_bid q) + minor (q_ask q)) 2)"

record quote_columns =
  c_ts :: "timestamp list"
  c_last :: "price list"
  c_bid :: "price list"
  c_ask :: "price list"
  c_bid_qty :: "qty list"
  c_ask_qty :: "qty list"
  c_last_qty :: "qty list"
  c_open_interest :: "int list"

definition empty_columns :: quote_columns where
  "empty_columns = \<lparr>c_ts = [], c_last = [], c_bid = [], c_ask = [], c_bid_qty = [],
     c_ask_qty = [], c_last_qty = [], c_open_interest = []\<rparr>"

definition size_of :: "quote_columns \<Rightarrow> nat" where
  "size_of c = length (c_ts c)"

definition column_at :: "quote_columns \<Rightarrow> nat \<Rightarrow> quote" where
  "column_at c i =
     \<lparr>q_ts = c_ts c ! i, q_last = c_last c ! i, q_bid = c_bid c ! i, q_ask = c_ask c ! i,
      q_bid_qty = c_bid_qty c ! i, q_ask_qty = c_ask_qty c ! i, q_last_qty = c_last_qty c ! i,
      q_open_interest = c_open_interest c ! i\<rparr>"

definition index_at_or_before :: "quote_columns \<Rightarrow> timestamp \<Rightarrow> nat option" where
  "index_at_or_before c t =
     (let it = upper_bound (c_ts c) t in if it = 0 then None else Some (it - 1))"

text \<open>The first \<open>n\<close> rows of every column (\<open>span::first\<close>).\<close>

definition first_rows :: "nat \<Rightarrow> quote_columns \<Rightarrow> quote_columns" where
  "first_rows n c =
     \<lparr>c_ts = take n (c_ts c), c_last = take n (c_last c), c_bid = take n (c_bid c),
      c_ask = take n (c_ask c), c_bid_qty = take n (c_bid_qty c),
      c_ask_qty = take n (c_ask_qty c), c_last_qty = take n (c_last_qty c),
      c_open_interest = take n (c_open_interest c)\<rparr>"

section \<open>Well-formed columns\<close>

text \<open>What the class comment requires: equal lengths, ascending times.\<close>

definition columns_ok :: "quote_columns \<Rightarrow> bool" where
  "columns_ok c \<longleftrightarrow> sorted (c_ts c) \<and> length (c_last c) = size_of c \<and> length (c_bid c) = size_of c \<and>
     length (c_ask c) = size_of c \<and> length (c_bid_qty c) = size_of c \<and>
     length (c_ask_qty c) = size_of c \<and> length (c_last_qty c) = size_of c \<and>
     length (c_open_interest c) = size_of c"

lemma columns_okD:
  assumes "columns_ok c"
  shows "sorted (c_ts c)"
  using assms by (simp add: columns_ok_def)

lemma empty_columns_ok [simp]: "columns_ok empty_columns"
  by (simp add: columns_ok_def empty_columns_def size_of_def)

lemma size_of_empty [simp]: "size_of empty_columns = 0"
  by (simp add: size_of_def empty_columns_def)

lemma size_of_first_rows [simp]: "size_of (first_rows n c) = min n (size_of c)"
  by (simp add: size_of_def first_rows_def)

lemma first_rows_ok: "columns_ok c \<Longrightarrow> columns_ok (first_rows n c)"
  by (simp add: columns_ok_def first_rows_def size_of_def sorted_wrt_take)

lemma first_rows_first_rows [simp]: "first_rows m (first_rows n c) = first_rows (min m n) c"
  by (simp add: first_rows_def)

lemma first_rows_empty [simp]: "first_rows n empty_columns = empty_columns"
  by (simp add: first_rows_def empty_columns_def)

lemma first_rows_0: "first_rows 0 c = empty_columns"
  by (simp add: first_rows_def empty_columns_def)

lemma first_rows_all: "columns_ok c \<Longrightarrow> size_of c \<le> n \<Longrightarrow> first_rows n c = c"
  by (simp add: first_rows_def columns_ok_def size_of_def)

lemma columns_empty: "columns_ok c \<Longrightarrow> size_of c = 0 \<Longrightarrow> c = empty_columns"
  by (cases c) (simp add: columns_ok_def size_of_def empty_columns_def)

lemma column_at_first_rows: "i < n \<Longrightarrow> column_at (first_rows n c) i = column_at c i"
  by (simp add: column_at_def first_rows_def)

lemma c_ts_first_rows [simp]: "c_ts (first_rows n c) = take n (c_ts c)"
  by (simp add: first_rows_def)

section \<open>What had happened by a time\<close>

definition count_upto :: "quote_columns \<Rightarrow> timestamp \<Rightarrow> nat" where
  "count_upto c t = length (filter (\<lambda>s. s \<le> t) (c_ts c))"

definition upto_time :: "timestamp \<Rightarrow> quote_columns \<Rightarrow> quote_columns" where
  "upto_time t c = first_rows (count_upto c t) c"

lemma index_at_or_before_count [search_simps]:
  assumes "columns_ok c"
  shows "index_at_or_before c t = (if count_upto c t = 0 then None else Some (count_upto c t - 1))"
  using assms
  by (simp add: index_at_or_before_def count_upto_def upper_bound_sorted takeWhile_le_filter columns_okD Let_def)

lemma count_upto_takeWhile: "columns_ok c \<Longrightarrow> count_upto c t = length (takeWhile (\<lambda>s. s \<le> t) (c_ts c))"
  by (simp add: count_upto_def takeWhile_le_filter columns_okD)

lemma count_upto_le_size: "count_upto c t \<le> size_of c"
  by (simp add: count_upto_def size_of_def)

lemma length_filter_mono:
  "(\<And>x. x \<in> set xs \<Longrightarrow> P x \<Longrightarrow> Q x) \<Longrightarrow> length (filter P xs) \<le> length (filter Q xs)"
  by (induction xs) auto

lemma count_upto_mono: "s \<le> t \<Longrightarrow> count_upto c s \<le> count_upto c t"
  unfolding count_upto_def by (rule length_filter_mono) auto

lemma nth_le_iff_count_upto:
  assumes "columns_ok c" and "i < size_of c"
  shows "c_ts c ! i \<le> t \<longleftrightarrow> i < count_upto c t"
proof
  assume le: "c_ts c ! i \<le> t"
  show "i < count_upto c t"
  proof (rule ccontr)
    assume "\<not> i < count_upto c t"
    then have ge: "length (takeWhile (\<lambda>s. s \<le> t) (c_ts c)) \<le> i"
      using assms(1) by (simp add: count_upto_takeWhile)
    then have "length (takeWhile (\<lambda>s. s \<le> t) (c_ts c)) < length (c_ts c)"
      using assms(2) by (simp add: size_of_def)
    then have "\<not> c_ts c ! length (takeWhile (\<lambda>s. s \<le> t) (c_ts c)) \<le> t"
      by (rule nth_length_takeWhile)
    moreover have "c_ts c ! length (takeWhile (\<lambda>s. s \<le> t) (c_ts c)) \<le> c_ts c ! i"
      using ge assms columns_okD by (intro sorted_nth_mono) (auto simp: size_of_def)
    ultimately show False using le by simp
  qed
next
  assume "i < count_upto c t"
  then have "i < length (takeWhile (\<lambda>s. s \<le> t) (c_ts c))" using assms(1) by (simp add: count_upto_takeWhile)
  then show "c_ts c ! i \<le> t" by (rule nth_length_takeWhile_less)
qed

lemma take_count_upto: "columns_ok c \<Longrightarrow> take (count_upto c t) (c_ts c) = filter (\<lambda>s. s \<le> t) (c_ts c)"
  unfolding count_upto_takeWhile
  by (subst take_length_takeWhile) (rule takeWhile_le_filter [OF columns_okD])

lemma size_of_upto [simp]: "size_of (upto_time t c) = count_upto c t"
  using count_upto_le_size [of c t] by (simp add: upto_time_def)

lemma c_ts_upto: "columns_ok c \<Longrightarrow> c_ts (upto_time t c) = filter (\<lambda>s. s \<le> t) (c_ts c)"
  by (simp add: upto_time_def take_count_upto)

lemma upto_time_ok: "columns_ok c \<Longrightarrow> columns_ok (upto_time t c)"
  by (simp add: upto_time_def first_rows_ok)

lemma upto_time_empty [simp]: "upto_time t empty_columns = empty_columns"
  by (simp add: upto_time_def)

lemma count_upto_upto: "columns_ok c \<Longrightarrow> s \<le> t \<Longrightarrow> count_upto (upto_time t c) s = count_upto c s"
  unfolding count_upto_def by (auto simp: c_ts_upto intro!: arg_cong [where f = length] filter_cong)

lemma upto_upto: "columns_ok c \<Longrightarrow> s \<le> t \<Longrightarrow> upto_time s (upto_time t c) = upto_time s c"
  using count_upto_mono [of s t c]
  by (simp add: upto_time_def [of s] count_upto_upto) (simp add: upto_time_def min_absorb1)

lemma upto_time_all: "columns_ok c \<Longrightarrow> (\<And>s. s \<in> set (c_ts c) \<Longrightarrow> s \<le> t) \<Longrightarrow> upto_time t c = c"
  by (simp add: upto_time_def count_upto_def first_rows_all size_of_def filter_id_conv [THEN iffD2])

lemma column_at_upto: "i < count_upto c t \<Longrightarrow> column_at (upto_time t c) i = column_at c i"
  by (simp add: upto_time_def column_at_first_rows)

text \<open>Two series with the same past answer every bounded question alike.\<close>

lemma same_past:
  assumes "upto_time t c = upto_time t d" and "columns_ok c" and "columns_ok d"
  shows "count_upto c t = count_upto d t"
    and "index_at_or_before c t = index_at_or_before d t"
    and "i < count_upto c t \<Longrightarrow> column_at c i = column_at d i"
    and "s \<le> t \<Longrightarrow> upto_time s c = upto_time s d"
proof -
  show n: "count_upto c t = count_upto d t" using arg_cong [OF assms(1), of size_of] by simp
  with assms show "index_at_or_before c t = index_at_or_before d t"
    by (simp add: index_at_or_before_count)
  show "column_at c i = column_at d i" if "i < count_upto c t"
    using column_at_upto [OF that] column_at_upto [of i d t] assms(1) n that by simp
  show "upto_time s c = upto_time s d" if "s \<le> t"
    using upto_upto [OF assms(2) that] upto_upto [OF assms(3) that] assms(1) by simp
qed

section \<open>Quotes\<close>

lemma mid_between:
  assumes "two_sided q" and "q_bid q \<le> q_ask q"
  shows "q_bid q \<le> mid q" and "mid q \<le> q_ask q"
proof -
  have b: "0 < minor (q_bid q)" "minor (q_bid q) \<le> minor (q_ask q)"
    using assms by (simp_all add: two_sided_def less_eq_price_def)
  then have "cdiv (minor (q_bid q) + minor (q_ask q)) 2 = (minor (q_bid q) + minor (q_ask q)) div 2"
    by (simp add: cdiv_nonneg)
  with b show "q_bid q \<le> mid q" "mid q \<le> q_ask q"
    by (simp_all add: less_eq_price_def mid_def)
qed

section \<open>Properties\<close>

text \<open>\<open>index_at_or_before\<close> finds the last observation that had happened by \<open>t\<close> and never
  looks forward: it is \<open>npos\<close> exactly when every observation is later; otherwise the row it names
  is not later than \<open>t\<close> and every row after it is.  Rows after the answer may hold anything:
  deleting everything later than \<open>t\<close> gives the same index and the same row.\<close>

theorem index_at_or_before_never_forward:
  assumes "columns_ok c"
  shows "(index_at_or_before c t = None \<longleftrightarrow> (\<forall>i < size_of c. t < c_ts c ! i)) \<and>
    (\<forall>k. index_at_or_before c t = Some k \<longrightarrow>
       k < size_of c \<and> c_ts c ! k \<le> t \<and> (\<forall>i. k < i \<and> i < size_of c \<longrightarrow> t < c_ts c ! i) \<and>
       index_at_or_before (first_rows (Suc k) c) t = Some k \<and>
       column_at (first_rows (Suc k) c) k = column_at c k)"
proof -
  let ?n = "count_upto c t"
  have le: "?n \<le> size_of c" by (rule count_upto_le_size)
  have nth: "c_ts c ! i \<le> t \<longleftrightarrow> i < ?n" if "i < size_of c" for i
    by (rule nth_le_iff_count_upto [OF assms that])
  have none: "index_at_or_before c t = None \<longleftrightarrow> ?n = 0"
    by (simp add: index_at_or_before_count [OF assms])
  have "index_at_or_before c t = None \<longleftrightarrow> (\<forall>i < size_of c. t < c_ts c ! i)"
  proof (cases "?n = 0")
    case True
    then have "t < c_ts c ! i" if "i < size_of c" for i using nth [OF that] by (simp add: not_le)
    with True show ?thesis unfolding none by simp
  next
    case False
    then have "0 < size_of c" "\<not> t < c_ts c ! 0" using le nth [of 0] by (auto simp: not_less)
    then have "\<not> (\<forall>i < size_of c. t < c_ts c ! i)" by blast
    with False show ?thesis unfolding none by simp
  qed
  moreover have "k < size_of c \<and> c_ts c ! k \<le> t \<and> (\<forall>i. k < i \<and> i < size_of c \<longrightarrow> t < c_ts c ! i) \<and>
      index_at_or_before (first_rows (Suc k) c) t = Some k \<and>
      column_at (first_rows (Suc k) c) k = column_at c k"
    if k: "index_at_or_before c t = Some k" for k
  proof -
    have n: "?n = Suc k" using k assms by (auto simp: index_at_or_before_count split: if_splits)
    have f: "first_rows (Suc k) c = upto_time t c" by (simp add: upto_time_def n)
    have "index_at_or_before (upto_time t c) t = Some k"
      using assms n by (simp add: index_at_or_before_count upto_time_ok count_upto_upto)
    moreover have "column_at (upto_time t c) k = column_at c k" using n by (simp add: column_at_upto)
    moreover have "t < c_ts c ! i" if "k < i \<and> i < size_of c" for i
      using nth [of i] that n by (simp add: not_le [symmetric])
    moreover have "k < size_of c" using n le by simp
    moreover from this have "c_ts c ! k \<le> t" using nth [of k] n by simp
    ultimately show ?thesis unfolding f by blast
  qed
  ultimately show ?thesis by blast
qed

definition sample_columns :: quote_columns where
  "sample_columns = \<lparr>c_ts = [Timestamp 10, Timestamp 20, Timestamp 20, Timestamp 30],
     c_last = [Price 100, Price 105, Price 110, Price 90],
     c_bid = [Price 95, Price 100, Price 105, Price 85],
     c_ask = [Price 105, Price 110, Price 115, Price 95],
     c_bid_qty = [75, 75, 150, 75], c_ask_qty = [75, 150, 75, 75], c_last_qty = [0, 75, 0, 150],
     c_open_interest = [1000, 1000, 1075, 1075]\<rparr>"

lemma sample_columns_ok: "columns_ok sample_columns"
  by (simp add: columns_ok_def sample_columns_def size_of_def)

theorem index_at_or_before_never_forward_witness:
  "index_at_or_before sample_columns (Timestamp 25) = Some 2 \<and>
   c_ts sample_columns ! 2 \<le> Timestamp 25 \<and> index_at_or_before sample_columns (Timestamp 5) = None"
proof -
  have "index_at_or_before sample_columns (Timestamp 25) = Some 2" by code_simp
  moreover have "index_at_or_before sample_columns (Timestamp 5) = None" by code_simp
  ultimately show ?thesis
    using index_at_or_before_never_forward [OF sample_columns_ok, of "Timestamp 25"] by blast
qed

end
