(* ===== verification/Calendar.thy ===== *)
theory Calendar
  imports CoreTypes
begin

text \<open>
  The calendar of \<open>types.hpp\<close>: dates packed as \<open>yyyymmdd\<close>, the day count since
  1970-01-01 and its inverse, weekdays, date arithmetic and the timestamp of a wall-clock
  second.  The second half gives the Gregorian calendar as a specification (leap years, month
  lengths, the successor of a date) and shows that the closed formulas of the code implement it.
\<close>

section \<open>The code\<close>

definition year :: "date \<Rightarrow> int" where
  "year d = cdiv (yyyymmdd d) 10000"

definition month :: "date \<Rightarrow> int" where
  "month d = cmod (cdiv (yyyymmdd d) 100) 100"

definition day :: "date \<Rightarrow> int" where
  "day d = cmod (yyyymmdd d) 100"

definition date_valid :: "date \<Rightarrow> bool" where
  "date_valid d \<longleftrightarrow> 0 < yyyymmdd d"

text \<open>The month and the day are \<open>unsigned\<close>, so their arithmetic is modulo \<open>2 ^ 32\<close>.\<close>

definition days_from_civil :: "int \<Rightarrow> int \<Rightarrow> int \<Rightarrow> int" where
  "days_from_civil y0 m d =
     (let y = y0 - (if m \<le> 2 then 1 else 0);
          era = cdiv (if 0 \<le> y then y else y - 399) 400;
          yoe = to_u32 (y - era * 400);
          mp = to_u32 (m + 9) mod 12;
          doy = to_u32 (to_u32 (153 * mp + 2) div 5 + d - 1);
          doe = to_u32 (yoe * 365 + yoe div 4 - yoe div 100 + doy)
      in era * 146097 + doe - 719468)"

definition year_of_era :: "int \<Rightarrow> int" where
  "year_of_era doe = (doe - doe div 1460 + doe div 36524 - doe div 146096) div 365"

definition date_from_days :: "int \<Rightarrow> date" where
  "date_from_days z0 =
     (let z = z0 + 719468;
          era = cdiv (if 0 \<le> z then z else z - 146096) 146097;
          doe = z - era * 146097;
          yoe = year_of_era doe;
          y = yoe + era * 400;
          doy = doe - (365 * yoe + yoe div 4 - yoe div 100);
          mp = (5 * doy + 2) div 153;
          d = doy - (153 * mp + 2) div 5 + 1;
          m = (if mp < 10 then mp + 3 else mp - 9);
          yr = y + (if m \<le> 2 then 1 else 0)
      in Date (to_i32 (yr * 10000 + m * 100 + d)))"

text \<open>The day count of a packed date, the expression every caller writes out.\<close>

definition day_number :: "date \<Rightarrow> int" where
  "day_number d = days_from_civil (year d) (to_u32 (month d)) (to_u32 (day d))"

definition weekday_of :: "date \<Rightarrow> int" where
  "weekday_of d = (let days = day_number d in cmod (cmod (days + 4) 7 + 7) 7)"

definition add_days :: "date \<Rightarrow> int \<Rightarrow> date" where
  "add_days d n = date_from_days (day_number d + n)"

definition kISTOffsetSeconds :: int where
  "kISTOffsetSeconds = 5 * 3600 + 30 * 60"

definition timestamp_of :: "date \<Rightarrow> int \<Rightarrow> int \<Rightarrow> timestamp" where
  "timestamp_of d seconds_of_day utc_offset_seconds =
     from_seconds (day_number d * 86400 + seconds_of_day - utc_offset_seconds)"

section \<open>The Gregorian calendar\<close>

definition is_leap :: "int \<Rightarrow> bool" where
  "is_leap y \<longleftrightarrow> y mod 4 = 0 \<and> (y mod 100 \<noteq> 0 \<or> y mod 400 = 0)"

definition days_in_month :: "int \<Rightarrow> int \<Rightarrow> int" where
  "days_in_month y m =
     (if m = 2 then if is_leap y then 29 else 28
      else if m \<in> {4, 6, 9, 11} then 30 else 31)"

definition civil_ok :: "int \<Rightarrow> int \<Rightarrow> int \<Rightarrow> bool" where
  "civil_ok y m d \<longleftrightarrow> 1 \<le> m \<and> m \<le> 12 \<and> 1 \<le> d \<and> d \<le> days_in_month y m"

definition civil :: "int \<Rightarrow> int \<Rightarrow> int \<Rightarrow> date" where
  "civil y m d = Date (y * 10000 + m * 100 + d)"

text \<open>A calendar date whose packed form fits the 32-bit member.\<close>

definition calendar_date :: "date \<Rightarrow> bool" where
  "calendar_date d \<longleftrightarrow>
     0 \<le> yyyymmdd d \<and> year d \<le> 214747 \<and> civil_ok (year d) (month d) (day d)"

definition next_date :: "date \<Rightarrow> date" where
  "next_date d =
     (if day d < days_in_month (year d) (month d) then civil (year d) (month d) (day d + 1)
      else if month d < 12 then civil (year d) (month d + 1) 1
      else civil (year d + 1) 1 1)"

lemma civil_okD: "civil_ok y m d \<Longrightarrow> 1 \<le> m \<and> m \<le> 12 \<and> 1 \<le> d \<and> d \<le> 31"
  by (auto simp: civil_ok_def days_in_month_def split: if_splits)

lemma civil_fields:
  assumes "0 \<le> y" and "1 \<le> m" and "m \<le> 12" and "1 \<le> d" and "d \<le> 31"
  shows "year (civil y m d) = y" and "month (civil y m d) = m" and "day (civil y m d) = d"
proof -
  have a: "(y * 10000 + m * 100 + d) div 10000 = y" using assms by (intro div_eqI) auto
  have b: "(y * 10000 + m * 100 + d) div 100 = y * 100 + m" using assms by (intro div_eqI) auto
  have "(y * 100 + m) div 100 = y" using assms by (intro div_eqI) auto
  then have c: "(y * 100 + m) mod 100 = m" by (simp add: minus_mult_div_eq_mod [symmetric])
  from b have e: "(y * 10000 + m * 100 + d) mod 100 = d"
    by (simp add: minus_mult_div_eq_mod [symmetric])
  have nn: "0 \<le> y * 10000 + m * 100 + d" "0 \<le> y * 100 + m" using assms by auto
  show "year (civil y m d) = y" "month (civil y m d) = m" "day (civil y m d) = d"
    using a b c e nn by (simp_all add: year_def month_def day_def civil_def cdiv_nonneg cmod_nonneg)
qed

lemma calendar_date_civil:
  assumes "calendar_date d"
  shows "d = civil (year d) (month d) (day d)" and "0 \<le> year d"
    and "civil_ok (year d) (month d) (day d)" and "year d \<le> 214747"
proof -
  have nn: "0 \<le> yyyymmdd d" using assms by (simp add: calendar_date_def)
  define n where "n = yyyymmdd d"
  have "n div 100 div 100 = n div 10000" by (simp add: zdiv_zmult2_eq [symmetric])
  then have "n = n div 10000 * 10000 + (n div 100) mod 100 * 100 + n mod 100"
    using div_mult_mod_eq [of n 100] div_mult_mod_eq [of "n div 100" 100] by linarith
  moreover have "0 \<le> n div 100" using nn by (simp add: n_def)
  ultimately show "d = civil (year d) (month d) (day d)"
    using nn unfolding year_def month_def day_def civil_def n_def
    by (cases d) (simp add: cdiv_nonneg cmod_nonneg)
  show "0 \<le> year d" using nn by (simp add: year_def cdiv_nonneg)
  show "civil_ok (year d) (month d) (day d)" "year d \<le> 214747"
    using assms by (simp_all add: calendar_date_def)
qed

lemma calendar_date_of_civil:
  assumes "0 \<le> y" and "y \<le> 214747" and "civil_ok y m d"
  shows "calendar_date (civil y m d)"
  using assms civil_okD [OF assms(3)]
  by (simp add: calendar_date_def civil_fields) (simp add: civil_def)

section \<open>Years within an era, days within a year\<close>

lemma yoe_recover:
  fixes c q r doy :: int
  assumes b: "0 \<le> c" "c \<le> 3" "0 \<le> q" "q \<le> 24" "0 \<le> r" "r \<le> 3" "0 \<le> doy" "doy \<le> 365"
    and leap: "doy = 365 \<Longrightarrow> r = 3 \<and> (q < 24 \<or> c = 3)"
    and doe: "doe = 36524 * c + 1461 * q + 365 * r + doy"
  shows "year_of_era doe = 100 * c + 4 * q + r"
proof (cases "doe = 146096")
  case True
  then have "c = 3" "q = 24" "r = 3" using b doe by linarith+
  then show ?thesis using True by (simp add: year_of_era_def)
next
  case False
  define e where "e = (if 1460 \<le> 24 * c + q + 365 * r + doy then 1 else 0 :: int)"
  have top: "1461 * q + 365 * r + doy < 36524"
  proof (cases "doy = 365 \<and> q = 24")
    case True
    then have "c = 3" "r = 3" using leap by auto
    then show ?thesis using True doe False by simp
  next
    case F: False
    then show ?thesis using b by (cases "q = 24") auto
  qed
  have e: "0 \<le> doy - e" "doy - e \<le> 364"
    using b leap by (cases "doy = 365"; auto simp: e_def)+
  have "doe div 1460 = 25 * c + q + e" using b doe by (intro div_eqI) (auto simp: e_def)
  moreover have "doe div 36524 = c" using b doe top by (intro div_eqI) auto
  moreover have "doe div 146096 = 0" using b doe top by (intro div_eqI) auto
  ultimately show ?thesis
    unfolding year_of_era_def using doe e by (intro div_eqI) auto
qed

lemma year_day_split:
  fixes doe :: int
  assumes "0 \<le> doe" and "doe \<le> 146096"
  obtains c q r doy :: int
  where "0 \<le> c" "c \<le> 3" "0 \<le> q" "q \<le> 24" "0 \<le> r" "r \<le> 3" "0 \<le> doy" "doy \<le> 365"
    "doy = 365 \<Longrightarrow> r = 3 \<and> (q < 24 \<or> c = 3)"
    "doe = 36524 * c + 1461 * q + 365 * r + doy"
proof -
  define c where "c = min 3 (doe div 36524)"
  define s where "s = doe - 36524 * c"
  define q where "q = s div 1461"
  define t where "t = s mod 1461"
  define r where "r = min 3 (t div 365)"
  define doy where "doy = t - 365 * r"
  have c: "0 \<le> c" "c \<le> 3" using assms by (auto simp: c_def)
  have s: "0 \<le> s" "s \<le> 36524" "c < 3 \<Longrightarrow> s < 36524"
    using assms by (auto simp: s_def c_def min_def)
  have t: "s = 1461 * q + t" "0 \<le> t" "t \<le> 1460" by (auto simp: q_def t_def)
  have q: "0 \<le> q" "q \<le> 24" using s t by auto
  have r: "0 \<le> r" "r \<le> 3" using t by (auto simp: r_def)
  have "t < 365 * r + 365" if "r < 3" using that by (auto simp: r_def min_def split: if_splits)
  moreover have "365 * r \<le> t" "r = 3 \<or> r < 3" using t by (auto simp: r_def min_def)
  ultimately have d: "0 \<le> doy" "doy \<le> 365" "doy = 365 \<Longrightarrow> r = 3" using t by (auto simp: doy_def)
  have "q < 24 \<or> c = 3" if "doy = 365"
  proof (rule ccontr)
    assume "\<not> (q < 24 \<or> c = 3)"
    then have "q = 24" "s < 36524" using q c s by auto
    then show False using t d that by (simp add: doy_def)
  qed
  moreover have "doe = 36524 * c + 1461 * q + 365 * r + doy"
    using t by (simp add: doy_def s_def)
  ultimately show thesis using that c q r d by blast
qed

text \<open>Months counted from March, so that the leap day is the last of the year.\<close>

definition march_length :: "int \<Rightarrow> int" where
  "march_length mp = (if mp \<in> {1, 3, 6, 8} then 30 else if mp = 11 then 29 else 31)"

lemma march_cases:
  fixes mp :: int
  assumes "0 \<le> mp" and "mp \<le> 11"
  shows "mp = 0 \<or> mp = 1 \<or> mp = 2 \<or> mp = 3 \<or> mp = 4 \<or> mp = 5 \<or> mp = 6 \<or> mp = 7 \<or>
    mp = 8 \<or> mp = 9 \<or> mp = 10 \<or> mp = 11"
  using assms by arith

lemma mp_recover:
  fixes mp d :: int
  assumes "0 \<le> mp" "mp \<le> 11" "1 \<le> d" "d \<le> march_length mp"
  shows "(5 * ((153 * mp + 2) div 5 + d - 1) + 2) div 153 = mp"
  using march_cases [OF assms(1,2)] assms(3-)
  by (elim disjE) (auto simp: march_length_def intro!: div_eqI)

lemma doy_bound:
  fixes mp d :: int
  assumes "0 \<le> mp" "mp \<le> 11" "1 \<le> d" "d \<le> march_length mp"
  shows "0 \<le> (153 * mp + 2) div 5 + d - 1" "(153 * mp + 2) div 5 + d - 1 \<le> 365"
    and "(153 * mp + 2) div 5 + d - 1 = 365 \<Longrightarrow> mp = 11 \<and> d = 29"
  using march_cases [OF assms(1,2)] assms(3-)
  by (elim disjE; auto simp: march_length_def)+

lemma doy_split:
  fixes doy :: int
  assumes "0 \<le> doy" and "doy \<le> 365"
  defines "mp \<equiv> (5 * doy + 2) div 153"
  defines "d \<equiv> doy - (153 * mp + 2) div 5 + 1"
  shows "0 \<le> mp" "mp \<le> 11" "1 \<le> d" "d \<le> march_length mp" "d = 29 \<Longrightarrow> mp = 11 \<Longrightarrow> doy = 365"
proof -
  have mp: "0 \<le> mp" "mp \<le> 11" "153 * mp \<le> 5 * doy + 2" "5 * doy + 2 < 153 * mp + 153"
    using assms by (auto simp: mp_def)
  then show "0 \<le> mp" "mp \<le> 11" by auto
  show "1 \<le> d" "d \<le> march_length mp" "d = 29 \<Longrightarrow> mp = 11 \<Longrightarrow> doy = 365"
    using march_cases [OF mp(1,2)] mp assms(2)
    by (elim disjE; auto simp: d_def march_length_def)+
qed

section \<open>The formulas as a mixed-radix count\<close>

text \<open>The March-based year of a date, and the day count in terms of it.\<close>

definition day_of_era :: "int \<Rightarrow> int \<Rightarrow> int \<Rightarrow> int" where
  "day_of_era yoe mp d =
     yoe * 365 + yoe div 4 - yoe div 100 + ((153 * mp + 2) div 5 + d - 1)"

lemma era_div:
  "cdiv (if 0 \<le> y then y else y - 399) 400 = y div 400"
proof (cases "0 \<le> y")
  case False
  have "400 * (y div 400) \<le> y" and "y < 400 * (y div 400) + 400" by linarith+
  then have "(- (y - 399)) div 400 = - (y div 400)"
    by (intro div_eqI) (simp_all add: algebra_simps)
  with False show ?thesis by (simp add: cdiv_neg)
qed (simp add: cdiv_nonneg)

lemma era_div_days:
  "cdiv (if 0 \<le> z then z else z - 146096) 146097 = z div 146097"
proof (cases "0 \<le> z")
  case False
  have "146097 * (z div 146097) \<le> z" and "z < 146097 * (z div 146097) + 146097" by linarith+
  then have "(- (z - 146096)) div 146097 = - (z div 146097)"
    by (intro div_eqI) (simp_all add: algebra_simps)
  with False show ?thesis by (simp add: cdiv_neg)
qed (simp add: cdiv_nonneg)

lemma march_month:
  fixes m :: int
  assumes "1 \<le> m" and "m \<le> 12"
  shows "to_u32 (m + 9) mod 12 = (if m \<le> 2 then m + 9 else m - 3)"
proof -
  have "to_u32 (m + 9) = m + 9" using assms by (simp add: to_u32_id)
  then show ?thesis using assms by (simp split: if_splits) presburger
qed

lemma days_from_civil_eq:
  fixes y0 m d :: int
  assumes "1 \<le> m" and "m \<le> 12" and "1 \<le> d" and "d \<le> march_length (if m \<le> 2 then m + 9 else m - 3)"
  defines "y \<equiv> y0 - (if m \<le> 2 then 1 else 0)"
  defines "mp \<equiv> (if m \<le> 2 then m + 9 else m - 3)"
  shows "days_from_civil y0 m d = y div 400 * 146097 + day_of_era (y mod 400) mp d - 719468"
proof -
  have mp: "0 \<le> mp" "mp \<le> 11" using assms by (auto simp: mp_def)
  have yoe: "to_u32 (y - y div 400 * 400) = y mod 400"
    by (simp add: minus_div_mult_eq_mod to_u32_id)
  have m: "to_u32 (m + 9) mod 12 = mp" using assms(1,2) by (simp add: march_month mp_def)
  have "d \<le> march_length mp" using assms(4) by (simp add: mp_def)
  note doy = doy_bound [OF mp assms(3) this]
  have u: "to_u32 (153 * mp + 2) = 153 * mp + 2" using mp by (simp add: to_u32_id)
  have ud: "to_u32 ((153 * mp + 2) div 5 + d - 1) = (153 * mp + 2) div 5 + d - 1"
    using doy by (simp add: to_u32_id)
  have "to_u32 (y mod 400 * 365 + y mod 400 div 4 - y mod 400 div 100 +
      ((153 * mp + 2) div 5 + d - 1)) = day_of_era (y mod 400) mp d"
  proof -
    define u where "u = y mod 400"
    have "0 \<le> u" "u < 400" by (auto simp: u_def)
    then have "0 \<le> u * 365 + u div 4 - u div 100" "u * 365 + u div 4 - u div 100 \<le> 150000"
      by linarith+
    then show ?thesis
      unfolding day_of_era_def u_def [symmetric] using doy(1,2) by (intro to_u32_id) auto
  qed
  then show ?thesis
    unfolding days_from_civil_def Let_def y_def [symmetric] era_div m u ud yoe by simp
qed

lemma is_leap_era: "is_leap (era * 400 + y) = is_leap y"
proof -
  have "(era * 400 + y) mod k = y mod k" if "k dvd 400" for k
    using that by (simp add: mod_eq_dvd_iff dvd_mult)
  then show ?thesis by (simp add: is_leap_def)
qed

lemma leap_position:
  assumes "0 \<le> yoe" and "yoe < 400" and "is_leap (yoe + 1)"
  shows "yoe mod 100 mod 4 = 3" and "yoe mod 100 div 4 < 24 \<or> yoe div 100 = 3"
proof -
  have four: "(yoe + 1) mod 4 = 0" and cent: "(yoe + 1) mod 100 = 0 \<Longrightarrow> (yoe + 1) mod 400 = 0"
    using assms(3) by (auto simp: is_leap_def)
  have "yoe mod 100 mod 4 = yoe mod 4" by (simp add: mod_mod_cancel)
  moreover have "yoe mod 4 = 3" using four by presburger
  ultimately show "yoe mod 100 mod 4 = 3" by simp
  show "yoe mod 100 div 4 < 24 \<or> yoe div 100 = 3"
  proof (cases "yoe mod 100 = 99")
    case True
    then have "(yoe + 1) mod 100 = 0" by presburger
    then have "(yoe + 1) mod 400 = 0" by (rule cent)
    then have "400 dvd yoe + 1" by (rule mod_0_imp_dvd)
    then have "400 \<le> yoe + 1" using assms(1) by (intro zdvd_imp_le) auto
    then have "yoe + 1 = 400" using assms(2) by simp
    then show ?thesis by simp
  next
    case False
    have "yoe mod 100 < 100" by simp
    moreover from \<open>yoe mod 100 mod 4 = 3\<close> have "yoe mod 100 = 4 * (yoe mod 100 div 4) + 3"
      using mult_div_mod_eq [of 4 "yoe mod 100"] by simp
    ultimately show ?thesis using False by linarith
  qed
qed

text \<open>The era day of a date determines the year of the era, the month and the day.\<close>

lemma day_of_era_recover:
  assumes yoe: "0 \<le> yoe" "yoe < 400" and mp: "0 \<le> mp" "mp \<le> 11"
    and d: "1 \<le> d" "d \<le> march_length mp"
    and leap: "mp = 11 \<Longrightarrow> d = 29 \<Longrightarrow> is_leap (yoe + 1)"
  defines "doe \<equiv> day_of_era yoe mp d"
  shows "0 \<le> doe" "doe \<le> 146096"
    and "year_of_era doe = yoe"
    and "doe - (365 * yoe + yoe div 4 - yoe div 100) = (153 * mp + 2) div 5 + d - 1"
    and "(5 * (doe - (365 * yoe + yoe div 4 - yoe div 100)) + 2) div 153 = mp"
proof -
  define doy where "doy = (153 * mp + 2) div 5 + d - 1"
  define c q r where "c = yoe div 100" and "q = yoe mod 100 div 4" and "r = yoe mod 100 mod 4"
  note bnd = doy_bound [OF mp d, folded doy_def]
  have cqr: "0 \<le> c" "c \<le> 3" "0 \<le> q" "q \<le> 24" "0 \<le> r" "r \<le> 3" "yoe = 100 * c + 4 * q + r"
    using yoe by (auto simp: c_def q_def r_def)
  have lp: "r = 3 \<and> (q < 24 \<or> c = 3)" if "doy = 365"
    using leap_position [OF yoe] leap bnd(3) [OF that] by (simp add: c_def q_def r_def)
  have "yoe div 4 = 25 * c + q" using cqr by (intro div_eqI) auto
  then have doe: "doe = 36524 * c + 1461 * q + 365 * r + doy"
    using cqr by (simp add: doe_def day_of_era_def doy_def c_def [symmetric])
  then show "0 \<le> doe" using cqr bnd by simp
  show "doe \<le> 146096"
    using doe cqr bnd lp by (cases "doy = 365") auto
  show "year_of_era doe = yoe"
    using yoe_recover [OF cqr(1-6) bnd(1,2) lp doe] cqr(7) by simp
  show off: "doe - (365 * yoe + yoe div 4 - yoe div 100) = (153 * mp + 2) div 5 + d - 1"
    by (simp add: doe_def day_of_era_def)
  show "(5 * (doe - (365 * yoe + yoe div 4 - yoe div 100)) + 2) div 153 = mp"
    unfolding off by (rule mp_recover [OF mp d])
qed

lemma date_from_days_eq:
  assumes "0 \<le> yoe" "yoe < 400" "0 \<le> mp" "mp \<le> 11" "1 \<le> d" "d \<le> march_length mp"
    and "mp = 11 \<Longrightarrow> d = 29 \<Longrightarrow> is_leap (yoe + 1)"
    and z: "z = era * 146097 + day_of_era yoe mp d - 719468"
  defines "m \<equiv> (if mp < 10 then mp + 3 else mp - 9)"
  shows "date_from_days z =
    Date (to_i32 ((yoe + era * 400 + (if m \<le> 2 then 1 else 0)) * 10000 + m * 100 + d))"
proof -
  note r = day_of_era_recover [OF assms(1-7)]
  have e: "(z + 719468) div 146097 = era" using z r(1,2) by (intro div_eqI) auto
  have doe: "z + 719468 - era * 146097 = day_of_era yoe mp d" using z by simp
  show ?thesis
    unfolding date_from_days_def m_def
    by (simp only: Let_def era_div_days e doe r(3) r(4) mp_recover [OF assms(3-6)]
        cong: let_weak_cong) simp
qed

lemma march_length_civil:
  assumes "civil_ok y m d"
  defines "mp \<equiv> (if m \<le> 2 then m + 9 else m - 3)"
  shows "0 \<le> mp" "mp \<le> 11" "d \<le> march_length mp" "mp = 11 \<Longrightarrow> d = 29 \<Longrightarrow> is_leap y"
    "(if mp < 10 then mp + 3 else mp - 9) = m"
  using assms(1) by (auto simp: civil_ok_def days_in_month_def march_length_def mp_def split: if_splits)

text \<open>Day counts go to dates and back.\<close>

lemma date_from_days_civil:
  assumes ok: "civil_ok y m d"
  shows "date_from_days (days_from_civil y m d) = Date (to_i32 (y * 10000 + m * 100 + d))"
proof -
  define mp where "mp = (if m \<le> 2 then m + 9 else m - 3)"
  define y' where "y' = y - (if m \<le> 2 then 1 else 0)"
  note ml = march_length_civil [OF ok, folded mp_def]
  note md = civil_okD [OF ok]
  have z: "days_from_civil y m d = y' div 400 * 146097 + day_of_era (y' mod 400) mp d - 719468"
    using days_from_civil_eq [of m d y] md ml by (simp add: mp_def y'_def)
  have "is_leap (y' mod 400 + 1)" if "mp = 11" "d = 29"
  proof -
    have "y = y' + 1" using that ml by (auto simp: mp_def y'_def split: if_splits)
    then have "y = y' div 400 * 400 + (y' mod 400 + 1)" by simp
    then show ?thesis using ml(4) [OF that] is_leap_era by metis
  qed
  then have "date_from_days (days_from_civil y m d) =
      Date (to_i32 ((y' mod 400 + y' div 400 * 400 + (if m \<le> 2 then 1 else 0)) * 10000 + m * 100 + d))"
    using date_from_days_eq [OF _ _ ml(1,2) _ ml(3) _ z] md ml(5) by simp
  then show ?thesis by (simp add: y'_def)
qed

lemma to_i32_civil:
  assumes "0 \<le> y" "y \<le> 214747" "civil_ok y m d"
  shows "to_i32 (y * 10000 + m * 100 + d) = y * 10000 + m * 100 + d"
  using assms civil_okD [OF assms(3)] by (intro to_i32_id) auto

lemma day_number_civil:
  assumes "0 \<le> y" "civil_ok y m d"
  shows "day_number (civil y m d) = days_from_civil y m d"
  using civil_okD [OF assms(2)] assms(1)
  by (simp add: day_number_def civil_fields to_u32_id)

lemma date_from_day_number:
  assumes "calendar_date d"
  shows "date_from_days (day_number d) = d"
proof -
  note c = calendar_date_civil [OF assms]
  have "day_number d = days_from_civil (year d) (month d) (day d)"
    using day_number_civil [OF c(2,3)] c(1) by simp
  then have "date_from_days (day_number d) = civil (year d) (month d) (day d)"
    using date_from_days_civil [OF c(3)] to_i32_civil [OF c(2,4,3)] by (simp add: civil_def)
  with c(1) show ?thesis by simp
qed

text \<open>The day counts of the dates 0000-01-01 to 209999-12-31 lie in this range.\<close>

definition day_range :: "int \<Rightarrow> bool" where
  "day_range z \<longleftrightarrow> -719528 \<le> z \<and> z \<le> 75000000"

lemma date_of_day_count:
  assumes "day_range z"
  obtains y m d where "0 \<le> y" "y \<le> 214747" "civil_ok y m d"
    "z = days_from_civil y m d" "date_from_days z = civil y m d"
proof -
  define era where "era = (z + 719468) div 146097"
  define doe where "doe = (z + 719468) mod 146097"
  have zed: "z = era * 146097 + doe - 719468" by (simp add: era_def doe_def)
  have "0 \<le> doe" "doe \<le> 146096" by (simp_all add: doe_def pos_mod_bound zle_diff1_eq [symmetric])
  then obtain c q r doy where cqr: "0 \<le> c" "c \<le> 3" "0 \<le> q" "q \<le> 24" "0 \<le> r" "r \<le> 3"
      "0 \<le> doy" "doy \<le> 365" "doy = 365 \<Longrightarrow> r = 3 \<and> (q < 24 \<or> c = 3)"
      and doe: "doe = 36524 * c + 1461 * q + 365 * r + doy"
    by (rule year_day_split) blast
  define yoe where "yoe = 100 * c + 4 * q + r"
  define mp where "mp = (5 * doy + 2) div 153"
  define d where "d = doy - (153 * mp + 2) div 5 + 1"
  define m where "m = (if mp < 10 then mp + 3 else mp - 9)"
  define y where "y = yoe + era * 400 + (if m \<le> 2 then 1 else 0)"
  note ds = doy_split [OF cqr(7,8), folded mp_def, folded d_def]
  have yoe: "0 \<le> yoe" "yoe < 400" using cqr by (auto simp: yoe_def)
  have "yoe div 4 = 25 * c + q" "yoe div 100 = c" using cqr by (auto simp: yoe_def intro!: div_eqI)
  then have doe': "doe = day_of_era yoe mp d"
    using cqr by (simp add: doe day_of_era_def d_def yoe_def)
  have leap: "is_leap (yoe + 1)" if "mp = 11" "d = 29"
  proof -
    have "r = 3" and qc: "q < 24 \<or> c = 3" using cqr(9) ds(5) that by auto
    then have "yoe + 1 = 100 * c + 4 * (q + 1)" by (simp add: yoe_def)
    moreover have "(yoe + 1) mod 100 \<noteq> 0 \<or> (yoe + 1) mod 400 = 0"
    proof (cases "q = 24")
      case True
      with qc \<open>r = 3\<close> show ?thesis by (simp add: yoe_def)
    next
      case False
      have "(yoe + 1) mod 100 = (4 * (q + 1) + 100 * c) mod 100"
        by (simp add: \<open>yoe + 1 = _\<close>)
      also have "\<dots> = (4 * (q + 1)) mod 100" by (rule mod_mult_self2)
      also have "\<dots> = 4 * (q + 1)" using False cqr by (intro mod_pos_pos_trivial) auto
      finally show ?thesis using cqr by simp
    qed
    ultimately show ?thesis unfolding is_leap_def
      using mod_mult_self2 [of 0 4 "25 * c + (q + 1)"] by (simp add: algebra_simps)
  qed
  have m: "1 \<le> m" "m \<le> 12" "(if m \<le> 2 then m + 9 else m - 3) = mp" using ds by (auto simp: m_def)
  have leap_y: "is_leap y" if "mp = 11" "d = 29"
    using leap [OF that] is_leap_era [of era "yoe + 1"] that by (simp add: y_def m_def algebra_simps)
  have "mp = 11 \<Longrightarrow> d \<le> 28 \<or> is_leap y"
    using leap_y ds(4) by (cases "d = 29") (auto simp: march_length_def)
  then have ok: "civil_ok y m d"
    using ds m by (auto simp: civil_ok_def days_in_month_def march_length_def m_def split: if_splits)
  have split: "(y - (if m \<le> 2 then 1 else 0)) div 400 = era" "(y - (if m \<le> 2 then 1 else 0)) mod 400 = yoe"
    using yoe by (simp_all add: y_def)
  have zc: "z = days_from_civil y m d"
    using days_from_civil_eq [of m d y] m ds split by (simp add: zed doe')
  have "- 1 \<le> era" "era \<le> 520" using assms unfolding era_def day_range_def by linarith+
  have y0: "0 \<le> y"
  proof (cases "era = - 1")
    case True
    then have "146037 \<le> doe" using assms zed by (simp add: day_range_def)
    then have c3: "c = 3" "q = 24" "r = 3" "306 \<le> doy" using cqr doe by linarith+
    then have "10 \<le> mp" using cqr by (simp add: mp_def)
    then show ?thesis using True c3 ds by (auto simp: y_def m_def yoe_def)
  next
    case False
    then show ?thesis using \<open>- 1 \<le> era\<close> yoe by (auto simp: y_def)
  qed
  have "y \<le> 214747" using \<open>era \<le> 520\<close> yoe by (auto simp: y_def)
  moreover have "date_from_days z = civil y m d"
    using date_from_days_civil [OF ok] to_i32_civil [OF y0 _ ok] calculation zc by (simp add: civil_def)
  ultimately show thesis using that y0 ok zc by blast
qed

lemma day_number_date_from_days:
  assumes "day_range z"
  shows "calendar_date (date_from_days z)" and "day_number (date_from_days z) = z"
  using date_of_day_count [OF assms] calendar_date_of_civil day_number_civil by metis+

section \<open>The successor of a date\<close>

lemma next_date_civil_ok:
  assumes "calendar_date d" and "year (next_date d) \<le> 214747"
  shows "calendar_date (next_date d)" and "d < next_date d"
proof -
  note c = calendar_date_civil [OF assms(1)]
  note md = civil_okD [OF c(3)]
  define y m k where "y = year d" and "m = month d" and "k = day d"
  note f = c [folded y_def m_def k_def] md [folded m_def k_def]
  have len: "28 \<le> days_in_month y j" for j by (simp add: days_in_month_def)
  have nd: "next_date d = (if k < days_in_month y m then civil y m (k + 1)
      else if m < 12 then civil y (m + 1) 1 else civil (y + 1) 1 1)"
    by (simp add: next_date_def y_def m_def k_def)
  have len1: "1 \<le> days_in_month i j" for i j by (simp add: days_in_month_def)
  consider "k < days_in_month y m" | "\<not> k < days_in_month y m" "m < 12"
    | "\<not> k < days_in_month y m" "m = 12" using f by linarith
  then have "calendar_date (next_date d) \<and> d < next_date d"
  proof cases
    case 1
    then have "civil_ok y m (k + 1)" using f by (simp add: civil_ok_def)
    moreover have "d < civil y m (k + 1)" by (subst f(1)) (simp add: civil_def)
    ultimately show ?thesis using 1 nd f calendar_date_of_civil by simp
  next
    case 2
    then have "civil_ok y (m + 1) 1" using f len1 by (simp add: civil_ok_def)
    moreover have "d < civil y (m + 1) 1" using f by (subst f(1)) (simp add: civil_def)
    ultimately show ?thesis using 2 nd f calendar_date_of_civil by simp
  next
    case 3
    then have e: "next_date d = civil (y + 1) 1 1" using nd by simp
    have "civil_ok (y + 1) 1 1" by (simp add: civil_ok_def days_in_month_def)
    moreover have "d < civil (y + 1) 1 1" using f 3 by (subst f(1)) (simp add: civil_def)
    ultimately show ?thesis
      using e f assms(2) calendar_date_of_civil [of "y + 1" 1 1] civil_fields(1) [of "y + 1" 1 1]
      by simp
  qed
  then show "calendar_date (next_date d)" "d < next_date d" by auto
qed

lemma day_of_era_succ_year:
  assumes "0 \<le> yoe" "yoe < 399"
  shows "day_of_era (yoe + 1) 0 1 = day_of_era yoe 11 (if is_leap (yoe + 1) then 29 else 28) + 1"
proof -
  have q: "(yoe + 1) div 4 = yoe div 4 + (if (yoe + 1) mod 4 = 0 then 1 else 0)"
    and c: "(yoe + 1) div 100 = yoe div 100 + (if (yoe + 1) mod 100 = 0 then 1 else 0)"
    by (rule div_add_one; simp)+
  have four: "(yoe + 1) mod 4 = 0" if "(yoe + 1) mod 100 = 0"
    using that mod_mod_cancel [of 4 100 "yoe + 1"] by simp
  have "(yoe + 1) mod 400 = yoe + 1" using assms by (intro mod_pos_pos_trivial) auto
  then have top: "(yoe + 1) mod 400 \<noteq> 0" using assms by simp
  have leap: "is_leap (yoe + 1) \<longleftrightarrow> (yoe + 1) mod 4 = 0 \<and> (yoe + 1) mod 100 \<noteq> 0"
    by (simp only: is_leap_def top simp_thms)
  have count: "(yoe + 1) * 365 + (a + (if A then 1 else 0)) - (b + (if B then 1 else 0)) + (0 + 1 - 1) =
      yoe * 365 + a - b + (337 + (if A \<and> \<not> B then 29 else 28) - 1) + 1"
    if "B \<Longrightarrow> A" for a b :: int and A B
    using that by auto
  have zero: "(153 * 0 + 2) div 5 = (0 :: int)" and feb: "(153 * 11 + 2) div 5 = (337 :: int)" by simp_all
  show ?thesis
    unfolding day_of_era_def q c leap zero feb
    by (rule count) (rule four)
qed

lemma day_of_era_next_day: "day_of_era u mp (d + 1) = day_of_era u mp d + 1"
  unfolding day_of_era_def by (simp only: ac_simps diff_conv_add_uminus)

lemma march_offset_next:
  fixes mp :: int
  assumes "0 \<le> mp" and "mp \<le> 10"
  shows "(153 * (mp + 1) + 2) div 5 = (153 * mp + 2) div 5 + march_length mp"
proof -
  have "mp \<le> 11" using assms by simp
  from march_cases [OF assms(1) this] assms(2) show ?thesis
    by (elim disjE) (simp_all add: march_length_def)
qed

lemma day_of_era_next_month:
  assumes "0 \<le> mp" and "mp \<le> 10"
  shows "day_of_era u (mp + 1) 1 = day_of_era u mp (march_length mp) + 1"
  unfolding day_of_era_def march_offset_next [OF assms] by linarith

lemma days_from_civil_next:
  assumes ok: "civil_ok y m d"
  shows "d < days_in_month y m \<Longrightarrow> days_from_civil y m (d + 1) = days_from_civil y m d + 1"
    and "\<not> d < days_in_month y m \<Longrightarrow> m < 12 \<Longrightarrow>
      days_from_civil y (m + 1) 1 = days_from_civil y m d + 1"
    and "\<not> d < days_in_month y m \<Longrightarrow> m = 12 \<Longrightarrow>
      days_from_civil (y + 1) 1 1 = days_from_civil y m d + 1"
proof -
  note md = civil_okD [OF ok] and ml = march_length_civil [OF ok]
  have le: "d \<le> days_in_month y m" using ok by (simp add: civil_ok_def)
  show "days_from_civil y m (d + 1) = days_from_civil y m d + 1" if "d < days_in_month y m"
  proof -
    have "civil_ok y m (d + 1)" using that ok by (simp add: civil_ok_def)
    from march_length_civil(3) [OF this] show ?thesis
      using days_from_civil_eq [of m "d + 1" y, unfolded day_of_era_next_day]
        days_from_civil_eq [of m d y] md ml(3)
      by linarith
  qed
  show "days_from_civil (y + 1) 1 1 = days_from_civil y m d + 1"
    if "\<not> d < days_in_month y m" "m = 12"
  proof -
    have "d = march_length 9" using that le by (simp add: days_in_month_def march_length_def)
    then show ?thesis
      using days_from_civil_eq [of 1 1 "y + 1"] days_from_civil_eq [of m d y] md that(2)
        day_of_era_next_month [of 9 "y mod 400"]
      by (simp add: march_length_def)
  qed
  show "days_from_civil y (m + 1) 1 = days_from_civil y m d + 1"
    if full: "\<not> d < days_in_month y m" and m12: "m < 12"
  proof (cases "m = 2")
    case False
    define mp where "mp = (if m \<le> 2 then m + 9 else m - 3)"
    have mp: "0 \<le> mp" "mp \<le> 10" "(if m + 1 \<le> 2 then m + 1 + 9 else m + 1 - 3) = mp + 1"
      and off: "(if m + 1 \<le> 2 then 1 else 0 :: int) = (if m \<le> 2 then 1 else 0)"
      using False md m12 by (auto simp: mp_def)
    have d: "d = march_length mp"
      using full le False md m12 by (auto simp: days_in_month_def march_length_def mp_def)
    have "1 \<le> march_length (mp + 1)" by (simp add: march_length_def)
    then have "days_from_civil y (m + 1) 1 =
        (y - (if m \<le> 2 then 1 else 0)) div 400 * 146097 +
        day_of_era ((y - (if m \<le> 2 then 1 else 0)) mod 400) (mp + 1) 1 - 719468"
      using days_from_civil_eq [of "m + 1" 1 y, unfolded mp(3) off] md m12 by linarith
    moreover have "days_from_civil y m d =
        (y - (if m \<le> 2 then 1 else 0)) div 400 * 146097 +
        day_of_era ((y - (if m \<le> 2 then 1 else 0)) mod 400) mp (march_length mp) - 719468"
      using days_from_civil_eq [of m d y, folded mp_def] md d by simp
    ultimately show ?thesis using day_of_era_next_month [OF mp(1,2)] by simp
  next
    case True
    define yoe where "yoe = (y - 1) mod 400"
    define era where "era = (y - 1) div 400"
    have y: "y = era * 400 + (yoe + 1)" by (simp add: yoe_def era_def)
    have d: "d = (if is_leap (yoe + 1) then 29 else 28)"
      using full le True is_leap_era [of era "yoe + 1"] by (simp add: days_in_month_def y)
    have feb: "days_from_civil y m d = era * 146097 + day_of_era yoe 11 d - 719468"
      using days_from_civil_eq [of m d y] True md d by (simp add: march_length_def yoe_def era_def)
    have mar: "days_from_civil y 3 1 = y div 400 * 146097 + day_of_era (y mod 400) 0 1 - 719468"
      using days_from_civil_eq [of 3 1 y] by (simp add: march_length_def)
    show ?thesis
    proof (cases "yoe = 399")
      case True
      then have "y div 400 = era + 1" "y mod 400 = 0" "is_leap (yoe + 1)"
        using y by (auto simp: is_leap_def)
      then show ?thesis
        using feb mar \<open>m = 2\<close> d True by (simp add: day_of_era_def)
    next
      case False
      moreover have "0 \<le> yoe" "yoe < 400" by (simp_all add: yoe_def)
      ultimately have r: "0 \<le> yoe" "yoe < 399" by auto
      then have "y div 400 = era" "y mod 400 = yoe + 1" using y by auto
      then show ?thesis
        using feb mar \<open>m = 2\<close> day_of_era_succ_year [OF r] d by simp
    qed
  qed
qed

lemma day_number_next_date:
  assumes "calendar_date d"
  shows "day_number (next_date d) = day_number d + 1"
proof -
  note c = calendar_date_civil [OF assms]
  have dn: "day_number d = days_from_civil (year d) (month d) (day d)"
    using day_number_civil [OF c(2,3)] c(1) by simp
  note md = civil_okD [OF c(3)]
  consider "day d < days_in_month (year d) (month d)"
    | "\<not> day d < days_in_month (year d) (month d)" "month d < 12"
    | "\<not> day d < days_in_month (year d) (month d)" "month d = 12" using md by linarith
  then show ?thesis
  proof cases
    case 1
    then have "civil_ok (year d) (month d) (day d + 1)" using c(3) by (simp add: civil_ok_def)
    then show ?thesis
      using 1 days_from_civil_next(1) [OF c(3) 1] c(2) dn by (simp add: next_date_def day_number_civil)
  next
    case 2
    then have "civil_ok (year d) (month d + 1) 1" using md by (simp add: civil_ok_def days_in_month_def)
    then show ?thesis
      using 2 days_from_civil_next(2) [OF c(3) 2] c(2) dn by (simp add: next_date_def day_number_civil)
  next
    case 3
    have "civil_ok (year d + 1) 1 1" by (simp add: civil_ok_def days_in_month_def)
    then show ?thesis
      using 3 days_from_civil_next(3) [OF c(3) 3] c(2) dn by (simp add: next_date_def day_number_civil)
  qed
qed

section \<open>Dates as day counts\<close>

lemma date_from_days_step:
  assumes "day_range z" and "day_range (z + 1)"
  shows "date_from_days (z + 1) = next_date (date_from_days z)"
    and "date_from_days z < date_from_days (z + 1)"
proof -
  note d = day_number_date_from_days [OF assms(1)] and d' = day_number_date_from_days [OF assms(2)]
  let ?n = "next_date (date_from_days z)"
  have yb: "year (date_from_days z) \<le> 210000"
  proof (rule ccontr)
    note c = calendar_date_civil [OF d(1)]
    assume "\<not> ?thesis"
    then have "210000 \<le> (year (date_from_days z) - 1)" by simp
    define y where "y = year (date_from_days z)"
    define u where "u = y - (if month (date_from_days z) \<le> 2 then 1 else 0)"
    have u: "210000 \<le> u" using \<open>210000 \<le> _\<close> by (simp add: u_def y_def)
    note md = civil_okD [OF c(3)] and ml = march_length_civil [OF c(3)]
    define mp where "mp = (if month (date_from_days z) \<le> 2 then month (date_from_days z) + 9
      else month (date_from_days z) - 3)"
    have "z = u div 400 * 146097 + day_of_era (u mod 400) mp (day (date_from_days z)) - 719468"
      using days_from_civil_eq [of "month (date_from_days z)" "day (date_from_days z)" y] md ml(3)
        day_number_civil [OF c(2,3)] c(1) d(2) by (simp add: u_def mp_def y_def)
    moreover have "0 \<le> day_of_era (u mod 400) mp (day (date_from_days z))"
    proof -
      have "0 \<le> (153 * mp + 2) div 5 + day (date_from_days z) - 1"
        using doy_bound(1) [of mp "day (date_from_days z)"] ml(1,2,3) md by (simp add: mp_def)
      moreover have "0 \<le> u mod 400 * 365 + u mod 400 div 4 - u mod 400 div 100"
      proof -
        define v where "v = u mod 400"
        have "0 \<le> v" by (simp add: v_def)
        then have "v div 100 \<le> v" "0 \<le> v div 4" by linarith+
        then show ?thesis using \<open>0 \<le> v\<close> unfolding v_def by linarith
      qed
      ultimately show ?thesis unfolding day_of_era_def by linarith
    qed
    moreover have "525 \<le> u div 400" using u by linarith
    ultimately show False using assms(1) by (simp add: day_range_def)
  qed
  have "year ?n \<le> 214747"
  proof -
    note c = calendar_date_civil [OF d(1)] and md = civil_okD [OF calendar_date_civil(3) [OF d(1)]]
    have "days_in_month (year (date_from_days z)) (month (date_from_days z)) \<le> 31"
      by (simp add: days_in_month_def)
    then show ?thesis using yb c md by (auto simp: next_date_def civil_fields)
  qed
  note n = next_date_civil_ok [OF d(1) this]
  have "day_number ?n = z + 1" using day_number_next_date [OF d(1)] d(2) by simp
  then show eq: "date_from_days (z + 1) = ?n" using date_from_day_number [OF n(1)] by simp
  show "date_from_days z < date_from_days (z + 1)" using n(2) eq by simp
qed

lemma date_from_days_strict:
  assumes "day_range a" and "day_range b" and "a < b"
  shows "date_from_days a < date_from_days b"
proof -
  have "date_from_days a < date_from_days (a + int (Suc k))" if "day_range (a + int (Suc k))" for k
    using that
  proof (induction k)
    case 0
    then show ?case using date_from_days_step(2) [OF assms(1)] by simp
  next
    case (Suc k)
    have r: "day_range (a + int (Suc k))" using Suc.prems assms(1) by (simp add: day_range_def)
    with Suc.IH have "date_from_days a < date_from_days (a + int (Suc k))" by simp
    also have "\<dots> < date_from_days (a + int (Suc k) + 1)"
      by (rule date_from_days_step(2) [OF r]) (use Suc.prems in \<open>simp add: ac_simps\<close>)
    finally show ?case by (simp add: ac_simps)
  qed
  from this [of "nat (b - a - 1)"] assms show ?thesis by simp
qed

lemma calendar_date_le_iff:
  assumes "calendar_date d" "calendar_date e" "day_range (day_number d)" "day_range (day_number e)"
  shows "d < e \<longleftrightarrow> day_number d < day_number e"
  using date_from_days_strict [OF assms(3,4)] date_from_days_strict [OF assms(4,3)]
    date_from_day_number [OF assms(1)] date_from_day_number [OF assms(2)]
  by (metis less_asym linorder_neqE)

lemma add_days_day_number:
  assumes "day_range (day_number d + n)"
  shows "day_number (add_days d n) = day_number d + n" and "calendar_date (add_days d n)"
  using day_number_date_from_days [OF assms] by (simp_all add: add_days_def)

lemma weekday_of_eq:
  "weekday_of d = (day_number d + 4) mod 7"
proof -
  have "cmod x 7 = x mod 7 \<or> cmod x 7 = x mod 7 - 7" for x
  proof (cases "0 \<le> x")
    case False
    then have "cmod x 7 = x + 7 * ((- x) div 7)" by (simp add: cmod_def cdiv_neg)
    also have "\<dots> = - ((- x) mod 7)" using minus_mult_div_eq_mod [of "- x" 7] by simp
    finally show ?thesis using zmod_zminus1_eq_if [of "- x" 7] by (auto split: if_splits)
  qed (simp add: cmod_nonneg)
  moreover have "0 \<le> (day_number d + 4) mod 7" "(day_number d + 4) mod 7 < 7" by simp_all
  ultimately have "cmod (cmod (day_number d + 4) 7 + 7) 7 = (cmod (day_number d + 4) 7 + 7) mod 7"
    by (intro cmod_nonneg) (smt (verit))+
  then show ?thesis
    using \<open>\<And>x. cmod x 7 = x mod 7 \<or> cmod x 7 = x mod 7 - 7\<close> [of "day_number d + 4"]
    by (auto simp: weekday_of_def)
qed

lemma timestamp_of_strict:
  assumes "day_number d < day_number e" and "0 \<le> s" "s < 86400" "0 \<le> t" "t < 86400"
  shows "timestamp_of d s off < timestamp_of e t off"
  using assms by (simp add: timestamp_of_def from_seconds_def)

section \<open>Properties\<close>

text \<open>C1: packing a day count into a date and counting its days again are inverse.  Every
  calendar date survives the trip through the day count, and every day count between the years
  0 and 204999 survives the trip through the date, which is always a real calendar date.\<close>

theorem date_day_count_roundtrip:
  assumes "calendar_date d" and "day_range z"
  shows "date_from_days (day_number d) = d \<and>
    calendar_date (date_from_days z) \<and> day_number (date_from_days z) = z"
  using date_from_day_number [OF assms(1)] day_number_date_from_days [OF assms(2)] by simp

theorem date_day_count_roundtrip_witness:
  "calendar_date (Date 20240229) \<and> date_from_days (day_number (Date 20240229)) = Date 20240229 \<and>
   day_number (date_from_days 20000) = 20000"
proof -
  have c: "calendar_date (Date 20240229)" by code_simp
  have r: "day_range 20000" by (simp add: day_range_def)
  show ?thesis using c date_day_count_roundtrip [OF c r] by simp
qed

text \<open>C2: the day count is the Gregorian calendar's.  It is 0 on 1970-01-01, a Thursday, and
  moving to the next calendar date (month lengths and leap years included) moves it by exactly
  one day and the weekday to its successor.\<close>

theorem day_count_is_gregorian:
  assumes "calendar_date d"
  shows "day_number (Date 19700101) = 0 \<and> weekday_of (Date 19700101) = 4 \<and>
    day_number (next_date d) = day_number d + 1 \<and>
    weekday_of (next_date d) = (weekday_of d + 1) mod 7"
proof -
  have "day_number (Date 19700101) = 0" by code_simp
  moreover have "weekday_of (next_date d) = (weekday_of d + 1) mod 7"
    using mod_add_left_eq [of "day_number d + 4" 7 1]
    by (simp add: weekday_of_eq day_number_next_date [OF assms])
  ultimately show ?thesis by (simp add: day_number_next_date [OF assms] weekday_of_eq)
qed

theorem day_count_is_gregorian_witness:
  "next_date (Date 20231231) = Date 20240101 \<and>
   day_number (next_date (Date 20231231)) = day_number (Date 20231231) + 1"
proof -
  have c: "calendar_date (Date 20231231)" by code_simp
  have "next_date (Date 20231231) = Date 20240101" by code_simp
  then show ?thesis using day_count_is_gregorian [OF c] by simp
qed

text \<open>Adding days is exact and respects the order of dates: \<open>add_days\<close> lands on the date
  whose day count is moved by \<open>n\<close>, shifts compose, and of two shifts of one date the larger
  is the later date under the integer comparison of the packed form.\<close>

theorem add_days_order:
  assumes "calendar_date d" and "day_range (day_number d + m)" and "day_range (day_number d + m + n)"
  shows "add_days (add_days d m) n = add_days d (m + n) \<and>
    day_number (add_days d (m + n)) = day_number d + m + n \<and>
    (add_days d m < add_days d (m + n) \<longleftrightarrow> 0 < n)"
proof -
  have r: "day_range (day_number d + (m + n))" using assms(3) by (simp add: ac_simps)
  note a = add_days_day_number [OF assms(2)] and b = add_days_day_number [OF r]
  have "add_days (add_days d m) n = add_days d (m + n)"
    unfolding add_days_def [of "add_days d m"] a(1) by (simp add: add_days_def ac_simps)
  moreover have "add_days d m < add_days d (m + n) \<longleftrightarrow> 0 < n"
    using calendar_date_le_iff [OF a(2) b(2)] a(1) b(1) assms(2) r by simp
  ultimately show ?thesis using b by (simp add: ac_simps)
qed

theorem add_days_order_witness:
  "add_days (add_days (Date 20240227) 1) 2 = add_days (Date 20240227) 3 \<and>
   add_days (Date 20240227) 3 = Date 20240301"
proof -
  have c: "calendar_date (Date 20240227)" by code_simp
  have r: "day_range (day_number (Date 20240227) + 1)" by code_simp
  have s: "day_range (day_number (Date 20240227) + 1 + 2)" by code_simp
  have "add_days (Date 20240227) 3 = Date 20240301" by code_simp
  then show ?thesis using add_days_order [OF c r s] by simp
qed

end
