(* ===== verification/Registry.thy ===== *)
theory Registry
  imports CoreTypes Calendar
begin

text \<open>
  \<open>instrument.hpp\<close> and \<open>instrument.cpp\<close>: the registry that interns underlying names and
  instrument descriptions.  Both of its tables are interning tables, a contract stated once as
  the locale \<open>interner\<close> and interpreted on \<open>intern_underlying\<close> and on \<open>add\<close>.  A
  \<open>std::unordered_map\<close> is a partial map: its hash only places the entries.
\<close>

section \<open>State\<close>

record instrument_spec =
  spec_id :: instrument_id
  underlying :: underlying_id
  kind :: instrument_kind
  expiry :: date
  strike :: price
  right_of :: right
  lot_size :: qty
  tick_size :: price

definition is_option :: "instrument_spec \<Rightarrow> bool" where
  "is_option s \<longleftrightarrow> kind s = Option"

text \<open>The members of \<open>Key\<close> in order: underlying, kind, expiry, strike, right.\<close>

datatype spec_key = Key int int int int int

record registry =
  specs :: "instrument_spec list"
  by_key :: "spec_key \<Rightarrow> instrument_id option"
  underlyings :: "string list"
  underlying_ids :: "string \<Rightarrow> underlying_id option"

definition empty_registry :: registry where
  "empty_registry = \<lparr>specs = [], by_key = Map.empty, underlyings = [], underlying_ids = Map.empty\<rparr>"

section \<open>Operations\<close>

text \<open>The underlying integers of the two enumerations.\<close>

fun kind_code :: "instrument_kind \<Rightarrow> int" where
  "kind_code Spot = 0"
| "kind_code Future = 1"
| "kind_code Option = 2"

fun right_code :: "right \<Rightarrow> int" where
  "right_code Call = 0"
| "right_code Put = 1"

definition key_of :: "instrument_spec \<Rightarrow> spec_key" where
  "key_of s =
     Key (uindex (underlying s)) (kind_code (kind s)) (yyyymmdd (expiry s)) (minor (strike s))
       (if kind s = Option then right_code (right_of s) else 0)"

definition intern_underlying :: "string \<Rightarrow> registry \<Rightarrow> underlying_id \<times> registry" where
  "intern_underlying name r =
     (case underlying_ids r name of
        Some i \<Rightarrow> (i, r)
      | None \<Rightarrow>
          let i = UnderlyingId (to_i32 (int (length (underlyings r))))
          in (i, r\<lparr>underlyings := underlyings r @ [name],
                   underlying_ids := (underlying_ids r)(name \<mapsto> i)\<rparr>))"

definition underlying_name :: "registry \<Rightarrow> underlying_id \<Rightarrow> exn + string" where
  "underlying_name r i =
     (if uindex i < 0 \<or> int (length (underlyings r)) \<le> uindex i
      then Inl (OutOfRange ''unknown underlying id'')
      else Inr (underlyings r ! nat (uindex i)))"

definition add :: "instrument_spec \<Rightarrow> registry \<Rightarrow> instrument_id \<times> registry" where
  "add s r =
     (let k = key_of s
      in case by_key r k of
           Some i \<Rightarrow> (i, r)
         | None \<Rightarrow>
             let i = InstrumentId (to_i32 (int (length (specs r))))
             in (i, r\<lparr>specs := specs r @ [s\<lparr>spec_id := i\<rparr>], by_key := (by_key r)(k \<mapsto> i)\<rparr>))"

definition spec :: "registry \<Rightarrow> instrument_id \<Rightarrow> exn + instrument_spec" where
  "spec r i =
     (if index_of i < 0 \<or> int (length (specs r)) \<le> index_of i
      then Inl (OutOfRange ''unknown instrument id'')
      else Inr (specs r ! nat (index_of i)))"

definition find_option ::
    "registry \<Rightarrow> underlying_id \<Rightarrow> date \<Rightarrow> price \<Rightarrow> right \<Rightarrow> instrument_id option" where
  "find_option r u e k rt =
     by_key r (Key (uindex u) (kind_code Option) (yyyymmdd e) (minor k) (right_code rt))"

definition find_spot :: "registry \<Rightarrow> underlying_id \<Rightarrow> instrument_id option" where
  "find_spot r u = by_key r (Key (uindex u) (kind_code Spot) 0 0 0)"

definition expiries :: "registry \<Rightarrow> underlying_id \<Rightarrow> date list" where
  "expiries r u =
     remdups_adj (sort (map expiry
       (filter (\<lambda>s. underlying s = u \<and> kind s \<noteq> Spot \<and> date_valid (expiry s)) (specs r))))"

text \<open>Interning a list, one entry after another.\<close>

fun intern_all :: "('a \<Rightarrow> 's \<Rightarrow> 'id \<times> 's) \<Rightarrow> 'a list \<Rightarrow> 's \<Rightarrow> 'id list \<times> 's" where
  "intern_all f [] s = ([], s)"
| "intern_all f (x # xs) s =
     (let (i, s1) = f x s; (is, s2) = intern_all f xs s1 in (i # is, s2))"

section \<open>The interning contract\<close>

text \<open>
  What a client of an interning table relies on: the table is a partial injection from keys to
  ids, interning adds exactly the key asked for, and a key already present keeps its id and
  leaves the table alone.  Ids are 32-bit, so there is room for \<open>2 ^ 31\<close> entries.
\<close>

locale interner =
  fixes intern :: "'a \<Rightarrow> 's \<Rightarrow> 'id \<times> 's"
    and key :: "'a \<Rightarrow> 'k"
    and lookup :: "'s \<Rightarrow> 'k \<Rightarrow> 'id option"
    and ok :: "'s \<Rightarrow> bool"
    and entries :: "'s \<Rightarrow> nat"
  assumes intern_adds: "ok s \<Longrightarrow> entries s < 2 ^ 31 \<Longrightarrow> intern x s = (i, s') \<Longrightarrow>
      ok s' \<and> lookup s' = (lookup s)(key x \<mapsto> i) \<and> entries s' \<le> Suc (entries s)"
    and intern_known: "ok s \<Longrightarrow> lookup s (key x) = Some i \<Longrightarrow> intern x s = (i, s)"
    and lookup_inj: "ok s \<Longrightarrow> lookup s k = Some i \<Longrightarrow> lookup s l = Some i \<Longrightarrow> k = l"
begin

lemma intern_keeps:
  assumes "ok s" and "entries s < 2 ^ 31" and "intern x s = (i, s')" and "lookup s k = Some j"
  shows "lookup s' k = Some j"
  using intern_adds [OF assms(1-3)] intern_known [OF assms(1), of x] assms by (cases "k = key x") auto

lemma intern_twice:
  assumes "ok s" and "entries s < 2 ^ 31" and "intern x s = (i, s')" and "key y = key x"
  shows "intern y s' = (i, s')"
  using intern_adds [OF assms(1-3)] intern_known [of s' y i] assms(4) by simp

lemma intern_all_laws:
  assumes "ok s" and "entries s + length xs \<le> 2 ^ 31" and "intern_all intern xs s = (is, s')"
  shows "ok s' \<and> length is = length xs \<and>
    (\<forall>k j. lookup s k = Some j \<longrightarrow> lookup s' k = Some j) \<and>
    (\<forall>n < length xs. lookup s' (key (xs ! n)) = Some (is ! n))"
  using assms
proof (induction xs arbitrary: s "is" s')
  case (Cons x xs)
  obtain i s1 where 1: "intern x s = (i, s1)" by (cases "intern x s")
  obtain js s2 where 2: "intern_all intern xs s1 = (js, s2)" by (cases "intern_all intern xs s1")
  have e: "is = i # js" "s' = s2" using Cons.prems(3) 1 2 by simp_all
  have room: "entries s < 2 ^ 31" using Cons.prems(2) by simp
  note a = intern_adds [OF Cons.prems(1) room 1]
  have "entries s1 + length xs \<le> 2 ^ 31" using a Cons.prems(2) by simp
  with a 2 have ih: "ok s' \<and> length js = length xs \<and>
      (\<forall>k j. lookup s1 k = Some j \<longrightarrow> lookup s' k = Some j) \<and>
      (\<forall>n < length xs. lookup s' (key (xs ! n)) = Some (js ! n))"
    using Cons.IH [of s1 js s'] e by blast
  have "lookup s' k = Some j" if "lookup s k = Some j" for k j
    using intern_keeps [OF Cons.prems(1) room 1 that] ih by blast
  moreover have "lookup s' (key x) = Some i" using a ih by simp
  ultimately show ?case using ih e by (auto simp: less_Suc_eq_0_disj)
qed auto

lemma intern_all_ids:
  assumes "ok s" and "entries s + length xs \<le> 2 ^ 31" and "intern_all intern xs s = (is, s')"
    and "m < length xs" and "n < length xs"
  shows "is ! m = is ! n \<longleftrightarrow> key (xs ! m) = key (xs ! n)"
  using intern_all_laws [OF assms(1-3)] lookup_inj [of s'] assms(4,5) by (metis option.inject)

end

section \<open>Invariant\<close>

definition underlyings_ok :: "registry \<Rightarrow> bool" where
  "underlyings_ok r \<longleftrightarrow> length (underlyings r) \<le> 2 ^ 31 \<and>
     (\<forall>name i. underlying_ids r name = Some i \<longleftrightarrow>
        (\<exists>n < length (underlyings r). i = UnderlyingId (int n) \<and> underlyings r ! n = name))"

definition specs_ok :: "registry \<Rightarrow> bool" where
  "specs_ok r \<longleftrightarrow> length (specs r) \<le> 2 ^ 31 \<and>
     (\<forall>n < length (specs r). spec_id (specs r ! n) = InstrumentId (int n)) \<and>
     (\<forall>k i. by_key r k = Some i \<longleftrightarrow>
        (\<exists>n < length (specs r). i = InstrumentId (int n) \<and> key_of (specs r ! n) = k))"

definition registry_ok :: "registry \<Rightarrow> bool" where
  "registry_ok r \<longleftrightarrow> underlyings_ok r \<and> specs_ok r"

lemma registry_ok_empty: "registry_ok empty_registry"
  by (simp add: registry_ok_def underlyings_ok_def specs_ok_def empty_registry_def)

lemma to_i32_length: "length xs < 2 ^ 31 \<Longrightarrow> to_i32 (int (length xs)) = int (length xs)"
  by (intro to_i32_id) auto

text \<open>Appending a fresh key to a positional table extends the map by one position.\<close>

lemma positions_append:
  assumes "\<forall>k i. m k = Some i \<longleftrightarrow> (\<exists>n < length xs. i = f n \<and> g (xs ! n) = k)" and "m (g x) = None"
  shows "((m(g x \<mapsto> f (length xs))) k = Some i) \<longleftrightarrow>
    (\<exists>n < length (xs @ [x]). i = f n \<and> g ((xs @ [x]) ! n) = k)"
proof (cases "k = g x")
  case True
  have none: "\<not> (\<exists>n < length xs. g (xs ! n) = g x)"
    using assms by (metis option.distinct(1))
  show ?thesis
  proof
    assume "(m(g x \<mapsto> f (length xs))) k = Some i"
    then show "\<exists>n < length (xs @ [x]). i = f n \<and> g ((xs @ [x]) ! n) = k"
      using True by (intro exI [of _ "length xs"]) simp
  next
    assume "\<exists>n < length (xs @ [x]). i = f n \<and> g ((xs @ [x]) ! n) = k"
    then obtain n where "n < Suc (length xs)" "i = f n" "g ((xs @ [x]) ! n) = g x"
      using True by auto
    moreover from this none have "n = length xs"
      by (metis less_antisym nth_append)
    ultimately show "(m(g x \<mapsto> f (length xs))) k = Some i" using True by simp
  qed
next
  case False
  then have "(m(g x \<mapsto> f (length xs))) k = Some i \<longleftrightarrow> (\<exists>n < length xs. i = f n \<and> g (xs ! n) = k)"
    using assms(1) by simp
  also have "\<dots> \<longleftrightarrow> (\<exists>n < length (xs @ [x]). i = f n \<and> g ((xs @ [x]) ! n) = k)"
    using False by (auto simp: nth_append less_Suc_eq)
  finally show ?thesis .
qed

lemma key_of_spec_id [simp]: "key_of (s\<lparr>spec_id := i\<rparr>) = key_of s"
  by (simp add: key_of_def)

lemma add_cases:
  assumes "length (specs r) < 2 ^ 31" and "add s r = (i, r')"
  obtains (known) "by_key r (key_of s) = Some i" "r' = r"
  | (new) "by_key r (key_of s) = None" "i = InstrumentId (int (length (specs r)))"
      "r' = r\<lparr>specs := specs r @ [s\<lparr>spec_id := i\<rparr>], by_key := (by_key r)(key_of s \<mapsto> i)\<rparr>"
  using assms by (auto simp: add_def Let_def to_i32_length split: option.splits)

lemma add_registry_ok:
  assumes "registry_ok r" and "length (specs r) < 2 ^ 31" and "add s r = (i, r')"
  shows "registry_ok r'"
  using assms(2,3)
proof (cases rule: add_cases)
  case new
  have ok: "specs_ok r" using assms(1) by (simp add: registry_ok_def)
  let ?x = "s\<lparr>spec_id := i\<rparr>"
  have "\<forall>k i. by_key r k = Some i \<longleftrightarrow>
      (\<exists>n < length (specs r). i = InstrumentId (int n) \<and> key_of (specs r ! n) = k)"
    using ok by (simp add: specs_ok_def)
  from positions_append [OF this, of ?x]
  have "\<forall>k i. by_key r' k = Some i \<longleftrightarrow>
      (\<exists>n < length (specs r'). i = InstrumentId (int n) \<and> key_of (specs r' ! n) = k)"
    using new by simp
  moreover have "\<forall>n < length (specs r'). spec_id (specs r' ! n) = InstrumentId (int n)"
    using ok new by (auto simp: specs_ok_def nth_append less_Suc_eq)
  ultimately have "specs_ok r'" using assms(2) new by (simp add: specs_ok_def)
  moreover have "underlyings_ok r'" using assms(1) new by (simp add: registry_ok_def underlyings_ok_def)
  ultimately show ?thesis by (simp add: registry_ok_def)
qed (use assms(1) in simp)

lemma intern_underlying_ok:
  assumes "registry_ok r" and "length (underlyings r) < 2 ^ 31" and "intern_underlying name r = (i, r')"
  shows "registry_ok r' \<and> underlying_ids r' = (underlying_ids r)(name \<mapsto> i) \<and>
    length (underlyings r') \<le> Suc (length (underlyings r))"
proof (cases "underlying_ids r name")
  case (Some j)
  then show ?thesis using assms by (auto simp: intern_underlying_def)
next
  case None
  have u: "underlyings_ok r" using assms(1) by (simp add: registry_ok_def)
  have r': "i = UnderlyingId (int (length (underlyings r)))"
    "r' = r\<lparr>underlyings := underlyings r @ [name], underlying_ids := (underlying_ids r)(name \<mapsto> i)\<rparr>"
    using assms None by (auto simp: intern_underlying_def Let_def to_i32_length)
  have "\<forall>k i. underlying_ids r k = Some i \<longleftrightarrow>
      (\<exists>n < length (underlyings r). i = UnderlyingId (int n) \<and> underlyings r ! n = k)"
    using u by (simp add: underlyings_ok_def)
  from positions_append [where g = "\<lambda>k. k", OF this None]
  have "underlyings_ok r'"
    using u assms(2) r' by (simp add: underlyings_ok_def)
  moreover have "specs_ok r'" using assms(1) r' by (simp add: registry_ok_def specs_ok_def)
  ultimately show ?thesis using r' by (simp add: registry_ok_def)
qed

interpretation instruments: interner add key_of by_key registry_ok "\<lambda>r. length (specs r)"
proof unfold_locales
  fix r s i r'
  assume a: "registry_ok r" "length (specs r) < 2 ^ 31" "add s r = (i, r')"
  from a(2,3) show "registry_ok r' \<and> by_key r' = (by_key r)(key_of s \<mapsto> i) \<and>
      length (specs r') \<le> Suc (length (specs r))"
    using add_registry_ok [OF a] by (cases rule: add_cases) auto
next
  fix r s i
  assume "registry_ok r" "by_key r (key_of s) = Some i"
  then show "add s r = (i, r)" by (simp add: add_def)
next
  fix r k i l
  assume "registry_ok r" "by_key r k = Some i" "by_key r l = Some i"
  then show "k = l" by (auto simp: registry_ok_def specs_ok_def)
qed

interpretation names: interner intern_underlying "\<lambda>n. n" underlying_ids registry_ok
  "\<lambda>r. length (underlyings r)"
proof unfold_locales
  fix r name i r'
  assume "registry_ok r" "length (underlyings r) < 2 ^ 31" "intern_underlying name r = (i, r')"
  then show "registry_ok r' \<and> underlying_ids r' = (underlying_ids r)(name \<mapsto> i) \<and>
      length (underlyings r') \<le> Suc (length (underlyings r))"
    by (rule intern_underlying_ok)
next
  fix r name i
  assume "registry_ok r" "underlying_ids r name = Some i"
  then show "intern_underlying name r = (i, r)" by (simp add: intern_underlying_def)
next
  fix r k i l
  assume "registry_ok r" "underlying_ids r k = Some i" "underlying_ids r l = Some i"
  then show "k = l" by (auto simp: registry_ok_def underlyings_ok_def)
qed

section \<open>Properties\<close>

lemma by_key_spec:
  assumes "registry_ok r" and "by_key r k = Some i"
  shows "\<exists>s. spec r i = Inr s \<and> key_of s = k \<and> spec_id s = i"
  using assms by (auto simp: registry_ok_def specs_ok_def spec_def)

lemma spec_by_key:
  assumes "registry_ok r" and "spec r i = Inr s"
  shows "by_key r (key_of s) = Some i \<and> spec_id s = i"
proof -
  obtain n where n: "n < length (specs r)" "s = specs r ! n" "i = InstrumentId (int n)"
    using assms(2) by (cases i) (auto simp: spec_def split: if_splits intro!: that [of "nat (index_of i)"])
  then show ?thesis using assms(1) by (auto simp: registry_ok_def specs_ok_def)
qed

lemma add_prefix: "add s r = (i, r') \<Longrightarrow> \<exists>rest. specs r' = specs r @ rest"
  by (auto simp: add_def Let_def split: option.splits)

lemma intern_all_prefix: "intern_all add ss r = (ids, r') \<Longrightarrow> \<exists>rest. specs r' = specs r @ rest"
proof (induction ss arbitrary: r ids r')
  case (Cons s ss)
  obtain i r1 where 1: "add s r = (i, r1)" by (cases "add s r")
  obtain js r2 where 2: "intern_all add ss r1 = (js, r2)" by (cases "intern_all add ss r1")
  show ?case using Cons.IH [OF 2] add_prefix [OF 1] Cons.prems 1 2 by auto
qed auto

lemma spec_prefix:
  "specs r' = specs r @ rest \<Longrightarrow> spec r i = Inr s \<Longrightarrow> spec r' i = Inr s"
  by (auto simp: spec_def nth_append nat_less_iff split: if_splits)

lemma kind_code_eq: "kind_code k = kind_code k' \<longleftrightarrow> k = k'"
  by (cases k; cases k') simp_all

lemma right_code_eq: "right_code r = right_code r' \<longleftrightarrow> r = r'"
  by (cases r; cases r') simp_all

text \<open>The key of the table is the identity of a contract, field by field.\<close>

lemma key_of_eq: "key_of s = key_of s' \<longleftrightarrow> underlying s = underlying s' \<and> kind s = kind s' \<and>
    expiry s = expiry s' \<and> strike s = strike s' \<and> (kind s = Option \<longrightarrow> right_of s = right_of s')"
  by (auto simp: key_of_def kind_code_eq right_code_eq underlying_id.expand date.expand price.expand)

lemma registered_keys:
  assumes "registry_ok r" and "length (specs r) + length ss \<le> 2 ^ 31"
    and "intern_all add ss r = (ids, r')"
  shows "registry_ok r' \<and> length ids = length ss \<and>
    (\<forall>m < length ss. \<forall>n < length ss. ids ! m = ids ! n \<longleftrightarrow> key_of (ss ! m) = key_of (ss ! n)) \<and>
    (\<forall>n < length ss. \<exists>s. spec r' (ids ! n) = Inr s \<and> key_of s = key_of (ss ! n)) \<and>
    (\<forall>i s. spec r i = Inr s \<longrightarrow> spec r' i = Inr s)"
proof -
  note laws = instruments.intern_all_laws [OF assms] and ids = instruments.intern_all_ids [OF assms]
  have "\<exists>s. spec r' (ids ! n) = Inr s \<and> key_of s = key_of (ss ! n)" if "n < length ss" for n
    using laws that by_key_spec [of r'] by blast
  moreover obtain rest where "specs r' = specs r @ rest" using intern_all_prefix [OF assms(3)] by blast
  ultimately show ?thesis using laws ids spec_prefix by blast
qed

text \<open>C3: ids are identities.  Registering any sequence of instrument descriptions gives two of
  them the same id exactly when they name the same contract (same underlying, kind, expiry,
  strike and, for an option, right), the id leads back to a description of that contract, and
  every id handed out before still means what it meant.\<close>

theorem registered_ids_are_identities:
  assumes "registry_ok r" and "length (specs r) + length ss \<le> 2 ^ 31"
    and "intern_all add ss r = (ids, r')"
  shows "registry_ok r' \<and> length ids = length ss \<and>
    (\<forall>m < length ss. \<forall>n < length ss. ids ! m = ids ! n \<longleftrightarrow>
       underlying (ss ! m) = underlying (ss ! n) \<and> kind (ss ! m) = kind (ss ! n) \<and>
       expiry (ss ! m) = expiry (ss ! n) \<and> strike (ss ! m) = strike (ss ! n) \<and>
       (kind (ss ! m) = Option \<longrightarrow> right_of (ss ! m) = right_of (ss ! n))) \<and>
    (\<forall>n < length ss. \<exists>s. spec r' (ids ! n) = Inr s \<and>
       underlying s = underlying (ss ! n) \<and> kind s = kind (ss ! n) \<and> expiry s = expiry (ss ! n) \<and>
       strike s = strike (ss ! n) \<and> (kind s = Option \<longrightarrow> right_of s = right_of (ss ! n))) \<and>
    (\<forall>i s. spec r i = Inr s \<longrightarrow> spec r' i = Inr s)"
  using registered_keys [OF assms] unfolding key_of_eq .

definition nifty_call :: "int \<Rightarrow> right \<Rightarrow> instrument_spec" where
  "nifty_call k rt = \<lparr>spec_id = InstrumentId (-1), underlying = UnderlyingId 0, kind = Option,
     expiry = Date 20250703, strike = Price k, right_of = rt, lot_size = 75, tick_size = Price 5\<rparr>"

theorem registered_ids_are_identities_witness:
  "\<exists>ids r'. intern_all add [nifty_call 2500000 Call, nifty_call 2500000 Put, nifty_call 2500000 Call]
      empty_registry = (ids, r') \<and> ids ! 0 = ids ! 2 \<and> ids ! 0 \<noteq> ids ! 1"
proof -
  let ?ss = "[nifty_call 2500000 Call, nifty_call 2500000 Put, nifty_call 2500000 Call]"
  obtain ids r' where run: "intern_all add ?ss empty_registry = (ids, r')" by (cases "intern_all add ?ss empty_registry")
  have "length (specs empty_registry) + length ?ss \<le> 2 ^ 31" by (simp add: empty_registry_def)
  note t = registered_ids_are_identities [OF registry_ok_empty this run]
  have ids: "ids ! m = ids ! n \<longleftrightarrow> underlying (?ss ! m) = underlying (?ss ! n) \<and> kind (?ss ! m) = kind (?ss ! n) \<and>
      expiry (?ss ! m) = expiry (?ss ! n) \<and> strike (?ss ! m) = strike (?ss ! n) \<and>
      (kind (?ss ! m) = Option \<longrightarrow> right_of (?ss ! m) = right_of (?ss ! n))" if "m < 3" "n < 3" for m n
    using t that by simp
  have "ids ! 0 = ids ! 2 \<and> ids ! 0 \<noteq> ids ! 1" using ids [of 0 2] ids [of 0 1] by (simp add: nifty_call_def)
  with run show ?thesis by blast
qed

lemma expiries_sorted: "sorted_wrt (<) (expiries r u)"
  by (simp add: expiries_def strict_remdups_adj)

lemma set_expiries:
  "set (expiries r u) =
    {expiry s | s. s \<in> set (specs r) \<and> underlying s = u \<and> kind s \<noteq> Spot \<and> date_valid (expiry s)}"
  by (auto simp: expiries_def)

text \<open>What the chain layer builds on.  \<open>find_option\<close> answers exactly the options that are
  registered under the identity asked for; the expiries of an underlying are strictly ascending
  and are those of its registered contracts; registering an option makes it findable and puts
  its expiry on the list.\<close>

theorem option_lookup:
  assumes "registry_ok r" and "length (specs r) < 2 ^ 31"
    and "is_option s" and "date_valid (expiry s)" and "add s r = (i, r')"
  shows "find_option r' (underlying s) (expiry s) (strike s) (right_of s) = Some i \<and>
    (find_option r u e k rt = Some j \<longleftrightarrow> (\<exists>t. spec r j = Inr t \<and> is_option t \<and>
       underlying t = u \<and> expiry t = e \<and> strike t = k \<and> right_of t = rt)) \<and>
    sorted_wrt (<) (expiries r' (underlying s)) \<and>
    set (expiries r' (underlying s)) = insert (expiry s) (set (expiries r (underlying s)))"
proof -
  have key: "key_of s = Key (uindex (underlying s)) 2 (yyyymmdd (expiry s)) (minor (strike s)) (right_code (right_of s))"
    using assms(3) by (simp add: key_of_def is_option_def)
  have rc: "right_code a = right_code b \<longleftrightarrow> a = b" for a b by (cases a; cases b) simp_all
  have kc: "kind_code a = 2 \<longleftrightarrow> a = Option" for a by (cases a) simp_all
  have kinv: "key_of t = Key (uindex u) 2 (yyyymmdd e) (minor k) (right_code rt) \<longleftrightarrow>
      is_option t \<and> underlying t = u \<and> expiry t = e \<and> strike t = k \<and> right_of t = rt" for t
    by (auto simp: key_of_def is_option_def kc rc underlying_id.expand date.expand price.expand)
  have found: "find_option r' (underlying s) (expiry s) (strike s) (right_of s) = Some i"
    using instruments.intern_adds [OF assms(1,2,5)] by (simp add: find_option_def key)
  have "find_option r u e k rt = Some j \<longleftrightarrow> (\<exists>t. spec r j = Inr t \<and> is_option t \<and>
      underlying t = u \<and> expiry t = e \<and> strike t = k \<and> right_of t = rt)"
    using by_key_spec [OF assms(1)] spec_by_key [OF assms(1)]
    unfolding find_option_def kind_code.simps kinv [symmetric] by metis
  moreover have "sorted_wrt (<) (expiries r' (underlying s))"
    by (rule expiries_sorted)
  moreover have "set (expiries r' (underlying s)) = insert (expiry s) (set (expiries r (underlying s)))"
    using assms(2,5)
  proof (cases rule: add_cases)
    case known
    then obtain t where t: "spec r i = Inr t" "key_of t = key_of s"
      using by_key_spec [OF assms(1)] by blast
    then have "t \<in> set (specs r)" by (auto simp: spec_def split: if_splits)
    moreover have "underlying t = underlying s" "kind t \<noteq> Spot" "expiry t = expiry s"
      using t(2) unfolding key
      by (auto simp: key_of_def underlying_id.expand date.expand split: if_splits)
    ultimately have "expiry s \<in> set (expiries r (underlying s))"
      using assms(4) unfolding set_expiries mem_Collect_eq by metis
    then show ?thesis using known by auto
  next
    case new
    then have r': "specs r' = specs r @ [s\<lparr>spec_id := i\<rparr>]" by simp
    show ?thesis
      using assms(3,4) unfolding expiries_def r' by (simp add: is_option_def)
  qed
  ultimately show ?thesis using found by blast
qed

theorem option_lookup_witness:
  "\<exists>i r'. add (nifty_call 2500000 Call) empty_registry = (i, r') \<and>
     find_option r' (UnderlyingId 0) (Date 20250703) (Price 2500000) Call = Some i"
proof -
  let ?s = "nifty_call 2500000 Call"
  obtain i r' where a: "add ?s empty_registry = (i, r')" by (cases "add ?s empty_registry")
  have "length (specs empty_registry) < 2 ^ 31" "is_option ?s" "date_valid (expiry ?s)"
    by (simp_all add: empty_registry_def is_option_def nifty_call_def date_valid_def)
  from option_lookup [OF registry_ok_empty this a] a show ?thesis by (auto simp: nifty_call_def)
qed

end
