(* ===== verification/Session.thy ===== *)
theory Session
  imports Quotes Registry
begin

text \<open>
  \<open>data_source.hpp\<close> and the \<open>MarketView\<close> and \<open>ReplayClock\<close> parts of \<open>data_source.cpp\<close>.  An
  abstract class is the record of its virtual functions: \<open>session_data\<close> for \<open>SessionData\<close>, which
  every source implements, and \<open>market_view\<close> for the public interface of \<open>MarketView\<close>, which
  is all that the portfolio, the conditions and a strategy see of the market.  The contract of
  a source is the locale \<open>session_source\<close>, interpreted where a source is modelled.
\<close>

section \<open>Events\<close>

datatype event = Event (e_ts: timestamp) (e_instrument: instrument_id) (e_row: nat)

text \<open>The order of a replay: time, then instrument, then row.\<close>

definition event_before :: "event \<Rightarrow> event \<Rightarrow> bool" where
  "event_before a b =
     (if e_ts a \<noteq> e_ts b then e_ts a < e_ts b
      else if e_instrument a \<noteq> e_instrument b
      then index_of (e_instrument a) < index_of (e_instrument b)
      else e_row a < e_row b)"

instantiation event :: linorder
begin

definition less_event :: "event \<Rightarrow> event \<Rightarrow> bool" where
  "less_event a b = event_before a b"

definition less_eq_event :: "event \<Rightarrow> event \<Rightarrow> bool" where
  "less_eq_event a b \<longleftrightarrow> a < b \<or> a = b"

instance
proof
  fix x y z :: event
  show "(x < y) = (x \<le> y \<and> \<not> y \<le> x)" and "x \<le> x"
    and "x \<le> y \<Longrightarrow> y \<le> z \<Longrightarrow> x \<le> z" and "x \<le> y \<Longrightarrow> y \<le> x \<Longrightarrow> x = y"
    by (auto simp: event_before_def less_event_def less_eq_event_def split: if_splits)
  show "x \<le> y \<or> y \<le> x"
    by (auto simp: event_before_def less_event_def less_eq_event_def not_less neq_iff less_instrument_id_def intro!: event.expand instrument_id.expand)
qed

end

lemma event_le_ts: "a \<le> b \<Longrightarrow> e_ts a \<le> e_ts b"
  by (auto simp: event_before_def less_event_def less_eq_event_def split: if_splits)

section \<open>Session data\<close>

record session_data =
  sd_date :: date
  sd_registry :: registry
  sd_instruments :: "instrument_id list"
  sd_quotes :: "instrument_id \<Rightarrow> quote_columns"
  sd_total_observations :: nat
  sd_event_order :: "event list"
  sd_timeline :: "timestamp list"
  sd_printed_by :: "instrument_id \<Rightarrow> timestamp \<Rightarrow> bool"

text \<open>The implementation \<open>printed_by\<close> has unless a source overrides it.\<close>

definition default_printed_by ::
    "(instrument_id \<Rightarrow> quote_columns) \<Rightarrow> instrument_id \<Rightarrow> timestamp \<Rightarrow> bool" where
  "default_printed_by quotes i t =
     (let cols = quotes i in size_of cols \<noteq> 0 \<and> index_at_or_before cols t \<noteq> None)"

section \<open>Clock\<close>

definition advance_to :: "timestamp \<Rightarrow> timestamp \<Rightarrow> exn + timestamp" where
  "advance_to now t =
     (if t < now then Inl (LogicError ''ReplayClock::advance_to moved backwards'') else Inr t)"

section \<open>The bounded view\<close>

record market_view =
  mv_now :: timestamp
  mv_registry :: registry
  mv_quote :: "instrument_id \<Rightarrow> int \<Rightarrow> exn + quote option"
  mv_has_quote :: "instrument_id \<Rightarrow> bool"

definition view_quote :: "session_data \<Rightarrow> timestamp \<Rightarrow> instrument_id \<Rightarrow> int \<Rightarrow> exn + quote option" where
  "view_quote sd now i steps =
     (if steps < 0 then Inl (InvalidArgument ''MarketView::quote: negative offset reads the future'')
      else let cols = sd_quotes sd i
        in if size_of cols = 0 then Inr None
           else case index_at_or_before cols now of
                  None \<Rightarrow> Inr None
                | Some idx \<Rightarrow>
                    if idx < nat steps then Inr None else Inr (Some (column_at cols (idx - nat steps))))"

definition market :: "session_data \<Rightarrow> timestamp \<Rightarrow> market_view" where
  "market sd now =
     \<lparr>mv_now = now, mv_registry = sd_registry sd, mv_quote = view_quote sd now,
      mv_has_quote = (\<lambda>i. sd_printed_by sd i now)\<rparr>"

text \<open>\<open>market.quote(id)\<close>: the call with the default offset, which never throws.\<close>

definition latest :: "market_view \<Rightarrow> instrument_id \<Rightarrow> quote option" where
  "latest mv i = (case mv_quote mv i 0 of Inl _ \<Rightarrow> None | Inr q \<Rightarrow> q)"

section \<open>The contract of a source\<close>

definition all_events :: "session_data \<Rightarrow> event list" where
  "all_events sd =
     concat (map (\<lambda>i. map (\<lambda>k. Event (c_ts (sd_quotes sd i) ! k) i k) [0..<size_of (sd_quotes sd i)])
       (sd_instruments sd))"

definition distinct_times :: "session_data \<Rightarrow> timestamp list" where
  "distinct_times sd = remdups_adj (map e_ts (sort (all_events sd)))"

text \<open>
  What \<open>SessionData\<close> documents: columns ascending and of equal length, every instrument with an
  observation listed once, row numbers that fit 32 bits, a merged order and a timeline that are
  either absent or the session's own, and \<open>printed_by\<close> agreeing with the columns.
\<close>

definition session_ok :: "session_data \<Rightarrow> bool" where
  "session_ok sd \<longleftrightarrow>
     (\<forall>i. columns_ok (sd_quotes sd i) \<and> size_of (sd_quotes sd i) < 2 ^ 32 \<and>
        (size_of (sd_quotes sd i) \<noteq> 0 \<longrightarrow> i \<in> set (sd_instruments sd))) \<and>
     distinct (sd_instruments sd) \<and>
     sd_total_observations sd = length (all_events sd) \<and>
     (sd_event_order sd = [] \<or> sd_event_order sd = sort (all_events sd)) \<and>
     (sd_timeline sd = [] \<or> sd_timeline sd = distinct_times sd) \<and>
     (\<forall>i t. sd_printed_by sd i t = default_printed_by (sd_quotes sd) i t)"

text \<open>Two sessions that tell the same story up to \<open>t\<close>.\<close>

definition same_upto :: "timestamp \<Rightarrow> session_data \<Rightarrow> session_data \<Rightarrow> bool" where
  "same_upto t sd sd' \<longleftrightarrow> sd_date sd = sd_date sd' \<and> sd_registry sd = sd_registry sd' \<and>
     (\<forall>i. upto_time t (sd_quotes sd i) = upto_time t (sd_quotes sd' i))"

lemma session_okD:
  assumes "session_ok sd"
  shows "columns_ok (sd_quotes sd i)" and "size_of (sd_quotes sd i) < 2 ^ 32"
    and "size_of (sd_quotes sd i) \<noteq> 0 \<Longrightarrow> i \<in> set (sd_instruments sd)"
    and "distinct (sd_instruments sd)"
    and "sd_printed_by sd i t = default_printed_by (sd_quotes sd) i t"
    and "sd_timeline sd = [] \<or> sd_timeline sd = distinct_times sd"
    and "sd_event_order sd = [] \<or> sd_event_order sd = sort (all_events sd)"
    and "sd_total_observations sd = length (all_events sd)"
  using assms by (simp_all add: session_ok_def)

lemma same_upto_earlier:
  assumes "session_ok sd" and "session_ok sd'" and "same_upto t sd sd'" and "s \<le> t"
  shows "same_upto s sd sd'"
proof -
  have "upto_time s (sd_quotes sd i) = upto_time s (sd_quotes sd' i)" for i
    by (rule same_past(4) [of t])
      (use assms(3,4) in \<open>simp_all add: same_upto_def session_okD(1) [OF assms(1)] session_okD(1) [OF assms(2)]\<close>)
  then show ?thesis using assms(3) by (simp add: same_upto_def)
qed

lemma default_printed_by_count:
  "columns_ok (f i) \<Longrightarrow> default_printed_by f i t \<longleftrightarrow> count_upto (f i) t \<noteq> 0"
  using count_upto_le_size [of "f i" t]
  by (auto simp: default_printed_by_def index_at_or_before_count Let_def)

lemma view_quote_count:
  assumes "columns_ok (sd_quotes sd i)" and "0 \<le> steps"
  shows "view_quote sd now i steps =
    Inr (if nat steps < count_upto (sd_quotes sd i) now
         then Some (column_at (sd_quotes sd i) (count_upto (sd_quotes sd i) now - 1 - nat steps)) else None)"
  using assms count_upto_le_size [of "sd_quotes sd i" now]
  by (auto simp: view_quote_def index_at_or_before_count Let_def)

lemma latest_market:
  assumes "columns_ok (sd_quotes sd i)"
  shows "latest (market sd now) i =
    (if count_upto (sd_quotes sd i) now = 0 then None
     else Some (column_at (sd_quotes sd i) (count_upto (sd_quotes sd i) now - 1)))"
  using assms by (simp add: latest_def market_def view_quote_count)

lemma mv_now_market [simp]: "mv_now (market sd now) = now"
  and mv_registry_market [simp]: "mv_registry (market sd now) = sd_registry sd"
  by (simp_all add: market_def)

text \<open>The view depends on the session only through its past.\<close>

lemma market_same_past:
  assumes "session_ok sd" and "session_ok sd'" and "same_upto t sd sd'"
  shows "market sd t = market sd' t"
proof -
  have q: "upto_time t (sd_quotes sd i) = upto_time t (sd_quotes sd' i)" for i
    using assms(3) by (simp add: same_upto_def)
  note c = session_okD(1) [OF assms(1)] and d = session_okD(1) [OF assms(2)]
  have n: "count_upto (sd_quotes sd i) t = count_upto (sd_quotes sd' i) t" for i
    by (rule same_past(1) [OF q c d])
  have "view_quote sd t i steps = view_quote sd' t i steps" for i steps
  proof (cases "steps < 0")
    case False
    then show ?thesis
      using n same_past(3) [OF q c d] by (auto simp: view_quote_count [OF c] view_quote_count [OF d])
  qed (simp add: view_quote_def)
  moreover have "sd_printed_by sd i t = sd_printed_by sd' i t" for i
    using n session_okD(5) [OF assms(1)] session_okD(5) [OF assms(2)]
    by (simp add: default_printed_by_count c d)
  ultimately show ?thesis using assms(3) by (auto simp: market_def same_upto_def)
qed

locale session_source =
  fixes as_session :: "'st \<Rightarrow> session_data"
    and ok :: "'st \<Rightarrow> bool"
  assumes source_ok: "ok st \<Longrightarrow> session_ok (as_session st)"
begin

lemma view_of_the_past:
  assumes "ok st" and "ok st'" and "same_upto t (as_session st) (as_session st')" and "now \<le> t"
  shows "market (as_session st) now = market (as_session st') now"
proof -
  note ok = source_ok [OF assms(1)] source_ok [OF assms(2)]
  show ?thesis by (rule market_same_past [OF ok same_upto_earlier [OF ok assms(3,4)]])
qed

lemma has_quote_iff:
  assumes "ok st"
  shows "mv_has_quote (market (as_session st) now) i \<longleftrightarrow> latest (market (as_session st) now) i \<noteq> None"
  using session_okD(1,5) [OF source_ok [OF assms]]
  by (simp add: latest_market) (simp add: market_def default_printed_by_count)

end

section \<open>Properties\<close>

text \<open>The observations of a column up to a time, oldest first: with ascending times, the first rows.\<close>

lemma observed_rows:
  assumes "columns_ok c"
  shows "filter (\<lambda>q. q_ts q \<le> now) (map (column_at c) [0..<size_of c]) = map (column_at c) [0..<count_upto c now]"
proof -
  note le = count_upto_le_size [of c now]
  have split: "[0..<size_of c] = [0..<count_upto c now] @ [count_upto c now..<size_of c]"
    using le by (metis le_add_diff_inverse upt_add_eq_append zero_le)
  have "filter (\<lambda>i. q_ts (column_at c i) \<le> now) [0..<size_of c] = filter (\<lambda>i. i < count_upto c now) [0..<size_of c]"
    using nth_le_iff_count_upto [OF assms, of _ now] by (intro filter_cong) (auto simp: column_at_def)
  also have "\<dots> = [0..<count_upto c now]" unfolding split by (simp add: filter_False)
  finally show ?thesis by (simp add: filter_map comp_def)
qed

text \<open>C4: the bounded view is what its comment promises.  A negative offset is refused; offset 0 is
  the last observation at or before the clock and offset \<open>n\<close> the observation \<open>n\<close> rows earlier, or
  nothing exactly when fewer than \<open>n + 1\<close> observations have happened; nothing returned is later than
  the clock; and two sessions that agree up to \<open>t\<close> give the very same view at every clock time up to
  \<open>t\<close>, whatever they hold afterwards.\<close>

theorem view_is_bounded:
  assumes "session_ok sd" and "session_ok sd'" and "same_upto t sd sd'" and "now \<le> t"
  shows "market sd now = market sd' now \<and>
    (\<forall>steps < 0. \<exists>e. mv_quote (market sd now) i steps = Inl e) \<and>
    (\<forall>steps \<ge> 0. mv_quote (market sd now) i steps = Inr
       (let past = filter (\<lambda>q. q_ts q \<le> now) (map (column_at (sd_quotes sd i)) [0..<size_of (sd_quotes sd i)])
        in if nat steps < length past then Some (rev past ! nat steps) else None)) \<and>
    (\<forall>steps \<ge> 0. \<forall>q. mv_quote (market sd now) i steps = Inr (Some q) \<longrightarrow> q_ts q \<le> now \<and>
       (\<exists>k. q = column_at (sd_quotes sd i) k \<and>
          k + nat steps < size_of (sd_quotes sd i) \<and> c_ts (sd_quotes sd i) ! (k + nat steps) \<le> now \<and>
          (\<forall>j. k + nat steps < j \<and> j < size_of (sd_quotes sd i) \<longrightarrow> now < c_ts (sd_quotes sd i) ! j)))"
proof -
  let ?c = "sd_quotes sd i"
  have ok: "columns_ok ?c" using assms(1) by (rule session_okD(1))
  note le = count_upto_le_size [of ?c now] and nth = nth_le_iff_count_upto [OF ok, of _ now]
  have "q_ts q \<le> now \<and> (\<exists>k. q = column_at ?c k \<and> k + nat steps < size_of ?c \<and>
      c_ts ?c ! (k + nat steps) \<le> now \<and>
      (\<forall>j. k + nat steps < j \<and> j < size_of ?c \<longrightarrow> now < c_ts ?c ! j))"
    if b: "0 \<le> steps" and q: "mv_quote (market sd now) i steps = Inr (Some q)" for steps q
  proof -
    define k where "k = count_upto ?c now - 1 - nat steps"
    from q have k: "nat steps < count_upto ?c now" "q = column_at ?c k"
      using b by (auto simp: market_def view_quote_count [OF ok] k_def split: if_splits)
    then have kb: "k + nat steps = count_upto ?c now - 1" "k < count_upto ?c now" by (auto simp: k_def)
    then have "k + nat steps < size_of ?c" "k < size_of ?c" using le k(1) by auto
    moreover have "c_ts ?c ! (k + nat steps) \<le> now" "c_ts ?c ! k \<le> now"
      using nth kb calculation k(1) by auto
    moreover have "now < c_ts ?c ! j" if "k + nat steps < j \<and> j < size_of ?c" for j
      using nth [of j] that kb k(1) by (simp add: not_le [symmetric]) linarith
    moreover have "q_ts q = c_ts ?c ! k" using k(2) by (simp add: column_at_def)
    ultimately show ?thesis using k(2) by auto
  qed
  moreover have "mv_quote (market sd now) i steps = Inr
       (let past = filter (\<lambda>q. q_ts q \<le> now) (map (column_at ?c) [0..<size_of ?c])
        in if nat steps < length past then Some (rev past ! nat steps) else None)" if "0 \<le> steps" for steps
    unfolding observed_rows [OF ok] Let_def using that
    by (simp add: market_def view_quote_count [OF ok] rev_nth)
  moreover have "\<exists>e. mv_quote (market sd now) i steps = Inl e" if "steps < 0" for steps
    using that by (simp add: market_def view_quote_def)
  moreover have "market sd now = market sd' now"
    by (rule market_same_past [OF assms(1,2) same_upto_earlier [OF assms]])
  ultimately show ?thesis by blast
qed

definition one_instrument :: "quote_columns \<Rightarrow> session_data" where
  "one_instrument c =
     (let quotes = (\<lambda>i. if i = InstrumentId 0 then c else empty_columns)
      in \<lparr>sd_date = Date 20250703, sd_registry = empty_registry, sd_instruments = [InstrumentId 0],
          sd_quotes = quotes, sd_total_observations = size_of c, sd_event_order = [],
          sd_timeline = [], sd_printed_by = default_printed_by quotes\<rparr>)"

lemma one_instrument_ok: "columns_ok c \<Longrightarrow> size_of c < 2 ^ 32 \<Longrightarrow> session_ok (one_instrument c)"
  by (simp add: one_instrument_def session_ok_def Let_def all_events_def)

theorem view_is_bounded_witness:
  "market (one_instrument sample_columns) (Timestamp 25) =
     market (one_instrument (first_rows 3 sample_columns)) (Timestamp 25) \<and>
   latest (market (one_instrument sample_columns) (Timestamp 25)) (InstrumentId 0) =
     Some (column_at sample_columns 2)"
proof -
  have s: "size_of sample_columns = 4" by (simp add: sample_columns_def size_of_def)
  then have ok: "session_ok (one_instrument sample_columns)"
    "session_ok (one_instrument (first_rows 3 sample_columns))"
    by (auto intro!: one_instrument_ok first_rows_ok sample_columns_ok)
  have "same_upto (Timestamp 25) (one_instrument sample_columns)
      (one_instrument (first_rows 3 sample_columns))"
    by (simp add: same_upto_def one_instrument_def Let_def) code_simp
  note t = view_is_bounded [OF ok this, of "Timestamp 25"]
  have "latest (market (one_instrument sample_columns) (Timestamp 25)) (InstrumentId 0) =
     Some (column_at sample_columns 2)" by code_simp
  with t show ?thesis by simp
qed

end
