(* ===== verification/Doubles.thy ===== *)
theory Doubles
  imports Complex_Main Prelude "HOL-Library.Log_Nat"
begin

text \<open>
  The C++ \<open>double\<close>: IEEE 754 binary64 with round-to-nearest-even, over exact rationals so that
  every operation evaluates.  A finite double is the rational it denotes; infinities and the
  quiet NaN are constructors; the two zeros are one value, which no code modelled here
  distinguishes (every division is guarded against a zero divisor).  The lemmas are the laws of
  a rounding: it is monotone, it keeps representable values, and its relative error is at most
  \<open>2 ^ -53\<close>.
\<close>

datatype dbl = Fin rat | PInf | NInf | NaN

section \<open>Rounding\<close>

text \<open>The binary exponent of a positive rational: the integer part of its logarithm.\<close>

definition expo :: "rat \<Rightarrow> int" where
  "expo q = (if 1 \<le> q then bitlen \<lfloor>q\<rfloor> - 1 else - bitlen (\<lceil>1 / q\<rceil> - 1))"

definition round_half_even :: "rat \<Rightarrow> int" where
  "round_half_even x =
     (let f = \<lfloor>x\<rfloor>; r = x - of_int f
      in if r < 1 / 2 then f else if 1 / 2 < r then f + 1 else if even f then f else f + 1)"

text \<open>Exponent of the last of the 53 significand bits, or of the subnormal grid.\<close>

definition ulp_exp :: "rat \<Rightarrow> int" where
  "ulp_exp q = max (expo \<bar>q\<bar> - 52) (- 1074)"

definition rnd53 :: "rat \<Rightarrow> rat" where
  "rnd53 q =
     (if q = 0 then 0
      else let u = 2 powi ulp_exp q in of_int (round_half_even (q / u)) * u)"

definition rnd :: "rat \<Rightarrow> dbl" where
  "rnd q =
     (let r = rnd53 q
      in if \<bar>r\<bar> < 2 ^ 1024 then Fin r else if 0 < r then PInf else NInf)"

section \<open>Operations\<close>

definition sgn_inf :: "rat \<Rightarrow> dbl" where
  "sgn_inf q = (if 0 < q then PInf else NInf)"

fun fneg :: "dbl \<Rightarrow> dbl" where
  "fneg (Fin a) = Fin (- a)"
| "fneg PInf = NInf"
| "fneg NInf = PInf"
| "fneg NaN = NaN"

fun fadd :: "dbl \<Rightarrow> dbl \<Rightarrow> dbl" where
  "fadd (Fin a) (Fin b) = rnd (a + b)"
| "fadd NaN _ = NaN"
| "fadd _ NaN = NaN"
| "fadd PInf NInf = NaN"
| "fadd NInf PInf = NaN"
| "fadd PInf _ = PInf"
| "fadd NInf _ = NInf"
| "fadd (Fin _) y = y"

definition fsub :: "dbl \<Rightarrow> dbl \<Rightarrow> dbl" where
  "fsub x y = fadd x (fneg y)"

fun fmul :: "dbl \<Rightarrow> dbl \<Rightarrow> dbl" where
  "fmul (Fin a) (Fin b) = rnd (a * b)"
| "fmul NaN _ = NaN"
| "fmul _ NaN = NaN"
| "fmul (Fin a) PInf = (if a = 0 then NaN else sgn_inf a)"
| "fmul (Fin a) NInf = (if a = 0 then NaN else sgn_inf (- a))"
| "fmul PInf (Fin b) = (if b = 0 then NaN else sgn_inf b)"
| "fmul NInf (Fin b) = (if b = 0 then NaN else sgn_inf (- b))"
| "fmul PInf PInf = PInf"
| "fmul PInf NInf = NInf"
| "fmul NInf PInf = NInf"
| "fmul NInf NInf = PInf"

text \<open>A zero divisor is read as \<open>+0.0\<close>.\<close>

fun fdiv :: "dbl \<Rightarrow> dbl \<Rightarrow> dbl" where
  "fdiv (Fin a) (Fin b) = (if b = 0 then if a = 0 then NaN else sgn_inf a else rnd (a / b))"
| "fdiv NaN _ = NaN"
| "fdiv _ NaN = NaN"
| "fdiv (Fin _) _ = Fin 0"
| "fdiv PInf (Fin b) = (if b < 0 then NInf else PInf)"
| "fdiv NInf (Fin b) = (if b < 0 then PInf else NInf)"
| "fdiv _ _ = NaN"

fun fabs :: "dbl \<Rightarrow> dbl" where
  "fabs (Fin a) = Fin \<bar>a\<bar>"
| "fabs NaN = NaN"
| "fabs _ = PInf"

fun flt :: "dbl \<Rightarrow> dbl \<Rightarrow> bool" where
  "flt (Fin a) (Fin b) = (a < b)"
| "flt (Fin _) PInf = True"
| "flt NInf (Fin _) = True"
| "flt NInf PInf = True"
| "flt _ _ = False"

fun fle :: "dbl \<Rightarrow> dbl \<Rightarrow> bool" where
  "fle (Fin a) (Fin b) = (a \<le> b)"
| "fle (Fin _) PInf = True"
| "fle NInf (Fin _) = True"
| "fle NInf PInf = True"
| "fle PInf PInf = True"
| "fle NInf NInf = True"
| "fle _ _ = False"

text \<open>\<open>std::max(a, b)\<close> returns \<open>a\<close> unless \<open>a < b\<close>.\<close>

definition fmax :: "dbl \<Rightarrow> dbl \<Rightarrow> dbl" where
  "fmax a b = (if flt a b then b else a)"

definition isfinite :: "dbl \<Rightarrow> bool" where
  "isfinite x = (case x of Fin _ \<Rightarrow> True | _ \<Rightarrow> False)"

definition isnan :: "dbl \<Rightarrow> bool" where
  "isnan x = (x = NaN)"

text \<open>
  \<open>std::sqrt\<close>, correctly rounded: the integer root of the argument scaled to 54 bits, with half a
  unit added when the root is not exact, rounds as the exact root does.
\<close>

fun isqrt :: "nat \<Rightarrow> nat" where
  "isqrt n =
     (if n = 0 then 0
      else let r = 2 * isqrt (n div 4) in if (r + 1) * (r + 1) \<le> n then r + 1 else r)"

declare isqrt.simps [simp del]

fun fsqrt :: "dbl \<Rightarrow> dbl" where
  "fsqrt (Fin q) =
     (if q < 0 then NaN
      else if q = 0 then Fin 0
      else let e = expo q div 2 - 53; x = q / 2 powi (2 * e); s = isqrt (nat \<lfloor>x\<rfloor>);
             v = (if of_nat (s * s) = x then of_nat s else of_nat s + 1 / 2)
        in rnd (v * 2 powi e))"
| "fsqrt PInf = PInf"
| "fsqrt _ = NaN"

text \<open>Conversion of an integer (\<open>static_cast<double>\<close>).\<close>

definition of_i :: "int \<Rightarrow> dbl" where
  "of_i n = rnd (of_int n)"

text \<open>
  \<open>std::llround\<close>: half away from zero.  Outside the 64-bit range, for infinities and for NaN
  the standard leaves the result unspecified; the value here is the one the x86-64 conversion
  instruction returns.
\<close>

definition round_half_away :: "rat \<Rightarrow> int" where
  "round_half_away q = (if 0 \<le> q then \<lfloor>q + 1 / 2\<rfloor> else - \<lfloor>- q + 1 / 2\<rfloor>)"

fun llround :: "dbl \<Rightarrow> int" where
  "llround (Fin q) = (let n = round_half_away q in if i64_ok n then n else - (2 ^ 63))"
| "llround _ = - (2 ^ 63)"

section \<open>Exponents\<close>

lemma powi_pos [simp]: "0 < (2 :: rat) powi i"
  by (rule zero_less_power_int) simp

lemma floor_rat_bounds: "of_int \<lfloor>x\<rfloor> \<le> (x :: rat)" "(x :: rat) < of_int \<lfloor>x\<rfloor> + 1"
  using floor_correct [of x] by simp_all

lemma powi_int_bounds:
  fixes n :: int
  assumes "1 \<le> n"
  shows "(2 :: rat) powi (bitlen n - 1) \<le> of_int n" and "(of_int n :: rat) < 2 powi (bitlen n)"
proof -
  have b: "2 ^ nat (bitlen n - 1) \<le> n \<and> n < 2 ^ nat (bitlen n)"
    using bitlen_bounds assms by simp
  have nn: "0 \<le> bitlen n - 1"
    using assms bitlen_nonneg [of n] bitlen_eq_zero_iff [of n] by linarith
  have "(2 :: rat) powi (bitlen n - 1) = of_int (2 ^ nat (bitlen n - 1))"
    and "(2 :: rat) powi (bitlen n) = of_int (2 ^ nat (bitlen n))"
    using nn by (simp_all add: power_int_def)
  with b show "(2 :: rat) powi (bitlen n - 1) \<le> of_int n" "(of_int n :: rat) < 2 powi (bitlen n)"
    by (simp_all only: of_int_le_iff of_int_less_iff)
qed

lemma expo_bounds:
  assumes "0 < q"
  shows "2 powi expo q \<le> q" and "q < 2 powi (expo q + 1)"
proof -
  have "2 powi expo q \<le> q \<and> q < 2 powi (expo q + 1)"
  proof (cases "1 \<le> q")
    case True
    then have f: "1 \<le> \<lfloor>q\<rfloor>" by simp
    note b = powi_int_bounds [OF f]
    have "(of_int \<lfloor>q\<rfloor> :: rat) \<le> q" by simp
    with b(1) have "2 powi (bitlen \<lfloor>q\<rfloor> - 1) \<le> q" by (rule order_trans)
    with True have lo: "2 powi expo q \<le> q" by (simp add: expo_def)
    have "\<lfloor>q\<rfloor> + 1 \<le> 2 ^ nat (bitlen \<lfloor>q\<rfloor>)" using bitlen_bounds [of "\<lfloor>q\<rfloor>"] f by simp
    then have "(of_int (\<lfloor>q\<rfloor> + 1) :: rat) \<le> of_int (2 ^ nat (bitlen \<lfloor>q\<rfloor>))"
      by (simp only: of_int_le_iff)
    moreover have "q < of_int (\<lfloor>q\<rfloor> + 1)" using floor_rat_bounds(2) [of q] by simp
    ultimately have "q < 2 ^ nat (bitlen \<lfloor>q\<rfloor>)" by simp
    with True lo show ?thesis by (simp add: expo_def power_int_def bitlen_nonneg)
  next
    case False
    define n where "n = \<lceil>1 / q\<rceil> - 1"
    have one: "1 < 1 / q" using False assms by simp
    then have n: "1 \<le> n" by (simp add: n_def less_ceiling_iff)
    have lo: "of_int n < 1 / q" and hi: "1 / q \<le> of_int (n + 1)"
      by (simp_all add: n_def) (metis le_of_int_ceiling of_int_diff of_int_1 ceiling_less_iff
        diff_less_eq less_add_one of_int_less_iff ceiling_correct)
    have bb: "2 ^ nat (bitlen n - 1) \<le> n" "n + 1 \<le> 2 ^ nat (bitlen n)"
      using bitlen_bounds [of n] n by simp_all
    have nn: "0 \<le> bitlen n - 1" using n bitlen_nonneg [of n] bitlen_eq_zero_iff [of n] by linarith
    have e: "expo q = - bitlen n" using False by (simp add: expo_def n_def)
    have "(of_int (n + 1) :: rat) \<le> of_int (2 ^ nat (bitlen n))"
      using bb(2) by (simp only: of_int_le_iff)
    with hi have "1 / q \<le> 2 ^ nat (bitlen n)" by simp
    then have "1 / 2 ^ nat (bitlen n) \<le> q" using assms by (simp add: field_simps)
    moreover have "(2 :: rat) powi (- bitlen n) = 1 / 2 ^ nat (bitlen n)"
      using nn by (simp add: power_int_def field_simps)
    moreover have "(of_int (2 ^ nat (bitlen n - 1)) :: rat) \<le> of_int n"
      using bb(1) by (simp only: of_int_le_iff)
    then have "2 ^ nat (bitlen n - 1) \<le> (of_int n :: rat)" by simp
    from le_less_trans [OF this lo] have "2 ^ nat (bitlen n - 1) < 1 / q" .
    then have "q < 1 / 2 ^ nat (bitlen n - 1)" using assms by (simp add: field_simps)
    moreover have "(2 :: rat) powi (- bitlen n + 1) = 1 / 2 ^ nat (bitlen n - 1)"
    proof (cases "bitlen n = 1")
      case False
      then have "\<not> 0 \<le> - bitlen n + 1" "nat (- (- bitlen n + 1)) = nat (bitlen n - 1)"
        using nn by auto
      then show ?thesis by (simp add: power_int_def field_simps)
    qed simp
    ultimately show ?thesis by (simp add: e)
  qed
  then show "2 powi expo q \<le> q" "q < 2 powi (expo q + 1)" by auto
qed

lemma powi_mono: "i \<le> j \<Longrightarrow> (2 :: rat) powi i \<le> 2 powi j"
  by (rule power_int_increasing) auto

lemma powi_le_iff: "(2 :: rat) powi i \<le> 2 powi j \<longleftrightarrow> i \<le> j"
proof
  show "i \<le> j" if "(2 :: rat) powi i \<le> 2 powi j"
  proof (rule ccontr)
    assume "\<not> i \<le> j"
    then have "(2 :: rat) powi j < 2 powi i" by (intro power_int_strict_increasing) auto
    with that show False by simp
  qed
qed (rule powi_mono)

lemma powi_less_iff: "(2 :: rat) powi i < 2 powi j \<longleftrightarrow> i < j"
  using powi_le_iff [of j i] by (simp add: not_le [symmetric])

lemma expo_unique:
  assumes "2 powi e \<le> q" and "q < 2 powi (e + 1)"
  shows "expo q = e"
proof -
  have "0 < q" using less_le_trans [OF powi_pos assms(1)] .
  note b = expo_bounds [OF this]
  have "(2 :: rat) powi e < 2 powi (expo q + 1)" "(2 :: rat) powi expo q < 2 powi (e + 1)"
    using assms b by (auto intro: le_less_trans)
  then show ?thesis by (simp add: powi_less_iff)
qed

lemma expo_mono:
  assumes "0 < x" and "x \<le> y"
  shows "expo x \<le> expo y"
proof -
  have "(2 :: rat) powi expo x < 2 powi (expo y + 1)"
    using expo_bounds [OF assms(1)] expo_bounds [of y] assms by (auto intro: le_less_trans)
  then show ?thesis by (simp add: powi_less_iff)
qed

section \<open>Rounding to an integer\<close>

lemma round_half_even_err: "\<bar>of_int (round_half_even x) - x\<bar> \<le> 1 / 2"
proof -
  define f where "f = \<lfloor>x\<rfloor>"
  have "of_int f \<le> x" "x < of_int f + 1" unfolding f_def by (rule floor_rat_bounds)+
  then show ?thesis
    unfolding round_half_even_def f_def [symmetric] Let_def by (auto simp: abs_le_iff)
qed

lemma round_half_even_of_int [simp]: "round_half_even (of_int n) = n"
  by (simp add: round_half_even_def)

lemma round_half_even_mono:
  assumes "x \<le> y"
  shows "round_half_even x \<le> round_half_even y"
proof -
  define f g where "f = \<lfloor>x\<rfloor>" and "g = \<lfloor>y\<rfloor>"
  have b: "of_int f \<le> x" "x < of_int f + 1" "of_int g \<le> y" "y < of_int g + 1"
    unfolding f_def g_def by (rule floor_rat_bounds)+
  have fg: "f \<le> g" using assms by (simp add: f_def g_def floor_mono)
  have r: "f \<le> round_half_even x" "round_half_even x \<le> f + 1" "g \<le> round_half_even y"
    by (auto simp: round_half_even_def f_def g_def Let_def)
  show ?thesis
  proof (cases "f = g")
    case True
    then show ?thesis
      using assms unfolding round_half_even_def f_def [symmetric] g_def [symmetric] Let_def by auto
  next
    case False
    then show ?thesis using fg r by linarith
  qed
qed

lemma round_half_even_minus: "round_half_even (- x) = - round_half_even x"
proof -
  define f where "f = \<lfloor>x\<rfloor>"
  have b: "of_int f \<le> x" "x < of_int f + 1" unfolding f_def by (rule floor_rat_bounds)+
  show ?thesis
  proof (cases "x = of_int f")
    case True
    then show ?thesis by (metis of_int_minus round_half_even_of_int)
  next
    case False
    then have g: "\<lfloor>- x\<rfloor> = - f - 1" using b by (intro floor_unique) auto
    have "even (- f - 1) \<longleftrightarrow> odd f" by simp
    then show ?thesis
      unfolding round_half_even_def Let_def g f_def [symmetric] by auto
  qed
qed

section \<open>Laws of the rounding\<close>

lemma rnd53_minus: "rnd53 (- q) = - rnd53 q"
  by (simp add: rnd53_def ulp_exp_def Let_def round_half_even_minus flip: minus_divide_left)

lemma rnd53_0 [simp]: "rnd53 0 = 0"
  by (simp add: rnd53_def)

lemma rnd53_nonneg: "0 \<le> q \<Longrightarrow> 0 \<le> rnd53 q"
  using round_half_even_mono [of 0 "q / 2 powi ulp_exp q"] round_half_even_of_int [of 0]
  by (auto simp: rnd53_def Let_def intro!: mult_nonneg_nonneg)

text \<open>The value of a rounding lies in the binade of its argument, or is the next power.\<close>

lemma rnd53_binade:
  assumes "0 < q" and "- 1022 \<le> expo q"
  shows "2 powi expo q \<le> rnd53 q" and "rnd53 q \<le> 2 powi (expo q + 1)"
proof -
  define u where "u = ulp_exp q"
  have u: "u = expo q - 52" using assms by (simp add: u_def ulp_exp_def)
  have r: "rnd53 q = of_int (round_half_even (q / 2 powi u)) * 2 powi u"
    using assms by (simp add: rnd53_def u_def Let_def)
  have p: "(2 :: rat) powi expo q = of_int (2 ^ 52) * 2 powi u"
    "(2 :: rat) powi (expo q + 1) = of_int (2 ^ 53) * 2 powi u"
    using power_int_add [of "2 :: rat" 52 u] power_int_add [of "2 :: rat" 53 u] by (simp_all add: u add.commute)
  note b = expo_bounds [OF assms(1)]
  have "of_int (2 ^ 52) \<le> q / 2 powi u" "q / 2 powi u \<le> of_int (2 ^ 53)"
    using b by (simp_all only: p le_divide_eq divide_le_eq powi_pos if_True less_imp_le)
  then have "2 ^ 52 \<le> round_half_even (q / 2 powi u)" "round_half_even (q / 2 powi u) \<le> 2 ^ 53"
    using round_half_even_mono round_half_even_of_int by metis+
  then have "(of_int (2 ^ 52) :: rat) \<le> of_int (round_half_even (q / 2 powi u))"
    "(of_int (round_half_even (q / 2 powi u)) :: rat) \<le> of_int (2 ^ 53)"
    by (simp_all only: of_int_le_iff)
  then show "2 powi expo q \<le> rnd53 q" "rnd53 q \<le> 2 powi (expo q + 1)"
    unfolding r p by (simp_all only: mult_right_mono less_imp_le [OF powi_pos])
qed

lemma rnd53_mono_pos:
  assumes "0 < x" and "x \<le> y"
  shows "rnd53 x \<le> rnd53 y"
proof (cases "ulp_exp x = ulp_exp y")
  case True
  have "x / 2 powi ulp_exp y \<le> y / 2 powi ulp_exp y"
    using assms by (intro divide_right_mono) (auto intro: less_imp_le)
  then have "round_half_even (x / 2 powi ulp_exp y) \<le> round_half_even (y / 2 powi ulp_exp y)"
    by (rule round_half_even_mono)
  then show ?thesis
    using assms True by (auto simp: rnd53_def Let_def intro!: mult_right_mono less_imp_le [OF powi_pos])
next
  case False
  have e: "expo x \<le> expo y" by (rule expo_mono [OF assms])
  with False have lt: "expo x < expo y" "- 1022 < expo y"
    using assms by (auto simp: ulp_exp_def max_def split: if_splits)
  have "rnd53 x \<le> 2 powi expo y"
  proof (cases "- 1022 \<le> expo x")
    case True
    have "rnd53 x \<le> 2 powi (expo x + 1)" by (rule rnd53_binade(2) [OF assms(1) True])
    also have "\<dots> \<le> 2 powi expo y" using lt by (intro powi_mono) simp
    finally show ?thesis .
  next
    case False
    then have u: "ulp_exp x = - 1074" using assms(1) by (simp add: ulp_exp_def)
    have "x < 2 powi (expo x + 1)" by (rule expo_bounds(2) [OF assms(1)])
    also have "\<dots> \<le> 2 powi (- 1022)" using False by (intro powi_mono) simp
    also have "(2 :: rat) powi (- 1022) = of_int (2 ^ 52) * 2 powi (- 1074)"
      using power_int_add [of "2 :: rat" 52 "- 1074"] by simp
    finally have "x / 2 powi (- 1074) \<le> of_int (2 ^ 52)"
      by (simp only: divide_le_eq powi_pos if_True less_imp_le)
    then have "round_half_even (x / 2 powi (- 1074)) \<le> 2 ^ 52"
      using round_half_even_mono round_half_even_of_int by metis
    then have "(of_int (round_half_even (x / 2 powi (- 1074))) :: rat) \<le> of_int (2 ^ 52)"
      by (simp only: of_int_le_iff)
    then have "rnd53 x \<le> of_int (2 ^ 52) * 2 powi (- 1074)"
      using assms(1) unfolding rnd53_def Let_def u
      by (simp only: mult_right_mono less_imp_le [OF powi_pos] if_False less_imp_neq [symmetric] simp_thms less_irrefl)
    also have "\<dots> = 2 powi (- 1022)" using power_int_add [of "2 :: rat" 52 "- 1074"] by simp
    also have "\<dots> \<le> 2 powi expo y" using lt by (intro powi_mono) simp
    finally show ?thesis .
  qed
  also have "\<dots> \<le> rnd53 y" using rnd53_binade(1) [of y] assms lt by simp
  finally show ?thesis .
qed

lemma rnd53_mono: "x \<le> y \<Longrightarrow> rnd53 x \<le> rnd53 y"
proof -
  assume le: "x \<le> y"
  consider "0 < x" | "x \<le> 0" "0 \<le> y" | "y < 0" by linarith
  then show ?thesis
  proof cases
    case 1
    then show ?thesis using le by (rule rnd53_mono_pos)
  next
    case 2
    then have "0 \<le> rnd53 (- x)" "0 \<le> rnd53 y" by (simp_all add: rnd53_nonneg)
    then show ?thesis by (simp add: rnd53_minus)
  next
    case 3
    then have "rnd53 (- y) \<le> rnd53 (- x)" using le by (intro rnd53_mono_pos) auto
    then show ?thesis by (simp add: rnd53_minus)
  qed
qed


text \<open>A binary fraction of at most 53 bits on or above the subnormal grid is its own rounding.\<close>

lemma rnd53_exact_pos:
  assumes "0 < m" and "m < 2 ^ 53" and "- 1074 \<le> e"
  shows "rnd53 (of_int m * 2 powi e) = of_int m * 2 powi e"
proof -
  let ?q = "of_int m * 2 powi e :: rat"
  have pos: "0 < ?q" using assms(1) by simp
  have "(of_int m :: rat) < of_int (2 ^ 53)" using assms(2) by (simp only: of_int_less_iff)
  then have "?q < of_int (2 ^ 53) * 2 powi e" by (simp only: mult_less_cancel_right_pos powi_pos)
  also have "of_int (2 ^ 53) * 2 powi e = (2 :: rat) powi (e + 53)"
    using power_int_add [of "2 :: rat" e 53] by simp
  finally have "(2 :: rat) powi expo ?q < 2 powi (e + 53)"
    using expo_bounds(1) [OF pos] by (rule le_less_trans [rotated])
  then have "expo ?q < e + 53" by (simp only: powi_less_iff)
  then have u: "ulp_exp ?q \<le> e" using pos assms(3) by (simp add: ulp_exp_def)
  define k where "k = nat (e - ulp_exp ?q)"
  have "(2 :: rat) powi e = 2 powi ulp_exp ?q * 2 ^ k"
    using u power_int_add [of "2 :: rat" "ulp_exp ?q" "int k"]
    by (simp add: k_def) (simp add: power_int_def)
  then have d: "?q / 2 powi ulp_exp ?q = of_int (m * 2 ^ k)"
    using powi_pos [of "ulp_exp ?q"] by (simp add: field_simps)
  have "rnd53 ?q = of_int (round_half_even (?q / 2 powi ulp_exp ?q)) * 2 powi ulp_exp ?q"
    using pos unfolding rnd53_def Let_def by (simp only: if_False less_imp_neq [symmetric])
  also have "\<dots> = ?q / 2 powi ulp_exp ?q * 2 powi ulp_exp ?q"
    unfolding d round_half_even_of_int ..
  also have "\<dots> = ?q" using powi_pos [of "ulp_exp ?q"] by simp
  finally show ?thesis .
qed

lemma rnd53_exact:
  assumes "\<bar>m\<bar> < 2 ^ 53" and "- 1074 \<le> e"
  shows "rnd53 (of_int m * 2 powi e) = of_int m * 2 powi e"
proof -
  consider "m = 0" | "0 < m" | "m < 0" by linarith
  then show ?thesis
  proof cases
    case 3
    then have "rnd53 (of_int (- m) * 2 powi e) = of_int (- m) * 2 powi e"
      using assms by (intro rnd53_exact_pos) auto
    then show ?thesis using rnd53_minus [of "of_int m * 2 powi e"] by simp
  qed (use assms rnd53_exact_pos in auto)
qed

lemma rnd53_of_int: "\<bar>m\<bar> < 2 ^ 53 \<Longrightarrow> rnd53 (of_int m) = of_int m"
  using rnd53_exact [of m 0] by simp

text \<open>The relative error of a rounding in the normal range.\<close>

lemma rnd53_rel_pos:
  assumes "2 powi (- 1022) \<le> q"
  shows "\<bar>rnd53 q - q\<bar> \<le> q / 2 ^ 53"
proof -
  have pos: "0 < q" by (rule less_le_trans [OF powi_pos assms])
  have "(2 :: rat) powi (- 1022) < 2 powi (expo q + 1)"
    by (rule le_less_trans [OF assms expo_bounds(2) [OF pos]])
  then have "- 1022 \<le> expo q" unfolding powi_less_iff by simp
  then have u: "ulp_exp q = expo q - 52" using pos by (simp add: ulp_exp_def)
  define w where "w = (2 :: rat) powi ulp_exp q"
  have w: "0 < w" by (simp add: w_def)
  have r: "rnd53 q = of_int (round_half_even (q / w)) * w"
    using pos unfolding rnd53_def Let_def w_def by (simp only: if_False less_imp_neq [symmetric])
  have "\<bar>rnd53 q - q\<bar> = \<bar>of_int (round_half_even (q / w)) - q / w\<bar> * w"
    unfolding r using w by (simp add: abs_mult_pos left_diff_distrib)
  also have "\<dots> \<le> 1 / 2 * w"
    using round_half_even_err w by (intro mult_right_mono) auto
  also have "w = 2 powi expo q / 2 ^ 52"
    unfolding w_def u using power_int_diff [of "2 :: rat" "expo q" 52] by simp
  also have "1 / 2 * (2 powi expo q / 2 ^ 52) \<le> q / 2 ^ 53"
    using expo_bounds(1) [OF pos] by simp
  finally show ?thesis .
qed

lemma rnd53_rel:
  assumes "2 powi (- 1022) \<le> \<bar>q\<bar>"
  shows "\<bar>rnd53 q - q\<bar> \<le> \<bar>q\<bar> / 2 ^ 53"
proof (cases "0 \<le> q")
  case False
  then show ?thesis using rnd53_rel_pos [of "- q"] assms by (simp add: rnd53_minus)
qed (use rnd53_rel_pos assms in simp)

section \<open>Doubles\<close>

lemma rnd_Fin: "\<bar>rnd53 q\<bar> < 2 ^ 1024 \<Longrightarrow> rnd q = Fin (rnd53 q)"
  by (simp add: rnd_def Let_def)

lemma of_i_exact: "\<bar>n\<bar> < 2 ^ 53 \<Longrightarrow> of_i n = Fin (of_int n)"
proof -
  assume n: "\<bar>n\<bar> < 2 ^ 53"
  then have "\<bar>of_int n :: rat\<bar> < of_int (2 ^ 53)" by (simp only: of_int_abs [symmetric] of_int_less_iff)
  also have "(of_int (2 ^ 53) :: rat) \<le> 2 ^ 1024" by simp
  finally show ?thesis
    using rnd53_of_int [OF n] by (simp add: of_i_def rnd_def Let_def)
qed

lemma fle_rnd: "a \<le> b \<Longrightarrow> fle (rnd a) (rnd b)"
proof -
  assume "a \<le> b"
  then have m: "rnd53 a \<le> rnd53 b" by (rule rnd53_mono)
  define B :: rat where "B = 2 ^ 1024"
  have B: "0 < B" by (simp add: B_def)
  show ?thesis
    using m B unfolding rnd_def Let_def B_def [symmetric] by (auto simp: abs_less_iff)
qed

lemma round_half_away_eqI:
  assumes "\<bar>q - of_int n\<bar> < 1 / 2"
  shows "round_half_away q = n"
proof (cases "0 \<le> q")
  note d = assms [unfolded abs_less_iff]
  case True
  have "\<lfloor>q + 1 / 2\<rfloor> = n" using d by (intro floor_unique) linarith+
  then show ?thesis using True by (simp add: round_half_away_def)
next
  case False
  have "\<lfloor>- q + 1 / 2\<rfloor> = - n" using assms [unfolded abs_less_iff] by (intro floor_unique) simp_all
  then show ?thesis using False by (simp add: round_half_away_def)
qed

lemma isqrt_bounds: "isqrt n * isqrt n \<le> n \<and> n < (isqrt n + 1) * (isqrt n + 1)"
proof (induction n rule: isqrt.induct)
  case (1 n)
  show ?case
  proof (cases "n = 0")
    case False
    define k where "k = isqrt (n div 4)"
    have ih: "k * k \<le> n div 4" "n div 4 < (k + 1) * (k + 1)" using "1.IH" [OF False] by (simp_all add: k_def)
    have "4 * (k * k) \<le> n" using ih(1) by linarith
    then have lo: "(2 * k) * (2 * k) \<le> n" by simp
    have "n div 4 + 1 \<le> (k + 1) * (k + 1)" using ih(2) by simp
    then have "n < 4 * ((k + 1) * (k + 1))" by linarith
    then have hi: "n < (2 * k + 2) * (2 * k + 2)" by (simp add: algebra_simps)
    have "isqrt n = (if (2 * k + 1) * (2 * k + 1) \<le> n then 2 * k + 1 else 2 * k)"
      using False by (subst isqrt.simps) (simp add: k_def Let_def)
    then show ?thesis using lo hi by (auto simp: not_le)
  qed (simp add: isqrt.simps)
qed

lemma rnd53_shape: "\<exists>n e. rnd53 q = of_int n * 2 powi e \<and> \<bar>n\<bar> < 2 ^ 53 \<and> - 1074 \<le> e"
proof (cases "q = 0")
  case True
  then show ?thesis by (intro exI [of _ 0]) auto
next
  case False
  define u where "u = ulp_exp q"
  define n where "n = round_half_even (q / 2 powi u)"
  have u: "- 1074 \<le> u" "expo \<bar>q\<bar> \<le> u + 52" by (simp_all add: u_def ulp_exp_def)
  have r: "rnd53 q = of_int n * 2 powi u"
    using False unfolding rnd53_def Let_def n_def u_def by simp
  have "\<bar>q\<bar> < 2 powi (expo \<bar>q\<bar> + 1)" using False by (intro expo_bounds) simp
  also have "\<dots> \<le> 2 powi (u + 53)" using u by (intro powi_mono) simp
  also have "(2 :: rat) powi (u + 53) = of_int (2 ^ 53) * 2 powi u"
    using power_int_add [of "2 :: rat" u 53] by simp
  finally have "\<bar>q\<bar> / 2 powi u \<le> of_int (2 ^ 53)" by (simp add: divide_le_eq)
  then have "q / 2 powi u \<le> of_int (2 ^ 53)" "of_int (- (2 ^ 53)) \<le> q / 2 powi u"
    by (auto simp: abs_le_iff field_simps)
  then have "n \<le> 2 ^ 53" "- (2 ^ 53) \<le> n"
    unfolding n_def using round_half_even_mono round_half_even_of_int by metis+
  then consider "\<bar>n\<bar> < 2 ^ 53" | "n = 2 ^ 53" | "n = - (2 ^ 53)" by linarith
  then show ?thesis
  proof cases
    case 1
    then show ?thesis using r u by blast
  next
    case 2
    then have "rnd53 q = of_int (2 ^ 52) * 2 powi (u + 1)" using r by (simp add: power_int_add)
    moreover have "\<bar>2 ^ 52 :: int\<bar> < 2 ^ 53" "- 1074 \<le> u + 1" using u by simp_all
    ultimately show ?thesis by blast
  next
    case 3
    then have "rnd53 q = of_int (- (2 ^ 52)) * 2 powi (u + 1)" using r by (simp add: power_int_add)
    moreover have "\<bar>- (2 ^ 52) :: int\<bar> < 2 ^ 53" "- 1074 \<le> u + 1" using u by simp_all
    ultimately show ?thesis by blast
  qed
qed

lemma rnd53_idem [simp]: "rnd53 (rnd53 q) = rnd53 q"
  using rnd53_shape [of q] rnd53_exact by metis

lemma rnd_FinD: "rnd q = Fin r \<Longrightarrow> r = rnd53 q \<and> \<bar>r\<bar> < 2 ^ 1024"
  by (simp add: rnd_def Let_def split: if_splits)

lemma rnd_again: "rnd q = Fin r \<Longrightarrow> rnd r = Fin r"
  by (auto dest!: rnd_FinD simp: rnd_Fin)

lemma rnd_dyadic:
  assumes "\<bar>m\<bar> < 2 ^ 53" and "k \<le> 1000"
  shows "rnd (of_int m / 2 ^ k) = Fin (of_int m / 2 ^ k)"
proof -
  have e: "of_int m / 2 ^ k = (of_int m * 2 powi (- int k) :: rat)"
    by (simp add: power_int_minus field_simps)
  have "rnd53 (of_int m / 2 ^ k) = of_int m / 2 ^ k"
    unfolding e using assms by (intro rnd53_exact) auto
  moreover have "\<bar>of_int m / 2 ^ k :: rat\<bar> < 2 ^ 1024"
  proof -
    have "\<bar>of_int m / 2 ^ k :: rat\<bar> \<le> of_int \<bar>m\<bar> / 1"
      by (simp add: divide_le_eq mult_le_cancel_left1)
    also have "(of_int \<bar>m\<bar> :: rat) < of_int (2 ^ 53)" using assms(1) by (simp only: of_int_less_iff div_by_1)
    also have "(of_int (2 ^ 53) :: rat) \<le> 2 ^ 1024" by simp
    finally show ?thesis by simp
  qed
  ultimately show ?thesis by (simp add: rnd_Fin)
qed

lemma isqrt_square: "isqrt (k * k) = k"
proof -
  have b: "isqrt (k * k) * isqrt (k * k) \<le> k * k" "k * k < (isqrt (k * k) + 1) * (isqrt (k * k) + 1)"
    using isqrt_bounds by auto
  have "\<not> k < isqrt (k * k)" using b(1) mult_strict_mono [of k "isqrt (k * k)" k "isqrt (k * k)"] by linarith
  moreover have "\<not> isqrt (k * k) < k"
    using b(2) mult_mono [of "isqrt (k * k) + 1" k "isqrt (k * k) + 1" k] by linarith
  ultimately show ?thesis by simp
qed

lemma fdiv_FinD: "fdiv a b = Fin x \<Longrightarrow> \<exists>q. rnd q = Fin x"
proof -
  have "rnd 0 = Fin 0" by (simp add: rnd_def)
  then show "fdiv a b = Fin x \<Longrightarrow> \<exists>q. rnd q = Fin x"
    by (cases a; cases b) (auto simp: sgn_inf_def split: if_splits)
qed

text \<open>Adding a nonnegative amount never lowers a double, and taking one away never raises it.\<close>

lemma fadd_ge:
  assumes "rnd q = Fin m" and "fle (Fin 0) d"
  shows "fle (Fin m) (fadd (Fin m) d)" and "fle (fsub (Fin m) d) (Fin m)"
  using assms fle_rnd [of m "m + a" for a] fle_rnd [of "m - a" m for a] rnd_again [OF assms(1)]
  by (cases d; auto simp: fsub_def)+

lemma fmul_nonneg:
  assumes "fle (Fin 0) a" and "fle (Fin 0) b"
  shows "fmul a b = NaN \<or> fle (Fin 0) (fmul a b)"
proof -
  have "fle (Fin 0) (rnd (x * y))" if "0 \<le> x" "0 \<le> y" for x y
    using fle_rnd [of 0 "x * y"] that by (simp add: rnd_def)
  then show ?thesis using assms by (cases a; cases b) (auto simp: sgn_inf_def)
qed

lemma fsqrt_nonneg: "fsqrt x = NaN \<or> fle (Fin 0) (fsqrt x)"
proof (cases x)
  case (Fin q)
  have "fle (Fin 0) (rnd v)" if "0 \<le> v" for v using fle_rnd [of 0 v] that by (simp add: rnd_def)
  then show ?thesis using Fin by (auto simp: Let_def intro!: mult_nonneg_nonneg)
qed auto

end
