(* ===== verification/Prices.thy ===== *)
theory Prices
  imports CoreTypes Doubles
begin

text \<open>
  The conversions between fixed-point prices and doubles (\<open>types.hpp\<close>): the value crosses into a
  double only through \<open>to_double\<close> and \<open>from_double\<close>, and every 32-bit price survives the trip.
\<close>

definition price_to_double :: "price \<Rightarrow> dbl" where
  "price_to_double p = fdiv (of_i (minor p)) (Fin 100)"

definition price_from_double :: "dbl \<Rightarrow> price" where
  "price_from_double v = Price (to_i32 (llround (fmul v (Fin 100))))"

definition money_to_double :: "money \<Rightarrow> dbl" where
  "money_to_double m = fdiv (of_i (amount m)) (Fin 100)"

lemma small_powi: "(2 :: rat) powi (- 1022) \<le> 1 / 200"
proof -
  have "(2 :: rat) powi (- 1022) \<le> 2 powi (- 8)" by (intro powi_mono) simp
  also have "(2 :: rat) powi (- 8) = 1 / 2 ^ 8" by (simp add: power_int_def power_one_over)
  finally show ?thesis by simp
qed

text \<open>Scaling down by a hundred and up again moves an integer by less than one half.\<close>

lemma hundredths_error:
  assumes m: "\<bar>m\<bar> \<le> 2 ^ 50"
  shows "\<bar>rnd53 (rnd53 (of_int m / 100) * 100) - of_int m\<bar> < 1 / 2"
proof (cases "m = 0")
  case False
  define x a r b where "x = (of_int m :: rat)" and "a = \<bar>x\<bar>" and "r = rnd53 (x / 100)"
    and "b = r * 100"
  have a1: "1 \<le> a" using False by (simp add: a_def x_def flip: of_int_abs)
  have "(of_int \<bar>m\<bar> :: rat) \<le> of_int (2 ^ 50)" using m by (simp only: of_int_le_iff)
  then have a2: "a \<le> 2 ^ 50" by (simp add: a_def x_def)
  have "\<bar>r - x / 100\<bar> \<le> \<bar>x / 100\<bar> / 2 ^ 53"
    unfolding r_def using a1 small_powi by (intro rnd53_rel) (simp add: a_def)
  moreover have "\<bar>b - x\<bar> = \<bar>r - x / 100\<bar> * 100" unfolding b_def by (simp add: abs_if)
  ultimately have e1: "\<bar>b - x\<bar> \<le> a / 2 ^ 53" by (simp add: a_def)
  then have b2: "\<bar>b\<bar> \<le> 2 * a" "1 / 200 \<le> \<bar>b\<bar>"
    using a1 by (auto simp: a_def abs_le_iff abs_if split: if_splits)
  have "\<bar>rnd53 b - b\<bar> \<le> \<bar>b\<bar> / 2 ^ 53"
    using b2(2) small_powi by (intro rnd53_rel) simp
  with b2(1) have "\<bar>rnd53 b - b\<bar> \<le> 2 * a / 2 ^ 53" by simp
  moreover have "\<bar>rnd53 b - x\<bar> \<le> \<bar>rnd53 b - b\<bar> + \<bar>b - x\<bar>"
    using abs_triangle_ineq [of "rnd53 b - b" "b - x"] by simp
  ultimately have "\<bar>rnd53 b - x\<bar> \<le> 3 * a / 2 ^ 53" using e1 by simp
  also have "\<dots> < 1 / 2" using a2 by simp
  finally show ?thesis by (simp add: b_def r_def x_def)
qed simp

lemma to_double_Fin:
  assumes m: "\<bar>m\<bar> \<le> 2 ^ 50"
  shows "fdiv (of_i m) (Fin 100) = Fin (rnd53 (of_int m / 100))"
proof -
  define B :: rat where "B = 2 ^ 1024"
  have B: "2 ^ 51 \<le> B" by (simp add: B_def)
  have "(of_int \<bar>m\<bar> :: rat) \<le> of_int (2 ^ 50)" using m by (simp only: of_int_le_iff)
  then have a: "\<bar>of_int m / 100 :: rat\<bar> \<le> 2 ^ 50" by simp
  have "rnd53 (of_int m / 100) \<le> rnd53 (of_int (2 ^ 50))"
    "rnd53 (of_int (- (2 ^ 50))) \<le> rnd53 (of_int m / 100)"
    using a by (auto intro!: rnd53_mono simp: abs_le_iff)
  moreover have "rnd53 (of_int (2 ^ 50)) = of_int (2 ^ 50)"
    "rnd53 (of_int (- (2 ^ 50))) = of_int (- (2 ^ 50))"
    by (rule rnd53_of_int, simp)+
  ultimately have "rnd53 (of_int m / 100) \<le> 2 ^ 50" "- (2 ^ 50) \<le> rnd53 (of_int m / 100)"
    by simp_all
  then have "\<bar>rnd53 (of_int m / 100)\<bar> \<le> 2 ^ 50" by (simp add: abs_le_iff)
  then have "\<bar>rnd53 (of_int m / 100)\<bar> < B" using B by simp
  moreover have "of_i m = Fin (of_int m)" using m by (intro of_i_exact) simp
  ultimately show ?thesis by (simp add: rnd_Fin B_def)
qed

text \<open>Every 32-bit price survives the trip through a double: \<open>from_double(to_double())\<close>
  returns the very number of minor units, although the quotient by a hundred is rounded.\<close>

theorem price_double_roundtrip:
  assumes "i32_ok (minor p)"
  shows "price_from_double (price_to_double p) = p"
proof -
  define m where "m = minor p"
  have m: "\<bar>m\<bar> \<le> 2 ^ 50" "\<bar>m\<bar> \<le> 2 ^ 31" using assms by (auto simp: m_def)
  note e = hundredths_error [OF m(1)]
  let ?z = "rnd53 (rnd53 (of_int m / 100) * 100)"
  have n: "round_half_away ?z = m" by (rule round_half_away_eqI [OF e])
  have "(of_int \<bar>m\<bar> :: rat) \<le> of_int (2 ^ 31)" using m(2) by (simp only: of_int_le_iff)
  then have "\<bar>of_int m :: rat\<bar> \<le> 2 ^ 31" by simp
  moreover have "\<bar>?z\<bar> \<le> \<bar>?z - of_int m\<bar> + \<bar>of_int m\<bar>"
    using abs_triangle_ineq [of "?z - of_int m" "of_int m"] by simp
  ultimately have "\<bar>?z\<bar> < 2 ^ 32" using e by simp
  also have "(2 :: rat) ^ 32 \<le> 2 ^ 1024" by simp
  finally have "fmul (price_to_double p) (Fin 100) = Fin ?z"
    unfolding price_to_double_def m_def [symmetric] by (simp only: to_double_Fin [OF m(1)] fmul.simps rnd_Fin)
  moreover have "i64_ok m" using m by auto
  ultimately show ?thesis
    using assms n by (simp add: price_from_double_def m_def to_i32_id Let_def)
qed

theorem price_double_roundtrip_witness:
  "price_from_double (price_to_double (Price 23605)) = Price 23605"
  by (rule price_double_roundtrip) simp

end
