(* ===== verification/Costs.thy ===== *)
theory Costs
  imports Registry Prices
begin

text \<open>
  \<open>costs.hpp\<close> and \<open>costs.cpp\<close>: transaction costs as an injectable policy, a function from the
  context of a fill to money.  The contract of a policy is the locale \<open>cost_policy\<close>, interpreted
  on the statutory schedule with its default rates and on the policy that charges nothing.
\<close>

section \<open>Model\<close>

datatype side = Buy | Sell

fun opposite :: "side \<Rightarrow> side" where
  "opposite Buy = Sell"
| "opposite Sell = Buy"

record cost_context =
  cc_instrument :: instrument_spec
  cc_price :: price
  cc_qty :: qty
  cc_side :: side
  cc_exercise :: bool
  cc_intrinsic :: price

record rates =
  stt_sell_pct :: dbl
  stt_exercise_pct :: dbl
  transaction_pct :: dbl
  sebi_pct :: dbl
  ipft_pct :: dbl
  stamp_buy_pct :: dbl
  gst_pct :: dbl
  brokerage_per_order :: money

text \<open>A decimal literal is the nearest double.\<close>

definition default_rates :: rates where
  "default_rates =
     \<lparr>stt_sell_pct = rnd (15 / 10000), stt_exercise_pct = rnd (15 / 10000),
      transaction_pct = rnd (3553 / 10000000), sebi_pct = rnd (1 / 1000000),
      ipft_pct = rnd (1 / 1000000000), stamp_buy_pct = rnd (3 / 100000),
      gst_pct = rnd (18 / 100), brokerage_per_order = Money 2000\<rparr>"

definition indian_cost_of :: "rates \<Rightarrow> cost_context \<Rightarrow> money" where
  "indian_cost_of r ctx =
     (if cc_exercise ctx then
        let intrinsic = fmul (price_to_double (cc_intrinsic ctx)) (of_i (cc_qty ctx))
        in if \<not> flt (Fin 0) intrinsic then Money 0
           else Money (llround (fmul (fmul intrinsic (stt_exercise_pct r)) (Fin 100)))
      else
        let premium = fmul (price_to_double (cc_price ctx)) (of_i (cc_qty ctx));
            brokerage = fdiv (of_i (amount (brokerage_per_order r))) (Fin 100)
        in if \<not> flt (Fin 0) premium
           then Money (llround (fmul (fmul brokerage (fadd (Fin 1) (gst_pct r))) (Fin 100)))
           else
             let exchange = fmul premium (fadd (fadd (transaction_pct r) (sebi_pct r)) (ipft_pct r));
                 gst = fmul (fadd brokerage exchange) (gst_pct r);
                 statutory = (if cc_side ctx = Sell then fmul premium (stt_sell_pct r)
                              else fmul premium (stamp_buy_pct r));
                 total = fadd (fadd (fadd brokerage exchange) gst) statutory
             in Money (llround (fmul total (Fin 100))))"

definition no_costs :: "cost_context \<Rightarrow> money" where
  "no_costs ctx = Money 0"

definition default_cost_policy :: "cost_context \<Rightarrow> money" where
  "default_cost_policy = indian_cost_of default_rates"

section \<open>The contract\<close>

text \<open>The contexts the portfolio builds: 32-bit fields, a positive quantity, prices not negative.\<close>

definition context_ok :: "cost_context \<Rightarrow> bool" where
  "context_ok ctx \<longleftrightarrow> 0 < cc_qty ctx \<and> cc_qty ctx < 2 ^ 31 \<and> 0 \<le> minor (cc_price ctx) \<and>
     minor (cc_price ctx) < 2 ^ 31 \<and> 0 \<le> minor (cc_intrinsic ctx) \<and> minor (cc_intrinsic ctx) < 2 ^ 31"

locale cost_policy =
  fixes cost_of :: "cost_context \<Rightarrow> money"
  assumes cost_nonneg: "context_ok ctx \<Longrightarrow> 0 \<le> amount (cost_of ctx)"
begin

lemma costs_accumulate:
  assumes "\<forall>ctx \<in> set ctxs. context_ok ctx"
  shows "0 \<le> amount (sum_list (map cost_of ctxs))"
  using assms by (induction ctxs) (auto simp: cost_nonneg)

end

interpretation free_trading: cost_policy no_costs
  by unfold_locales (simp add: no_costs_def)

text \<open>Nonnegative doubles below a power of two: closed under the operations of the schedule.\<close>

definition below2 :: "int \<Rightarrow> dbl \<Rightarrow> bool" where
  "below2 k x \<longleftrightarrow> (\<exists>r. x = Fin r \<and> 0 \<le> r \<and> r \<le> 2 powi k)"

lemma rnd_below2:
  assumes "0 \<le> q" and "q \<le> 2 powi k" and "- 1074 \<le> k" and "k \<le> 1000"
  shows "below2 k (rnd q)"
proof -
  have "rnd53 (2 powi k) = 2 powi k" using rnd53_exact [of 1 k] assms(3) by simp
  then have le: "rnd53 q \<le> 2 powi k" using rnd53_mono [OF assms(2)] by simp
  also have "(2 :: rat) powi k \<le> 2 powi 1000" using assms(4) by (rule powi_mono)
  also have "(2 :: rat) powi 1000 < 2 ^ 1024" by (simp add: power_int_def)
  finally have "\<bar>rnd53 q\<bar> < 2 ^ 1024" using rnd53_nonneg [OF assms(1)] by simp
  then show ?thesis using le rnd53_nonneg [OF assms(1)] by (simp add: below2_def rnd_Fin)
qed

lemma below2_mono: "below2 j x \<Longrightarrow> j \<le> k \<Longrightarrow> below2 k x"
  using powi_mono by (force simp: below2_def intro: order_trans)

lemma below2_fmul:
  assumes "below2 j x" and "below2 k y" and "- 1074 \<le> j + k" and "j + k \<le> 1000"
  shows "below2 (j + k) (fmul x y)"
proof -
  obtain a b where ab: "x = Fin a" "y = Fin b" "0 \<le> a" "a \<le> 2 powi j" "0 \<le> b" "b \<le> 2 powi k"
    using assms(1,2) by (auto simp: below2_def)
  then have "a * b \<le> 2 powi j * 2 powi k" by (intro mult_mono) (auto intro: less_imp_le)
  also have "\<dots> = 2 powi (j + k)" by (simp add: power_int_add)
  finally show ?thesis using ab assms(3,4) by (auto intro!: rnd_below2)
qed

lemma below2_fadd:
  assumes "below2 k x" and "below2 k y" and "- 1074 \<le> k" and "k < 1000"
  shows "below2 (k + 1) (fadd x y)"
proof -
  obtain a b where ab: "x = Fin a" "y = Fin b" "0 \<le> a" "a \<le> 2 powi k" "0 \<le> b" "b \<le> 2 powi k"
    using assms(1,2) by (auto simp: below2_def)
  then have "a + b \<le> 2 powi (k + 1)" by (simp add: power_int_add)
  then show ?thesis using ab assms(3,4) by (auto intro!: rnd_below2)
qed

lemma below2_of_i: "0 \<le> n \<Longrightarrow> n < 2 ^ 31 \<Longrightarrow> below2 31 (of_i n)"
proof -
  assume n: "0 \<le> n" "n < 2 ^ 31"
  then have "(of_int n :: rat) \<le> of_int (2 ^ 31)" by (simp only: of_int_le_iff)
  then show ?thesis unfolding of_i_def using n by (intro rnd_below2) (auto simp: power_int_def)
qed

lemma below2_price: "0 \<le> minor p \<Longrightarrow> minor p < 2 ^ 31 \<Longrightarrow> below2 25 (price_to_double p)"
proof -
  assume n: "0 \<le> minor p" "minor p < 2 ^ 31"
  then have "(of_int (minor p) :: rat) \<le> of_int (2 ^ 31)" by (simp only: of_int_le_iff)
  then have "below2 25 (rnd (of_int (minor p) / 100))"
    using n by (intro rnd_below2) (auto simp: power_int_def)
  then show ?thesis using n by (simp add: price_to_double_def of_i_exact)
qed

lemma below2_100: "below2 7 (Fin 100)"
  by (simp add: below2_def power_int_def)

lemma llround_below2: "below2 k x \<Longrightarrow> k < 63 \<Longrightarrow> 0 \<le> llround x"
proof -
  assume x: "below2 k x" and k: "k < 63"
  then obtain r where r: "x = Fin r" "0 \<le> r" "r \<le> 2 powi k" by (auto simp: below2_def)
  note r(3)
  also have "(2 :: rat) powi k \<le> 2 powi 62" using k by (intro powi_mono) simp
  also have "(2 :: rat) powi 62 = 2 ^ 62" by (simp add: power_int_def)
  finally have "r + 1 / 2 < of_int (2 ^ 63)" by simp
  then have "\<lfloor>r + 1 / 2\<rfloor> < 2 ^ 63" by (simp only: floor_less_iff)
  moreover have "0 \<le> \<lfloor>r + 1 / 2\<rfloor>" using r(2) by simp
  ultimately show ?thesis using r by (simp add: round_half_away_def Let_def)
qed

lemma default_rates_below2:
  "below2 (- 9) (stt_sell_pct default_rates)" "below2 (- 9) (stt_exercise_pct default_rates)"
  "below2 (- 11) (transaction_pct default_rates)" "below2 (- 11) (sebi_pct default_rates)"
  "below2 (- 10) (ipft_pct default_rates)" "below2 (- 9) (stamp_buy_pct default_rates)"
  "below2 0 (gst_pct default_rates)"
  by (auto simp: default_rates_def power_int_def power_one_over intro!: rnd_below2)

lemma indian_cost_nonneg:
  assumes "context_ok ctx"
  shows "0 \<le> amount (indian_cost_of default_rates ctx)"
proof -
  note rates = default_rates_below2
  have b: "fdiv (of_i (amount (brokerage_per_order default_rates))) (Fin 100) = Fin 20"
    using rnd_dyadic [of 20 0] by (simp add: default_rates_def of_i_exact)
  have p: "below2 56 (fmul (price_to_double (cc_price ctx)) (of_i (cc_qty ctx)))"
    "below2 56 (fmul (price_to_double (cc_intrinsic ctx)) (of_i (cc_qty ctx)))"
    using assms below2_fmul [OF below2_price below2_of_i, of "cc_price ctx" "cc_qty ctx"]
      below2_fmul [OF below2_price below2_of_i, of "cc_intrinsic ctx" "cc_qty ctx"]
    by (auto simp: context_ok_def)
  define prem where "prem = fmul (price_to_double (cc_price ctx)) (of_i (cc_qty ctx))"
  define ex where "ex = fmul prem (fadd (fadd (transaction_pct default_rates) (sebi_pct default_rates)) (ipft_pct default_rates))"
  have prem: "below2 56 prem" using p(1) by (simp add: prem_def)
  have "below2 (- 10) (fadd (transaction_pct default_rates) (sebi_pct default_rates))"
    using below2_fadd [OF rates(3,4)] by simp
  from below2_fadd [OF this rates(5)]
  have ex: "below2 47 ex" using below2_fmul [OF prem, of "- 9"] by (simp add: ex_def)
  have twenty: "below2 47 (Fin 20)" "below2 5 (Fin 20)" by (simp_all add: below2_def power_int_def)
  have be: "below2 48 (fadd (Fin 20) ex)" using below2_fadd [OF twenty(1) ex] by simp
  have gst: "below2 48 (fmul (fadd (Fin 20) ex) (gst_pct default_rates))"
    using below2_fmul [OF be rates(7)] by simp
  have stat: "below2 49 (if cc_side ctx = Sell then fmul prem (stt_sell_pct default_rates)
      else fmul prem (stamp_buy_pct default_rates))"
    using below2_fmul [OF prem rates(1)] below2_fmul [OF prem rates(6)]
    by (auto intro: below2_mono [of 47])
  have "below2 49 (fadd (fadd (Fin 20) ex) (fmul (fadd (Fin 20) ex) (gst_pct default_rates)))"
    using below2_fadd [OF be gst] by simp
  from below2_fmul [OF below2_fadd [OF this stat] below2_100]
  have main: "0 \<le> llround (fmul (fadd (fadd (fadd (Fin 20) ex)
      (fmul (fadd (Fin 20) ex) (gst_pct default_rates)))
      (if cc_side ctx = Sell then fmul prem (stt_sell_pct default_rates)
       else fmul prem (stamp_buy_pct default_rates))) (Fin 100))"
    using llround_below2 by fastforce
  have one: "below2 0 (Fin 1)" by (simp add: below2_def)
  from below2_fmul [OF below2_fmul [OF twenty(2) below2_fadd [OF one rates(7)]] below2_100]
  have zero: "0 \<le> llround (fmul (fmul (Fin 20) (fadd (Fin 1) (gst_pct default_rates))) (Fin 100))"
    using llround_below2 by fastforce
  from below2_fmul [OF below2_fmul [OF p(2) rates(2)] below2_100]
  have exer: "0 \<le> llround (fmul (fmul (fmul (price_to_double (cc_intrinsic ctx)) (of_i (cc_qty ctx)))
      (stt_exercise_pct default_rates)) (Fin 100))"
    using llround_below2 by fastforce
  show ?thesis
    using main zero exer
    by (simp add: indian_cost_of_def Let_def b prem_def [symmetric] ex_def [symmetric])
qed

interpretation statutory: cost_policy "indian_cost_of default_rates"
  by unfold_locales (rule indian_cost_nonneg)

section \<open>Properties\<close>

text \<open>The statutory schedule never pays the trader.  On every context the portfolio can build
  (positive size, prices and intrinsic value not negative, 32-bit fields) the double-precision
  computation with the published rates rounds to a charge of zero or more, so that costs only ever
  accumulate; and an exercise without intrinsic value is free.\<close>

theorem statutory_costs_nonneg:
  assumes "\<forall>ctx \<in> set ctxs. context_ok ctx"
  shows "0 \<le> amount (sum_list (map default_cost_policy ctxs)) \<and>
    (\<forall>ctx \<in> set ctxs. 0 \<le> amount (default_cost_policy ctx) \<and>
       (cc_exercise ctx \<and> minor (cc_intrinsic ctx) = 0 \<longrightarrow> default_cost_policy ctx = Money 0))"
proof (intro conjI ballI impI)
  show "0 \<le> amount (sum_list (map default_cost_policy ctxs))"
    unfolding default_cost_policy_def by (rule statutory.costs_accumulate [OF assms])
  fix ctx
  assume in_ctxs: "ctx \<in> set ctxs"
  show "0 \<le> amount (default_cost_policy ctx)"
    unfolding default_cost_policy_def using statutory.cost_nonneg assms in_ctxs by blast
  assume ex: "cc_exercise ctx \<and> minor (cc_intrinsic ctx) = 0"
  have "0 \<le> cc_qty ctx" "cc_qty ctx < 2 ^ 31"
    using assms in_ctxs by (auto simp: context_ok_def)
  then obtain n where n: "of_i (cc_qty ctx) = Fin n" using below2_of_i [of "cc_qty ctx"] by (auto simp: below2_def)
  have z: "rnd 0 = Fin 0" by (simp add: rnd_Fin)
  then have "price_to_double (cc_intrinsic ctx) = Fin 0" using ex by (simp add: price_to_double_def of_i_def)
  then show "default_cost_policy ctx = Money 0"
    using ex by (simp add: default_cost_policy_def indian_cost_of_def n z Let_def)
qed

definition demo_context :: cost_context where
  "demo_context = \<lparr>cc_instrument = \<lparr>spec_id = InstrumentId 0, underlying = UnderlyingId 0,
       kind = Option, expiry = Date 20250703, strike = Price 10000, right_of = Call, lot_size = 75, tick_size = Price 5\<rparr>,
      cc_price = Price 15000, cc_qty = 75, cc_side = Sell,
     cc_exercise = False, cc_intrinsic = Price 0\<rparr>"

theorem statutory_costs_nonneg_witness: "0 \<le> amount (default_cost_policy demo_context)"
  using statutory_costs_nonneg [of "[demo_context]"] by (simp add: context_ok_def demo_context_def)

end
