(* ===== verification/Portfolio.thy ===== *)
theory Portfolio
  imports Session Costs
begin

text \<open>
  \<open>portfolio.hpp\<close> and \<open>portfolio.cpp\<close>: positions and their legs, the pending orders, the attached
  risk rules, fills, marks, settlement and end of day.  A member function that mutates the object
  is a function from portfolio to portfolio; one that may throw returns a sum.  The invariant and
  the laws are in \<open>PortfolioLaws\<close>.
\<close>

section \<open>State\<close>

record fill_model =
  fm_fill :: "quote \<Rightarrow> side \<Rightarrow> qty \<Rightarrow> price option"
  fm_illiquid_spread_ratio :: dbl

definition cross_spread_fill :: "quote \<Rightarrow> side \<Rightarrow> qty \<Rightarrow> price option" where
  "cross_spread_fill q s n =
     (if \<not> two_sided q then None
      else if q_ask q < q_bid q then None
      else Some (if s = Buy then q_ask q else q_bid q))"

definition cross_spread :: fill_model where
  "cross_spread = \<lparr>fm_fill = cross_spread_fill, fm_illiquid_spread_ratio = rnd (2 / 100)\<rparr>"

datatype leg_state = PendingOpen | Open | PendingClose | Closed | Cancelled

record leg =
  leg_instrument :: instrument_id
  leg_qty :: qty
  leg_state :: leg_state
  entry :: price
  entry_ts :: timestamp
  exit :: price
  exit_ts :: timestamp
  last_mark :: price
  last_mark_ts :: timestamp
  settled :: bool

definition filled :: "leg \<Rightarrow> bool" where
  "filled l \<longleftrightarrow> leg_state l = Open \<or> leg_state l = PendingClose \<or> leg_state l = Closed"

definition live :: "leg \<Rightarrow> bool" where
  "live l \<longleftrightarrow> leg_state l = Open \<or> leg_state l = PendingClose"

definition cancelled :: "leg \<Rightarrow> bool" where
  "cancelled l \<longleftrightarrow> leg_state l = Cancelled"

definition closing_side :: "leg \<Rightarrow> side" where
  "closing_side l = (if leg_qty l < 0 then Buy else Sell)"

record position =
  pos_id :: int
  pos_label :: string
  pos_legs :: "leg list"

record pending_order =
  o_position :: int
  o_leg_index :: nat
  o_instrument :: instrument_id
  o_side :: side
  o_qty :: qty
  submitted_at :: timestamp
  eligible_at :: timestamp
  closing :: bool
  o_from_rule :: bool

datatype rule_kind = StopLossPct | TakeProfitPct | ExitAt

record risk_rule =
  rule_kind :: rule_kind
  rule_position :: int
  rule_leg :: "nat option"
  threshold :: dbl
  deadline :: timestamp
  fired :: bool

record trade_record =
  signal_ts :: timestamp
  fill_ts :: timestamp
  t_position :: int
  t_instrument :: instrument_id
  t_side :: side
  t_qty :: qty
  t_price :: price
  t_cost :: money
  t_illiquid :: bool
  t_from_rule :: bool
  t_oversized :: bool
  t_settled :: bool

record portfolio =
  pf_fills :: fill_model
  pf_delay :: int
  positions :: "position list"
  pending :: "pending_order list"
  rules :: "risk_rule list"
  trades :: "trade_record list"
  realized :: money
  pf_costs :: "cost_context \<Rightarrow> money"
  total_costs :: money
  illiquid_fills :: nat
  oversized_fills :: nat
  cancelled_orders :: nat
  settled_legs :: nat
  rules_fired :: nat
  closing_from_rule :: bool

section \<open>Positions\<close>

text \<open>The loop of \<open>established\<close>; the argument is \<open>any\<close>.\<close>

fun established_from :: "bool \<Rightarrow> leg list \<Rightarrow> bool" where
  "established_from found [] = found"
| "established_from found (l # ls) =
     (if cancelled l then established_from found ls
      else if \<not> filled l then False
      else established_from True ls)"

definition established :: "position \<Rightarrow> bool" where
  "established p = established_from False (pos_legs p)"

definition is_open :: "position \<Rightarrow> bool" where
  "is_open p = list_ex (\<lambda>l. live l \<or> leg_state l = PendingOpen) (pos_legs p)"

definition is_closed :: "position \<Rightarrow> bool" where
  "is_closed p \<longleftrightarrow> established p \<and> \<not> is_open p"

definition entry_notional :: "position \<Rightarrow> money" where
  "entry_notional p =
     fold (\<lambda>l m. if filled l then m + notional (entry l) (leg_qty l) else m) (pos_legs p) 0"

definition mark_for :: "leg \<Rightarrow> market_view \<Rightarrow> price" where
  "mark_for l mv =
     (let carried =
        (if nanos (last_mark_ts l) \<noteq> 0 \<and> 0 \<le> minor (last_mark l) then last_mark l
         else if filled l then entry l else Price (-1))
      in case latest mv (leg_instrument l) of
           None \<Rightarrow> carried
         | Some q \<Rightarrow>
             let s = (if leg_qty l < 0 then q_ask q else q_bid q)
             in if 0 < minor s then s
                else if 0 < leg_qty l then Price 0
                else if 0 < minor (q_last q) then q_last q
                else carried)"

definition pnl_of_leg :: "leg \<Rightarrow> market_view \<Rightarrow> money" where
  "pnl_of_leg l mv =
     (if \<not> filled l then 0
      else if leg_state l = Closed then notional (exit l) (leg_qty l) - notional (entry l) (leg_qty l)
      else let mark = mark_for l mv
        in if minor mark < 0 then 0
           else notional mark (leg_qty l) - notional (entry l) (leg_qty l))"

text \<open>\<open>legs_.at(i)\<close> throws out of range.\<close>

definition leg_at :: "position \<Rightarrow> nat \<Rightarrow> exn + leg" where
  "leg_at p i =
     (case nth_opt (pos_legs p) i of None \<Rightarrow> Inl (OutOfRange ''vector::at'') | Some l \<Rightarrow> Inr l)"

definition pnl_of :: "position \<Rightarrow> nat \<Rightarrow> market_view \<Rightarrow> exn + money" where
  "pnl_of p i mv = (case leg_at p i of Inl e \<Rightarrow> Inl e | Inr l \<Rightarrow> Inr (pnl_of_leg l mv))"

definition pnl_pct_of :: "position \<Rightarrow> nat \<Rightarrow> market_view \<Rightarrow> exn + dbl" where
  "pnl_pct_of p i mv =
     (case leg_at p i of
        Inl e \<Rightarrow> Inl e
      | Inr l \<Rightarrow>
          if \<not> filled l then Inr (Fin 0)
          else let risk = \<bar>amount (notional (entry l) (leg_qty l))\<bar>
            in if risk = 0 then Inr (Fin 0)
               else Inr (fdiv (of_i (amount (pnl_of_leg l mv))) (of_i risk)))"

definition pnl :: "position \<Rightarrow> market_view \<Rightarrow> money" where
  "pnl p mv = fold (\<lambda>l total. total + pnl_of_leg l mv) (pos_legs p) 0"

definition pnl_pct :: "position \<Rightarrow> market_view \<Rightarrow> dbl" where
  "pnl_pct p mv =
     (if \<not> established p then Fin 0
      else let risk = \<bar>amount (entry_notional p)\<bar>
        in if risk = 0 then Fin 0 else fdiv (of_i (amount (pnl p mv))) (of_i risk))"

section \<open>Construction and orders\<close>

text \<open>A null fill model or cost policy is \<open>None\<close>.\<close>

definition new_portfolio ::
    "fill_model option \<Rightarrow> int \<Rightarrow> (cost_context \<Rightarrow> money) option \<Rightarrow> exn + portfolio" where
  "new_portfolio fills delay costs =
     (case fills of
        None \<Rightarrow> Inl (InvalidArgument ''Portfolio: null fill model'')
      | Some fm \<Rightarrow>
          if delay < 0 then Inl (InvalidArgument ''Portfolio: negative execution delay'')
          else Inr \<lparr>pf_fills = fm, pf_delay = delay, positions = [], pending = [], rules = [],
            trades = [], realized = 0,
            pf_costs = (case costs of None \<Rightarrow> default_cost_policy | Some c \<Rightarrow> c),
            total_costs = 0, illiquid_fills = 0, oversized_fills = 0, cancelled_orders = 0,
            settled_legs = 0, rules_fired = 0, closing_from_rule = False\<rparr>)"

definition pf_at :: "portfolio \<Rightarrow> int \<Rightarrow> exn + position" where
  "pf_at p i =
     (if i < 0 \<or> int (length (positions p)) \<le> i
      then Inl (OutOfRange ''Portfolio::at: unknown position'')
      else Inr (positions p ! nat i))"

text \<open>Replace one leg of a position, as a write through the reference \<open>legs()[i]\<close> does.\<close>

definition put_leg :: "int \<Rightarrow> nat \<Rightarrow> leg \<Rightarrow> portfolio \<Rightarrow> portfolio" where
  "put_leg i k l p =
     p\<lparr>positions := (positions p)[nat i :=
        (positions p ! nat i)\<lparr>pos_legs := (pos_legs (positions p ! nat i))[k := l]\<rparr>]\<rparr>"

definition the_leg :: "portfolio \<Rightarrow> int \<Rightarrow> nat \<Rightarrow> leg" where
  "the_leg p i k = pos_legs (positions p ! nat i) ! k"

definition submit :: "pending_order \<Rightarrow> portfolio \<Rightarrow> portfolio" where
  "submit ord p = p\<lparr>pending := pending p @ [ord\<lparr>o_from_rule := closing_from_rule p\<rparr>]\<rparr>"

definition new_leg :: "instrument_id \<Rightarrow> qty \<Rightarrow> leg" where
  "new_leg i n =
     \<lparr>leg_instrument = i, leg_qty = n, leg_state = PendingOpen, entry = Price 0,
      entry_ts = Timestamp 0, exit = Price 0, exit_ts = Timestamp 0, last_mark = Price 0,
      last_mark_ts = Timestamp 0, settled = False\<rparr>"

text \<open>One iteration of the loop of \<open>submit_open\<close>; the position being built is the last one.\<close>

definition open_leg ::
    "int \<Rightarrow> side \<Rightarrow> qty \<Rightarrow> timestamp \<Rightarrow> instrument_id \<Rightarrow> portfolio \<Rightarrow> portfolio" where
  "open_leg i sd qty_per_leg now inst p =
     (let pos = last (positions p);
          signed_qty = (if sd = Sell then - qty_per_leg else qty_per_leg);
          p1 = p\<lparr>positions := butlast (positions p) @
                 [pos\<lparr>pos_legs := pos_legs pos @ [new_leg inst signed_qty]\<rparr>]\<rparr>
      in submit \<lparr>o_position = i, o_leg_index = length (pos_legs pos), o_instrument = inst,
           o_side = sd, o_qty = qty_per_leg, submitted_at = now,
           eligible_at = Timestamp (nanos now + pf_delay p1), closing = False,
           o_from_rule = False\<rparr> p1)"

definition submit_open ::
    "string \<Rightarrow> instrument_id list \<Rightarrow> side \<Rightarrow> qty \<Rightarrow> timestamp \<Rightarrow> portfolio \<Rightarrow> exn + (int \<times> portfolio)" where
  "submit_open label instruments sd qty_per_leg now p =
     (if instruments = [] then Inl (InvalidArgument ''submit_open: no legs'')
      else if qty_per_leg \<le> 0 then Inl (InvalidArgument ''submit_open: quantity must be positive'')
      else
        let i = to_i32 (int (length (positions p)));
            p0 = p\<lparr>positions := positions p @ [\<lparr>pos_id = i, pos_label = label, pos_legs = []\<rparr>]\<rparr>
        in Inr (i, fold (open_leg i sd qty_per_leg now) instruments p0))"

definition submit_close_leg :: "int \<Rightarrow> nat \<Rightarrow> timestamp \<Rightarrow> portfolio \<Rightarrow> exn + portfolio" where
  "submit_close_leg i k now p =
     (case pf_at p i of
        Inl e \<Rightarrow> Inl e
      | Inr pos \<Rightarrow>
          case leg_at pos k of
            Inl e \<Rightarrow> Inl e
          | Inr l \<Rightarrow>
              if leg_state l \<noteq> Open then Inr p
              else Inr (submit \<lparr>o_position = i, o_leg_index = k, o_instrument = leg_instrument l,
                     o_side = closing_side l, o_qty = \<bar>leg_qty l\<bar>, submitted_at = now,
                     eligible_at = Timestamp (nanos now + pf_delay p), closing = True,
                     o_from_rule = False\<rparr> (put_leg i k (l\<lparr>leg_state := PendingClose\<rparr>) p)))"

text \<open>One iteration of the cancelling loop of \<open>submit_close\<close>; the state is the object and \<open>keep\<close>.\<close>

definition cancel_opening :: "int \<Rightarrow> pending_order \<Rightarrow> portfolio \<times> pending_order list \<Rightarrow> portfolio \<times> pending_order list" where
  "cancel_opening i ord = (\<lambda>(p, keep).
     if o_position ord = i \<and> \<not> closing ord
     then ((put_leg i (o_leg_index ord) ((the_leg p i (o_leg_index ord))\<lparr>leg_state := Cancelled\<rparr>) p)
             \<lparr>cancelled_orders := cancelled_orders p + 1\<rparr>, keep)
     else (p, keep @ [ord]))"

definition submit_close :: "int \<Rightarrow> timestamp \<Rightarrow> portfolio \<Rightarrow> exn + portfolio" where
  "submit_close i now p =
     (case pf_at p i of
        Inl e \<Rightarrow> Inl e
      | Inr _ \<Rightarrow>
          let (p1, keep) = fold (cancel_opening i) (pending p) (p, []);
              p2 = p1\<lparr>pending := keep\<rparr>
          in try_fold (\<lambda>k q. if leg_state (the_leg q i k) = Open then submit_close_leg i k now q else Inr q)
               [0..<length (pos_legs (positions p2 ! nat i))] p2)"

section \<open>Fills\<close>

definition is_illiquid :: "fill_model \<Rightarrow> quote \<Rightarrow> bool" where
  "is_illiquid fm q =
     (let m = price_to_double (mid q)
      in flt (Fin 0) m \<and>
         flt (fm_illiquid_spread_ratio fm) (fdiv (price_to_double (spread q)) m))"

definition is_oversized :: "quote \<Rightarrow> side \<Rightarrow> qty \<Rightarrow> bool" where
  "is_oversized q s n =
     (let displayed = (if s = Buy then q_ask_qty q else q_bid_qty q) in 0 < displayed \<and> displayed < n)"

text \<open>One iteration of the loop of \<open>process_pending\<close>; the state is the object and \<open>still_pending\<close>.\<close>

definition fill_order ::
    "market_view \<Rightarrow> pending_order \<Rightarrow> portfolio \<times> pending_order list \<Rightarrow> exn + portfolio \<times> pending_order list" where
  "fill_order mv ord = (\<lambda>(p, still).
     if mv_now mv < eligible_at ord then Inr (p, still @ [ord])
     else case latest mv (o_instrument ord) of
       None \<Rightarrow> Inr (p, still @ [ord])
     | Some q \<Rightarrow>
         case fm_fill (pf_fills p) q (o_side ord) (o_qty ord) of
           None \<Rightarrow> Inr (p, still @ [ord])
         | Some px \<Rightarrow>
             case spec (mv_registry mv) (o_instrument ord) of
               Inl e \<Rightarrow> Inl e
             | Inr sp \<Rightarrow>
                 let ill = is_illiquid (pf_fills p) q;
                     over = is_oversized q (o_side ord) (o_qty ord);
                     cost = pf_costs p \<lparr>cc_instrument = sp, cc_price = px, cc_qty = o_qty ord,
                       cc_side = o_side ord, cc_exercise = False, cc_intrinsic = Price 0\<rparr>;
                     p1 = p\<lparr>illiquid_fills := illiquid_fills p + (if ill then 1 else 0),
                       oversized_fills := oversized_fills p + (if over then 1 else 0),
                       total_costs := total_costs p + cost\<rparr>;
                     l = the_leg p1 (o_position ord) (o_leg_index ord);
                     p2 = (if closing ord
                       then (put_leg (o_position ord) (o_leg_index ord)
                         (l\<lparr>exit := px, exit_ts := mv_now mv, leg_state := Closed\<rparr>) p1)
                         \<lparr>realized := realized p1 +
                           (notional px (leg_qty l) - notional (entry l) (leg_qty l))\<rparr>
                       else put_leg (o_position ord) (o_leg_index ord)
                         (l\<lparr>entry := px, entry_ts := mv_now mv, leg_state := Open\<rparr>) p1)
                 in Inr (p2\<lparr>trades := trades p2 @
                   [\<lparr>signal_ts = submitted_at ord, fill_ts = mv_now mv, t_position = o_position ord,
                     t_instrument = o_instrument ord, t_side = o_side ord, t_qty = o_qty ord,
                     t_price = px, t_cost = cost, t_illiquid = ill, t_from_rule = o_from_rule ord,
                     t_oversized = over, t_settled = False\<rparr>]\<rparr>, still))"

definition process_pending :: "market_view \<Rightarrow> portfolio \<Rightarrow> exn + portfolio" where
  "process_pending mv p =
     (if pending p = [] then Inr p
      else case try_fold (fill_order mv) (pending p) (p, []) of
             Inl e \<Rightarrow> Inl e
           | Inr (p1, still) \<Rightarrow> Inr (p1\<lparr>pending := still\<rparr>))"

section \<open>Marks, settlement and end of day\<close>

definition refresh_leg :: "market_view \<Rightarrow> leg \<Rightarrow> leg" where
  "refresh_leg mv l =
     (if \<not> live l then l
      else case latest mv (leg_instrument l) of
        None \<Rightarrow> l
      | Some q \<Rightarrow>
          let s = (if leg_qty l < 0 then q_ask q else q_bid q)
          in if 0 < minor s then l\<lparr>last_mark := s, last_mark_ts := mv_now mv\<rparr>
             else if 0 < leg_qty l then l\<lparr>last_mark := Price 0, last_mark_ts := mv_now mv\<rparr>
             else if 0 < minor (q_last q) then l\<lparr>last_mark := q_last q, last_mark_ts := mv_now mv\<rparr>
             else l)"

definition refresh_marks :: "market_view \<Rightarrow> portfolio \<Rightarrow> portfolio" where
  "refresh_marks mv p =
     p\<lparr>positions := map (\<lambda>pos. pos\<lparr>pos_legs := map (refresh_leg mv) (pos_legs pos)\<rparr>) (positions p)\<rparr>"

definition settlement_value :: "instrument_spec \<Rightarrow> dbl \<Rightarrow> dbl" where
  "settlement_value sp level =
     (let k = price_to_double (strike sp)
      in if right_of sp = Call then fmax (Fin 0) (fsub level k) else fmax (Fin 0) (fsub k level))"

text \<open>One iteration of the settling loop; the state is the object and \<open>settled\<close>.\<close>

definition settle_leg ::
    "market_view \<Rightarrow> date \<Rightarrow> dbl \<Rightarrow> timestamp \<Rightarrow> int \<times> nat \<Rightarrow> portfolio \<times> nat \<Rightarrow> exn + portfolio \<times> nat" where
  "settle_leg mv ex level whn = (\<lambda>(i, k) (p, count).
     let l = the_leg p i k
     in if \<not> live l then Inr (p, count)
        else case spec (mv_registry mv) (leg_instrument l) of
          Inl e \<Rightarrow> Inl e
        | Inr sp \<Rightarrow>
            if \<not> is_option sp \<or> expiry sp \<noteq> ex then Inr (p, count)
            else
              let value = settlement_value sp level;
                  px = price_from_double value;
                  p1 = (put_leg i k (l\<lparr>exit := px, exit_ts := whn, leg_state := Closed, settled := True\<rparr>) p)
                    \<lparr>realized := realized p + (notional px (leg_qty l) - notional (entry l) (leg_qty l))\<rparr>;
                  cost = (if 0 < leg_qty l \<and> flt (Fin 0) value
                    then pf_costs p \<lparr>cc_instrument = sp, cc_price = px, cc_qty = leg_qty l,
                      cc_side = Sell, cc_exercise = True, cc_intrinsic = px\<rparr>
                    else 0)
              in Inr (p1\<lparr>total_costs := total_costs p1 + cost,
                    trades := trades p1 @
                      [\<lparr>signal_ts = whn, fill_ts = whn, t_position = pos_id (positions p ! nat i),
                        t_instrument = leg_instrument l, t_side = closing_side l,
                        t_qty = \<bar>leg_qty l\<bar>, t_price = px, t_cost = cost, t_illiquid = False,
                        t_from_rule = False, t_oversized = False, t_settled = True\<rparr>],
                    settled_legs := settled_legs p1 + 1\<rparr>, count + 1))"

text \<open>One iteration of the loop that drops orders on the settled contracts.\<close>

definition drop_settled ::
    "market_view \<Rightarrow> date \<Rightarrow> pending_order \<Rightarrow> portfolio \<times> pending_order list \<Rightarrow> exn + portfolio \<times> pending_order list" where
  "drop_settled mv ex ord = (\<lambda>(p, keep).
     case spec (mv_registry mv) (o_instrument ord) of
       Inl e \<Rightarrow> Inl e
     | Inr sp \<Rightarrow>
         if is_option sp \<and> expiry sp = ex then
           let l = the_leg p (o_position ord) (o_leg_index ord);
               p1 = (if \<not> closing ord \<and> leg_state l = PendingOpen
                 then put_leg (o_position ord) (o_leg_index ord) (l\<lparr>leg_state := Cancelled\<rparr>) p else p)
           in Inr (p1\<lparr>cancelled_orders := cancelled_orders p1 + 1\<rparr>, keep)
         else Inr (p, keep @ [ord]))"

definition leg_indices :: "portfolio \<Rightarrow> (int \<times> nat) list" where
  "leg_indices p =
     concat (map (\<lambda>i. map (\<lambda>k. (int i, k)) [0..<length (pos_legs (positions p ! i))])
       [0..<length (positions p)])"

definition settle_expiry ::
    "market_view \<Rightarrow> date \<Rightarrow> dbl \<Rightarrow> timestamp \<Rightarrow> portfolio \<Rightarrow> exn + nat \<times> portfolio" where
  "settle_expiry mv ex level whn p =
     (case try_fold (settle_leg mv ex level whn) (leg_indices p) (p, 0) of
        Inl e \<Rightarrow> Inl e
      | Inr (p1, count) \<Rightarrow>
          case try_fold (drop_settled mv ex) (pending p1) (p1, []) of
            Inl e \<Rightarrow> Inl e
          | Inr (p2, keep) \<Rightarrow> Inr (count, p2\<lparr>pending := keep\<rparr>))"

text \<open>One iteration of the loop of \<open>cancel_working_orders\<close>; the state is the object and
  \<open>exits_abandoned\<close>.\<close>

definition withdraw :: "pending_order \<Rightarrow> portfolio \<times> int list \<Rightarrow> portfolio \<times> int list" where
  "withdraw ord = (\<lambda>(p, abandoned).
     let l = the_leg p (o_position ord) (o_leg_index ord)
     in if closing ord then
          if leg_state l = PendingClose
          then (put_leg (o_position ord) (o_leg_index ord) (l\<lparr>leg_state := Open\<rparr>) p,
                List.insert (o_position ord) abandoned)
          else (p, abandoned)
        else if leg_state l = PendingOpen
        then (put_leg (o_position ord) (o_leg_index ord) (l\<lparr>leg_state := Cancelled\<rparr>) p, abandoned)
        else (p, abandoned))"

definition rearm :: "int list \<Rightarrow> portfolio \<Rightarrow> risk_rule \<Rightarrow> exn + risk_rule" where
  "rearm abandoned p r =
     (if \<not> fired r then Inr r
      else if rule_position r \<notin> set abandoned then Inr r
      else case pf_at p (rule_position r) of
        Inl e \<Rightarrow> Inl e
      | Inr pos \<Rightarrow> if \<not> is_open pos then Inr r else Inr (r\<lparr>fired := False\<rparr>))"

definition cancel_working_orders :: "portfolio \<Rightarrow> exn + nat \<times> portfolio" where
  "cancel_working_orders p =
     (let n = length (pending p);
          (p1, abandoned) = fold withdraw (pending p) (p, []);
          p2 = p1\<lparr>pending := [], cancelled_orders := cancelled_orders p1 + n\<rparr>
      in case try_fold (\<lambda>r rs. case rearm abandoned p2 r of Inl e \<Rightarrow> Inl e | Inr r' \<Rightarrow> Inr (rs @ [r']))
             (rules p2) [] of
           Inl e \<Rightarrow> Inl e
         | Inr rs \<Rightarrow> Inr (n, p2\<lparr>rules := rs\<rparr>))"

section \<open>Risk rules\<close>

definition attach_rule :: "risk_rule \<Rightarrow> portfolio \<Rightarrow> exn + portfolio" where
  "attach_rule r p =
     (case pf_at p (rule_position r) of Inl e \<Rightarrow> Inl e | Inr _ \<Rightarrow> Inr (p\<lparr>rules := rules p @ [r]\<rparr>))"

definition attach_stop_loss :: "int \<Rightarrow> nat option \<Rightarrow> dbl \<Rightarrow> portfolio \<Rightarrow> exn + portfolio" where
  "attach_stop_loss i k pct p =
     (if fle pct (Fin 0) then Inl (InvalidArgument ''stop_loss: pct must be positive magnitude'')
      else attach_rule \<lparr>rule_kind = StopLossPct, rule_position = i, rule_leg = k, threshold = pct,
             deadline = Timestamp 0, fired = False\<rparr> p)"

definition attach_take_profit :: "int \<Rightarrow> nat option \<Rightarrow> dbl \<Rightarrow> portfolio \<Rightarrow> exn + portfolio" where
  "attach_take_profit i k pct p =
     (if fle pct (Fin 0) then Inl (InvalidArgument ''take_profit: pct must be positive magnitude'')
      else attach_rule \<lparr>rule_kind = TakeProfitPct, rule_position = i, rule_leg = k, threshold = pct,
             deadline = Timestamp 0, fired = False\<rparr> p)"

definition attach_exit_at :: "int \<Rightarrow> nat option \<Rightarrow> timestamp \<Rightarrow> portfolio \<Rightarrow> exn + portfolio" where
  "attach_exit_at i k whn p =
     attach_rule \<lparr>rule_kind = ExitAt, rule_position = i, rule_leg = k, threshold = Fin 0,
       deadline = whn, fired = False\<rparr> p"

text \<open>Whether a rule on an armed position triggers.\<close>

definition rule_triggers :: "risk_rule \<Rightarrow> position \<Rightarrow> market_view \<Rightarrow> exn + bool" where
  "rule_triggers r pos mv =
     (let value = (case rule_leg r of None \<Rightarrow> Inr (pnl_pct pos mv) | Some k \<Rightarrow> pnl_pct_of pos k mv)
      in case rule_kind r of
           StopLossPct \<Rightarrow> (case value of Inl e \<Rightarrow> Inl e | Inr v \<Rightarrow> Inr (fle v (fneg (threshold r))))
         | TakeProfitPct \<Rightarrow> (case value of Inl e \<Rightarrow> Inl e | Inr v \<Rightarrow> Inr (fle (threshold r) v))
         | ExitAt \<Rightarrow> Inr (deadline r \<le> mv_now mv))"

text \<open>What the guards of the loop say of a rule: leave it, spend it, or test it.\<close>

datatype rule_stage = Leave | Spend | Armed

definition rule_stage :: "risk_rule \<Rightarrow> position \<Rightarrow> rule_stage" where
  "rule_stage r pos =
     (if \<not> is_open pos then Spend
      else case rule_leg r of
        Some k \<Rightarrow>
          if length (pos_legs pos) \<le> k then Spend
          else if leg_state (pos_legs pos ! k) \<noteq> Open then Leave else Armed
      | None \<Rightarrow> if \<not> established pos then Leave else Armed)"

text \<open>One iteration of the loop of \<open>process_risk_rules\<close>, on the rule at index \<open>n\<close>.\<close>

definition run_rule :: "market_view \<Rightarrow> nat \<Rightarrow> portfolio \<Rightarrow> exn + portfolio" where
  "run_rule mv n p =
     (let r = rules p ! n; mark = (\<lambda>q. q\<lparr>rules := (rules q)[n := r\<lparr>fired := True\<rparr>]\<rparr>)
      in if fired r then Inr p
         else case pf_at p (rule_position r) of
           Inl e \<Rightarrow> Inl e
         | Inr pos \<Rightarrow>
             case rule_stage r pos of
               Spend \<Rightarrow> Inr (mark p)
             | Leave \<Rightarrow> Inr p
             | Armed \<Rightarrow>
                 case rule_triggers r pos mv of
                   Inl e \<Rightarrow> Inl e
                 | Inr False \<Rightarrow> Inr p
                 | Inr True \<Rightarrow>
                     let p1 = (mark p)\<lparr>rules_fired := rules_fired p + 1, closing_from_rule := True\<rparr>
                     in case (case rule_leg r of
                            Some k \<Rightarrow> submit_close_leg (rule_position r) k (mv_now mv) p1
                          | None \<Rightarrow> submit_close (rule_position r) (mv_now mv) p1) of
                          Inl e \<Rightarrow> Inl e
                        | Inr p2 \<Rightarrow> Inr (p2\<lparr>closing_from_rule := False\<rparr>))"

definition process_risk_rules :: "market_view \<Rightarrow> portfolio \<Rightarrow> exn + portfolio" where
  "process_risk_rules mv p = try_fold (run_rule mv) [0..<length (rules p)] p"

section \<open>Totals\<close>

definition net_realized :: "portfolio \<Rightarrow> money" where
  "net_realized p = realized p - total_costs p"

definition unrealized :: "market_view \<Rightarrow> portfolio \<Rightarrow> money" where
  "unrealized mv p =
     fold (\<lambda>pos m. fold (\<lambda>l m. if leg_state l = Closed then m else m + pnl_of_leg l mv) (pos_legs pos) m)
       (positions p) 0"

definition equity :: "market_view \<Rightarrow> portfolio \<Rightarrow> money" where
  "equity mv p = realized p - total_costs p + unrealized mv p"

end
