(* ===== verification/PortfolioLaws.thy ===== *)
theory PortfolioLaws
  imports Portfolio
begin

text \<open>
  The invariant of the portfolio and its preservation by every operation.  The object is read as
  an abstract book, a map from leg references to legs together with the working orders: an order
  works exactly the leg whose state says so (\<open>book_ok\<close>), the realised total and the trade log
  account for the closed legs (\<open>ledger_ok\<close>), and no trade precedes its signal by the configured
  delay (\<open>timing_ok\<close>).  The step relation \<open>pf_step\<close> collects the public operations; the
  properties of all reachable portfolios follow by rule induction.
\<close>

section \<open>The book of legs\<close>

definition leg_ref :: "portfolio \<Rightarrow> int \<times> nat \<Rightarrow> bool" where
  "leg_ref p = (\<lambda>(i, k). 0 \<le> i \<and> nat i < length (positions p) \<and> k < length (pos_legs (positions p ! nat i)))"

definition legs_of :: "portfolio \<Rightarrow> (int \<times> nat) \<Rightarrow> leg option" where
  "legs_of p x = (if leg_ref p x then Some (the_leg p (fst x) (snd x)) else None)"

definition order_key :: "pending_order \<Rightarrow> int \<times> nat" where
  "order_key ord = (o_position ord, o_leg_index ord)"

definition working :: "leg \<Rightarrow> bool" where
  "working l \<longleftrightarrow> leg_state l = PendingOpen \<or> leg_state l = PendingClose"

text \<open>
  What an order says of the leg it works.  Between the two loops of a settlement an order may
  still close a leg on a contract that has just settled; \<open>gone\<close> says which contracts those are.
\<close>

definition order_matches :: "(instrument_id \<Rightarrow> bool) \<Rightarrow> int \<Rightarrow> pending_order \<Rightarrow> leg \<Rightarrow> bool" where
  "order_matches gone delay ord l \<longleftrightarrow>
     o_instrument ord = leg_instrument l \<and> o_qty ord = \<bar>leg_qty l\<bar> \<and>
     eligible_at ord = Timestamp (nanos (submitted_at ord) + delay) \<and>
     (if closing ord
      then o_side ord = closing_side l \<and>
        (leg_state l = PendingClose \<or> gone (leg_instrument l) \<and> leg_state l = Closed)
      else o_side ord = opposite (closing_side l) \<and> leg_state l = PendingOpen)"

definition book_ok ::
    "(instrument_id \<Rightarrow> bool) \<Rightarrow> int \<Rightarrow> ((int \<times> nat) \<Rightarrow> leg option) \<Rightarrow> pending_order list \<Rightarrow> bool" where
  "book_ok gone delay m ords \<longleftrightarrow>
     distinct (map order_key ords) \<and>
     (\<forall>ord \<in> set ords. \<exists>l. m (order_key ord) = Some l \<and> order_matches gone delay ord l) \<and>
     (\<forall>x l. m x = Some l \<longrightarrow> leg_qty l \<noteq> 0 \<and>
        (working l \<longrightarrow> (\<exists>ord \<in> set ords. order_key ord = x)))"

definition never :: "instrument_id \<Rightarrow> bool" where
  "never i = False"

lemma book_okD:
  assumes "book_ok gone delay m ords"
  shows "distinct (map order_key ords)"
    and "ord \<in> set ords \<Longrightarrow> \<exists>l. m (order_key ord) = Some l \<and> order_matches gone delay ord l"
    and "m x = Some l \<Longrightarrow> leg_qty l \<noteq> 0"
    and "m x = Some l \<Longrightarrow> working l \<Longrightarrow> \<exists>ord \<in> set ords. order_key ord = x"
  using assms unfolding book_ok_def by blast+

text \<open>An order leaves the book and its leg stops working.\<close>

lemma book_resolve:
  assumes "book_ok gone delay m (as @ ord # bs)" and "m (order_key ord) = Some l"
    and "\<not> working l'" and "leg_qty l' = leg_qty l"
  shows "book_ok gone delay (m(order_key ord \<mapsto> l')) (as @ bs)"
proof -
  have d: "order_key o' \<noteq> order_key ord" if "o' \<in> set as \<union> set bs" for o'
    using book_okD(1) [OF assms(1)] that by (auto simp: image_iff)
  have "\<exists>l. (m(order_key ord \<mapsto> l')) (order_key o') = Some l \<and> order_matches gone delay o' l"
    if "o' \<in> set (as @ bs)" for o'
    using book_okD(2) [OF assms(1), of o'] d [of o'] that by auto
  moreover have "leg_qty k \<noteq> 0 \<and> (working k \<longrightarrow> (\<exists>o' \<in> set (as @ bs). order_key o' = x))"
    if k: "(m(order_key ord \<mapsto> l')) x = Some k" for x k
  proof (cases "x = order_key ord")
    case True
    then show ?thesis using k book_okD(3) [OF assms(1,2)] assms(3,4) by auto
  next
    case False
    then have "m x = Some k" using k by simp
    from book_okD(3,4) [OF assms(1) this] show ?thesis using False by auto
  qed
  moreover have "distinct (map order_key (as @ bs))" using book_okD(1) [OF assms(1)] by auto
  ultimately show ?thesis unfolding book_ok_def by blast
qed

text \<open>An order leaves the book and its leg was not working.\<close>

lemma book_drop:
  assumes "book_ok gone delay m (as @ ord # bs)" and "m (order_key ord) = Some l" and "\<not> working l"
  shows "book_ok gone delay m (as @ bs)"
  using book_resolve [OF assms refl] assms(2) by (simp add: fun_upd_idem)

text \<open>A leg that was not working gets a closing order.\<close>

lemma book_submit:
  assumes "book_ok gone delay m ords" and "m x = Some l" and "leg_state l = Open"
    and "order_key ord = x" and "order_matches gone delay ord (l\<lparr>leg_state := PendingClose\<rparr>)"
  shows "book_ok gone delay (m(x \<mapsto> l\<lparr>leg_state := PendingClose\<rparr>)) (ords @ [ord])"
proof -
  have new: "order_key o' \<noteq> x" if "o' \<in> set ords" for o'
    using book_okD(2) [OF assms(1) that] assms(2,3) by (auto simp: order_matches_def split: if_splits)
  have "\<exists>l'. (m(x \<mapsto> l\<lparr>leg_state := PendingClose\<rparr>)) (order_key o') = Some l' \<and> order_matches gone delay o' l'"
    if "o' \<in> set (ords @ [ord])" for o'
    using that book_okD(2) [OF assms(1), of o'] new [of o'] assms(4,5) by auto
  moreover have "leg_qty k \<noteq> 0 \<and> (working k \<longrightarrow> (\<exists>o' \<in> set (ords @ [ord]). order_key o' = y))"
    if k: "(m(x \<mapsto> l\<lparr>leg_state := PendingClose\<rparr>)) y = Some k" for y k
  proof (cases "y = x")
    case True
    then show ?thesis using k book_okD(3) [OF assms(1,2)] assms(4) by auto
  next
    case False
    then have "m y = Some k" using k by simp
    from book_okD(3,4) [OF assms(1) this] show ?thesis by auto
  qed
  moreover have "distinct (map order_key (ords @ [ord]))"
  proof -
    have "order_key ord \<notin> order_key ` set ords"
    proof
      assume "order_key ord \<in> order_key ` set ords"
      then obtain o' where "o' \<in> set ords" "order_key ord = order_key o'" by (rule imageE)
      then show False using new [of o'] assms(4) by simp
    qed
    then show ?thesis using book_okD(1) [OF assms(1)] by simp
  qed
  ultimately show ?thesis unfolding book_ok_def by blast
qed

text \<open>A fresh leg arrives with its opening order.\<close>

lemma book_open:
  assumes "book_ok gone delay m ords" and "m x = None" and "leg_qty l \<noteq> 0"
    and "order_key ord = x" and "order_matches gone delay ord l"
  shows "book_ok gone delay (m(x \<mapsto> l)) (ords @ [ord])"
proof -
  have new: "order_key o' \<noteq> x" if "o' \<in> set ords" for o'
    using book_okD(2) [OF assms(1) that] assms(2) by auto
  have "\<exists>l'. (m(x \<mapsto> l)) (order_key o') = Some l' \<and> order_matches gone delay o' l'"
    if "o' \<in> set (ords @ [ord])" for o'
    using that book_okD(2) [OF assms(1), of o'] new [of o'] assms(4,5) by auto
  moreover have "leg_qty k \<noteq> 0 \<and> (working k \<longrightarrow> (\<exists>o' \<in> set (ords @ [ord]). order_key o' = y))"
    if k: "(m(x \<mapsto> l)) y = Some k" for y k
  proof (cases "y = x")
    case True
    then show ?thesis using k assms(3,4) by auto
  next
    case False
    then have "m y = Some k" using k by simp
    from book_okD(3,4) [OF assms(1) this] show ?thesis by auto
  qed
  moreover have "distinct (map order_key (ords @ [ord]))"
  proof -
    have "order_key ord \<notin> order_key ` set ords"
    proof
      assume "order_key ord \<in> order_key ` set ords"
      then obtain o' where "o' \<in> set ords" "order_key ord = order_key o'" by (rule imageE)
      then show False using new [of o'] assms(4) by simp
    qed
    then show ?thesis using book_okD(1) [OF assms(1)] by simp
  qed
  ultimately show ?thesis unfolding book_ok_def by blast
qed

text \<open>A leg changes without changing what its order says: a mark is refreshed, or the leg settles.\<close>

lemma book_touch:
  assumes "book_ok gone delay m ords" and "m x = Some l" and "leg_qty l' = leg_qty l"
    and "working l' \<Longrightarrow> working l"
    and "\<And>ord. order_matches gone delay ord l \<Longrightarrow> order_matches gone delay ord l'"
  shows "book_ok gone delay (m(x \<mapsto> l')) ords"
proof -
  have "\<exists>k. (m(x \<mapsto> l')) (order_key o') = Some k \<and> order_matches gone delay o' k"
    if "o' \<in> set ords" for o'
    using book_okD(2) [OF assms(1) that] assms(2,5) by (cases "order_key o' = x") auto
  moreover have "leg_qty k \<noteq> 0 \<and> (working k \<longrightarrow> (\<exists>o' \<in> set ords. order_key o' = y))"
    if k: "(m(x \<mapsto> l')) y = Some k" for y k
  proof (cases "y = x")
    case True
    then show ?thesis using k book_okD(3,4) [OF assms(1,2)] assms(3,4) by auto
  next
    case False
    then have "m y = Some k" using k by simp
    from book_okD(3,4) [OF assms(1) this] show ?thesis by auto
  qed
  ultimately show ?thesis using book_okD(1) [OF assms(1)] unfolding book_ok_def by blast
qed

section \<open>Writing a leg\<close>

lemma leg_ref_put [simp]: "leg_ref (put_leg i k l p) x = leg_ref p x"
  by (cases x; cases "nat i = nat (fst x)") (auto simp: leg_ref_def put_leg_def)

lemma legs_of_put:
  assumes "leg_ref p (i, k)"
  shows "legs_of (put_leg i k l p) = (legs_of p)((i, k) \<mapsto> l)"
proof
  fix x
  show "legs_of (put_leg i k l p) x = ((legs_of p)((i, k) \<mapsto> l)) x"
    using assms by (cases x) (auto simp: legs_of_def the_leg_def leg_ref_def put_leg_def nth_list_update)
qed

lemma legs_of_Some: "legs_of p x = Some l \<longleftrightarrow> leg_ref p x \<and> l = the_leg p (fst x) (snd x)"
  by (auto simp: legs_of_def)

lemma put_leg_frame [simp]:
  "pending (put_leg i k l p) = pending p" "rules (put_leg i k l p) = rules p"
  "trades (put_leg i k l p) = trades p" "realized (put_leg i k l p) = realized p"
  "total_costs (put_leg i k l p) = total_costs p" "pf_delay (put_leg i k l p) = pf_delay p"
  "pf_fills (put_leg i k l p) = pf_fills p" "pf_costs (put_leg i k l p) = pf_costs p"
  "closing_from_rule (put_leg i k l p) = closing_from_rule p"
  "length (positions (put_leg i k l p)) = length (positions p)"
  by (simp_all add: put_leg_def)

lemma positions_put_id [simp]:
  "map pos_id (positions (put_leg i k l p)) = map pos_id (positions p)"
proof (rule nth_equalityI)
  fix n
  assume "n < length (map pos_id (positions (put_leg i k l p)))"
  then show "map pos_id (positions (put_leg i k l p)) ! n = map pos_id (positions p) ! n"
    by (cases "n = nat i") (simp_all add: put_leg_def)
qed simp

lemma legs_of_cong: "positions p = positions q \<Longrightarrow> legs_of p = legs_of q"
  by (rule ext) (simp add: legs_of_def leg_ref_def the_leg_def)

lemma finite_legs: "finite (dom (legs_of p))"
proof (rule finite_subset)
  show "dom (legs_of p) \<subseteq> (\<Union>i < length (positions p). {int i} \<times> {..<length (pos_legs (positions p ! i))})"
    by (auto simp: legs_of_def leg_ref_def split: if_splits)
qed simp

section \<open>The ledger\<close>

definition closed_pnl :: "leg \<Rightarrow> int" where
  "closed_pnl l = (if leg_state l = Closed then (minor (exit l) - minor (entry l)) * leg_qty l else 0)"

text \<open>Cash that went through a leg: paid in at entry, received at exit.\<close>

definition leg_cash :: "leg \<Rightarrow> int" where
  "leg_cash l = (if filled l then - (minor (entry l) * leg_qty l) else 0) +
     (if leg_state l = Closed then minor (exit l) * leg_qty l else 0)"

definition trade_cash :: "trade_record \<Rightarrow> int" where
  "trade_cash t = (if t_side t = Sell then minor (t_price t) * t_qty t else - (minor (t_price t) * t_qty t))"

definition leg_sum :: "(leg \<Rightarrow> int) \<Rightarrow> ((int \<times> nat) \<Rightarrow> leg option) \<Rightarrow> int" where
  "leg_sum f m = (\<Sum>x \<in> dom m. f (the (m x)))"

lemma leg_sum_upd:
  assumes "finite (dom m)" and "m x = Some l"
  shows "leg_sum f (m(x \<mapsto> l')) = leg_sum f m - f l + f l'"
proof -
  have "leg_sum f (m(x \<mapsto> l')) = f l' + (\<Sum>y \<in> dom m - {x}. f (the ((m(x \<mapsto> l')) y)))"
    unfolding leg_sum_def using assms by (subst sum.remove [of _ x]) (auto simp: insert_absorb)
  also have "(\<Sum>y \<in> dom m - {x}. f (the ((m(x \<mapsto> l')) y))) = (\<Sum>y \<in> dom m - {x}. f (the (m y)))"
    by (rule sum.cong) auto
  also have "\<dots> = leg_sum f m - f l"
    unfolding leg_sum_def using assms by (subst (2) sum.remove [of _ x]) auto
  finally show ?thesis by linarith
qed

lemma leg_sum_new:
  assumes "finite (dom m)" and "m x = None"
  shows "leg_sum f (m(x \<mapsto> l)) = leg_sum f m + f l"
proof -
  have "leg_sum f (m(x \<mapsto> l)) = f l + (\<Sum>y \<in> dom m. f (the ((m(x \<mapsto> l)) y)))"
    unfolding leg_sum_def using assms by (subst dom_fun_upd, simp, subst sum.insert) auto
  also have "(\<Sum>y \<in> dom m. f (the ((m(x \<mapsto> l)) y))) = leg_sum f m"
    unfolding leg_sum_def using assms by (intro sum.cong) auto
  finally show ?thesis by linarith
qed

definition ledger_ok :: "portfolio \<Rightarrow> bool" where
  "ledger_ok p \<longleftrightarrow> amount (realized p) = leg_sum closed_pnl (legs_of p) \<and>
     sum_list (map trade_cash (trades p)) = leg_sum leg_cash (legs_of p) \<and>
     total_costs p = sum_list (map t_cost (trades p))"

definition timing_ok :: "portfolio \<Rightarrow> bool" where
  "timing_ok p \<longleftrightarrow> (\<forall>t \<in> set (trades p). \<not> t_settled t \<longrightarrow>
     Timestamp (nanos (signal_ts t) + pf_delay p) \<le> fill_ts t)"

definition shape_ok :: "portfolio \<Rightarrow> bool" where
  "shape_ok p \<longleftrightarrow> 0 \<le> pf_delay p \<and>
     map pos_id (positions p) = map int [0..<length (positions p)] \<and>
     (\<forall>r \<in> set (rules p). 0 \<le> rule_position r \<and> nat (rule_position r) < length (positions p))"

text \<open>The invariant with the working orders named apart, as the loops need it.\<close>

definition inv_with :: "(instrument_id \<Rightarrow> bool) \<Rightarrow> pending_order list \<Rightarrow> portfolio \<Rightarrow> bool" where
  "inv_with gone ords p \<longleftrightarrow> book_ok gone (pf_delay p) (legs_of p) ords \<and> ledger_ok p \<and> timing_ok p \<and> shape_ok p"

definition portfolio_ok :: "portfolio \<Rightarrow> bool" where
  "portfolio_ok p \<longleftrightarrow> inv_with never (pending p) p"

text \<open>Fields outside the invariant may change freely.\<close>

lemma inv_with_cong:
  assumes "positions q = positions p" and "trades q = trades p" and "realized q = realized p"
    and "total_costs q = total_costs p" and "pf_delay q = pf_delay p"
    and "map rule_position (rules q) = map rule_position (rules p)"
  shows "inv_with gone ords q = inv_with gone ords p"
proof -
  let ?P = "\<lambda>i. 0 \<le> i \<and> nat i < length (positions p)"
  have "list_all ?P (map rule_position (rules q)) = list_all ?P (map rule_position (rules p))"
    by (simp only: assms(6))
  then have "(\<forall>r \<in> set (rules q). ?P (rule_position r)) \<longleftrightarrow> (\<forall>r \<in> set (rules p). ?P (rule_position r))"
    by (simp add: list_all_iff)
  then show ?thesis
    using assms legs_of_cong [OF assms(1)] by (simp add: inv_with_def ledger_ok_def timing_ok_def shape_ok_def)
qed

text \<open>A leg is written and the three totals follow it.\<close>

lemma inv_put:
  assumes inv: "inv_with gone ords p" and l: "legs_of p (i, k) = Some l"
    and book: "book_ok gone (pf_delay p) ((legs_of p)((i, k) \<mapsto> l')) ords'"
    and q: "positions q = positions (put_leg i k l' p)" "pf_delay q = pf_delay p" "rules q = rules p"
    and money: "amount (realized q) = amount (realized p) - closed_pnl l + closed_pnl l'"
    and ts: "trades q = trades p @ ts" and cash: "sum_list (map trade_cash ts) = leg_cash l' - leg_cash l"
    and costs: "total_costs q = total_costs p + sum_list (map t_cost ts)"
    and time: "\<forall>t \<in> set ts. \<not> t_settled t \<longrightarrow> Timestamp (nanos (signal_ts t) + pf_delay p) \<le> fill_ts t"
  shows "inv_with gone ords' q"
proof -
  have ref: "leg_ref p (i, k)" using l by (simp add: legs_of_Some)
  have legs: "legs_of q = (legs_of p)((i, k) \<mapsto> l')"
    using legs_of_cong [OF q(1)] legs_of_put [OF ref] by simp
  note upd = leg_sum_upd [OF finite_legs l]
  have "ledger_ok q"
    using inv money ts cash costs by (simp add: inv_with_def ledger_ok_def legs upd)
  moreover have "timing_ok q" using inv ts time q by (auto simp: inv_with_def timing_ok_def)
  moreover have "map pos_id (positions q) = map pos_id (positions p)" "length (positions q) = length (positions p)"
    by (simp_all add: q(1))
  then have "shape_ok q" using inv q by (simp add: inv_with_def shape_ok_def)
  ultimately show ?thesis using book by (simp add: inv_with_def legs q(2))
qed

section \<open>Loops that rebuild the order list\<close>

text \<open>
  The four loops over \<open>pending_\<close> visit each order and keep some of them.  The invariant is about
  the orders kept so far followed by those not yet visited.
\<close>

lemma sweep:
  assumes step: "\<And>ord rest p still p' still'. I (still @ ord # rest) p \<Longrightarrow>
      f ord (p, still) = Inr (p', still') \<Longrightarrow> I (still' @ rest) p'"
    and "I (still @ rest) p" and "try_fold f rest (p, still) = Inr (p', still')"
  shows "I still' p'"
  using assms(2,3)
proof (induction rest arbitrary: p still)
  case (Cons ord rest)
  from Cons.prems(2) obtain q kept
    where q: "f ord (p, still) = Inr (q, kept)" "try_fold f rest (q, kept) = Inr (p', still')"
    by (auto split: sum.splits)
  show ?case by (rule Cons.IH [OF step [OF Cons.prems(1) q(1)] q(2)])
qed simp

lemma try_fold_fold: "try_fold (\<lambda>x s. Inr (f x s)) xs s = Inr (fold f xs s)"
  by (induction xs arbitrary: s) simp_all

section \<open>Orders are submitted\<close>

lemma legs_of_grow:
  assumes "positions p = ps @ [pos]" and "positions q = ps @ [pos\<lparr>pos_legs := pos_legs pos @ [l]\<rparr>]"
  shows "legs_of q = (legs_of p)((int (length ps), length (pos_legs pos)) \<mapsto> l)"
proof
  fix x
  show "legs_of q x = ((legs_of p)((int (length ps), length (pos_legs pos)) \<mapsto> l)) x"
    using assms by (cases x) (auto simp: legs_of_def leg_ref_def the_leg_def nth_append split: if_splits)
qed

lemma open_leg_ok:
  assumes inv: "portfolio_ok p" and "positions p \<noteq> []" and i: "i = int (length (positions p)) - 1"
    and n: "0 < n"
  shows "portfolio_ok (open_leg i sd n now inst p)"
    and "length (positions (open_leg i sd n now inst p)) = length (positions p)"
proof -
  obtain ps pos where ps: "positions p = ps @ [pos]" using assms(2) by (metis rev_exhaust)
  let ?q = "open_leg i sd n now inst p"
  define l where "l = new_leg inst (if sd = Sell then - n else n)"
  have q: "positions ?q = ps @ [pos\<lparr>pos_legs := pos_legs pos @ [l]\<rparr>]"
    by (simp add: open_leg_def submit_def ps l_def Let_def)
  have len: "i = int (length ps)" using i by (simp add: ps)
  let ?x = "(i, length (pos_legs pos))"
  have legs: "legs_of ?q = (legs_of p)(?x \<mapsto> l)"
    using legs_of_grow [OF ps q] by (simp add: len)
  have none: "legs_of p ?x = None" by (simp add: legs_of_def leg_ref_def ps len)
  obtain ord where ord: "pending ?q = pending p @ [ord]" "order_key ord = ?x"
    "order_matches never (pf_delay p) ord l"
    using n by (cases sd) (simp_all add: open_leg_def submit_def ps l_def Let_def order_key_def order_matches_def
        new_leg_def closing_side_def)
  have same: "trades ?q = trades p" "realized ?q = realized p" "total_costs ?q = total_costs p"
    "pf_delay ?q = pf_delay p" "rules ?q = rules p"
    by (simp_all add: open_leg_def submit_def Let_def)
  have nz: "leg_qty l \<noteq> 0" using n by (simp add: l_def new_leg_def)
  have b: "book_ok never (pf_delay p) (legs_of p) (pending p)"
    using inv by (simp add: portfolio_ok_def inv_with_def)
  have "book_ok never (pf_delay ?q) (legs_of ?q) (pending ?q)"
    unfolding legs ord(1) same by (rule book_open [OF b none nz ord(2) ord(3)])
  moreover have "closed_pnl l = 0" "leg_cash l = 0"
    by (simp_all add: l_def new_leg_def closed_pnl_def leg_cash_def filled_def)
  then have "ledger_ok ?q"
    using inv by (simp add: portfolio_ok_def inv_with_def ledger_ok_def legs same leg_sum_new [OF finite_legs none])
  moreover have "timing_ok ?q" "shape_ok ?q"
    using inv by (simp_all add: portfolio_ok_def inv_with_def timing_ok_def shape_ok_def same q ps)
  ultimately show "portfolio_ok ?q" by (simp add: portfolio_ok_def inv_with_def)
  show "length (positions ?q) = length (positions p)" by (simp add: q ps)
qed

lemma submit_open_ok:
  assumes inv: "portfolio_ok p" and small: "length (positions p) < 2 ^ 31"
    and run: "submit_open lbl insts sd n now p = Inr (i, q)"
  shows "portfolio_ok q"
proof -
  define p0 where "p0 = p\<lparr>positions := positions p @ [\<lparr>pos_id = int (length (positions p)), pos_label = lbl, pos_legs = []\<rparr>]\<rparr>"
  have i: "to_i32 (int (length (positions p))) = int (length (positions p))"
    by (rule to_i32_id) (use small in simp_all)
  have n: "0 < n" and q: "q = fold (open_leg (int (length (positions p))) sd n now) insts p0"
    using run by (auto simp: submit_open_def Let_def i p0_def split: if_splits)
  have legs: "legs_of p0 = legs_of p"
    by (rule ext) (simp add: p0_def legs_of_def leg_ref_def the_leg_def nth_append split: prod.split)
  have same: "trades p0 = trades p" "realized p0 = realized p" "total_costs p0 = total_costs p"
    "pf_delay p0 = pf_delay p" "rules p0 = rules p" "pending p0 = pending p"
    "length (positions p0) = Suc (length (positions p))"
    "map pos_id (positions p0) = map pos_id (positions p) @ [int (length (positions p))]"
    by (simp_all add: p0_def)
  have "shape_ok p0"
    using inv unfolding portfolio_ok_def inv_with_def shape_ok_def same by auto
  then have start: "portfolio_ok p0"
    using inv by (simp add: portfolio_ok_def inv_with_def ledger_ok_def timing_ok_def legs same)
  have "portfolio_ok q \<and> length (positions q) = Suc (length (positions p))"
    unfolding q
  proof (rule fold_invariant [where Q = "\<lambda>_. True"])
    fix inst r
    assume r: "portfolio_ok r \<and> length (positions r) = Suc (length (positions p))"
    then have ne: "positions r \<noteq> []" by auto
    have k: "int (length (positions p)) = int (length (positions r)) - 1" using r by simp
    show "portfolio_ok (open_leg (int (length (positions p))) sd n now inst r) \<and>
      length (positions (open_leg (int (length (positions p))) sd n now inst r)) = Suc (length (positions p))"
      using open_leg_ok [OF conjunct1 [OF r] ne k n] r by simp
  qed (use start same in simp_all)
  then show ?thesis ..
qed

text \<open>A closing order.\<close>

definition close_order :: "portfolio \<Rightarrow> int \<Rightarrow> nat \<Rightarrow> timestamp \<Rightarrow> pending_order" where
  "close_order p i k now = (let l = the_leg p i k in
     \<lparr>o_position = i, o_leg_index = k, o_instrument = leg_instrument l, o_side = closing_side l,
      o_qty = \<bar>leg_qty l\<bar>, submitted_at = now, eligible_at = Timestamp (nanos now + pf_delay p),
      closing = True, o_from_rule = closing_from_rule p\<rparr>)"

lemma pf_at_leg:
  assumes "pf_at p i = Inr pos" and "leg_at pos k = Inr l"
  shows "legs_of p (i, k) = Some l"
  using assms by (auto simp: pf_at_def leg_at_def nth_opt_def legs_of_def leg_ref_def the_leg_def
      split: if_splits option.splits)

lemma submit_close_leg_eq:
  assumes "legs_of p (i, k) = Some l"
  shows "submit_close_leg i k now p = Inr (if leg_state l = Open
    then (put_leg i k (l\<lparr>leg_state := PendingClose\<rparr>) p)\<lparr>pending := pending p @ [close_order p i k now]\<rparr> else p)"
  using assms by (auto simp: submit_close_leg_def pf_at_def leg_at_def nth_opt_def legs_of_def leg_ref_def
      the_leg_def close_order_def submit_def Let_def split: if_splits)

lemma submit_close_leg_ok:
  assumes inv: "portfolio_ok p" and run: "submit_close_leg i k now p = Inr q"
  shows "portfolio_ok q"
proof -
  obtain l where l: "legs_of p (i, k) = Some l"
    using run by (auto simp: submit_close_leg_def dest: pf_at_leg split: sum.splits)
  show ?thesis
  proof (cases "leg_state l = Open")
    case True
    let ?l = "l\<lparr>leg_state := PendingClose\<rparr>"
    let ?p = "put_leg i k ?l p"
    have q: "q = ?p\<lparr>pending := pending p @ [close_order p i k now]\<rparr>"
      using run True by (simp add: submit_close_leg_eq [OF l])
    have "the_leg p i k = l" using l by (simp add: legs_of_Some)
    then have "order_matches never (pf_delay p) (close_order p i k now) ?l"
      by (simp add: order_matches_def close_order_def Let_def closing_side_def)
    then have book: "book_ok never (pf_delay p) ((legs_of p)((i, k) \<mapsto> ?l)) (pending p @ [close_order p i k now])"
      using inv True l by (intro book_submit) (simp_all add: portfolio_ok_def inv_with_def order_key_def close_order_def Let_def)
    have "inv_with never (pending p @ [close_order p i k now]) q"
      using True
      by (intro inv_put [OF inv [unfolded portfolio_ok_def] l book, where ts = "[]"])
        (simp_all add: q closed_pnl_def leg_cash_def filled_def)
    then show ?thesis by (simp add: portfolio_ok_def q)
  next
    case False
    then show ?thesis using run inv by (simp add: submit_close_leg_eq [OF l])
  qed
qed

section \<open>Opening orders are withdrawn\<close>

lemma inv_book: "inv_with gone ords p \<Longrightarrow> book_ok gone (pf_delay p) (legs_of p) ords"
  by (simp add: inv_with_def)

lemma order_leg:
  assumes "inv_with gone (still @ ord # rest) p"
  obtains l where "legs_of p (order_key ord) = Some l" "order_matches gone (pf_delay p) ord l"
    "the_leg p (o_position ord) (o_leg_index ord) = l"
proof -
  obtain l where l: "legs_of p (order_key ord) = Some l" "order_matches gone (pf_delay p) ord l"
    using book_okD(2) [OF inv_book [OF assms], of ord] by auto
  moreover have "the_leg p (o_position ord) (o_leg_index ord) = l"
    using l(1) by (simp add: legs_of_Some order_key_def)
  ultimately show ?thesis by (rule that)
qed

text \<open>An order leaves and its leg takes a state in which it is not working, money untouched.\<close>

lemma inv_release:
  assumes inv: "inv_with gone (still @ ord # rest) p"
    and l: "legs_of p (order_key ord) = Some l" and "leg_state l \<noteq> Closed"
    and s: "s = Open \<or> s = Cancelled" and f: "filled (l\<lparr>leg_state := s\<rparr>) = filled l"
    and q: "positions q = positions (put_leg (o_position ord) (o_leg_index ord) (l\<lparr>leg_state := s\<rparr>) p)"
      "pf_delay q = pf_delay p" "rules q = rules p" "realized q = realized p" "trades q = trades p"
      "total_costs q = total_costs p"
  shows "inv_with gone (still @ rest) q"
proof (rule inv_put [where ts = "[]"])
  show "inv_with gone (still @ ord # rest) p" by (rule inv)
  show "legs_of p (o_position ord, o_leg_index ord) = Some l" using l by (simp add: order_key_def)
  show "book_ok gone (pf_delay p) ((legs_of p)((o_position ord, o_leg_index ord) \<mapsto> l\<lparr>leg_state := s\<rparr>)) (still @ rest)"
    unfolding order_key_def [symmetric] using s by (intro book_resolve [OF inv_book [OF inv] l]) (auto simp: working_def)
qed (use q assms(3) s f in \<open>auto simp: closed_pnl_def leg_cash_def filled_def\<close>)

lemma cancel_opening_step:
  assumes inv: "inv_with never (keep @ ord # rest) p" and run: "cancel_opening i ord (p, keep) = (q, keep')"
  shows "inv_with never (keep' @ rest) q"
proof (cases "o_position ord = i \<and> \<not> closing ord")
  case True
  obtain l where l: "legs_of p (order_key ord) = Some l" "order_matches never (pf_delay p) ord l"
    "the_leg p (o_position ord) (o_leg_index ord) = l"
    using order_leg [OF inv] .
  have st: "leg_state l = PendingOpen" using l(2) True by (simp add: order_matches_def)
  have q: "q = (put_leg i (o_leg_index ord) (l\<lparr>leg_state := Cancelled\<rparr>) p)\<lparr>cancelled_orders := cancelled_orders p + 1\<rparr>"
    and keep: "keep' = keep"
    using run True l(3) by (auto simp: cancel_opening_def)
  show ?thesis
    unfolding keep using True st
    by (intro inv_release [OF inv l(1), where s = Cancelled]) (simp_all add: q filled_def)
next
  case False
  then have "q = p" "keep' = keep @ [ord]" using run by (auto simp: cancel_opening_def)
  then show ?thesis using inv by simp
qed

lemma cancel_opening_frame:
  "length (positions (fst (cancel_opening i ord s))) = length (positions (fst s))"
  "pending (fst (cancel_opening i ord s)) = pending (fst s)"
  "rules (fst (cancel_opening i ord s)) = rules (fst s)"
  "pf_delay (fst (cancel_opening i ord s)) = pf_delay (fst s)"
  "leg_ref (fst (cancel_opening i ord s)) = leg_ref (fst s)"
proof -
  show "length (positions (fst (cancel_opening i ord s))) = length (positions (fst s))"
    "pending (fst (cancel_opening i ord s)) = pending (fst s)"
    "rules (fst (cancel_opening i ord s)) = rules (fst s)"
    "pf_delay (fst (cancel_opening i ord s)) = pf_delay (fst s)"
    by (simp_all add: cancel_opening_def split_beta)
  show "leg_ref (fst (cancel_opening i ord s)) = leg_ref (fst s)"
  proof
    fix x
    have "leg_ref (p\<lparr>cancelled_orders := c\<rparr>) x = leg_ref p x" for p c by (simp add: leg_ref_def)
    then show "leg_ref (fst (cancel_opening i ord s)) x = leg_ref (fst s) x"
      by (simp add: cancel_opening_def split_beta)
  qed
qed

lemma cancel_sweep:
  assumes inv: "portfolio_ok p" and run: "fold (cancel_opening i) (pending p) (p, []) = (p1, keep)"
  shows "portfolio_ok (p1\<lparr>pending := keep\<rparr>)"
proof -
  have "inv_with never keep p1"
  proof (rule sweep [where I = "inv_with never" and f = "\<lambda>x s. Inr (cancel_opening i x s)" and still = "[]"])
    show "try_fold (\<lambda>x s. Inr (cancel_opening i x s)) (pending p) (p, []) = (Inr (p1, keep) :: unit + _)"
      by (simp add: try_fold_fold run)
    show "inv_with never ([] @ pending p) p" using inv by (simp add: portfolio_ok_def)
  qed (use cancel_opening_step in auto)
  then have "inv_with never keep (p1\<lparr>pending := keep\<rparr>)"
    by (subst inv_with_cong [of _ p1]) simp_all
  then show ?thesis by (simp add: portfolio_ok_def)
qed

lemma submit_close_ok:
  assumes inv: "portfolio_ok p" and run: "submit_close i now p = Inr q"
  shows "portfolio_ok q"
proof -
  obtain p1 keep where f: "fold (cancel_opening i) (pending p) (p, []) = (p1, keep)" by fastforce
  let ?p = "p1\<lparr>pending := keep\<rparr>"
  have r: "try_fold (\<lambda>k q. if leg_state (the_leg q i k) = Open then submit_close_leg i k now q else Inr q)
      [0..<length (pos_legs (positions ?p ! nat i))] ?p = Inr q"
    using run by (simp add: submit_close_def f split: sum.splits)
  show ?thesis
    by (rule try_fold_invariant [where P = portfolio_ok, OF r cancel_sweep [OF inv f]])
      (auto split: if_splits intro: submit_close_leg_ok)
qed

section \<open>Orders are filled\<close>

text \<open>What a leg and the trade log become when an order executes at a price.\<close>

definition leg_after :: "pending_order \<Rightarrow> price \<Rightarrow> timestamp \<Rightarrow> leg \<Rightarrow> leg" where
  "leg_after ord px now l =
     (if closing ord then l\<lparr>exit := px, exit_ts := now, leg_state := Closed\<rparr>
      else l\<lparr>entry := px, entry_ts := now, leg_state := Open\<rparr>)"

definition fill_facts :: "market_view \<Rightarrow> pending_order \<Rightarrow> price \<Rightarrow> portfolio \<Rightarrow> portfolio \<Rightarrow> trade_record \<Rightarrow> bool" where
  "fill_facts mv ord px p q t \<longleftrightarrow>
     (let l = the_leg p (o_position ord) (o_leg_index ord) in
      positions q = positions (put_leg (o_position ord) (o_leg_index ord) (leg_after ord px (mv_now mv) l) p) \<and>
      realized q = realized p + (if closing ord then notional px (leg_qty l) - notional (entry l) (leg_qty l) else 0)) \<and>
     trades q = trades p @ [t] \<and> total_costs q = total_costs p + t_cost t \<and>
     pf_delay q = pf_delay p \<and> pf_fills q = pf_fills p \<and> pf_costs q = pf_costs p \<and>
     rules q = rules p \<and> pending q = pending p \<and> closing_from_rule q = closing_from_rule p \<and>
     signal_ts t = submitted_at ord \<and> fill_ts t = mv_now mv \<and> t_position t = o_position ord \<and>
     t_instrument t = o_instrument ord \<and> t_side t = o_side ord \<and> t_qty t = o_qty ord \<and>
     t_price t = px \<and> \<not> t_settled t"

lemma fill_order_cases:
  assumes run: "fill_order mv ord (p, still) = Inr (q, still')"
  obtains (rest) "q = p" "still' = still @ [ord]"
    "mv_now mv < eligible_at ord \<or> latest mv (o_instrument ord) = None \<or>
     (\<exists>x. latest mv (o_instrument ord) = Some x \<and> fm_fill (pf_fills p) x (o_side ord) (o_qty ord) = None)"
  | (fill) x px t where "still' = still" "\<not> mv_now mv < eligible_at ord"
    "latest mv (o_instrument ord) = Some x" "fm_fill (pf_fills p) x (o_side ord) (o_qty ord) = Some px"
    "fill_facts mv ord px p q t"
proof (cases "mv_now mv < eligible_at ord \<or> latest mv (o_instrument ord) = None \<or>
    (\<exists>x. latest mv (o_instrument ord) = Some x \<and> fm_fill (pf_fills p) x (o_side ord) (o_qty ord) = None)")
  case True
  then have "q = p" "still' = still @ [ord]" using run by (auto simp: fill_order_def split: if_splits)
  then show ?thesis using True by (rule rest)
next
  case False
  then obtain x px where x: "latest mv (o_instrument ord) = Some x"
    "fm_fill (pf_fills p) x (o_side ord) (o_qty ord) = Some px" "\<not> mv_now mv < eligible_at ord" by auto
  from run x obtain sp where sp: "spec (mv_registry mv) (o_instrument ord) = Inr sp"
    by (auto simp: fill_order_def split: sum.splits)
  have leg: "the_leg (p\<lparr>illiquid_fills := a, oversized_fills := b, total_costs := c\<rparr>) i k = the_leg p i k"
    for a b c i k by (simp add: the_leg_def)
  have "fill_facts mv ord px p q (last (trades q))" and "still' = still"
    using run x sp
    by (auto simp: fill_order_def Let_def leg leg_after_def fill_facts_def put_leg_def zero_money_def plus_money_def)
  then show ?thesis using fill x by blast
qed

lemma fill_order_step:
  assumes inv: "inv_with never (still @ ord # rest) p"
    and run: "fill_order mv ord (p, still) = Inr (q, still')"
  shows "inv_with never (still' @ rest) q"
  using run
proof (cases rule: fill_order_cases)
  case rest
  then show ?thesis using inv by simp
next
  case (fill x px t)
  obtain l where l: "legs_of p (order_key ord) = Some l" "order_matches never (pf_delay p) ord l"
    "the_leg p (o_position ord) (o_leg_index ord) = l"
    using order_leg [OF inv] .
  let ?l = "leg_after ord px (mv_now mv) l"
  note q = fill(5) [unfolded fill_facts_def Let_def l(3)]
  have sides: "o_side ord = (if closing ord then closing_side l else opposite (closing_side l))"
      "o_qty ord = \<bar>leg_qty l\<bar>" "leg_state l = (if closing ord then PendingClose else PendingOpen)"
      "eligible_at ord = Timestamp (nanos (submitted_at ord) + pf_delay p)"
    using l(2) by (auto simp: order_matches_def never_def split: if_splits)
  show ?thesis
    unfolding fill(1)
  proof (rule inv_put [where ts = "[t]"])
    show "legs_of p (o_position ord, o_leg_index ord) = Some l" using l(1) by (simp add: order_key_def)
    show "book_ok never (pf_delay p) ((legs_of p)((o_position ord, o_leg_index ord) \<mapsto> ?l)) (still @ rest)"
      unfolding order_key_def [symmetric]
      by (intro book_resolve [OF inv_book [OF inv] l(1)]) (auto simp: working_def leg_after_def)
    show "amount (realized q) = amount (realized p) - closed_pnl l + closed_pnl ?l"
      using sides(3) q by (simp add: closed_pnl_def leg_after_def notional_def plus_money_def minus_money_def
          zero_money_def algebra_simps)
    show "sum_list (map trade_cash [t]) = leg_cash ?l - leg_cash l"
      using sides q by (auto simp: trade_cash_def leg_cash_def leg_after_def filled_def closing_side_def abs_if)
    show "\<forall>t \<in> set [t]. \<not> t_settled t \<longrightarrow> Timestamp (nanos (signal_ts t) + pf_delay p) \<le> fill_ts t"
      using fill(2) sides(4) q by (auto simp: less_timestamp_def less_eq_timestamp_def)
  qed (use inv q in simp_all)
qed

lemma process_pending_ok:
  assumes inv: "portfolio_ok p" and run: "process_pending mv p = Inr q"
  shows "portfolio_ok q"
proof (cases "pending p = []")
  case True
  then show ?thesis using run inv by (simp add: process_pending_def)
next
  case False
  then obtain p1 still where f: "try_fold (fill_order mv) (pending p) (p, []) = Inr (p1, still)"
    and q: "q = p1\<lparr>pending := still\<rparr>"
    using run by (auto simp: process_pending_def split: sum.splits)
  have "inv_with never still p1"
    by (rule sweep [where I = "inv_with never", OF fill_order_step _ f])
      (use inv in \<open>simp_all add: portfolio_ok_def\<close>)
  then have "inv_with never still q" by (subst inv_with_cong [of _ p1]) (simp_all add: q)
  then show ?thesis by (simp add: portfolio_ok_def q)
qed

section \<open>Marks and settlement\<close>

lemma refresh_leg_fields [simp]:
  "leg_instrument (refresh_leg mv l) = leg_instrument l" "leg_qty (refresh_leg mv l) = leg_qty l"
  "leg_state (refresh_leg mv l) = leg_state l" "entry (refresh_leg mv l) = entry l"
  "exit (refresh_leg mv l) = exit l" "entry_ts (refresh_leg mv l) = entry_ts l"
  "exit_ts (refresh_leg mv l) = exit_ts l" "settled (refresh_leg mv l) = settled l"
  by (auto simp: refresh_leg_def Let_def split: option.splits)

lemma refresh_marks_frame [simp]:
  "length (positions (refresh_marks mv p)) = length (positions p)"
  "map pos_id (positions (refresh_marks mv p)) = map pos_id (positions p)"
  "pending (refresh_marks mv p) = pending p" "rules (refresh_marks mv p) = rules p"
  "trades (refresh_marks mv p) = trades p" "realized (refresh_marks mv p) = realized p"
  "total_costs (refresh_marks mv p) = total_costs p" "pf_delay (refresh_marks mv p) = pf_delay p"
  by (simp_all add: refresh_marks_def)

lemma leg_ref_refresh [simp]: "leg_ref (refresh_marks mv p) x = leg_ref p x"
  by (cases x) (auto simp: leg_ref_def refresh_marks_def)

lemma legs_of_refresh: "legs_of (refresh_marks mv p) x = map_option (refresh_leg mv) (legs_of p x)"
  by (cases x) (auto simp: legs_of_def the_leg_def leg_ref_def refresh_marks_def)

lemma book_map:
  assumes "book_ok gone delay m ords" and "\<And>x. m' x = map_option f (m x)"
    and "\<And>l. leg_qty (f l) = leg_qty l" and "\<And>l. working (f l) = working l"
    and "\<And>ord l. order_matches gone delay ord (f l) = order_matches gone delay ord l"
  shows "book_ok gone delay m' ords"
  unfolding book_ok_def
proof (intro conjI ballI allI impI)
  show "distinct (map order_key ords)" by (rule book_okD(1) [OF assms(1)])
next
  fix ord
  assume "ord \<in> set ords"
  then obtain l where "m (order_key ord) = Some l" "order_matches gone delay ord l"
    using book_okD(2) [OF assms(1)] by blast
  then show "\<exists>l. m' (order_key ord) = Some l \<and> order_matches gone delay ord l"
    by (intro exI [of _ "f l"]) (simp add: assms(2,5))
next
  fix x l
  assume "m' x = Some l"
  then obtain k where k: "m x = Some k" "l = f k" by (auto simp: assms(2))
  show "leg_qty l \<noteq> 0" using book_okD(3) [OF assms(1) k(1)] by (simp add: k(2) assms(3))
  show "\<exists>ord \<in> set ords. order_key ord = x" if "working l"
    using book_okD(4) [OF assms(1) k(1)] that by (simp add: k(2) assms(4))
qed

lemma leg_sum_map:
  assumes "\<And>x. m' x = map_option f (m x)" and "\<And>l. g (f l) = g l"
  shows "leg_sum g m' = leg_sum g m"
proof -
  have "dom m' = dom m" by (auto simp: dom_def assms(1))
  then show ?thesis by (auto simp: leg_sum_def assms dom_def intro!: sum.cong)
qed

lemma refresh_marks_ok:
  assumes "portfolio_ok p"
  shows "portfolio_ok (refresh_marks mv p)"
proof -
  have "order_matches never d ord (refresh_leg mv l) = order_matches never d ord l" for d ord l
    by (simp add: order_matches_def closing_side_def)
  then have "book_ok never (pf_delay p) (legs_of (refresh_marks mv p)) (pending p)"
    using assms by (intro book_map [OF _ legs_of_refresh]) (simp_all add: portfolio_ok_def inv_with_def working_def)
  moreover have "leg_sum closed_pnl (legs_of (refresh_marks mv p)) = leg_sum closed_pnl (legs_of p)"
    "leg_sum leg_cash (legs_of (refresh_marks mv p)) = leg_sum leg_cash (legs_of p)"
    by (rule leg_sum_map [OF legs_of_refresh]; simp add: closed_pnl_def leg_cash_def filled_def)+
  ultimately show ?thesis
    using assms by (simp add: portfolio_ok_def inv_with_def ledger_ok_def timing_ok_def shape_ok_def)
qed

text \<open>The contracts that a settlement on \<open>ex\<close> settles.\<close>

definition expires_on :: "market_view \<Rightarrow> date \<Rightarrow> instrument_id \<Rightarrow> bool" where
  "expires_on mv ex i \<longleftrightarrow> (case spec (mv_registry mv) i of Inl e \<Rightarrow> False | Inr sp \<Rightarrow> is_option sp \<and> expiry sp = ex)"

definition settle_price :: "market_view \<Rightarrow> dbl \<Rightarrow> instrument_id \<Rightarrow> price" where
  "settle_price mv level i =
     (case spec (mv_registry mv) i of Inl e \<Rightarrow> Price 0 | Inr sp \<Rightarrow> price_from_double (settlement_value sp level))"

definition leg_settled :: "market_view \<Rightarrow> dbl \<Rightarrow> timestamp \<Rightarrow> leg \<Rightarrow> leg" where
  "leg_settled mv level whn l =
     l\<lparr>exit := settle_price mv level (leg_instrument l), exit_ts := whn, leg_state := Closed, settled := True\<rparr>"

definition settle_facts ::
    "market_view \<Rightarrow> dbl \<Rightarrow> timestamp \<Rightarrow> int \<times> nat \<Rightarrow> leg \<Rightarrow> portfolio \<Rightarrow> portfolio \<Rightarrow> trade_record \<Rightarrow> bool" where
  "settle_facts mv level whn x l p q t \<longleftrightarrow>
     positions q = positions (put_leg (fst x) (snd x) (leg_settled mv level whn l) p) \<and>
     realized q = realized p + (notional (settle_price mv level (leg_instrument l)) (leg_qty l) - notional (entry l) (leg_qty l)) \<and>
     trades q = trades p @ [t] \<and> total_costs q = total_costs p + t_cost t \<and>
     pf_delay q = pf_delay p \<and> pf_fills q = pf_fills p \<and> pf_costs q = pf_costs p \<and>
     rules q = rules p \<and> pending q = pending p \<and> closing_from_rule q = closing_from_rule p \<and>
     fill_ts t = whn \<and> t_instrument t = leg_instrument l \<and> t_side t = closing_side l \<and>
     t_qty t = \<bar>leg_qty l\<bar> \<and> t_price t = settle_price mv level (leg_instrument l) \<and> t_settled t"

lemma settle_leg_cases:
  assumes "settle_leg mv ex level whn x (p, n) = Inr (q, n')"
  obtains (skip) "q = p" "n' = n"
    "\<not> live (the_leg p (fst x) (snd x)) \<or> \<not> expires_on mv ex (leg_instrument (the_leg p (fst x) (snd x)))"
  | (settle) t where "n' = n + 1" "live (the_leg p (fst x) (snd x))"
    "expires_on mv ex (leg_instrument (the_leg p (fst x) (snd x)))"
    "settle_facts mv level whn x (the_leg p (fst x) (snd x)) p q t"
proof (cases "live (the_leg p (fst x) (snd x)) \<and> expires_on mv ex (leg_instrument (the_leg p (fst x) (snd x)))")
  case False
  then show ?thesis
    using assms by (intro skip) (auto simp: settle_leg_def split_beta Let_def expires_on_def split: if_splits sum.splits)
next
  case True
  define l where "l = the_leg p (fst x) (snd x)"
  obtain sp where sp: "spec (mv_registry mv) (leg_instrument l) = Inr sp" "is_option sp" "expiry sp = ex" "live l"
    using True by (auto simp: expires_on_def l_def split: sum.splits)
  have "settle_facts mv level whn x l p q (last (trades q))" and "n' = n + 1"
    using assms sp by (auto simp: settle_leg_def split_beta Let_def settle_facts_def leg_settled_def settle_price_def
        put_leg_def zero_money_def plus_money_def simp flip: l_def)
  then show ?thesis using settle True by (simp add: l_def)
qed

lemma inv_with_mono:
  assumes "inv_with gone ords p" and "\<And>i. gone i \<Longrightarrow> gone' i"
  shows "inv_with gone' ords p"
proof -
  have "order_matches gone d ord l \<Longrightarrow> order_matches gone' d ord l" for d ord l
    using assms(2) by (auto simp: order_matches_def split: if_splits)
  then show ?thesis using assms(1) unfolding inv_with_def book_ok_def by blast
qed

lemma inv_with_keep:
  assumes inv: "inv_with gone ords p" and "\<And>ord. ord \<in> set ords \<Longrightarrow> \<not> gone (o_instrument ord)"
  shows "inv_with never ords p"
proof -
  have "\<exists>l. legs_of p (order_key ord) = Some l \<and> order_matches never (pf_delay p) ord l"
    if ord: "ord \<in> set ords" for ord
  proof -
    obtain l where l: "legs_of p (order_key ord) = Some l" "order_matches gone (pf_delay p) ord l"
      using book_okD(2) [OF inv_book [OF inv] ord] by blast
    have "order_matches never (pf_delay p) ord l"
      using l(2) assms(2) [OF ord] by (auto simp: order_matches_def split: if_splits)
    then show ?thesis using l(1) by blast
  qed
  then show ?thesis using inv by (simp add: inv_with_def book_ok_def)
qed

lemma live_not_closed: "live l \<Longrightarrow> leg_state l \<noteq> Closed \<and> filled l"
  by (auto simp: live_def filled_def)

lemma settle_leg_step:
  assumes inv: "inv_with (expires_on mv ex) ords p" and ref: "leg_ref p x"
    and run: "settle_leg mv ex level whn x (p, n) = Inr (q, n')"
  shows "inv_with (expires_on mv ex) ords q"
  using run
proof (cases rule: settle_leg_cases)
  case skip
  then show ?thesis using inv by simp
next
  case (settle t)
  define l where "l = the_leg p (fst x) (snd x)"
  note ll = settle(2-4) [folded l_def]
  note q = ll(3) [unfolded settle_facts_def]
  have l: "legs_of p (fst x, snd x) = Some l" using ref by (simp add: legs_of_def l_def)
  let ?l = "leg_settled mv level whn l"
  show ?thesis
  proof (rule inv_put [where ts = "[t]", OF inv l])
    show "book_ok (expires_on mv ex) (pf_delay p) ((legs_of p)((fst x, snd x) \<mapsto> ?l)) ords"
      using ll(1,2) by (intro book_touch [OF inv_book [OF inv] l])
        (auto simp: leg_settled_def working_def live_def order_matches_def closing_side_def split: if_splits)
    show "amount (realized q) = amount (realized p) - closed_pnl l + closed_pnl ?l"
      using live_not_closed [OF ll(1)] q
      by (simp add: closed_pnl_def leg_settled_def notional_def plus_money_def minus_money_def algebra_simps)
    show "sum_list (map trade_cash [t]) = leg_cash ?l - leg_cash l"
      using live_not_closed [OF ll(1)] q
      by (auto simp: trade_cash_def leg_cash_def leg_settled_def filled_def closing_side_def abs_if)
  qed (use q in simp_all)
qed

lemma settle_leg_frame:
  assumes "settle_leg mv ex level whn x (p, n) = Inr (q, n')"
  shows "leg_ref q y = leg_ref p y" and "pending q = pending p" and "rules q = rules p"
  using assms
proof (atomize(full), cases rule: settle_leg_cases)
  case (settle t)
  have "leg_ref q y = leg_ref (put_leg (fst x) (snd x) (leg_settled mv level whn (the_leg p (fst x) (snd x))) p) y"
    using settle(4) by (simp add: settle_facts_def leg_ref_def)
  then show "leg_ref q y = leg_ref p y \<and> pending q = pending p \<and> rules q = rules p"
    using settle(4) by (simp add: settle_facts_def)
qed simp

lemma leg_indices_ref: "x \<in> set (leg_indices p) \<longleftrightarrow> leg_ref p x"
  by (cases x) (auto simp: leg_indices_def leg_ref_def image_iff intro!: bexI [of _ "nat (fst x)"])

lemma settle_loop:
  assumes inv: "inv_with (expires_on mv ex) (pending p) p"
    and run: "try_fold (settle_leg mv ex level whn) (leg_indices p) (p, n) = Inr (q, n')"
  shows "inv_with (expires_on mv ex) (pending p) q \<and> pending q = pending p \<and> leg_ref q = leg_ref p"
proof -
  let ?P = "\<lambda>s. inv_with (expires_on mv ex) (pending p) (fst s) \<and> pending (fst s) = pending p \<and> leg_ref (fst s) = leg_ref p"
  have "?P (q, n')"
  proof (rule try_fold_invariant [where P = ?P, OF run])
    fix x t t'
    assume x: "x \<in> set (leg_indices p)" and t: "?P t" and step: "settle_leg mv ex level whn x t = Inr t'"
    have step': "settle_leg mv ex level whn x (fst t, snd t) = Inr (fst t', snd t')" using step by simp
    have "leg_ref (fst t) x" using x t by (simp add: leg_indices_ref)
    from settle_leg_step [OF conjunct1 [OF t] this step'] settle_leg_frame [OF step'] t
    show "?P t'" by auto
  qed (use inv in simp)
  then show ?thesis by simp
qed

lemma drop_settled_cases:
  assumes "drop_settled mv ex ord (p, keep) = Inr (q, keep')"
  obtains (keep) "q = p" "keep' = keep @ [ord]" "\<not> expires_on mv ex (o_instrument ord)"
  | (drop) "keep' = keep" "expires_on mv ex (o_instrument ord)"
    "q = (let l = the_leg p (o_position ord) (o_leg_index ord);
              p1 = (if \<not> closing ord \<and> leg_state l = PendingOpen
                then put_leg (o_position ord) (o_leg_index ord) (l\<lparr>leg_state := Cancelled\<rparr>) p else p)
          in p1\<lparr>cancelled_orders := cancelled_orders p1 + 1\<rparr>)"
  using assms by (auto simp: drop_settled_def expires_on_def Let_def split: sum.splits if_splits)

lemma drop_settled_step:
  assumes inv: "inv_with gone (keep @ ord # rest) p"
    and quiet: "\<And>x l. legs_of p x = Some l \<Longrightarrow> live l \<Longrightarrow> \<not> expires_on mv ex (leg_instrument l)"
    and run: "drop_settled mv ex ord (p, keep) = Inr (q, keep')"
  shows "inv_with gone (keep' @ rest) q"
  using run
proof (cases rule: drop_settled_cases)
  case keep
  then show ?thesis using inv by simp
next
  case drop
  obtain l where l: "legs_of p (order_key ord) = Some l" "order_matches gone (pf_delay p) ord l"
    "the_leg p (o_position ord) (o_leg_index ord) = l"
    using order_leg [OF inv] .
  show ?thesis
  proof (cases "closing ord")
    case True
    have "leg_instrument l = o_instrument ord" using l(2) by (simp add: order_matches_def)
    then have "\<not> live l" using quiet [OF l(1)] drop(2) by auto
    then have "\<not> working l" using l(2) True by (auto simp: order_matches_def live_def working_def)
    then have "book_ok gone (pf_delay p) (legs_of p) (keep @ rest)"
      using book_drop [OF inv_book [OF inv] l(1)] by simp
    then have "inv_with gone (keep @ rest) p" using inv by (simp add: inv_with_def)
    then show ?thesis using drop True by (subst inv_with_cong [of _ p]) (simp_all add: Let_def)
  next
    case False
    then have st: "leg_state l = PendingOpen" using l(2) by (simp add: order_matches_def)
    show ?thesis
      unfolding drop(1) using False st drop(3) l(3)
      by (intro inv_release [OF inv l(1), where s = Cancelled]) (simp_all add: filled_def Let_def)
  qed
qed

text \<open>What a settlement makes of one leg, in each of its two loops.\<close>

definition settle_one :: "market_view \<Rightarrow> date \<Rightarrow> dbl \<Rightarrow> timestamp \<Rightarrow> leg \<Rightarrow> leg" where
  "settle_one mv ex level whn l =
     (if live l \<and> expires_on mv ex (leg_instrument l) then leg_settled mv level whn l else l)"

definition drop_one :: "market_view \<Rightarrow> date \<Rightarrow> leg \<Rightarrow> leg" where
  "drop_one mv ex l =
     (if leg_state l = PendingOpen \<and> expires_on mv ex (leg_instrument l) then l\<lparr>leg_state := Cancelled\<rparr> else l)"

lemma settle_one_quiet: "\<not> (live (settle_one mv ex level whn l) \<and> expires_on mv ex (leg_instrument (settle_one mv ex level whn l)))"
  by (simp add: settle_one_def leg_settled_def live_def)

lemma settle_leg_effect:
  assumes "settle_leg mv ex level whn x (p, n) = Inr (q, n')" and "leg_ref p x"
  shows "legs_of q = (legs_of p)(x \<mapsto> settle_one mv ex level whn (the_leg p (fst x) (snd x)))"
  using assms(1)
proof (cases rule: settle_leg_cases)
  case skip
  have "legs_of p x = Some (the_leg p (fst x) (snd x))" using assms(2) by (simp add: legs_of_def)
  then show ?thesis using skip by (auto simp: settle_one_def fun_upd_idem)
next
  case (settle t)
  then have "legs_of q = legs_of (put_leg (fst x) (snd x) (leg_settled mv level whn (the_leg p (fst x) (snd x))) p)"
    by (intro legs_of_cong) (simp add: settle_facts_def)
  then show ?thesis using settle assms(2) by (simp add: legs_of_put settle_one_def)
qed

lemma settle_loop_legs:
  assumes run: "try_fold (settle_leg mv ex level whn) (leg_indices p) (p, n) = Inr (q, n')"
  shows "legs_of q x = map_option (settle_one mv ex level whn) (legs_of p x)"
proof -
  let ?f = "settle_one mv ex level whn"
  have id: "?f (?f l) = ?f l" for l using settle_one_quiet [of mv ex level whn l] by (auto simp: settle_one_def)
  have "\<forall>x. legs_of (fst s') x = map_option ?f (legs_of p x)" if "try_fold (settle_leg mv ex level whn) xs s = Inr s'"
    and "\<And>x. x \<in> set xs \<Longrightarrow> leg_ref (fst s) x"
    and "\<forall>x. legs_of (fst s) x = (if x \<in> set xs then legs_of p x else map_option ?f (legs_of p x)) \<or>
      legs_of (fst s) x = map_option ?f (legs_of p x)" for xs s s'
    using that
  proof (induction xs arbitrary: s)
    case (Cons y ys)
    from Cons.prems(1) obtain t where t: "settle_leg mv ex level whn y s = Inr t"
      "try_fold (settle_leg mv ex level whn) ys t = Inr s'" by (auto split: sum.splits)
    have st: "settle_leg mv ex level whn y (fst s, snd s) = Inr (fst t, snd t)" using t(1) by simp
    have y: "leg_ref (fst s) y" using Cons.prems(2) by simp
    have ly: "legs_of (fst s) y = Some (the_leg (fst s) (fst y) (snd y))" using y by (simp add: legs_of_def)
    note eff = settle_leg_effect [OF st y]
    have "legs_of (fst t) y = map_option ?f (legs_of (fst s) y)" by (simp add: eff ly)
    also have "\<dots> = map_option ?f (legs_of p y)"
      using Cons.prems(3) [rule_format, of y] by (auto simp: option.map_comp comp_def id)
    finally have 1: "legs_of (fst t) y = map_option ?f (legs_of p y)" .
    have 2: "legs_of (fst t) x = legs_of (fst s) x" if "x \<noteq> y" for x using that by (simp add: eff)
    show ?case
    proof (rule Cons.IH [OF t(2)])
      fix x assume "x \<in> set ys"
      then show "leg_ref (fst t) x" using Cons.prems(2) [of x] settle_leg_frame(1) [OF st] by simp
    next
      show "\<forall>x. legs_of (fst t) x = (if x \<in> set ys then legs_of p x else map_option ?f (legs_of p x)) \<or>
        legs_of (fst t) x = map_option ?f (legs_of p x)"
      proof
        fix x
        show "legs_of (fst t) x = (if x \<in> set ys then legs_of p x else map_option ?f (legs_of p x)) \<or>
          legs_of (fst t) x = map_option ?f (legs_of p x)"
          using 1 2 [of x] Cons.prems(3) [rule_format, of x] by (cases "x = y") auto
      qed
    qed
  qed simp
  note main = this [OF run]
  have "legs_of p x = None" if "x \<notin> set (leg_indices p)" for x
    using that by (simp add: leg_indices_ref legs_of_def)
  then show ?thesis
    using main [THEN spec [of _ x]] by (auto simp: leg_indices_ref)
qed

lemma drop_loop_legs:
  assumes run: "try_fold (drop_settled mv ex) ords (p, []) = Inr (q, keep)"
    and refs: "\<And>ord. ord \<in> set ords \<Longrightarrow> \<exists>l. legs_of p (order_key ord) = Some l \<and> leg_instrument l = o_instrument ord"
  shows "legs_of q x = legs_of p x \<or> legs_of q x = map_option (drop_one mv ex) (legs_of p x)"
    and "keep = filter (\<lambda>ord. \<not> expires_on mv ex (o_instrument ord)) ords"
proof -
  let ?P = "\<lambda>s. \<forall>x. legs_of (fst s) x = legs_of p x \<or> legs_of (fst s) x = map_option (drop_one mv ex) (legs_of p x)"
  have "?P (q, keep)"
  proof (rule try_fold_invariant [where P = ?P, OF run])
    fix ord t t'
    assume ord: "ord \<in> set ords" and P: "?P t" and step: "drop_settled mv ex ord t = Inr t'"
    obtain a b c d where t: "t = (a, b)" "t' = (c, d)" by fastforce
    from step [unfolded t] show "?P t'"
    proof (cases rule: drop_settled_cases)
      case keep
      then show ?thesis using P by (simp add: t)
    next
      case drop
      define l where "l = the_leg a (o_position ord) (o_leg_index ord)"
      show ?thesis
      proof (cases "\<not> closing ord \<and> leg_state l = PendingOpen")
        case False
        then have "positions c = positions a" using drop(3) by (auto simp: l_def Let_def)
        from P legs_of_cong [OF this] show ?thesis by (simp add: t)
      next
        case True
        obtain l0 where l0: "legs_of p (order_key ord) = Some l0" "leg_instrument l0 = o_instrument ord"
          using refs [OF ord] by blast
        have "legs_of a (order_key ord) = Some l0 \<or> legs_of a (order_key ord) = Some (drop_one mv ex l0)"
          using P [THEN spec [of _ "order_key ord"]] l0(1) by (simp add: t)
        then have "leg_ref a (order_key ord)" and "l = l0 \<or> l = drop_one mv ex l0"
          by (auto simp: legs_of_Some l_def order_key_def)
        then have ref: "leg_ref a (o_position ord, o_leg_index ord)" and l: "l = l0"
          using True by (auto simp: order_key_def drop_one_def split: if_splits)
        have "positions c = positions (put_leg (o_position ord) (o_leg_index ord) (l\<lparr>leg_state := Cancelled\<rparr>) a)"
          using drop(3) True by (simp add: l_def Let_def)
        from legs_of_cong [OF this] have "legs_of c = (legs_of a)(order_key ord \<mapsto> drop_one mv ex l0)"
          using legs_of_put [OF ref] True drop(2) l0(2) by (simp add: order_key_def drop_one_def l)
        then show ?thesis using P l0 by (simp add: t)
      qed
    qed
  qed simp
  then show "legs_of q x = legs_of p x \<or> legs_of q x = map_option (drop_one mv ex) (legs_of p x)" by (cases x) simp
  have "keep' = k @ filter (\<lambda>ord. \<not> expires_on mv ex (o_instrument ord)) os"
    if "try_fold (drop_settled mv ex) os (a, k) = Inr (b, keep')" for os a b k keep'
    using that
  proof (induction os arbitrary: a k)
    case (Cons ord os)
    then obtain c d where st: "drop_settled mv ex ord (a, k) = Inr (c, d)"
      "try_fold (drop_settled mv ex) os (c, d) = Inr (b, keep')" by (auto split: sum.splits)
    from st(1) show ?case using Cons.IH [OF st(2)] by (cases rule: drop_settled_cases) auto
  qed simp
  from this [OF run] show "keep = filter (\<lambda>ord. \<not> expires_on mv ex (o_instrument ord)) ords" by simp
qed

text \<open>Settlement as a map over the legs and a filter of the orders.\<close>

definition settled_book :: "market_view \<Rightarrow> date \<Rightarrow> dbl \<Rightarrow> timestamp \<Rightarrow> leg \<Rightarrow> leg" where
  "settled_book mv ex level whn l =
     (if \<not> expires_on mv ex (leg_instrument l) then l
      else if live l then leg_settled mv level whn l
      else if leg_state l = PendingOpen then l\<lparr>leg_state := Cancelled\<rparr> else l)"

lemma settle_expiry_laws:
  assumes inv: "portfolio_ok p" and run: "settle_expiry mv ex level whn p = Inr (n, q)"
  shows "portfolio_ok q"
    and "legs_of q x = map_option (settled_book mv ex level whn) (legs_of p x)"
    and "pending q = filter (\<lambda>ord. \<not> expires_on mv ex (o_instrument ord)) (pending p)"
proof -
  obtain p1 p2 keep where
    f1: "try_fold (settle_leg mv ex level whn) (leg_indices p) (p, 0) = Inr (p1, n)" and
    f2: "try_fold (drop_settled mv ex) (pending p1) (p1, []) = Inr (p2, keep)" and q: "q = p2\<lparr>pending := keep\<rparr>"
    using run by (auto simp: settle_expiry_def split: sum.splits)
  let ?gone = "expires_on mv ex"
  have "inv_with ?gone (pending p) p"
    using inv by (auto simp: portfolio_ok_def never_def intro: inv_with_mono)
  from settle_loop [OF this f1]
  have inv1: "inv_with ?gone (pending p) p1" and pend: "pending p1 = pending p" and refs: "leg_ref p1 = leg_ref p" by auto
  note legs1 = settle_loop_legs [OF f1]
  have quiet1: "\<not> ?gone (leg_instrument l)" if "legs_of p1 y = Some l" "live l" for y l
    using that settle_one_quiet [of mv ex level whn] by (auto simp: legs1)
  have ords: "\<exists>l. legs_of p1 (order_key ord) = Some l \<and> leg_instrument l = o_instrument ord" if "ord \<in> set (pending p1)" for ord
    using book_okD(2) [OF inv_book [OF inv1], of ord] that by (auto simp: pend order_matches_def)
  note legs2 = drop_loop_legs(1) [OF f2 ords]
  have keep: "keep = filter (\<lambda>ord. \<not> ?gone (o_instrument ord)) (pending p)"
    using drop_loop_legs(2) [OF f2 ords] by (simp add: pend)
  let ?I = "\<lambda>ords r. inv_with ?gone ords r \<and> (\<forall>y l. legs_of r y = Some l \<longrightarrow> live l \<longrightarrow> \<not> ?gone (leg_instrument l))"
  have "?I keep p2"
  proof (rule sweep [where I = ?I and still = "[]", OF _ _ f2])
    fix ord rest r still r' still'
    assume I: "?I (still @ ord # rest) r" and step: "drop_settled mv ex ord (r, still) = Inr (r', still')"
    have inv': "inv_with ?gone (still' @ rest) r'"
      by (rule drop_settled_step [OF conjunct1 [OF I] _ step]) (use I in blast)
    have "\<not> ?gone (leg_instrument l)" if l: "legs_of r' y = Some l" "live l" for y l
      using step
    proof (cases rule: drop_settled_cases)
      case keep
      then show ?thesis using I l by blast
    next
      case drop
      obtain l0 where l0: "legs_of r (order_key ord) = Some l0"
        "the_leg r (o_position ord) (o_leg_index ord) = l0"
        using order_leg [OF conjunct1 [OF I]] by blast
      have ref: "leg_ref r (o_position ord, o_leg_index ord)" using l0(1) by (simp add: legs_of_Some order_key_def)
      have "legs_of r' = legs_of r \<or> legs_of r' = (legs_of r)(order_key ord \<mapsto> l0\<lparr>leg_state := Cancelled\<rparr>)"
      proof (cases "\<not> closing ord \<and> leg_state l0 = PendingOpen")
        case True
        then have "positions r' = positions (put_leg (o_position ord) (o_leg_index ord) (l0\<lparr>leg_state := Cancelled\<rparr>) r)"
          using drop(3) l0(2) by (simp add: Let_def)
        from legs_of_cong [OF this] show ?thesis using legs_of_put [OF ref] by (simp add: order_key_def)
      next
        case False
        then have "positions r' = positions r" using drop(3) l0(2) by (auto simp: Let_def)
        then show ?thesis using legs_of_cong by blast
      qed
      then have "legs_of r y = Some l" using l by (auto simp: live_def split: if_splits)
      then show ?thesis using I l(2) by blast
    qed
    then show "?I (still' @ rest) r'" using inv' by blast
  next
    show "?I ([] @ pending p1) p1" using inv1 quiet1 by (auto simp: pend)
  qed
  then have "inv_with ?gone keep p2" by simp
  moreover have "\<not> ?gone (o_instrument ord)" if "ord \<in> set keep" for ord using that by (simp add: keep)
  ultimately have book: "inv_with never keep p2" by (rule inv_with_keep)
  then have "inv_with never keep q" by (subst inv_with_cong [of _ p2]) (simp_all add: q)
  then show "portfolio_ok q" by (simp add: portfolio_ok_def q)
  show "pending q = filter (\<lambda>ord. \<not> expires_on mv ex (o_instrument ord)) (pending p)" by (simp add: q keep)
  have "legs_of q = legs_of p2" by (rule legs_of_cong) (simp add: q)
  moreover have "legs_of p2 x = map_option (settled_book mv ex level whn) (legs_of p x)"
  proof (cases "legs_of p x")
    case None
    then show ?thesis using legs2 [of x] by (simp add: legs1)
  next
    case (Some l)
    let ?l = "settle_one mv ex level whn l"
    have l2: "legs_of p2 x = Some ?l \<or> legs_of p2 x = Some (drop_one mv ex ?l)"
      using legs2 [of x] by (simp add: legs1 Some)
    have "\<not> (leg_state k = PendingOpen \<and> ?gone (leg_instrument k))" if k: "legs_of p2 x = Some k" for k
    proof
      assume a: "leg_state k = PendingOpen \<and> ?gone (leg_instrument k)"
      then obtain ord where "ord \<in> set keep" "order_key ord = x"
        using book_okD(4) [OF inv_book [OF book] k] by (auto simp: working_def)
      then show False
        using book_okD(2) [OF inv_book [OF book], of ord] k a by (auto simp: keep order_matches_def)
    qed
    then have "legs_of p2 x = Some (drop_one mv ex ?l)" using l2 by (auto simp: drop_one_def)
    then show ?thesis
      by (auto simp: Some drop_one_def settle_one_def settled_book_def live_def leg_settled_def)
  qed
  ultimately show "legs_of q x = map_option (settled_book mv ex level whn) (legs_of p x)" by simp
qed

section \<open>End of day\<close>

lemma withdraw_step:
  assumes inv: "inv_with never (ord # rest) p"
  shows "inv_with never rest (fst (withdraw ord (p, ab)))"
proof -
  obtain l where l: "legs_of p (order_key ord) = Some l" "order_matches never (pf_delay p) ord l"
    "the_leg p (o_position ord) (o_leg_index ord) = l"
    using order_leg [of never "[]" ord rest p] inv by auto
  define s where "s = (if closing ord then Open else Cancelled)"
  have st: "leg_state l = (if closing ord then PendingClose else PendingOpen)"
    using l(2) by (auto simp: order_matches_def never_def split: if_splits)
  have q: "fst (withdraw ord (p, ab)) = put_leg (o_position ord) (o_leg_index ord) (l\<lparr>leg_state := s\<rparr>) p"
    using st l(3) by (simp add: withdraw_def s_def Let_def)
  show ?thesis
    unfolding q
    using inv_release [where still = "[]" and s = s, OF _ l(1)] inv st by (simp add: s_def filled_def)
qed

lemma withdraw_loop:
  assumes "inv_with never ords p"
  shows "inv_with never [] (fst (fold withdraw ords (p, ab)))"
  using assms
proof (induction ords arbitrary: p ab)
  case (Cons ord rest)
  obtain q ab' where q: "withdraw ord (p, ab) = (q, ab')" by fastforce
  have "inv_with never rest q" using withdraw_step [OF Cons.prems, of ab] by (simp add: q)
  from Cons.IH [OF this] show ?case by (simp add: q)
qed simp

text \<open>What end of day makes of a working leg.\<close>

definition stood_down :: "leg \<Rightarrow> leg" where
  "stood_down l =
     (if leg_state l = PendingClose then l\<lparr>leg_state := Open\<rparr>
      else if leg_state l = PendingOpen then l\<lparr>leg_state := Cancelled\<rparr> else l)"

lemma stood_down_id [simp]: "\<not> working l \<Longrightarrow> stood_down l = l"
  by (auto simp: working_def stood_down_def)

lemma stood_down_idem [simp]: "\<not> working (stood_down l)"
  by (simp add: working_def stood_down_def)

lemma withdraw_legs:
  assumes "inv_with never (ord # rest) p"
  obtains l where "legs_of p (order_key ord) = Some l"
    and "legs_of (fst (withdraw ord (p, ab))) = (legs_of p)(order_key ord \<mapsto> stood_down l)"
    and "snd (withdraw ord (p, ab)) = (if closing ord then List.insert (o_position ord) ab else ab)"
    and "rules (fst (withdraw ord (p, ab))) = rules p"
    and "leg_state l = (if closing ord then PendingClose else PendingOpen)"
proof -
  obtain l where l: "legs_of p (order_key ord) = Some l" "order_matches never (pf_delay p) ord l"
    "the_leg p (o_position ord) (o_leg_index ord) = l"
    using order_leg [of never "[]" ord rest p] assms by auto
  have st: "leg_state l = (if closing ord then PendingClose else PendingOpen)"
    using l(2) by (auto simp: order_matches_def never_def split: if_splits)
  have q: "withdraw ord (p, ab) = (put_leg (o_position ord) (o_leg_index ord) (stood_down l) p,
      if closing ord then List.insert (o_position ord) ab else ab)"
    using st l(3) by (simp add: withdraw_def stood_down_def Let_def)
  have "leg_ref p (o_position ord, o_leg_index ord)" using l(1) by (simp add: legs_of_Some order_key_def)
  from legs_of_put [OF this] show ?thesis
    using that [OF l(1)] st by (simp add: q order_key_def)
qed

lemma withdraw_loop_legs:
  assumes "inv_with never ords p"
  shows "legs_of (fst (fold withdraw ords (p, ab))) x = map_option stood_down (legs_of p x)"
    and "set (snd (fold withdraw ords (p, ab))) = set ab \<union> {o_position ord | ord. ord \<in> set ords \<and> closing ord}"
    and "rules (fst (fold withdraw ords (p, ab))) = rules p"
  using assms
proof (atomize(full), induction ords arbitrary: p ab x)
  case Nil
  have "\<not> working l" if "legs_of p x = Some l" for l
    using book_okD(4) [OF inv_book [OF Nil] that] by auto
  then show ?case by (cases "legs_of p x") auto
next
  case (Cons ord rest)
  obtain q ab' where q: "withdraw ord (p, ab) = (q, ab')" by fastforce
  have inv: "inv_with never rest q" using withdraw_step [OF Cons.prems, of ab] by (simp add: q)
  obtain l where l: "legs_of p (order_key ord) = Some l" "legs_of q = (legs_of p)(order_key ord \<mapsto> stood_down l)"
    "ab' = (if closing ord then List.insert (o_position ord) ab else ab)" "rules q = rules p"
    using withdraw_legs [OF Cons.prems, of ab] by (auto simp: q)
  have "map_option stood_down (legs_of q x) = map_option stood_down (legs_of p x)"
    using l(1) by (simp add: l(2))
  then show ?case using Cons.IH [OF inv, of ab' x] l(3,4) by (auto simp: q)
qed

lemma rearm_keeps: "rearm ab p r = Inr r' \<Longrightarrow> rule_position r' = rule_position r"
  by (auto simp: rearm_def split: if_splits sum.splits)

lemma rearm_loop:
  assumes "try_fold (\<lambda>r rs. case rearm ab p r of Inl e \<Rightarrow> Inl e | Inr r' \<Rightarrow> Inr (rs @ [r'])) rs acc = Inr out"
  shows "\<exists>new. out = acc @ new \<and> list_all2 (\<lambda>r r'. rearm ab p r = Inr r') rs new"
  using assms
proof (induction rs arbitrary: acc)
  case (Cons r rs)
  then obtain r' where r: "rearm ab p r = Inr r'"
    "try_fold (\<lambda>r rs. case rearm ab p r of Inl e \<Rightarrow> Inl e | Inr r' \<Rightarrow> Inr (rs @ [r'])) rs (acc @ [r']) = Inr out"
    by (auto split: sum.splits)
  from Cons.IH [OF r(2)] obtain new where "out = (acc @ [r']) @ new" "list_all2 (\<lambda>r r'. rearm ab p r = Inr r') rs new" by blast
  then show ?case using r(1) by (intro exI [of _ "r' # new"]) simp
qed simp

lemma rearm_positions:
  "list_all2 (\<lambda>r r'. rearm ab p r = Inr r') rs new \<Longrightarrow> map rule_position new = map rule_position rs"
proof (induction rs arbitrary: new)
  case (Cons r rs)
  then obtain r' new' where "new = r' # new'" "rearm ab p r = Inr r'" "list_all2 (\<lambda>r r'. rearm ab p r = Inr r') rs new'"
    by (auto simp: list_all2_Cons1)
  then show ?case using Cons.IH rearm_keeps by simp
qed simp

lemma cancel_working_orders_run:
  assumes run: "cancel_working_orders p = Inr (n, q)" and f: "fold withdraw (pending p) (p, []) = (p1, ab)"
  shows "n = length (pending p)" and "positions q = positions p1" and "pending q = []"
    and "trades q = trades p1" and "realized q = realized p1" and "total_costs q = total_costs p1"
    and "pf_delay q = pf_delay p1" and "list_all2 (\<lambda>r r'. rearm ab q r = Inr r') (rules p1) (rules q)"
proof -
  define p2 where "p2 = p1\<lparr>pending := [], cancelled_orders := cancelled_orders p1 + length (pending p)\<rparr>"
  have "cancel_working_orders p = (case try_fold (\<lambda>r rs. case rearm ab p2 r of Inl e \<Rightarrow> Inl e | Inr r' \<Rightarrow> Inr (rs @ [r'])) (rules p2) []
      of Inl e \<Rightarrow> Inl e | Inr rs \<Rightarrow> Inr (length (pending p), p2\<lparr>rules := rs\<rparr>))"
    by (simp only: cancel_working_orders_def Let_def f prod.case p2_def)
  with run obtain rs where rs: "try_fold (\<lambda>r rs. case rearm ab p2 r of Inl e \<Rightarrow> Inl e | Inr r' \<Rightarrow> Inr (rs @ [r'])) (rules p2) [] = Inr rs"
    and q: "q = p2\<lparr>rules := rs\<rparr>" and n: "n = length (pending p)"
    by (auto split: sum.splits)
  show "n = length (pending p)" "positions q = positions p1" "pending q = []" "trades q = trades p1"
    "realized q = realized p1" "total_costs q = total_costs p1" "pf_delay q = pf_delay p1"
    by (simp_all add: q n p2_def)
  have same: "rearm ab p2 = rearm ab q" by (rule ext) (simp add: rearm_def pf_at_def q)
  show "list_all2 (\<lambda>r r'. rearm ab q r = Inr r') (rules p1) (rules q)"
    unfolding same [symmetric] using rearm_loop [OF rs] by (simp add: q p2_def)
qed

lemma cancel_working_orders_laws:
  assumes inv: "portfolio_ok p" and run: "cancel_working_orders p = Inr (n, q)"
  shows "portfolio_ok q" and "pending q = []" and "n = length (pending p)"
    and "legs_of q x = map_option stood_down (legs_of p x)"
    and "list_all2 (\<lambda>r r'. rearm (snd (fold withdraw (pending p) (p, []))) q r = Inr r') (rules p) (rules q)"
proof -
  have inv': "inv_with never (pending p) p" using inv by (simp add: portfolio_ok_def)
  obtain p1 ab where f: "fold withdraw (pending p) (p, []) = (p1, ab)" by fastforce
  note q = cancel_working_orders_run [OF run f]
  have rules: "rules p1 = rules p" using withdraw_loop_legs(3) [OF inv', of "[]"] by (simp only: f fst_conv)
  show "list_all2 (\<lambda>r r'. rearm (snd (fold withdraw (pending p) (p, []))) q r = Inr r') (rules p) (rules q)"
    using q(8) by (simp only: f snd_conv rules)
  have "inv_with never [] p1" using withdraw_loop [OF inv', of "[]"] by (simp only: f fst_conv)
  then have "inv_with never [] q"
    using inv_with_cong [OF q(2,4,5,6,7) rearm_positions [OF q(8)]] by blast
  then show "portfolio_ok q" using q(3) by (simp add: portfolio_ok_def)
  show "pending q = []" "n = length (pending p)" by (rule q(3), rule q(1))
  show "legs_of q x = map_option stood_down (legs_of p x)"
    using withdraw_loop_legs(1) [OF inv', of "[]" x] legs_of_cong [OF q(2)] by (simp only: f fst_conv)
qed

section \<open>Risk rules\<close>

lemma attach_rule_ok:
  assumes inv: "portfolio_ok p" and run: "attach_rule r p = Inr q"
  shows "portfolio_ok q"
proof -
  have q: "q = p\<lparr>rules := rules p @ [r]\<rparr>" and r: "0 \<le> rule_position r" "nat (rule_position r) < length (positions p)"
    using run by (auto simp: attach_rule_def pf_at_def split: if_splits)
  have legs: "legs_of q = legs_of p" by (rule legs_of_cong) (simp add: q)
  have same: "trades q = trades p" "realized q = realized p" "total_costs q = total_costs p" "pf_delay q = pf_delay p"
    "positions q = positions p" "pending q = pending p" "rules q = rules p @ [r]" by (simp_all add: q)
  show ?thesis
    using inv r by (auto simp: portfolio_ok_def inv_with_def ledger_ok_def timing_ok_def shape_ok_def legs same)
qed

lemma mark_ok:
  assumes "portfolio_ok p" and "n < length (rules p)" and "rule_position r = rule_position (rules p ! n)"
    and "positions q = positions p" "trades q = trades p" "realized q = realized p" "total_costs q = total_costs p"
      "pf_delay q = pf_delay p" "rules q = (rules p)[n := r]" "pending q = pending p"
  shows "portfolio_ok q"
proof -
  have "map rule_position (rules q) = map rule_position (rules p)"
    using assms(2,3,9) by (simp add: map_update list_update_same_conv)
  from inv_with_cong [OF assms(4-8) this] show ?thesis using assms(1,10) by (simp add: portfolio_ok_def)
qed

text \<open>The outcomes of one iteration of the rule loop.\<close>

lemma run_rule_cases:
  assumes run: "run_rule mv n p = Inr q"
  defines "m \<equiv> p\<lparr>rules := (rules p)[n := (rules p ! n)\<lparr>fired := True\<rparr>]\<rparr>"
  defines "p1 \<equiv> m\<lparr>rules_fired := rules_fired p + 1, closing_from_rule := True\<rparr>"
  obtains (spent) "fired (rules p ! n)" "q = p"
  | (gone) pos where "\<not> fired (rules p ! n)" "pf_at p (rule_position (rules p ! n)) = Inr pos"
      "rule_stage (rules p ! n) pos = Spend" "q = m"
  | (waits) pos where "\<not> fired (rules p ! n)" "pf_at p (rule_position (rules p ! n)) = Inr pos"
      "rule_stage (rules p ! n) pos = Leave" "q = p"
  | (holds) pos where "\<not> fired (rules p ! n)" "pf_at p (rule_position (rules p ! n)) = Inr pos"
      "rule_stage (rules p ! n) pos = Armed" "rule_triggers (rules p ! n) pos mv = Inr False" "q = p"
  | (fires) pos p2 where "\<not> fired (rules p ! n)" "pf_at p (rule_position (rules p ! n)) = Inr pos"
      "rule_stage (rules p ! n) pos = Armed" "rule_triggers (rules p ! n) pos mv = Inr True"
      "(case rule_leg (rules p ! n) of
          Some k \<Rightarrow> submit_close_leg (rule_position (rules p ! n)) k (mv_now mv) p1
        | None \<Rightarrow> submit_close (rule_position (rules p ! n)) (mv_now mv) p1) = Inr p2"
      "q = p2\<lparr>closing_from_rule := False\<rparr>"
proof (cases "fired (rules p ! n)")
  case True
  then show ?thesis using run by (intro spent) (simp_all add: run_rule_def)
next
  case unfired: False
  have eq: "run_rule mv n p = (case pf_at p (rule_position (rules p ! n)) of Inl e \<Rightarrow> Inl e
    | Inr pos \<Rightarrow> (case rule_stage (rules p ! n) pos of Spend \<Rightarrow> Inr m | Leave \<Rightarrow> Inr p
      | Armed \<Rightarrow> (case rule_triggers (rules p ! n) pos mv of Inl e \<Rightarrow> Inl e | Inr False \<Rightarrow> Inr p
        | Inr True \<Rightarrow> (case (case rule_leg (rules p ! n) of
                Some k \<Rightarrow> submit_close_leg (rule_position (rules p ! n)) k (mv_now mv) p1
              | None \<Rightarrow> submit_close (rule_position (rules p ! n)) (mv_now mv) p1) of
            Inl e \<Rightarrow> Inl e | Inr p2 \<Rightarrow> Inr (p2\<lparr>closing_from_rule := False\<rparr>)))))"
    using unfired by (simp only: run_rule_def Let_def m_def p1_def if_False)
  obtain pos where at: "pf_at p (rule_position (rules p ! n)) = Inr pos"
    using run unfolding eq by (cases "pf_at p (rule_position (rules p ! n))") simp_all
  note eq' = run [unfolded eq at sum.case]
  show ?thesis
  proof (cases "rule_stage (rules p ! n) pos")
    case Leave
    then show ?thesis using eq' by (intro waits [OF unfired at]) simp_all
  next
    case Spend
    then show ?thesis using eq' by (intro gone [OF unfired at]) simp_all
  next
    case Armed
    obtain b where b: "rule_triggers (rules p ! n) pos mv = Inr b"
      using eq' by (cases "rule_triggers (rules p ! n) pos mv") (simp_all add: Armed)
    show ?thesis
    proof (cases b)
      case False
      then show ?thesis using eq' b by (intro holds [OF unfired at Armed]) (simp_all add: Armed)
    next
      case True
      note eq'' = eq' [unfolded Armed b rule_stage.case sum.case, unfolded eqTrueI [OF True] bool.case]
      show ?thesis
      proof (cases "case rule_leg (rules p ! n) of
                Some k \<Rightarrow> submit_close_leg (rule_position (rules p ! n)) k (mv_now mv) p1
              | None \<Rightarrow> submit_close (rule_position (rules p ! n)) (mv_now mv) p1")
        case (Inl e)
        show ?thesis using eq'' unfolding Inl by simp
      next
        case (Inr p2)
        show ?thesis
          by (rule fires [OF unfired at Armed _ Inr]) (use eq'' [unfolded Inr] b True in simp_all)
      qed
    qed
  qed
qed

lemma run_rule_ok:
  assumes inv: "portfolio_ok p" and n: "n < length (rules p)" and run: "run_rule mv n p = Inr q"
  shows "portfolio_ok q"
  using run
proof (cases rule: run_rule_cases)
  case (gone pos)
  show ?thesis by (rule mark_ok [OF inv n, of "(rules p ! n)\<lparr>fired := True\<rparr>"]) (simp_all add: gone)
next
  case (fires pos p2)
  have "portfolio_ok (p\<lparr>rules := (rules p)[n := (rules p ! n)\<lparr>fired := True\<rparr>], rules_fired := rules_fired p + 1,
      closing_from_rule := True\<rparr>)"
    by (rule mark_ok [OF inv n, of "(rules p ! n)\<lparr>fired := True\<rparr>"]) simp_all
  with fires(5) have "portfolio_ok p2"
    by (cases "rule_leg (rules p ! n)") (auto intro: submit_close_leg_ok submit_close_ok)
  moreover have "inv_with never (pending p2) q = inv_with never (pending p2) p2"
    by (rule inv_with_cong) (simp_all add: fires(6))
  ultimately show ?thesis by (simp add: portfolio_ok_def fires(6))
qed (use inv in simp_all)

lemma submit_close_rules: "submit_close i now p = Inr q \<Longrightarrow> rules q = rules p"
proof -
  assume run: "submit_close i now p = Inr q"
  obtain p1 keep where f: "fold (cancel_opening i) (pending p) (p, []) = (p1, keep)" by fastforce
  have "rules (fst (fold (cancel_opening i) ords s)) = rules (fst s)" for ords s
    by (induction ords arbitrary: s) (simp_all add: cancel_opening_frame)
  from this [of "pending p" "(p, [])"] have 1: "rules p1 = rules p" by (simp add: f)
  have r: "try_fold (\<lambda>k q. if leg_state (the_leg q i k) = Open then submit_close_leg i k now q else Inr q)
      [0..<length (pos_legs (positions (p1\<lparr>pending := keep\<rparr>) ! nat i))] (p1\<lparr>pending := keep\<rparr>) = Inr q"
    using run by (simp add: submit_close_def f split: sum.splits)
  have "rules q = rules p"
    by (rule try_fold_invariant [OF r, where P = "\<lambda>s. rules s = rules p"])
      (auto simp: 1 submit_close_leg_def submit_def split: if_splits sum.splits)
  then show ?thesis .
qed

end
