(* ===== verification/PortfolioRuns.thy ===== *)
theory PortfolioRuns
  imports PortfolioLaws
begin

text \<open>
  The public operations of the portfolio as a step relation, its reachable states, and the
  properties that hold in all of them.
\<close>

section \<open>The remaining operations\<close>

lemma submit_close_leg_frame:
  "submit_close_leg i k now p = Inr q \<Longrightarrow> rules q = rules p \<and> length (positions q) = length (positions p) \<and> leg_ref q = leg_ref p"
proof -
  assume run: "submit_close_leg i k now p = Inr q"
  obtain l where l: "legs_of p (i, k) = Some l"
    using run by (auto simp: submit_close_leg_def dest: pf_at_leg split: sum.splits)
  have "leg_ref (r\<lparr>pending := os\<rparr>) = leg_ref r" for r os by (rule ext) (simp add: leg_ref_def)
  moreover have "leg_ref (put_leg i k l' p) = leg_ref p" for l' by (rule ext) simp
  ultimately show ?thesis using run by (auto simp: submit_close_leg_eq [OF l] split: if_splits)
qed

lemma run_rule_length:
  assumes "run_rule mv n p = Inr q"
  shows "length (rules q) = length (rules p)"
  using assms
proof (cases rule: run_rule_cases)
  case (fires pos p2)
  then show ?thesis
    by (cases "rule_leg (rules p ! n)") (auto dest!: submit_close_leg_frame submit_close_rules)
qed simp_all

lemma process_risk_rules_ok:
  assumes inv: "portfolio_ok p" and run: "process_risk_rules mv p = Inr q"
  shows "portfolio_ok q"
proof -
  have "portfolio_ok q \<and> length (rules q) = length (rules p)"
    by (rule try_fold_invariant [where P = "\<lambda>s. portfolio_ok s \<and> length (rules s) = length (rules p)",
          OF run [unfolded process_risk_rules_def]])
      (use inv run_rule_ok run_rule_length in auto)
  then show ?thesis ..
qed

section \<open>Closing a position\<close>

definition close_out :: "leg \<Rightarrow> leg" where
  "close_out l =
     (if leg_state l = Open then l\<lparr>leg_state := PendingClose\<rparr>
      else if leg_state l = PendingOpen then l\<lparr>leg_state := Cancelled\<rparr> else l)"

definition cancel_one :: "leg \<Rightarrow> leg" where
  "cancel_one l = (if leg_state l = PendingOpen then l\<lparr>leg_state := Cancelled\<rparr> else l)"

definition close_one :: "leg \<Rightarrow> leg" where
  "close_one l = (if leg_state l = Open then l\<lparr>leg_state := PendingClose\<rparr> else l)"

lemma close_out_split: "close_out l = close_one (cancel_one l)"
  by (simp add: close_out_def close_one_def cancel_one_def)

lemma cancel_loop:
  assumes run: "fold (cancel_opening i) ords (p, ks) = (q, keep)"
    and refs: "\<And>ord. ord \<in> set ords \<Longrightarrow> leg_ref p (order_key ord) \<and>
        (\<not> closing ord \<longrightarrow> leg_state (the_leg p (o_position ord) (o_leg_index ord)) = PendingOpen)"
    and d: "distinct (map order_key ords)"
  shows "keep = ks @ filter (\<lambda>ord. \<not> (o_position ord = i \<and> \<not> closing ord)) ords"
    and "legs_of q x = legs_of p x \<or> fst x = i \<and> legs_of q x = map_option cancel_one (legs_of p x)"
    and "closing_from_rule q = closing_from_rule p"
  using assms
proof (atomize(full), induction ords arbitrary: p ks)
  case (Cons ord ords)
  show ?case
  proof (cases "o_position ord = i \<and> \<not> closing ord")
    case False
    then have "cancel_opening i ord (p, ks) = (p, ks @ [ord])" by (auto simp: cancel_opening_def)
    then have run': "fold (cancel_opening i) ords (p, ks @ [ord]) = (q, keep)"
      using Cons.prems(1) by simp
    have refs': "leg_ref p (order_key o') \<and>
        (\<not> closing o' \<longrightarrow> leg_state (the_leg p (o_position o') (o_leg_index o')) = PendingOpen)"
      if "o' \<in> set ords" for o' using Cons.prems(2) [of o'] that by simp
    have d': "distinct (map order_key ords)" using Cons.prems(3) by simp
    show ?thesis using Cons.IH [OF run' refs' d'] False by auto
  next
    case True
    let ?k = "o_leg_index ord"
    let ?l = "the_leg p i ?k"
    let ?p = "(put_leg i ?k (?l\<lparr>leg_state := Cancelled\<rparr>) p)\<lparr>cancelled_orders := cancelled_orders p + 1\<rparr>"
    have ref: "leg_ref p (i, ?k)" and st: "leg_state ?l = PendingOpen"
      using Cons.prems(2) [of ord] True by (auto simp: order_key_def)
    have "legs_of ?p = legs_of (put_leg i ?k (?l\<lparr>leg_state := Cancelled\<rparr>) p)" by (rule legs_of_cong) simp
    then have legs: "legs_of ?p = (legs_of p)((i, ?k) \<mapsto> cancel_one ?l)"
      using st by (simp add: legs_of_put [OF ref] cancel_one_def)
    have here: "legs_of p (i, ?k) = Some ?l" using ref by (simp add: legs_of_def)
    have refs: "leg_ref ?p (order_key o') \<and>
        (\<not> closing o' \<longrightarrow> leg_state (the_leg ?p (o_position o') (o_leg_index o')) = PendingOpen)"
      if o': "o' \<in> set ords" for o'
    proof -
      have "order_key ord \<notin> order_key ` set ords" using Cons.prems(3) by simp
      moreover have "order_key o' \<in> order_key ` set ords" using o' by (rule imageI)
      moreover have "order_key ord = (i, ?k)" using True by (simp add: order_key_def)
      ultimately have ne: "order_key o' \<noteq> (i, ?k)" by metis
      have r: "leg_ref p (order_key o')" using Cons.prems(2) [of o'] o' by simp
      have "legs_of ?p (order_key o') = legs_of p (order_key o')" using ne unfolding legs by simp
      then have "leg_ref ?p (order_key o') \<and> the_leg ?p (o_position o') (o_leg_index o') = the_leg p (o_position o') (o_leg_index o')"
        using r by (auto simp: legs_of_def order_key_def split: if_splits)
      then show ?thesis using Cons.prems(2) [of o'] o' by simp
    qed
    have "cancel_opening i ord (p, ks) = (?p, ks)" using True by (simp add: cancel_opening_def)
    then have run': "fold (cancel_opening i) ords (?p, ks) = (q, keep)"
      using Cons.prems(1) by simp
    have d': "distinct (map order_key ords)" using Cons.prems(3) by simp
    from Cons.IH [OF run' refs d']
    have IH: "keep = ks @ filter (\<lambda>ord. \<not> (o_position ord = i \<and> \<not> closing ord)) ords"
      "legs_of q x = legs_of ?p x \<or> fst x = i \<and> legs_of q x = map_option cancel_one (legs_of ?p x)"
      "closing_from_rule q = closing_from_rule ?p"
      by blast+
    have "cancel_one (cancel_one ?l) = cancel_one ?l" by (simp add: cancel_one_def)
    then have "legs_of q x = legs_of p x \<or> fst x = i \<and> legs_of q x = map_option cancel_one (legs_of p x)"
      using IH(2) here unfolding legs by (cases "x = (i, ?k)") auto
    then show ?thesis using IH(1,3) True by simp
  qed
qed simp

lemma close_loop:
  assumes "try_fold (\<lambda>k q. if leg_state (the_leg q i k) = Open then submit_close_leg i k now q else Inr q) [0..<n] p = Inr q"
    and "\<And>k. k < n \<Longrightarrow> leg_ref p (i, k)"
  shows "legs_of q x = (if fst x = i \<and> snd x < n then map_option close_one (legs_of p x) else legs_of p x)"
    and "leg_ref q = leg_ref p"
    and "\<exists>new. pending q = pending p @ new \<and> (\<forall>ord \<in> set new. closing ord \<and> o_from_rule ord = closing_from_rule p)"
    and "closing_from_rule q = closing_from_rule p"
  using assms
proof (atomize(full), induction n arbitrary: q x)
  case (Suc n)
  let ?f = "\<lambda>k q. if leg_state (the_leg q i k) = Open then submit_close_leg i k now q else Inr q"
  obtain r where r: "try_fold ?f [0..<n] p = Inr r" "?f n r = Inr q"
    using Suc.prems(1) by (auto simp: try_fold_append split: sum.splits)
  have ref: "leg_ref p (i, k)" if "k < n" for k using Suc.prems(2) that by simp
  have IH: "legs_of r x = (if fst x = i \<and> snd x < n then map_option close_one (legs_of p x) else legs_of p x)"
    "leg_ref r = leg_ref p" "\<exists>new. pending r = pending p @ new \<and> (\<forall>ord \<in> set new. closing ord \<and> o_from_rule ord = closing_from_rule p)"
    "closing_from_rule r = closing_from_rule p" for x
    using Suc.IH [OF r(1) ref] by blast+
  obtain new where new: "pending r = pending p @ new"
    "\<forall>ord \<in> set new. closing ord \<and> o_from_rule ord = closing_from_rule p" using IH(3) by blast
  have "leg_ref p (i, n)" using Suc.prems(2) by simp
  then have lr: "legs_of r (i, n) = Some (the_leg r i n)" by (simp add: legs_of_def IH(2))
  show ?case
  proof (cases "leg_state (the_leg r i n) = Open")
    case False
    have "close_one (the_leg r i n) = the_leg r i n" using False by (simp add: close_one_def)
    then have "map_option close_one (legs_of p (i, n)) = legs_of p (i, n)"
      using lr IH(1) [of "(i, n)"] by auto
    then have "legs_of r x = (if fst x = i \<and> snd x < Suc n then map_option close_one (legs_of p x) else legs_of p x)"
      using IH(1) [of x] by (cases "x = (i, n)") (auto simp: less_Suc_eq)
    moreover have "q = r" using r(2) False by simp
    ultimately show ?thesis using IH(2,4) new by auto
  next
    case True
    let ?l = "(the_leg r i n)\<lparr>leg_state := PendingClose\<rparr>"
    have q: "q = (put_leg i n ?l r)\<lparr>pending := pending r @ [close_order r i n now]\<rparr>"
      using r(2) True by (simp add: submit_close_leg_eq [OF lr])
    have "legs_of q = legs_of (put_leg i n ?l r)" by (rule legs_of_cong) (simp add: q)
    then have legs: "legs_of q = (legs_of r)((i, n) \<mapsto> close_one (the_leg r i n))"
      using lr True by (simp add: legs_of_put legs_of_Some close_one_def)
    have "legs_of q x = (if fst x = i \<and> snd x < Suc n then map_option close_one (legs_of p x) else legs_of p x)"
    proof (cases "x = (i, n)")
      case True
      have "legs_of p (i, n) = Some (the_leg r i n)" using lr IH(1) [of "(i, n)"] by simp
      then show ?thesis by (simp add: True legs)
    next
      case False
      then show ?thesis using IH(1) [of x] by (cases x) (auto simp: legs less_Suc_eq)
    qed
    moreover have "leg_ref q = leg_ref p"
      using submit_close_leg_frame [of i n now r q] r(2) True IH(2) by simp
    moreover have "pending q = pending p @ (new @ [close_order r i n now])" "closing (close_order r i n now)"
      "o_from_rule (close_order r i n now) = closing_from_rule p"
      by (simp_all add: q new close_order_def Let_def IH(4))
    moreover have "closing_from_rule q = closing_from_rule p" using IH(4) by (simp add: q)
    ultimately show ?thesis using new(2)
      by (intro conjI exI [of _ "new @ [close_order r i n now]"]) auto
  qed
qed simp

lemma submit_close_laws:
  assumes inv: "portfolio_ok p" and run: "submit_close i now p = Inr q"
  shows "legs_of q x = (if fst x = i then map_option close_out (legs_of p x) else legs_of p x)"
    and "\<exists>new. pending q = filter (\<lambda>ord. \<not> (o_position ord = i \<and> \<not> closing ord)) (pending p) @ new \<and>
      (\<forall>ord \<in> set new. closing ord \<and> o_from_rule ord = closing_from_rule p)"
    and "closing_from_rule q = closing_from_rule p"
proof -
  obtain p1 keep where f: "fold (cancel_opening i) (pending p) (p, []) = (p1, keep)" by fastforce
  define p2 where "p2 = p1\<lparr>pending := keep\<rparr>"
  have r: "try_fold (\<lambda>k q. if leg_state (the_leg q i k) = Open then submit_close_leg i k now q else Inr q)
      [0..<length (pos_legs (positions p2 ! nat i))] p2 = Inr q"
    using run by (simp add: submit_close_def f p2_def split: sum.splits)
  have refs: "leg_ref p (order_key ord) \<and>
        (\<not> closing ord \<longrightarrow> leg_state (the_leg p (o_position ord) (o_leg_index ord)) = PendingOpen)"
    if ord: "ord \<in> set (pending p)" for ord
  proof -
    obtain l where "legs_of p (order_key ord) = Some l" "order_matches never (pf_delay p) ord l"
      using inv book_okD(2) [OF inv_book ord] unfolding portfolio_ok_def by blast
    then show ?thesis by (auto simp: legs_of_Some order_key_def order_matches_def)
  qed
  have d: "distinct (map order_key (pending p))"
    using inv book_okD(1) [OF inv_book] unfolding portfolio_ok_def by blast
  note c = cancel_loop [OF f refs d]
  have ok2: "portfolio_ok p2" unfolding p2_def by (rule cancel_sweep [OF inv f])
  have legs12: "legs_of p2 = legs_of p1" by (rule legs_of_cong) (simp add: p2_def)
  have open_none: "\<not> (fst y = i \<and> leg_state l = PendingOpen)" if l: "legs_of p2 y = Some l" for y l
  proof
    assume a: "fst y = i \<and> leg_state l = PendingOpen"
    have book: "book_ok never (pf_delay p2) (legs_of p2) keep" using ok2 by (simp add: portfolio_ok_def inv_with_def p2_def)
    obtain ord where o: "ord \<in> set keep" "order_key ord = y"
      using book_okD(4) [OF book l] a by (auto simp: working_def)
    have "\<not> closing ord"
      using book_okD(2) [OF book o(1)] a l by (auto simp: o(2) order_matches_def never_def)
    moreover have "o_position ord = i" using o(2) a by (auto simp: order_key_def)
    ultimately show False using o(1) c(1) by auto
  qed
  have p2: "legs_of p2 y = (if fst y = i then map_option cancel_one (legs_of p y) else legs_of p y)" for y
    using c(2) [of y] open_none [of y] by (cases "legs_of p y") (auto simp: legs12 cancel_one_def)
  have ex: "0 \<le> i \<and> nat i < length (positions p)" using run by (auto simp: submit_close_def pf_at_def split: if_splits)
  have dom: "leg_ref p2 y = (legs_of p2 y \<noteq> None)" for y by (simp add: legs_of_def)
  have len: "length (positions p2) = length (positions p)"
  proof -
    have "length (positions (fst (fold (cancel_opening i) ords s))) = length (positions (fst s))" for ords s
      by (induction ords arbitrary: s) (simp_all add: cancel_opening_frame)
    from this [of "pending p" "(p, [])"] show ?thesis by (simp add: p2_def f)
  qed
  have bound: "k < length (pos_legs (positions p2 ! nat i)) \<longleftrightarrow> leg_ref p2 (i, k)" for k
    using ex len by (simp add: leg_ref_def)
  note cl = close_loop [OF r bound [THEN iffD1]]
  have "\<not> snd x < length (pos_legs (positions p2 ! nat i)) \<Longrightarrow> fst x = i \<Longrightarrow> legs_of p2 x = None"
    using bound [of "snd x"] by (cases x) (simp add: legs_of_def)
  then show "legs_of q x = (if fst x = i then map_option close_out (legs_of p x) else legs_of p x)"
    using cl(1) [of x] p2 [of x] by (auto simp: option.map_comp comp_def close_out_split [abs_def])
  show "\<exists>new. pending q = filter (\<lambda>ord. \<not> (o_position ord = i \<and> \<not> closing ord)) (pending p) @ new \<and>
      (\<forall>ord \<in> set new. closing ord \<and> o_from_rule ord = closing_from_rule p)"
    using cl(3) c(1,3) by (simp add: p2_def)
  show "closing_from_rule q = closing_from_rule p" using cl(4) c(3) by (simp add: p2_def)
qed

section \<open>Nothing throws\<close>

lemma submit_close_leg_total:
  assumes "leg_ref p (i, k)"
  shows "\<exists>q. submit_close_leg i k now p = Inr q"
  using assms submit_close_leg_eq [of p i k "the_leg p i k" now] by (simp add: legs_of_def)

lemma submit_close_total:
  assumes inv: "portfolio_ok p" and i: "0 \<le> i" "nat i < length (positions p)"
  shows "\<exists>q. submit_close i now p = Inr q"
proof -
  obtain p1 keep where f: "fold (cancel_opening i) (pending p) (p, []) = (p1, keep)" by fastforce
  define p2 where "p2 = p1\<lparr>pending := keep\<rparr>"
  have "length (positions (fst (fold (cancel_opening i) ords s))) = length (positions (fst s))" for ords s
    by (induction ords arbitrary: s) (simp_all add: cancel_opening_frame)
  from this [of "pending p" "(p, [])"] have len: "length (positions p2) = length (positions p)" by (simp add: p2_def f)
  have "\<exists>q. try_fold (\<lambda>k q. if leg_state (the_leg q i k) = Open then submit_close_leg i k now q else Inr q)
      [0..<length (pos_legs (positions p2 ! nat i))] p2 = Inr q \<and> leg_ref q = leg_ref p2"
  proof (rule try_fold_total [where P = "\<lambda>s. leg_ref s = leg_ref p2"])
    fix k s
    assume k: "k \<in> set [0..<length (pos_legs (positions p2 ! nat i))]" and s: "leg_ref s = leg_ref p2"
    have "leg_ref p2 (i, k)" using k i len by (simp add: leg_ref_def)
    then have ref: "leg_ref s (i, k)" by (simp add: s)
    show "\<exists>t. (if leg_state (the_leg s i k) = Open then submit_close_leg i k now s else Inr s) = Inr t \<and> leg_ref t = leg_ref p2"
      using submit_close_leg_total [OF ref, of now] submit_close_leg_frame s by fastforce
  qed simp
  then show ?thesis using i by (auto simp: submit_close_def pf_at_def f p2_def)
qed

lemma pf_at_total: "0 \<le> i \<Longrightarrow> nat i < length (positions p) \<Longrightarrow> pf_at p i = Inr (positions p ! nat i)"
  by (auto simp: pf_at_def)

lemma run_rule_total:
  assumes inv: "portfolio_ok p" and n: "n < length (rules p)"
  shows "\<exists>q. run_rule mv n p = Inr q"
proof -
  let ?r = "rules p ! n"
  let ?i = "rule_position ?r"
  let ?pos = "positions p ! nat ?i"
  have i: "0 \<le> ?i" "nat ?i < length (positions p)"
    using inv n by (auto simp: portfolio_ok_def inv_with_def shape_ok_def)
  define p1 where "p1 = p\<lparr>rules := (rules p)[n := ?r\<lparr>fired := True\<rparr>], rules_fired := rules_fired p + 1, closing_from_rule := True\<rparr>"
  have p1: "portfolio_ok p1" by (rule mark_ok [OF inv n, of "?r\<lparr>fired := True\<rparr>"]) (simp_all add: p1_def)
  show ?thesis
  proof (cases "fired ?r \<or> rule_stage ?r ?pos \<noteq> Armed")
    case True
    then show ?thesis
      by (cases "rule_stage ?r ?pos") (auto simp: run_rule_def Let_def pf_at_total [OF i])
  next
    case False
    have leg: "k < length (pos_legs ?pos)" if "rule_leg ?r = Some k" for k
      using False that by (simp add: rule_stage_def split: if_splits)
    have pct: "\<exists>v. pnl_pct_of ?pos k mv = Inr v" if "k < length (pos_legs ?pos)" for k
      using that by (simp add: pnl_pct_of_def leg_at_def nth_opt_def Let_def)
    obtain b where b: "rule_triggers ?r ?pos mv = Inr b"
    proof (cases "rule_leg ?r")
      case None
      then show ?thesis using that by (cases "rule_kind ?r") (auto simp: rule_triggers_def)
    next
      case (Some k)
      obtain v where "pnl_pct_of ?pos k mv = Inr v" using pct [OF leg [OF Some]] by blast
      then show ?thesis using that Some by (cases "rule_kind ?r") (auto simp: rule_triggers_def)
    qed
    have "\<exists>p2. (case rule_leg ?r of Some k \<Rightarrow> submit_close_leg ?i k (mv_now mv) p1
        | None \<Rightarrow> submit_close ?i (mv_now mv) p1) = Inr p2"
    proof (cases "rule_leg ?r")
      case None
      then show ?thesis using submit_close_total [OF p1, of ?i] i by (simp add: p1_def)
    next
      case (Some k)
      have "leg_ref p1 (?i, k)" using i leg [OF Some] by (simp add: p1_def leg_ref_def)
      from submit_close_leg_total [OF this] show ?thesis by (simp add: Some)
    qed
    then obtain p2 where p2: "(case rule_leg ?r of Some k \<Rightarrow> submit_close_leg ?i k (mv_now mv) p1
        | None \<Rightarrow> submit_close ?i (mv_now mv) p1) = Inr p2" by blast
    have "run_rule mv n p = (case b of False \<Rightarrow> Inr p | True \<Rightarrow> Inr (p2\<lparr>closing_from_rule := False\<rparr>))"
      using False p2 [unfolded p1_def]
      by (cases b; cases "rule_leg ?r") (simp_all add: run_rule_def Let_def pf_at_total [OF i] b)
    then show ?thesis by (cases b) simp_all
  qed
qed

lemma process_risk_rules_total:
  assumes "portfolio_ok p"
  shows "\<exists>q. process_risk_rules mv p = Inr q"
proof -
  have "\<exists>q. process_risk_rules mv p = Inr q \<and> portfolio_ok q \<and> length (rules q) = length (rules p)"
    unfolding process_risk_rules_def
  proof (rule try_fold_total [where P = "\<lambda>s. portfolio_ok s \<and> length (rules s) = length (rules p)"])
    fix n s
    assume "n \<in> set [0..<length (rules p)]" and s: "portfolio_ok s \<and> length (rules s) = length (rules p)"
    then have n: "n < length (rules s)" by simp
    obtain t where t: "run_rule mv n s = Inr t" using run_rule_total [of s n] s n by blast
    show "\<exists>t. run_rule mv n s = Inr t \<and> portfolio_ok t \<and> length (rules t) = length (rules p)"
      using t run_rule_ok [OF _ n t] run_rule_length [OF t] s by simp
  qed (use assms in simp)
  then show ?thesis by blast
qed

lemma cancel_working_orders_total:
  assumes inv: "portfolio_ok p"
  shows "\<exists>n q. cancel_working_orders p = Inr (n, q)"
proof -
  obtain p1 ab where f: "fold withdraw (pending p) (p, []) = (p1, ab)" by fastforce
  define p2 where "p2 = p1\<lparr>pending := [], cancelled_orders := cancelled_orders p1 + length (pending p)\<rparr>"
  have inv': "inv_with never (pending p) p" using inv by (simp add: portfolio_ok_def)
  have "inv_with never [] p1" using withdraw_loop [OF inv', of "[]"] by (simp only: f fst_conv)
  then have "shape_ok p1" by (simp add: inv_with_def)
  then have at: "\<exists>pos. pf_at p2 (rule_position r) = Inr pos" if "r \<in> set (rules p2)" for r
    using that pf_at_total [of "rule_position r" p2] by (auto simp: shape_ok_def p2_def)
  have "\<exists>rs. try_fold (\<lambda>r rs. case rearm ab p2 r of Inl e \<Rightarrow> Inl e | Inr r' \<Rightarrow> Inr (rs @ [r'])) (rules p2) [] = Inr rs \<and> True"
  proof (rule try_fold_total [where P = "\<lambda>_. True"])
    fix r rs
    assume "r \<in> set (rules p2)"
    then obtain pos where pos: "pf_at p2 (rule_position r) = Inr pos" using at by blast
    show "\<exists>out. (case rearm ab p2 r of Inl e \<Rightarrow> Inl e | Inr r' \<Rightarrow> Inr (rs @ [r'])) = Inr out \<and> True"
      by (cases "is_open pos") (auto simp: rearm_def pos)
  qed simp
  then obtain rs where rs: "try_fold (\<lambda>r rs. case rearm ab p2 r of Inl e \<Rightarrow> Inl e | Inr r' \<Rightarrow> Inr (rs @ [r'])) (rules p2) [] = Inr rs"
    by blast
  have "cancel_working_orders p = (case try_fold (\<lambda>r rs. case rearm ab p2 r of Inl e \<Rightarrow> Inl e | Inr r' \<Rightarrow> Inr (rs @ [r'])) (rules p2) []
      of Inl e \<Rightarrow> Inl e | Inr rs \<Rightarrow> Inr (length (pending p), p2\<lparr>rules := rs\<rparr>))"
    by (simp only: cancel_working_orders_def Let_def f prod.case p2_def)
  then show ?thesis by (simp add: rs)
qed

section \<open>Totals as sums over the legs\<close>

lemma distinct_leg_indices: "distinct (leg_indices p)"
proof -
  let ?row = "\<lambda>i. map (\<lambda>k. (int i, k)) [0..<length (pos_legs (positions p ! i))]"
  have "distinct (concat (map ?row is))" if "distinct is" for "is"
    using that by (induction "is") (auto simp: distinct_map inj_on_def)
  then show ?thesis by (simp add: leg_indices_def)
qed

lemma leg_sum_positions:
  "leg_sum f (legs_of p) = sum_list (map f (concat (map pos_legs (positions p))))"
proof -
  have "dom (legs_of p) = set (leg_indices p)" by (auto simp: legs_of_def leg_indices_ref dom_def)
  then have "leg_sum f (legs_of p) = sum_list (map (\<lambda>x. f (the (legs_of p x))) (leg_indices p))"
    by (simp add: leg_sum_def sum_list_distinct_conv_sum_set [OF distinct_leg_indices])
  also have "\<dots> = sum_list (map (\<lambda>x. f (the_leg p (fst x) (snd x))) (leg_indices p))"
    by (intro arg_cong [of _ _ sum_list] map_cong) (simp_all add: leg_indices_ref legs_of_def)
  also have "map (\<lambda>x. f (the_leg p (fst x) (snd x))) (leg_indices p) =
      map f (concat (map (\<lambda>i. map (\<lambda>k. pos_legs (positions p ! i) ! k) [0..<length (pos_legs (positions p ! i))]) [0..<length (positions p)]))"
    by (simp add: leg_indices_def map_concat the_leg_def comp_def)
  also have "\<dots> = map f (concat (map (\<lambda>i. pos_legs (positions p ! i)) [0..<length (positions p)]))"
    by (simp add: map_nth)
  also have "map (\<lambda>i. pos_legs (positions p ! i)) [0..<length (positions p)] = map pos_legs (positions p)"
    by (rule nth_equalityI) simp_all
  finally show ?thesis .
qed

text \<open>What a leg that is not closed contributes to \<open>unrealized\<close>.\<close>

definition open_pnl :: "market_view \<Rightarrow> leg \<Rightarrow> int" where
  "open_pnl mv l = (if leg_state l = Closed then 0 else amount (pnl_of_leg l mv))"

lemma unrealized_sum: "amount (unrealized mv p) = leg_sum (open_pnl mv) (legs_of p)"
proof -
  have inner: "amount (fold (\<lambda>l m. if leg_state l = Closed then m else m + pnl_of_leg l mv) ls m) =
      amount m + sum_list (map (open_pnl mv) ls)" for ls m
    by (induction ls arbitrary: m) (simp_all add: open_pnl_def)
  have "amount (fold (\<lambda>pos m. fold (\<lambda>l m. if leg_state l = Closed then m else m + pnl_of_leg l mv) (pos_legs pos) m) ps m) =
      amount m + sum_list (map (open_pnl mv) (concat (map pos_legs ps)))" for ps m
    by (induction ps arbitrary: m) (simp_all add: inner)
  from this [of "positions p" 0] show ?thesis by (simp add: unrealized_def leg_sum_positions)
qed

text \<open>What a live leg is worth: its mark, or its entry when there is no valuation at all.\<close>

definition liquidation :: "market_view \<Rightarrow> leg \<Rightarrow> int" where
  "liquidation mv l =
     (if \<not> live l then 0
      else if minor (mark_for l mv) < 0 then minor (entry l) * leg_qty l
      else minor (mark_for l mv) * leg_qty l)"

lemma leg_pnl_split: "closed_pnl l + open_pnl mv l = leg_cash l + liquidation mv l"
  by (cases "leg_state l")
    (auto simp: closed_pnl_def open_pnl_def leg_cash_def liquidation_def pnl_of_leg_def filled_def live_def
      Let_def algebra_simps)

lemma leg_sum_add: "leg_sum f m + leg_sum g m = leg_sum (\<lambda>l. f l + g l) m"
  by (simp add: leg_sum_def sum.distrib)

lemma equity_split:
  assumes "ledger_ok p"
  shows "amount (equity mv p) = sum_list (map trade_cash (trades p)) - sum_list (map (\<lambda>t. amount (t_cost t)) (trades p)) +
    sum_list (map (liquidation mv) (concat (map pos_legs (positions p))))"
proof -
  have "amount (equity mv p) = leg_sum closed_pnl (legs_of p) + leg_sum (open_pnl mv) (legs_of p) - amount (total_costs p)"
    using assms by (simp add: equity_def ledger_ok_def unrealized_sum)
  also have "leg_sum closed_pnl (legs_of p) + leg_sum (open_pnl mv) (legs_of p) =
      leg_sum leg_cash (legs_of p) + leg_sum (liquidation mv) (legs_of p)"
    by (simp add: leg_sum_add leg_pnl_split)
  also have "leg_sum leg_cash (legs_of p) = sum_list (map trade_cash (trades p))"
    using assms by (simp add: ledger_ok_def)
  also have "amount (total_costs p) = sum_list (map (\<lambda>t. amount (t_cost t)) (trades p))"
    using assms by (simp add: ledger_ok_def comp_def)
  finally show ?thesis by (simp add: leg_sum_positions)
qed

section \<open>Steps and reachable portfolios\<close>

inductive pf_step :: "portfolio \<Rightarrow> portfolio \<Rightarrow> bool" where
  opened: "length (positions p) < 2 ^ 31 \<Longrightarrow> submit_open lbl insts sd n now p = Inr (i, q) \<Longrightarrow> pf_step p q"
| closed: "submit_close i now p = Inr q \<Longrightarrow> pf_step p q"
| leg_closed: "submit_close_leg i k now p = Inr q \<Longrightarrow> pf_step p q"
| stopped: "attach_stop_loss i lg pct p = Inr q \<Longrightarrow> pf_step p q"
| targeted: "attach_take_profit i lg pct p = Inr q \<Longrightarrow> pf_step p q"
| timed: "attach_exit_at i lg whn p = Inr q \<Longrightarrow> pf_step p q"
| filled: "process_pending mv p = Inr q \<Longrightarrow> pf_step p q"
| ruled: "process_risk_rules mv p = Inr q \<Longrightarrow> pf_step p q"
| marked: "pf_step p (refresh_marks mv p)"
| settled: "settle_expiry mv ex level whn p = Inr (m, q) \<Longrightarrow> pf_step p q"
| stood_down: "cancel_working_orders p = Inr (m, q) \<Longrightarrow> pf_step p q"

inductive_simps pf_step_iff: "pf_step p q"

inductive pf_reach :: "portfolio \<Rightarrow> bool" where
  start: "new_portfolio fills delay costs = Inr p \<Longrightarrow> pf_reach p"
| step: "pf_reach p \<Longrightarrow> pf_step p q \<Longrightarrow> pf_reach q"

lemma new_portfolio_ok:
  assumes "new_portfolio fills delay costs = Inr p"
  shows "portfolio_ok p"
proof -
  have new: "positions p = []" "pending p = []" "rules p = []" "trades p = []" "realized p = 0"
    "total_costs p = 0" "0 \<le> pf_delay p"
    using assms by (auto simp: new_portfolio_def split: option.splits if_splits)
  then have "legs_of p = Map.empty" by (intro ext) (auto simp: legs_of_def leg_ref_def)
  then show ?thesis
    using new by (simp add: portfolio_ok_def inv_with_def book_ok_def ledger_ok_def timing_ok_def shape_ok_def leg_sum_def)
qed

lemma attach_ok:
  "portfolio_ok p \<Longrightarrow> attach_stop_loss i lg pct p = Inr q \<Longrightarrow> portfolio_ok q"
  "portfolio_ok p \<Longrightarrow> attach_take_profit i lg pct p = Inr q \<Longrightarrow> portfolio_ok q"
  "portfolio_ok p \<Longrightarrow> attach_exit_at i lg whn p = Inr q \<Longrightarrow> portfolio_ok q"
  by (auto simp: attach_stop_loss_def attach_take_profit_def attach_exit_at_def split: if_splits intro: attach_rule_ok)

lemmas op_ok = submit_open_ok submit_close_ok submit_close_leg_ok attach_ok process_pending_ok
  process_risk_rules_ok refresh_marks_ok settle_expiry_laws(1) cancel_working_orders_laws(1)

lemma pf_step_ok: "pf_step p q \<Longrightarrow> portfolio_ok p \<Longrightarrow> portfolio_ok q"
  by (induction rule: pf_step.induct) (blast intro: op_ok)+

lemma pf_reach_ok: "pf_reach p \<Longrightarrow> portfolio_ok p"
  by (induction rule: pf_reach.induct) (blast intro: new_portfolio_ok pf_step_ok)+

section \<open>A concrete history\<close>

text \<open>One call option, sold and filled at the bid; it gives the properties their witnesses.\<close>

definition demo_spec :: instrument_spec where
  "demo_spec = \<lparr>spec_id = InstrumentId 0, underlying = UnderlyingId 0, kind = Option, expiry = Date 20250703,
     strike = Price 10000, right_of = Call, lot_size = 75, tick_size = Price 5\<rparr>"

definition demo_quote :: quote where
  "demo_quote = \<lparr>q_ts = Timestamp 0, q_last = Price 102, q_bid = Price 100, q_ask = Price 104, q_bid_qty = 500,
     q_ask_qty = 500, q_last_qty = 10, q_open_interest = 0\<rparr>"

definition demo_view :: "int \<Rightarrow> market_view" where
  "demo_view t = \<lparr>mv_now = Timestamp t, mv_registry = empty_registry\<lparr>specs := [demo_spec]\<rparr>,
     mv_quote = (\<lambda>i n. Inr (Some demo_quote)), mv_has_quote = (\<lambda>_. True)\<rparr>"

lemma demo_latest [simp]: "latest (demo_view t) i = Some demo_quote"
  by (simp add: latest_def demo_view_def)

lemma demo_spec_of [simp]: "spec (mv_registry (demo_view t)) (InstrumentId 0) = Inr demo_spec"
  by (simp add: demo_view_def spec_def)

lemma demo_now [simp]: "mv_now (demo_view t) = Timestamp t"
  by (simp add: demo_view_def)

definition demo_start :: portfolio where
  "demo_start = \<lparr>pf_fills = cross_spread, pf_delay = 10, positions = [], pending = [], rules = [], trades = [],
     realized = 0, pf_costs = no_costs, total_costs = 0, illiquid_fills = 0, oversized_fills = 0,
     cancelled_orders = 0, settled_legs = 0, rules_fired = 0, closing_from_rule = False\<rparr>"

definition demo_asked :: portfolio where
  "demo_asked = demo_start\<lparr>positions := [\<lparr>pos_id = 0, pos_label = ''short'', pos_legs = [new_leg (InstrumentId 0) (- 75)]\<rparr>],
     pending := [\<lparr>o_position = 0, o_leg_index = 0, o_instrument = InstrumentId 0, o_side = Sell, o_qty = 75,
       submitted_at = Timestamp 5, eligible_at = Timestamp 15, closing = False, o_from_rule = False\<rparr>]\<rparr>"

definition demo_leg :: leg where
  "demo_leg = (new_leg (InstrumentId 0) (- 75))\<lparr>leg_state := Open, entry := Price 100, entry_ts := Timestamp 20\<rparr>"

definition demo_trade :: trade_record where
  "demo_trade = \<lparr>signal_ts = Timestamp 5, fill_ts = Timestamp 20, t_position = 0, t_instrument = InstrumentId 0,
     t_side = Sell, t_qty = 75, t_price = Price 100, t_cost = 0, t_illiquid = is_illiquid cross_spread demo_quote,
     t_from_rule = False, t_oversized = False, t_settled = False\<rparr>"

definition demo_filled :: portfolio where
  "demo_filled = demo_start\<lparr>positions := [\<lparr>pos_id = 0, pos_label = ''short'', pos_legs = [demo_leg]\<rparr>],
     trades := [demo_trade], illiquid_fills := (if is_illiquid cross_spread demo_quote then 1 else 0)\<rparr>"

lemma demo_start_reach: "pf_reach demo_start"
proof (rule pf_reach.start)
  show "new_portfolio (Some cross_spread) 10 (Some no_costs) = Inr demo_start"
    by (simp add: new_portfolio_def demo_start_def)
qed

lemma demo_asked_reach: "pf_reach demo_asked"
proof (rule pf_reach.step [OF demo_start_reach pf_step.opened])
  show "submit_open ''short'' [InstrumentId 0] Sell 75 (Timestamp 5) demo_start = Inr (0, demo_asked)"
    by (simp add: submit_open_def open_leg_def submit_def demo_start_def demo_asked_def Let_def to_i32_def)
qed (simp add: demo_start_def)

lemma demo_filled_reach: "pf_reach demo_filled"
proof (rule pf_reach.step [OF demo_asked_reach pf_step.filled])
  show "process_pending (demo_view 20) demo_asked = Inr demo_filled"
    by (simp add: process_pending_def fill_order_def demo_asked_def demo_start_def demo_filled_def demo_leg_def
        demo_trade_def cross_spread_def [THEN arg_cong [where f = fm_fill]] cross_spread_fill_def two_sided_def
        demo_quote_def [THEN arg_cong [where f = q_bid]] demo_quote_def [THEN arg_cong [where f = q_ask]]
        demo_quote_def [THEN arg_cong [where f = q_bid_qty]] is_oversized_def put_leg_def the_leg_def no_costs_def
        new_leg_def Let_def zero_money_def plus_money_def)
qed

lemma demo_legs: "legs_of demo_filled x = (if x = (0, 0) then Some demo_leg else None)"
  by (cases x) (auto simp: legs_of_def leg_ref_def the_leg_def demo_filled_def nth_Cons')

lemma demo_asked_legs: "legs_of demo_asked x = (if x = (0, 0) then Some (new_leg (InstrumentId 0) (- 75)) else None)"
  by (cases x) (auto simp: legs_of_def leg_ref_def the_leg_def demo_asked_def nth_Cons')

section \<open>Properties\<close>

text \<open>C10: in every reachable portfolio the pending orders and the legs agree.  No leg has two
  orders; an order names an existing leg, its instrument and its size, waits for exactly the
  configured delay, and closes a leg that is \<open>PendingClose\<close> or opens one that is \<open>PendingOpen\<close>,
  on the right side; and every leg in one of these two states has its order.\<close>

theorem orders_work_their_legs:
  assumes "pf_reach p"
  shows "distinct (map order_key (pending p)) \<and>
    (\<forall>ord \<in> set (pending p). \<exists>l. legs_of p (order_key ord) = Some l \<and>
       o_instrument ord = leg_instrument l \<and> o_qty ord = \<bar>leg_qty l\<bar> \<and>
       eligible_at ord = Timestamp (nanos (submitted_at ord) + pf_delay p) \<and>
       leg_state l = (if closing ord then PendingClose else PendingOpen) \<and>
       o_side ord = (if closing ord then closing_side l else opposite (closing_side l))) \<and>
    (\<forall>x l. legs_of p x = Some l \<and> (leg_state l = PendingOpen \<or> leg_state l = PendingClose) \<longrightarrow>
       (\<exists>ord \<in> set (pending p). order_key ord = x))"
proof -
  have book: "book_ok never (pf_delay p) (legs_of p) (pending p)"
    using pf_reach_ok [OF assms] by (simp add: portfolio_ok_def inv_with_def)
  note D = book_okD [OF book]
  have "o_instrument ord = leg_instrument l \<and> o_qty ord = \<bar>leg_qty l\<bar> \<and>
       eligible_at ord = Timestamp (nanos (submitted_at ord) + pf_delay p) \<and>
       leg_state l = (if closing ord then PendingClose else PendingOpen) \<and>
       o_side ord = (if closing ord then closing_side l else opposite (closing_side l))"
    if "order_matches never (pf_delay p) ord l" for ord l
    using that by (simp add: order_matches_def never_def split: if_splits)
  moreover have "\<exists>ord \<in> set (pending p). order_key ord = x"
    if "legs_of p x = Some l" "leg_state l = PendingOpen \<or> leg_state l = PendingClose" for x l
    using D(4) [OF that(1)] that(2) by (simp add: working_def)
  ultimately show ?thesis using D(1,2) by fast
qed

theorem orders_work_their_legs_witness:
  "\<exists>ord \<in> set (pending demo_asked). order_key ord = (0, 0)"
  using orders_work_their_legs [OF demo_asked_reach] by (simp add: demo_asked_legs new_leg_def)

text \<open>C11: the books balance.  In every reachable portfolio the realised total is the sum over the
  closed legs of exit less entry, the cost total is the sum of the costs in the trade log, and
  equity at any market is the net cash of the trade log, less its costs, plus what the live legs
  would fetch at their marks.\<close>

theorem equity_is_cash_plus_liquidation:
  assumes "pf_reach p"
  shows "amount (realized p) = sum_list (map (\<lambda>l. if leg_state l = Closed
      then (minor (exit l) - minor (entry l)) * leg_qty l else 0) (concat (map pos_legs (positions p)))) \<and>
    total_costs p = sum_list (map t_cost (trades p)) \<and>
    amount (equity mv p) =
      sum_list (map (\<lambda>t. (if t_side t = Sell then 1 else - 1) * (minor (t_price t) * t_qty t)) (trades p)) -
      sum_list (map (\<lambda>t. amount (t_cost t)) (trades p)) +
      sum_list (map (liquidation mv) (concat (map pos_legs (positions p))))"
proof -
  have led: "ledger_ok p" using pf_reach_ok [OF assms] by (simp add: portfolio_ok_def inv_with_def)
  have "trade_cash = (\<lambda>t. (if t_side t = Sell then 1 else - 1) * (minor (t_price t) * t_qty t))"
    by (rule ext) (simp add: trade_cash_def)
  moreover have "closed_pnl = (\<lambda>l. if leg_state l = Closed then (minor (exit l) - minor (entry l)) * leg_qty l else 0)"
    by (rule ext) (simp add: closed_pnl_def)
  ultimately show ?thesis
    using led equity_split [OF led, of mv] by (simp add: ledger_ok_def leg_sum_positions)
qed

theorem equity_is_cash_plus_liquidation_witness:
  "amount (equity (demo_view 30) demo_filled) = 100 * 75 - 104 * 75"
proof -
  have "mark_for demo_leg (demo_view 30) = Price 104"
    by (simp add: mark_for_def demo_leg_def new_leg_def demo_quote_def)
  then show ?thesis
    using equity_is_cash_plus_liquidation [OF demo_filled_reach, of "demo_view 30"]
    by (simp add: demo_filled_def demo_start_def demo_trade_def liquidation_def live_def demo_leg_def new_leg_def)
qed

text \<open>C12: no order executes before its delay has passed.  Whatever operations were applied, every
  trade that is not a settlement has a fill time at least the execution delay after the time the
  decision was taken.\<close>

theorem fills_respect_the_delay:
  assumes "pf_reach p" and "t \<in> set (trades p)" and "\<not> t_settled t"
  shows "nanos (signal_ts t) + pf_delay p \<le> nanos (fill_ts t)"
  using pf_reach_ok [OF assms(1)] assms(2,3)
  by (auto simp: portfolio_ok_def inv_with_def timing_ok_def less_eq_timestamp_def)

theorem fills_respect_the_delay_witness: "nanos (signal_ts demo_trade) + 10 \<le> nanos (fill_ts demo_trade)"
  using fills_respect_the_delay [OF demo_filled_reach, of demo_trade]
  by (simp add: demo_filled_def demo_start_def demo_trade_def)

text \<open>C13: closing a position leaves nothing of it to open.  On a reachable portfolio
  \<open>submit_close\<close> succeeds exactly for a known id; it withdraws every opening order of the position
  and cancels its leg, sends every open leg to \<open>PendingClose\<close>, touches no other leg, and keeps all
  other orders, so no leg of the position can be filled open later.\<close>

theorem submit_close_flattens:
  assumes "pf_reach p"
  shows "(if 0 \<le> i \<and> nat i < length (positions p)
    then \<exists>q. submit_close i now p = Inr q \<and> pf_reach q \<and>
      (\<forall>x. legs_of q x = map_option (\<lambda>l. if fst x \<noteq> i then l
         else if leg_state l = Open then l\<lparr>leg_state := PendingClose\<rparr>
         else if leg_state l = PendingOpen then l\<lparr>leg_state := Cancelled\<rparr> else l) (legs_of p x)) \<and>
      (\<exists>new. pending q = filter (\<lambda>ord. o_position ord \<noteq> i \<or> closing ord) (pending p) @ new \<and>
         (\<forall>ord \<in> set new. closing ord))
    else submit_close i now p = Inl (OutOfRange ''Portfolio::at: unknown position''))"
proof (cases "0 \<le> i \<and> nat i < length (positions p)")
  case True
  note inv = pf_reach_ok [OF assms]
  obtain q where q: "submit_close i now p = Inr q" using submit_close_total [OF inv] True by blast
  note laws = submit_close_laws [OF inv q]
  have "pf_reach q" by (rule pf_reach.step [OF assms pf_step.closed [OF q]])
  moreover have "legs_of q x = map_option (\<lambda>l. if fst x \<noteq> i then l
         else if leg_state l = Open then l\<lparr>leg_state := PendingClose\<rparr>
         else if leg_state l = PendingOpen then l\<lparr>leg_state := Cancelled\<rparr> else l) (legs_of p x)" for x
    using laws(1) [of x] by (cases "legs_of p x") (simp_all add: close_out_def)
  moreover have "(\<lambda>ord. \<not> (o_position ord = i \<and> \<not> closing ord)) = (\<lambda>ord. o_position ord \<noteq> i \<or> closing ord)"
    by auto
  ultimately show ?thesis using True q laws(2) by auto
next
  case False
  then have "pf_at p i = Inl (OutOfRange ''Portfolio::at: unknown position'')" by (auto simp: pf_at_def)
  then show ?thesis using False by (simp only: submit_close_def sum.case if_False)
qed

theorem submit_close_flattens_witness:
  "\<exists>q. submit_close 0 (Timestamp 30) demo_filled = Inr q \<and> legs_of q (0, 0) = Some (demo_leg\<lparr>leg_state := PendingClose\<rparr>)"
proof -
  have "length (positions demo_filled) = 1" by (simp add: demo_filled_def)
  then show ?thesis
    using submit_close_flattens [OF demo_filled_reach, of 0 "Timestamp 30"]
    by (auto simp: demo_legs demo_leg_def)
qed

text \<open>C14: settlement leaves nothing of the expiry behind.  After \<open>settle_expiry\<close> every leg on an
  option of that expiry that was live is closed at the intrinsic value of the settlement level (by
  how far the level is above the strike of a call, or below the strike of a put, and zero when it is
  not) rounded to a price, and marked settled; every one still waiting to open is cancelled, all other
  legs are as before, and exactly the orders on the expired contracts are gone.  The result is again a
  reachable portfolio.\<close>

theorem settlement_settles_everything:
  assumes "pf_reach p" and "settle_expiry mv ex level whn p = Inr (n, q)"
  shows "pf_reach q \<and>
    pending q = filter (\<lambda>ord. \<not> expires_on mv ex (o_instrument ord)) (pending p) \<and>
    (\<forall>x. legs_of q x = map_option (\<lambda>l.
       case spec (mv_registry mv) (leg_instrument l) of Inl _ \<Rightarrow> l
       | Inr sp \<Rightarrow>
         if kind sp \<noteq> Option \<or> expiry sp \<noteq> ex then l
         else if live l then
           let k = price_to_double (strike sp);
               gap = (case right_of sp of Call \<Rightarrow> fsub level k | Put \<Rightarrow> fsub k level)
           in l\<lparr>exit := price_from_double (if flt (Fin 0) gap then gap else Fin 0), exit_ts := whn,
             leg_state := Closed, settled := True\<rparr>
         else if leg_state l = PendingOpen then l\<lparr>leg_state := Cancelled\<rparr> else l) (legs_of p x))"
    (is "_ \<and> _ \<and> (\<forall>x. legs_of q x = map_option ?settled (legs_of p x))")
proof -
  note laws = settle_expiry_laws [OF pf_reach_ok [OF assms(1)] assms(2)]
  have same: "settled_book mv ex level whn l = ?settled l" for l
    by (auto simp: settled_book_def leg_settled_def expires_on_def settle_price_def settlement_value_def
        fmax_def is_option_def Let_def split: sum.splits right.splits)
  have "legs_of q x = map_option ?settled (legs_of p x)" for x
    unfolding same [symmetric] by (rule laws(2))
  moreover have "pf_reach q" by (rule pf_reach.step [OF assms(1) pf_step.settled [OF assms(2)]])
  ultimately show ?thesis using laws(3) by blast
qed

theorem settlement_settles_everything_witness:
  "\<exists>n q l. settle_expiry (demo_view 99) (Date 20250703) (Fin 105) (Timestamp 99) demo_filled = Inr (n, q) \<and>
    legs_of q (0, 0) = Some l \<and> leg_state l = Closed \<and> settled l"
proof -
  have "leg_indices demo_filled = [(0, 0)]" by (simp add: leg_indices_def demo_filled_def)
  moreover have "the_leg demo_filled 0 0 = demo_leg" by (simp add: the_leg_def demo_filled_def)
  moreover have "live demo_leg" "leg_instrument demo_leg = InstrumentId 0" "is_option demo_spec" "expiry demo_spec = Date 20250703"
    by (simp_all add: live_def demo_leg_def new_leg_def is_option_def demo_spec_def)
  moreover have "pending demo_filled = []" by (simp add: demo_filled_def demo_start_def)
  ultimately obtain n q where q: "settle_expiry (demo_view 99) (Date 20250703) (Fin 105) (Timestamp 99) demo_filled = Inr (n, q)"
    by (auto simp: settle_expiry_def settle_leg_def Let_def)
  have "expires_on (demo_view 99) (Date 20250703) (InstrumentId 0)"
    by (simp add: expires_on_def is_option_def demo_spec_def [THEN arg_cong [where f = kind]]
        demo_spec_def [THEN arg_cong [where f = expiry]])
  then show ?thesis
    using settlement_settles_everything [OF demo_filled_reach q] q
    by (simp add: demo_legs demo_leg_def new_leg_def live_def expires_on_def is_option_def Let_def split: sum.splits)
qed

text \<open>End of day stands everything down and never fails.  On a reachable portfolio
  \<open>cancel_working_orders\<close> always returns, with the number of orders there were; no order is left, no
  leg is waiting (an unfilled entry is cancelled, an unfilled exit is held as open again), and a
  rule is armed again when it had fired, an exit of its position was abandoned and the position is
  still open; every other rule is unchanged.\<close>

theorem end_of_day_stands_down:
  assumes "pf_reach p"
  shows "\<exists>q. cancel_working_orders p = Inr (length (pending p), q) \<and> pf_reach q \<and> pending q = [] \<and>
    (\<forall>x. legs_of q x = map_option (\<lambda>l.
       if leg_state l = PendingClose then l\<lparr>leg_state := Open\<rparr>
       else if leg_state l = PendingOpen then l\<lparr>leg_state := Cancelled\<rparr> else l) (legs_of p x)) \<and>
    list_all2 (\<lambda>r r'. r' =
        (if fired r \<and> (\<exists>ord \<in> set (pending p). closing ord \<and> o_position ord = rule_position r) \<and>
            is_open (positions q ! nat (rule_position r))
         then r\<lparr>fired := False\<rparr> else r)) (rules p) (rules q)"
proof -
  note inv = pf_reach_ok [OF assms]
  obtain n q where q: "cancel_working_orders p = Inr (n, q)" using cancel_working_orders_total [OF inv] by blast
  note laws = cancel_working_orders_laws [OF inv q]
  have "inv_with never (pending p) p" using inv by (simp add: portfolio_ok_def)
  from withdraw_loop_legs(2) [OF this, of "[]"]
  have ab: "i \<in> set (snd (fold withdraw (pending p) (p, []))) \<longleftrightarrow> (\<exists>ord \<in> set (pending p). closing ord \<and> o_position ord = i)" for i
    by auto
  have "r' = (if fired r \<and> (\<exists>ord \<in> set (pending p). closing ord \<and> o_position ord = rule_position r) \<and>
            is_open (positions q ! nat (rule_position r))
         then r\<lparr>fired := False\<rparr> else r)"
    if "rearm (snd (fold withdraw (pending p) (p, []))) q r = Inr r'" for r r'
    using that unfolding rearm_def pf_at_def ab by (auto split: if_splits)
  then have "list_all2 (\<lambda>r r'. r' =
        (if fired r \<and> (\<exists>ord \<in> set (pending p). closing ord \<and> o_position ord = rule_position r) \<and>
            is_open (positions q ! nat (rule_position r))
         then r\<lparr>fired := False\<rparr> else r)) (rules p) (rules q)"
    by (rule list_all2_mono [OF laws(5)])
  moreover have "legs_of q x = map_option (\<lambda>l.
       if leg_state l = PendingClose then l\<lparr>leg_state := Open\<rparr>
       else if leg_state l = PendingOpen then l\<lparr>leg_state := Cancelled\<rparr> else l) (legs_of p x)" for x
    using laws(4) [of x] by (cases "legs_of p x") (simp_all add: stood_down_def)
  moreover have "pf_reach q" by (rule pf_reach.step [OF assms pf_step.stood_down [OF q]])
  ultimately show ?thesis using q laws(2,3) by blast
qed

theorem end_of_day_stands_down_witness:
  "\<exists>q. cancel_working_orders demo_asked = Inr (1, q) \<and>
     legs_of q (0, 0) = Some ((new_leg (InstrumentId 0) (- 75))\<lparr>leg_state := Cancelled\<rparr>)"
proof -
  have "length (pending demo_asked) = 1" by (simp add: demo_asked_def)
  moreover have "leg_state (new_leg (InstrumentId 0) (- 75)) = PendingOpen" by (simp add: new_leg_def)
  ultimately show ?thesis
    using end_of_day_stands_down [OF demo_asked_reach] by (auto simp: demo_asked_legs)
qed

text \<open>What one attached rule does when its turn comes.  On a reachable portfolio the step of an
  unfired rule never throws.  A rule whose position is gone, or whose leg does not exist, is spent
  without an order; one on a position not yet established (or a leg not open), and one whose
  condition does not hold, stays armed and changes no leg and no order; one that triggers is
  marked fired, withdraws what had not opened, closes its leg or every leg of its position and no
  other, and the orders it adds are stamped as coming from a rule.\<close>

theorem rule_acts:
  assumes "pf_reach p" and "n < length (rules p)" and "\<not> fired (rules p ! n)"
    and r: "r = rules p ! n" and pos: "pos = positions p ! nat (rule_position r)"
  shows "\<exists>q. run_rule mv n p = Inr q \<and>
    fired (rules q ! n) = (rule_stage r pos = Spend \<or> rule_stage r pos = Armed \<and> rule_triggers r pos mv = Inr True) \<and>
    (if rule_stage r pos = Armed \<and> rule_triggers r pos mv = Inr True
     then (\<forall>x. legs_of q x = map_option (\<lambda>l.
           if fst x \<noteq> rule_position r \<or> rule_leg r \<noteq> None \<and> rule_leg r \<noteq> Some (snd x) then l
           else if leg_state l = Open then l\<lparr>leg_state := PendingClose\<rparr>
           else if leg_state l = PendingOpen then l\<lparr>leg_state := Cancelled\<rparr> else l) (legs_of p x)) \<and>
       (\<exists>new. (\<forall>ord \<in> set new. closing ord \<and> o_from_rule ord) \<and>
          pending q = filter (\<lambda>ord. o_position ord \<noteq> rule_position r \<or> closing ord \<or> rule_leg r \<noteq> None) (pending p) @ new)
     else legs_of q = legs_of p \<and> pending q = pending p)"
proof -
  note inv = pf_reach_ok [OF assms(1)]
  have i: "0 \<le> rule_position r" "nat (rule_position r) < length (positions p)"
    using inv assms(2) by (auto simp: portfolio_ok_def inv_with_def shape_ok_def r)
  have at: "pf_at p (rule_position r) = Inr pos" using pf_at_total [OF i] by (simp add: pos)
  obtain q where q: "run_rule mv n p = Inr q" using run_rule_total [OF inv assms(2)] by blast
  have same: "rules q = rules p \<Longrightarrow> \<not> fired (rules q ! n)" using assms(3) by simp
  from q show ?thesis
  proof (cases rule: run_rule_cases)
    case (gone pos')
    have "legs_of q = legs_of p" by (rule legs_of_cong) (simp add: gone)
    then show ?thesis using q gone at assms(2) by (auto simp flip: r)
  next
    case (fires pos' p2)
    define p1 where "p1 = p\<lparr>rules := (rules p)[n := (rules p ! n)\<lparr>fired := True\<rparr>],
        rules_fired := rules_fired p + 1, closing_from_rule := True\<rparr>"
    have p1: "portfolio_ok p1" by (rule mark_ok [OF inv assms(2), of "r\<lparr>fired := True\<rparr>"]) (simp_all add: p1_def r)
    have l1: "legs_of p1 = legs_of p" by (rule legs_of_cong) (simp add: p1_def)
    have lq: "legs_of q = legs_of p2" by (rule legs_of_cong) (simp add: fires)
    have pos': "pos' = pos" using fires(2) at by (simp flip: r)
    have rq: "rules q ! n = r\<lparr>fired := True\<rparr>" and
      legs: "legs_of q x = map_option (\<lambda>l.
           if fst x \<noteq> rule_position r \<or> rule_leg r \<noteq> None \<and> rule_leg r \<noteq> Some (snd x) then l
           else if leg_state l = Open then l\<lparr>leg_state := PendingClose\<rparr>
           else if leg_state l = PendingOpen then l\<lparr>leg_state := Cancelled\<rparr> else l) (legs_of p x)" and
      ords: "\<exists>new. (\<forall>ord \<in> set new. closing ord \<and> o_from_rule ord) \<and>
          pending q = filter (\<lambda>ord. o_position ord \<noteq> rule_position r \<or> closing ord \<or> rule_leg r \<noteq> None) (pending p) @ new"
      for x
    proof (atomize(full), cases "rule_leg r")
      case None
      have run: "submit_close (rule_position r) (mv_now mv) p1 = Inr p2"
        using fires(5) None by (simp add: p1_def r)
      note laws = submit_close_laws [OF p1 run]
      have "legs_of q x = map_option (\<lambda>l. if fst x \<noteq> rule_position r then l else close_out l) (legs_of p x)"
        using laws(1) [of x] by (cases "legs_of p x") (simp_all add: lq l1)
      moreover have "rules q ! n = r\<lparr>fired := True\<rparr>"
        using submit_close_rules [OF run] assms(2) by (simp add: fires(6) p1_def r)
      moreover have "(\<lambda>ord. \<not> (o_position ord = rule_position r \<and> \<not> closing ord)) =
          (\<lambda>ord. o_position ord \<noteq> rule_position r \<or> closing ord)" by auto
      then have "\<exists>new. (\<forall>ord \<in> set new. closing ord \<and> o_from_rule ord) \<and>
          pending q = filter (\<lambda>ord. o_position ord \<noteq> rule_position r \<or> closing ord) (pending p) @ new"
        using laws(2) by (auto simp: fires(6) p1_def)
      ultimately show "rules q ! n = r\<lparr>fired := True\<rparr> \<and>
        legs_of q x = map_option (\<lambda>l.
           if fst x \<noteq> rule_position r \<or> rule_leg r \<noteq> None \<and> rule_leg r \<noteq> Some (snd x) then l
           else if leg_state l = Open then l\<lparr>leg_state := PendingClose\<rparr>
           else if leg_state l = PendingOpen then l\<lparr>leg_state := Cancelled\<rparr> else l) (legs_of p x) \<and>
        (\<exists>new. (\<forall>ord \<in> set new. closing ord \<and> o_from_rule ord) \<and>
          pending q = filter (\<lambda>ord. o_position ord \<noteq> rule_position r \<or> closing ord \<or> rule_leg r \<noteq> None) (pending p) @ new)"
        by (simp add: None close_out_def cong: if_cong)
    next
      case (Some k)
      have run: "submit_close_leg (rule_position r) k (mv_now mv) p1 = Inr p2"
        using fires(5) Some by (simp add: p1_def r)
      have k: "k < length (pos_legs pos)" and st: "leg_state (pos_legs pos ! k) = Open"
        using fires(3) Some by (auto simp: pos' rule_stage_def simp flip: r split: if_splits)
      have l: "legs_of p1 (rule_position r, k) = Some (pos_legs pos ! k)"
        using i k by (simp add: l1) (simp add: legs_of_def leg_ref_def the_leg_def pos)
      have ref: "leg_ref p1 (rule_position r, k)" using l by (simp add: legs_of_Some)
      define c where "c = close_order p1 (rule_position r) k (mv_now mv)"
      define l' where "l' = (pos_legs pos ! k)\<lparr>leg_state := PendingClose\<rparr>"
      have p2: "p2 = (put_leg (rule_position r) k l' p1)\<lparr>pending := pending p1 @ [c]\<rparr>"
        using run st by (simp add: submit_close_leg_eq [OF l] c_def l'_def)
      have "legs_of q = legs_of (put_leg (rule_position r) k l' p1)"
        unfolding lq by (rule legs_of_cong) (simp add: p2)
      then have "legs_of q = (legs_of p)((rule_position r, k) \<mapsto> l')"
        using legs_of_put [OF ref] by (simp add: l1)
      then have "legs_of q x = map_option (\<lambda>l.
           if fst x \<noteq> rule_position r \<or> k \<noteq> snd x then l
           else if leg_state l = Open then l\<lparr>leg_state := PendingClose\<rparr>
           else if leg_state l = PendingOpen then l\<lparr>leg_state := Cancelled\<rparr> else l) (legs_of p x)"
        using l st by (cases x; cases "legs_of p x") (auto simp: l1 l'_def)
      moreover have "rules q ! n = r\<lparr>fired := True\<rparr>" using assms(2) by (simp add: fires(6) p2 p1_def r)
      moreover have "pending q = pending p @ [c]" "closing c" "o_from_rule c"
        by (simp_all add: fires(6) p2 p1_def c_def close_order_def Let_def)
      ultimately show "rules q ! n = r\<lparr>fired := True\<rparr> \<and>
        legs_of q x = map_option (\<lambda>l.
           if fst x \<noteq> rule_position r \<or> rule_leg r \<noteq> None \<and> rule_leg r \<noteq> Some (snd x) then l
           else if leg_state l = Open then l\<lparr>leg_state := PendingClose\<rparr>
           else if leg_state l = PendingOpen then l\<lparr>leg_state := Cancelled\<rparr> else l) (legs_of p x) \<and>
        (\<exists>new. (\<forall>ord \<in> set new. closing ord \<and> o_from_rule ord) \<and>
          pending q = filter (\<lambda>ord. o_position ord \<noteq> rule_position r \<or> closing ord \<or> rule_leg r \<noteq> None) (pending p) @ new)"
        by (intro conjI exI [of _ "[c]"]) (simp_all add: Some)
    qed
    have "rule_stage r pos = Armed \<and> rule_triggers r pos mv = Inr True" using fires(3,4) by (simp add: pos' flip: r)
    then show ?thesis using q rq legs ords by simp
  qed (use q at same assms(3) in \<open>auto simp flip: r\<close>)
qed

definition demo_stopped :: portfolio where
  "demo_stopped = demo_filled\<lparr>rules := [\<lparr>rule_kind = ExitAt, rule_position = 0, rule_leg = None, threshold = Fin 0,
     deadline = Timestamp 25, fired = False\<rparr>]\<rparr>"

lemma demo_stopped_reach: "pf_reach demo_stopped"
proof (rule pf_reach.step [OF demo_filled_reach pf_step.timed])
  show "attach_exit_at 0 None (Timestamp 25) demo_filled = Inr demo_stopped"
    by (simp add: attach_exit_at_def attach_rule_def pf_at_def demo_stopped_def demo_filled_def demo_start_def)
qed

theorem rule_acts_witness:
  "\<exists>q. run_rule (demo_view 30) 0 demo_stopped = Inr q \<and> fired (rules q ! 0) \<and>
     legs_of q (0, 0) = Some (demo_leg\<lparr>leg_state := PendingClose\<rparr>)"
proof -
  let ?r = "rules demo_stopped ! 0" and ?pos = "positions demo_stopped ! nat (rule_position (rules demo_stopped ! 0))"
  have r: "rule_position ?r = 0" "rule_leg ?r = None" "rule_kind ?r = ExitAt" "deadline ?r = Timestamp 25" "\<not> fired ?r"
    "length (rules demo_stopped) = 1"
    by (simp_all add: demo_stopped_def)
  have pos: "pos_legs ?pos = [demo_leg]" by (simp add: demo_stopped_def demo_filled_def)
  have "rule_stage ?r ?pos = Armed"
    using pos r(2) by (simp add: rule_stage_def is_open_def established_def live_def cancelled_def filled_def demo_leg_def)
  moreover have "rule_triggers ?r ?pos (demo_view 30) = Inr True"
    using r(3,4) by (simp add: rule_triggers_def Let_def)
  moreover have "legs_of demo_stopped = legs_of demo_filled" by (rule legs_of_cong) (simp add: demo_stopped_def)
  moreover have "0 < length (rules demo_stopped)" using r(6) by simp
  ultimately show ?thesis
    using rule_acts [OF demo_stopped_reach _ r(5) refl refl, of "demo_view 30"] r(1,2)
    by (auto simp: demo_legs demo_leg_def)
qed

lemma order_instrument:
  assumes "portfolio_ok p" and "ord \<in> set (pending p)"
  shows "\<exists>l. legs_of p (order_key ord) = Some l \<and> leg_instrument l = o_instrument ord"
proof -
  have "inv_with never (pending p) p" using assms(1) by (simp add: portfolio_ok_def)
  from book_okD(2) [OF inv_book [OF this] assms(2)] show ?thesis unfolding order_matches_def by metis
qed

lemma settle_leg_instruments:
  assumes "settle_leg mv ex level whn x (p, n) = Inr (q, n')" and "leg_ref p x" and "legs_of q y = Some l"
  shows "\<exists>l0. legs_of p y = Some l0 \<and> leg_instrument l = leg_instrument l0"
proof (cases "y = x")
  case True
  then show ?thesis
    using settle_leg_effect [OF assms(1,2)] assms(2,3) by (auto simp: legs_of_def settle_one_def leg_settled_def)
next
  case False
  then show ?thesis using settle_leg_effect [OF assms(1,2)] assms(3) by simp
qed

text \<open>The step of a fold that raised.\<close>

lemma try_fold_raised:
  assumes "try_fold f xs s = Inl e" and "P s"
    and "\<And>x t t'. x \<in> set xs \<Longrightarrow> P t \<Longrightarrow> f x t = Inr t' \<Longrightarrow> P t'"
  shows "\<exists>x \<in> set xs. \<exists>t. P t \<and> f x t = Inl e"
  using assms
proof (induction xs arbitrary: s)
  case (Cons x xs)
  show ?case
  proof (cases "f x s")
    case (Inr t)
    then have "P t" "try_fold f xs t = Inl e" using Cons.prems(1,2) Cons.prems(3) [of x s t] by auto
    then have "\<exists>y \<in> set xs. \<exists>t. P t \<and> f y t = Inl e"
      by (intro Cons.IH) (auto intro: Cons.prems(3))
    then show ?thesis by auto
  qed (use Cons.prems in auto)
qed simp

definition unknown_leg :: "market_view \<Rightarrow> portfolio \<Rightarrow> exn \<Rightarrow> bool" where
  "unknown_leg mv p e \<longleftrightarrow> (\<exists>x l. legs_of p x = Some l \<and> spec (mv_registry mv) (leg_instrument l) = Inl e)"

lemma unknown_order:
  assumes "portfolio_ok p" and "ord \<in> set (pending p)" and "spec (mv_registry mv) (o_instrument ord) = Inl e"
  shows "unknown_leg mv p e"
  using order_instrument [OF assms(1,2)] assms(3) unfolding unknown_leg_def by metis

lemma process_pending_raises:
  assumes inv: "portfolio_ok p" and "process_pending mv p = Inl e"
  shows "unknown_leg mv p e"
proof -
  have "try_fold (fill_order mv) (pending p) (p, []) = Inl e"
    using assms(2) by (auto simp: process_pending_def split: sum.splits if_splits)
  then obtain ord t where o: "ord \<in> set (pending p)" "fill_order mv ord t = Inl e"
    using try_fold_raised [where P = "\<lambda>_. True"] by fast
  have "spec (mv_registry mv) (o_instrument ord) = Inl e"
    using o(2) by (cases t) (auto simp: fill_order_def Let_def split: if_splits option.splits sum.splits)
  then show ?thesis using unknown_order [OF inv o(1)] by blast
qed

lemma settle_expiry_raises:
  assumes inv: "portfolio_ok p" and run: "settle_expiry mv ex level whn p = Inl e"
  shows "unknown_leg mv p e"
proof (cases "try_fold (settle_leg mv ex level whn) (leg_indices p) (p, 0)")
  case (Inl e')
  let ?P = "\<lambda>s :: portfolio \<times> nat. leg_ref (fst s) = leg_ref p \<and>
    (\<forall>y l. legs_of (fst s) y = Some l \<longrightarrow> (\<exists>l0. legs_of p y = Some l0 \<and> leg_instrument l = leg_instrument l0))"
  have "\<exists>x \<in> set (leg_indices p). \<exists>t. ?P t \<and> settle_leg mv ex level whn x t = Inl e'"
  proof (rule try_fold_raised [OF Inl])
    fix x t t'
    assume x: "x \<in> set (leg_indices p)" and P: "?P t" and s: "settle_leg mv ex level whn x t = Inr t'"
    have s': "settle_leg mv ex level whn x (fst t, snd t) = Inr (fst t', snd t')" using s by simp
    have ref: "leg_ref (fst t) x" using P x by (simp add: leg_indices_ref)
    have "leg_ref (fst t') = leg_ref (fst t)" by (rule ext) (rule settle_leg_frame(1) [OF s'])
    moreover have "\<exists>l0. legs_of p y = Some l0 \<and> leg_instrument l = leg_instrument l0" if "legs_of (fst t') y = Some l" for y l
      using settle_leg_instruments [OF s' ref that] P by (cases y) force
    ultimately show "?P t'" using P by auto
  qed simp
  then obtain x t where x: "x \<in> set (leg_indices p)" "?P t" "settle_leg mv ex level whn x t = Inl e'" by blast
  then have "legs_of (fst t) x = Some (the_leg (fst t) (fst x) (snd x))"
    by (simp add: legs_of_def leg_indices_ref)
  moreover have "spec (mv_registry mv) (leg_instrument (the_leg (fst t) (fst x) (snd x))) = Inl e'"
    using x(3) by (cases t) (auto simp: settle_leg_def split_beta Let_def split: if_splits sum.splits)
  moreover have "e' = e" using run Inl by (simp add: settle_expiry_def)
  ultimately show ?thesis using x(2) unfolding unknown_leg_def by metis
next
  case (Inr s)
  obtain p1 n where s: "s = (p1, n)" by (cases s)
  have "pending p1 = pending p"
    using settle_loop [OF inv_with_mono [of never] Inr [unfolded s]] inv by (simp add: portfolio_ok_def never_def)
  then have "try_fold (drop_settled mv ex) (pending p) (p1, []) = Inl e"
    using run Inr by (auto simp: settle_expiry_def s split: sum.splits)
  then obtain ord t where o: "ord \<in> set (pending p)" "drop_settled mv ex ord t = Inl e"
    using try_fold_raised [where P = "\<lambda>_. True"] by fast
  then have "spec (mv_registry mv) (o_instrument ord) = Inl e"
    by (cases t) (auto simp: drop_settled_def Let_def split: if_splits sum.splits)
  then show ?thesis using unknown_order [OF inv o(1)] by blast
qed

text \<open>C15: the only exception an engine step can raise is an unregistered instrument.  On every
  reachable portfolio, whatever the registry of the market knows, the rule loop never throws, and
  whatever the fill loop or settlement throw is the registry's answer for the instrument of one of
  the portfolio's legs: when it knows them all, both succeed.  Every waiting order names a position
  and a leg of it that exist, on the order's instrument, and every rule a position that exists.\<close>

theorem engine_steps_never_throw:
  assumes "pf_reach p"
  shows "(\<exists>q. process_risk_rules mv p = Inr q) \<and>
    (\<forall>e. process_pending mv p = Inl e \<longrightarrow>
       (\<exists>x l. legs_of p x = Some l \<and> spec (mv_registry mv) (leg_instrument l) = Inl e)) \<and>
    (\<forall>e. settle_expiry mv ex level whn p = Inl e \<longrightarrow>
       (\<exists>x l. legs_of p x = Some l \<and> spec (mv_registry mv) (leg_instrument l) = Inl e)) \<and>
    ((\<forall>x l. legs_of p x = Some l \<longrightarrow> (\<exists>sp. spec (mv_registry mv) (leg_instrument l) = Inr sp)) \<longrightarrow>
       (\<exists>q. process_pending mv p = Inr q) \<and> (\<exists>n q. settle_expiry mv ex level whn p = Inr (n, q))) \<and>
    (\<forall>ord \<in> set (pending p). 0 \<le> o_position ord \<and> nat (o_position ord) < length (positions p) \<and>
       o_leg_index ord < length (pos_legs (positions p ! nat (o_position ord))) \<and>
       leg_instrument (the_leg p (o_position ord) (o_leg_index ord)) = o_instrument ord) \<and>
    (\<forall>r \<in> set (rules p). 0 \<le> rule_position r \<and> nat (rule_position r) < length (positions p))"
proof -
  note inv = pf_reach_ok [OF assms]
  note pending = process_pending_raises [OF inv, of mv] and settle = settle_expiry_raises [OF inv, of mv ex level whn]
  have "(\<exists>q. process_pending mv p = Inr q) \<and> (\<exists>n q. settle_expiry mv ex level whn p = Inr (n, q))"
    if "\<forall>x l. legs_of p x = Some l \<longrightarrow> (\<exists>sp. spec (mv_registry mv) (leg_instrument l) = Inr sp)"
  proof -
    have none: "\<not> unknown_leg mv p e" for e using that unfolding unknown_leg_def by (metis sum.distinct(1))
    then show ?thesis
      using pending settle by (cases "process_pending mv p"; cases "settle_expiry mv ex level whn p") auto
  qed
  moreover have "leg_ref p (order_key ord) \<and> leg_instrument (the_leg p (o_position ord) (o_leg_index ord)) = o_instrument ord"
    if "ord \<in> set (pending p)" for ord
    using order_instrument [OF inv that] by (auto simp: legs_of_def order_key_def split: if_splits)
  moreover have "shape_ok p" using inv by (simp add: portfolio_ok_def inv_with_def)
  ultimately show ?thesis
    using process_risk_rules_total [OF inv, of mv] pending settle
    by (auto simp: unknown_leg_def shape_ok_def leg_ref_def order_key_def)
qed

theorem engine_steps_never_throw_witness:
  "(\<exists>q. process_risk_rules (demo_view 30) demo_stopped = Inr q) \<and> (\<exists>q. process_pending (demo_view 30) demo_stopped = Inr q) \<and>
   (\<exists>n q. settle_expiry (demo_view 30) (Date 20250703) (Fin 105) (Timestamp 30) demo_stopped = Inr (n, q))"
proof -
  have "legs_of demo_stopped = legs_of demo_filled" by (rule legs_of_cong) (simp add: demo_stopped_def)
  then have "\<forall>x l. legs_of demo_stopped x = Some l \<longrightarrow> (\<exists>sp. spec (mv_registry (demo_view 30)) (leg_instrument l) = Inr sp)"
    by (auto simp: demo_legs demo_leg_def new_leg_def split: if_splits)
  then show ?thesis
    using engine_steps_never_throw [OF demo_stopped_reach, of "demo_view 30" "Date 20250703" "Fin 105" "Timestamp 30"] by blast
qed

text \<open>Entering costs the spread.  When the default fill model gives a price, a leg entered at it
  and marked against the same quote shows a loss of exactly the spread on its whole size, never a
  profit.\<close>

theorem entry_pays_the_spread:
  assumes "cross_spread_fill q s n = Some px" and "latest mv (leg_instrument l) = Some q"
    and "leg_state l = Open" and "entry l = px" and "0 < n" and "leg_qty l = (if s = Sell then - n else n)"
  shows "amount (pnl_of_leg l mv) = - (minor (spread q) * n) \<and> amount (pnl_of_leg l mv) \<le> 0"
proof -
  have q: "0 < minor (q_bid q)" "0 < minor (q_ask q)" "minor (q_bid q) \<le> minor (q_ask q)"
    and px: "px = (if s = Buy then q_ask q else q_bid q)"
    using assms(1) by (auto simp: cross_spread_fill_def two_sided_def less_price_def split: if_splits)
  have "amount (pnl_of_leg l mv) = - (minor (spread q) * n)"
    using q assms(2-6)
    by (cases s) (simp_all add: px pnl_of_leg_def filled_def mark_for_def Let_def spread_def algebra_simps)
  moreover have "0 \<le> minor (spread q) * n" using q(3) assms(5) by (simp add: spread_def)
  ultimately show ?thesis by simp
qed

theorem entry_pays_the_spread_witness: "amount (pnl_of_leg demo_leg (demo_view 30)) = - 300"
proof -
  have "cross_spread_fill demo_quote Sell 75 = Some (Price 100)"
    by (simp add: cross_spread_fill_def two_sided_def demo_quote_def less_price_def)
  from entry_pays_the_spread [OF this, of "demo_view 30" demo_leg] show ?thesis
    by (simp add: demo_leg_def new_leg_def spread_def demo_quote_def)
qed

end
