(* ===== verification/Conditions.thy ===== *)
theory Conditions
  imports PortfolioRuns
begin

text \<open>
  \<open>condition.hpp\<close> and \<open>condition.cpp\<close>: predicates over the market view, the portfolio and the
  clock, their combinators with the short circuits of C++, and the time-of-day parser.  A
  condition may throw, because it may ask the portfolio for an unknown position.
\<close>

section \<open>Conditions\<close>

record eval_ctx =
  ev_market :: market_view
  ev_portfolio :: portfolio
  ev_now :: timestamp

text \<open>A default-constructed \<open>Cond\<close> holds no function.\<close>

type_synonym cond = "(eval_ctx \<Rightarrow> exn + bool) option"

definition cond_valid :: "cond \<Rightarrow> bool" where
  "cond_valid c \<longleftrightarrow> c \<noteq> None"

definition cond_eval :: "cond \<Rightarrow> eval_ctx \<Rightarrow> exn + bool" where
  "cond_eval c ev = (case c of None \<Rightarrow> Inr False | Some f \<Rightarrow> f ev)"

definition cond_or :: "cond \<Rightarrow> cond \<Rightarrow> cond" where
  "cond_or a b = Some (\<lambda>ev. case cond_eval a ev of
     Inl e \<Rightarrow> Inl e | Inr True \<Rightarrow> Inr True | Inr False \<Rightarrow> cond_eval b ev)"

definition cond_and :: "cond \<Rightarrow> cond \<Rightarrow> cond" where
  "cond_and a b = Some (\<lambda>ev. case cond_eval a ev of
     Inl e \<Rightarrow> Inl e | Inr False \<Rightarrow> Inr False | Inr True \<Rightarrow> cond_eval b ev)"

definition cond_not :: "cond \<Rightarrow> cond" where
  "cond_not a = Some (\<lambda>ev. case cond_eval a ev of Inl e \<Rightarrow> Inl e | Inr b \<Rightarrow> Inr (\<not> b))"

definition when_cond :: "(eval_ctx \<Rightarrow> exn + bool) \<Rightarrow> cond" where
  "when_cond f = Some f"

definition at_or_after :: "timestamp \<Rightarrow> cond" where
  "at_or_after t = Some (\<lambda>ev. Inr (t \<le> ev_now ev))"

section \<open>Time of day\<close>

definition digit_of :: "char \<Rightarrow> int option" where
  "digit_of c = (let n = (of_char c :: int) in if 48 \<le> n \<and> n \<le> 57 then Some (n - 48) else None)"

text \<open>
  \<open>std::from_chars\<close> on two characters: an optional minus sign, then at least one digit; it stops
  at the first character that is not a digit.
\<close>

definition from_chars2 :: "char \<Rightarrow> char \<Rightarrow> int option" where
  "from_chars2 a b =
     (if a = CHR ''-'' then map_option uminus (digit_of b)
      else case digit_of a of
        None \<Rightarrow> None
      | Some x \<Rightarrow> (case digit_of b of None \<Rightarrow> Some x | Some y \<Rightarrow> Some (10 * x + y)))"

definition time_field :: "string \<Rightarrow> nat \<Rightarrow> exn + int" where
  "time_field s offset =
     (case from_chars2 (s ! offset) (s ! (offset + 1)) of
        None \<Rightarrow> Inl (InvalidArgument ''bad time of day'') | Some v \<Rightarrow> Inr v)"

definition parse_time_of_day :: "string \<Rightarrow> exn + int" where
  "parse_time_of_day s =
     (if length s \<noteq> 5 \<and> length s \<noteq> 8
      then Inl (InvalidArgument ''time of day must be HH:MM or HH:MM:SS'')
      else case time_field s 0 of Inl e \<Rightarrow> Inl e
      | Inr h \<Rightarrow> (case time_field s 3 of Inl e \<Rightarrow> Inl e
        | Inr m \<Rightarrow> (case (if length s = 8 then time_field s 6 else Inr 0) of Inl e \<Rightarrow> Inl e
          | Inr sec \<Rightarrow>
              if h < 0 \<or> 23 < h \<or> m < 0 \<or> 59 < m \<or> sec < 0 \<or> 59 < sec
              then Inl (InvalidArgument ''time of day out of range'')
              else Inr (h * 3600 + m * 60 + sec))))"

section \<open>Properties\<close>

text \<open>The two digits of a number below a hundred, and the two accepted layouts.\<close>

definition two_digits :: "int \<Rightarrow> string" where
  "two_digits n = [char_of (48 + n div 10), char_of (48 + n mod 10)]"

definition show_time :: "int \<Rightarrow> string" where
  "show_time n = two_digits (n div 3600) @ CHR '':'' # two_digits (n div 60 mod 60) @ CHR '':'' # two_digits (n mod 60)"

definition show_minute :: "int \<Rightarrow> string" where
  "show_minute n = two_digits (n div 3600) @ CHR '':'' # two_digits (n div 60 mod 60)"

lemma digit_of_char:
  assumes "0 \<le> d" and "d < 10"
  shows "digit_of (char_of (48 + d)) = Some d" and "char_of (48 + d) \<noteq> CHR ''-''"
proof -
  have "(of_char (char_of (48 + d)) :: int) = (48 + d) mod 256" by (rule of_char_of)
  then have v: "(of_char (char_of (48 + d)) :: int) = 48 + d" using assms by simp
  then show "digit_of (char_of (48 + d)) = Some d" using assms by (simp add: digit_of_def)
  show "char_of (48 + d) \<noteq> CHR ''-''"
  proof
    assume "char_of (48 + d) = CHR ''-''"
    then have "(of_char (char_of (48 + d)) :: int) = of_char (CHR ''-'')" by simp
    then show False using v assms by simp
  qed
qed

lemma from_chars2_digits:
  assumes "0 \<le> n" and "n < 100"
  shows "from_chars2 (two_digits n ! 0) (two_digits n ! 1) = Some n"
proof -
  have t: "0 \<le> n div 10" "n div 10 < 10" "0 \<le> n mod 10" "n mod 10 < 10" using assms by auto
  show ?thesis
    using digit_of_char [OF t(1,2)] digit_of_char [OF t(3,4)] by (simp add: from_chars2_def two_digits_def)
qed

lemma time_fields:
  assumes "0 \<le> h" "h < 100" "0 \<le> m" "m < 100" "0 \<le> sec" "sec < 100"
  shows "time_field (two_digits h @ c # two_digits m) 0 = Inr h"
    and "time_field (two_digits h @ c # two_digits m) 3 = Inr m"
    and "time_field (two_digits h @ c # two_digits m @ c' # two_digits sec) 0 = Inr h"
    and "time_field (two_digits h @ c # two_digits m @ c' # two_digits sec) 3 = Inr m"
    and "time_field (two_digits h @ c # two_digits m @ c' # two_digits sec) 6 = Inr sec"
  using from_chars2_digits [of h] from_chars2_digits [of m] from_chars2_digits [of sec] assms
  by (simp_all add: time_field_def two_digits_def nth_Cons' numeral_eq_Suc)

text \<open>A time of day reads back.  Every second of the day, printed as HH:MM:SS (or HH:MM on the
  minute), parses to itself, whatever characters stand where the colons should; and whatever
  string is accepted denotes a second of the day, so no condition is ever armed on a time outside
  it.\<close>

theorem time_of_day_round_trip:
  assumes "0 \<le> n" and "n < 86400"
  shows "parse_time_of_day (show_time n) = Inr n \<and>
    (n mod 60 = 0 \<longrightarrow> parse_time_of_day (show_minute n) = Inr n) \<and>
    (\<forall>c c'. parse_time_of_day (two_digits (n div 3600) @ c # two_digits (n div 60 mod 60) @ c' # two_digits (n mod 60)) = Inr n) \<and>
    (\<forall>s k. parse_time_of_day s = Inr k \<longrightarrow> 0 \<le> k \<and> k < 86400)"
proof -
  define h m sec where "h = n div 3600" and "m = n div 60 mod 60" and "sec = n mod 60"
  have "n div 60 div 60 = n div 3600" by (simp add: zdiv_zmult2_eq)
  then have n: "n = h * 3600 + m * 60 + sec"
    using div_mult_mod_eq [of n 60] div_mult_mod_eq [of "n div 60" 60] unfolding h_def m_def sec_def by linarith
  have b: "0 \<le> h" "h < 24" "0 \<le> m" "m < 60" "0 \<le> sec" "sec < 60" using assms by (auto simp: h_def m_def sec_def)
  note f = time_fields [of h m sec]
  have full: "parse_time_of_day (two_digits h @ c # two_digits m @ c' # two_digits sec) = Inr n" for c c'
    using f(3-5) [of c c'] b by (simp add: parse_time_of_day_def n) (simp add: two_digits_def)
  have short: "sec = 0 \<Longrightarrow> parse_time_of_day (two_digits h @ c # two_digits m) = Inr n" for c
    using f(1,2) [of c] b by (simp add: parse_time_of_day_def n) (simp add: two_digits_def)
  have "0 \<le> k \<and> k < 86400" if "parse_time_of_day s = Inr k" for s k
    using that by (auto simp: parse_time_of_day_def split: if_splits sum.splits)
  then show ?thesis using full short by (simp add: show_time_def show_minute_def h_def m_def sec_def)
qed

theorem time_of_day_round_trip_witness:
  "parse_time_of_day ''09:15:30'' = Inr 33330 \<and> parse_time_of_day ''09x15y30'' = Inr 33330"
proof -
  have "show_time 33330 = ''09:15:30''" by code_simp
  moreover have "two_digits 9 @ CHR ''x'' # two_digits 15 @ CHR ''y'' # two_digits 30 = ''09x15y30''" by code_simp
  moreover have "parse_time_of_day (show_time 33330) = Inr 33330"
    "parse_time_of_day (two_digits 9 @ CHR ''x'' # two_digits 15 @ CHR ''y'' # two_digits 30) = Inr 33330"
    using time_of_day_round_trip [of 33330] by simp_all
  ultimately show ?thesis by simp
qed

end
