(* ===== verification/Greeks.thy ===== *)
theory Greeks
  imports Calendar Prices
begin

text \<open>
  \<open>greeks.hpp\<close> and \<open>greeks.cpp\<close>: Black-76 prices and sensitivities, the safeguarded Newton search
  for the implied volatility and the parity forward, in double arithmetic as written.  The three
  functions of the C math library whose accuracy the standard leaves open are a parameter
  (\<open>libm\<close>); no property here assumes anything of them.  \<open>std::sqrt\<close> is correctly rounded and is
  the definition of \<open>Doubles\<close>.
\<close>

section \<open>State and operations\<close>

record libm =
  lm_exp :: "dbl \<Rightarrow> dbl"
  lm_log :: "dbl \<Rightarrow> dbl"
  lm_erfc :: "dbl \<Rightarrow> dbl"

definition kSqrt2 :: dbl where
  "kSqrt2 = rnd (141421356237309504880 / 10 ^ 20)"

definition kInvSqrt2Pi :: dbl where
  "kInvSqrt2Pi = rnd (39894228040143267794 / 10 ^ 20)"

definition norm_cdf :: "libm \<Rightarrow> dbl \<Rightarrow> dbl" where
  "norm_cdf m x = fmul (Fin (1 / 2)) (lm_erfc m (fdiv (fneg x) kSqrt2))"

definition norm_pdf :: "libm \<Rightarrow> dbl \<Rightarrow> dbl" where
  "norm_pdf m x = fmul kInvSqrt2Pi (lm_exp m (fmul (fmul (Fin (- 1 / 2)) x) x))"

definition intrinsic :: "libm \<Rightarrow> dbl \<Rightarrow> dbl \<Rightarrow> dbl \<Rightarrow> dbl \<Rightarrow> right \<Rightarrow> dbl" where
  "intrinsic m forward strike rate t rt =
     (let df = lm_exp m (fmul (fneg rate) t)
      in fmul df (if rt = Call then fmax (Fin 0) (fsub forward strike) else fmax (Fin 0) (fsub strike forward)))"

record d_terms =
  d1 :: dbl
  d2 :: dbl
  sqrt_t :: dbl
  d_df :: dbl

definition compute_d :: "libm \<Rightarrow> dbl \<Rightarrow> dbl \<Rightarrow> dbl \<Rightarrow> dbl \<Rightarrow> dbl \<Rightarrow> d_terms" where
  "compute_d m forward strike t sigma rate =
     (let sq = fsqrt t;
          vol_sqrt_t = fmul sigma sq;
          x1 = fdiv (fadd (lm_log m (fdiv forward strike)) (fmul (fmul (fmul (Fin (1 / 2)) sigma) sigma) t)) vol_sqrt_t
      in \<lparr>d1 = x1, d2 = fsub x1 vol_sqrt_t, sqrt_t = sq, d_df = lm_exp m (fmul (fneg rate) t)\<rparr>)"

definition degenerate :: "dbl \<Rightarrow> dbl \<Rightarrow> dbl \<Rightarrow> dbl \<Rightarrow> bool" where
  "degenerate forward strike t sigma \<longleftrightarrow>
     \<not> flt (Fin 0) forward \<or> \<not> flt (Fin 0) strike \<or> \<not> flt (Fin 0) t \<or> \<not> flt (Fin 0) sigma"

definition kExpirySecond :: int where
  "kExpirySecond = 15 * 3600 + 30 * 60"

definition time_to_expiry :: "timestamp \<Rightarrow> date \<Rightarrow> int \<Rightarrow> int \<Rightarrow> dbl" where
  "time_to_expiry now ex utc_offset_seconds expiry_second_of_day =
     (let end = timestamp_of ex expiry_second_of_day utc_offset_seconds;
          secs = fdiv (of_i (nanos end - nanos now)) (Fin 1000000000)
      in if fle secs (Fin 0) then Fin 0 else fdiv secs (fmul (Fin 365) (Fin 86400)))"

definition black76_price :: "libm \<Rightarrow> dbl \<Rightarrow> dbl \<Rightarrow> dbl \<Rightarrow> dbl \<Rightarrow> dbl \<Rightarrow> right \<Rightarrow> dbl" where
  "black76_price m forward strike t sigma rate rt =
     (if degenerate forward strike t sigma then intrinsic m forward strike rate (fmax (Fin 0) t) rt
      else let d = compute_d m forward strike t sigma rate
        in if rt = Call
           then fmul (d_df d) (fsub (fmul forward (norm_cdf m (d1 d))) (fmul strike (norm_cdf m (d2 d))))
           else fmul (d_df d) (fsub (fmul strike (norm_cdf m (fneg (d2 d)))) (fmul forward (norm_cdf m (fneg (d1 d))))))"

record greek_set =
  g_iv :: dbl
  g_price :: dbl
  g_delta :: dbl
  g_gamma :: dbl
  g_vega :: dbl
  g_theta :: dbl

definition black76_greeks :: "libm \<Rightarrow> dbl \<Rightarrow> dbl \<Rightarrow> dbl \<Rightarrow> dbl \<Rightarrow> dbl \<Rightarrow> right \<Rightarrow> greek_set" where
  "black76_greeks m forward strike t sigma rate rt =
     (if degenerate forward strike t sigma
      then let itm = (if rt = Call then flt strike forward else flt forward strike)
        in \<lparr>g_iv = sigma, g_price = intrinsic m forward strike rate (fmax (Fin 0) t) rt,
            g_delta = (if itm then (if rt = Call then Fin 1 else Fin (- 1)) else Fin 0),
            g_gamma = Fin 0, g_vega = Fin 0, g_theta = Fin 0\<rparr>
      else let d = compute_d m forward strike t sigma rate;
               pdf = norm_pdf m (d1 d);
               price = black76_price m forward strike t sigma rate rt;
               decay = fdiv (fmul (fmul (fmul (d_df d) forward) pdf) sigma) (fmul (Fin 2) (sqrt_t d))
        in \<lparr>g_iv = sigma, g_price = price,
            g_delta = (if rt = Call then fmul (d_df d) (norm_cdf m (d1 d))
                       else fmul (fneg (d_df d)) (norm_cdf m (fneg (d1 d)))),
            g_gamma = fdiv (fmul (d_df d) pdf) (fmul (fmul forward sigma) (sqrt_t d)),
            g_vega = fmul (fmul (fmul (d_df d) forward) pdf) (sqrt_t d),
            g_theta = fdiv (fsub (fmul rate price) decay) (Fin 365)\<rparr>)"

definition kMinVol :: dbl where
  "kMinVol = rnd (1 / 10000)"

definition kMaxVol :: dbl where
  "kMaxVol = Fin 6"

definition midpoint :: "dbl \<Rightarrow> dbl \<Rightarrow> dbl" where
  "midpoint lo hi = fmul (Fin (1 / 2)) (fadd lo hi)"

text \<open>The next volatility to try: a Newton step if it stays inside the bracket, else the midpoint.\<close>

definition iv_next :: "libm \<Rightarrow> dbl \<Rightarrow> dbl \<Rightarrow> dbl \<Rightarrow> dbl \<Rightarrow> dbl \<Rightarrow> dbl \<Rightarrow> dbl \<Rightarrow> dbl \<Rightarrow> dbl" where
  "iv_next m forward strike t rate diff lo hi sigma =
     (let d = compute_d m forward strike t sigma rate;
          vega = fmul (fmul (fmul (lm_exp m (fmul (fneg rate) t)) forward) (norm_pdf m (d1 d))) (sqrt_t d);
          nxt = (if flt (rnd (1 / 10 ^ 10)) vega then fsub sigma (fdiv diff vega) else midpoint lo hi)
      in if \<not> (flt lo nxt \<and> flt nxt hi) \<or> \<not> isfinite nxt then midpoint lo hi else nxt)"

text \<open>
  The loop of \<open>implied_vol\<close>; the argument counts the iterations left and the state is \<open>lo\<close>, \<open>hi\<close>
  and \<open>sigma\<close>.
\<close>

fun iv_loop ::
    "libm \<Rightarrow> dbl \<Rightarrow> dbl \<Rightarrow> dbl \<Rightarrow> dbl \<Rightarrow> dbl \<Rightarrow> right \<Rightarrow> nat \<Rightarrow> dbl \<Rightarrow> dbl \<Rightarrow> dbl \<Rightarrow> dbl option" where
  "iv_loop m market_price forward strike t rate rt 0 lo hi sigma =
     (if flt (fsub hi lo) (rnd (1 / 1000000)) then Some sigma else None)"
| "iv_loop m market_price forward strike t rate rt (Suc n) lo hi sigma =
     (let price = black76_price m forward strike t sigma rate rt;
          diff = fsub price market_price
      in if flt (fabs diff) (rnd (1 / 10 ^ 8)) then Some sigma
         else let hi' = (if flt (Fin 0) diff then sigma else hi);
                  lo' = (if flt (Fin 0) diff then lo else sigma)
              in iv_loop m market_price forward strike t rate rt n lo' hi'
                   (iv_next m forward strike t rate diff lo' hi' sigma))"

definition implied_vol ::
    "libm \<Rightarrow> dbl \<Rightarrow> dbl \<Rightarrow> dbl \<Rightarrow> dbl \<Rightarrow> dbl \<Rightarrow> right \<Rightarrow> dbl option" where
  "implied_vol m market_price forward strike t rate rt =
     (if \<not> flt (Fin 0) market_price \<or> \<not> flt (Fin 0) forward \<or> \<not> flt (Fin 0) strike \<or> \<not> flt (Fin 0) t then None
      else let df = lm_exp m (fmul (fneg rate) t);
               low = intrinsic m forward strike rate t rt;
               high = (if rt = Call then fmul df forward else fmul df strike);
               eps = rnd (1 / 10 ^ 9)
        in if flt market_price (fsub low eps) \<or> flt (fadd high eps) market_price then None
           else let p_lo = black76_price m forward strike t kMinVol rate rt;
                    p_hi = black76_price m forward strike t kMaxVol rate rt;
                    tol = fmul eps (fmax (Fin 1) (fabs market_price))
             in if flt (fadd p_hi tol) market_price \<or> flt market_price (fsub p_lo tol) then None
                else if fle market_price p_lo then Some kMinVol
                else iv_loop m market_price forward strike t rate rt 100 kMinVol kMaxVol (rnd (2 / 10)))"

definition implied_greeks ::
    "libm \<Rightarrow> dbl \<Rightarrow> dbl \<Rightarrow> dbl \<Rightarrow> dbl \<Rightarrow> dbl \<Rightarrow> right \<Rightarrow> greek_set option" where
  "implied_greeks m market_price forward strike t rate rt =
     (case implied_vol m market_price forward strike t rate rt of
        None \<Rightarrow> None
      | Some iv \<Rightarrow> Some (black76_greeks m forward strike t iv rate rt))"

record parity_quote =
  pq_strike :: dbl
  pq_call :: dbl
  pq_put :: dbl

text \<open>One iteration of the loop of \<open>forward_from_parity\<close>; the state is \<open>best\<close> and \<open>best_gap\<close>.\<close>

definition parity_step :: "parity_quote \<Rightarrow> parity_quote option \<times> dbl \<Rightarrow> parity_quote option \<times> dbl" where
  "parity_step q = (\<lambda>(best, best_gap).
     if \<not> flt (Fin 0) (pq_strike q) \<or> \<not> flt (Fin 0) (pq_call q) \<or> \<not> flt (Fin 0) (pq_put q) then (best, best_gap)
     else let gap = fabs (fsub (pq_call q) (pq_put q))
       in if best = None \<or> flt gap best_gap then (Some q, gap) else (best, best_gap))"

definition forward_from_parity :: "libm \<Rightarrow> parity_quote list \<Rightarrow> dbl \<Rightarrow> dbl \<Rightarrow> dbl option" where
  "forward_from_parity m quotes t rate =
     (case fst (fold parity_step quotes (None, Fin 0)) of
        None \<Rightarrow> None
      | Some b \<Rightarrow>
          let fwd = fadd (pq_strike b) (fmul (lm_exp m (fmul rate t)) (fsub (pq_call b) (pq_put b)))
          in if \<not> flt (Fin 0) fwd \<or> \<not> isfinite fwd then None else Some fwd)"

section \<open>The search stays in its bracket\<close>

text \<open>A representable volatility of the search range.\<close>

definition vol_ok :: "dbl \<Rightarrow> bool" where
  "vol_ok x \<longleftrightarrow> (\<exists>r. x = Fin r \<and> rnd53 r = r \<and> fle kMinVol x \<and> fle x kMaxVol)"

lemma kMinVol_Fin: "kMinVol = Fin (rnd53 (1 / 10000))" and kMinVol_pos: "0 < rnd53 (1 / 10000)"
  and kMinVol_le: "rnd53 (1 / 10000) \<le> 1 / 1000"
proof -
  have "rnd53 (1 * 2 powi (- 14)) = 1 * 2 powi (- 14)" using rnd53_exact [of 1 "- 14"] by simp
  then have "rnd53 (2 powi (- 14)) = 2 powi (- 14)" by simp
  moreover have "(2 :: rat) powi (- 14) \<le> 1 / 10000" by (simp add: power_int_def power_one_over)
  ultimately have l: "2 powi (- 14) \<le> rnd53 (1 / 10000)" using rnd53_mono [of "2 powi (- 14)" "1 / 10000"] by simp
  then show "0 < rnd53 (1 / 10000)" using less_le_trans [OF powi_pos l] by simp
  have "rnd53 (1 * 2 powi (- 13)) = 1 * 2 powi (- 13)" using rnd53_exact [of 1 "- 13"] by simp
  then have "rnd53 (2 powi (- 13)) = 2 powi (- 13)" by simp
  moreover have "(1 :: rat) / 10000 \<le> 2 powi (- 13)" "(2 :: rat) powi (- 13) \<le> 1 / 1000"
    by (simp_all add: power_int_def power_one_over)
  ultimately show u: "rnd53 (1 / 10000) \<le> 1 / 1000" using rnd53_mono [of "1 / 10000" "2 powi (- 13)"] by simp
  have "\<bar>rnd53 (1 / 10000)\<bar> < 2 ^ 1024" using u \<open>0 < rnd53 (1 / 10000)\<close> by simp
  then show "kMinVol = Fin (rnd53 (1 / 10000))" by (simp add: kMinVol_def rnd_Fin)
qed

lemma vol_ok_iff: "vol_ok (Fin r) \<longleftrightarrow> rnd53 r = r \<and> rnd53 (1 / 10000) \<le> r \<and> r \<le> 6"
  by (auto simp: vol_ok_def kMinVol_Fin kMaxVol_def)

lemma midpoint_between:
  assumes "vol_ok (Fin a)" and "vol_ok (Fin b)" and "a \<le> b"
  obtains c where "midpoint (Fin a) (Fin b) = Fin c" "vol_ok (Fin c)" "a \<le> c" "c \<le> b"
proof -
  have ab: "rnd53 a = a" "rnd53 b = b" "0 < a" "b \<le> 6" "rnd53 (1 / 10000) \<le> a"
    using assms(1,2) kMinVol_pos by (auto simp: vol_ok_iff)
  have double: "rnd53 (2 * x) = 2 * x" if x: "rnd53 x = x" for x
  proof -
    obtain n e where ne: "rnd53 x = of_int n * 2 powi e" "\<bar>n\<bar> < 2 ^ 53" "- 1074 \<le> e" using rnd53_shape by blast
    have "2 * x = of_int n * 2 powi (e + 1)" using ne(1) x by (simp add: power_int_add)
    then show ?thesis using rnd53_exact [of n "e + 1"] ne(2,3) by simp
  qed
  define s where "s = rnd53 (a + b)"
  have s: "2 * a \<le> s" "s \<le> 2 * b"
    using rnd53_mono [of "2 * a" "a + b"] rnd53_mono [of "a + b" "2 * b"] double [OF ab(1)] double [OF ab(2)] assms(3)
    by (simp_all add: s_def)
  have sF: "fadd (Fin a) (Fin b) = Fin s" using s ab(3,4) by (simp add: s_def rnd_Fin)
  define c where "c = rnd53 (s / 2)"
  have c: "a \<le> c" "c \<le> b"
    using rnd53_mono [of a "s / 2"] rnd53_mono [of "s / 2" b] s ab(1,2) by (simp_all add: c_def)
  have "midpoint (Fin a) (Fin b) = Fin c"
    unfolding midpoint_def sF using c ab(3,4) by (simp add: c_def rnd_Fin)
  moreover have "vol_ok (Fin c)" using c ab(4,5) by (simp add: vol_ok_iff) (simp add: c_def)
  ultimately show ?thesis using that c by blast
qed

lemma fadd_Fin_rep:
  assumes "fadd x y = Fin r"
  shows "rnd53 r = r"
proof -
  obtain a b where "x = Fin a" "y = Fin b" using assms by (cases x; cases y) auto
  then have "rnd (a + b) = Fin r" using assms by simp
  from rnd_FinD [OF this] show ?thesis by simp
qed

lemma vol_okE:
  assumes "vol_ok x"
  obtains r where "x = Fin r" "vol_ok (Fin r)" "rnd53 r = r"
  using assms by (auto simp: vol_ok_def)

text \<open>What a finished search says of its result.\<close>

definition reproduces :: "(dbl \<Rightarrow> dbl) \<Rightarrow> dbl \<Rightarrow> dbl \<Rightarrow> bool" where
  "reproduces price mkt v \<longleftrightarrow> flt (fabs (fsub (price v) mkt)) (rnd (1 / 10 ^ 8))"

definition brackets :: "(dbl \<Rightarrow> dbl) \<Rightarrow> dbl \<Rightarrow> dbl \<Rightarrow> dbl \<Rightarrow> bool" where
  "brackets price mkt lo hi \<longleftrightarrow>
     \<not> flt (Fin 0) (fsub (price lo) mkt) \<and> (hi = kMaxVol \<or> flt (Fin 0) (fsub (price hi) mkt))"

lemma not_overpriced: "\<not> fle mkt p \<Longrightarrow> \<not> flt (Fin 0) (fsub p mkt)"
proof (cases p; cases mkt)
  fix a b
  assume "\<not> fle mkt p" and e: "p = Fin a" "mkt = Fin b"
  then have "fle (rnd (a - b)) (rnd 0)" by (intro fle_rnd) simp
  then show ?thesis by (cases "rnd (a - b)") (auto simp: fsub_def e rnd_def)
qed (auto simp: fsub_def)

text \<open>One round of the search: price the volatility tried, move one end of the bracket to it, and
  choose the next.\<close>

definition iv_round :: "libm \<Rightarrow> dbl \<Rightarrow> dbl \<Rightarrow> dbl \<Rightarrow> dbl \<Rightarrow> dbl \<Rightarrow> right \<Rightarrow> dbl \<times> dbl \<times> dbl \<Rightarrow> dbl \<times> dbl \<times> dbl" where
  "iv_round m mkt f k t rate rt = (\<lambda>(lo, hi, s).
     let diff = fsub (black76_price m f k t s rate rt) mkt
     in if flt (Fin 0) diff then (lo, s, iv_next m f k t rate diff lo s s)
        else (s, hi, iv_next m f k t rate diff s hi s))"

lemma iv_next_between:
  assumes lo: "vol_ok (Fin a)" and hi: "vol_ok (Fin b)" and "a \<le> b"
  shows "\<exists>x. iv_next m f k t rate diff (Fin a) (Fin b) sigma = Fin x \<and> vol_ok (Fin x) \<and> a \<le> x \<and> x \<le> b"
proof -
  obtain c where c: "midpoint (Fin a) (Fin b) = Fin c" "vol_ok (Fin c)" "a \<le> c" "c \<le> b"
    by (rule midpoint_between [OF assms])
  define nxt where "nxt = fsub sigma (fdiv diff (fmul (fmul (fmul (lm_exp m (fmul (fneg rate) t)) f)
    (norm_pdf m (d1 (compute_d m f k t sigma rate)))) (sqrt_t (compute_d m f k t sigma rate))))"
  have "iv_next m f k t rate diff (Fin a) (Fin b) sigma = Fin c \<or>
      iv_next m f k t rate diff (Fin a) (Fin b) sigma = nxt \<and> flt (Fin a) nxt \<and> flt nxt (Fin b) \<and> isfinite nxt"
    unfolding iv_next_def Let_def nxt_def [symmetric] c(1) by auto
  then show ?thesis
  proof (elim disjE conjE)
    assume n: "iv_next m f k t rate diff (Fin a) (Fin b) sigma = nxt" "flt (Fin a) nxt" "flt nxt (Fin b)" "isfinite nxt"
    then obtain y where y: "nxt = Fin y" by (auto simp: isfinite_def split: dbl.splits)
    have "rnd53 y = y" using fadd_Fin_rep y unfolding nxt_def fsub_def by blast
    then have "vol_ok (Fin y)" using n(2,3) y lo hi by (simp add: vol_ok_iff)
    then show ?thesis using n y by auto
  qed (use c in auto)
qed

lemma iv_loop_sound:
  assumes "iv_loop m mkt f k t rate rt n (Fin a) (Fin b) (Fin s) = Some v"
    and "vol_ok (Fin a)" and "vol_ok (Fin b)" and "vol_ok (Fin s)" and "a \<le> s" and "s \<le> b"
    and "brackets (\<lambda>s. black76_price m f k t s rate rt) mkt (Fin a) (Fin b)"
  shows "vol_ok v \<and> (\<exists>i \<le> n. \<exists>lo hi. (iv_round m mkt f k t rate rt ^^ i) (Fin a, Fin b, Fin s) = (lo, hi, v) \<and>
    fle lo v \<and> fle v hi \<and> brackets (\<lambda>s. black76_price m f k t s rate rt) mkt lo hi \<and>
    (i < n \<and> reproduces (\<lambda>s. black76_price m f k t s rate rt) mkt v \<or>
     i = n \<and> flt (fsub hi lo) (rnd (1 / 1000000))))"
  using assms
proof (induction n arbitrary: a b s)
  case 0
  then have "v = Fin s" "flt (fsub (Fin b) (Fin a)) (rnd (1 / 1000000))" by (simp_all split: if_splits)
  then show ?case using 0 by simp
next
  case (Suc n)
  define diff where "diff = fsub (black76_price m f k t (Fin s) rate rt) mkt"
  show ?case
  proof (cases "flt (fabs diff) (rnd (1 / 10 ^ 8))")
    case True
    then have "v = Fin s" using Suc.prems(1) by (simp add: diff_def Let_def)
    then show ?thesis using True Suc.prems(4-7)
      by (intro conjI exI [of _ 0]) (simp_all add: reproduces_def diff_def)
  next
    case False
    define a' b' where "a' = (if flt (Fin 0) diff then a else s)" and "b' = (if flt (Fin 0) diff then s else b)"
    have "iv_loop m mkt f k t rate rt n (Fin a') (Fin b') (iv_next m f k t rate diff (Fin a') (Fin b') (Fin s)) = Some v"
      using Suc.prems(1) False by (cases "flt (Fin 0) diff") (simp_all add: Let_def a'_def b'_def flip: diff_def)
    moreover have v': "vol_ok (Fin a')" "vol_ok (Fin b')" "a' \<le> b'"
      using Suc.prems(2-6) by (simp_all add: a'_def b'_def)
    obtain x where x: "iv_next m f k t rate diff (Fin a') (Fin b') (Fin s) = Fin x" "vol_ok (Fin x)" "a' \<le> x" "x \<le> b'"
      using iv_next_between [OF v'] by blast
    moreover have "brackets (\<lambda>s. black76_price m f k t s rate rt) mkt (Fin a') (Fin b')"
      using Suc.prems(7) by (simp add: brackets_def a'_def b'_def diff_def)
    moreover have "iv_round m mkt f k t rate rt (Fin a, Fin b, Fin s) = (Fin a', Fin b', Fin x)"
      using x(1) by (auto simp: iv_round_def Let_def a'_def b'_def simp flip: diff_def)
    then have "(iv_round m mkt f k t rate rt ^^ Suc i) (Fin a, Fin b, Fin s) =
        (iv_round m mkt f k t rate rt ^^ i) (Fin a', Fin b', Fin x)" for i
      by (simp only: funpow_Suc_right comp_apply)
    ultimately show ?thesis using Suc.IH [of a' b' x] v' by (metis Suc_le_mono Suc_less_eq)
  qed
qed

section \<open>Properties\<close>

text \<open>C16: an implied volatility is never made up.  Whatever the math library computes, a volatility
  that \<open>implied_vol\<close> reports lies in the search range, and either it is the floor, and the quote
  is at or below the price there by no more than the tolerance; or it is what the search tries
  after at most a hundred rounds, each pricing one volatility.  Then it lies in the bracket of that
  round, whose lower end does not overprice the quote, and whose upper end overprices it or is the
  ceiling, where the price falls short of the quote by no more than the tolerance; and it reproduces
  the quote to 1e-8 or, all hundred rounds used, the bracket is narrower than 1e-6.\<close>

theorem implied_vol_sound:
  assumes "implied_vol m mkt f k t rate rt = Some v"
  shows "fle kMinVol v \<and> fle v kMaxVol \<and>
    (let price = (\<lambda>s. black76_price m f k t s rate rt);
         tol = fmul (rnd (1 / 10 ^ 9)) (fmax (Fin 1) (fabs mkt)) in
     v = kMinVol \<and> fle mkt (price kMinVol) \<and> \<not> flt mkt (fsub (price kMinVol) tol) \<or>
     (\<exists>i \<le> 100. \<exists>lo hi. (iv_round m mkt f k t rate rt ^^ i) (kMinVol, kMaxVol, rnd (2 / 10)) = (lo, hi, v) \<and>
        fle lo v \<and> fle v hi \<and> \<not> flt (Fin 0) (fsub (price lo) mkt) \<and>
        (flt (Fin 0) (fsub (price hi) mkt) \<or> hi = kMaxVol \<and> \<not> flt (fadd (price kMaxVol) tol) mkt) \<and>
        (i < 100 \<and> flt (fabs (fsub (price v) mkt)) (rnd (1 / 10 ^ 8)) \<or>
         i = 100 \<and> flt (fsub hi lo) (rnd (1 / 1000000)))))"
proof (cases "v = kMinVol \<and> fle mkt (black76_price m f k t kMinVol rate rt)")
  case True
  then have "\<not> flt mkt (fsub (black76_price m f k t kMinVol rate rt) (fmul (rnd (1 / 10 ^ 9)) (fmax (Fin 1) (fabs mkt))))"
    using assms by (auto simp: implied_vol_def Let_def simp del: iv_loop.simps split: if_splits)
  then show ?thesis using True kMinVol_pos kMinVol_le by (auto simp: kMinVol_Fin kMaxVol_def Let_def)
next
  case False
  then have run: "iv_loop m mkt f k t rate rt 100 kMinVol kMaxVol (rnd (2 / 10)) = Some v"
    and bounds: "\<not> fle mkt (black76_price m f k t kMinVol rate rt)"
      "\<not> flt (fadd (black76_price m f k t kMaxVol rate rt) (fmul (rnd (1 / 10 ^ 9)) (fmax (Fin 1) (fabs mkt)))) mkt"
    using assms by (auto simp: implied_vol_def Let_def simp del: iv_loop.simps split: if_splits)
  have six: "rnd53 6 = 6" using rnd53_of_int [of 6] by simp
  have lo: "vol_ok kMinVol" and hi: "vol_ok kMaxVol"
    using kMinVol_le six by (simp_all add: kMinVol_Fin kMaxVol_def vol_ok_iff)
  have eighth: "rnd53 (1 / 8) = 1 / 8"
    using rnd53_exact [of 1 "- 3"] by (simp add: power_int_def power_one_over)
  have half: "rnd53 (1 / 2) = 1 / 2"
    using rnd53_exact [of 1 "- 1"] by (simp add: power_int_def power_one_over)
  have b: "1 / 8 \<le> rnd53 (2 / 10)" "rnd53 (2 / 10) \<le> 1 / 2"
    using rnd53_mono [of "1 / 8" "2 / 10"] rnd53_mono [of "2 / 10" "1 / 2"] by (simp_all add: eighth half)
  then have s: "rnd (2 / 10) = Fin (rnd53 (2 / 10))" by (simp add: rnd_Fin)
  have start: "vol_ok (rnd (2 / 10))" "fle kMinVol (rnd (2 / 10))" "fle (rnd (2 / 10)) kMaxVol"
    using b kMinVol_le unfolding s by (simp_all add: vol_ok_iff kMinVol_Fin kMaxVol_def)
  have "brackets (\<lambda>s. black76_price m f k t s rate rt) mkt kMinVol kMaxVol"
    using not_overpriced [OF bounds(1)] by (simp add: brackets_def)
  have "rnd53 (1 / 10000) \<le> rnd53 (2 / 10)" "rnd53 (2 / 10) \<le> 6" using b kMinVol_le by linarith+
  note sound = iv_loop_sound [OF run [unfolded s kMinVol_Fin kMaxVol_def] lo [unfolded kMinVol_Fin] hi [unfolded kMaxVol_def]
      start(1) [unfolded s] this \<open>brackets _ _ _ _\<close> [unfolded kMinVol_Fin kMaxVol_def], unfolded reproduces_def]
  from sound obtain i lo hi where v: "vol_ok v" "i \<le> 100"
    "(iv_round m mkt f k t rate rt ^^ i) (kMinVol, kMaxVol, rnd (2 / 10)) = (lo, hi, v)" "fle lo v" "fle v hi"
    "brackets (\<lambda>s. black76_price m f k t s rate rt) mkt lo hi"
    "i < 100 \<and> flt (fabs (fsub (black76_price m f k t v rate rt) mkt)) (rnd (1 / 10 ^ 8)) \<or>
     i = 100 \<and> flt (fsub hi lo) (rnd (1 / 1000000))"
    unfolding s kMinVol_Fin kMaxVol_def by blast
  have "fle kMinVol v \<and> fle v kMaxVol" using v(1) by (auto simp: vol_ok_def)
  then show ?thesis using v(2-7) bounds(2) unfolding brackets_def Let_def by blast
qed

text \<open>A library whose three functions are constant: every price at the money is then zero.\<close>

definition flat_libm :: libm where
  "flat_libm = \<lparr>lm_exp = (\<lambda>_. Fin 1), lm_log = (\<lambda>_. Fin 0), lm_erfc = (\<lambda>_. Fin 1)\<rparr>"

lemma rnd_simple: "rnd 0 = Fin 0" "rnd 50 = Fin 50" "rnd (1 / 2) = Fin (1 / 2)" "rnd 100 = Fin 100"
  using rnd_dyadic [of 0 0] rnd_dyadic [of 50 0] rnd_dyadic [of 1 1] rnd_dyadic [of 100 0] by simp_all

lemma flat_price:
  assumes "flt (Fin 0) sigma"
  shows "black76_price flat_libm (Fin 100) (Fin 100) (Fin 1) sigma (Fin 0) Call = Fin 0"
  using assms by (simp add: black76_price_def degenerate_def norm_cdf_def flat_libm_def compute_d_def Let_def
      rnd_simple fsub_def)

theorem implied_vol_sound_witness:
  "\<exists>v. implied_vol flat_libm (Fin (1 / 2 ^ 40)) (Fin 100) (Fin 100) (Fin 1) (Fin 0) Call = Some v \<and> fle v kMaxVol"
proof -
  have lo: "flt (Fin 0) kMinVol" using kMinVol_pos by (simp add: kMinVol_Fin)
  have hi: "flt (Fin 0) kMaxVol" by (simp add: kMaxVol_def)
  have small: "rnd53 (1 / 2 ^ 30) = 1 / 2 ^ 30" "rnd53 (1 / 2 ^ 29) = 1 / 2 ^ 29" "rnd53 (1 / 2 ^ 27) = 1 / 2 ^ 27"
    using rnd53_exact [of 1 "- 30"] rnd53_exact [of 1 "- 29"] rnd53_exact [of 1 "- 27"]
    by (simp_all add: power_int_def power_one_over)
  define e where "e = rnd53 (1 / 10 ^ 9)"
  have e: "1 / 2 ^ 30 \<le> e" "e \<le> 1 / 2 ^ 29" "rnd53 e = e"
    using rnd53_mono [of "1 / 2 ^ 30" "1 / 10 ^ 9"] rnd53_mono [of "1 / 10 ^ 9" "1 / 2 ^ 29"] small by (simp_all add: e_def)
  then have eF: "rnd (1 / 10 ^ 9) = Fin e" by (simp add: e_def rnd_Fin)
  have re: "rnd e = Fin e" "rnd (- e) = Fin (- e)" using e rnd53_minus [of e] by (simp_all add: rnd_Fin)
  define g where "g = rnd53 (1 / 10 ^ 8)"
  have g: "1 / 2 ^ 27 \<le> g" "g \<le> 1"
    using rnd53_mono [of "1 / 2 ^ 27" "1 / 10 ^ 8"] rnd53_mono [of "1 / 10 ^ 8" 1] rnd53_of_int [of 1] small by (simp_all add: g_def)
  then have gF: "rnd (1 / 10 ^ 8) = Fin g" by (simp add: g_def rnd_Fin)
  have "rnd53 100 = 100" using rnd53_of_int [of 100] by simp
  then have "100 \<le> rnd53 (100 + e)" using rnd53_mono [of 100 "100 + e"] e(1) by simp
  moreover have "rnd53 (100 + e) \<le> 200" using rnd53_mono [of "100 + e" 200] rnd53_of_int [of 200] e(2) by simp
  ultimately have high: "rnd (100 + e) = Fin (rnd53 (100 + e))" "100 \<le> rnd53 (100 + e)" by (simp_all add: rnd_Fin)
  have m: "rnd (- (1 / 2 ^ 40)) = Fin (- (1 / 2 ^ 40))" using rnd_dyadic [of "- 1" 40] by simp
  have s: "flt (Fin 0) (rnd (2 / 10))"
  proof -
    have "rnd53 (1 / 8) = 1 / 8" using rnd53_exact [of 1 "- 3"] by (simp add: power_int_def power_one_over)
    then have "1 / 8 \<le> rnd53 (2 / 10)" "rnd53 (2 / 10) \<le> 1"
      using rnd53_mono [of "1 / 8" "2 / 10"] rnd53_mono [of "2 / 10" 1] rnd53_of_int [of 1] by simp_all
    then show ?thesis by (simp add: rnd_Fin)
  qed
  have loop: "iv_loop flat_libm (Fin (1 / 2 ^ 40)) (Fin 100) (Fin 100) (Fin 1) (Fin 0) Call (Suc n) kMinVol kMaxVol (rnd (2 / 10)) =
      Some (rnd (2 / 10))" for n
    using g s by (simp add: flat_price fsub_def m [simplified] gF [simplified] Let_def)
  have int: "intrinsic flat_libm (Fin 100) (Fin 100) (Fin 0) (Fin 1) Call = Fin 0"
    by (simp add: intrinsic_def flat_libm_def fsub_def rnd_simple fmax_def)
  have df: "lm_exp flat_libm x = Fin 1" for x by (simp add: flat_libm_def)
  have "implied_vol flat_libm (Fin (1 / 2 ^ 40)) (Fin 100) (Fin 100) (Fin 1) (Fin 0) Call = Some (rnd (2 / 10))"
    using e high loop [of 99]
    by (simp add: implied_vol_def int df eF [simplified] flat_price [OF lo] flat_price [OF hi] fsub_def rnd_simple re fmax_def
        Let_def del: iv_loop.simps)
  from implied_vol_sound [OF this] this show ?thesis by blast
qed

end
