(* ===== verification/Margin.thy ===== *)
theory Margin
  imports Greeks
begin

text \<open>
  \<open>margin.hpp\<close> and \<open>margin.cpp\<close>: the sixteen-scenario margin of the options on one underlying and
  expiry, with the floor and the exposure charge on the net short position.
\<close>

section \<open>State and operations\<close>

record span_parameters =
  price_scan_pct :: dbl
  vol_scan_pct :: dbl
  extreme_multiplier :: dbl
  extreme_weight :: dbl
  short_option_minimum_pct :: dbl
  exposure_pct :: dbl

definition default_span :: span_parameters where
  "default_span = \<lparr>price_scan_pct = rnd (35 / 1000), vol_scan_pct = rnd (10 / 100), extreme_multiplier = Fin 2,
     extreme_weight = rnd (33 / 100), short_option_minimum_pct = rnd (15 / 1000), exposure_pct = rnd (3 / 100)\<rparr>"

record margin_leg =
  ml_right :: right
  ml_strike :: dbl
  ml_qty :: qty
  ml_iv :: dbl

record margin_result =
  mr_span :: money
  mr_exposure :: money
  mr_total :: money
  scanning_risk :: dbl
  short_option_min :: dbl
  net_option_value :: dbl
  worst_scenario :: int
  floor_applied :: bool

definition no_margin :: margin_result where
  "no_margin = \<lparr>mr_span = 0, mr_exposure = 0, mr_total = 0, scanning_risk = Fin 0, short_option_min = Fin 0,
     net_option_value = Fin 0, worst_scenario = - 1, floor_applied = False\<rparr>"

datatype scenario = Scenario (price_fraction: dbl) (vol_fraction: dbl) (weight: dbl)

definition build_scenarios :: "dbl \<Rightarrow> dbl \<Rightarrow> scenario list" where
  "build_scenarios mult wt =
     (let third = rnd (1 / 3); two_thirds = rnd (2 / 3); one = Fin 1; minus = Fin (- 1) in
      [Scenario (Fin 0) one one, Scenario (Fin 0) minus one,
       Scenario third one one, Scenario third minus one,
       Scenario (fneg third) one one, Scenario (fneg third) minus one,
       Scenario two_thirds one one, Scenario two_thirds minus one,
       Scenario (fneg two_thirds) one one, Scenario (fneg two_thirds) minus one,
       Scenario one one one, Scenario one minus one,
       Scenario minus one one, Scenario minus minus one,
       Scenario mult (Fin 0) wt, Scenario (fneg mult) (Fin 0) wt])"

definition portfolio_value :: "libm \<Rightarrow> margin_leg list \<Rightarrow> dbl \<Rightarrow> dbl \<Rightarrow> dbl \<Rightarrow> dbl \<Rightarrow> dbl \<Rightarrow> dbl" where
  "portfolio_value m legs forward t rate price_shift vol_scale =
     fold (\<lambda>l v.
       let sigma = fmax (rnd (1 / 10000)) (fmul (ml_iv l) vol_scale);
           px = black76_price m (fadd forward price_shift) (ml_strike l) t sigma rate (ml_right l)
       in fadd v (fmul px (of_i (ml_qty l)))) legs (Fin 0)"

text \<open>The loss of a book in a scenario.\<close>

definition scenario_loss :: "libm \<Rightarrow> margin_leg list \<Rightarrow> dbl \<Rightarrow> dbl \<Rightarrow> dbl \<Rightarrow> span_parameters \<Rightarrow> scenario \<Rightarrow> dbl" where
  "scenario_loss m legs forward t rate p s =
     (let base = portfolio_value m legs forward t rate (Fin 0) (Fin 1);
          scan = fmul forward (price_scan_pct p);
          shifted = portfolio_value m legs forward t rate (fmul (price_fraction s) scan)
            (fadd (Fin 1) (fmul (vol_fraction s) (vol_scan_pct p)))
      in fmul (fsub base shifted) (weight s))"

text \<open>One iteration of the scenario loop; the state is \<open>scanning_risk\<close> and \<open>worst_scenario\<close>.\<close>

definition scan_step :: "int \<times> dbl \<Rightarrow> dbl \<times> int \<Rightarrow> dbl \<times> int" where
  "scan_step = (\<lambda>(i, loss) (risk, worst). if flt risk loss then (loss, i) else (risk, worst))"

definition contracts :: "margin_leg list \<Rightarrow> qty \<times> qty" where
  "contracts legs =
     fold (\<lambda>l (short, long). if ml_qty l < 0 then (short + (- ml_qty l), long) else (short, long + ml_qty l)) legs (0, 0)"

definition span_margin ::
    "libm \<Rightarrow> margin_leg list \<Rightarrow> dbl \<Rightarrow> dbl \<Rightarrow> dbl \<Rightarrow> span_parameters \<Rightarrow> margin_result" where
  "span_margin m legs forward t rate p =
     (if legs = [] \<or> \<not> flt (Fin 0) forward then no_margin
      else if \<not> list_ex (\<lambda>l. ml_qty l < 0) legs then no_margin
      else
        let base = portfolio_value m legs forward t rate (Fin 0) (Fin 1);
            losses = map (scenario_loss m legs forward t rate p)
              (build_scenarios (extreme_multiplier p) (extreme_weight p));
            (risk, worst) = fold scan_step (zip (map int [0..<length losses]) losses) (Fin 0, - 1);
            (short, long) = contracts legs;
            short_notional = fmul forward (of_i (max 0 (short - long)));
            floor = fmul short_notional (short_option_minimum_pct p);
            span_value = (if flt risk floor then floor else risk);
            exposure = fmul short_notional (exposure_pct p);
            sp = Money (llround (fmul span_value (Fin 100)));
            ex = Money (llround (fmul exposure (Fin 100)))
        in \<lparr>mr_span = sp, mr_exposure = ex, mr_total = sp + ex, scanning_risk = risk, short_option_min = floor,
            net_option_value = base, worst_scenario = worst, floor_applied = flt risk floor\<rparr>)"

section \<open>The scan keeps the worst loss\<close>

lemma flt_trans: "flt a b \<Longrightarrow> flt b c \<Longrightarrow> flt a c"
  by (cases a; cases b; cases c) auto

lemma scan_steps:
  "fold scan_step (zip (map int [k..<k + length losses]) losses) (risk, worst) = (r, w) \<Longrightarrow>
    (\<forall>x \<in> set losses. \<not> flt r x) \<and> (r = risk \<and> w = worst \<or>
      flt risk r \<and> (\<exists>i < length losses. w = int (k + i) \<and> r = losses ! i))"
proof (induction losses arbitrary: k risk worst)
  case Nil
  then show ?case by simp
next
  case (Cons x xs)
  have up: "[k..<k + length (x # xs)] = k # [Suc k..<Suc k + length xs]"
    by (simp add: upt_rec)
  show ?case
  proof (cases "flt risk x")
    case True
    have run: "fold scan_step (zip (map int [Suc k..<Suc k + length xs]) xs) (x, int k) = (r, w)"
      using Cons.prems True by (simp only: up list.map zip_Cons_Cons fold_simps scan_step_def prod.case if_True)
    from Cons.IH [OF run] show ?thesis
    proof (elim conjE disjE)
      assume a: "\<forall>y \<in> set xs. \<not> flt r y" "r = x" "w = int k"
      have "\<not> flt x x" by (cases x) auto
      then show ?thesis using a True by auto
    next
      assume a: "\<forall>y \<in> set xs. \<not> flt r y" "flt x r" "\<exists>i < length xs. w = int (Suc k + i) \<and> r = xs ! i"
      then obtain i where i: "i < length xs" "w = int (Suc k + i)" "r = xs ! i" by blast
      have "\<not> flt r x"
      proof
        assume "flt r x"
        from flt_trans [OF a(2) this] show False by (cases x) auto
      qed
      moreover have "\<exists>i < length (x # xs). w = int (k + i) \<and> r = (x # xs) ! i"
        using i by (intro exI [of _ "Suc i"]) simp
      ultimately show ?thesis using a(1) flt_trans [OF True a(2)] by auto
    qed
  next
    case False
    have run: "fold scan_step (zip (map int [Suc k..<Suc k + length xs]) xs) (risk, worst) = (r, w)"
      using Cons.prems False by (simp only: up list.map zip_Cons_Cons fold_simps scan_step_def prod.case if_False)
    from Cons.IH [OF run] show ?thesis
    proof (elim conjE disjE)
      assume a: "\<forall>y \<in> set xs. \<not> flt r y" "flt risk r" "\<exists>i < length xs. w = int (Suc k + i) \<and> r = xs ! i"
      then obtain i where i: "i < length xs" "w = int (Suc k + i)" "r = xs ! i" by blast
      have "\<not> flt r x" using flt_trans [OF a(2)] False by blast
      moreover have "\<exists>i < length (x # xs). w = int (k + i) \<and> r = (x # xs) ! i"
        using i by (intro exI [of _ "Suc i"]) simp
      ultimately show ?thesis using a(1,2) by auto
    qed (use False in auto)
  qed
qed

lemma contracts_net:
  "fold (\<lambda>l (short, long). if ml_qty l < 0 then (short + (- ml_qty l), long) else (short, long + ml_qty l)) legs (a, b) = (s, t)
    \<Longrightarrow> s - t = a - b - sum_list (map ml_qty legs)"
  by (induction legs arbitrary: a b) (auto split: if_splits)

section \<open>Properties\<close>

text \<open>The value of a book when the forward moves by \<open>shift\<close> and every volatility is scaled, no
  volatility below 1e-4; the sixteen moves, in fractions of the scan ranges, with the weight of
  their loss: seven price moves each with the volatility up and down, and the two extreme ones.\<close>

definition book_value :: "libm \<Rightarrow> margin_leg list \<Rightarrow> dbl \<Rightarrow> dbl \<Rightarrow> dbl \<Rightarrow> dbl \<Rightarrow> dbl \<Rightarrow> dbl" where
  "book_value m legs f t rate shift scale =
     foldl fadd (Fin 0) (map (\<lambda>l.
       let vol = fmul (ml_iv l) scale; vol' = (if flt (rnd (1 / 10000)) vol then vol else rnd (1 / 10000))
       in fmul (black76_price m (fadd f shift) (ml_strike l) t vol' rate (ml_right l)) (of_i (ml_qty l))) legs)"

definition span_moves :: "span_parameters \<Rightarrow> (dbl \<times> dbl \<times> dbl) list" where
  "span_moves p =
     concat (map (\<lambda>x. [(x, Fin 1, Fin 1), (x, Fin (- 1), Fin 1)])
       [Fin 0, rnd (1 / 3), fneg (rnd (1 / 3)), rnd (2 / 3), fneg (rnd (2 / 3)), Fin 1, Fin (- 1)]) @
     [(extreme_multiplier p, Fin 0, extreme_weight p), (fneg (extreme_multiplier p), Fin 0, extreme_weight p)]"

lemma portfolio_value_book: "portfolio_value m legs f t rate shift scale = book_value m legs f t rate shift scale"
proof -
  have "fold (\<lambda>l v. let sigma = fmax (rnd (1 / 10000)) (fmul (ml_iv l) scale);
           px = black76_price m (fadd f shift) (ml_strike l) t sigma rate (ml_right l)
       in fadd v (fmul px (of_i (ml_qty l)))) legs x =
    foldl fadd x (map (\<lambda>l.
       let vol = fmul (ml_iv l) scale; vol' = (if flt (rnd (1 / 10000)) vol then vol else rnd (1 / 10000))
       in fmul (black76_price m (fadd f shift) (ml_strike l) t vol' rate (ml_right l)) (of_i (ml_qty l))) legs)" for x
    by (induction legs arbitrary: x) (simp_all add: Let_def fmax_def)
  then show ?thesis by (simp add: portfolio_value_def book_value_def)
qed

lemma scenario_losses:
  "map (scenario_loss m legs f t rate p) (build_scenarios (extreme_multiplier p) (extreme_weight p)) =
    map (\<lambda>(move, vol, wt). fmul (fsub (book_value m legs f t rate (Fin 0) (Fin 1))
      (book_value m legs f t rate (fmul move (fmul f (price_scan_pct p))) (fadd (Fin 1) (fmul vol (vol_scan_pct p))))) wt)
      (span_moves p)"
  by (simp add: build_scenarios_def span_moves_def scenario_loss_def portfolio_value_book Let_def)

text \<open>C17: the margin of a book.  A book that is empty, or has nothing short, or whose forward is not
  positive, requires nothing.  Any other requires span plus exposure.  The scanning risk is the worst
  of the sixteen losses: what the book is worth now less what it is worth after the forward moves by a
  fraction of the price scan range and the volatilities by a fraction of theirs, times the weight; it
  is the loss of the scenario the result names (or zero, naming none).  The floor is charged exactly
  when it exceeds that risk, and floor and exposure are charged on the net short size, long contracts
  offsetting short ones one for one.\<close>

theorem margin_is_worst_case_plus_exposure:
  assumes r_def: "r = span_margin m legs f t rate p"
    and losses_def: "losses = map (\<lambda>(move, vol, wt). fmul (fsub (book_value m legs f t rate (Fin 0) (Fin 1))
      (book_value m legs f t rate (fmul move (fmul f (price_scan_pct p))) (fadd (Fin 1) (fmul vol (vol_scan_pct p))))) wt)
      (span_moves p)"
    and net_def: "net = max 0 (- sum_list (map ml_qty legs))"
  shows "(\<not> flt (Fin 0) f \<or> (\<forall>l \<in> set legs. 0 \<le> ml_qty l) \<longrightarrow>
      mr_span r = 0 \<and> mr_exposure r = 0 \<and> mr_total r = 0 \<and> scanning_risk r = Fin 0 \<and> worst_scenario r = - 1 \<and>
      \<not> floor_applied r) \<and>
    (flt (Fin 0) f \<and> (\<exists>l \<in> set legs. ml_qty l < 0) \<longrightarrow>
      length losses = 16 \<and> mr_total r = mr_span r + mr_exposure r \<and>
      net_option_value r = book_value m legs f t rate (Fin 0) (Fin 1) \<and>
      (\<forall>x \<in> set losses. \<not> flt (scanning_risk r) x) \<and>
      (worst_scenario r = - 1 \<and> scanning_risk r = Fin 0 \<or>
       0 \<le> worst_scenario r \<and> nat (worst_scenario r) < 16 \<and> flt (Fin 0) (scanning_risk r) \<and>
         scanning_risk r = losses ! nat (worst_scenario r)) \<and>
      short_option_min r = fmul (fmul f (of_i net)) (short_option_minimum_pct p) \<and>
      floor_applied r = flt (scanning_risk r) (short_option_min r) \<and>
      mr_span r = Money (llround (fmul (if floor_applied r then short_option_min r else scanning_risk r) (Fin 100))) \<and>
      mr_exposure r = Money (llround (fmul (fmul (fmul f (of_i net)) (exposure_pct p)) (Fin 100))))"
proof (cases "flt (Fin 0) f \<and> (\<exists>l \<in> set legs. ml_qty l < 0)")
  case False
  then have "r = no_margin" by (auto simp: r_def span_margin_def list_ex_iff)
  then show ?thesis using False by (auto simp: no_margin_def)
next
  case True
  then have short: "list_ex (\<lambda>l. ml_qty l < 0) legs" "legs \<noteq> []" by (auto simp: list_ex_iff)
  have len: "length losses = 16" by (simp add: losses_def span_moves_def)
  note losses = losses_def [folded scenario_losses]
  obtain risk w where rw: "fold scan_step (zip (map int [0..<length losses]) losses) (Fin 0, - 1) = (risk, w)" by fastforce
  obtain a b where ab: "contracts legs = (a, b)" by fastforce
  have net: "max 0 (a - b) = net"
    using contracts_net [of legs 0 0 a b] ab by (simp add: contracts_def net_def)
  have scan: "(\<forall>x \<in> set losses. \<not> flt risk x) \<and> (risk = Fin 0 \<and> w = - 1 \<or>
      flt (Fin 0) risk \<and> (\<exists>i < length losses. w = int i \<and> risk = losses ! i))"
    using scan_steps [of 0 losses "Fin 0" "- 1" risk w] rw by simp
  have r: "r = \<lparr>mr_span = Money (llround (fmul (if flt risk (fmul (fmul f (of_i net)) (short_option_minimum_pct p))
           then fmul (fmul f (of_i net)) (short_option_minimum_pct p) else risk) (Fin 100))),
       mr_exposure = Money (llround (fmul (fmul (fmul f (of_i net)) (exposure_pct p)) (Fin 100))),
       mr_total = Money (llround (fmul (if flt risk (fmul (fmul f (of_i net)) (short_option_minimum_pct p))
           then fmul (fmul f (of_i net)) (short_option_minimum_pct p) else risk) (Fin 100))) +
         Money (llround (fmul (fmul (fmul f (of_i net)) (exposure_pct p)) (Fin 100))),
       scanning_risk = risk, short_option_min = fmul (fmul f (of_i net)) (short_option_minimum_pct p),
       net_option_value = book_value m legs f t rate (Fin 0) (Fin 1), worst_scenario = w,
       floor_applied = flt risk (fmul (fmul f (of_i net)) (short_option_minimum_pct p))\<rparr>"
    using short True unfolding r_def span_margin_def
    by (simp only: losses [symmetric] rw ab net portfolio_value_book Let_def prod.case if_False if_True not_True_eq_False simp_thms)
  have "\<not> (\<not> flt (Fin 0) f \<or> (\<forall>l \<in> set legs. 0 \<le> ml_qty l))" using True by (auto simp: not_le)
  then show ?thesis using scan len by (auto simp: r)
qed

definition naked_call :: margin_leg where
  "naked_call = \<lparr>ml_right = Call, ml_strike = Fin 100, ml_qty = - 75, ml_iv = Fin (1 / 4)\<rparr>"

theorem margin_is_worst_case_plus_exposure_witness:
  "let r = span_margin flat_libm [naked_call] (Fin 100) (Fin 1) (Fin 0) default_span
   in mr_total r = mr_span r + mr_exposure r \<and> short_option_min r = fmul (fmul (Fin 100) (of_i 75)) (rnd (15 / 1000))"
  using margin_is_worst_case_plus_exposure [of _ flat_libm "[naked_call]" "Fin 100" "Fin 1" "Fin 0" default_span, OF refl refl refl]
  by (simp add: naked_call_def default_span_def Let_def)

end
