(* ===== verification/Bars.thy ===== *)
theory Bars
  imports Quotes
begin

text \<open>
  \<open>bars.hpp\<close> and \<open>bars.cpp\<close>: resampling of one instrument into bars, and the accessors that gate
  on the close time.  The specification is the list of usable prints: a bar summarises the prints
  of its bucket, the completed bars at a time are those of the buckets that have closed, and the
  forming bar summarises the prints of the current bucket so far.  All three depend on the prints
  up to the time of the query only.
\<close>

section \<open>State and operations\<close>

datatype bar_price = Last | Mid

record bar =
  open_time :: timestamp
  close_time :: timestamp
  bar_open :: price
  bar_high :: price
  bar_low :: price
  bar_close :: price
  volume :: qty
  observations :: nat

record bar_series =
  bars_all :: "bar list"
  bs_cols :: quote_columns
  bs_valid_until :: timestamp
  bs_anchor :: timestamp
  bs_source :: bar_price
  bs_interval :: int

definition price_of :: "bar_price \<Rightarrow> quote_columns \<Rightarrow> nat \<Rightarrow> price" where
  "price_of src cols i =
     (if src = Mid
      then let q = column_at cols i in if two_sided q then mid q else q_last q
      else c_last cols ! i)"

definition bucket_of :: "timestamp \<Rightarrow> int \<Rightarrow> timestamp \<Rightarrow> int" where
  "bucket_of anchor interval t =
     (let delta = nanos t - nanos anchor
      in if 0 \<le> delta then cdiv delta interval
         else - cdiv (- delta + interval - 1) interval)"

definition new_bar :: "timestamp \<Rightarrow> int \<Rightarrow> int \<Rightarrow> price \<Rightarrow> qty \<Rightarrow> bar" where
  "new_bar anchor interval b px vol =
     (let ot = nanos anchor + b * interval
      in \<lparr>open_time = Timestamp ot, close_time = Timestamp (ot + interval), bar_open = px,
          bar_high = px, bar_low = px, bar_close = px, volume = vol, observations = 1\<rparr>)"

definition extend_bar :: "price \<Rightarrow> qty \<Rightarrow> bar \<Rightarrow> bar" where
  "extend_bar px vol bar =
     bar\<lparr>bar_high := Price (max (minor (bar_high bar)) (minor px)),
         bar_low := Price (min (minor (bar_low bar)) (minor px)), bar_close := px,
         volume := volume bar + vol, observations := observations bar + 1\<rparr>"

text \<open>One iteration of the loop of \<open>build\<close>; the state is \<open>bars_\<close>, \<open>current\<close> and \<open>open_bar\<close>.\<close>

definition build_step ::
    "quote_columns \<Rightarrow> int \<Rightarrow> timestamp \<Rightarrow> bar_price \<Rightarrow> nat \<Rightarrow> bar list \<times> int \<times> bool \<Rightarrow> bar list \<times> int \<times> bool" where
  "build_step cols interval anchor src i = (\<lambda>(bars, current, open_bar).
     let px = price_of src cols i
     in if minor px \<le> 0 then (bars, current, open_bar)
        else let b = bucket_of anchor interval (c_ts cols ! i)
          in if \<not> open_bar \<or> b \<noteq> current
             then (bars @ [new_bar anchor interval b px (c_last_qty cols ! i)], b, True)
             else (butlast bars @ [extend_bar px (c_last_qty cols ! i) (last bars)], current, open_bar))"

definition build ::
    "quote_columns \<Rightarrow> int \<Rightarrow> timestamp \<Rightarrow> bar_price \<Rightarrow> timestamp \<Rightarrow> exn + bar_series" where
  "build cols interval anchor src valid_until =
     (if interval \<le> 0 then Inl (InvalidArgument ''BarSeries::build: interval must be > 0'')
      else let (bars, _) = fold (build_step cols interval anchor src) [0..<size_of cols] ([], 0, False)
        in Inr \<lparr>bars_all = bars, bs_cols = cols, bs_valid_until = valid_until, bs_anchor = anchor,
                bs_source = src, bs_interval = interval\<rparr>)"

definition known_count :: "bar_series \<Rightarrow> timestamp \<Rightarrow> exn + nat" where
  "known_count s now =
     (if nanos (bs_valid_until s) \<noteq> 0 \<and> bs_valid_until s < now
      then Inl (LogicError
        ''bar series belongs to an earlier session; re-acquire it for the current one'')
      else Inr (bsearch (\<lambda>b. now < close_time b) (bars_all s) 0 (length (bars_all s))))"

definition completed :: "bar_series \<Rightarrow> timestamp \<Rightarrow> int \<Rightarrow> exn + bar option" where
  "completed s now steps =
     (if steps < 0
      then Inl (InvalidArgument ''BarSeries::completed: negative offset reads forward'')
      else case known_count s now of
             Inl e \<Rightarrow> Inl e
           | Inr k \<Rightarrow>
               if k = 0 \<or> k \<le> nat steps then Inr None
               else Inr (Some (bars_all s ! (k - 1 - nat steps))))"

text \<open>One iteration of the loop of \<open>forming\<close>; \<open>None\<close> is a bar not yet started.\<close>

definition forming_step :: "bar_series \<Rightarrow> bar \<Rightarrow> nat \<Rightarrow> bar option \<Rightarrow> bar option" where
  "forming_step s stored i acc =
     (if c_ts (bs_cols s) ! i < open_time stored then acc
      else let px = price_of (bs_source s) (bs_cols s) i; vol = c_last_qty (bs_cols s) ! i
        in if minor px \<le> 0 then acc
           else Some (case acc of
             None \<Rightarrow> \<lparr>open_time = open_time stored, close_time = close_time stored, bar_open = px,
               bar_high = px, bar_low = px, bar_close = px, volume = vol, observations = 1\<rparr>
           | Some bar \<Rightarrow> extend_bar px vol bar))"

definition forming :: "bar_series \<Rightarrow> timestamp \<Rightarrow> exn + bar option" where
  "forming s now =
     (case known_count s now of
        Inl e \<Rightarrow> Inl e
      | Inr k \<Rightarrow>
          if length (bars_all s) \<le> k then Inr None
          else let stored = bars_all s ! k
            in if now < open_time stored then Inr None
               else case index_at_or_before (bs_cols s) now of
                      None \<Rightarrow> Inr None
                    | Some idx \<Rightarrow> Inr (fold (forming_step s stored) [0..<Suc idx] None))"

section \<open>Specification\<close>

type_synonym bar_print = "timestamp \<times> price \<times> qty"

definition prints :: "bar_price \<Rightarrow> quote_columns \<Rightarrow> bar_print list" where
  "prints src c =
     map (\<lambda>i. (c_ts c ! i, price_of src c i, c_last_qty c ! i))
       (filter (\<lambda>i. 0 < minor (price_of src c i)) [0..<size_of c])"

definition summary :: "timestamp \<Rightarrow> int \<Rightarrow> int \<Rightarrow> bar_print list \<Rightarrow> bar" where
  "summary anchor interval b ps =
     (let pxs = map (\<lambda>(_, px, _). minor px) ps
      in \<lparr>open_time = Timestamp (nanos anchor + b * interval),
          close_time = Timestamp (nanos anchor + b * interval + interval),
          bar_open = Price (hd pxs), bar_high = Price (Max (set pxs)),
          bar_low = Price (Min (set pxs)), bar_close = Price (last pxs),
          volume = (\<Sum>(_, _, v)\<leftarrow>ps. v), observations = length ps\<rparr>)"

definition floor_bucket :: "timestamp \<Rightarrow> int \<Rightarrow> timestamp \<Rightarrow> int" where
  "floor_bucket anchor interval t = (nanos t - nanos anchor) div interval"

definition bucket_prints :: "timestamp \<Rightarrow> int \<Rightarrow> int \<Rightarrow> bar_print list \<Rightarrow> bar_print list" where
  "bucket_prints anchor interval b ps = filter (\<lambda>(t, _). floor_bucket anchor interval t = b) ps"

definition buckets :: "timestamp \<Rightarrow> int \<Rightarrow> bar_print list \<Rightarrow> int list" where
  "buckets anchor interval ps = remdups_adj (map (\<lambda>(t, _). floor_bucket anchor interval t) ps)"

definition bars_of :: "timestamp \<Rightarrow> int \<Rightarrow> bar_print list \<Rightarrow> bar list" where
  "bars_of anchor interval ps =
     map (\<lambda>b. summary anchor interval b (bucket_prints anchor interval b ps)) (buckets anchor interval ps)"

section \<open>Buckets\<close>

lemma bucket_of_floor:
  assumes "0 < interval"
  shows "bucket_of anchor interval t = floor_bucket anchor interval t"
proof (cases "0 \<le> nanos t - nanos anchor")
  case True
  then show ?thesis using assms by (simp add: bucket_of_def floor_bucket_def cdiv_nonneg)
next
  case False
  define d where "d = nanos anchor - nanos t"
  have d: "0 < d" using False by (simp add: d_def)
  have "(- d) div interval = - ((d + interval - 1) div interval)"
  proof (rule div_eqI)
    let ?k = "(d + interval - 1) div interval"
    have m: "interval * ?k + (d + interval - 1) mod interval = d + interval - 1" by simp
    have r: "0 \<le> (d + interval - 1) mod interval" "(d + interval - 1) mod interval < interval"
      using assms by simp_all
    have k: "interval * ?k = ?k * interval" by simp
    show "- ?k * interval \<le> - d" using m r k by linarith
    have "(- ?k + 1) * interval = interval - ?k * interval" by (simp add: algebra_simps)
    then show "- d < (- ?k + 1) * interval" using m r k by linarith
  qed
  moreover have "cdiv (d + interval - 1) interval = (d + interval - 1) div interval"
    using d assms by (simp add: cdiv_nonneg)
  ultimately show ?thesis using False
    by (simp add: bucket_of_def floor_bucket_def Let_def d_def)
qed

lemma floor_bucket_mono: "0 < interval \<Longrightarrow> s \<le> t \<Longrightarrow> floor_bucket anchor interval s \<le> floor_bucket anchor interval t"
  by (simp add: floor_bucket_def less_eq_timestamp_def zdiv_mono1)

lemma floor_bucket_bounds:
  assumes "0 < interval"
  shows "Timestamp (nanos anchor + floor_bucket anchor interval t * interval) \<le> t"
    and "t < Timestamp (nanos anchor + floor_bucket anchor interval t * interval + interval)"
proof -
  have m: "interval * floor_bucket anchor interval t + (nanos t - nanos anchor) mod interval = nanos t - nanos anchor"
    by (simp add: floor_bucket_def)
  have "0 \<le> (nanos t - nanos anchor) mod interval" "(nanos t - nanos anchor) mod interval < interval"
    using assms by simp_all
  with m show "Timestamp (nanos anchor + floor_bucket anchor interval t * interval) \<le> t"
    "t < Timestamp (nanos anchor + floor_bucket anchor interval t * interval + interval)"
    by (simp_all add: less_eq_timestamp_def less_timestamp_def mult.commute)
qed

section \<open>The loop builds the specification\<close>

definition prints_sorted :: "bar_print list \<Rightarrow> bool" where
  "prints_sorted ps \<longleftrightarrow> sorted (map fst ps)"

fun add_print :: "timestamp \<Rightarrow> int \<Rightarrow> bar_print \<Rightarrow> bar list \<times> int \<times> bool \<Rightarrow> bar list \<times> int \<times> bool" where
  "add_print anchor interval (t, px, vol) (bars, current, open_bar) =
     (let b = floor_bucket anchor interval t
      in if \<not> open_bar \<or> b \<noteq> current then (bars @ [new_bar anchor interval b px vol], b, True)
         else (butlast bars @ [extend_bar px vol (last bars)], current, open_bar))"

lemma fold_build_step:
  assumes "0 < interval"
  shows "fold (build_step c interval anchor src) is st =
    fold (add_print anchor interval)
      (map (\<lambda>i. (c_ts c ! i, price_of src c i, c_last_qty c ! i))
        (filter (\<lambda>i. 0 < minor (price_of src c i)) is)) st"
  by (induction "is" arbitrary: st)
    (auto simp: build_step_def Let_def bucket_of_floor [OF assms] not_less split: prod.splits)

lemma summary_single: "summary anchor interval b [(t, px, vol)] = new_bar anchor interval b px vol"
  by (simp add: summary_def new_bar_def Let_def)

lemma summary_snoc:
  assumes "ps \<noteq> []"
  shows "summary anchor interval b (ps @ [(t, px, vol)]) = extend_bar px vol (summary anchor interval b ps)"
  using assms by (simp add: summary_def extend_bar_def Let_def Max_insert Min_insert max.commute min.commute)

lemma buckets_snoc:
  "buckets a n (ps @ [(t, px, vol)]) =
     (if ps \<noteq> [] \<and> floor_bucket a n (fst (last ps)) = floor_bucket a n t then buckets a n ps
      else buckets a n ps @ [floor_bucket a n t])"
  by (cases ps rule: rev_cases) (auto simp: buckets_def remdups_adj_append_two remdups_adj_append')

lemma last_buckets: "ps \<noteq> [] \<Longrightarrow> buckets a n ps \<noteq> [] \<and> last (buckets a n ps) = floor_bucket a n (fst (last ps))"
  by (simp add: buckets_def last_map case_prod_unfold)

lemma buckets_strict:
  assumes "0 < n" and "prints_sorted ps"
  shows "sorted_wrt (<) (buckets a n ps)"
proof -
  have "sorted (map (\<lambda>(t, _). floor_bucket a n t) ps)"
    using assms(2) unfolding prints_sorted_def sorted_map
    by (rule sorted_wrt_mono_rel [rotated]) (auto intro: floor_bucket_mono [OF assms(1)])
  then show ?thesis by (simp add: buckets_def strict_remdups_adj)
qed

lemma bars_of_snoc:
  assumes "0 < n" and "prints_sorted (ps @ [(t, px, vol)])"
  shows "bars_of a n (ps @ [(t, px, vol)]) =
    (if ps \<noteq> [] \<and> floor_bucket a n (fst (last ps)) = floor_bucket a n t
     then butlast (bars_of a n ps) @ [extend_bar px vol (last (bars_of a n ps))]
     else bars_of a n ps @ [new_bar a n (floor_bucket a n t) px vol])"
proof -
  let ?b = "floor_bucket a n t" and ?sum = "\<lambda>ps b. summary a n b (bucket_prints a n b ps)"
  have bp: "bucket_prints a n b (ps @ [(t, px, vol)]) =
      bucket_prints a n b ps @ (if b = ?b then [(t, px, vol)] else [])" for b
    by (simp add: bucket_prints_def)
  have le: "floor_bucket a n s \<le> ?b" if "(s, x) \<in> set ps" for s x
    using assms that by (intro floor_bucket_mono) (auto simp: prints_sorted_def sorted_append)
  have strict: "sorted_wrt (<) (buckets a n ps)"
    using assms by (intro buckets_strict) (auto simp: prints_sorted_def sorted_append)
  show ?thesis
  proof (cases "ps \<noteq> [] \<and> floor_bucket a n (fst (last ps)) = ?b")
    case True
    then obtain bs where bs: "buckets a n ps = bs @ [?b]"
      using last_buckets [of ps a n] by (metis append_butlast_last_id)
    have old: "?sum (ps @ [(t, px, vol)]) b = ?sum ps b" if "b \<in> set bs" for b
      using strict that by (auto simp: bs bp sorted_wrt_append)
    have "last ps \<in> set ps" using True by simp
    then have "bucket_prints a n ?b ps \<noteq> []"
      using True by (auto simp: bucket_prints_def filter_empty_conv intro!: bexI [of _ "last ps"])
    then have "?sum (ps @ [(t, px, vol)]) ?b = extend_bar px vol (?sum ps ?b)"
      by (simp add: bp summary_snoc)
    with True old bs show ?thesis by (simp add: bars_of_def buckets_snoc butlast_append)
  next
    case False
    have new: "floor_bucket a n s \<noteq> ?b" if "(s, x) \<in> set ps" for s x
    proof
      assume eq: "floor_bucket a n s = ?b"
      have ne: "ps \<noteq> []" using that by auto
      have "s \<le> fst (last ps)"
        using assms(2) that ne sorted_le_last [of "map fst ps" s]
        by (force simp: prints_sorted_def sorted_append last_map)
      then have "?b \<le> floor_bucket a n (fst (last ps))"
        using floor_bucket_mono [OF assms(1)] eq by metis
      moreover have "floor_bucket a n (fst (last ps)) \<le> ?b"
        using le [of "fst (last ps)" "snd (last ps)"] ne by simp
      ultimately show False using False ne by simp
    qed
    then have "bucket_prints a n ?b ps = []" by (auto simp: bucket_prints_def filter_empty_conv)
    then have "?sum (ps @ [(t, px, vol)]) ?b = new_bar a n ?b px vol" by (simp add: bp summary_single)
    moreover have "?sum (ps @ [(t, px, vol)]) b = ?sum ps b" if "b \<in> set (buckets a n ps)" for b
      using that new by (auto simp: bp buckets_def)
    moreover have "(ps \<noteq> [] \<and> floor_bucket a n (fst (last ps)) = ?b) = False" using False by blast
    ultimately show ?thesis by (simp only: bars_of_def buckets_snoc if_False) simp
  qed
qed

lemma fold_add_print:
  assumes "0 < n" and "prints_sorted ps"
  shows "fold (add_print a n) ps ([], 0, False) =
    (bars_of a n ps, if ps = [] then 0 else floor_bucket a n (fst (last ps)), ps \<noteq> [])"
  using assms(2)
proof (induction ps rule: rev_induct)
  case Nil
  then show ?case by (simp add: bars_of_def buckets_def)
next
  case (snoc p ps)
  obtain t px vol where p: "p = (t, px, vol)" by (cases p)
  have "prints_sorted ps" using snoc.prems by (simp add: prints_sorted_def sorted_append)
  then show ?case
    using snoc bars_of_snoc [OF assms(1), of ps t px vol a]
    by (auto simp: p Let_def)
qed

lemma prints_sorted_prints: "columns_ok c \<Longrightarrow> prints_sorted (prints src c)"
proof -
  assume ok: "columns_ok c"
  have "sorted_wrt (\<lambda>i j. c_ts c ! i \<le> c_ts c ! j) [0..<length (c_ts c)]"
    using columns_okD [OF ok] by (simp add: sorted_wrt_iff_nth_less sorted_nth_mono)
  then have "sorted (map (\<lambda>i. c_ts c ! i) (filter P [0..<size_of c]))" for P
    by (simp add: sorted_map size_of_def sorted_wrt_filter)
  then show ?thesis by (simp add: prints_sorted_def prints_def comp_def)
qed

lemma build_spec:
  assumes "0 < interval" and "columns_ok c"
  shows "build c interval anchor src valid_until =
    Inr \<lparr>bars_all = bars_of anchor interval (prints src c), bs_cols = c,
         bs_valid_until = valid_until, bs_anchor = anchor, bs_source = src, bs_interval = interval\<rparr>"
  using assms fold_add_print [OF assms(1) prints_sorted_prints [OF assms(2)], of anchor src]
  by (simp add: build_def fold_build_step prints_def)

section \<open>The accessors read the past\<close>

definition closed_bars :: "timestamp \<Rightarrow> int \<Rightarrow> bar_print list \<Rightarrow> timestamp \<Rightarrow> bar list" where
  "closed_bars a n ps now = filter (\<lambda>b. close_time b \<le> now) (bars_of a n ps)"

definition current_bar :: "timestamp \<Rightarrow> int \<Rightarrow> bar_print list \<Rightarrow> timestamp \<Rightarrow> bar option" where
  "current_bar a n ps now =
     (let b = floor_bucket a n now; cur = bucket_prints a n b ps
      in if cur = [] then None else Some (summary a n b cur))"

definition prints_upto :: "timestamp \<Rightarrow> bar_print list \<Rightarrow> bar_print list" where
  "prints_upto now ps = filter (\<lambda>(t, _). t \<le> now) ps"

lemma close_time_summary [simp]:
  "close_time (summary a n b ps) = Timestamp (nanos a + b * n + n)"
  "open_time (summary a n b ps) = Timestamp (nanos a + b * n)"
  by (simp_all add: summary_def Let_def)

lemma bucket_le:
  assumes "0 < n"
  shows "Timestamp (nanos a + b * n) \<le> t \<longleftrightarrow> b \<le> floor_bucket a n t"
proof -
  let ?x = "nanos t - nanos a"
  have "b * n \<le> ?x \<longleftrightarrow> b \<le> ?x div n"
  proof
    assume "b * n \<le> ?x"
    then have "b * n div n \<le> ?x div n" using assms by (rule zdiv_mono1)
    then show "b \<le> ?x div n" using assms by simp
  next
    assume "b \<le> ?x div n"
    then have "b * n \<le> (?x div n) * n" using assms by (intro mult_right_mono) auto
    also have "\<dots> \<le> ?x" using pos_mod_sign [OF assms, of ?x] by (simp add: minus_mod_eq_div_mult [symmetric])
    finally show "b * n \<le> ?x" .
  qed
  then show ?thesis by (auto simp: floor_bucket_def less_eq_timestamp_def)
qed

lemma bucket_close_le:
  assumes "0 < n"
  shows "Timestamp (nanos a + b * n + n) \<le> now \<longleftrightarrow> b < floor_bucket a n now"
proof -
  have "nanos a + b * n + n = nanos a + (b + 1) * n" by (simp add: distrib_right)
  then show ?thesis using bucket_le [OF assms, of a "b + 1" now] by (simp only: add1_zle_eq)
qed

lemma bars_close_sorted:
  assumes "0 < n" and "prints_sorted ps"
  shows "sorted_wrt (\<lambda>x y. close_time x < close_time y) (bars_of a n ps)"
  using buckets_strict [OF assms, of a] assms(1)
  by (auto simp: bars_of_def sorted_wrt_map intro: sorted_wrt_mono_rel [rotated])

lemma known_count_spec:
  assumes "0 < n" and "prints_sorted ps" and "bars_all s = bars_of a n ps"
    and "nanos (bs_valid_until s) = 0 \<or> now \<le> bs_valid_until s"
  shows "known_count s now = Inr (length (closed_bars a n ps now))"
    and "take (length (closed_bars a n ps now)) (bars_of a n ps) = closed_bars a n ps now"
proof -
  note sorted = bars_close_sorted [OF assms(1,2), of a]
  have tw: "takeWhile (\<lambda>b. close_time b \<le> now) (bars_of a n ps) = closed_bars a n ps now"
    unfolding closed_bars_def by (rule takeWhile_sorted_filter [OF sorted]) (metis less_imp_le order_trans)
  have "bsearch (\<lambda>b. now < close_time b) (bars_of a n ps) 0 (length (bars_of a n ps)) =
      length (takeWhile (\<lambda>b. \<not> now < close_time b) (bars_of a n ps))"
    by (rule sorted_bsearch [OF sorted]) (metis less_trans)
  then show "known_count s now = Inr (length (closed_bars a n ps now))"
    using assms(3,4) tw by (auto simp: known_count_def not_less)
  show "take (length (closed_bars a n ps now)) (bars_of a n ps) = closed_bars a n ps now"
    by (metis tw take_length_takeWhile)
qed

text \<open>The closed bars are those of the prints so far.\<close>

lemma closed_bars_upto:
  assumes "0 < n" and "prints_sorted ps"
  shows "closed_bars a n ps now = closed_bars a n (prints_upto now ps) now"
proof -
  let ?qs = "prints_upto now ps" and ?B = "floor_bucket a n now"
  have qs: "prints_sorted ?qs"
    using assms(2) by (auto simp: prints_sorted_def prints_upto_def sorted_map case_prod_unfold intro: sorted_wrt_filter)
  have early: "t \<le> now" if "floor_bucket a n t < ?B" for t
    using floor_bucket_mono [OF assms(1), of now t a] that by (meson leD linear)
  have "filter (\<lambda>b. b < ?B) (buckets a n ps) = filter (\<lambda>b. b < ?B) (buckets a n ?qs)"
    by (rule sorted_distinct_set_unique)
      (use buckets_strict [OF assms(1)] assms(2) qs early in
        \<open>auto simp: strict_sorted_iff buckets_def prints_upto_def sorted_wrt_filter\<close>)
  moreover have "bucket_prints a n b ps = bucket_prints a n b ?qs" if "b < ?B" for b
    using that early by (auto simp: bucket_prints_def prints_upto_def intro!: filter_cong)
  ultimately show ?thesis
    by (simp add: closed_bars_def bars_of_def filter_map comp_def bucket_close_le [OF assms(1)])
qed

lemma completed_spec:
  assumes "0 < n" and "prints_sorted ps" and "bars_all s = bars_of a n ps" and "0 \<le> steps"
    and "nanos (bs_valid_until s) = 0 \<or> now \<le> bs_valid_until s"
  shows "completed s now steps = Inr (let bs = closed_bars a n ps now
    in if length bs \<le> nat steps then None else Some (bs ! (length bs - 1 - nat steps)))"
proof -
  note k = known_count_spec [OF assms(1-3,5)]
  have "bars_of a n ps ! i = closed_bars a n ps now ! i" if "i < length (closed_bars a n ps now)" for i
    using that by (metis k(2) nth_take)
  then show ?thesis using assms(3,4) by (auto simp: completed_def k(1) Let_def)
qed

lemma prints_upto_columns:
  assumes "columns_ok c"
  shows "prints src (upto_time t c) = prints_upto t (prints src c)"
proof -
  let ?n = "count_upto c t"
  have row: "price_of src (upto_time t c) i = price_of src c i"
    "c_ts (upto_time t c) ! i = c_ts c ! i" "c_last_qty (upto_time t c) ! i = c_last_qty c ! i"
    if "i < ?n" for i
    using column_at_upto [OF that] that
    by (simp_all add: price_of_def upto_time_def first_rows_def)
  have split: "[0..<size_of c] = [0..<?n] @ [?n..<size_of c]"
    using count_upto_le_size [of c t] by (metis le_add_diff_inverse upt_add_eq_append zero_le)
  have "prints src (upto_time t c) = map (\<lambda>i. (c_ts c ! i, price_of src c i, c_last_qty c ! i))
      (filter (\<lambda>i. 0 < minor (price_of src c i)) [0..<?n])"
    unfolding prints_def size_of_upto by (auto simp: row intro!: map_cong filter_cong)
  also have "\<dots> = prints_upto t (prints src c)"
    unfolding prints_def prints_upto_def split
    using nth_le_iff_count_upto [OF assms, of _ t] count_upto_le_size [of c t]
    by (auto simp: filter_map comp_def intro!: arg_cong [where f = "map _"] filter_cong filter_False [symmetric])
  finally show ?thesis .
qed

lemma forming_loop:
  assumes "stored = summary a n b ps'"
  shows "fold (forming_step s stored) is None =
    (let cur = map (\<lambda>i. (c_ts (bs_cols s) ! i, price_of (bs_source s) (bs_cols s) i, c_last_qty (bs_cols s) ! i))
        (filter (\<lambda>i. 0 < minor (price_of (bs_source s) (bs_cols s) i) \<and>
           Timestamp (nanos a + b * n) \<le> c_ts (bs_cols s) ! i) is)
     in if cur = [] then None else Some (summary a n b cur))"
proof (induction "is" rule: rev_induct)
  case (snoc i "is")
  then show ?case
    using summary_snoc [of _ a n b]
    by (auto simp: forming_step_def Let_def assms summary_single new_bar_def not_less not_le)
qed simp

lemma forming_spec:
  assumes "0 < n" and "columns_ok (bs_cols s)"
    and "bars_all s = bars_of a n (prints (bs_source s) (bs_cols s))"
    and "nanos (bs_valid_until s) = 0 \<or> now \<le> bs_valid_until s"
  shows "forming s now = Inr (current_bar a n (prints_upto now (prints (bs_source s) (bs_cols s))) now)"
proof -
  let ?c = "bs_cols s" and ?B = "floor_bucket a n now"
  define ps where "ps = prints (bs_source s) ?c"
  define cur where "cur = bucket_prints a n ?B (prints_upto now ps)"
  have sorted: "prints_sorted ps" unfolding ps_def by (rule prints_sorted_prints [OF assms(2)])
  note strict = buckets_strict [OF assms(1) sorted, of a]
  have all: "bars_all s = bars_of a n ps" using assms(3) by (simp add: ps_def)
  note known = known_count_spec [OF assms(1) sorted all assms(4)]
  define k where "k = length (closed_bars a n ps now)"
  have len: "length (bars_of a n ps) = length (buckets a n ps)" by (simp add: bars_of_def)
  have nth: "bars_of a n ps ! i = summary a n (buckets a n ps ! i) (bucket_prints a n (buckets a n ps ! i) ps)"
    if "i < length (buckets a n ps)" for i using that by (simp add: bars_of_def)
  have below: "buckets a n ps ! i < ?B" if "i < k" "i < length (buckets a n ps)" for i
  proof -
    have "bars_of a n ps ! i \<in> set (closed_bars a n ps now)"
      using that known(2) k_def by (metis nth_mem nth_take)
    then have "close_time (bars_of a n ps ! i) \<le> now" by (simp add: closed_bars_def)
    then show ?thesis using nth [OF that(2)] bucket_close_le [OF assms(1)] by simp
  qed
  have cur_in: "?B \<in> set (buckets a n ps)" if "cur \<noteq> []"
    using that by (auto simp: cur_def bucket_prints_def prints_upto_def buckets_def filter_empty_conv
      intro!: image_eqI)
  have res: "current_bar a n (prints_upto now ps) now = (if cur = [] then None else Some (summary a n ?B cur))"
    by (simp add: current_bar_def cur_def Let_def)
  have "forming s now = Inr (if cur = [] then None else Some (summary a n ?B cur))"
  proof (cases "length (buckets a n ps) \<le> k")
    case True
    then have "b < ?B" if "b \<in> set (buckets a n ps)" for b
      using that below by (auto simp: in_set_conv_nth)
    then have "cur = []" using cur_in by blast
    then show ?thesis using True known(1) all len by (simp add: forming_def k_def)
  next
    case False
    define b where "b = buckets a n ps ! k"
    have stored: "bars_all s ! k = summary a n b (bucket_prints a n b ps)"
      using False nth all by (simp add: b_def)
    have "\<not> close_time (bars_all s ! k) \<le> now"
    proof
      assume le: "close_time (bars_all s ! k) \<le> now"
      have "close_time x \<le> now" if x: "x \<in> set (take (Suc k) (bars_of a n ps))" for x
      proof -
        obtain i where "i < length (take (Suc k) (bars_of a n ps))" "x = take (Suc k) (bars_of a n ps) ! i"
          using x unfolding in_set_conv_nth by blast
        then have i: "i < Suc k" "i < length (bars_of a n ps)" "x = bars_of a n ps ! i" by simp_all
        then have "close_time x \<le> close_time (bars_of a n ps ! k)"
          using sorted_wrt_nth_less [OF bars_close_sorted [OF assms(1) sorted, of a], of i k] False len
          by (cases "i = k") auto
        then show ?thesis using le all by simp
      qed
      then have "length (take (Suc k) (bars_of a n ps)) \<le> length (closed_bars a n ps now)"
        unfolding closed_bars_def
        by (metis append_take_drop_id filter_True filter_append length_append le_add1)
      then show False using False len by (simp add: k_def)
    qed
    then have ge: "?B \<le> b" using stored bucket_close_le [OF assms(1)] by (simp add: not_less)
    show ?thesis
    proof (cases "?B = b")
      case neq: False
      have "b' \<noteq> ?B" if b': "b' \<in> set (buckets a n ps)" for b'
      proof -
        obtain i where i: "i < length (buckets a n ps)" "b' = buckets a n ps ! i"
          using b' by (auto simp: in_set_conv_nth)
        show ?thesis
        proof (cases "i < k")
          case False
          then have "b \<le> b'" using i sorted_wrt_nth_less [OF strict, of k i] by (cases "i = k") (auto simp: b_def)
          then show ?thesis using ge neq by simp
        qed (use below [of i] i in auto)
      qed
      then have "cur = []" using cur_in by blast
      moreover have "now < open_time (bars_all s ! k)"
        using ge neq stored bucket_le [OF assms(1), of a b now] by (simp add: not_le [symmetric])
      ultimately show ?thesis using False known(1) all len by (simp add: forming_def k_def Let_def)
    next
      case eq: True
      let ?cur' = "\<lambda>is. map (\<lambda>i. (c_ts ?c ! i, price_of (bs_source s) ?c i, c_last_qty ?c ! i))
        (filter (\<lambda>i. 0 < minor (price_of (bs_source s) ?c i) \<and>
           Timestamp (nanos a + b * n) \<le> c_ts ?c ! i) is)"
      have up: "prints (bs_source s) (upto_time now ?c) = prints_upto now ps"
        unfolding ps_def by (rule prints_upto_columns [OF assms(2)])
      have "?cur' [0..<count_upto ?c now] = filter (\<lambda>(t, _). Timestamp (nanos a + b * n) \<le> t) (prints_upto now ps)"
        unfolding up [symmetric] prints_def size_of_upto
        by (auto simp: filter_map comp_def price_of_def upto_time_def first_rows_def column_at_def
          two_sided_def mid_def intro!: map_cong filter_cong)
      also have "\<dots> = cur"
        unfolding cur_def bucket_prints_def
        using floor_bucket_mono [OF assms(1), of _ now a] eq
        by (auto simp: bucket_le [OF assms(1)] prints_upto_def intro!: filter_cong order_antisym)
      finally have cur': "?cur' [0..<count_upto ?c now] = cur" .
      have "\<not> now < open_time (bars_all s ! k)"
        using stored bucket_le [OF assms(1), of a b now] eq by (simp add: not_less)
      then have f: "forming s now = Inr (fold (forming_step s (bars_all s ! k)) [0..<count_upto ?c now] None)"
        using False known(1) all len index_at_or_before_count [OF assms(2), of now]
        by (auto simp: forming_def k_def Let_def)
      show ?thesis unfolding f forming_loop [OF stored] cur' Let_def eq ..
    qed
  qed
  then show ?thesis unfolding res [symmetric] by (simp add: ps_def)
qed

text \<open>Two series over columns with the same past answer alike.\<close>

lemma bars_same_past:
  assumes "0 < interval" and "columns_ok c" and "columns_ok d"
    and "upto_time t c = upto_time t d" and "now \<le> t"
    and "nanos valid_until = 0 \<or> now \<le> valid_until"
    and "build c interval anchor src valid_until = Inr s"
    and "build d interval anchor src valid_until = Inr s'"
  shows "known_count s now = known_count s' now \<and> completed s now steps = completed s' now steps \<and>
    forming s now = forming s' now \<and>
    (\<forall>b. completed s now steps = Inr (Some b) \<longrightarrow> close_time b \<le> now) \<and>
    forming s now = Inr (current_bar anchor interval (prints_upto now (prints src c)) now)"
proof -
  let ?ps = "prints src c" and ?qs = "prints src d"
  have s: "bars_all s = bars_of anchor interval ?ps" "bs_cols s = c" "bs_source s = src"
    "bs_valid_until s = valid_until"
    using assms(7) build_spec [OF assms(1,2)] by auto
  have s': "bars_all s' = bars_of anchor interval ?qs" "bs_cols s' = d" "bs_source s' = src"
    "bs_valid_until s' = valid_until"
    using assms(8) build_spec [OF assms(1,3)] by auto
  have "upto_time now c = upto_time now d" by (rule same_past(4) [OF assms(4,2,3,5)])
  then have past: "prints_upto now ?ps = prints_upto now ?qs"
    by (simp add: prints_upto_columns [symmetric] assms(2,3))
  note ps = prints_sorted_prints [OF assms(2), of src] and qs = prints_sorted_prints [OF assms(3), of src]
  have closed: "closed_bars anchor interval ?ps now = closed_bars anchor interval ?qs now"
    using closed_bars_upto [OF assms(1) ps] closed_bars_upto [OF assms(1) qs] past by metis
  have v: "nanos (bs_valid_until s) = 0 \<or> now \<le> bs_valid_until s"
    "nanos (bs_valid_until s') = 0 \<or> now \<le> bs_valid_until s'" using assms(6) s s' by auto
  have k: "known_count s now = known_count s' now"
    using known_count_spec(1) [OF assms(1) ps s(1) v(1)] known_count_spec(1) [OF assms(1) qs s'(1) v(2)] closed
    by simp
  have f: "forming s now = Inr (current_bar anchor interval (prints_upto now ?ps) now)"
    using forming_spec [OF assms(1), of s anchor now] s v(1) assms(2) by simp
  have f': "forming s' now = Inr (current_bar anchor interval (prints_upto now ?qs) now)"
    using forming_spec [OF assms(1), of s' anchor now] s' v(2) assms(3) by simp
  have c: "completed s now steps = completed s' now steps \<and>
      (\<forall>b. completed s now steps = Inr (Some b) \<longrightarrow> close_time b \<le> now)"
  proof (cases "0 \<le> steps")
    case True
    have "close_time (closed_bars anchor interval ?ps now ! i) \<le> now"
      if "i < length (closed_bars anchor interval ?ps now)" for i
      using nth_mem [OF that] by (simp add: closed_bars_def)
    then show ?thesis
      using completed_spec [OF assms(1) ps s(1) True v(1)] completed_spec [OF assms(1) qs s'(1) True v(2)] closed
      by (auto simp: Let_def split: if_splits)
  qed (simp add: completed_def)
  show ?thesis using k c f f' past by simp
qed

section \<open>Properties\<close>

text \<open>C7: \<open>build\<close> resamples as documented.  For a positive interval and ascending columns the loop
  produces one bar per session-anchored bucket that has a usable print, in ascending order; each
  bar spans [anchor + b * interval, anchor + (b + 1) * interval), holds the open, high, low,
  close, volume and count of exactly the usable prints of its bucket, every usable print lies in
  its bar's span, and observations before the anchor fall in the buckets below it.\<close>

theorem build_summarises_buckets:
  assumes "0 < interval" and "columns_ok c"
  shows "\<exists>s. build c interval anchor src valid_until = Inr s \<and>
    bars_all s = map (\<lambda>b. summary anchor interval b (bucket_prints anchor interval b (prints src c)))
      (buckets anchor interval (prints src c)) \<and>
    sorted_wrt (<) (buckets anchor interval (prints src c)) \<and>
    (\<forall>(t, px, vol) \<in> set (prints src c). \<exists>b \<in> set (buckets anchor interval (prints src c)).
       Timestamp (nanos anchor + b * interval) \<le> t \<and> t < Timestamp (nanos anchor + b * interval + interval) \<and>
       (t, px, vol) \<in> set (bucket_prints anchor interval b (prints src c)))"
proof -
  have "\<exists>b \<in> set (buckets anchor interval (prints src c)).
      Timestamp (nanos anchor + b * interval) \<le> t \<and> t < Timestamp (nanos anchor + b * interval + interval) \<and>
      (t, px, vol) \<in> set (bucket_prints anchor interval b (prints src c))"
    if "(t, px, vol) \<in> set (prints src c)" for t px vol
    using that floor_bucket_bounds(1) [OF assms(1), of anchor t] floor_bucket_bounds(2) [OF assms(1), of t anchor]
    by (intro bexI [of _ "floor_bucket anchor interval t"]) (auto simp: bucket_prints_def buckets_def
      intro!: image_eqI [of _ _ "(t, px, vol)"])
  then show ?thesis
    using build_spec [OF assms] buckets_strict [OF assms(1) prints_sorted_prints [OF assms(2)]]
    by (auto simp: bars_of_def)
qed

theorem build_summarises_buckets_witness:
  "\<exists>s. build sample_columns 15 (Timestamp 0) Last (Timestamp 0) = Inr s \<and>
     bars_all s =
       [\<lparr>open_time = Timestamp 0, close_time = Timestamp 15, bar_open = Price 100, bar_high = Price 100,
         bar_low = Price 100, bar_close = Price 100, volume = 0, observations = 1\<rparr>,
        \<lparr>open_time = Timestamp 15, close_time = Timestamp 30, bar_open = Price 105, bar_high = Price 110,
         bar_low = Price 105, bar_close = Price 110, volume = 75, observations = 2\<rparr>,
        \<lparr>open_time = Timestamp 30, close_time = Timestamp 45, bar_open = Price 90, bar_high = Price 90,
         bar_low = Price 90, bar_close = Price 90, volume = 150, observations = 1\<rparr>]"
proof -
  have p: "prints Last sample_columns = [(Timestamp 10, Price 100, 0), (Timestamp 20, Price 105, 75),
      (Timestamp 20, Price 110, 0), (Timestamp 30, Price 90, 150)]"
    by code_simp
  from build_summarises_buckets [OF _ sample_columns_ok, of 15 "Timestamp 0" Last "Timestamp 0"]
  show ?thesis
    by (auto simp: p buckets_def floor_bucket_def bucket_prints_def summary_def Let_def)
qed

text \<open>C8: the bar accessors cannot read the future.  Two series built from columns that agree up to
  \<open>t\<close> answer \<open>known_count\<close>, \<open>completed\<close> and \<open>forming\<close> alike at every \<open>now\<close> up to \<open>t\<close>, whatever the
  columns hold afterwards, although both were aggregated from their full columns; a completed bar
  has closed by \<open>now\<close>; and the forming bar is the summary of its bucket's prints so far.\<close>

theorem bars_never_read_the_future:
  assumes "0 < interval" and "columns_ok c" and "columns_ok d"
    and "upto_time t c = upto_time t d" and "now \<le> t"
    and "nanos valid_until = 0 \<or> now \<le> valid_until"
    and "build c interval anchor src valid_until = Inr s"
    and "build d interval anchor src valid_until = Inr s'"
  shows "known_count s now = known_count s' now \<and> completed s now steps = completed s' now steps \<and>
    forming s now = forming s' now \<and>
    (\<forall>b. completed s now steps = Inr (Some b) \<longrightarrow> close_time b \<le> now) \<and>
    forming s now = Inr (current_bar anchor interval (prints src (upto_time now c)) now)"
  unfolding prints_upto_columns [OF assms(2)] by (rule bars_same_past [OF assms])

theorem bars_never_read_the_future_witness:
  "\<exists>s s'. build sample_columns 15 (Timestamp 0) Last (Timestamp 0) = Inr s \<and>
     build (first_rows 3 sample_columns) 15 (Timestamp 0) Last (Timestamp 0) = Inr s' \<and>
     forming s (Timestamp 25) = forming s' (Timestamp 25) \<and>
     completed s (Timestamp 25) 0 = completed s' (Timestamp 25) 0"
proof -
  note c = sample_columns_ok and d = first_rows_ok [OF sample_columns_ok, of 3]
  obtain s s' where s: "build sample_columns 15 (Timestamp 0) Last (Timestamp 0) = Inr s"
    "build (first_rows 3 sample_columns) 15 (Timestamp 0) Last (Timestamp 0) = Inr s'"
    using build_spec [OF _ c, of 15] build_spec [OF _ d, of 15] by auto
  have "upto_time (Timestamp 25) sample_columns = upto_time (Timestamp 25) (first_rows 3 sample_columns)"
    by code_simp
  from bars_never_read_the_future [OF _ c d this _ _ s, of "Timestamp 25" 0]
  show ?thesis using s by auto
qed

end
