(* ===== verification/Indicators.thy ===== *)
theory Indicators
  imports Bars Prices
begin

text \<open>
  \<open>indicators.hpp\<close> and \<open>indicators.cpp\<close>: one value per bar, readable once that bar has closed;
  the moving average with its running sum, the standard deviation and the Bollinger bands with
  their window loops, in double arithmetic as written.  A null pointer is \<open>None\<close>.
\<close>

section \<open>Values gated on a bar's close\<close>

record bar_indicator =
  ind_bars :: bar_series
  ind_values :: "dbl list"

definition bar_indicator :: "bar_series option \<Rightarrow> dbl list \<Rightarrow> exn + bar_indicator" where
  "bar_indicator bars values =
     (case bars of
        None \<Rightarrow> Inl (InvalidArgument ''BarIndicator: null bar series'')
      | Some s \<Rightarrow>
          if length values \<noteq> length (bars_all s)
          then Inl (InvalidArgument ''BarIndicator: one value per bar required'')
          else Inr \<lparr>ind_bars = s, ind_values = values\<rparr>)"

definition indicator_at :: "bar_indicator \<Rightarrow> timestamp \<Rightarrow> int \<Rightarrow> exn + dbl option" where
  "indicator_at ind now steps =
     (if steps < 0
      then Inl (InvalidArgument ''BarIndicator::at: negative offset reads the future'')
      else case known_count (ind_bars ind) now of
             Inl e \<Rightarrow> Inl e
           | Inr k \<Rightarrow>
               if k = 0 \<or> k \<le> nat steps then Inr None
               else let v = ind_values ind ! (k - 1 - nat steps)
                 in Inr (if isnan v then None else Some v))"

definition closes_of :: "bar_series \<Rightarrow> dbl list" where
  "closes_of s = map (\<lambda>b. price_to_double (bar_close b)) (bars_all s)"

section \<open>The three indicators\<close>

text \<open>One iteration of the loop of \<open>sma\<close>; the state is \<open>out\<close> and \<open>running\<close>.\<close>

definition sma_step :: "dbl list \<Rightarrow> int \<Rightarrow> nat \<Rightarrow> dbl list \<times> dbl \<Rightarrow> dbl list \<times> dbl" where
  "sma_step closes period i = (\<lambda>(out, running).
     let r1 = fadd running (closes ! i);
         r2 = (if period \<le> int i then fsub r1 (closes ! (i - nat period)) else r1)
     in (if period \<le> int i + 1 then out[i := fdiv r2 (of_i period)] else out, r2))"

definition sma_values :: "dbl list \<Rightarrow> int \<Rightarrow> dbl list" where
  "sma_values closes period =
     fst (fold (sma_step closes period) [0..<length closes] (replicate (length closes) NaN, Fin 0))"

definition sma :: "bar_series \<Rightarrow> int \<Rightarrow> exn + bar_indicator" where
  "sma s period =
     (if period \<le> 0 then Inl (InvalidArgument ''sma: period must be positive'')
      else bar_indicator (Some s) (sma_values (closes_of s) period))"

text \<open>The two inner loops over \<open>closes[start..i]\<close>, shared by \<open>stdev\<close> and \<open>bollinger\<close>.\<close>

definition window :: "dbl list \<Rightarrow> int \<Rightarrow> nat \<Rightarrow> dbl list" where
  "window closes period i =
     (let start = i + 1 - nat period in map (\<lambda>j. closes ! j) [start..<Suc i])"

definition window_mean :: "dbl list \<Rightarrow> int \<Rightarrow> dbl" where
  "window_mean w period = fdiv (fold (\<lambda>c mean. fadd mean c) w (Fin 0)) (of_i period)"

definition window_sd :: "dbl list \<Rightarrow> int \<Rightarrow> dbl" where
  "window_sd w period =
     (let mean = window_mean w period;
          acc = fold (\<lambda>c acc. let d = fsub c mean in fadd acc (fmul d d)) w (Fin 0)
      in fsqrt (fdiv acc (of_i period)))"

text \<open>The loop of \<open>stdev\<close>, whose condition also holds the warm-up test.\<close>

function stdev_loop :: "dbl list \<Rightarrow> int \<Rightarrow> nat \<Rightarrow> dbl list \<Rightarrow> dbl list" where
  "stdev_loop closes period i out =
     (if period \<le> int i + 1 \<and> i < length closes
      then stdev_loop closes period (i + 1)
        (if int i + 1 < period then out
         else out[i := window_sd (window closes period i) period])
      else out)"
  by pat_completeness auto
termination
  by (relation "measure (\<lambda>(closes, period, i, out). length closes - i)") auto

declare stdev_loop.simps [simp del]

definition stdev :: "bar_series \<Rightarrow> int \<Rightarrow> exn + bar_indicator" where
  "stdev s period =
     (if period \<le> 0 then Inl (InvalidArgument ''stdev: period must be positive'')
      else let closes = closes_of s
        in bar_indicator (Some s) (stdev_loop closes period 0 (replicate (length closes) NaN)))"

record bollinger_bands =
  middle :: bar_indicator
  upper :: bar_indicator
  lower :: bar_indicator

definition bollinger_step ::
    "dbl list \<Rightarrow> int \<Rightarrow> dbl \<Rightarrow> nat \<Rightarrow> dbl list \<times> dbl list \<times> dbl list \<Rightarrow> dbl list \<times> dbl list \<times> dbl list" where
  "bollinger_step closes period k i = (\<lambda>(mid, up, lo).
     if int i + 1 < period then (mid, up, lo)
     else let w = window closes period i; mean = window_mean w period; sd = window_sd w period
       in (mid[i := mean], up[i := fadd mean (fmul k sd)], lo[i := fsub mean (fmul k sd)]))"

definition bollinger_values :: "dbl list \<Rightarrow> int \<Rightarrow> dbl \<Rightarrow> dbl list \<times> dbl list \<times> dbl list" where
  "bollinger_values closes period k =
     (let init = replicate (length closes) NaN
      in fold (bollinger_step closes period k) [0..<length closes] (init, init, init))"

definition bollinger :: "bar_series \<Rightarrow> int \<Rightarrow> dbl \<Rightarrow> exn + bollinger_bands" where
  "bollinger s period k =
     (if period \<le> 0 then Inl (InvalidArgument ''bollinger: period must be positive'')
      else let (mid, up, lo) = bollinger_values (closes_of s) period k
        in case bar_indicator (Some s) mid of
             Inl e \<Rightarrow> Inl e
           | Inr m \<Rightarrow> case bar_indicator (Some s) up of
               Inl e \<Rightarrow> Inl e
             | Inr u \<Rightarrow> case bar_indicator (Some s) lo of
                 Inl e \<Rightarrow> Inl e
               | Inr l \<Rightarrow> Inr \<lparr>middle = m, upper = u, lower = l\<rparr>)"

section \<open>Values depend on earlier closes only\<close>

text \<open>The running sum after \<open>i\<close> bars.\<close>

fun running_sum :: "dbl list \<Rightarrow> int \<Rightarrow> nat \<Rightarrow> dbl" where
  "running_sum closes period 0 = Fin 0"
| "running_sum closes period (Suc i) =
     (let r = fadd (running_sum closes period i) (closes ! i)
      in if period \<le> int i then fsub r (closes ! (i - nat period)) else r)"

definition sma_value :: "dbl list \<Rightarrow> int \<Rightarrow> nat \<Rightarrow> dbl" where
  "sma_value closes period i =
     (if period \<le> int i + 1 then fdiv (running_sum closes period (Suc i)) (of_i period) else NaN)"

text \<open>Filling a vector from the front, one position at a time.\<close>

definition padded :: "(nat \<Rightarrow> dbl) \<Rightarrow> nat \<Rightarrow> nat \<Rightarrow> dbl list" where
  "padded f n len = map (\<lambda>i. if i < n then f i else NaN) [0..<len]"

lemma filled_0: "replicate len NaN = padded f 0 len"
  by (simp add: padded_def map_replicate_const)

lemma filled_all: "padded f len len = map f [0..<len]"
  by (simp add: padded_def)

lemma filled_put: "n < len \<Longrightarrow> v = f n \<Longrightarrow> (padded f n len)[n := v] = padded f (Suc n) len"
  by (rule nth_equalityI) (auto simp: padded_def nth_list_update)

lemma filled_skip: "n < len \<Longrightarrow> f n = NaN \<Longrightarrow> padded f n len = padded f (Suc n) len"
  by (rule nth_equalityI) (auto simp: padded_def less_Suc_eq)

lemma sma_fold:
  assumes "n \<le> length closes"
  shows "fold (sma_step closes period) [0..<n] (replicate (length closes) NaN, Fin 0) =
    (padded (sma_value closes period) n (length closes), running_sum closes period n)"
  using assms
proof (induction n)
  case 0
  then show ?case by (simp add: filled_0 [of _ "sma_value closes period"])
next
  case (Suc n)
  then have "fold (sma_step closes period) [0..<Suc n] (replicate (length closes) NaN, Fin 0) =
      sma_step closes period n (padded (sma_value closes period) n (length closes), running_sum closes period n)"
    by simp
  also have "\<dots> = (padded (sma_value closes period) (Suc n) (length closes), running_sum closes period (Suc n))"
  proof (cases "period \<le> int n + 1")
    case True
    have "(padded (sma_value closes period) n (length closes))[n := sma_value closes period n] =
        padded (sma_value closes period) (Suc n) (length closes)"
      using Suc.prems by (intro filled_put) auto
    then show ?thesis using True by (auto simp: sma_step_def sma_value_def [of closes period n] Let_def)
  next
    case False
    have "padded (sma_value closes period) n (length closes) =
        padded (sma_value closes period) (Suc n) (length closes)"
      using Suc.prems False by (intro filled_skip) (auto simp: sma_value_def)
    then show ?thesis using False by (simp add: sma_step_def Let_def)
  qed
  finally show ?case .
qed

lemma sma_values_eq: "sma_values closes period = map (sma_value closes period) [0..<length closes]"
  by (simp add: sma_values_def sma_fold filled_all)

definition band_values :: "dbl list \<Rightarrow> int \<Rightarrow> dbl \<Rightarrow> nat \<Rightarrow> dbl \<times> dbl \<times> dbl" where
  "band_values closes period k i =
     (if int i + 1 < period then (NaN, NaN, NaN)
      else let w = window closes period i; mean = window_mean w period; sd = window_sd w period
        in (mean, fadd mean (fmul k sd), fsub mean (fmul k sd)))"

lemma bollinger_fold:
  assumes "n \<le> length closes"
  shows "fold (bollinger_step closes period k) [0..<n]
      (replicate (length closes) NaN, replicate (length closes) NaN, replicate (length closes) NaN) =
    (padded (\<lambda>i. fst (band_values closes period k i)) n (length closes),
     padded (\<lambda>i. fst (snd (band_values closes period k i))) n (length closes),
     padded (\<lambda>i. snd (snd (band_values closes period k i))) n (length closes))"
    (is "_ = (?m n, ?u n, ?l n)")
  using assms
proof (induction n)
  case 0
  then show ?case by (metis filled_0 fold_Nil id_apply upt_0)
next
  case (Suc n)
  then have "fold (bollinger_step closes period k) [0..<Suc n]
      (replicate (length closes) NaN, replicate (length closes) NaN, replicate (length closes) NaN) =
      bollinger_step closes period k n (?m n, ?u n, ?l n)"
    by simp
  also have "\<dots> = (?m (Suc n), ?u (Suc n), ?l (Suc n))"
  proof (cases "int n + 1 < period")
    case True
    then have "band_values closes period k n = (NaN, NaN, NaN)" by (simp add: band_values_def)
    then show ?thesis
      using True Suc.prems filled_skip [of n "length closes" "\<lambda>i. fst (band_values closes period k i)"]
        filled_skip [of n "length closes" "\<lambda>i. fst (snd (band_values closes period k i))"]
        filled_skip [of n "length closes" "\<lambda>i. snd (snd (band_values closes period k i))"]
      by (simp add: bollinger_step_def)
  next
    case False
    define w where "w = window closes period n"
    have v: "band_values closes period k n = (window_mean w period,
        fadd (window_mean w period) (fmul k (window_sd w period)),
        fsub (window_mean w period) (fmul k (window_sd w period)))"
      using False by (simp add: band_values_def w_def Let_def)
    have "bollinger_step closes period k n (?m n, ?u n, ?l n) =
        ((?m n)[n := window_mean w period], (?u n)[n := fadd (window_mean w period) (fmul k (window_sd w period))],
         (?l n)[n := fsub (window_mean w period) (fmul k (window_sd w period))])"
      using False by (simp add: bollinger_step_def w_def Let_def)
    also have "\<dots> = (?m (Suc n), ?u (Suc n), ?l (Suc n))"
      using Suc.prems v by (simp add: filled_put)
    finally show ?thesis .
  qed
  finally show ?case .
qed

lemma bollinger_values_eq:
  "bollinger_values closes period k =
    (map (\<lambda>i. fst (band_values closes period k i)) [0..<length closes],
     map (\<lambda>i. fst (snd (band_values closes period k i))) [0..<length closes],
     map (\<lambda>i. snd (snd (band_values closes period k i))) [0..<length closes])"
  by (simp add: bollinger_values_def bollinger_fold filled_all Let_def)

lemma running_sum_prefix:
  assumes "\<And>j. j < i \<Longrightarrow> xs ! j = ys ! j"
  shows "running_sum xs period i = running_sum ys period i"
  using assms by (induction i) (auto simp: Let_def)

lemma sma_value_prefix:
  assumes "\<And>j. j \<le> i \<Longrightarrow> xs ! j = ys ! j"
  shows "sma_value xs period i = sma_value ys period i"
  using running_sum_prefix [of "Suc i" xs ys] assms by (simp add: sma_value_def)

lemma band_values_prefix:
  assumes "\<And>j. j \<le> i \<Longrightarrow> xs ! j = ys ! j"
  shows "band_values xs period k i = band_values ys period k i"
proof -
  have "window xs period i = window ys period i"
    using assms by (auto simp: window_def Let_def)
  then show ?thesis by (simp add: band_values_def)
qed

lemma stdev_loop_stays:
  assumes "2 \<le> period"
  shows "stdev_loop closes period 0 out = out"
  using assms by (subst stdev_loop.simps) simp

text \<open>An indicator whose values are causal in the closes reads only closed bars.\<close>

lemma indicator_same_past:
  assumes "0 < n" and "prints_sorted ps" and "prints_sorted qs"
    and "closed_bars a n ps now = closed_bars a n qs now"
    and "bars_all s = bars_of a n ps" and "bars_all s' = bars_of a n qs"
    and "bs_valid_until s = v" and "bs_valid_until s' = v" and "nanos v = 0 \<or> now \<le> v"
    and "\<And>i. i < length (closed_bars a n ps now) \<Longrightarrow> values ! i = values' ! i"
  shows "indicator_at \<lparr>ind_bars = s, ind_values = values\<rparr> now steps =
    indicator_at \<lparr>ind_bars = s', ind_values = values'\<rparr> now steps"
proof -
  have "known_count s now = Inr (length (closed_bars a n ps now))"
    using assms by (intro known_count_spec) auto
  moreover have "known_count s' now = Inr (length (closed_bars a n ps now))"
    unfolding assms(4) using assms by (intro known_count_spec) auto
  ultimately show ?thesis using assms(10) by (simp add: indicator_at_def Let_def)
qed

lemma closes_of_closed:
  assumes "0 < n" and "prints_sorted ps" and "bars_all s = bars_of a n ps"
    and "j < length (closed_bars a n ps now)"
  shows "closes_of s ! j = price_to_double (bar_close (closed_bars a n ps now ! j))"
    and "j < length (closes_of s)"
proof -
  let ?s = "\<lparr>bars_all = bars_of a n ps, bs_cols = empty_columns, bs_valid_until = Timestamp 0,
    bs_anchor = a, bs_source = Last, bs_interval = n\<rparr>"
  have t: "take (length (closed_bars a n ps now)) (bars_of a n ps) = closed_bars a n ps now"
    using known_count_spec(2) [OF assms(1,2), of ?s a now] by simp
  then have "length (closed_bars a n ps now) \<le> length (bars_of a n ps)"
    by (metis length_take min.cobounded1)
  then show "j < length (closes_of s)" using assms(3,4) by (simp add: closes_of_def)
  have "bars_of a n ps ! j = closed_bars a n ps now ! j" using t assms(4) by (metis nth_take)
  then show "closes_of s ! j = price_to_double (bar_close (closed_bars a n ps now ! j))"
    using \<open>j < length (closes_of s)\<close> assms(3) by (simp add: closes_of_def)
qed

lemma values_same_past:
  assumes "0 < interval" and "columns_ok c" and "columns_ok d"
    and "upto_time t c = upto_time t d" and "now \<le> t"
    and "nanos valid_until = 0 \<or> now \<le> valid_until" and "0 < period"
    and "build c interval anchor src valid_until = Inr s"
    and "build d interval anchor src valid_until = Inr s'"
  shows "indicator_at \<lparr>ind_bars = s, ind_values = sma_values (closes_of s) period\<rparr> now steps =
      indicator_at \<lparr>ind_bars = s', ind_values = sma_values (closes_of s') period\<rparr> now steps"
    and "indicator_at \<lparr>ind_bars = s, ind_values = map (\<lambda>i. f (band_values (closes_of s) period k i)) [0..<length (closes_of s)]\<rparr> now steps =
      indicator_at \<lparr>ind_bars = s', ind_values = map (\<lambda>i. f (band_values (closes_of s') period k i)) [0..<length (closes_of s')]\<rparr> now steps"
proof -
  let ?ps = "prints src c" and ?qs = "prints src d"
  note ps = prints_sorted_prints [OF assms(2), of src] and qs = prints_sorted_prints [OF assms(3), of src]
  have s: "bars_all s = bars_of anchor interval ?ps" "bs_valid_until s = valid_until"
    using assms(8) build_spec [OF assms(1,2)] by auto
  have s': "bars_all s' = bars_of anchor interval ?qs" "bs_valid_until s' = valid_until"
    using assms(9) build_spec [OF assms(1,3)] by auto
  have "upto_time now c = upto_time now d" by (rule same_past(4) [OF assms(4,2,3,5)])
  then have "prints_upto now ?ps = prints_upto now ?qs"
    by (simp add: prints_upto_columns [symmetric] assms(2,3))
  then have closed: "closed_bars anchor interval ?ps now = closed_bars anchor interval ?qs now"
    using closed_bars_upto [OF assms(1) ps] closed_bars_upto [OF assms(1) qs] by metis
  let ?k = "length (closed_bars anchor interval ?ps now)"
  note c1 = closes_of_closed [OF assms(1) ps s(1)] and c2 = closes_of_closed [OF assms(1) qs s'(1)]
  have same: "closes_of s ! j = closes_of s' ! j" if "j < ?k" for j
    using c1(1) [OF that] c2(1) [of j now] closed that by simp
  have len: "j < length (closes_of s)" "j < length (closes_of s')" if "j < ?k" for j
    using c1(2) [OF that] c2(2) [of j now] closed that by simp_all
  note read = indicator_same_past [OF assms(1) ps qs closed s(1) s'(1) s(2) s'(2) assms(6)]
  show "indicator_at \<lparr>ind_bars = s, ind_values = sma_values (closes_of s) period\<rparr> now steps =
      indicator_at \<lparr>ind_bars = s', ind_values = sma_values (closes_of s') period\<rparr> now steps"
    using len same by (intro read) (auto simp: sma_values_eq intro!: sma_value_prefix)
  show "indicator_at \<lparr>ind_bars = s, ind_values = map (\<lambda>i. f (band_values (closes_of s) period k i)) [0..<length (closes_of s)]\<rparr> now steps =
      indicator_at \<lparr>ind_bars = s', ind_values = map (\<lambda>i. f (band_values (closes_of s') period k i)) [0..<length (closes_of s')]\<rparr> now steps"
    using len same by (intro read) (auto intro!: arg_cong [where f = f] band_values_prefix)
qed

section \<open>What an indicator reads\<close>

text \<open>The closes of the bars that have closed, a value as its reader sees it, and the population
  standard deviation of a window: the terms the reading of an indicator is stated in.\<close>

definition known_closes :: "bar_series \<Rightarrow> timestamp \<Rightarrow> dbl list" where
  "known_closes s now = map (\<lambda>b. price_to_double (bar_close b)) (filter (\<lambda>b. close_time b \<le> now) (bars_all s))"

definition reading :: "dbl \<Rightarrow> dbl option" where
  "reading v = (if v = NaN then None else Some v)"

definition sum_of :: "dbl list \<Rightarrow> dbl" where
  "sum_of xs = foldl fadd (Fin 0) xs"

lemma window_recent:
  assumes "take K closes = cs" and "K \<le> length closes" and "0 < period" and "period \<le> int n" and "n \<le> K"
  shows "window closes period (n - 1) = drop (n - nat period) (take n cs)"
proof (rule nth_equalityI)
  show len: "length (window closes period (n - 1)) = length (drop (n - nat period) (take n cs))"
    using assms by (auto simp: window_def Let_def)
  fix j assume "j < length (window closes period (n - 1))"
  then have "j < nat period" using assms(3-5) by (auto simp: window_def Let_def)
  then show "window closes period (n - 1) ! j = drop (n - nat period) (take n cs) ! j"
    using assms by (auto simp: window_def Let_def nth_append)
qed

lemma fold_fadd: "fold (\<lambda>c mean. fadd mean c) w x = foldl fadd x w"
  by (simp add: foldl_conv_fold)

lemma fold_squares:
  "fold (\<lambda>c acc. fadd acc (fmul (fsub c mean) (fsub c mean))) w x =
    foldl fadd x (map (\<lambda>c. fmul (fsub c mean) (fsub c mean)) w)"
  by (induction w arbitrary: x) simp_all

text \<open>Reading an indicator whose value at a bar is a function of the bar's position.\<close>

lemma indicator_reads:
  assumes "known_count s now = Inr k" and "take k (bars_all s) = filter (\<lambda>b. close_time b \<le> now) (bars_all s)"
    and "k \<le> length (bars_all s)" and "0 \<le> steps"
  shows "indicator_at \<lparr>ind_bars = s, ind_values = map f [0..<length (closes_of s)]\<rparr> now steps =
      Inr (let n = length (known_closes s now) - nat steps in if n = 0 then None else reading (f (n - 1)))"
    and "take k (closes_of s) = known_closes s now" and "length (known_closes s now) = k" and "k \<le> length (closes_of s)"
proof -
  show t: "take k (closes_of s) = known_closes s now"
    unfolding known_closes_def assms(2) [symmetric] by (simp add: closes_of_def take_map)
  show len: "k \<le> length (closes_of s)" using assms(3) by (simp add: closes_of_def)
  show k: "length (known_closes s now) = k" using t len by (metis length_take min.absorb2)
  show "indicator_at \<lparr>ind_bars = s, ind_values = map f [0..<length (closes_of s)]\<rparr> now steps =
      Inr (let n = length (known_closes s now) - nat steps in if n = 0 then None else reading (f (n - 1)))"
    using assms(1,4) k len by (auto simp: indicator_at_def reading_def isnan_def Let_def diff_commute)
qed

lemma sma_value_known:
  assumes "take k closes = cs" and "k \<le> length closes" and "n \<le> k" and "0 < n"
  shows "sma_value closes period (n - 1) =
    (if period \<le> int n then fdiv (running_sum cs period n) (of_i period) else NaN)"
proof -
  have "running_sum closes period n = running_sum cs period n"
    using assms by (intro running_sum_prefix) (auto simp: nth_take)
  then show ?thesis using assms(4) by (simp add: sma_value_def)
qed

lemma band_values_known:
  assumes "take k closes = cs" and "k \<le> length closes" and "n \<le> k" and "0 < n" and "0 < period"
  shows "band_values closes period width (n - 1) =
    (if int n < period then (NaN, NaN, NaN)
     else let recent = drop (n - nat period) (take n cs);
         mean = fdiv (sum_of recent) (of_i period);
         sd = fsqrt (fdiv (sum_of (map (\<lambda>c. fmul (fsub c mean) (fsub c mean)) recent)) (of_i period))
       in (mean, fadd mean (fmul width sd), fsub mean (fmul width sd)))"
  using assms window_recent [OF assms(1,2,5) _ assms(3)]
  by (simp add: band_values_def window_mean_def window_sd_def sum_of_def fold_fadd fold_squares Let_def)

section \<open>Properties\<close>

text \<open>C9: an indicator is known when the last bar it consumed closes, and not sooner.  Read \<open>steps\<close>
  bars back at \<open>now\<close>, the moving average and the three Bollinger bands consume the closes of exactly
  the last \<open>period\<close> bars, \<open>steps\<close> bars back, among those closed by \<open>now\<close>: with fewer than \<open>period\<close>
  they answer nothing, otherwise the mean (as the running sum rounds it, or as a fresh sum does) and
  the mean plus or minus \<open>k\<close> standard deviations of that window.  A negative offset is refused.  So
  over bars built from columns that agree up to \<open>t\<close>, all four read the same at every \<open>now\<close> up to \<open>t\<close>
  (and up to the end of the session the bars belong to), whatever the later bars hold.\<close>

theorem indicators_never_read_the_future:
  assumes "0 < interval" and "columns_ok c" and "columns_ok d"
    and "upto_time t c = upto_time t d" and "now \<le> t"
    and "nanos valid_until = 0 \<or> now \<le> valid_until" and "0 < period"
    and "build c interval anchor src valid_until = Inr s"
    and "build d interval anchor src valid_until = Inr s'"
  shows "\<exists>m m' b b'. sma s period = Inr m \<and> sma s' period = Inr m' \<and>
    bollinger s period k = Inr b \<and> bollinger s' period k = Inr b' \<and>
    indicator_at m now steps = indicator_at m' now steps \<and>
    indicator_at (middle b) now steps = indicator_at (middle b') now steps \<and>
    indicator_at (upper b) now steps = indicator_at (upper b') now steps \<and>
    indicator_at (lower b) now steps = indicator_at (lower b') now steps \<and>
    (steps < 0 \<longrightarrow> (\<exists>e. indicator_at m now steps = Inl e)) \<and>
    (0 \<le> steps \<longrightarrow>
      (let closes = known_closes s now; n = length closes - nat steps;
           recent = drop (n - nat period) (take n closes);
           mean = fdiv (sum_of recent) (of_i period);
           sd = fsqrt (fdiv (sum_of (map (\<lambda>c. fmul (fsub c mean) (fsub c mean)) recent)) (of_i period))
       in if int n < period
          then indicator_at m now steps = Inr None \<and> indicator_at (middle b) now steps = Inr None \<and>
            indicator_at (upper b) now steps = Inr None \<and> indicator_at (lower b) now steps = Inr None
          else indicator_at m now steps = Inr (reading (fdiv (running_sum closes period n) (of_i period))) \<and>
            indicator_at (middle b) now steps = Inr (reading mean) \<and>
            indicator_at (upper b) now steps = Inr (reading (fadd mean (fmul k sd))) \<and>
            indicator_at (lower b) now steps = Inr (reading (fsub mean (fmul k sd)))))"
proof -
  have bars: "bars_all s = bars_of anchor interval (prints src c)" "bs_valid_until s = valid_until"
    using assms(8) build_spec [OF assms(1,2)] by auto
  note ps = prints_sorted_prints [OF assms(2), of src]
  let ?K = "length (closed_bars anchor interval (prints src c) now)"
  have count: "known_count s now = Inr ?K" using assms(6) bars by (intro known_count_spec(1) [OF assms(1) ps]) auto
  have closed: "take ?K (bars_all s) = filter (\<lambda>b. close_time b \<le> now) (bars_all s)"
    using known_count_spec(2) [OF assms(1) ps bars(1)] assms(6) by (simp add: bars closed_bars_def)
  have "?K \<le> length (bars_all s)" unfolding closed_bars_def bars(1) by (rule length_filter_le)
  note reads = indicator_reads [OF count closed this]
  define cs where "cs = known_closes s now"
  define n where "n = length cs - nat steps"
  have n: "n \<le> ?K" using reads(3) [of 0] by (simp add: n_def cs_def)
  note sma_n = sma_value_known [OF reads(2) [of 0, simplified] reads(4) [of 0, simplified] n, folded cs_def]
  note band_n = band_values_known [OF reads(2) [of 0, simplified] reads(4) [of 0, simplified] n _ assms(7), folded cs_def]
  have r: "indicator_at \<lparr>ind_bars = s, ind_values = map f [0..<length (closes_of s)]\<rparr> now steps =
      Inr (if n = 0 then None else reading (f (n - 1)))" if "0 \<le> steps" for f
    using reads(1) [OF that, of f] by (simp only: Let_def n_def cs_def)
  have lens: "length (closes_of s) = length (bars_all s)" "length (closes_of s') = length (bars_all s')"
    by (simp_all add: closes_of_def)
  note same = values_same_past [OF assms]
  define I where "I f = \<lparr>ind_bars = s, ind_values = map f [0..<length (closes_of s)]\<rparr>" for f
  define b where "b = \<lparr>middle = I (\<lambda>i. fst (band_values (closes_of s) period k i)),
    upper = I (\<lambda>i. fst (snd (band_values (closes_of s) period k i))),
    lower = I (\<lambda>i. snd (snd (band_values (closes_of s) period k i)))\<rparr>"
  have made: "sma s period = Inr (I (sma_value (closes_of s) period))" "bollinger s period k = Inr b"
    using assms(7) lens by (simp_all add: sma_def bollinger_def bar_indicator_def sma_values_eq bollinger_values_eq I_def b_def)
  have short: "indicator_at (I f) now steps = Inr None"
    if "0 \<le> steps" "int n < period" "0 < n \<Longrightarrow> f (n - 1) = NaN" for f
    using r [OF that(1), of f] that(3) by (auto simp: I_def reading_def)
  have long: "indicator_at (I f) now steps = Inr (reading (f (n - 1)))" if "0 \<le> steps" "\<not> int n < period" for f
    using r [OF that(1), of f] that(2) assms(7) by (auto simp: I_def)
  have "(\<exists>m' b'. sma s' period = Inr m' \<and> bollinger s' period k = Inr b' \<and>
    indicator_at (I (sma_value (closes_of s) period)) now steps = indicator_at m' now steps \<and>
    indicator_at (middle b) now steps = indicator_at (middle b') now steps \<and>
    indicator_at (upper b) now steps = indicator_at (upper b') now steps \<and>
    indicator_at (lower b) now steps = indicator_at (lower b') now steps)"
    using assms(7) same(1) same(2) [of fst] same(2) [of "\<lambda>x. fst (snd x)"] same(2) [of "\<lambda>x. snd (snd x)"] lens
    by (simp add: sma_def bollinger_def bar_indicator_def sma_values_eq bollinger_values_eq I_def b_def)
  moreover have "\<exists>e. indicator_at x now steps = Inl e" if "steps < 0" for x
    using that by (simp add: indicator_at_def)
  ultimately show ?thesis
    unfolding made cs_def [symmetric] n_def [symmetric] Let_def
    using short long sma_n band_n assms(7) by (auto simp: b_def Let_def)
qed

theorem indicators_never_read_the_future_witness:
  "\<exists>s s' m m'. build sample_columns 10 (Timestamp 0) Last (Timestamp 0) = Inr s \<and>
     build (first_rows 3 sample_columns) 10 (Timestamp 0) Last (Timestamp 0) = Inr s' \<and>
     sma s 1 = Inr m \<and> sma s' 1 = Inr m' \<and>
     indicator_at m (Timestamp 29) 0 = indicator_at m' (Timestamp 29) 0"
proof -
  note c = sample_columns_ok and d = first_rows_ok [OF sample_columns_ok, of 3]
  obtain s s' where s: "build sample_columns 10 (Timestamp 0) Last (Timestamp 0) = Inr s"
    "build (first_rows 3 sample_columns) 10 (Timestamp 0) Last (Timestamp 0) = Inr s'"
    using build_spec [OF _ c, of 10] build_spec [OF _ d, of 10] by auto
  have "upto_time (Timestamp 29) sample_columns = upto_time (Timestamp 29) (first_rows 3 sample_columns)"
    by code_simp
  from indicators_never_read_the_future [OF _ c d this _ _ _ s, of "Timestamp 29" 1 "Fin 2" 0]
  show ?thesis using s by auto
qed

text \<open>\<open>stdev\<close> never produces a value.  Its loop condition includes the warm-up test, which is
  false at the first bar for every period of two or more, so the loop ends before it starts: the
  indicator it returns answers \<open>nullopt\<close> at every time, for every bar series.\<close>

theorem stdev_never_warms_up:
  assumes "2 \<le> period" and "stdev s period = Inr ind" and "0 \<le> steps"
    and "nanos (bs_valid_until s) = 0 \<or> now \<le> bs_valid_until s"
  shows "indicator_at ind now steps = Inr None"
proof -
  let ?n = "length (bars_all s)"
  have ind: "ind = \<lparr>ind_bars = s, ind_values = replicate ?n NaN\<rparr>"
    using assms(1,2)
    by (auto simp: stdev_def bar_indicator_def closes_of_def stdev_loop_stays Let_def split: if_splits)
  obtain k where k: "known_count s now = Inr k" "k \<le> ?n"
    using assms(4) bsearch_le [of "\<lambda>b. now < close_time b" "bars_all s" 0 ?n]
    by (auto simp: known_count_def not_less [symmetric])
  then show ?thesis using assms(3) by (auto simp: indicator_at_def ind isnan_def Let_def)
qed

theorem stdev_never_warms_up_witness:
  "\<exists>s ind. build sample_columns 10 (Timestamp 0) Last (Timestamp 0) = Inr s \<and>
     length (bars_all s) = 3 \<and> stdev s 2 = Inr ind \<and>
     indicator_at ind (Timestamp 100) 0 = Inr None"
proof -
  obtain s where s: "build sample_columns 10 (Timestamp 0) Last (Timestamp 0) = Inr s"
    "length (bars_all s) = 3" "bs_valid_until s = Timestamp 0"
  proof -
    have "prints Last sample_columns = [(Timestamp 10, Price 100, 0), (Timestamp 20, Price 105, 75),
      (Timestamp 20, Price 110, 0), (Timestamp 30, Price 90, 150)]"
      by code_simp
    then show ?thesis
      using build_spec [OF _ sample_columns_ok, of 10 "Timestamp 0" Last "Timestamp 0"] that
      by (auto simp: bars_of_def buckets_def floor_bucket_def)
  qed
  obtain ind where ind: "stdev s 2 = Inr ind"
    by (simp add: stdev_def bar_indicator_def closes_of_def stdev_loop_stays Let_def)
  have "indicator_at ind (Timestamp 100) 0 = Inr None"
    by (rule stdev_never_warms_up [OF _ ind]) (use s(3) in simp_all)
  with s ind show ?thesis by blast
qed

text \<open>The bands are bands.  Wherever all three are defined, the lower band is at most the middle
  and the middle at most the upper, for any nonnegative width: rounding in double arithmetic never
  swaps them.\<close>

theorem bollinger_bands_ordered:
  assumes "bollinger s period k = Inr b" and "fle (Fin 0) k"
    and "indicator_at (middle b) now steps = Inr (Some m)"
    and "indicator_at (upper b) now steps = Inr (Some u)"
    and "indicator_at (lower b) now steps = Inr (Some l)"
    and "isfinite m"
  shows "fle l m \<and> fle m u"
proof -
  let ?cs = "closes_of s"
  have b: "middle b = \<lparr>ind_bars = s, ind_values = map (\<lambda>i. fst (band_values ?cs period k i)) [0..<length ?cs]\<rparr>"
    "upper b = \<lparr>ind_bars = s, ind_values = map (\<lambda>i. fst (snd (band_values ?cs period k i))) [0..<length ?cs]\<rparr>"
    "lower b = \<lparr>ind_bars = s, ind_values = map (\<lambda>i. snd (snd (band_values ?cs period k i))) [0..<length ?cs]\<rparr>"
    using assms(1)
    by (auto simp: bollinger_def bollinger_values_eq bar_indicator_def Let_def split: if_splits)
  obtain c where c: "known_count s now = Inr c" "\<not> (c = 0 \<or> c \<le> nat steps)"
    using assms(3) by (auto simp: indicator_at_def b split: if_splits sum.splits)
  from bsearch_le [of "\<lambda>b. now < close_time b" "bars_all s" 0 "length (bars_all s)"]
  have "c \<le> length ?cs" using c(1) by (auto simp: known_count_def closes_of_def split: if_splits)
  define i where "i = c - 1 - nat steps"
  have i: "i < length ?cs" using c(2) \<open>c \<le> length ?cs\<close> by (auto simp: i_def)
  have v: "m = fst (band_values ?cs period k i)" "u = fst (snd (band_values ?cs period k i))"
    "l = snd (snd (band_values ?cs period k i))" "m \<noteq> NaN" "u \<noteq> NaN" "l \<noteq> NaN"
    using assms(3-5) c i by (auto simp: indicator_at_def b i_def isnan_def Let_def split: if_splits)
  define w where "w = window ?cs period i"
  have warm: "\<not> int i + 1 < period" using v(1,4) by (auto simp: band_values_def)
  define d where "d = fmul k (window_sd w period)"
  have mul: "m = window_mean w period" "u = fadd m d" "l = fsub m d"
    using v(1-3) warm by (simp_all add: band_values_def w_def d_def Let_def)
  have "d \<noteq> NaN" using mul(2) v(5) by (cases m) auto
  have "window_sd w period \<noteq> NaN" using \<open>d \<noteq> NaN\<close> by (cases k) (auto simp: d_def)
  then have "fle (Fin 0) (window_sd w period)"
    using fsqrt_nonneg by (auto simp: window_sd_def Let_def)
  then have "fle (Fin 0) d"
    using fmul_nonneg [OF assms(2)] \<open>d \<noteq> NaN\<close> by (auto simp: d_def)
  obtain x where x: "m = Fin x" using assms(6) by (cases m) (auto simp: isfinite_def)
  obtain q where "rnd q = Fin x"
    using fdiv_FinD x mul(1) unfolding window_mean_def by metis
  from fadd_ge [OF this \<open>fle (Fin 0) d\<close>] show ?thesis using x mul by simp
qed

definition two_bars :: bar_series where
  "two_bars = \<lparr>bars_all = [new_bar (Timestamp 0) 15 0 (Price 100) 0, new_bar (Timestamp 0) 15 1 (Price 125) 75],
     bs_cols = empty_columns, bs_valid_until = Timestamp 0, bs_anchor = Timestamp 0,
     bs_source = Last, bs_interval = 15\<rparr>"

lemma sqrt_sixty_fourth: "fsqrt (Fin (1 / 64)) = Fin (1 / 8)"
proof -
  have e: "expo (1 / 64) = - 6" by (rule expo_unique) (simp_all add: power_int_def power_one_over)
  have h: "(- 6 :: int) div 2 = - 3" by simp
  have x: "(1 / 64 :: rat) / 2 powi (2 * (- 3 - 53)) = of_nat (2 ^ 53 * 2 ^ 53)"
    by (simp add: power_int_def power_one_over)
  have s: "isqrt (nat \<lfloor>of_nat (2 ^ 53 * 2 ^ 53) :: rat\<rfloor>) = 2 ^ 53"
    by (simp only: floor_of_nat nat_int isqrt_square)
  have v: "of_nat (2 ^ 53) * 2 powi (- 3 - 53) = (of_int 1 / 2 ^ 3 :: rat)"
    by (simp add: power_int_def power_one_over)
  have "fsqrt (Fin (1 / 64)) = rnd (of_nat (2 ^ 53) * 2 powi (- 3 - 53))"
    unfolding fsqrt.simps Let_def e
    by (simp only: h x s) simp
  also have "\<dots> = Fin (of_int 1 / 2 ^ 3)" unfolding v by (rule rnd_dyadic) simp_all
  finally show ?thesis by simp
qed

theorem bollinger_bands_ordered_witness:
  "\<exists>b m u l. bollinger two_bars 2 (Fin 2) = Inr b \<and>
     indicator_at (middle b) (Timestamp 40) 0 = Inr (Some m) \<and>
     indicator_at (upper b) (Timestamp 40) 0 = Inr (Some u) \<and>
     indicator_at (lower b) (Timestamp 40) 0 = Inr (Some l) \<and>
     l = Fin (7 / 8) \<and> m = Fin (9 / 8) \<and> u = Fin (11 / 8) \<and> fle l m \<and> fle m u"
proof -
  have r: "rnd 0 = Fin 0" "rnd 1 = Fin 1" "rnd (5 / 4) = Fin (5 / 4)" "rnd (9 / 4) = Fin (9 / 4)"
    "rnd (9 / 8) = Fin (9 / 8)" "rnd (1 / 8) = Fin (1 / 8)" "rnd (- (1 / 8)) = Fin (- (1 / 8))"
    "rnd (1 / 64) = Fin (1 / 64)" "rnd (1 / 32) = Fin (1 / 32)" "rnd (1 / 4) = Fin (1 / 4)"
    "rnd (11 / 8) = Fin (11 / 8)" "rnd (7 / 8) = Fin (7 / 8)"
    using rnd_dyadic [of 0 0] rnd_dyadic [of 1 0] rnd_dyadic [of 5 2] rnd_dyadic [of 9 2]
      rnd_dyadic [of 9 3] rnd_dyadic [of 1 3] rnd_dyadic [of "- 1" 3] rnd_dyadic [of 1 6]
      rnd_dyadic [of 1 5] rnd_dyadic [of 1 2] rnd_dyadic [of 11 3] rnd_dyadic [of 7 3]
    by simp_all
  have c: "closes_of two_bars = [Fin 1, Fin (5 / 4)]"
    using r by (simp add: closes_of_def two_bars_def new_bar_def price_to_double_def of_i_exact)
  have two: "of_i 2 = Fin 2" by (simp add: of_i_exact)
  have w: "window [Fin 1, Fin (5 / 4)] 2 (Suc 0) = [Fin 1, Fin (5 / 4)]" by (simp add: window_def upt_rec)
  have m: "window_mean [Fin 1, Fin (5 / 4)] 2 = Fin (9 / 8)" by (simp add: window_mean_def r two)
  have d: "window_sd [Fin 1, Fin (5 / 4)] 2 = Fin (1 / 8)"
    unfolding window_sd_def m by (simp add: Let_def r two fsub_def sqrt_sixty_fourth del: fsqrt.simps)
  have v: "band_values [Fin 1, Fin (5 / 4)] 2 (Fin 2) (Suc 0) = (Fin (9 / 8), Fin (11 / 8), Fin (7 / 8))"
    by (simp add: band_values_def w m d Let_def r fsub_def)
  have bars: "length (bars_all two_bars) = 2" by (simp add: two_bars_def)
  obtain b where b: "bollinger two_bars 2 (Fin 2) = Inr b"
    and vs: "ind_values (middle b) ! 1 = Fin (9 / 8)" "ind_values (upper b) ! 1 = Fin (11 / 8)"
      "ind_values (lower b) ! 1 = Fin (7 / 8)"
      "ind_bars (middle b) = two_bars" "ind_bars (upper b) = two_bars" "ind_bars (lower b) = two_bars"
    by (simp add: bollinger_def bollinger_values_eq bar_indicator_def c v bars Let_def)
  have k: "known_count two_bars (Timestamp 40) = Inr 2" by code_simp
  have i: "indicator_at (middle b) (Timestamp 40) 0 = Inr (Some (Fin (9 / 8)))"
      "indicator_at (upper b) (Timestamp 40) 0 = Inr (Some (Fin (11 / 8)))"
      "indicator_at (lower b) (Timestamp 40) 0 = Inr (Some (Fin (7 / 8)))"
    using vs k by (simp_all add: indicator_at_def isnan_def)
  have "fle (Fin (7 / 8)) (Fin (9 / 8)) \<and> fle (Fin (9 / 8)) (Fin (11 / 8))"
    by (rule bollinger_bands_ordered [OF b _ i]) (simp_all add: isfinite_def)
  with b i show ?thesis by blast
qed

end
