(* ===== verification/OrderedMap.thy ===== *)
theory OrderedMap
  imports Main
begin

text \<open>
  \<open>std::map\<close>: an association list in strictly ascending key order, so that iteration visits the
  keys in order as the code's range-for does.  \<open>om_put\<close> is \<open>operator[] =\<close> (insert or assign) and
  \<open>map_of\<close> is \<open>find\<close>.
\<close>

fun om_put :: "'k::linorder \<Rightarrow> 'v \<Rightarrow> ('k \<times> 'v) list \<Rightarrow> ('k \<times> 'v) list" where
  "om_put k v [] = [(k, v)]"
| "om_put k v ((k', v') # m) =
     (if k < k' then (k, v) # (k', v') # m
      else if k = k' then (k, v) # m
      else (k', v') # om_put k v m)"

definition om_ok :: "('k::linorder \<times> 'v) list \<Rightarrow> bool" where
  "om_ok m \<longleftrightarrow> sorted_wrt (<) (map fst m)"

lemma om_ok_Nil [simp]: "om_ok []"
  by (simp add: om_ok_def)

lemma om_ok_distinct: "om_ok m \<Longrightarrow> distinct (map fst m)"
  by (simp add: om_ok_def strict_sorted_iff)

lemma set_om_put: "set (map fst (om_put k v m)) = insert k (set (map fst m))"
  by (induction k v m rule: om_put.induct) auto

lemma om_put_ok [simp]: "om_ok m \<Longrightarrow> om_ok (om_put k v m)"
proof (induction k v m rule: om_put.induct)
  case (2 k v k' v' m)
  then show ?case using set_om_put [of k v m] by (auto simp: om_ok_def)
qed (simp add: om_ok_def)

lemma map_of_om_put [simp]: "map_of (om_put k v m) = (map_of m)(k \<mapsto> v)"
  by (induction k v m rule: om_put.induct) (auto simp: fun_eq_iff)

lemma om_put_put [simp]: "om_put k v (om_put k w m) = om_put k v m"
  by (induction k v m rule: om_put.induct) auto

lemma om_put_new: "k \<notin> set (map fst m) \<Longrightarrow> length (om_put k v m) = Suc (length m)"
  by (induction k v m rule: om_put.induct) auto

lemma in_set_om: "om_ok m \<Longrightarrow> (k, v) \<in> set m \<longleftrightarrow> map_of m k = Some v"
  by (simp add: om_ok_distinct map_of_eq_Some_iff)

lemma sum_list_om_put:
  fixes f :: "'k::linorder \<times> 'v \<Rightarrow> nat"
  assumes "om_ok m"
  shows "sum_list (map f (om_put k v m)) + (case map_of m k of None \<Rightarrow> 0 | Some w \<Rightarrow> f (k, w)) =
    f (k, v) + sum_list (map f m)"
  using assms
proof (induction k v m rule: om_put.induct)
  case (2 k v k' v' m)
  have "map_of ((k', v') # m) k = None" if "k < k'"
  proof -
    have "k \<notin> set (map fst ((k', v') # m))" using 2(2) that by (auto simp: om_ok_def)
    then show ?thesis by (metis map_of_eq_None_iff set_map)
  qed
  with 2 show ?case by (auto simp: om_ok_def)
qed simp

end
