(* ===== verification/Strategy.thy ===== *)
theory Strategy
  imports Conditions Margin Indicators OrderedMap
begin

text \<open>
  \<open>strategy.hpp\<close> and \<open>strategy.cpp\<close>: what a strategy is handed.  The context is a record of what
  the C++ object points to; its portfolio is passed and returned separately.  The two caches are
  not modelled: they are keyed by everything the cached value depends on and emptied when the
  session changes, so a hit returns what the computation would.  The coroutine frame itself is
  compiler-generated and is a parameter of \<open>EventLoop\<close>.
\<close>

section \<open>The context\<close>

type_synonym margin_model = "margin_leg list \<Rightarrow> dbl \<Rightarrow> dbl \<Rightarrow> dbl \<Rightarrow> margin_result"

record ctx =
  cx_session :: session_data
  cx_market :: market_view
  cx_underlying :: underlying_id
  cx_spot :: instrument_id
  cx_date :: date
  cx_utc_offset :: int
  cx_anchor :: timestamp
  cx_rate :: dbl
  cx_margin :: margin_model
  cx_calendar :: "date list option"
  cx_session_open :: int
  cx_libm :: libm

definition default_margin_model :: "libm \<Rightarrow> margin_model" where
  "default_margin_model m legs forward t rate = span_margin m legs forward t rate default_span"

definition new_ctx ::
    "libm \<Rightarrow> session_data \<Rightarrow> market_view \<Rightarrow> underlying_id \<Rightarrow> instrument_id \<Rightarrow> date \<Rightarrow> int \<Rightarrow> int \<Rightarrow> dbl \<Rightarrow>
     margin_model option \<Rightarrow> ctx" where
  "new_ctx m sd mv u sp d off open_sec rate mm =
     \<lparr>cx_session = sd, cx_market = mv, cx_underlying = u, cx_spot = sp, cx_date = d, cx_utc_offset = off,
      cx_anchor = timestamp_of d open_sec off, cx_rate = rate,
      cx_margin = (case mm of None \<Rightarrow> default_margin_model m | Some f \<Rightarrow> f),
      cx_calendar = None, cx_session_open = open_sec, cx_libm = m\<rparr>"

definition bind_session :: "session_data \<Rightarrow> market_view \<Rightarrow> date \<Rightarrow> ctx \<Rightarrow> ctx" where
  "bind_session sd mv d c =
     c\<lparr>cx_session := sd, cx_market := mv, cx_date := d,
       cx_anchor := timestamp_of d (cx_session_open c) (cx_utc_offset c)\<rparr>"

definition cx_now :: "ctx \<Rightarrow> timestamp" where
  "cx_now c = mv_now (cx_market c)"

definition cx_registry :: "ctx \<Rightarrow> registry" where
  "cx_registry c = sd_registry (cx_session c)"

definition spot_price :: "ctx \<Rightarrow> price option" where
  "spot_price c = map_option q_last (latest (cx_market c) (cx_spot c))"

definition ctx_expiries :: "ctx \<Rightarrow> date list" where
  "ctx_expiries c = expiries (cx_registry c) (cx_underlying c)"

section \<open>The chain and the forward\<close>

record chain_view =
  cv_expiry :: date
  cv_strikes :: "price list"

definition chain_of :: "ctx \<Rightarrow> date \<Rightarrow> chain_view" where
  "chain_of c ex =
     \<lparr>cv_expiry = ex,
      cv_strikes = remdups_adj (sort (map strike (filter
        (\<lambda>s. is_option s \<and> underlying s = cx_underlying c \<and> expiry s = ex \<and> mv_has_quote (cx_market c) (spec_id s))
        (specs (cx_registry c)))))\<rparr>"

text \<open>\<open>parity_at\<close>: call mid less put mid at a strike, when both sides are quoted.\<close>

definition parity_at :: "ctx \<Rightarrow> date \<Rightarrow> price \<Rightarrow> dbl option" where
  "parity_at c ex k =
     (case (find_option (cx_registry c) (cx_underlying c) ex k Call,
            find_option (cx_registry c) (cx_underlying c) ex k Put) of
        (Some call, Some put) \<Rightarrow>
          (case (latest (cx_market c) call, latest (cx_market c) put) of
             (Some cq, Some pq) \<Rightarrow>
               if \<not> two_sided cq \<or> \<not> two_sided pq then None
               else Some (fsub (price_to_double (mid cq)) (price_to_double (mid pq)))
           | _ \<Rightarrow> None)
      | _ \<Rightarrow> None)"

text \<open>\<open>usable_near\<close>; the list is of the steps still to try.\<close>

fun near_scan :: "(nat \<Rightarrow> dbl option) \<Rightarrow> nat \<Rightarrow> nat \<Rightarrow> nat list \<Rightarrow> (nat \<times> dbl) option" where
  "near_scan parity n i [] = None"
| "near_scan parity n i (s # ss) =
     (case (if i + s < n then parity (i + s) else None) of
        Some d \<Rightarrow> Some (i + s, d)
      | None \<Rightarrow>
          (case (if s \<noteq> 0 \<and> s \<le> i then parity (i - s) else None) of
             Some d \<Rightarrow> Some (i - s, d)
           | None \<Rightarrow> if 12 < s then None else near_scan parity n i ss))"

definition usable_near :: "(nat \<Rightarrow> dbl option) \<Rightarrow> nat \<Rightarrow> nat \<Rightarrow> (nat \<times> dbl) option" where
  "usable_near parity n i = near_scan parity n i [0..<n]"

record search =
  s_best :: nat
  s_diff :: dbl
  s_lo :: nat
  s_hi :: nat

definition improve :: "nat \<Rightarrow> dbl \<Rightarrow> search \<Rightarrow> search" where
  "improve i d s = (if flt (fabs d) (fabs (s_diff s)) then s\<lparr>s_best := i, s_diff := d\<rparr> else s)"

lemma improve_range [simp]: "s_lo (improve i d s) = s_lo s" "s_hi (improve i d s) = s_hi s"
  by (simp_all add: improve_def)

lemma stride_less:
  "\<not> n \<le> 2 ^ k \<Longrightarrow> n - Suc k < n - k" "\<not> n \<le> b + 2 ^ k \<Longrightarrow> n - Suc k < n - k" for n :: nat
  using less_exp [of k] by linarith+

text \<open>The doubling loop; the stride is \<open>2 ^ k\<close>.\<close>

function bracket :: "(nat \<Rightarrow> dbl option) \<Rightarrow> nat \<Rightarrow> nat \<Rightarrow> search \<Rightarrow> search" where
  "bracket parity n k s =
     (if n \<le> 2 ^ k then s
      else if flt (Fin 0) (s_diff s) then
        let probe = s_best s + 2 ^ k in
        if n \<le> probe then s
        else (case parity probe of
            None \<Rightarrow> s
          | Some d \<Rightarrow>
              let s1 = improve probe d (s\<lparr>s_lo := s_best s, s_hi := probe\<rparr>)
              in if fle d (Fin 0) then s1 else bracket parity n (Suc k) s1)
      else if s_best s < 2 ^ k then s
      else
        let probe = s_best s - 2 ^ k in
        (case parity probe of
            None \<Rightarrow> s
          | Some d \<Rightarrow>
              let s1 = improve probe d (s\<lparr>s_hi := s_best s, s_lo := probe\<rparr>)
              in if fle (Fin 0) d then s1 else bracket parity n (Suc k) s1))"
  by pat_completeness auto

termination by (relation "measure (\<lambda>(parity, n, k, s). n - k)") (auto intro: stride_less)

text \<open>The bisecting loop.\<close>

function bisect :: "(nat \<Rightarrow> dbl option) \<Rightarrow> search \<Rightarrow> search" where
  "bisect parity s =
     (if s_lo s + 1 < s_hi s then
        let m = s_lo s + (s_hi s - s_lo s) div 2 in
        (case parity m of
            None \<Rightarrow> s
          | Some d \<Rightarrow>
              bisect parity (if flt (Fin 0) d then (improve m d s)\<lparr>s_lo := m\<rparr> else (improve m d s)\<lparr>s_hi := m\<rparr>))
      else s)"
  by pat_completeness auto

termination by (relation "measure (\<lambda>(parity, s). s_hi s - s_lo s)") (auto simp: Let_def)

declare bracket.simps [simp del] bisect.simps [simp del]

definition forward :: "ctx \<Rightarrow> date \<Rightarrow> dbl option" where
  "forward c ex =
     (let t = time_to_expiry (cx_now c) ex (cx_utc_offset c) kExpirySecond in
      if \<not> flt (Fin 0) t then None
      else let strikes = cv_strikes (chain_of c ex); n = length strikes in
        if strikes = [] then None
        else let parity = (\<lambda>i. parity_at c ex (strikes ! i)) in
          (case usable_near parity n (n div 2) of
             None \<Rightarrow> None
           | Some (i, d) \<Rightarrow>
               let s = bisect parity (bracket parity n 0 \<lparr>s_best = i, s_diff = d, s_lo = i, s_hi = i\<rparr>);
                   fwd = fadd (price_to_double (strikes ! s_best s))
                     (fmul (lm_exp (cx_libm c) (fmul (cx_rate c) t)) (s_diff s))
               in if \<not> flt (Fin 0) fwd \<or> \<not> isfinite fwd then None else Some fwd))"

section \<open>Strike selection\<close>

text \<open>One iteration of the loop of \<open>atm_strike\<close>; the state is \<open>best\<close> and \<open>best_gap\<close>.\<close>

definition nearer :: "price \<Rightarrow> price \<Rightarrow> price \<times> int \<Rightarrow> price \<times> int" where
  "nearer reference k = (\<lambda>(best, gap).
     let g = \<bar>minor k - minor reference\<bar> in if g < gap then (k, g) else (best, gap))"

definition atm_strike :: "ctx \<Rightarrow> chain_view \<Rightarrow> price option" where
  "atm_strike c v =
     (if cv_strikes v = [] then None
      else case (case spot_price c of
          Some p \<Rightarrow> Some p
        | None \<Rightarrow> map_option price_from_double (forward c (cv_expiry v))) of
        None \<Rightarrow> None
      | Some reference \<Rightarrow>
          Some (fst (fold (nearer reference) (cv_strikes v)
            (hd (cv_strikes v), \<bar>minor (hd (cv_strikes v)) - minor reference\<bar>))))"

definition strike_at :: "ctx \<Rightarrow> chain_view \<Rightarrow> int \<Rightarrow> price option" where
  "strike_at c v offset =
     (case atm_strike c v of
        None \<Rightarrow> None
      | Some atm \<Rightarrow>
          let idx = int (lower_bound (cv_strikes v) atm) + offset
          in if idx < 0 \<or> int (length (cv_strikes v)) \<le> idx then None else Some (cv_strikes v ! nat idx))"

definition chain_option :: "ctx \<Rightarrow> chain_view \<Rightarrow> price \<Rightarrow> right \<Rightarrow> instrument_id option" where
  "chain_option c v k rt =
     (case find_option (cx_registry c) (cx_underlying c) (cv_expiry v) k rt of
        None \<Rightarrow> None
      | Some i \<Rightarrow> if \<not> mv_has_quote (cx_market c) i then None else Some i)"

definition both_legs :: "instrument_id option \<Rightarrow> instrument_id option \<Rightarrow> instrument_id list" where
  "both_legs call put = (case (call, put) of (Some a, Some b) \<Rightarrow> [a, b] | _ \<Rightarrow> [])"

definition straddle :: "ctx \<Rightarrow> chain_view \<Rightarrow> int \<Rightarrow> instrument_id list" where
  "straddle c v offset =
     (case strike_at c v offset of
        None \<Rightarrow> []
      | Some k \<Rightarrow> both_legs (chain_option c v k Call) (chain_option c v k Put))"

definition strangle :: "ctx \<Rightarrow> chain_view \<Rightarrow> int \<Rightarrow> instrument_id list" where
  "strangle c v width =
     (case (strike_at c v width, strike_at c v (- width)) of
        (Some kc, Some kp) \<Rightarrow> both_legs (chain_option c v kc Call) (chain_option c v kp Put)
      | _ \<Rightarrow> [])"

section \<open>Greeks and margin\<close>

definition greeks :: "ctx \<Rightarrow> instrument_id \<Rightarrow> exn + greek_set option" where
  "greeks c i =
     (case spec (cx_registry c) i of
        Inl e \<Rightarrow> Inl e
      | Inr sp \<Rightarrow>
          if \<not> is_option sp then Inr None
          else (case latest (cx_market c) i of
              None \<Rightarrow> Inr None
            | Some q \<Rightarrow>
                if \<not> two_sided q then Inr None
                else (case forward c (expiry sp) of
                    None \<Rightarrow> Inr None
                  | Some fwd \<Rightarrow>
                      let t = time_to_expiry (cx_now c) (expiry sp) (cx_utc_offset c) kExpirySecond in
                      if \<not> flt (Fin 0) t then Inr None
                      else Inr (implied_greeks (cx_libm c) (price_to_double (mid q)) fwd
                        (price_to_double (strike sp)) t (cx_rate c) (right_of sp)))))"

text \<open>One iteration of the loop of \<open>by_delta\<close>; the state is \<open>best\<close> and \<open>best_gap\<close>.\<close>

definition delta_step ::
    "ctx \<Rightarrow> chain_view \<Rightarrow> right \<Rightarrow> dbl \<Rightarrow> price \<Rightarrow> instrument_id option \<times> dbl \<Rightarrow> exn + instrument_id option \<times> dbl" where
  "delta_step c v rt want k = (\<lambda>(best, best_gap).
     case chain_option c v k rt of
       None \<Rightarrow> Inr (best, best_gap)
     | Some i \<Rightarrow>
         (case greeks c i of
            Inl e \<Rightarrow> Inl e
          | Inr None \<Rightarrow> Inr (best, best_gap)
          | Inr (Some g) \<Rightarrow>
              let gap = fabs (fsub (fabs (g_delta g)) want)
              in Inr (if best = None \<or> flt gap best_gap then (Some i, gap) else (best, best_gap))))"

definition by_delta :: "ctx \<Rightarrow> chain_view \<Rightarrow> dbl \<Rightarrow> right \<Rightarrow> exn + instrument_id option" where
  "by_delta c v target rt =
     (case try_fold (delta_step c v rt (fabs target)) (cv_strikes v) (None, Fin 0) of
        Inl e \<Rightarrow> Inl e | Inr (best, _) \<Rightarrow> Inr best)"

definition strangle_by_delta :: "ctx \<Rightarrow> chain_view \<Rightarrow> dbl \<Rightarrow> exn + instrument_id list" where
  "strangle_by_delta c v target =
     (case by_delta c v target Call of
        Inl e \<Rightarrow> Inl e
      | Inr call \<Rightarrow> (case by_delta c v target Put of Inl e \<Rightarrow> Inl e | Inr put \<Rightarrow> Inr (both_legs call put)))"

text \<open>One iteration of the grouping loop of \<open>margin\<close>; the state is \<open>by_expiry\<close>.\<close>

definition group_leg ::
    "ctx \<Rightarrow> leg \<Rightarrow> (int \<times> margin_leg list) list \<Rightarrow> exn + (int \<times> margin_leg list) list" where
  "group_leg c l groups =
     (if \<not> live l then Inr groups
      else case spec (cx_registry c) (leg_instrument l) of
        Inl e \<Rightarrow> Inl e
      | Inr sp \<Rightarrow>
          if \<not> is_option sp then Inr groups
          else (case greeks c (leg_instrument l) of
              Inl e \<Rightarrow> Inl e
            | Inr None \<Rightarrow> Inr groups
            | Inr (Some g) \<Rightarrow>
                let key = yyyymmdd (expiry sp);
                    old = (case map_of groups key of None \<Rightarrow> [] | Some ls \<Rightarrow> ls)
                in Inr (om_put key (old @ [\<lparr>ml_right = right_of sp, ml_strike = price_to_double (strike sp),
                     ml_qty = leg_qty l, ml_iv = g_iv g\<rparr>]) groups)))"

definition add_group :: "ctx \<Rightarrow> int \<times> margin_leg list \<Rightarrow> margin_result \<Rightarrow> margin_result" where
  "add_group c = (\<lambda>(key, legs) total.
     case forward c (Date key) of
       None \<Rightarrow> total
     | Some fwd \<Rightarrow>
         let t = time_to_expiry (cx_now c) (Date key) (cx_utc_offset c) kExpirySecond in
         if \<not> flt (Fin 0) t then total
         else let r = cx_margin c legs fwd t (cx_rate c)
           in total\<lparr>mr_span := mr_span total + mr_span r, mr_exposure := mr_exposure total + mr_exposure r,
                mr_total := mr_total total + mr_total r,
                scanning_risk := fadd (scanning_risk total) (scanning_risk r),
                net_option_value := fadd (net_option_value total) (net_option_value r),
                floor_applied := (floor_applied total \<or> floor_applied r)\<rparr>)"

definition margin :: "ctx \<Rightarrow> portfolio \<Rightarrow> exn + margin_result" where
  "margin c p =
     (case try_fold (group_leg c) (concat (map pos_legs (positions p))) [] of
        Inl e \<Rightarrow> Inl e
      | Inr groups \<Rightarrow> Inr (fold (add_group c) groups no_margin))"

section \<open>Chains, bars and orders\<close>

definition chain :: "ctx \<Rightarrow> exn + chain_view" where
  "chain c =
     (let all = ctx_expiries c in
      case find (\<lambda>d. cx_date c \<le> d) all of
        Some d \<Rightarrow> Inr (chain_of c d)
      | None \<Rightarrow>
          if all = [] then Inl (RuntimeError ''Ctx::chain: no expiries for underlying'')
          else Inr (chain_of c (last all)))"

definition ctx_bars :: "ctx \<Rightarrow> instrument_id \<Rightarrow> int \<Rightarrow> bar_price \<Rightarrow> exn + bar_series" where
  "ctx_bars c i interval_seconds src =
     (if interval_seconds \<le> 0 then Inl (InvalidArgument ''Ctx::bars: interval must be positive'')
      else build (sd_quotes (cx_session c) i) (interval_seconds * 1000000000) (cx_anchor c) src
        (Timestamp (nanos (cx_anchor c) + 24 * 3600 * 1000000000)))"

definition spot_bars :: "ctx \<Rightarrow> int \<Rightarrow> exn + bar_series" where
  "spot_bars c interval_seconds = ctx_bars c (cx_spot c) interval_seconds Last"

definition ctx_lot_size :: "ctx \<Rightarrow> instrument_id \<Rightarrow> exn + qty" where
  "ctx_lot_size c i = (case spec (cx_registry c) i of Inl e \<Rightarrow> Inl e | Inr sp \<Rightarrow> Inr (lot_size sp))"

definition contracts_for :: "registry \<Rightarrow> instrument_id list \<Rightarrow> int \<Rightarrow> exn + qty" where
  "contracts_for reg legs lots =
     (if legs = [] then Inl (InvalidArgument ''order has no legs'')
      else if lots \<le> 0 then Inl (InvalidArgument ''lots must be positive'')
      else case spec reg (hd legs) of
        Inl e \<Rightarrow> Inl e
      | Inr sp0 \<Rightarrow>
          (case try_fold (\<lambda>i u. case spec reg i of
                 Inl e \<Rightarrow> Inl e
               | Inr sp \<Rightarrow> if lot_size sp \<noteq> lot_size sp0
                   then Inl (InvalidArgument ''legs have differing lot sizes; size them explicitly'') else Inr u) legs () of
             Inl e \<Rightarrow> Inl e
           | Inr _ \<Rightarrow> Inr (to_i32 (lot_size sp0 * lots))))"

definition place :: "side \<Rightarrow> ctx \<Rightarrow> instrument_id list \<Rightarrow> int \<Rightarrow> string \<Rightarrow> portfolio \<Rightarrow> exn + int option \<times> portfolio" where
  "place sd c legs lots lbl p =
     (if legs = [] then Inr (None, p)
      else case contracts_for (cx_registry c) legs lots of
        Inl e \<Rightarrow> Inl e
      | Inr n \<Rightarrow> (case submit_open lbl legs sd n (cx_now c) p of Inl e \<Rightarrow> Inl e | Inr (i, q) \<Rightarrow> Inr (Some i, q)))"

definition sell :: "ctx \<Rightarrow> instrument_id list \<Rightarrow> int \<Rightarrow> string \<Rightarrow> portfolio \<Rightarrow> exn + int option \<times> portfolio" where
  "sell = place Sell"

definition buy :: "ctx \<Rightarrow> instrument_id list \<Rightarrow> int \<Rightarrow> string \<Rightarrow> portfolio \<Rightarrow> exn + int option \<times> portfolio" where
  "buy = place Buy"

definition ctx_close :: "ctx \<Rightarrow> int \<Rightarrow> portfolio \<Rightarrow> exn + portfolio" where
  "ctx_close c i p = submit_close i (cx_now c) p"

definition ctx_close_leg :: "ctx \<Rightarrow> int \<Rightarrow> nat \<Rightarrow> portfolio \<Rightarrow> exn + portfolio" where
  "ctx_close_leg c i k p = submit_close_leg i k (cx_now c) p"

text \<open>\<open>exit_at_on\<close> resolves the time with the IST offset, whatever offset the context was built with.\<close>

definition exit_at_on :: "int \<Rightarrow> date \<Rightarrow> string \<Rightarrow> portfolio \<Rightarrow> exn + portfolio" where
  "exit_at_on i d hhmm p =
     (case parse_time_of_day hhmm of
        Inl e \<Rightarrow> Inl e
      | Inr sod \<Rightarrow> attach_exit_at i None (timestamp_of d sod kISTOffsetSeconds) p)"

definition exit_at :: "ctx \<Rightarrow> int \<Rightarrow> string \<Rightarrow> portfolio \<Rightarrow> exn + portfolio" where
  "exit_at c i hhmm p = exit_at_on i (cx_date c) hhmm p"

definition leg_count :: "int \<Rightarrow> portfolio \<Rightarrow> exn + nat" where
  "leg_count i p = (case pf_at p i of Inl e \<Rightarrow> Inl e | Inr pos \<Rightarrow> Inr (length (pos_legs pos)))"

section \<open>Conditions of the context\<close>

definition ctx_at :: "ctx \<Rightarrow> string \<Rightarrow> exn + cond" where
  "ctx_at c hhmm =
     (case parse_time_of_day hhmm of
        Inl e \<Rightarrow> Inl e
      | Inr sod \<Rightarrow>
          let today = timestamp_of (cx_date c) sod (cx_utc_offset c) in
          if cx_now c < today then Inr (at_or_after today)
          else case cx_calendar c of
            Some days \<Rightarrow>
              (case find (\<lambda>d. cx_date c < d) days of
                 Some d \<Rightarrow> Inr (at_or_after (timestamp_of d sod (cx_utc_offset c)))
               | None \<Rightarrow> Inr (Some (\<lambda>_. Inr False)))
          | None \<Rightarrow> Inr (at_or_after today))"

definition ctx_at_on :: "ctx \<Rightarrow> date \<Rightarrow> string \<Rightarrow> exn + cond" where
  "ctx_at_on c d hhmm =
     (case parse_time_of_day hhmm of
        Inl e \<Rightarrow> Inl e | Inr sod \<Rightarrow> Inr (at_or_after (timestamp_of d sod (cx_utc_offset c))))"

definition next_expiry :: "ctx \<Rightarrow> int \<Rightarrow> date option" where
  "next_expiry c min_days_ahead =
     find (\<lambda>d. add_days (cx_date c) min_days_ahead \<le> d) (ctx_expiries c)"

definition after_seconds :: "ctx \<Rightarrow> int \<Rightarrow> cond" where
  "after_seconds c secs = at_or_after (Timestamp (nanos (cx_now c) + secs * 1000000000))"

definition pnl_cond :: "(dbl \<Rightarrow> bool) \<Rightarrow> int \<Rightarrow> cond" where
  "pnl_cond test i = Some (\<lambda>ev.
     case pf_at (ev_portfolio ev) i of
       Inl e \<Rightarrow> Inl e
     | Inr pos \<Rightarrow> Inr (established pos \<and> test (pnl_pct pos (ev_market ev))))"

definition pnl_pct_at_most :: "int \<Rightarrow> dbl \<Rightarrow> cond" where
  "pnl_pct_at_most i pct = pnl_cond (\<lambda>v. fle v pct) i"

definition pnl_pct_at_least :: "int \<Rightarrow> dbl \<Rightarrow> cond" where
  "pnl_pct_at_least i pct = pnl_cond (\<lambda>v. fle pct v) i"

definition position_closed :: "int \<Rightarrow> cond" where
  "position_closed i = Some (\<lambda>ev.
     case pf_at (ev_portfolio ev) i of Inl e \<Rightarrow> Inl e | Inr pos \<Rightarrow> Inr (is_closed pos))"

datatype confirm = Instant | BarClose

text \<open>Whether the pair of values crosses the pair of levels.\<close>

definition crosses :: "bool \<Rightarrow> dbl \<Rightarrow> dbl \<Rightarrow> dbl \<Rightarrow> dbl \<Rightarrow> bool" where
  "crosses rising prev lprev now lnow =
     (if rising then fle prev lprev \<and> flt lnow now else fle lprev prev \<and> flt now lnow)"

definition instant_cross :: "instrument_id \<Rightarrow> bar_indicator \<Rightarrow> bool \<Rightarrow> cond" where
  "instant_cross inst lvl rising = Some (\<lambda>ev.
     case (mv_quote (ev_market ev) inst 0, mv_quote (ev_market ev) inst 1) of
       (Inl e, _) \<Rightarrow> Inl e
     | (_, Inl e) \<Rightarrow> Inl e
     | (Inr (Some now_q), Inr (Some prev_q)) \<Rightarrow>
         (case indicator_at lvl (ev_now ev) 0 of
            Inl e \<Rightarrow> Inl e
          | Inr l0 \<Rightarrow>
              (case indicator_at lvl (q_ts prev_q) 0 of
                 Inl e \<Rightarrow> Inl e
               | Inr l1 \<Rightarrow>
                   (case (l0, l1) of
                      (Some lnow, Some lprev) \<Rightarrow>
                        Inr (crosses rising (price_to_double (q_last prev_q)) lprev (price_to_double (q_last now_q)) lnow)
                    | _ \<Rightarrow> Inr False)))
     | _ \<Rightarrow> Inr False)"

definition bar_close_cross :: "bar_indicator \<Rightarrow> bool \<Rightarrow> cond" where
  "bar_close_cross lvl rising = Some (\<lambda>ev.
     case (completed (ind_bars lvl) (ev_now ev) 0, completed (ind_bars lvl) (ev_now ev) 1) of
       (Inl e, _) \<Rightarrow> Inl e
     | (_, Inl e) \<Rightarrow> Inl e
     | (Inr (Some b0), Inr (Some b1)) \<Rightarrow>
         (case indicator_at lvl (ev_now ev) 0 of
            Inl e \<Rightarrow> Inl e
          | Inr l0 \<Rightarrow>
              (case indicator_at lvl (ev_now ev) 1 of
                 Inl e \<Rightarrow> Inl e
               | Inr l1 \<Rightarrow>
                   (case (l0, l1) of
                      (Some x0, Some x1) \<Rightarrow>
                        Inr (crosses rising (price_to_double (bar_close b1)) x1 (price_to_double (bar_close b0)) x0)
                    | _ \<Rightarrow> Inr False)))
     | _ \<Rightarrow> Inr False)"

definition ctx_cross :: "bool \<Rightarrow> ctx \<Rightarrow> bar_indicator option \<Rightarrow> confirm \<Rightarrow> exn + cond" where
  "ctx_cross rising c lvl cf =
     (case lvl of
        None \<Rightarrow> Inl (InvalidArgument (if rising then ''cross_above: null indicator'' else ''cross_below: null indicator''))
      | Some l \<Rightarrow> Inr (if cf = Instant then instant_cross (cx_spot c) l rising else bar_close_cross l rising))"

definition cross_above :: "ctx \<Rightarrow> bar_indicator option \<Rightarrow> confirm \<Rightarrow> exn + cond" where
  "cross_above = ctx_cross True"

definition cross_below :: "ctx \<Rightarrow> bar_indicator option \<Rightarrow> confirm \<Rightarrow> exn + cond" where
  "cross_below = ctx_cross False"

end
