(* ===== verification/StrategyLaws.thy ===== *)
theory StrategyLaws
  imports Strategy
begin

text \<open>
  The laws of the strategy context: strike selection picks the listed strike nearest the
  reference, and everything a context answers depends on its session through the past only.
\<close>

section \<open>The context is a view\<close>

text \<open>Contexts that differ at most in the session behind the view.\<close>

definition same_view :: "ctx \<Rightarrow> ctx \<Rightarrow> bool" where
  "same_view c c' \<longleftrightarrow> cx_market c = cx_market c' \<and> cx_registry c = cx_registry c' \<and>
     cx_underlying c = cx_underlying c' \<and> cx_spot c = cx_spot c' \<and> cx_date c = cx_date c' \<and>
     cx_utc_offset c = cx_utc_offset c' \<and> cx_anchor c = cx_anchor c' \<and> cx_rate c = cx_rate c' \<and>
     cx_margin c = cx_margin c' \<and> cx_calendar c = cx_calendar c' \<and> cx_libm c = cx_libm c'"

named_theorems view_simps

lemma same_viewD:
  assumes "same_view c c'"
  shows "cx_market c = cx_market c'" "cx_registry c = cx_registry c'" "cx_underlying c = cx_underlying c'"
    "cx_spot c = cx_spot c'" "cx_date c = cx_date c'" "cx_utc_offset c = cx_utc_offset c'"
    "cx_anchor c = cx_anchor c'" "cx_rate c = cx_rate c'" "cx_margin c = cx_margin c'"
    "cx_calendar c = cx_calendar c'" "cx_libm c = cx_libm c'" "cx_now c = cx_now c'"
  using assms by (simp_all add: same_view_def cx_now_def)

lemma view_chain_of: "same_view c c' \<Longrightarrow> chain_of c = chain_of c'"
  by (rule ext) (simp add: chain_of_def same_viewD)

lemma view_parity_at: "same_view c c' \<Longrightarrow> parity_at c = parity_at c'"
  by (intro ext) (simp only: parity_at_def same_viewD)

lemma view_forward: "same_view c c' \<Longrightarrow> forward c = forward c'"
  by (intro ext) (simp only: forward_def same_viewD view_chain_of view_parity_at)

lemma view_spot: "same_view c c' \<Longrightarrow> spot_price c = spot_price c'"
  by (simp add: spot_price_def same_viewD)

lemma view_atm: "same_view c c' \<Longrightarrow> atm_strike c = atm_strike c'"
  by (intro ext) (simp only: atm_strike_def view_spot view_forward)

lemma view_strike_at: "same_view c c' \<Longrightarrow> strike_at c = strike_at c'"
  by (intro ext) (simp only: strike_at_def view_atm)

lemma view_chain_option: "same_view c c' \<Longrightarrow> chain_option c = chain_option c'"
  by (intro ext) (simp only: chain_option_def same_viewD)

lemma view_straddle: "same_view c c' \<Longrightarrow> straddle c = straddle c'"
  by (intro ext) (simp only: straddle_def view_strike_at view_chain_option)

lemma view_strangle: "same_view c c' \<Longrightarrow> strangle c = strangle c'"
  by (intro ext) (simp only: strangle_def view_strike_at view_chain_option)

lemma view_greeks: "same_view c c' \<Longrightarrow> greeks c = greeks c'"
  by (intro ext) (simp only: greeks_def same_viewD view_forward)

lemma view_by_delta: "same_view c c' \<Longrightarrow> by_delta c = by_delta c'"
proof -
  assume v: "same_view c c'"
  have "delta_step c = delta_step c'" by (intro ext) (simp only: delta_step_def view_chain_option [OF v] view_greeks [OF v])
  then show ?thesis by (intro ext) (simp only: by_delta_def)
qed

lemma view_margin: "same_view c c' \<Longrightarrow> margin c = margin c'"
proof -
  assume v: "same_view c c'"
  have "group_leg c = group_leg c'" by (intro ext) (simp only: group_leg_def same_viewD [OF v] view_greeks [OF v])
  moreover have "add_group c = add_group c'" by (intro ext) (simp only: add_group_def same_viewD [OF v] view_forward [OF v])
  ultimately show ?thesis by (intro ext) (simp only: margin_def)
qed

lemma view_chain: "same_view c c' \<Longrightarrow> chain c = chain c'"
  by (simp only: chain_def ctx_expiries_def same_viewD view_chain_of)

lemma view_place: "same_view c c' \<Longrightarrow> place sd c = place sd c'"
  by (intro ext) (simp only: place_def same_viewD)

lemma view_at: "same_view c c' \<Longrightarrow> ctx_at c = ctx_at c'"
  by (intro ext) (simp only: ctx_at_def same_viewD)

lemma view_next_expiry: "same_view c c' \<Longrightarrow> next_expiry c = next_expiry c'"
  by (intro ext) (simp only: next_expiry_def ctx_expiries_def same_viewD)

text \<open>A context re-pointed at a session, with the clock at \<open>t\<close>.\<close>

definition ctx_on :: "ctx \<Rightarrow> session_data \<Rightarrow> timestamp \<Rightarrow> ctx" where
  "ctx_on c sd t = c\<lparr>cx_session := sd, cx_market := market sd t\<rparr>"

lemma ctx_on_view:
  assumes "session_ok sd" and "session_ok sd'" and "same_upto t sd sd'"
  shows "same_view (ctx_on c sd t) (ctx_on c sd' t)"
  using market_same_past [OF assms] assms(3) by (simp add: same_view_def ctx_on_def cx_registry_def same_upto_def)

text \<open>The bars of two such contexts read alike up to their clock, and so does a moving-average cross.\<close>

lemma ctx_bars_same_past:
  assumes ok: "session_ok sd" "session_ok sd'" and same: "same_upto t sd sd'" and "0 < secs"
    and day: "t \<le> Timestamp (nanos (cx_anchor c) + 24 * 3600 * 1000000000)"
    and "ctx_bars (ctx_on c sd t) i secs src = Inr s" and "ctx_bars (ctx_on c sd' t) i secs src = Inr s'"
    and "now \<le> t"
  shows "known_count s now = known_count s' now" and "completed s now k = completed s' now k"
    and "forming s now = forming s' now"
    and "0 < period \<Longrightarrow> \<exists>m m'. sma s period = Inr m \<and> sma s' period = Inr m' \<and> ind_bars m = s \<and> ind_bars m' = s' \<and>
      indicator_at m now k = indicator_at m' now k"
proof -
  let ?i = "secs * 1000000000" and ?a = "cx_anchor c"
  let ?u = "Timestamp (nanos ?a + 24 * 3600 * 1000000000)"
  have b: "build (sd_quotes sd i) ?i ?a src ?u = Inr s" "build (sd_quotes sd' i) ?i ?a src ?u = Inr s'"
    using assms(4,6,7) by (simp_all add: ctx_bars_def ctx_on_def)
  have up: "upto_time t (sd_quotes sd i) = upto_time t (sd_quotes sd' i)" using same by (simp add: same_upto_def)
  have pos: "0 < ?i" using assms(4) by simp
  have v: "nanos ?u = 0 \<or> now \<le> ?u" using order_trans [OF assms(8) day] by blast
  note facts = pos session_okD(1) [OF ok(1), of i] session_okD(1) [OF ok(2), of i] up assms(8) v
  from bars_same_past [OF facts b] show "known_count s now = known_count s' now"
    "completed s now k = completed s' now k" "forming s now = forming s' now"
    by blast+
  show "\<exists>m m'. sma s period = Inr m \<and> sma s' period = Inr m' \<and> ind_bars m = s \<and> ind_bars m' = s' \<and>
      indicator_at m now k = indicator_at m' now k" if p: "0 < period"
    using values_same_past(1) [OF facts p b] p
    by (simp add: sma_def bar_indicator_def sma_values_eq closes_of_def)
qed

section \<open>Strike selection\<close>

definition gap_of :: "price \<Rightarrow> price \<Rightarrow> int" where
  "gap_of r k = \<bar>minor k - minor r\<bar>"

text \<open>\<open>k\<close> is the first of the strikes nearest to \<open>r\<close>.\<close>

definition nearest :: "price \<Rightarrow> price list \<Rightarrow> price \<Rightarrow> bool" where
  "nearest r ks k \<longleftrightarrow> k \<in> set ks \<and> (\<forall>k' \<in> set ks. gap_of r k \<le> gap_of r k' \<and> (gap_of r k' = gap_of r k \<longrightarrow> k \<le> k'))"

lemma nearest_Cons_far: "nearest r (b # xs) k \<Longrightarrow> gap_of r b \<le> gap_of r x \<Longrightarrow> b < x \<Longrightarrow> nearest r (b # x # xs) k"
  by (auto simp: nearest_def dest: less_imp_le order_antisym)

lemma nearest_Cons_near: "nearest r (x # xs) k \<Longrightarrow> gap_of r x < gap_of r b \<Longrightarrow> nearest r (b # x # xs) k"
  by (auto simp: nearest_def)

lemma nearer_fold:
  assumes "fold (nearer r) ks (b, gap_of r b) = (k, g)" and "sorted_wrt (<) (b # ks)"
  shows "nearest r (b # ks) k"
  using assms
proof (induction ks arbitrary: b)
  case (Cons x xs)
  have step: "nearer r x (b, gap_of r b) = (if gap_of r x < gap_of r b then (x, gap_of r x) else (b, gap_of r b))"
    by (simp add: nearer_def gap_of_def)
  show ?case
  proof (cases "gap_of r x < gap_of r b")
    case True
    then have "nearest r (x # xs) k" using Cons.prems by (intro Cons.IH) (simp_all add: step)
    then show ?thesis using True by (rule nearest_Cons_near)
  next
    case False
    then have "nearest r (b # xs) k" using Cons.prems by (intro Cons.IH) (simp_all add: step)
    then show ?thesis using False Cons.prems(2) by (intro nearest_Cons_far) simp_all
  qed
qed (auto simp: nearest_def)

lemma chain_strikes:
  "sorted_wrt (<) (cv_strikes (chain_of c ex))"
  "set (cv_strikes (chain_of c ex)) = strike ` {s \<in> set (specs (cx_registry c)). is_option s \<and>
     underlying s = cx_underlying c \<and> expiry s = ex \<and> mv_has_quote (cx_market c) (spec_id s)}"
  by (auto simp: chain_of_def intro: strict_remdups_adj)

lemma strict_lower_bound:
  assumes "sorted_wrt (<) ks" and "i < length ks"
  shows "lower_bound ks (ks ! i) = i"
proof -
  have "sorted ks" using assms(1) by (simp add: strict_sorted_iff)
  moreover have "length (takeWhile (\<lambda>x. x < ks ! i) ks) = i"
    by (rule length_takeWhile_eqI) (use assms sorted_wrt_nth_less [OF assms(1)] in auto)
  ultimately show ?thesis by (simp add: lower_bound_sorted)
qed

section \<open>Properties\<close>

text \<open>C18: the money is the listed strike nearest the reference.  The strikes of a chain are exactly
  those of the options of its underlying and expiry that have printed, each once and ascending.
  When \<open>atm_strike\<close> answers, its strike is on the chain, no other is nearer the last spot price
  (or, without one, the parity forward), and of two equally near it is the lower; \<open>strike_at\<close>
  counts from it along the chain, and refuses to step off either end.\<close>

theorem strike_selection:
  assumes "atm_strike c (chain_of c ex) = Some k"
  defines "ks \<equiv> cv_strikes (chain_of c ex)"
  shows "sorted_wrt (<) ks \<and>
    set ks = strike ` {s \<in> set (specs (cx_registry c)). is_option s \<and>
      underlying s = cx_underlying c \<and> expiry s = ex \<and> mv_has_quote (cx_market c) (spec_id s)} \<and>
    (\<exists>r. (spot_price c = Some r \<or> spot_price c = None \<and> map_option price_from_double (forward c ex) = Some r) \<and>
      (\<forall>k' \<in> set ks. \<bar>minor k - minor r\<bar> \<le> \<bar>minor k' - minor r\<bar> \<and>
         (\<bar>minor k' - minor r\<bar> = \<bar>minor k - minor r\<bar> \<longrightarrow> k \<le> k'))) \<and>
    (\<exists>i < length ks. ks ! i = k \<and>
      (\<forall>n. strike_at c (chain_of c ex) n =
        (if 0 \<le> int i + n \<and> int i + n < int (length ks) then Some (ks ! nat (int i + n)) else None)))"
proof -
  note strikes = chain_strikes [of c ex, folded ks_def]
  have ne: "ks \<noteq> []" using assms(1) by (auto simp: atm_strike_def ks_def)
  have "cv_expiry (chain_of c ex) = ex" by (simp add: chain_of_def)
  with assms(1) ne obtain r where r: "spot_price c = Some r \<or> spot_price c = None \<and> map_option price_from_double (forward c ex) = Some r"
    and f: "k = fst (fold (nearer r) ks (hd ks, \<bar>minor (hd ks) - minor r\<bar>))"
    by (auto simp: atm_strike_def ks_def split: option.splits)
  obtain b bs where bs: "ks = b # bs" using ne by (cases ks) auto
  obtain g where "fold (nearer r) ks (b, gap_of r b) = (k, g)"
    using f by (simp add: bs gap_of_def) (metis prod.collapse)
  moreover have "nearer r b (b, gap_of r b) = (b, gap_of r b)" by (simp add: nearer_def gap_of_def)
  ultimately have "nearest r ks k"
    unfolding bs using strikes(1) by (intro nearer_fold) (simp_all add: bs)
  then have near: "k \<in> set ks" "\<forall>k' \<in> set ks. \<bar>minor k - minor r\<bar> \<le> \<bar>minor k' - minor r\<bar> \<and>
         (\<bar>minor k' - minor r\<bar> = \<bar>minor k - minor r\<bar> \<longrightarrow> k \<le> k')"
    by (simp_all add: nearest_def gap_of_def)
  then obtain i where i: "i < length ks" "ks ! i = k" by (metis in_set_conv_nth)
  have "strike_at c (chain_of c ex) n =
        (if 0 \<le> int i + n \<and> int i + n < int (length ks) then Some (ks ! nat (int i + n)) else None)" for n
    using assms(1) strict_lower_bound [OF strikes(1) i(1)] i(2) by (auto simp: strike_at_def Let_def simp flip: ks_def)
  then show ?thesis using strikes r near i by blast
qed

definition demo_session :: session_data where
  "demo_session = (one_instrument sample_columns)\<lparr>sd_registry := empty_registry\<lparr>specs := [demo_spec]\<rparr>\<rparr>"

definition demo_ctx :: ctx where
  "demo_ctx = new_ctx flat_libm demo_session (demo_view 20) (UnderlyingId 0) (InstrumentId 0) (Date 20250703)
     kISTOffsetSeconds 33300 (Fin 0) None"

theorem strike_selection_witness:
  "strike_at demo_ctx (chain_of demo_ctx (Date 20250703)) 0 = Some (Price 10000) \<and>
   strike_at demo_ctx (chain_of demo_ctx (Date 20250703)) 1 = None"
proof -
  have ks: "cv_strikes (chain_of demo_ctx (Date 20250703)) = [Price 10000]"
    by (simp add: chain_of_def demo_ctx_def new_ctx_def cx_registry_def demo_session_def demo_spec_def is_option_def demo_view_def)
  have "spot_price demo_ctx = Some (Price 102)"
    by (simp add: spot_price_def demo_ctx_def new_ctx_def demo_quote_def)
  then have "atm_strike demo_ctx (chain_of demo_ctx (Date 20250703)) = Some (Price 10000)"
    by (simp add: atm_strike_def ks nearer_def)
  from strike_selection [OF this] ks show ?thesis by auto
qed

text \<open>C19: the context cannot look ahead.  Point a context at two sessions that agree up to \<open>t\<close>, with
  the clock at \<open>t\<close>: spot, chain, strikes, forward, Greeks, margin, expiry and time-of-day queries
  and the orders placed are the same, whatever the sessions hold afterwards; and the bar series,
  although built from the full columns, answer \<open>known_count\<close>, \<open>completed\<close> and \<open>forming\<close> alike at
  every time up to \<open>t\<close>, as do the moving averages over them.\<close>

theorem context_reads_the_past:
  assumes "session_ok sd" and "session_ok sd'" and "same_upto t sd sd'"
    and a: "a = ctx_on c sd t" and b: "b = ctx_on c sd' t"
  shows "spot_price a = spot_price b \<and> chain a = chain b \<and> chain_of a = chain_of b \<and> strike_at a = strike_at b \<and>
    straddle a = straddle b \<and> strangle a = strangle b \<and> by_delta a = by_delta b \<and>
    forward a = forward b \<and> greeks a = greeks b \<and> margin a = margin b \<and> place sd1 a = place sd1 b \<and>
    ctx_at a = ctx_at b \<and> next_expiry a = next_expiry b \<and>
    (\<forall>i secs src s s' now k period. 0 < secs \<and> t \<le> Timestamp (nanos (cx_anchor c) + 24 * 3600 * 1000000000) \<and>
       ctx_bars a i secs src = Inr s \<and> ctx_bars b i secs src = Inr s' \<and> now \<le> t \<and> 0 < period \<longrightarrow>
       known_count s now = known_count s' now \<and> completed s now k = completed s' now k \<and> forming s now = forming s' now \<and>
       (\<exists>m m'. sma s period = Inr m \<and> sma s' period = Inr m' \<and> indicator_at m now k = indicator_at m' now k))"
proof -
  have v: "same_view a b" unfolding a b by (rule ctx_on_view [OF assms(1-3)])
  have "known_count s now = known_count s' now \<and> completed s now k = completed s' now k \<and> forming s now = forming s' now \<and>
       (\<exists>m m'. sma s period = Inr m \<and> sma s' period = Inr m' \<and> indicator_at m now k = indicator_at m' now k)"
    if "0 < secs" "t \<le> Timestamp (nanos (cx_anchor c) + 24 * 3600 * 1000000000)"
      "ctx_bars a i secs src = Inr s" "ctx_bars b i secs src = Inr s'" "now \<le> t" "0 < period"
    for i secs src s s' now k period
    using ctx_bars_same_past [OF assms(1-3) that(1,2) that(3) [unfolded a] that(4) [unfolded b] that(5)] that(6) by blast
  then show ?thesis
    using view_spot [OF v] view_chain [OF v] view_chain_of [OF v] view_strike_at [OF v] view_straddle [OF v]
      view_strangle [OF v] view_by_delta [OF v] view_forward [OF v] view_greeks [OF v] view_margin [OF v]
      view_place [OF v] view_at [OF v] view_next_expiry [OF v]
    by (intro conjI allI impI; (elim conjE)?; blast?)
qed

theorem context_reads_the_past_witness:
  "forward (ctx_on demo_ctx (one_instrument sample_columns) (Timestamp 25)) =
   forward (ctx_on demo_ctx (one_instrument (first_rows 3 sample_columns)) (Timestamp 25))"
proof -
  have s: "size_of sample_columns = 4" by (simp add: sample_columns_def size_of_def)
  then have ok: "session_ok (one_instrument sample_columns)" "session_ok (one_instrument (first_rows 3 sample_columns))"
    by (auto intro!: one_instrument_ok first_rows_ok sample_columns_ok)
  have "same_upto (Timestamp 25) (one_instrument sample_columns) (one_instrument (first_rows 3 sample_columns))"
    by (simp add: same_upto_def one_instrument_def Let_def) code_simp
  from context_reads_the_past [OF ok this refl refl] show ?thesis by blast
qed

end
