(* ===== verification/MemorySource.thy ===== *)
theory MemorySource
  imports Session OrderedMap "HOL-Library.Multiset"
begin

text \<open>
  \<open>memory_source.hpp\<close> and \<open>memory_source.cpp\<close>: the in-memory session every adapter decodes into,
  its merged event order and timeline, and the data source that holds one session per date.
\<close>

section \<open>State\<close>

record memory_session =
  ms_date :: date
  ms_registry :: registry
  ms_series :: "(int \<times> quote_columns) list"
  ms_instruments :: "instrument_id list"
  ms_order :: "event list"
  ms_timeline :: "timestamp list"
  ms_total :: nat

definition new_session :: "date \<Rightarrow> registry \<Rightarrow> memory_session" where
  "new_session d r = \<lparr>ms_date = d, ms_registry = r, ms_series = [], ms_instruments = [],
     ms_order = [], ms_timeline = [], ms_total = 0\<rparr>"

section \<open>Operations\<close>

definition series_for :: "instrument_id \<Rightarrow> memory_session \<Rightarrow> quote_columns \<times> memory_session" where
  "series_for i m =
     (case map_of (ms_series m) (index_of i) of
        Some s \<Rightarrow> (s, m)
      | None \<Rightarrow> (empty_columns, m\<lparr>ms_series := om_put (index_of i) empty_columns (ms_series m),
                                  ms_instruments := ms_instruments m @ [i]\<rparr>))"

definition push_row :: "quote \<Rightarrow> quote_columns \<Rightarrow> quote_columns" where
  "push_row q s =
     \<lparr>c_ts = c_ts s @ [q_ts q], c_last = c_last s @ [q_last q], c_bid = c_bid s @ [q_bid q],
      c_ask = c_ask s @ [q_ask q], c_bid_qty = c_bid_qty s @ [q_bid_qty q],
      c_ask_qty = c_ask_qty s @ [q_ask_qty q], c_last_qty = c_last_qty s @ [q_last_qty q],
      c_open_interest = c_open_interest s @ [q_open_interest q]\<rparr>"

definition append_quote :: "instrument_id \<Rightarrow> quote \<Rightarrow> memory_session \<Rightarrow> exn + memory_session" where
  "append_quote i q m =
     (let (s, m1) = series_for i m
      in if c_ts s \<noteq> [] \<and> q_ts q < last (c_ts s)
         then Inl (InvalidArgument
           ''MemorySessionData::append: observations must be non-decreasing in time'')
         else Inr (m1\<lparr>ms_series := om_put (index_of i) (push_row q s) (ms_series m1),
                      ms_total := ms_total m1 + 1, ms_order := [], ms_timeline := []\<rparr>))"

definition ms_quotes :: "memory_session \<Rightarrow> instrument_id \<Rightarrow> quote_columns" where
  "ms_quotes m i =
     (case map_of (ms_series m) (index_of i) of None \<Rightarrow> empty_columns | Some s \<Rightarrow> s)"

definition series_events :: "int \<times> quote_columns \<Rightarrow> event list" where
  "series_events = (\<lambda>(key, s).
     map (\<lambda>k. Event (c_ts s ! k) (InstrumentId key) (k mod 2 ^ 32)) [0..<size_of s])"

definition timeline_step :: "event \<Rightarrow> timestamp list \<Rightarrow> timestamp list" where
  "timeline_step e acc = (if acc = [] \<or> last acc \<noteq> e_ts e then acc @ [e_ts e] else acc)"

definition build_event_order :: "memory_session \<Rightarrow> memory_session" where
  "build_event_order m =
     (let order = sort (concat (map series_events (ms_series m)))
      in m\<lparr>ms_order := order, ms_timeline := fold timeline_step order []\<rparr>)"

text \<open>The class as a \<open>SessionData\<close>; it keeps the default \<open>printed_by\<close>.\<close>

definition memory_data :: "memory_session \<Rightarrow> session_data" where
  "memory_data m =
     \<lparr>sd_date = ms_date m, sd_registry = ms_registry m, sd_instruments = ms_instruments m,
      sd_quotes = ms_quotes m, sd_total_observations = ms_total m, sd_event_order = ms_order m,
      sd_timeline = ms_timeline m, sd_printed_by = default_printed_by (ms_quotes m)\<rparr>"

text \<open>A data source; \<open>None\<close> is the null pointer.\<close>

record memory_source =
  src_registry :: registry
  src_sessions :: "(int \<times> memory_session) list"

definition add_session :: "memory_session option \<Rightarrow> memory_source \<Rightarrow> exn + memory_source" where
  "add_session session src =
     (case session of
        None \<Rightarrow> Inl (InvalidArgument ''MemoryDataSource::add_session: null session'')
      | Some m \<Rightarrow>
          Inr (src\<lparr>src_sessions := om_put (yyyymmdd (ms_date m)) m (src_sessions src)\<rparr>))"

definition sessions :: "memory_source \<Rightarrow> date list" where
  "sessions src = map (\<lambda>(d, _). Date d) (src_sessions src)"

definition load :: "memory_source \<Rightarrow> date \<Rightarrow> memory_session option" where
  "load src d = map_of (src_sessions src) (yyyymmdd d)"

section \<open>Invariant\<close>

definition memory_ok :: "memory_session \<Rightarrow> bool" where
  "memory_ok m \<longleftrightarrow> om_ok (ms_series m) \<and> distinct (ms_instruments m) \<and>
     set (ms_instruments m) = InstrumentId ` set (map fst (ms_series m)) \<and>
     (\<forall>k s. map_of (ms_series m) k = Some s \<longrightarrow> columns_ok s \<and> size_of s < 2 ^ 32) \<and>
     ms_total m = sum_list (map (size_of \<circ> snd) (ms_series m)) \<and>
     (ms_order m = [] \<or> ms_order m = sort (concat (map series_events (ms_series m)))) \<and>
     (ms_timeline m = [] \<or> ms_timeline m = remdups_adj (map e_ts (sort (concat (map series_events (ms_series m))))))"

lemma memory_okD:
  assumes "memory_ok m"
  shows "om_ok (ms_series m)" and "distinct (ms_instruments m)"
    and "set (ms_instruments m) = InstrumentId ` set (map fst (ms_series m))"
    and "map_of (ms_series m) k = Some s \<Longrightarrow> columns_ok s"
    and "map_of (ms_series m) k = Some s \<Longrightarrow> size_of s < 2 ^ 32"
    and "ms_total m = sum_list (map (size_of \<circ> snd) (ms_series m))"
    and "ms_order m = [] \<or> ms_order m = sort (concat (map series_events (ms_series m)))"
    and "ms_timeline m = [] \<or>
      ms_timeline m = remdups_adj (map e_ts (sort (concat (map series_events (ms_series m)))))"
  using assms by (simp_all add: memory_ok_def)

lemma new_session_ok: "memory_ok (new_session d r)"
  by (simp add: memory_ok_def new_session_def)

lemma push_row_ok:
  assumes "columns_ok s" and "c_ts s = [] \<or> last (c_ts s) \<le> q_ts q"
  shows "columns_ok (push_row q s)"
proof -
  have "x \<le> q_ts q" if "x \<in> set (c_ts s)" for x
  proof -
    have "x \<le> last (c_ts s)" by (rule sorted_le_last [OF columns_okD [OF assms(1)] that])
    also have "\<dots> \<le> q_ts q" using assms(2) that by auto
    finally show ?thesis .
  qed
  then show ?thesis using assms(1) by (auto simp: columns_ok_def push_row_def size_of_def sorted_append)
qed

lemma size_of_push_row [simp]: "size_of (push_row q s) = Suc (size_of s)"
  by (simp add: size_of_def push_row_def)

lemma column_at_push_row:
  assumes "columns_ok s" and "k \<le> size_of s"
  shows "column_at (push_row q s) k = (if k = size_of s then q else column_at s k)"
  using assms by (auto simp: column_at_def push_row_def columns_ok_def size_of_def nth_append)

text \<open>What one accepted append does; a refused one leaves the session alone.\<close>

lemma append_quote_Inr:
  assumes "append_quote i q m = Inr m'"
  shows "ms_quotes m' = (ms_quotes m)(i := push_row q (ms_quotes m i))"
    and "c_ts (ms_quotes m i) = [] \<or> last (c_ts (ms_quotes m i)) \<le> q_ts q"
    and "ms_order m' = []" and "ms_timeline m' = []"
    and "ms_date m' = ms_date m" and "ms_registry m' = ms_registry m"
  using assms
  by (auto simp: append_quote_def series_for_def ms_quotes_def Let_def not_less fun_eq_iff
    instrument_id.expand split: option.splits if_splits)

lemma append_quote_Inl:
  "(\<exists>e. append_quote i q m = Inl e) \<longleftrightarrow>
     c_ts (ms_quotes m i) \<noteq> [] \<and> q_ts q < last (c_ts (ms_quotes m i))"
  by (auto simp: append_quote_def series_for_def ms_quotes_def Let_def empty_columns_def
    split: option.splits)

lemma refused_append_inserts_nothing:
  assumes "append_quote i q m = Inl e"
  shows "series_for i m = (ms_quotes m i, m)"
  using assms
  by (auto simp: append_quote_def series_for_def ms_quotes_def Let_def empty_columns_def
    split: option.splits if_splits)

lemma append_quote_ok:
  assumes ok: "memory_ok m" and room: "Suc (size_of (ms_quotes m i)) < 2 ^ 32"
    and run: "append_quote i q m = Inr m'"
  shows "memory_ok m'" and "ms_total m' = Suc (ms_total m)"
proof -
  obtain s m1 where sf: "series_for i m = (s, m1)" by (cases "series_for i m")
  let ?k = "index_of i"
  have s: "s = ms_quotes m i"
    using sf by (auto simp: series_for_def ms_quotes_def split: option.splits)
  have m': "m' = m1\<lparr>ms_series := om_put ?k (push_row q s) (ms_series m1),
      ms_total := ms_total m1 + 1, ms_order := [], ms_timeline := []\<rparr>"
    using run sf by (auto simp: append_quote_def Let_def split: if_splits)
  have cok: "columns_ok (ms_quotes m j)" for j
    using ok by (auto simp: ms_quotes_def memory_ok_def split: option.splits)
  have new: "columns_ok (push_row q s) \<and> size_of (push_row q s) < 2 ^ 32"
    using append_quote_Inr(2) [OF run] room cok s by (simp add: push_row_ok)
  have total: "sum_list (map (size_of \<circ> snd) (om_put ?k (push_row q s) (ms_series m))) =
      Suc (sum_list (map (size_of \<circ> snd) (ms_series m)))"
  proof -
    have "om_ok (ms_series m)" using ok by (simp add: memory_ok_def)
    from sum_list_om_put [OF this, of "size_of \<circ> snd" ?k "push_row q s"] show ?thesis
      by (auto simp: s ms_quotes_def split: option.splits)
  qed
  have "memory_ok m' \<and> ms_total m' = Suc (ms_total m)"
  proof (cases "map_of (ms_series m) ?k")
    case None
    then have fresh: "?k \<notin> set (map fst (ms_series m))" by (simp add: map_of_eq_None_iff)
    have m1: "m1 = m\<lparr>ms_series := om_put ?k empty_columns (ms_series m),
        ms_instruments := ms_instruments m @ [i]\<rparr>"
      using sf None by (auto simp: series_for_def)
    have put: "om_put ?k (push_row q s) (om_put ?k empty_columns (ms_series m)) =
        om_put ?k (push_row q s) (ms_series m)"
      using om_put_put .
    have "i \<notin> set (ms_instruments m)"
      using fresh unfolding memory_okD(3) [OF ok] by (metis imageE instrument_id.sel)
    moreover have "InstrumentId ?k = i" by simp
    ultimately show ?thesis
      using ok new total set_om_put [of ?k "push_row q s" "ms_series m"]
      by (auto simp: memory_ok_def m' m1 put split: if_splits)
  next
    case (Some c)
    then have m1: "m1 = m" using sf by (auto simp: series_for_def)
    have "insert ?k (set (map fst (ms_series m))) = set (map fst (ms_series m))"
      using Some by (force dest: map_of_SomeD)
    then show ?thesis
      using ok new total set_om_put [of ?k "push_row q s" "ms_series m"]
      by (auto simp: memory_ok_def m' m1 split: if_splits)
  qed
  then show "memory_ok m'" "ms_total m' = Suc (ms_total m)" by auto
qed

lemma fold_timeline_step:
  "fold timeline_step es acc =
     (if acc = [] then remdups_adj (map e_ts es)
      else butlast acc @ remdups_adj (last acc # map e_ts es))"
proof (induction es arbitrary: acc)
  case (Cons e es)
  then show ?case by (cases "acc = []") (auto simp: timeline_step_def butlast_append)
qed auto

lemma build_event_order_ok:
  assumes "memory_ok m"
  shows "memory_ok (build_event_order m)"
  using assms by (simp add: memory_ok_def build_event_order_def Let_def fold_timeline_step)

lemma mset_concat_map_cong: "mset xs = mset ys \<Longrightarrow> mset (concat (map f xs)) = mset (concat (map f ys))"
  by (simp add: mset_concat) (metis mset_map sum_mset_sum_list)

lemma sort_mset_cong: "mset xs = mset ys \<Longrightarrow> sort xs = sort (ys :: 'a::linorder list)"
  by (rule properties_for_sort) simp_all

lemma series_events_concat:
  assumes "memory_ok m"
  shows "mset (concat (map series_events (ms_series m))) = mset (all_events (memory_data m))"
proof -
  define g where "g = (\<lambda>i. map (\<lambda>k. Event (c_ts (ms_quotes m i) ! k) i k) [0..<size_of (ms_quotes m i)])"
  define ids where "ids = map (InstrumentId \<circ> fst) (ms_series m)"
  have d: "distinct (map fst (ms_series m))" using assms by (simp add: memory_ok_def om_ok_distinct)
  have "series_events (k, s) = g (InstrumentId k)" if "(k, s) \<in> set (ms_series m)" for k s
  proof -
    have m: "map_of (ms_series m) k = Some s" using d that by simp
    then have "size_of s < 2 ^ 32" using assms by (simp add: memory_ok_def)
    then show ?thesis using m by (auto simp: series_events_def g_def ms_quotes_def)
  qed
  then have "map series_events (ms_series m) = map g ids" by (auto simp: ids_def)
  moreover have "mset ids = mset (ms_instruments m)"
  proof -
    have "distinct ids"
      using d unfolding ids_def map_map [symmetric] by (subst distinct_map) (auto intro: inj_onI)
    moreover have "set ids = set (ms_instruments m)"
      unfolding memory_okD(3) [OF assms] by (auto simp: ids_def)
    ultimately show ?thesis using memory_okD(2) [OF assms] by (simp add: set_eq_iff_mset_eq_distinct)
  qed
  moreover have "all_events (memory_data m) = concat (map g (ms_instruments m))"
    by (simp add: all_events_def memory_data_def g_def)
  ultimately show ?thesis by (metis mset_concat_map_cong)
qed

lemma memory_session_ok:
  assumes "memory_ok m"
  shows "session_ok (memory_data m)"
proof -
  note mset = series_events_concat [OF assms]
  then have sorted: "sort (concat (map series_events (ms_series m))) = sort (all_events (memory_data m))"
    by (rule sort_mset_cong)
  have "length (all_events (memory_data m)) = length (concat (map series_events (ms_series m)))"
    using mset by (metis size_mset)
  also have "\<dots> = sum_list (map (size_of \<circ> snd) (ms_series m))"
    by (auto simp: length_concat series_events_def comp_def split: prod.splits
      intro!: arg_cong [where f = sum_list])
  finally have total: "ms_total m = length (all_events (memory_data m))"
    using assms by (simp add: memory_ok_def)
  have "columns_ok (ms_quotes m i) \<and> size_of (ms_quotes m i) < 2 ^ 32 \<and>
      (size_of (ms_quotes m i) \<noteq> 0 \<longrightarrow> i \<in> set (ms_instruments m))" for i
  proof (cases "map_of (ms_series m) (index_of i)")
    case (Some s)
    then have "index_of i \<in> set (map fst (ms_series m))" by (force dest: map_of_SomeD)
    then have "InstrumentId (index_of i) \<in> set (ms_instruments m)"
      unfolding memory_okD(3) [OF assms] by (rule imageI)
    then show ?thesis using memory_okD(4,5) [OF assms Some] Some by (simp add: ms_quotes_def)
  qed (simp add: ms_quotes_def)
  then show ?thesis
    using total memory_okD(2,7,8) [OF assms] unfolding session_ok_def distinct_times_def sorted
    by (simp add: memory_data_def)
qed

interpretation memory: session_source memory_data memory_ok
  by unfold_locales (rule memory_session_ok)

section \<open>Properties\<close>

text \<open>An adapter's decoding loop: append observation after observation, stopping at a refusal.\<close>

fun append_all :: "(instrument_id \<times> quote) list \<Rightarrow> memory_session \<Rightarrow> exn + memory_session" where
  "append_all [] m = Inr m"
| "append_all ((i, q) # qs) m =
     (case append_quote i q m of Inl e \<Rightarrow> Inl e | Inr m1 \<Rightarrow> append_all qs m1)"

definition rows :: "quote_columns \<Rightarrow> quote list" where
  "rows c = map (column_at c) [0..<size_of c]"

lemma rows_push_row: "columns_ok c \<Longrightarrow> rows (push_row q c) = rows c @ [q]"
  by (auto simp: rows_def column_at_push_row)

lemma q_ts_rows: "map q_ts (rows c) = c_ts c"
  by (auto simp: rows_def column_at_def size_of_def intro: nth_equalityI)

definition rows_of :: "instrument_id \<Rightarrow> (instrument_id \<times> quote) list \<Rightarrow> quote list" where
  "rows_of i qs = map snd (filter (\<lambda>(j, _). j = i) qs)"

lemma rows_of_Cons: "rows_of j ((i, q) # qs) = (if i = j then q # rows_of j qs else rows_of j qs)"
  by (simp add: rows_of_def)

lemma ms_quotes_ok: "memory_ok m \<Longrightarrow> columns_ok (ms_quotes m i)"
  by (auto simp: ms_quotes_def memory_okD split: option.splits)

lemma size_of_ms_quotes: "memory_ok m \<Longrightarrow> size_of (ms_quotes m i) \<le> ms_total m"
proof (cases "map_of (ms_series m) (index_of i)")
  case (Some s)
  assume ok: "memory_ok m"
  from Some have "size_of s \<in> set (map (size_of \<circ> snd) (ms_series m))"
    by (force dest: map_of_SomeD)
  then show ?thesis using Some memory_okD(6) [OF ok] by (simp add: ms_quotes_def member_le_sum_list)
qed (simp add: ms_quotes_def)

lemma append_all_accepts:
  assumes "append_all qs m = Inr m'" and "memory_ok m" and "ms_total m + length qs < 2 ^ 32"
  shows "memory_ok m' \<and> ms_total m' = ms_total m + length qs \<and>
    (\<forall>i. rows (ms_quotes m' i) = rows (ms_quotes m i) @ rows_of i qs) \<and>
    ms_date m' = ms_date m \<and> ms_registry m' = ms_registry m"
  using assms
proof (induction qs m rule: append_all.induct)
  case (2 i q qs m)
  from "2.prems"(1) obtain m1 where m1: "append_quote i q m = Inr m1" "append_all qs m1 = Inr m'"
    by (auto split: sum.splits)
  have "Suc (size_of (ms_quotes m i)) < 2 ^ 32"
    using size_of_ms_quotes [OF "2.prems"(2), of i] "2.prems"(3) by simp
  note ok = append_quote_ok [OF "2.prems"(2) this m1(1)] and q = append_quote_Inr [OF m1(1)]
  have "rows (ms_quotes m1 j) @ rows_of j qs = rows (ms_quotes m j) @ rows_of j ((i, q) # qs)" for j
    using ms_quotes_ok [OF "2.prems"(2)] by (cases "i = j") (simp_all add: q(1) rows_of_Cons rows_push_row)
  moreover have "ms_total m1 + length qs < 2 ^ 32" using ok(2) "2.prems"(3) by simp
  note ih = "2.IH" [OF m1 ok(1) this]
  ultimately show ?case using ih ok(2) q(5,6) by simp
qed (simp add: rows_of_def)

lemma append_all_iff:
  assumes "memory_ok m" and "ms_total m + length qs < 2 ^ 32"
  shows "(\<exists>m'. append_all qs m = Inr m') \<longleftrightarrow>
    (\<forall>i. sorted (map q_ts (rows (ms_quotes m i) @ rows_of i qs)))"
  using assms
proof (induction qs m rule: append_all.induct)
  case (1 m)
  then show ?case using ms_quotes_ok columns_okD by (simp add: q_ts_rows rows_of_def)
next
  case (2 i q qs m)
  show ?case
  proof (cases "append_quote i q m")
    case (Inl e)
    then have "c_ts (ms_quotes m i) \<noteq> []" "q_ts q < last (c_ts (ms_quotes m i))"
      using append_quote_Inl by blast+
    then have "\<not> sorted (map q_ts (rows (ms_quotes m i) @ rows_of i ((i, q) # qs)))"
      using last_in_set by (fastforce simp: q_ts_rows sorted_append rows_of_Cons)
    then show ?thesis using Inl by auto
  next
    case (Inr m1)
    have "Suc (size_of (ms_quotes m i)) < 2 ^ 32"
      using size_of_ms_quotes [OF "2.prems"(1), of i] "2.prems"(2) by simp
    note ok = append_quote_ok [OF "2.prems"(1) this Inr] and q = append_quote_Inr [OF Inr]
    have "rows (ms_quotes m1 j) @ rows_of j qs = rows (ms_quotes m j) @ rows_of j ((i, q) # qs)" for j
      using ms_quotes_ok [OF "2.prems"(1)] by (cases "i = j") (simp_all add: q(1) rows_of_Cons rows_push_row)
    moreover have "ms_total m1 + length qs < 2 ^ 32" using ok(2) "2.prems"(2) by simp
    note ih = "2.IH" [OF Inr ok(1) this]
    ultimately show ?thesis using ih Inr by simp
  qed
qed

lemma set_all_times:
  assumes "session_ok sd"
  shows "e_ts ` set (all_events sd) = (\<Union>i. set (c_ts (sd_quotes sd i)))"
proof -
  have "t \<in> e_ts ` set (all_events sd)" if "t \<in> set (c_ts (sd_quotes sd i))" for t i
  proof -
    obtain k where k: "k < size_of (sd_quotes sd i)" "t = c_ts (sd_quotes sd i) ! k"
      using \<open>t \<in> set (c_ts (sd_quotes sd i))\<close> by (auto simp: in_set_conv_nth size_of_def)
    moreover from this have "i \<in> set (sd_instruments sd)" using session_okD(3) [OF assms] by simp
    ultimately have "Event t i k \<in> set (all_events sd)" by (force simp: all_events_def)
    then show ?thesis by force
  qed
  moreover have "e_ts e \<in> (\<Union>i. set (c_ts (sd_quotes sd i)))" if "e \<in> set (all_events sd)" for e
    using that nth_mem by (fastforce simp: all_events_def size_of_def)
  ultimately show ?thesis by blast
qed

lemma sorted_e_ts: "sorted es \<Longrightarrow> sorted (map e_ts es)"
  unfolding sorted_map by (rule sorted_wrt_mono_rel) (auto dest: event_le_ts)

lemma distinct_times_laws:
  assumes "session_ok sd"
  shows "sorted_wrt (<) (distinct_times sd)"
    and "set (distinct_times sd) = (\<Union>i. set (c_ts (sd_quotes sd i)))"
  using set_all_times [OF assms]
  by (simp_all add: distinct_times_def strict_remdups_adj sorted_e_ts)

text \<open>C5: what an adapter gets for its rows.  A sequence of appends to a new session is accepted
  exactly when every instrument's rows arrive in non-decreasing time; then each instrument holds
  its rows in arrival order, the total counts them all, and after \<open>build_event_order\<close> the session
  meets the contract of a data source: the merged order is the sorted list of all observations
  and the timeline is the strictly ascending list of their times.\<close>

theorem appended_session:
  assumes "length qs < 2 ^ 32"
  shows "((\<exists>m. append_all qs (new_session d r) = Inr m) \<longleftrightarrow> (\<forall>i. sorted (map q_ts (rows_of i qs)))) \<and>
    (\<forall>m. append_all qs (new_session d r) = Inr m \<longrightarrow>
      (let sd = memory_data (build_event_order m)
       in session_ok sd \<and> (\<forall>i. rows (sd_quotes sd i) = rows_of i qs) \<and>
          sd_total_observations sd = length qs \<and>
          sd_event_order sd = sort (all_events sd) \<and>
          sorted_wrt (<) (sd_timeline sd) \<and> set (sd_timeline sd) = (q_ts \<circ> snd) ` set qs))"
proof -
  let ?new = "new_session d r"
  have new: "memory_ok ?new" "ms_total ?new + length qs < 2 ^ 32" "rows (ms_quotes ?new i) = []" for i
    using assms new_session_ok by (auto simp: new_session_def ms_quotes_def rows_def)
  have "let sd = memory_data (build_event_order m)
       in session_ok sd \<and> (\<forall>i. rows (sd_quotes sd i) = rows_of i qs) \<and>
          sd_total_observations sd = length qs \<and> sd_event_order sd = sort (all_events sd) \<and>
          sorted_wrt (<) (sd_timeline sd) \<and> set (sd_timeline sd) = (q_ts \<circ> snd) ` set qs"
    if run: "append_all qs ?new = Inr m" for m
  proof -
    let ?b = "build_event_order m"
    let ?sd = "memory_data ?b"
    have a: "memory_ok m" "ms_total m = length qs" "\<And>i. rows (ms_quotes m i) = rows_of i qs"
      using append_all_accepts [OF run new(1,2)] new(3) by (auto simp: new_session_def)
    have ok: "memory_ok ?b" by (rule build_event_order_ok [OF a(1)])
    then have sd: "session_ok ?sd" by (rule memory.source_ok)
    have q: "sd_quotes ?sd = ms_quotes m" "sd_total_observations ?sd = ms_total m"
      by (simp_all add: memory_data_def build_event_order_def ms_quotes_def Let_def fun_eq_iff)
    have "ms_series ?b = ms_series m" by (simp add: build_event_order_def Let_def)
    then have order: "sd_event_order ?sd = sort (all_events ?sd)"
      using sort_mset_cong [OF series_events_concat [OF ok]]
      by (simp add: memory_data_def build_event_order_def Let_def)
    have "sd_timeline ?sd = distinct_times ?sd"
      using order unfolding distinct_times_def
      by (simp add: memory_data_def build_event_order_def Let_def fold_timeline_step)
    moreover have "(\<Union>i. set (c_ts (ms_quotes m i))) = (q_ts \<circ> snd) ` set qs"
      by (force simp: q_ts_rows [symmetric] a(3) rows_of_def)
    ultimately show ?thesis using sd q a order distinct_times_laws [OF sd] by (simp add: Let_def)
  qed
  then show ?thesis using append_all_iff [OF new(1,2)] new(3) by simp
qed

definition sample_rows :: "(instrument_id \<times> quote) list" where
  "sample_rows =
     [(InstrumentId 1, column_at sample_columns 0), (InstrumentId 0, column_at sample_columns 1),
      (InstrumentId 1, column_at sample_columns 2), (InstrumentId 0, column_at sample_columns 3)]"

theorem appended_session_witness:
  "\<exists>m. append_all sample_rows (new_session (Date 20250703) empty_registry) = Inr m \<and>
     sd_total_observations (memory_data (build_event_order m)) = 4"
proof -
  have "length sample_rows < 2 ^ 32" by (simp add: sample_rows_def)
  note t = appended_session [OF this, of "Date 20250703" empty_registry]
  have "sorted (map q_ts (rows_of i sample_rows))" for i
    by (simp add: rows_of_def sample_rows_def column_at_def sample_columns_def)
  with t obtain m where "append_all sample_rows (new_session (Date 20250703) empty_registry) = Inr m"
    by blast
  with t show ?thesis by (auto simp: Let_def sample_rows_def)
qed

end
