(* ===== verification/Cursor.thy ===== *)
theory Cursor
  imports MemorySource
begin

text \<open>
  \<open>EventCursor\<close> of \<open>data_source.cpp\<close>: walks a session in time order, along the precomputed index
  when the source has one and otherwise by a k-way merge of the per-instrument runs.  The heap
  of \<open>std::make_heap\<close>, \<open>pop_heap\<close> and \<open>push_heap\<close> is the list of its elements; the library
  promises no more of their arrangement than that \<open>pop_heap\<close> brings a greatest element to the
  back, which is all the merge uses.
\<close>

section \<open>State and operations\<close>

record merge_run =
  r_instrument :: instrument_id
  r_row :: nat
  r_end :: nat
  r_ts :: timestamp

record event_cursor =
  cu_data :: session_data
  cu_order :: "event list"
  cu_order_pos :: nat
  cu_heap :: "merge_run list"
  cu_now :: timestamp
  cu_emitted :: nat

definition run_greater :: "merge_run \<Rightarrow> merge_run \<Rightarrow> bool" where
  "run_greater a b =
     (if r_ts a \<noteq> r_ts b then r_ts b < r_ts a
      else index_of (r_instrument b) < index_of (r_instrument a))"

text \<open>The element that is greatest under \<open>RunGreater\<close>, that is the earliest run.\<close>

fun top_run :: "merge_run \<Rightarrow> merge_run list \<Rightarrow> merge_run" where
  "top_run r [] = r"
| "top_run r (s # h) = top_run (if run_greater r s then s else r) h"

definition pop_heap :: "merge_run list \<Rightarrow> merge_run list" where
  "pop_heap h = (case h of [] \<Rightarrow> [] | r # rs \<Rightarrow> remove1 (top_run r rs) h @ [top_run r rs])"

definition event_cursor :: "session_data \<Rightarrow> event_cursor" where
  "event_cursor sd =
     \<lparr>cu_data = sd, cu_order = sd_event_order sd, cu_order_pos = 0,
      cu_heap =
        (if sd_event_order sd \<noteq> [] then []
         else map (\<lambda>i. \<lparr>r_instrument = i, r_row = 0, r_end = size_of (sd_quotes sd i) mod 2 ^ 32,
                         r_ts = c_ts (sd_quotes sd i) ! 0\<rparr>)
                (filter (\<lambda>i. size_of (sd_quotes sd i) \<noteq> 0) (sd_instruments sd))),
      cu_now = Timestamp 0, cu_emitted = 0\<rparr>"

text \<open>
  \<open>next\<close>: the event, or \<open>None\<close> at the end.  A row stays below \<open>end\<close>, so its increment does not
  wrap.
\<close>

definition next_event :: "event_cursor \<Rightarrow> (event \<times> event_cursor) option" where
  "next_event c =
     (if cu_order c \<noteq> [] then
        if length (cu_order c) \<le> cu_order_pos c then None
        else let out = cu_order c ! cu_order_pos c
          in Some (out, c\<lparr>cu_order_pos := cu_order_pos c + 1, cu_now := e_ts out,
                          cu_emitted := cu_emitted c + 1\<rparr>)
      else if cu_heap c = [] then None
      else
        let h = pop_heap (cu_heap c); r = last h; rest = butlast h;
            out = Event (r_ts r) (r_instrument r) (r_row r);
            c1 = c\<lparr>cu_now := r_ts r, cu_emitted := cu_emitted c + 1\<rparr>
        in if r_row r + 1 < r_end r
           then Some (out, c1\<lparr>cu_heap := rest @
             [r\<lparr>r_row := r_row r + 1,
                r_ts := c_ts (sd_quotes (cu_data c) (r_instrument r)) ! (r_row r + 1)\<rparr>]\<rparr>)
           else Some (out, c1\<lparr>cu_heap := rest\<rparr>))"

section \<open>Every event is yielded once\<close>

lemma top_run_in: "top_run r h \<in> set (r # h)"
  by (induction r h rule: top_run.induct) auto

lemma pop_heap_parts:
  assumes "h \<noteq> []"
  shows "last (pop_heap h) = top_run (hd h) (tl h)"
    and "butlast (pop_heap h) = remove1 (top_run (hd h) (tl h)) h"
    and "last (pop_heap h) \<in> set h"
    and "mset h = add_mset (last (pop_heap h)) (mset (butlast (pop_heap h)))"
proof -
  obtain r rs where h: "h = r # rs" using assms by (cases h) auto
  have "top_run r rs \<in> set (r # rs)" by (rule top_run_in)
  then show "last (pop_heap h) = top_run (hd h) (tl h)"
    "butlast (pop_heap h) = remove1 (top_run (hd h) (tl h)) h" "last (pop_heap h) \<in> set h"
    "mset h = add_mset (last (pop_heap h)) (mset (butlast (pop_heap h)))"
    by (auto simp: h pop_heap_def butlast_append)
qed

definition work_left :: "event_cursor \<Rightarrow> nat" where
  "work_left c = (length (cu_order c) - cu_order_pos c) +
     (\<Sum>r\<leftarrow>cu_heap c. Suc (r_end r - r_row r))"

lemma sum_list_pop:
  fixes f :: "merge_run \<Rightarrow> nat"
  assumes "h \<noteq> []"
  shows "sum_list (map f h) = f (last (pop_heap h)) + sum_list (map f (butlast (pop_heap h)))"
proof -
  have "sum_list (map f h) = sum_mset (image_mset f (mset h))"
    by (metis mset_map sum_mset_sum_list)
  then show ?thesis unfolding pop_heap_parts(4) [OF assms]
    by (simp add: sum_mset_sum_list flip: mset_map)
qed

lemma next_event_less:
  assumes "next_event c = Some (e, c')"
  shows "work_left c' < work_left c"
proof (cases "cu_order c = []")
  case True
  with assms have ne: "cu_heap c \<noteq> []" by (auto simp: next_event_def split: if_splits)
  show ?thesis
    using assms True ne sum_list_pop [OF ne, of "\<lambda>r. Suc (r_end r - r_row r)"]
    by (auto simp: next_event_def work_left_def Let_def split: if_splits)
next
  case False
  then show ?thesis using assms by (auto simp: next_event_def work_left_def Let_def split: if_splits)
qed

text \<open>The loop \<open>while (cursor.next(ev))\<close> that both callers run.\<close>

function drain :: "event_cursor \<Rightarrow> event list" where
  "drain c = (case next_event c of None \<Rightarrow> [] | Some (e, c') \<Rightarrow> e # drain c')"
  by pat_completeness auto
termination
  by (relation "measure work_left") (auto simp: next_event_less)

declare drain.simps [simp del]

lemma drain_indexed:
  assumes "cu_order c \<noteq> []"
  shows "drain c = drop (cu_order_pos c) (cu_order c)"
  using assms
proof (induction c rule: drain.induct)
  case (1 c)
  show ?case
  proof (cases "length (cu_order c) \<le> cu_order_pos c")
    case True
    then show ?thesis using "1.prems" by (subst drain.simps) (simp add: next_event_def)
  next
    case False
    then have n: "next_event c = Some (cu_order c ! cu_order_pos c,
        c\<lparr>cu_order_pos := cu_order_pos c + 1, cu_now := e_ts (cu_order c ! cu_order_pos c),
          cu_emitted := cu_emitted c + 1\<rparr>)"
      using "1.prems" by (simp add: next_event_def Let_def)
    show ?thesis
      using "1.IH" [OF n refl] "1.prems" False
      by (subst drain.simps) (simp add: n Cons_nth_drop_Suc)
  qed
qed

section \<open>The merge\<close>

definition events_from :: "session_data \<Rightarrow> instrument_id \<Rightarrow> nat \<Rightarrow> event list" where
  "events_from sd i k =
     map (\<lambda>n. Event (c_ts (sd_quotes sd i) ! n) i n) [k..<size_of (sd_quotes sd i)]"

definition remaining :: "session_data \<Rightarrow> merge_run list \<Rightarrow> event multiset" where
  "remaining sd h = (\<Sum>r\<leftarrow>h. mset (events_from sd (r_instrument r) (r_row r)))"

definition heap_ok :: "session_data \<Rightarrow> merge_run list \<Rightarrow> bool" where
  "heap_ok sd h \<longleftrightarrow> distinct (map r_instrument h) \<and>
     (\<forall>r \<in> set h. r_end r = size_of (sd_quotes sd (r_instrument r)) \<and> r_row r < r_end r \<and>
        r_ts r = c_ts (sd_quotes sd (r_instrument r)) ! r_row r)"

definition head_event :: "merge_run \<Rightarrow> event" where
  "head_event r = Event (r_ts r) (r_instrument r) (r_row r)"

lemma top_run_least:
  assumes "distinct (map r_instrument (r # h))" and "s \<in> set (r # h)"
  shows "head_event (top_run r h) \<le> head_event s"
proof -
  have step: "\<not> run_greater a b \<Longrightarrow> r_instrument a \<noteq> r_instrument b \<Longrightarrow> head_event a \<le> head_event b"
    and step': "run_greater a b \<Longrightarrow> head_event b \<le> head_event a" for a b
    by (auto simp: run_greater_def head_event_def less_eq_event_def less_event_def event_before_def not_less
      less_timestamp_def timestamp.expand intro!: instrument_id.expand split: if_splits)
  show ?thesis
    using assms
  proof (induction r h arbitrary: s rule: top_run.induct)
    case (2 r s' h)
    show ?case
    proof (cases "run_greater r s'")
      case True
      then have ih: "head_event (top_run s' h) \<le> head_event t" if "t \<in> set (s' # h)" for t
        using 2 that by auto
      then have "head_event (top_run s' h) \<le> head_event r"
        using step' [OF True] by (meson list.set_intros(1) order_trans)
      with ih True "2.prems"(2) show ?thesis by auto
    next
      case False
      then have ih: "head_event (top_run r h) \<le> head_event t" if "t \<in> set (r # h)" for t
        using 2 that by auto
      then have "head_event (top_run r h) \<le> head_event s'"
        using step [OF False] "2.prems"(1) by (metis distinct_length_2_or_more list.set_intros(1)
          list.simps(9) order_trans)
      with ih False "2.prems"(2) show ?thesis by auto
    qed
  qed simp
qed

lemma events_from_Cons:
  assumes "k < size_of (sd_quotes sd i)"
  shows "events_from sd i k = Event (c_ts (sd_quotes sd i) ! k) i k # events_from sd i (Suc k)"
  using assms by (simp add: events_from_def upt_conv_Cons)

lemma head_le_events_from:
  assumes "columns_ok (sd_quotes sd i)" and "k < size_of (sd_quotes sd i)" and "e \<in> set (events_from sd i k)"
  shows "Event (c_ts (sd_quotes sd i) ! k) i k \<le> e"
proof -
  obtain n where n: "k \<le> n" "n < size_of (sd_quotes sd i)" "e = Event (c_ts (sd_quotes sd i) ! n) i n"
    using assms(3) by (auto simp: events_from_def)
  have "c_ts (sd_quotes sd i) ! k \<le> c_ts (sd_quotes sd i) ! n"
    using n assms(1) by (intro sorted_nth_mono columns_okD) (auto simp: size_of_def)
  then show ?thesis using n by (auto simp: less_eq_event_def less_event_def event_before_def)
qed

lemma remaining_pop:
  assumes "h \<noteq> []"
  shows "remaining sd h = mset (events_from sd (r_instrument (last (pop_heap h))) (r_row (last (pop_heap h)))) +
    remaining sd (butlast (pop_heap h))"
proof -
  let ?f = "\<lambda>r. mset (events_from sd (r_instrument r) (r_row r))"
  have "remaining sd h = sum_mset (image_mset ?f (mset h))"
    unfolding remaining_def by (metis mset_map sum_mset_sum_list)
  then show ?thesis unfolding pop_heap_parts(4) [OF assms] remaining_def
    by (simp add: sum_mset_sum_list flip: mset_map)
qed

lemma in_remaining: "e \<in># remaining sd h \<longleftrightarrow> (\<exists>r \<in> set h. e \<in> set (events_from sd (r_instrument r) (r_row r)))"
  unfolding remaining_def by (induction h) auto

lemma drain_merge:
  assumes "session_ok (cu_data c)" and "cu_order c = []" and "heap_ok (cu_data c) (cu_heap c)"
  shows "sorted (drain c) \<and> mset (drain c) = remaining (cu_data c) (cu_heap c)"
  using assms
proof (induction c rule: drain.induct)
  case (1 c)
  let ?sd = "cu_data c" and ?h = "cu_heap c"
  show ?case
  proof (cases "?h = []")
    case True
    then show ?thesis using "1.prems"(2) by (subst drain.simps) (simp add: next_event_def remaining_def drain.simps)
  next
    case False
    define r rest where "r = last (pop_heap ?h)" and "rest = butlast (pop_heap ?h)"
    let ?q = "sd_quotes ?sd (r_instrument r)"
    have r: "r \<in> set ?h" "mset ?h = add_mset r (mset rest)"
      using pop_heap_parts [OF False] by (simp_all add: r_def rest_def)
    have rest: "set rest \<subseteq> set ?h" "distinct (map r_instrument (r # rest))"
      using r(2) "1.prems"(3) unfolding heap_ok_def
      by (metis mset_subset_eqD mset_subset_eq_add_right set_mset_mset subsetI add_mset_add_single
          in_multiset_in_set union_iff) (metis r(2) "1.prems"(3) heap_ok_def mset.simps(2)
          mset_eq_imp_distinct_iff mset_map)
    have row: "r_end r = size_of ?q" "r_row r < size_of ?q" "r_ts r = c_ts ?q ! r_row r"
      using r(1) "1.prems"(3) by (auto simp: heap_ok_def)
    have top: "r = top_run (hd ?h) (tl ?h)" using pop_heap_parts(1) [OF False] by (simp add: r_def)
    have least: "head_event r \<le> e" if e: "e \<in># remaining ?sd ?h" for e
    proof -
      obtain s where s: "s \<in> set ?h" "e \<in> set (events_from ?sd (r_instrument s) (r_row s))"
        using e by (auto simp: in_remaining)
      have "head_event r \<le> head_event s"
        using top_run_least [of "hd ?h" "tl ?h" s] s(1) False "1.prems"(3) top by (simp add: heap_ok_def)
      also have "head_event s \<le> e"
        using head_le_events_from [OF session_okD(1) [OF "1.prems"(1)] _ s(2)] s(1) "1.prems"(3)
        by (auto simp: heap_ok_def head_event_def)
      finally show ?thesis .
    qed
    have split: "remaining ?sd ?h = add_mset (head_event r)
        (mset (events_from ?sd (r_instrument r) (Suc (r_row r))) + remaining ?sd rest)"
      using remaining_pop [OF False, of ?sd] row
      by (simp add: r_def [symmetric] rest_def [symmetric] events_from_Cons head_event_def)
    obtain c' where c': "next_event c = Some (head_event r, c')" "cu_data c' = ?sd" "cu_order c' = []"
      "heap_ok ?sd (cu_heap c')"
      "remaining ?sd (cu_heap c') = mset (events_from ?sd (r_instrument r) (Suc (r_row r))) + remaining ?sd rest"
    proof (cases "r_row r + 1 < r_end r")
      case True
      let ?r' = "r\<lparr>r_row := r_row r + 1, r_ts := c_ts ?q ! (r_row r + 1)\<rparr>"
      have "heap_ok ?sd (rest @ [?r'])"
        using rest row True "1.prems"(3) by (auto simp: heap_ok_def)
      moreover have "remaining ?sd (rest @ [?r']) =
          mset (events_from ?sd (r_instrument r) (Suc (r_row r))) + remaining ?sd rest"
        by (simp add: remaining_def)
      ultimately show ?thesis
        using True False "1.prems"(2) that
        by (simp add: next_event_def Let_def r_def [symmetric] rest_def [symmetric] head_event_def)
    next
      case last: False
      then have "events_from ?sd (r_instrument r) (Suc (r_row r)) = []"
        using row by (simp add: events_from_def)
      moreover have "heap_ok ?sd rest" using rest "1.prems"(3) by (auto simp: heap_ok_def)
      ultimately show ?thesis
        using last False "1.prems"(2) that
        by (simp add: next_event_def Let_def r_def [symmetric] rest_def [symmetric] head_event_def)
    qed
    have ih: "sorted (drain c')" "mset (drain c') = remaining ?sd (cu_heap c')"
      using "1.IH" [OF c'(1) refl] c' "1.prems"(1) by simp_all
    have d: "drain c = head_event r # drain c'" by (subst drain.simps) (simp add: c'(1))
    have "head_event r \<le> e" if "e \<in> set (drain c')" for e
      using that ih(2) c'(5) split by (intro least) (simp flip: set_mset_mset)
    then show ?thesis using d ih c'(5) split by simp
  qed
qed

lemma mset_concat_sum: "mset (concat xss) = (\<Sum>xs\<leftarrow>xss. mset xs)"
  by (induction xss) simp_all

lemma initial_heap:
  assumes "session_ok sd" and "sd_event_order sd = []"
  shows "heap_ok sd (cu_heap (event_cursor sd))"
    and "remaining sd (cu_heap (event_cursor sd)) = mset (all_events sd)"
proof -
  let ?h = "cu_heap (event_cursor sd)"
  have "map r_instrument ?h = filter (\<lambda>i. size_of (sd_quotes sd i) \<noteq> 0) (sd_instruments sd)"
    using assms(2) by (simp add: event_cursor_def comp_def)
  then show "heap_ok sd ?h"
    using assms session_okD(2,4) [OF assms(1)] by (auto simp: heap_ok_def event_cursor_def)
  have "(\<Sum>i\<leftarrow>filter (\<lambda>i. size_of (sd_quotes sd i) \<noteq> 0) is. mset (events_from sd i 0)) =
      (\<Sum>i\<leftarrow>is. mset (events_from sd i 0))" for "is"
    by (induction "is") (auto simp: events_from_def)
  then show "remaining sd ?h = mset (all_events sd)"
    using assms(2) by (simp add: remaining_def event_cursor_def comp_def all_events_def mset_concat_sum
      events_from_def)
qed

lemma drain_sorted_events:
  assumes "session_ok sd"
  shows "drain (event_cursor sd) = sort (all_events sd)"
proof (cases "sd_event_order sd = []")
  case True
  have c: "cu_data (event_cursor sd) = sd" "cu_order (event_cursor sd) = []"
    using True by (simp_all add: event_cursor_def)
  from drain_merge [of "event_cursor sd"] initial_heap [OF assms True] assms c
  show ?thesis by (metis properties_for_sort)
next
  case False
  then show ?thesis
    using session_okD(7) [OF assms] by (simp add: drain_indexed event_cursor_def)
qed

section \<open>Properties\<close>

text \<open>C6: replay order does not depend on whether the source caches it.  For any session that meets
  the contract, the cursor yields every observation exactly once in ascending (time, instrument,
  row) order and then ends, both when it walks a precomputed index and when it merges the
  per-instrument runs itself; so an indexed session and the same session without its index are
  replayed identically.\<close>

theorem cursor_replays_in_order:
  assumes "session_ok sd"
  shows "drain (event_cursor sd) = sort (all_events sd) \<and>
    drain (event_cursor (sd\<lparr>sd_event_order := []\<rparr>)) = drain (event_cursor sd) \<and>
    sorted (map e_ts (drain (event_cursor sd))) \<and>
    length (drain (event_cursor sd)) = sd_total_observations sd"
proof -
  let ?sd' = "sd\<lparr>sd_event_order := []\<rparr>"
  have events: "all_events ?sd' = all_events sd" by (simp add: all_events_def)
  have "session_ok ?sd'" using assms by (simp add: session_ok_def distinct_times_def events)
  then have "drain (event_cursor ?sd') = sort (all_events sd)"
    using drain_sorted_events events by simp
  then show ?thesis
    using assms by (simp add: drain_sorted_events sorted_e_ts session_okD(8))
qed

theorem cursor_replays_in_order_witness:
  "\<exists>m. append_all sample_rows (new_session (Date 20250703) empty_registry) = Inr m \<and>
     drain (event_cursor (memory_data m)) =
       [Event (Timestamp 10) (InstrumentId 1) 0, Event (Timestamp 20) (InstrumentId 0) 0,
        Event (Timestamp 20) (InstrumentId 1) 1, Event (Timestamp 30) (InstrumentId 0) 1]"
proof -
  have "length sample_rows < 2 ^ 32" by (simp add: sample_rows_def)
  have new: "memory_ok (new_session (Date 20250703) empty_registry)" by (rule new_session_ok)
  obtain m where m: "append_all sample_rows (new_session (Date 20250703) empty_registry) = Inr m"
    "ms_instruments m = [InstrumentId 1, InstrumentId 0]"
    "ms_series m = [(0, push_row (column_at sample_columns 3) (push_row (column_at sample_columns 1) empty_columns)),
       (1, push_row (column_at sample_columns 2) (push_row (column_at sample_columns 0) empty_columns))]"
    by (simp add: sample_rows_def append_quote_def series_for_def new_session_def Let_def
      column_at_def sample_columns_def empty_columns_def push_row_def)
  have "memory_ok m"
    using append_all_accepts [OF m(1) new] by (simp add: new_session_def sample_rows_def)
  from cursor_replays_in_order [OF memory.source_ok [OF this]]
  have "drain (event_cursor (memory_data m)) = sort (all_events (memory_data m))" by blast
  moreover have "all_events (memory_data m) =
      [Event (Timestamp 10) (InstrumentId 1) 0, Event (Timestamp 20) (InstrumentId 1) 1,
       Event (Timestamp 20) (InstrumentId 0) 0, Event (Timestamp 30) (InstrumentId 0) 1]"
    by (simp add: all_events_def memory_data_def m ms_quotes_def push_row_def empty_columns_def
      size_of_def column_at_def sample_columns_def upt_rec numeral_eq_Suc)
  moreover have "sort [Event (Timestamp 10) (InstrumentId 1) 0, Event (Timestamp 20) (InstrumentId 1) 1,
       Event (Timestamp 20) (InstrumentId 0) 0, Event (Timestamp 30) (InstrumentId 0) 1] =
      [Event (Timestamp 10) (InstrumentId 1) 0, Event (Timestamp 20) (InstrumentId 0) 0,
        Event (Timestamp 20) (InstrumentId 1) 1, Event (Timestamp 30) (InstrumentId 0) 1]"
    by code_simp
  ultimately show ?thesis using m(1) by auto
qed

end
