(* ===== verification/EventLoop.thy ===== *)
theory EventLoop
  imports StrategyLaws PortfolioRuns Cursor
begin

text \<open>
  \<open>event_loop.hpp\<close> and \<open>event_loop.cpp\<close>: one strategy over one session.  A strategy is a C++
  coroutine; its frame is compiler-generated, so the model takes the coroutine as a parameter: its
  start, one resumption (which may place orders and may throw), whether it is done, and the
  condition it waits for.  A waiting condition is a closure over the context; it is rebuilt from
  the frame and the context, which point at the same session for as long as it waits.
\<close>

section \<open>Strategies\<close>

record 's strategy =
  st_start :: "ctx \<Rightarrow> 's option"
  st_resume :: "ctx \<Rightarrow> 's \<Rightarrow> portfolio \<Rightarrow> exn + 's \<times> portfolio"
  st_done :: "'s \<Rightarrow> bool"
  st_pending :: "ctx \<Rightarrow> 's \<Rightarrow> cond"

record run_config =
  execution_delay_nanos :: int
  rc_fills :: "fill_model option"
  max_resumes_per_step :: int
  session_open_sec :: int
  rc_rate :: dbl
  rc_costs :: "(cost_context \<Rightarrow> money) option"
  rc_margin :: "margin_model option"
  margin_sample_seconds :: int

definition default_run_config :: run_config where
  "default_run_config =
     \<lparr>execution_delay_nanos = 0, rc_fills = None, max_resumes_per_step = 64,
      session_open_sec = 9 * 3600 + 15 * 60, rc_rate = rnd (65 / 1000), rc_costs = None,
      rc_margin = None, margin_sample_seconds = 60\<rparr>"

record run_result =
  rr_date :: date
  rr_realized :: money
  rr_costs :: money
  rr_net_realized :: money
  rr_unrealized :: money
  rr_final_equity :: money
  rr_observations :: nat
  rr_steps :: nat
  condition_evals :: nat
  rr_resumes :: nat
  rr_trades :: nat
  rr_illiquid_fills :: nat
  rr_oversized_fills :: nat
  rr_cancelled_orders :: nat
  rr_peak_margin :: money
  rr_final_margin :: money
  rr_rules_fired :: nat
  unfilled_orders :: nat
  rr_open_positions :: nat
  strategy_finished :: bool
  trade_log :: "trade_record list"

section \<open>The loop\<close>

text \<open>One iteration of the loop that derives the steps; the state is \<open>seen\<close>, \<open>derived\<close> and the count.\<close>

definition observe :: "event \<Rightarrow> timestamp \<times> timestamp list \<times> nat \<Rightarrow> timestamp \<times> timestamp list \<times> nat" where
  "observe ev = (\<lambda>(seen, derived, n).
     if e_ts ev = seen then (seen, derived, n + 1) else (e_ts ev, derived @ [e_ts ev], n + 1))"

definition session_steps :: "session_data \<Rightarrow> timestamp list \<times> nat" where
  "session_steps sd =
     (if sd_timeline sd = [] then snd (fold observe (drain (event_cursor sd)) (kNoTime, [], 0))
      else (sd_timeline sd, sd_total_observations sd))"

text \<open>What the run carries from one step to the next.\<close>

record 's run_state =
  rs_now :: timestamp
  rs_portfolio :: portfolio
  rs_task :: 's
  rs_next_margin :: timestamp
  rs_peak :: money
  rs_steps :: nat
  rs_evals :: nat
  rs_resumes :: nat

definition margin_interval :: "run_config \<Rightarrow> int" where
  "margin_interval cfg = max 1 (margin_sample_seconds cfg) * 1000000000"

text \<open>The margin sample of a step: the next sampling time and the peak so far.\<close>

definition sample_margin ::
    "run_config \<Rightarrow> ctx \<Rightarrow> portfolio \<Rightarrow> timestamp \<Rightarrow> timestamp \<times> money \<Rightarrow> exn + timestamp \<times> money" where
  "sample_margin cfg c p step_ts = (\<lambda>(next_margin, peak).
     if next_margin \<le> step_ts then
       (case margin c p of
          Inl e \<Rightarrow> Inl e
        | Inr m \<Rightarrow> Inr (Timestamp (nanos step_ts + margin_interval cfg),
            if amount peak < amount (mr_total m) then mr_total m else peak))
     else Inr (next_margin, peak))"

text \<open>The inner loop; the counters are the evaluations and the resumptions.\<close>

function resume_loop ::
    "'s strategy \<Rightarrow> int \<Rightarrow> ctx \<Rightarrow> timestamp \<Rightarrow> int \<Rightarrow> 's \<times> portfolio \<times> nat \<times> nat \<Rightarrow> exn + 's \<times> portfolio \<times> nat \<times> nat" where
  "resume_loop S mx c step_ts guard (s, p, evals, resumes) =
     (if st_done S s \<or> \<not> cond_valid (st_pending S c s) then Inr (s, p, evals, resumes)
      else case cond_eval (st_pending S c s) \<lparr>ev_market = cx_market c, ev_portfolio = p, ev_now = step_ts\<rparr> of
        Inl e \<Rightarrow> Inl e
      | Inr False \<Rightarrow> Inr (s, p, evals + 1, resumes)
      | Inr True \<Rightarrow>
          (case st_resume S c s p of
             Inl e \<Rightarrow> Inl e
           | Inr (s', p') \<Rightarrow>
               if mx < guard + 1
               then Inl (RuntimeError ''strategy resumed repeatedly within one timestamp: a condition is always true, so it is spinning rather than waiting for the market'')
               else resume_loop S mx c step_ts (guard + 1) (s', p', evals + 1, resumes + 1)))"
  by pat_completeness auto
termination
  by (relation "measure (\<lambda>(S, mx, c, t, guard, _). nat (mx - guard))") auto

declare resume_loop.simps [simp del]

definition run_step ::
    "'s strategy \<Rightarrow> run_config \<Rightarrow> session_data \<Rightarrow> ctx \<Rightarrow> timestamp \<Rightarrow> 's run_state \<Rightarrow> exn + 's run_state" where
  "run_step S cfg sd c step_ts st =
     (case advance_to (rs_now st) step_ts of Inl e \<Rightarrow> Inl e
      | Inr now \<Rightarrow>
     (case process_pending (market sd now) (rs_portfolio st) of Inl e \<Rightarrow> Inl e
      | Inr p1 \<Rightarrow>
     (case process_risk_rules (market sd now) p1 of Inl e \<Rightarrow> Inl e
      | Inr p2 \<Rightarrow>
     (case sample_margin cfg (ctx_on c sd now) p2 step_ts (rs_next_margin st, rs_peak st) of Inl e \<Rightarrow> Inl e
      | Inr (nm, peak) \<Rightarrow>
     (case resume_loop S (max_resumes_per_step cfg) (ctx_on c sd now) step_ts 0
             (rs_task st, p2, rs_evals st, rs_resumes st) of Inl e \<Rightarrow> Inl e
      | Inr (s, p3, evals, resumes) \<Rightarrow>
          Inr \<lparr>rs_now = now, rs_portfolio = p3, rs_task = s, rs_next_margin = nm, rs_peak = peak,
            rs_steps = rs_steps st + 1, rs_evals = evals, rs_resumes = resumes\<rparr>)))))"

definition run_ctx :: "libm \<Rightarrow> run_config \<Rightarrow> session_data \<Rightarrow> underlying_id \<Rightarrow> instrument_id \<Rightarrow> ctx" where
  "run_ctx m cfg sd u sp =
     new_ctx m sd (market sd (Timestamp 0)) u sp (sd_date sd) kISTOffsetSeconds (session_open_sec cfg)
       (rc_rate cfg) (rc_margin cfg)"

text \<open>Everything before the first step: the portfolio, the coroutine and its first resumption.\<close>

definition run_start ::
    "'s strategy \<Rightarrow> libm \<Rightarrow> run_config \<Rightarrow> session_data \<Rightarrow> underlying_id \<Rightarrow> instrument_id \<Rightarrow> exn + 's run_state" where
  "run_start S m cfg sd u sp =
     (let fills = (case rc_fills cfg of None \<Rightarrow> Some cross_spread | Some f \<Rightarrow> Some f);
          c = run_ctx m cfg sd u sp
      in case new_portfolio fills (execution_delay_nanos cfg) (rc_costs cfg) of
           Inl e \<Rightarrow> Inl e
         | Inr p0 \<Rightarrow>
             (case st_start S c of
                None \<Rightarrow> Inl (InvalidArgument ''run_session: strategy produced no task'')
              | Some s0 \<Rightarrow>
                  (case st_resume S c s0 p0 of
                     Inl e \<Rightarrow> Inl e
                   | Inr (s, p) \<Rightarrow> Inr \<lparr>rs_now = Timestamp 0, rs_portfolio = p, rs_task = s,
                       rs_next_margin = kNoTime, rs_peak = 0, rs_steps = 0, rs_evals = 0, rs_resumes = 0\<rparr>)))"

definition run_loop ::
    "'s strategy \<Rightarrow> libm \<Rightarrow> run_config \<Rightarrow> session_data \<Rightarrow> underlying_id \<Rightarrow> instrument_id \<Rightarrow> exn + 's run_state" where
  "run_loop S m cfg sd u sp =
     (case run_start S m cfg sd u sp of
        Inl e \<Rightarrow> Inl e
      | Inr st \<Rightarrow> try_fold (run_step S cfg sd (run_ctx m cfg sd u sp)) (fst (session_steps sd)) st)"

definition run_session ::
    "'s strategy \<Rightarrow> libm \<Rightarrow> run_config \<Rightarrow> session_data \<Rightarrow> underlying_id \<Rightarrow> instrument_id \<Rightarrow> exn + run_result" where
  "run_session S m cfg sd u sp =
     (case run_loop S m cfg sd u sp of
        Inl e \<Rightarrow> Inl e
      | Inr st \<Rightarrow>
          let p = rs_portfolio st; mv = market sd (rs_now st)
          in case margin (ctx_on (run_ctx m cfg sd u sp) sd (rs_now st)) p of
               Inl e \<Rightarrow> Inl e
             | Inr mr \<Rightarrow> Inr
                 \<lparr>rr_date = sd_date sd, rr_realized = realized p, rr_costs = total_costs p,
                  rr_net_realized = net_realized p, rr_unrealized = unrealized mv p,
                  rr_final_equity = equity mv p, rr_observations = snd (session_steps sd),
                  rr_steps = rs_steps st, condition_evals = rs_evals st, rr_resumes = rs_resumes st,
                  rr_trades = length (trades p), rr_illiquid_fills = illiquid_fills p,
                  rr_oversized_fills = oversized_fills p, rr_cancelled_orders = cancelled_orders p,
                  rr_peak_margin = (if amount (rs_peak st) < amount (mr_total mr) then mr_total mr else rs_peak st),
                  rr_final_margin = mr_total mr, rr_rules_fired = rules_fired p,
                  unfilled_orders = length (pending p),
                  rr_open_positions = length (filter is_open (positions p)),
                  strategy_finished = st_done S (rs_task st), trade_log = trades p\<rparr>)"

end
