(* ===== verification/EventLoopLaws.thy ===== *)
theory EventLoopLaws
  imports EventLoop
begin

text \<open>
  The laws of a run: what placing an order can do to the books, the interface of a strategy that
  trades through the context, the invariant of the loop, and the bound on resumptions.
\<close>

section \<open>What an order does to the books\<close>

text \<open>The instruments of the live legs.\<close>

definition held :: "portfolio \<Rightarrow> instrument_id set" where
  "held p = leg_instrument ` {l. live l \<and> (\<exists>pos \<in> set (positions p). l \<in> set (pos_legs pos))}"

lemma held_cong: "positions q = positions p \<Longrightarrow> held q = held p"
  by (simp add: held_def)

lemma held_frame [simp]:
  "held (p\<lparr>pending := a\<rparr>) = held p" "held (p\<lparr>rules := b\<rparr>) = held p" "held (p\<lparr>trades := c\<rparr>) = held p"
  "held (p\<lparr>cancelled_orders := d\<rparr>) = held p" "held (p\<lparr>rules_fired := d\<rparr>) = held p"
  "held (p\<lparr>closing_from_rule := e\<rparr>) = held p"
  by (simp_all add: held_def)

lemma heldI: "pos \<in> set (positions p) \<Longrightarrow> l \<in> set (pos_legs pos) \<Longrightarrow> live l \<Longrightarrow> leg_instrument l \<in> held p"
  by (auto simp: held_def)

lemma held_put: "held (put_leg i k l p) \<subseteq> (if live l then insert (leg_instrument l) (held p) else held p)"
proof
  fix x assume "x \<in> held (put_leg i k l p)"
  then obtain pos l' where l': "pos \<in> set (positions (put_leg i k l p))" "l' \<in> set (pos_legs pos)" "live l'"
    "x = leg_instrument l'" by (auto simp: held_def)
  show "x \<in> (if live l then insert (leg_instrument l) (held p) else held p)"
  proof (cases "nat i < length (positions p)")
    case True
    let ?pos = "positions p ! nat i"
    have "pos \<in> set (positions p) \<or> pos = ?pos\<lparr>pos_legs := (pos_legs ?pos)[k := l]\<rparr>"
      using l'(1) set_update_subset_insert [of "positions p" "nat i"] by (fastforce simp: put_leg_def)
    moreover have "l' \<in> set (pos_legs ?pos) \<or> l' = l" if "pos = ?pos\<lparr>pos_legs := (pos_legs ?pos)[k := l]\<rparr>"
      using l'(2) that set_update_subset_insert [of "pos_legs ?pos" k l] by auto
    ultimately show ?thesis using l' heldI nth_mem [OF True] by (metis insertI1 insertI2)
  next
    case False
    then have "positions (put_leg i k l p) = positions p" by (simp add: put_leg_def list_update_beyond)
    then show ?thesis using l' heldI by auto
  qed
qed

lemma held_quiet: "\<not> live l \<Longrightarrow> held (put_leg i k l p) \<subseteq> held p"
  using held_put [of i k l p] by simp

text \<open>Nothing is traded, no leg comes alive, and every order was in the book or was submitted now.\<close>

definition asks :: "timestamp \<Rightarrow> portfolio \<Rightarrow> portfolio \<Rightarrow> bool" where
  "asks now p q \<longleftrightarrow> trades q = trades p \<and> pf_delay q = pf_delay p \<and>
     length (positions p) \<le> length (positions q) \<and> held q \<subseteq> held p \<and>
     (\<forall>ord \<in> set (pending q). ord \<in> set (pending p) \<or> submitted_at ord = now)"

lemma asks_refl [simp]: "asks now p p"
  by (simp add: asks_def)

lemma asks_trans: "asks now p q \<Longrightarrow> asks now q r \<Longrightarrow> asks now p r"
  by (auto simp: asks_def)

lemma asks_cong:
  "asks now p q \<Longrightarrow> trades p' = trades p \<Longrightarrow> pf_delay p' = pf_delay p \<Longrightarrow> positions p' = positions p \<Longrightarrow>
   pending p' = pending p \<Longrightarrow> trades q' = trades q \<Longrightarrow> pf_delay q' = pf_delay q \<Longrightarrow> positions q' = positions q \<Longrightarrow>
   pending q' = pending q \<Longrightarrow> asks now p' q'"
  using held_cong [of p' p] held_cong [of q' q] by (simp add: asks_def)

lemma try_fold_asks:
  assumes "try_fold f xs p = Inr q" and "\<And>x r r'. f x r = Inr r' \<Longrightarrow> asks now r r'"
  shows "asks now p q"
  by (rule try_fold_invariant [OF assms(1), where P = "asks now p"]) (auto intro: asks_trans assms(2))

lemma asks_open:
  assumes "submit_open lbl insts sd n now p = Inr (i, q)"
  shows "asks now p q"
proof -
  have one: "asks now r (open_leg i sd n now x r)" if ne: "positions r \<noteq> []" for r x
  proof -
    obtain ps pos where r: "positions r = ps @ [pos]" using ne by (metis append_butlast_last_id)
    have "held (open_leg i sd n now x r) = held r"
      by (auto simp: held_def open_leg_def submit_def Let_def r live_def new_leg_def)
    then show ?thesis by (auto simp: asks_def open_leg_def submit_def Let_def r)
  qed
  have ne: "positions (open_leg i sd n now x r) \<noteq> []" for r x
    by (simp add: open_leg_def submit_def Let_def)
  have "asks now r (fold (open_leg i sd n now) xs r)" if "positions r \<noteq> []" for xs r
    using that
  proof (induction xs arbitrary: r)
    case (Cons x xs)
    show ?case using asks_trans [OF one [OF Cons.prems] Cons.IH [OF ne]] by simp
  qed simp
  moreover define p0 where "p0 = p\<lparr>positions := positions p @ [\<lparr>pos_id = i, pos_label = lbl, pos_legs = []\<rparr>]\<rparr>"
  ultimately have "asks now p0 (fold (open_leg i sd n now) insts p0)" by simp
  moreover have "q = fold (open_leg i sd n now) insts p0"
    using assms by (auto simp: submit_open_def Let_def p0_def split: if_splits)
  moreover have "held p0 = held p" by (auto simp: held_def p0_def)
  then have "asks now p p0" by (simp add: asks_def p0_def)
  ultimately show ?thesis by (auto intro: asks_trans)
qed

lemma asks_close_leg:
  assumes "submit_close_leg i k now p = Inr q"
  shows "asks now p q"
proof (cases "q = p")
  case False
  obtain pos l where pos: "pf_at p i = Inr pos" "leg_at pos k = Inr l" "leg_state l = Open"
    "q = submit \<lparr>o_position = i, o_leg_index = k, o_instrument = leg_instrument l,
                     o_side = closing_side l, o_qty = \<bar>leg_qty l\<bar>, submitted_at = now,
                     eligible_at = Timestamp (nanos now + pf_delay p), closing = True,
                     o_from_rule = False\<rparr> (put_leg i k (l\<lparr>leg_state := PendingClose\<rparr>) p)"
    using assms False by (auto simp: submit_close_leg_def split: sum.splits if_splits)
  have "pos \<in> set (positions p)" "l \<in> set (pos_legs pos)"
    using pos(1,2) by (auto simp: pf_at_def leg_at_def nth_opt_def split: if_splits option.splits)
  then have "leg_instrument l \<in> held p" using pos(3) by (intro heldI) (simp_all add: live_def)
  then have "held (put_leg i k (l\<lparr>leg_state := PendingClose\<rparr>) p) \<subseteq> held p"
    using held_put [of i k "l\<lparr>leg_state := PendingClose\<rparr>" p] by (auto simp: live_def)
  then show ?thesis by (auto simp: asks_def pos(4) submit_def)
qed simp

lemma asks_cancel:
  "trades (fst (cancel_opening i ord s)) = trades (fst s)"
  "set (snd (cancel_opening i ord s)) \<subseteq> insert ord (set (snd s))"
  "held (fst (cancel_opening i ord s)) \<subseteq> held (fst s)"
  using held_quiet [of "(the_leg (fst s) i (o_leg_index ord))\<lparr>leg_state := Cancelled\<rparr>" i "o_leg_index ord" "fst s"]
  by (cases s; auto simp: cancel_opening_def live_def)+

lemma asks_close:
  assumes "submit_close i now p = Inr q"
  shows "asks now p q"
proof -
  define s where "s = fold (cancel_opening i) (pending p) (p, [])"
  have "trades (fst (fold (cancel_opening i) ords t)) = trades (fst t) \<and>
      pf_delay (fst (fold (cancel_opening i) ords t)) = pf_delay (fst t) \<and>
      length (positions (fst (fold (cancel_opening i) ords t))) = length (positions (fst t)) \<and>
      held (fst (fold (cancel_opening i) ords t)) \<subseteq> held (fst t) \<and>
      set (snd (fold (cancel_opening i) ords t)) \<subseteq> set ords \<union> set (snd t)" for ords t
  proof (induction ords arbitrary: t)
    case (Cons ord ords)
    show ?case
      using Cons.IH [of "cancel_opening i ord t"] asks_cancel [of i ord t] cancel_opening_frame(1,4) [of i ord t]
      by (simp only: fold_simps comp_apply list.set) blast
  qed simp
  from this [of "pending p" "(p, [])"] have "asks now p ((fst s)\<lparr>pending := snd s\<rparr>)"
    by (auto simp: asks_def s_def)
  moreover from assms obtain q0 where "try_fold (\<lambda>k q. if leg_state (the_leg q i k) = Open then submit_close_leg i k now q else Inr q)
      [0..<q0] ((fst s)\<lparr>pending := snd s\<rparr>) = Inr q"
    by (auto simp: submit_close_def s_def case_prod_beta Let_def split: sum.splits)
  then have "asks now ((fst s)\<lparr>pending := snd s\<rparr>) q"
    by (rule try_fold_asks) (auto split: if_splits intro: asks_close_leg)
  ultimately show ?thesis by (rule asks_trans)
qed

lemma asks_attach:
  "attach_stop_loss i k pct p = Inr q \<Longrightarrow> asks now p q"
  "attach_take_profit i k pct p = Inr q \<Longrightarrow> asks now p q"
  "attach_exit_at i k whn p = Inr q \<Longrightarrow> asks now p q"
  by (auto simp: attach_stop_loss_def attach_take_profit_def attach_exit_at_def attach_rule_def asks_def
      split: sum.splits if_splits)

lemma asks_rules:
  assumes "process_risk_rules mv p = Inr q"
  shows "asks (mv_now mv) p q"
proof -
  have "asks (mv_now mv) r r'" if "run_rule mv n r = Inr r'" for n r r'
    using that
  proof (cases rule: run_rule_cases)
    case (fires pos p2)
    show ?thesis
      using fires(5,6) by (cases "rule_leg (rules r ! n)") (auto dest!: asks_close asks_close_leg elim!: asks_cong)
  qed (simp_all add: asks_def)
  with assms show ?thesis unfolding process_risk_rules_def by (rule try_fold_asks)
qed

text \<open>Filling: the orders left were there, and each new trade is an order of the book filled now.\<close>

lemma fills_pending:
  assumes "process_pending mv p = Inr q"
  obtains new where "trades q = trades p @ new" "set (pending q) \<subseteq> set (pending p)"
    "pf_delay q = pf_delay p" "length (positions q) = length (positions p)"
    "\<And>t. t \<in> set new \<Longrightarrow> \<not> t_settled t \<and> fill_ts t = mv_now mv \<and> (\<exists>ord \<in> set (pending p). signal_ts t = submitted_at ord)"
proof -
  define ok where "ok s \<longleftrightarrow> (\<exists>new. trades (fst s) = trades p @ new \<and> set (snd s) \<subseteq> set (pending p) \<and>
      pf_delay (fst s) = pf_delay p \<and> length (positions (fst s)) = length (positions p) \<and>
      (\<forall>t \<in> set new. \<not> t_settled t \<and> fill_ts t = mv_now mv \<and> (\<exists>ord \<in> set (pending p). signal_ts t = submitted_at ord)))"
    for s :: "portfolio \<times> pending_order list"
  have step: "ok s'" if m: "ord \<in> set (pending p)" and s: "ok s" and run: "fill_order mv ord s = Inr s'" for ord s s'
  proof -
    obtain new where n: "trades (fst s) = trades p @ new" "set (snd s) \<subseteq> set (pending p)"
      "pf_delay (fst s) = pf_delay p" "length (positions (fst s)) = length (positions p)"
      "\<forall>t \<in> set new. \<not> t_settled t \<and> fill_ts t = mv_now mv \<and> (\<exists>ord \<in> set (pending p). signal_ts t = submitted_at ord)"
      using s by (auto simp: ok_def)
    have "fill_order mv ord (fst s, snd s) = Inr (fst s', snd s')" using run by simp
    then show ?thesis
    proof (cases rule: fill_order_cases)
      case rest
      then show ?thesis using n m by (auto simp: ok_def)
    next
      case (fill x px t)
      then have t: "trades (fst s') = trades p @ (new @ [t])" "pf_delay (fst s') = pf_delay p"
        "length (positions (fst s')) = length (positions p)" "\<not> t_settled t" "fill_ts t = mv_now mv"
        "signal_ts t = submitted_at ord"
        using n by (simp_all add: fill_facts_def Let_def)
      show ?thesis unfolding ok_def
        by (rule exI [of _ "new @ [t]"]) (use t n m fill(1) in auto)
    qed
  qed
  show ?thesis
  proof (cases "pending p = []")
    case True
    then show ?thesis using assms that [of "[]"] by (simp add: process_pending_def)
  next
    case False
    then obtain s where s: "try_fold (fill_order mv) (pending p) (p, []) = Inr s" "q = (fst s)\<lparr>pending := snd s\<rparr>"
      using assms by (auto simp: process_pending_def split: sum.splits)
    have "ok s" by (rule try_fold_invariant [OF s(1)]) (auto simp: ok_def intro: step [unfolded ok_def])
    then show ?thesis using that by (auto simp: ok_def s(2))
  qed
qed

section \<open>Strategies that trade through the context\<close>

text \<open>One order or rule, placed at \<open>now\<close>: what the context and the position handles offer.\<close>

inductive order_step :: "timestamp \<Rightarrow> portfolio \<Rightarrow> portfolio \<Rightarrow> bool" for now where
  opens: "submit_open lbl insts sd n now p = Inr (i, q) \<Longrightarrow> order_step now p q"
| closes: "submit_close i now p = Inr q \<Longrightarrow> order_step now p q"
| closes_leg: "submit_close_leg i k now p = Inr q \<Longrightarrow> order_step now p q"
| stops: "attach_stop_loss i k pct p = Inr q \<Longrightarrow> order_step now p q"
| targets: "attach_take_profit i k pct p = Inr q \<Longrightarrow> order_step now p q"
| times: "attach_exit_at i k whn p = Inr q \<Longrightarrow> order_step now p q"

abbreviation order_steps :: "timestamp \<Rightarrow> portfolio \<Rightarrow> portfolio \<Rightarrow> bool" where
  "order_steps now \<equiv> rtranclp (order_step now)"

lemma order_step_asks: "order_step now p q \<Longrightarrow> asks now p q"
  by (induction rule: order_step.induct) (blast intro: asks_open asks_close asks_close_leg asks_attach)+

lemma order_steps_asks: "order_steps now p q \<Longrightarrow> asks now p q"
  by (induction rule: rtranclp_induct) (auto intro: asks_trans order_step_asks)

lemma submit_open_grows:
  assumes "submit_open lbl insts sd n now p = Inr (i, q)"
  shows "length (positions p) < length (positions q)"
proof -
  have "length (positions (fold (open_leg i sd n now) xs r)) = length (positions r)" if "positions r \<noteq> []" for xs r
    using that
  proof (induction xs arbitrary: r)
    case (Cons x xs)
    have "positions (open_leg i sd n now x r) \<noteq> []" "length (positions (open_leg i sd n now x r)) = length (positions r)"
      using Cons.prems by (simp_all add: open_leg_def submit_def Let_def)
    then show ?case using Cons.IH by simp
  qed simp
  then show ?thesis using assms by (auto simp: submit_open_def Let_def split: if_splits)
qed

text \<open>A 32-bit position id names its position as long as there are at most \<open>2 ^ 31\<close> of them.\<close>

abbreviation ids_fit :: "portfolio \<Rightarrow> bool" where
  "ids_fit p \<equiv> length (positions p) \<le> 2 ^ 31"

lemma order_step_reach:
  assumes "order_step now p q" and "pf_reach p" and "ids_fit q"
  shows "pf_reach q"
proof (rule pf_reach.step [OF assms(2)])
  show "pf_step p q"
    using assms(1,3)
  proof (induction rule: order_step.induct)
    case (opens lbl insts sd n p i q)
    then have "length (positions p) < 2 ^ 31" using submit_open_grows [OF opens(1)] by linarith
    then show ?case using opens(1) by (rule pf_step.opened)
  qed (blast intro: pf_step.intros)+
qed

lemma order_steps_reach: "order_steps now p q \<Longrightarrow> pf_reach p \<Longrightarrow> ids_fit q \<Longrightarrow> pf_reach q"
proof (induction rule: rtranclp_induct)
  case (step q r)
  have "length (positions q) \<le> length (positions r)" using order_step_asks [OF step(2)] by (simp add: asks_def)
  then show ?case using step by (auto intro: order_step_reach)
qed simp

section \<open>The inner loop\<close>

lemma resume_loop_cases:
  assumes "resume_loop S mx c t g (s, p, e, r) = Inr y"
  obtains (stops) "y = (s, p, e, r)"
  | (waits) "y = (s, p, Suc e, r)"
  | (wakes) s' p' where "st_resume S c s p = Inr (s', p')" "g + 1 \<le> mx"
      "resume_loop S mx c t (g + 1) (s', p', Suc e, Suc r) = Inr y"
proof (cases "st_done S s \<or> \<not> cond_valid (st_pending S c s)")
  case True
  then show ?thesis using assms stops by (subst (asm) resume_loop.simps) simp
next
  case False
  note run = assms [unfolded resume_loop.simps [of S mx c t g] Eq_FalseI [OF False] if_False]
  show ?thesis
  proof (cases "cond_eval (st_pending S c s) \<lparr>ev_market = cx_market c, ev_portfolio = p, ev_now = t\<rparr>")
    case (Inr b)
    show ?thesis
    proof (cases b)
      case True
      then obtain s' p' where res: "st_resume S c s p = Inr (s', p')"
        using run Inr by (cases "st_resume S c s p") auto
      have "\<not> mx < g + 1" and "resume_loop S mx c t (g + 1) (s', p', Suc e, Suc r) = Inr y"
        using run by (simp_all add: Inr True res split: if_splits)
      then show ?thesis using wakes [OF res] by simp
    qed (use run Inr waits in simp)
  qed (use run in simp)
qed

lemma resume_loop_induct [consumes 1, case_names stop wait wake]:
  assumes run: "resume_loop S mx c t g x = Inr y"
    and stop: "\<And>g s p e r. P g (s, p, e, r) (s, p, e, r)"
    and wait: "\<And>g s p e r. P g (s, p, e, r) (s, p, Suc e, r)"
    and wake: "\<And>g s p e r s' p' y. st_resume S c s p = Inr (s', p') \<Longrightarrow> g + 1 \<le> mx \<Longrightarrow>
      P (g + 1) (s', p', Suc e, Suc r) y \<Longrightarrow> P g (s, p, e, r) y"
  shows "P g x y"
  using run
proof (induction "nat (mx - g)" arbitrary: g x rule: less_induct)
  case less
  obtain s p e r where x: "x = (s, p, e, r)" by (cases x) auto
  from less.prems [unfolded x] show ?case
  proof (cases rule: resume_loop_cases)
    case (wakes s' p')
    have "nat (mx - (g + 1)) < nat (mx - g)" using wakes(2) by simp
    from wake [OF wakes(1,2) less.hyps [OF this wakes(3)]] show ?thesis by (simp add: x)
  qed (simp_all add: x stop wait)
qed

lemma resume_loop_counts:
  assumes "resume_loop S mx c t g (s, p, e, r) = Inr (s', p', e', r')"
  shows "r \<le> r'" and "r' - r \<le> nat (mx - g)" and "e \<le> e'" and "e' - e \<le> Suc (r' - r)"
proof -
  define r_of where r: "r_of x = snd (snd (snd x))" for x :: "'a \<times> portfolio \<times> nat \<times> nat"
  define e_of where e: "e_of x = fst (snd (snd x))" for x :: "'a \<times> portfolio \<times> nat \<times> nat"
  have "r_of x \<le> r_of y \<and> r_of y - r_of x \<le> nat (mx - g) \<and> e_of x \<le> e_of y \<and> e_of y - e_of x \<le> Suc (r_of y - r_of x)"
    if "resume_loop S mx c t g x = Inr y" for x y
    using that by (induction rule: resume_loop_induct) (auto simp: r e)
  from this [OF assms] show "r \<le> r'" "r' - r \<le> nat (mx - g)" "e \<le> e'" "e' - e \<le> Suc (r' - r)"
    by (simp_all add: r e)
qed

section \<open>One step\<close>

lemma run_step_cases:
  assumes "run_step S cfg sd c ts st = Inr st'"
  obtains p1 p2 nm pk s p3 e r where "rs_now st \<le> ts" "process_pending (market sd ts) (rs_portfolio st) = Inr p1"
    "process_risk_rules (market sd ts) p1 = Inr p2"
    "sample_margin cfg (ctx_on c sd ts) p2 ts (rs_next_margin st, rs_peak st) = Inr (nm, pk)"
    "resume_loop S (max_resumes_per_step cfg) (ctx_on c sd ts) ts 0 (rs_task st, p2, rs_evals st, rs_resumes st) = Inr (s, p3, e, r)"
    "st' = \<lparr>rs_now = ts, rs_portfolio = p3, rs_task = s, rs_next_margin = nm, rs_peak = pk,
            rs_steps = rs_steps st + 1, rs_evals = e, rs_resumes = r\<rparr>"
proof -
  have now: "rs_now st \<le> ts" "advance_to (rs_now st) ts = Inr ts"
    using assms by (auto simp: run_step_def advance_to_def split: if_splits)
  note run = assms [unfolded run_step_def now(2) sum.case]
  obtain p1 where 1: "process_pending (market sd ts) (rs_portfolio st) = Inr p1"
    using run by (cases "process_pending (market sd ts) (rs_portfolio st)") simp_all
  note run = run [unfolded 1 sum.case]
  obtain p2 where 2: "process_risk_rules (market sd ts) p1 = Inr p2"
    using run by (cases "process_risk_rules (market sd ts) p1") simp_all
  note run = run [unfolded 2 sum.case]
  obtain nm pk where 3: "sample_margin cfg (ctx_on c sd ts) p2 ts (rs_next_margin st, rs_peak st) = Inr (nm, pk)"
    using run by (cases "sample_margin cfg (ctx_on c sd ts) p2 ts (rs_next_margin st, rs_peak st)") auto
  note run = run [unfolded 3 sum.case prod.case]
  obtain s p3 e r where 4: "resume_loop S (max_resumes_per_step cfg) (ctx_on c sd ts) ts 0
      (rs_task st, p2, rs_evals st, rs_resumes st) = Inr (s, p3, e, r)"
    using run by (cases "resume_loop S (max_resumes_per_step cfg) (ctx_on c sd ts) ts 0
      (rs_task st, p2, rs_evals st, rs_resumes st)") auto
  show ?thesis using that [OF now(1) 1 2 3 4] run by (simp add: 4)
qed

section \<open>The steps of a session\<close>

definition after_epoch :: "session_data \<Rightarrow> bool" where
  "after_epoch sd \<longleftrightarrow> (\<forall>ev \<in> set (all_events sd). Timestamp 0 < e_ts ev)"

lemma fold_observe:
  "snd (fold observe es (seen, d, n)) = (d @ tl (remdups_adj (seen # map e_ts es)), n + length es)"
proof (induction es arbitrary: seen d n)
  case (Cons ev es)
  have "e_ts ev # tl (remdups_adj (e_ts ev # map e_ts es)) = remdups_adj (e_ts ev # map e_ts es)"
    by (rule remdups_adj_Cons_alt)
  then show ?case using Cons.IH by (auto simp: observe_def)
qed simp

lemma session_steps_distinct:
  assumes "session_ok sd" and "after_epoch sd"
  shows "session_steps sd = (distinct_times sd, length (all_events sd))"
proof (cases "sd_timeline sd = []")
  case True
  have es: "drain (event_cursor sd) = sort (all_events sd)" by (rule drain_sorted_events [OF assms(1)])
  have "e_ts ev \<noteq> kNoTime" if "ev \<in> set (all_events sd)" for ev
  proof -
    have "Timestamp 0 < e_ts ev" using assms(2) that by (simp add: after_epoch_def)
    then show ?thesis by (cases "e_ts ev") (auto simp: less_timestamp_def kNoTime_def)
  qed
  then have "kNoTime \<notin> e_ts ` set (all_events sd)" by (metis imageE)
  then have "kNoTime \<notin> set (map e_ts (sort (all_events sd)))" by simp
  then have "tl (remdups_adj (kNoTime # map e_ts (sort (all_events sd)))) = remdups_adj (map e_ts (sort (all_events sd)))"
    by (cases "map e_ts (sort (all_events sd))") auto
  then show ?thesis using True by (simp add: session_steps_def es fold_observe distinct_times_def)
next
  case False
  then show ?thesis using session_okD(6,8) [OF assms(1)] by (auto simp: session_steps_def)
qed

lemma steps_after_epoch:
  assumes "session_ok sd" and "after_epoch sd"
  shows "sorted_wrt (<) (Timestamp 0 # distinct_times sd)"
  using distinct_times_laws(1) [OF assms(1)] assms(2)
  by (auto simp: distinct_times_def after_epoch_def)

section \<open>The invariant of a run\<close>

text \<open>Orders were submitted by now, and every trade so far filled after its signal, in order.\<close>

definition on_time :: "timestamp \<Rightarrow> portfolio \<Rightarrow> bool" where
  "on_time now p \<longleftrightarrow> (\<forall>ord \<in> set (pending p). submitted_at ord \<le> now) \<and>
     (\<forall>t \<in> set (trades p). \<not> t_settled t \<and> signal_ts t < fill_ts t \<and> fill_ts t \<le> now) \<and>
     sorted (map fill_ts (trades p))"

lemma asks_on_time: "asks now p q \<Longrightarrow> on_time now p \<Longrightarrow> on_time now q"
  by (auto simp: asks_def on_time_def)

lemma fills_on_time:
  assumes run: "process_pending mv p = Inr q" and ok: "on_time now p" and later: "now < mv_now mv"
  shows "on_time (mv_now mv) q"
  using run
proof (cases rule: fills_pending)
  case (1 new)
  have new: "\<not> t_settled t" "signal_ts t < fill_ts t" "fill_ts t = mv_now mv" if "t \<in> set new" for t
    using 1(5) [OF that] ok later by (auto simp: on_time_def)
  have old: "fill_ts t \<le> mv_now mv" if "t \<in> set (trades p)" for t
    using ok later that by (fastforce simp: on_time_def)
  have "map fill_ts new = replicate (length new) (mv_now mv)"
    by (rule replicate_eqI) (use new(3) in auto)
  then have "sorted (map fill_ts (trades q))"
    using ok old by (auto simp: 1(1) on_time_def sorted_append)
  moreover have "submitted_at ord \<le> mv_now mv" if "ord \<in> set (pending q)" for ord
    using 1(2) that ok later by (fastforce simp: on_time_def)
  ultimately show ?thesis using new old ok by (auto simp: on_time_def 1(1))
qed

text \<open>All steps: time, the books, the counters.\<close>

definition run_inv :: "run_config \<Rightarrow> 's run_state \<Rightarrow> bool" where
  "run_inv cfg st \<longleftrightarrow> on_time (rs_now st) (rs_portfolio st) \<and>
     pf_delay (rs_portfolio st) = execution_delay_nanos cfg \<and>
     rs_resumes st \<le> rs_steps st * nat (max_resumes_per_step cfg) \<and> rs_evals st \<le> rs_steps st + rs_resumes st"

locale order_strategy =
  fixes S :: "'s strategy"
  assumes orders_only: "st_resume S c s p = Inr (s', p') \<Longrightarrow> order_steps (cx_now c) p p'"
begin

lemma resume_loop_orders:
  assumes "resume_loop S mx c t g (s, p, e, r) = Inr (s', p', e', r')"
  shows "order_steps (cx_now c) p p'"
proof -
  have "order_steps (cx_now c) (fst (snd x)) (fst (snd y))" if "resume_loop S mx c t g x = Inr y" for x y
    using that
  proof (induction rule: resume_loop_induct)
    case (wake g s p e r s' p' y)
    then show ?case using orders_only [OF wake(1)] by simp
  qed simp_all
  from this [OF assms] show ?thesis by simp
qed

text \<open>What a step does to the books.\<close>

lemma run_step_books:
  assumes "run_step S cfg sd c ts st = Inr st'"
  obtains p1 where "process_pending (market sd ts) (rs_portfolio st) = Inr p1"
    "asks ts p1 (rs_portfolio st')" "rs_now st' = ts" "rs_steps st' = Suc (rs_steps st)"
    "rs_resumes st' \<le> rs_resumes st + nat (max_resumes_per_step cfg)"
    "rs_evals st' + rs_resumes st \<le> Suc (rs_evals st + rs_resumes st')"
    "pf_reach p1 \<Longrightarrow> ids_fit (rs_portfolio st') \<Longrightarrow> pf_reach (rs_portfolio st')"
  using assms
proof (cases rule: run_step_cases)
  case (1 p1 p2 nm pk s p3 e r)
  have steps: "order_steps ts p2 p3" using resume_loop_orders [OF 1(5)] by (simp add: ctx_on_def cx_now_def)
  have "asks ts p1 p2" using asks_rules [OF 1(3)] by simp
  then have asks: "asks ts p1 p3" using order_steps_asks [OF steps] by (rule asks_trans)
  have reach: "pf_reach p3" if "pf_reach p1" "ids_fit p3"
    by (rule order_steps_reach [OF steps pf_reach.step [OF that(1) pf_step.ruled [OF 1(3)]] that(2)])
  have "rs_evals st \<le> e" "e - rs_evals st \<le> Suc (r - rs_resumes st)" "rs_resumes st \<le> r"
    "r - rs_resumes st \<le> nat (max_resumes_per_step cfg)"
    using resume_loop_counts [OF 1(5)] by simp_all
  then have counts: "e + rs_resumes st \<le> Suc (rs_evals st + r)" "r \<le> rs_resumes st + nat (max_resumes_per_step cfg)"
    by linarith+
  show ?thesis
    by (rule that [OF 1(2)]) (use asks reach counts in \<open>simp_all add: 1(6)\<close>)
qed

lemma run_step_inv:
  assumes run: "run_step S cfg sd c ts st = Inr st'" and "run_inv cfg st" and "rs_now st < ts"
  shows "run_inv cfg st'"
  using run
proof (cases rule: run_step_books)
  case (1 p1)
  have "on_time (rs_now st) (rs_portfolio st)" using assms(2) by (simp add: run_inv_def)
  then have "on_time ts p1" using fills_on_time [OF 1(1), of "rs_now st"] assms(3) by simp
  then have "on_time ts (rs_portfolio st')" by (rule asks_on_time [OF 1(2)])
  moreover have "pf_delay (rs_portfolio st') = pf_delay (rs_portfolio st)"
    using fills_pending [OF 1(1)] 1(2) unfolding asks_def by metis
  moreover have "rs_resumes st' \<le> rs_steps st' * nat (max_resumes_per_step cfg)"
    using 1(4,5) assms(2) by (simp add: run_inv_def)
  moreover have "rs_evals st' \<le> rs_steps st' + rs_resumes st'" using 1(4,6) assms(2) by (simp add: run_inv_def)
  ultimately show ?thesis using 1(3) assms(2) by (simp add: run_inv_def)
qed

text \<open>A step adds to the trade log only what it fills, at its own time, and never drops a position.\<close>

lemma run_step_log:
  assumes "run_step S cfg sd c ts st = Inr st'"
  obtains new where "trades (rs_portfolio st') = trades (rs_portfolio st) @ new" "\<forall>t \<in> set new. fill_ts t = ts"
    "length (positions (rs_portfolio st)) \<le> length (positions (rs_portfolio st'))"
  using assms
proof (cases rule: run_step_books)
  case (1 p1)
  from 1(1) show ?thesis
  proof (cases rule: fills_pending)
    case 2: (1 new)
    show ?thesis by (rule that [of new]) (use 1(2) 2 in \<open>auto simp: asks_def\<close>)
  qed
qed

lemma run_steps_log:
  assumes "try_fold (run_step S cfg sd c) ts st = Inr st'"
  shows "\<exists>new. trades (rs_portfolio st') = trades (rs_portfolio st) @ new \<and> (\<forall>t \<in> set new. fill_ts t \<in> set ts)"
    and "length (positions (rs_portfolio st)) \<le> length (positions (rs_portfolio st'))"
    and "rs_steps st' = rs_steps st + length ts" and "rs_now st' = (if ts = [] then rs_now st else last ts)"
proof (atomize(full), use assms in \<open>induction ts arbitrary: st\<close>)
  case (Cons t ts)
  then obtain st1 where st1: "run_step S cfg sd c t st = Inr st1" "try_fold (run_step S cfg sd c) ts st1 = Inr st'"
    by (auto split: sum.splits)
  obtain new where new: "trades (rs_portfolio st1) = trades (rs_portfolio st) @ new" "\<forall>x \<in> set new. fill_ts x = t"
    "length (positions (rs_portfolio st)) \<le> length (positions (rs_portfolio st1))"
    using st1(1) by (rule run_step_log)
  have now: "rs_now st1 = t" "rs_steps st1 = Suc (rs_steps st)" using st1(1) by (rule run_step_books, simp)+
  note ih = Cons.IH [OF st1(2)]
  obtain rest where "trades (rs_portfolio st') = trades (rs_portfolio st1) @ rest" "\<forall>x \<in> set rest. fill_ts x \<in> set ts"
    using ih by blast
  then have "trades (rs_portfolio st') = trades (rs_portfolio st) @ (new @ rest) \<and> (\<forall>x \<in> set (new @ rest). fill_ts x \<in> set (t # ts))"
    using new by auto
  then show ?case using ih new(3) now by auto
qed auto

lemma run_steps_inv:
  assumes "try_fold (run_step S cfg sd c) ts st = Inr st'" and "sorted_wrt (<) (rs_now st # ts)" and "run_inv cfg st"
  shows "run_inv cfg st'"
  using assms
proof (induction ts arbitrary: st)
  case (Cons t ts)
  then obtain st1 where st1: "run_step S cfg sd c t st = Inr st1" "try_fold (run_step S cfg sd c) ts st1 = Inr st'"
    by (auto split: sum.splits)
  have "rs_now st1 = t" using st1(1) by (rule run_step_books)
  then show ?case using Cons.IH [OF st1(2)] run_step_inv [OF st1(1)] Cons.prems(2,3) by simp
qed simp

lemma run_steps_reach:
  assumes "try_fold (run_step S cfg sd c) ts st = Inr st'" and "pf_reach (rs_portfolio st)" and "ids_fit (rs_portfolio st')"
  shows "pf_reach (rs_portfolio st')"
  using assms
proof (induction ts arbitrary: st)
  case (Cons t ts)
  then obtain st1 where st1: "run_step S cfg sd c t st = Inr st1" "try_fold (run_step S cfg sd c) ts st1 = Inr st'"
    by (auto split: sum.splits)
  have fit: "ids_fit (rs_portfolio st1)" using run_steps_log(2) [OF st1(2)] Cons.prems(3) by linarith
  from st1(1) have "pf_reach (rs_portfolio st1)"
  proof (cases rule: run_step_books)
    case (1 p1)
    show ?thesis by (rule 1(7) [OF pf_reach.step [OF Cons.prems(2) pf_step.filled [OF 1(1)]] fit])
  qed
  then show ?case using Cons.IH [OF st1(2)] Cons.prems(3) by blast
qed simp

end

end
