(* ===== verification/Runs.thy ===== *)
theory Runs
  imports EventLoopLaws
begin

text \<open>
  The short straddle of \<open>examples/short_straddle.cpp\<close> as a strategy of the model, and what holds of
  every run of \<open>run_session\<close>.  A coroutine is the list of its suspension points: the frame holds
  the point it waits at, its live locals and the condition it awaits.
\<close>

section \<open>The short straddle\<close>

datatype straddle_point = Entering | AwaitingOpen | Holding | AwaitingFill | Returned

record straddle_frame =
  sf_point :: straddle_point
  sf_pos :: int
  sf_cond :: cond

text \<open>\<open>co_return\<close>, and \<open>co_await\<close> of a condition at a point.\<close>

definition finish :: "straddle_frame \<Rightarrow> straddle_frame" where
  "finish f = f\<lparr>sf_point := Returned, sf_cond := None\<rparr>"

definition await :: "straddle_point \<Rightarrow> cond \<Rightarrow> straddle_frame \<Rightarrow> straddle_frame" where
  "await pt w f = f\<lparr>sf_point := pt, sf_cond := w\<rparr>"

definition straddle_enter :: "dbl \<Rightarrow> dbl \<Rightarrow> ctx \<Rightarrow> straddle_frame \<Rightarrow> portfolio \<Rightarrow> exn + straddle_frame \<times> portfolio" where
  "straddle_enter stop target c f p =
     (case chain c of Inl e \<Rightarrow> Inl e
      | Inr v \<Rightarrow>
          let legs = straddle c v 0 in
          if legs = [] then Inr (finish f, p)
          else (case sell c legs 1 ''atm straddle'' p of Inl e \<Rightarrow> Inl e
            | Inr (None, p') \<Rightarrow> Inr (finish f, p')
            | Inr (Some i, p') \<Rightarrow>
                (case ctx_at c ''15:15'' of Inl e \<Rightarrow> Inl e
                 | Inr w \<Rightarrow> Inr (await Holding
                     (cond_or (cond_or (pnl_pct_at_most i (fneg stop)) (pnl_pct_at_least i target)) w) (f\<lparr>sf_pos := i\<rparr>), p'))))"

definition straddle_exit :: "ctx \<Rightarrow> straddle_frame \<Rightarrow> portfolio \<Rightarrow> exn + straddle_frame \<times> portfolio" where
  "straddle_exit c f p =
     (case ctx_close c (sf_pos f) p of Inl e \<Rightarrow> Inl e
      | Inr p' \<Rightarrow>
          (case ctx_at c ''15:29'' of Inl e \<Rightarrow> Inl e
           | Inr w \<Rightarrow> Inr (await AwaitingFill (cond_or (position_closed (sf_pos f)) w) f, p')))"

definition straddle_resume :: "dbl \<Rightarrow> dbl \<Rightarrow> ctx \<Rightarrow> straddle_frame \<Rightarrow> portfolio \<Rightarrow> exn + straddle_frame \<times> portfolio" where
  "straddle_resume stop target c f p =
     (case sf_point f of
        Entering \<Rightarrow> (case ctx_at c ''09:20'' of Inl e \<Rightarrow> Inl e | Inr w \<Rightarrow> Inr (await AwaitingOpen w f, p))
      | AwaitingOpen \<Rightarrow> straddle_enter stop target c f p
      | Holding \<Rightarrow> straddle_exit c f p
      | _ \<Rightarrow> Inr (finish f, p))"

definition short_straddle :: "dbl \<Rightarrow> dbl \<Rightarrow> straddle_frame strategy" where
  "short_straddle stop target =
     \<lparr>st_start = (\<lambda>c. Some \<lparr>sf_point = Entering, sf_pos = 0, sf_cond = None\<rparr>),
      st_resume = straddle_resume stop target,
      st_done = (\<lambda>f. sf_point f = Returned),
      st_pending = (\<lambda>c f. sf_cond f)\<rparr>"

section \<open>It trades through the context\<close>

lemma sell_orders: "sell c legs lots lbl p = Inr (r, p') \<Longrightarrow> order_steps (cx_now c) p p'"
  by (auto simp: sell_def place_def cx_now_def split: sum.splits if_splits intro!: r_into_rtranclp order_step.opens)

lemma close_orders: "ctx_close c i p = Inr p' \<Longrightarrow> order_steps (cx_now c) p p'"
  by (auto simp: ctx_close_def cx_now_def intro!: r_into_rtranclp order_step.closes)

lemma straddle_enter_orders: "straddle_enter stop target c f p = Inr (f', p') \<Longrightarrow> order_steps (cx_now c) p p'"
  by (auto simp: straddle_enter_def Let_def split: sum.splits option.splits if_splits intro: sell_orders)

lemma straddle_exit_orders: "straddle_exit c f p = Inr (f', p') \<Longrightarrow> order_steps (cx_now c) p p'"
  by (auto simp: straddle_exit_def split: sum.splits intro: close_orders)

interpretation straddling: order_strategy "short_straddle stop target"
  by unfold_locales
    (auto simp: short_straddle_def straddle_resume_def split: straddle_point.splits sum.splits
      intro: straddle_enter_orders straddle_exit_orders)

section \<open>Whole runs\<close>

context order_strategy
begin

lemma run_start_inv:
  assumes "run_start S m cfg sd u sp = Inr st"
  shows "run_inv cfg st" and "rs_now st = Timestamp 0" and "rs_steps st = 0" and "trades (rs_portfolio st) = []"
    and "ids_fit (rs_portfolio st) \<Longrightarrow> pf_reach (rs_portfolio st)"
proof -
  obtain fills p0 s0 s p where new: "new_portfolio fills (execution_delay_nanos cfg) (rc_costs cfg) = Inr p0"
    and res: "st_resume S (run_ctx m cfg sd u sp) s0 p0 = Inr (s, p)"
    and st: "st = \<lparr>rs_now = Timestamp 0, rs_portfolio = p, rs_task = s, rs_next_margin = kNoTime, rs_peak = 0,
      rs_steps = 0, rs_evals = 0, rs_resumes = 0\<rparr>"
    using assms by (auto simp: run_start_def Let_def split: sum.splits option.splits)
  have steps: "order_steps (Timestamp 0) p0 p"
    using orders_only [OF res] by (simp add: run_ctx_def new_ctx_def cx_now_def)
  have p0: "trades p0 = []" "pending p0 = []" "pf_delay p0 = execution_delay_nanos cfg"
    using new by (auto simp: new_portfolio_def split: option.splits if_splits)
  from order_steps_asks [OF steps] have "on_time (Timestamp 0) p" by (rule asks_on_time) (simp add: on_time_def p0)
  then show "run_inv cfg st" "rs_now st = Timestamp 0" "rs_steps st = 0" "trades (rs_portfolio st) = []"
    using order_steps_asks [OF steps] p0 by (simp_all add: run_inv_def st asks_def)
  show "pf_reach (rs_portfolio st)" if "ids_fit (rs_portfolio st)"
    using order_steps_reach [OF steps pf_reach.start [OF new]] that by (simp add: st)
qed

lemma run_loop_laws:
  assumes "session_ok sd" and "after_epoch sd" and run: "run_loop S m cfg sd u sp = Inr st"
  shows "run_inv cfg st" and "rs_steps st = length (distinct_times sd)"
    and "\<forall>t \<in> set (trades (rs_portfolio st)). fill_ts t \<in> set (distinct_times sd)"
    and "ids_fit (rs_portfolio st) \<Longrightarrow> pf_reach (rs_portfolio st)"
proof -
  note steps = session_steps_distinct [OF assms(1,2)]
  obtain st0 where st0: "run_start S m cfg sd u sp = Inr st0"
    and loop: "try_fold (run_step S cfg sd (run_ctx m cfg sd u sp)) (distinct_times sd) st0 = Inr st"
    using run by (auto simp: run_loop_def steps split: sum.splits)
  note start = run_start_inv [OF st0] and log = run_steps_log [OF loop]
  have ts: "sorted_wrt (<) (rs_now st0 # distinct_times sd)"
    unfolding start(2) by (rule steps_after_epoch [OF assms(1,2)])
  show "run_inv cfg st" by (rule run_steps_inv [OF loop ts start(1)])
  show "rs_steps st = length (distinct_times sd)" using log(3) start(3) by simp
  show "\<forall>t \<in> set (trades (rs_portfolio st)). fill_ts t \<in> set (distinct_times sd)" using log(1) start(4) by auto
  show "pf_reach (rs_portfolio st)" if "ids_fit (rs_portfolio st)"
    using run_steps_reach [OF loop start(5) that] log(2) that by linarith
qed

end

lemma run_session_result:
  assumes "run_session S m cfg sd u sp = Inr r"
  obtains st mr where "run_loop S m cfg sd u sp = Inr st"
    "margin (ctx_on (run_ctx m cfg sd u sp) sd (rs_now st)) (rs_portfolio st) = Inr mr"
    "trade_log r = trades (rs_portfolio st)" "rr_costs r = total_costs (rs_portfolio st)"
    "rr_net_realized r = net_realized (rs_portfolio st)" "rr_unrealized r = unrealized (market sd (rs_now st)) (rs_portfolio st)"
    "rr_final_equity r = equity (market sd (rs_now st)) (rs_portfolio st)" "rr_observations r = snd (session_steps sd)"
    "rr_steps r = rs_steps st" "condition_evals r = rs_evals st" "rr_resumes r = rs_resumes st"
proof -
  obtain st where st: "run_loop S m cfg sd u sp = Inr st"
    using assms by (cases "run_loop S m cfg sd u sp") (simp_all add: run_session_def)
  note run = assms [unfolded run_session_def st sum.case Let_def]
  obtain mr where mr: "margin (ctx_on (run_ctx m cfg sd u sp) sd (rs_now st)) (rs_portfolio st) = Inr mr"
    using run by (cases "margin (ctx_on (run_ctx m cfg sd u sp) sd (rs_now st)) (rs_portfolio st)") simp_all
  show ?thesis by (rule that [OF st mr]) (use run in \<open>auto simp: mr\<close>)
qed

section \<open>A concrete run\<close>

text \<open>
  A strategy that buys one future as soon as it is started, on a session with three steps and a
  delay of 15 nanoseconds: the order waits out the step at 10 and fills at 20.
\<close>

definition future_spec :: instrument_spec where
  "future_spec = \<lparr>spec_id = InstrumentId 0, underlying = UnderlyingId 0, kind = Future, expiry = Date 20250731,
     strike = Price 0, right_of = Call, lot_size = 75, tick_size = Price 5\<rparr>"

definition future_session :: session_data where
  "future_session = (one_instrument sample_columns)\<lparr>sd_registry := empty_registry\<lparr>specs := [future_spec]\<rparr>,
     sd_timeline := [Timestamp 10, Timestamp 20, Timestamp 30]\<rparr>"

definition buy_at_once :: "bool strategy" where
  "buy_at_once =
     \<lparr>st_start = (\<lambda>c. Some False),
      st_resume = (\<lambda>c _ p. case submit_open ''long'' [InstrumentId 0] Buy 75 (cx_now c) p of
         Inl e \<Rightarrow> Inl e | Inr (i, q) \<Rightarrow> Inr (True, q)),
      st_done = (\<lambda>d. d), st_pending = (\<lambda>c d. None)\<rparr>"

lemma buys_orders: "order_strategy buy_at_once"
  by unfold_locales (auto simp: buy_at_once_def split: sum.splits intro!: r_into_rtranclp order_step.opens)

interpretation buying: order_strategy buy_at_once
  by (rule buys_orders)

definition free_config :: run_config where
  "free_config = default_run_config\<lparr>execution_delay_nanos := 15, rc_costs := Some no_costs\<rparr>"


definition bought :: portfolio where
  "bought = \<lparr>pf_fills = cross_spread, pf_delay = 15,
     positions = [\<lparr>pos_id = 0, pos_label = ''long'', pos_legs = [new_leg (InstrumentId 0) 75]\<rparr>],
     pending = [\<lparr>o_position = 0, o_leg_index = 0, o_instrument = InstrumentId 0, o_side = Buy, o_qty = 75,
       submitted_at = Timestamp 0, eligible_at = Timestamp 15, closing = False, o_from_rule = False\<rparr>],
     rules = [], trades = [], realized = 0, pf_costs = no_costs, total_costs = 0, illiquid_fills = 0,
     oversized_fills = 0, cancelled_orders = 0, settled_legs = 0, rules_fired = 0, closing_from_rule = False\<rparr>"

lemma future_quotes:
  "latest (market future_session (Timestamp 20)) (InstrumentId 0) = Some (column_at sample_columns 2)"
  "latest (market future_session (Timestamp 30)) (InstrumentId 0) = Some (column_at sample_columns 3)"
  by code_simp+

lemma future_spec_of [simp]: "spec (sd_registry future_session) (InstrumentId 0) = Inr future_spec"
  by (simp add: future_session_def spec_def)

lemma future_start: "run_start buy_at_once flat_libm free_config future_session u sp =
    Inr \<lparr>rs_now = Timestamp 0, rs_portfolio = bought, rs_task = True, rs_next_margin = kNoTime, rs_peak = 0,
      rs_steps = 0, rs_evals = 0, rs_resumes = 0\<rparr>"
  by (simp add: run_start_def buy_at_once_def free_config_def default_run_config_def new_portfolio_def
      submit_open_def open_leg_def submit_def Let_def to_i32_def bought_def run_ctx_def new_ctx_def cx_now_def)

lemma future_wait: "process_pending (market future_session (Timestamp 10)) bought = Inr bought"
  by (simp add: process_pending_def fill_order_def bought_def)

lemma future_fill: "\<exists>q. process_pending (market future_session (Timestamp 20)) bought = Inr q \<and>
    map (\<lambda>t. (signal_ts t, fill_ts t)) (trades q) = [(Timestamp 0, Timestamp 20)] \<and> pending q = [] \<and> rules q = [] \<and>
    map (\<lambda>p. map leg_instrument (pos_legs p)) (positions q) = [[InstrumentId 0]]"
  by (simp add: process_pending_def fill_order_def bought_def future_quotes two_sided_def column_at_def sample_columns_def
     cross_spread_def [THEN arg_cong [where f = fm_fill]] cross_spread_fill_def put_leg_def the_leg_def new_leg_def Let_def)

lemma future_margin:
  assumes "map (\<lambda>p. map leg_instrument (pos_legs p)) (positions q) = [[InstrumentId 0]]"
  shows "margin (ctx_on (run_ctx m cfg future_session u sp) future_session now) q = Inr no_margin"
proof -
  obtain pos l where "positions q = [pos]" "pos_legs pos = [l]" "leg_instrument l = InstrumentId 0"
    using assms by auto
  then show ?thesis
    by (simp add: margin_def group_leg_def cx_registry_def ctx_on_def is_option_def future_spec_def)
qed

abbreviation future_ctx :: ctx where
  "future_ctx \<equiv> run_ctx flat_libm free_config future_session (UnderlyingId 0) (InstrumentId 0)"

lemma future_step:
  assumes "process_pending (market future_session t) (rs_portfolio st) = Inr q" and "rules q = []"
    and "map (\<lambda>p. map leg_instrument (pos_legs p)) (positions q) = [[InstrumentId 0]]"
    and "rs_now st \<le> t" and "rs_task st"
  shows "\<exists>st'. run_step buy_at_once free_config future_session future_ctx t st = Inr st' \<and>
    rs_now st' = t \<and> rs_portfolio st' = q \<and> rs_task st'"
proof -
  have "\<exists>x. sample_margin free_config (ctx_on future_ctx future_session t) q t (rs_next_margin st, rs_peak st) = Inr x"
    using future_margin [OF assms(3)] by (simp add: sample_margin_def)
  moreover have "resume_loop buy_at_once mx c t g (True, q, e, r) = Inr (True, q, e, r)" for mx c g e r
    by (subst resume_loop.simps) (simp add: buy_at_once_def)
  ultimately show ?thesis
    using assms by (auto simp: run_step_def advance_to_def process_risk_rules_def)
qed

lemma future_run:
  "\<exists>st. run_loop buy_at_once flat_libm free_config future_session (UnderlyingId 0) (InstrumentId 0) = Inr st \<and>
    map (\<lambda>t. (signal_ts t, fill_ts t)) (trades (rs_portfolio st)) = [(Timestamp 0, Timestamp 20)] \<and>
    map (\<lambda>p. map leg_instrument (pos_legs p)) (positions (rs_portfolio st)) = [[InstrumentId 0]]"
proof -
  let ?step = "run_step buy_at_once free_config future_session future_ctx"
  obtain st0 where st0: "run_start buy_at_once flat_libm free_config future_session (UnderlyingId 0) (InstrumentId 0) = Inr st0"
    "rs_now st0 = Timestamp 0" "rs_portfolio st0 = bought" "rs_task st0"
    by (rule that [OF future_start]) simp_all
  have b: "rules bought = []" "map (\<lambda>p. map leg_instrument (pos_legs p)) (positions bought) = [[InstrumentId 0]]"
    by (simp_all add: bought_def new_leg_def)
  have le: "rs_now st0 \<le> Timestamp 10" by (simp add: st0(2))
  have "process_pending (market future_session (Timestamp 10)) (rs_portfolio st0) = Inr bought"
    by (simp only: st0(3) future_wait)
  from future_step [OF this b le st0(4)] obtain st1 where
    st1: "?step (Timestamp 10) st0 = Inr st1" "rs_now st1 = Timestamp 10" "rs_portfolio st1 = bought" "rs_task st1"
    by (elim exE conjE) (rule that)
  obtain q where q: "process_pending (market future_session (Timestamp 20)) bought = Inr q"
    "map (\<lambda>t. (signal_ts t, fill_ts t)) (trades q) = [(Timestamp 0, Timestamp 20)]" "pending q = []" "rules q = []"
    "map (\<lambda>p. map leg_instrument (pos_legs p)) (positions q) = [[InstrumentId 0]]"
    using future_fill by (elim exE conjE) (rule that)
  have le: "rs_now st1 \<le> Timestamp 20" by (simp add: st1(2))
  have "process_pending (market future_session (Timestamp 20)) (rs_portfolio st1) = Inr q"
    by (simp only: st1(3) q(1))
  from future_step [OF this q(4,5) le st1(4)] obtain st2 where
    st2: "?step (Timestamp 20) st1 = Inr st2" "rs_now st2 = Timestamp 20" "rs_portfolio st2 = q" "rs_task st2"
    by (elim exE conjE) (rule that)
  have le: "rs_now st2 \<le> Timestamp 30" by (simp add: st2(2))
  have "process_pending (market future_session (Timestamp 30)) (rs_portfolio st2) = Inr q"
    by (simp add: process_pending_def q(3) st2(3))
  from future_step [OF this q(4,5) le st2(4)] obtain st3 where
    st3: "?step (Timestamp 30) st2 = Inr st3" "rs_portfolio st3 = q"
    by (elim exE conjE) (rule that)
  have steps: "fst (session_steps future_session) = [Timestamp 10, Timestamp 20, Timestamp 30]"
    by (simp add: session_steps_def future_session_def)
  have "run_loop buy_at_once flat_libm free_config future_session (UnderlyingId 0) (InstrumentId 0) = Inr st3"
    unfolding run_loop_def st0(1) sum.case steps try_fold.simps st1(1) st2(1) st3(1) by (rule refl)
  from this q(2) [folded st3(2)] q(5) [folded st3(2)] show ?thesis by (intro exI conjI)
qed

lemma future_ok: "session_ok future_session" "after_epoch future_session"
proof -
  have s: "size_of sample_columns = 4" by (simp add: sample_columns_def size_of_def)
  have ev: "all_events future_session = all_events (one_instrument sample_columns)"
    by (simp add: all_events_def future_session_def)
  have q: "sd_quotes future_session i = sd_quotes (one_instrument sample_columns) i" for i
    by (simp add: future_session_def)
  have base: "session_ok (one_instrument sample_columns)" using s by (intro one_instrument_ok sample_columns_ok) simp
  have es: "all_events (one_instrument sample_columns) = map (\<lambda>k. Event (c_ts sample_columns ! k) (InstrumentId 0) k) [0, 1, 2, 3]"
    by (simp add: all_events_def one_instrument_def Let_def s upt_rec numeral_eq_Suc)
  show "after_epoch future_session"
    unfolding after_epoch_def ev es by (simp add: sample_columns_def)
  have "distinct_times (one_instrument sample_columns) = [Timestamp 10, Timestamp 20, Timestamp 30]"
    unfolding distinct_times_def es sample_columns_def by code_simp
  then have "distinct_times future_session = [Timestamp 10, Timestamp 20, Timestamp 30]"
    by (simp only: distinct_times_def ev)
  moreover have "sd_timeline future_session = [Timestamp 10, Timestamp 20, Timestamp 30]"
    by (simp add: future_session_def)
  ultimately have tl: "sd_timeline future_session = [] \<or> sd_timeline future_session = distinct_times future_session"
    by simp
  have same: "sd_instruments future_session = sd_instruments (one_instrument sample_columns)"
    "sd_total_observations future_session = sd_total_observations (one_instrument sample_columns)"
    "sd_event_order future_session = sd_event_order (one_instrument sample_columns)"
    "sd_printed_by future_session = sd_printed_by (one_instrument sample_columns)"
    by (simp_all add: future_session_def)
  have "sd_quotes future_session = sd_quotes (one_instrument sample_columns)" by (rule ext) (rule q)
  then show "session_ok future_session" using base tl unfolding session_ok_def ev same by simp
qed


section \<open>Properties\<close>

text \<open>C20: a run never trades at the time it decided, and its books are auditable.  For every strategy
  that trades through the context and every session after the epoch, each trade in the log of
  \<open>run_session\<close> was filled strictly after its signal and at least the execution delay after it, at
  a time at which the session has an observation; the log is in time order and no trade is a
  settlement; the cost total is the sum of the log; and final equity is net realised plus
  unrealised, which is the net cash of the log less costs plus the live legs at their marks.\<close>

theorem run_trades_follow_signals:
  assumes "order_strategy S" and "session_ok sd" and "after_epoch sd"
    and "run_loop S m cfg sd u sp = Inr st" and "ids_fit (rs_portfolio st)"
    and "run_session S m cfg sd u sp = Inr r"
  shows "(\<forall>t \<in> set (trade_log r). \<not> t_settled t \<and> signal_ts t < fill_ts t \<and>
      nanos (signal_ts t) + execution_delay_nanos cfg \<le> nanos (fill_ts t) \<and>
      fill_ts t \<in> set (distinct_times sd)) \<and>
    sorted (map fill_ts (trade_log r)) \<and>
    rr_costs r = sum_list (map t_cost (trade_log r)) \<and>
    rr_final_equity r = rr_net_realized r + rr_unrealized r \<and>
    amount (rr_final_equity r) =
      sum_list (map (\<lambda>t. (if t_side t = Sell then 1 else - 1) * (minor (t_price t) * t_qty t)) (trade_log r)) -
      sum_list (map (\<lambda>t. amount (t_cost t)) (trade_log r)) +
      sum_list (map (liquidation (market sd (rs_now st))) (concat (map pos_legs (positions (rs_portfolio st)))))"
  using assms(6)
proof (cases rule: run_session_result)
  case (1 st' mr)
  then have st: "st' = st" using assms(4) by simp
  note laws = order_strategy.run_loop_laws [OF assms(1-4)]
  have reach: "pf_reach (rs_portfolio st)" by (rule laws(4) [OF assms(5)])
  have ok: "portfolio_ok (rs_portfolio st)" by (rule pf_reach_ok [OF reach])
  have time: "on_time (rs_now st) (rs_portfolio st)" and delay: "pf_delay (rs_portfolio st) = execution_delay_nanos cfg"
    using laws(1) by (simp_all add: run_inv_def)
  have led: "ledger_ok (rs_portfolio st)" and tim: "timing_ok (rs_portfolio st)"
    using ok by (simp_all add: portfolio_ok_def inv_with_def)
  have "nanos (signal_ts t) + execution_delay_nanos cfg \<le> nanos (fill_ts t)" if "t \<in> set (trade_log r)" for t
    using tim time that delay by (fastforce simp: timing_ok_def on_time_def 1(3) st less_eq_timestamp_def)
  moreover have "trade_cash = (\<lambda>t. (if t_side t = Sell then 1 else - 1) * (minor (t_price t) * t_qty t))"
    by (rule ext) (simp add: trade_cash_def)
  moreover have "rr_costs r = sum_list (map t_cost (trade_log r))"
    using led by (simp add: 1 st ledger_ok_def)
  moreover have "rr_final_equity r = rr_net_realized r + rr_unrealized r"
    by (simp add: 1 st equity_def net_realized_def)
  ultimately show ?thesis
    using time laws(3) equity_split [OF led, of "market sd (rs_now st)"] by (simp add: on_time_def 1 st)
qed

theorem run_trades_follow_signals_witness:
  "\<exists>r. run_session buy_at_once flat_libm free_config future_session (UnderlyingId 0) (InstrumentId 0) = Inr r \<and>
     (\<forall>t \<in> set (trade_log r). nanos (signal_ts t) + 15 \<le> nanos (fill_ts t)) \<and> length (trade_log r) = 1"
proof -
  obtain st where st: "run_loop buy_at_once flat_libm free_config future_session (UnderlyingId 0) (InstrumentId 0) = Inr st"
    "map (\<lambda>t. (signal_ts t, fill_ts t)) (trades (rs_portfolio st)) = [(Timestamp 0, Timestamp 20)]"
    "map (\<lambda>p. map leg_instrument (pos_legs p)) (positions (rs_portfolio st)) = [[InstrumentId 0]]"
    using future_run by (elim exE conjE) (rule that)
  have "length (trades (rs_portfolio st)) = 1" "length (positions (rs_portfolio st)) = 1"
    using arg_cong [OF st(2), of length] arg_cong [OF st(3), of length] by simp_all
  moreover from this have "ids_fit (rs_portfolio st)" by simp
  moreover obtain r where r: "run_session buy_at_once flat_libm free_config future_session (UnderlyingId 0) (InstrumentId 0) = Inr r"
    "trade_log r = trades (rs_portfolio st)"
    using future_margin [OF st(3)] by (simp add: run_session_def st(1) Let_def)
  moreover have "execution_delay_nanos free_config = 15" by (simp add: free_config_def default_run_config_def)
  ultimately show ?thesis
    using run_trades_follow_signals [OF buying.order_strategy_axioms future_ok st(1) _ r(1)] by auto
qed

lemma run_step_counts:
  assumes "run_step S cfg sd c t st = Inr st'"
  shows "rs_steps st' = rs_steps st + 1 \<and> rs_resumes st \<le> rs_resumes st' \<and>
    rs_resumes st' \<le> rs_resumes st + nat (max_resumes_per_step cfg) \<and>
    rs_evals st \<le> rs_evals st' \<and> rs_evals st' + rs_resumes st \<le> rs_evals st + rs_resumes st' + 1"
  using assms
proof (cases rule: run_step_cases)
  case (1 p1 p2 nm pk s p3 e r)
  have "rs_steps st' = rs_steps st + 1" "rs_evals st' = e" "rs_resumes st' = r" by (simp_all add: 1(6))
  then show ?thesis using resume_loop_counts [OF 1(5)] by linarith
qed

lemma run_steps_counts:
  assumes "try_fold (run_step S cfg sd c) ts st = Inr st'"
  shows "rs_steps st' = rs_steps st + length ts \<and>
    rs_resumes st' \<le> rs_resumes st + length ts * nat (max_resumes_per_step cfg) \<and>
    rs_evals st' + rs_resumes st \<le> rs_evals st + rs_resumes st' + length ts"
  using assms
proof (induction ts arbitrary: st)
  case (Cons t ts)
  then obtain u where u: "run_step S cfg sd c t st = Inr u" "try_fold (run_step S cfg sd c) ts u = Inr st'"
    by (auto split: sum.splits)
  show ?case using run_step_counts [OF u(1)] Cons.IH [OF u(2)] by simp
qed simp

lemma spinning_is_stopped:
  assumes spin: "\<forall>s p. \<not> st_done S s \<and> cond_valid (st_pending S c s) \<and>
      cond_eval (st_pending S c s) \<lparr>ev_market = cx_market c, ev_portfolio = p, ev_now = t\<rparr> = Inr True \<and>
      (\<exists>s' p'. st_resume S c s p = Inr (s', p'))"
  shows "\<exists>msg. resume_loop S mx c t g x = Inl (RuntimeError msg)"
proof (induction "nat (mx - g)" arbitrary: g x rule: less_induct)
  case less
  obtain s p e r where x: "x = (s, p, e, r)" by (cases x) auto
  obtain s' p' where res: "st_resume S c s p = Inr (s', p')" using spin by blast
  have run: "resume_loop S mx c t g x = (if mx < g + 1
      then Inl (RuntimeError ''strategy resumed repeatedly within one timestamp: a condition is always true, so it is spinning rather than waiting for the market'')
      else resume_loop S mx c t (g + 1) (s', p', e + 1, r + 1))"
    unfolding x resume_loop.simps [of S mx c t g] using spin by (simp add: res)
  have "nat (mx - (g + 1)) < nat (mx - g)" if "\<not> mx < g + 1" using that by simp
  then show ?case using less [of "g + 1"] by (cases "mx < g + 1") (auto simp: run)
qed

text \<open>C21: a strategy cannot hang the engine.  Whatever the strategy, a step that completes has resumed
  it at most \<open>max_resumes_per_step\<close> times and evaluated its condition at most once more than that; and
  a strategy whose condition keeps holding and which keeps returning is stopped with the runtime error,
  however far the step had come.  Over a whole run that completes, on a well-formed session whose times
  are after the epoch, there is one step per distinct time, every observation is counted once, and the
  counters of the result obey the sum of those bounds.\<close>

theorem resumptions_are_bounded:
  "(\<forall>c t st st'. run_step S cfg sd c t st = Inr st' \<longrightarrow>
       rs_steps st' = rs_steps st + 1 \<and>
       rs_resumes st \<le> rs_resumes st' \<and> rs_resumes st' - rs_resumes st \<le> nat (max_resumes_per_step cfg) \<and>
       rs_evals st \<le> rs_evals st' \<and> rs_evals st' - rs_evals st \<le> (rs_resumes st' - rs_resumes st) + 1) \<and>
    (\<forall>mx c t. (\<forall>s p. \<not> st_done S s \<and> cond_valid (st_pending S c s) \<and>
         cond_eval (st_pending S c s) \<lparr>ev_market = cx_market c, ev_portfolio = p, ev_now = t\<rparr> = Inr True \<and>
         (\<exists>s' p'. st_resume S c s p = Inr (s', p'))) \<longrightarrow>
       (\<forall>g x. \<exists>msg. resume_loop S mx c t g x = Inl (RuntimeError msg))) \<and>
    (\<forall>r. session_ok sd \<and> after_epoch sd \<and> run_session S m cfg sd u sp = Inr r \<longrightarrow>
       rr_steps r = length (distinct_times sd) \<and> rr_observations r = length (all_events sd) \<and>
       rr_resumes r \<le> rr_steps r * nat (max_resumes_per_step cfg) \<and>
       condition_evals r \<le> rr_steps r + rr_resumes r)"
proof -
  have step: "rs_steps st' = rs_steps st + 1 \<and>
      rs_resumes st \<le> rs_resumes st' \<and> rs_resumes st' - rs_resumes st \<le> nat (max_resumes_per_step cfg) \<and>
      rs_evals st \<le> rs_evals st' \<and> rs_evals st' - rs_evals st \<le> (rs_resumes st' - rs_resumes st) + 1"
    if "run_step S cfg sd c t st = Inr st'" for c t st st'
    using run_step_counts [OF that] by linarith
  have whole: "rr_steps r = length (distinct_times sd) \<and> rr_observations r = length (all_events sd) \<and>
       rr_resumes r \<le> rr_steps r * nat (max_resumes_per_step cfg) \<and> condition_evals r \<le> rr_steps r + rr_resumes r"
    if "session_ok sd" "after_epoch sd" "run_session S m cfg sd u sp = Inr r" for r
    using that(3)
  proof (cases rule: run_session_result)
    case (1 st mr)
    note steps = session_steps_distinct [OF that(1,2)]
    obtain st0 where st0: "run_start S m cfg sd u sp = Inr st0"
      and loop: "try_fold (run_step S cfg sd (run_ctx m cfg sd u sp)) (distinct_times sd) st0 = Inr st"
      using 1(1) by (auto simp: run_loop_def steps split: sum.splits)
    have "rs_steps st0 = 0" "rs_resumes st0 = 0" "rs_evals st0 = 0"
      using st0 by (auto simp: run_start_def Let_def split: sum.splits option.splits)
    then show ?thesis using run_steps_counts [OF loop] steps by (simp add: 1)
  qed
  show ?thesis
    by (intro conjI allI impI spinning_is_stopped) (use step whole in blast)+
qed

text \<open>A strategy that always has another reason to run.\<close>

definition restless :: "unit strategy" where
  "restless = \<lparr>st_start = (\<lambda>c. Some ()), st_resume = (\<lambda>c s p. Inr (s, p)), st_done = (\<lambda>_. False),
     st_pending = (\<lambda>c _. when_cond (\<lambda>_. Inr True))\<rparr>"

theorem resumptions_are_bounded_witness:
  "\<exists>msg. resume_loop restless 64 future_ctx (Timestamp 10) 0 ((), bought, 0, 0) = Inl (RuntimeError msg)"
proof -
  have "\<forall>s p. \<not> st_done restless s \<and> cond_valid (st_pending restless future_ctx s) \<and>
      cond_eval (st_pending restless future_ctx s) \<lparr>ev_market = cx_market future_ctx, ev_portfolio = p, ev_now = Timestamp 10\<rparr> = Inr True \<and>
      (\<exists>s' p'. st_resume restless future_ctx s p = Inr (s', p'))"
    by (simp add: restless_def when_cond_def cond_valid_def cond_eval_def)
  then show ?thesis using resumptions_are_bounded [of restless default_run_config future_session] by blast
qed

end
