(* ===== verification/Lookahead.thy ===== *)
theory Lookahead
  imports Runs
begin

text \<open>
  \<open>lookahead.hpp\<close> and \<open>lookahead.cpp\<close>: a session clipped at a cutoff, and the check that replays a
  strategy on clipped sessions and compares the trades.  The draws of \<open>std::mt19937_64\<close> through
  \<open>uniform_int_distribution\<close> are a parameter, the sequence of indices it yields.  A violation
  carries the data its message prints, not the formatted text.
\<close>

section \<open>The clipped session\<close>

record truncated_session =
  tr_inner :: session_data
  tr_cutoff :: timestamp
  tr_kept :: "instrument_id list"
  tr_counts :: "(int \<times> nat) list"
  tr_total :: nat

text \<open>One iteration of the constructor; \<open>emplace\<close> keeps an entry that is already there.\<close>

definition clip_step :: "instrument_id \<Rightarrow> truncated_session \<Rightarrow> truncated_session" where
  "clip_step i s =
     (let cols = sd_quotes (tr_inner s) i in
      if size_of cols = 0 then s
      else case index_at_or_before cols (tr_cutoff s) of
        None \<Rightarrow> s
      | Some idx \<Rightarrow>
          let n = idx + 1 in
          s\<lparr>tr_counts := (if map_of (tr_counts s) (index_of i) = None then om_put (index_of i) n (tr_counts s) else tr_counts s),
            tr_kept := tr_kept s @ [i], tr_total := tr_total s + n\<rparr>)"

definition truncated_session :: "session_data \<Rightarrow> timestamp \<Rightarrow> truncated_session" where
  "truncated_session inner cutoff =
     fold clip_step (sd_instruments inner)
       \<lparr>tr_inner = inner, tr_cutoff = cutoff, tr_kept = [], tr_counts = [], tr_total = 0\<rparr>"

definition tr_quotes :: "truncated_session \<Rightarrow> instrument_id \<Rightarrow> quote_columns" where
  "tr_quotes s i =
     (case map_of (tr_counts s) (index_of i) of
        None \<Rightarrow> empty_columns
      | Some n \<Rightarrow> first_rows n (sd_quotes (tr_inner s) i))"

text \<open>The session interface of the clipped session; it has no cached order and no timeline.\<close>

definition truncated_data :: "truncated_session \<Rightarrow> session_data" where
  "truncated_data s =
     \<lparr>sd_date = sd_date (tr_inner s), sd_registry = sd_registry (tr_inner s), sd_instruments = tr_kept s,
      sd_quotes = tr_quotes s, sd_total_observations = tr_total s, sd_event_order = [],
      sd_timeline = [], sd_printed_by = default_printed_by (tr_quotes s)\<rparr>"

section \<open>The check\<close>

definition same_trade :: "trade_record \<Rightarrow> trade_record \<Rightarrow> bool" where
  "same_trade a b \<longleftrightarrow>
     signal_ts a = signal_ts b \<and> fill_ts a = fill_ts b \<and> t_instrument a = t_instrument b \<and>
     t_side a = t_side b \<and> t_qty a = t_qty b \<and> t_price a = t_price b"

datatype detail = CountDiffers nat nat | TradeDiffers trade_record trade_record

record lookahead_report =
  clean :: bool
  cutoffs_tested :: nat
  trades_compared :: nat
  violations :: "(timestamp \<times> detail) list"

definition empty_report :: lookahead_report where
  "empty_report = \<lparr>clean = True, cutoffs_tested = 0, trades_compared = 0, violations = []\<rparr>"

text \<open>The distinct times of the session, by the loop over the cursor.\<close>

definition observed_times :: "session_data \<Rightarrow> timestamp list" where
  "observed_times sd = fst (snd (fold observe (drain (event_cursor sd)) (kNoTime, [], 0)))"

text \<open>Cutoffs next to a fill; \<open>std::set\<close> is an ordered map to unit.\<close>

definition near_fill :: "timestamp list \<Rightarrow> trade_record \<Rightarrow> (int \<times> unit) list \<Rightarrow> (int \<times> unit) list" where
  "near_fill obs t chosen =
     (let k = lower_bound obs (fill_ts t);
          c1 = (if k < length obs then om_put (nanos (obs ! k)) () chosen else chosen)
      in if k \<noteq> 0 then om_put (nanos (obs ! (k - 1))) () c1 else c1)"

text \<open>The sampling loop; \<open>k\<close> counts the draws.  It ends only if the draws reach enough indices.\<close>

partial_function (option) draw_cutoffs ::
    "(nat \<Rightarrow> nat) \<Rightarrow> timestamp list \<Rightarrow> int \<Rightarrow> nat \<Rightarrow> (int \<times> unit) list \<Rightarrow> (int \<times> unit) list option" where
  "draw_cutoffs draw obs cutoffs k chosen =
     (if int (length chosen) < cutoffs then
        (let c1 = om_put (nanos (obs ! draw k)) () chosen in
         if length obs \<le> length c1 then Some c1 else draw_cutoffs draw obs cutoffs (k + 1) c1)
      else Some chosen)"

text \<open>One iteration of the comparing loop.\<close>

definition compare_at ::
    "'s strategy \<Rightarrow> libm \<Rightarrow> run_config \<Rightarrow> session_data \<Rightarrow> underlying_id \<Rightarrow> instrument_id \<Rightarrow> run_result \<Rightarrow>
     int \<Rightarrow> lookahead_report \<Rightarrow> exn + lookahead_report" where
  "compare_at S m cfg sd u sp full ns rep =
     (let cutoff = Timestamp ns;
          rep1 = rep\<lparr>cutoffs_tested := cutoffs_tested rep + 1\<rparr>;
          clipped = truncated_session sd cutoff
      in if tr_kept clipped = [] then Inr rep1
         else case run_session S m cfg (truncated_data clipped) u sp of
           Inl e \<Rightarrow> Inl e
         | Inr part \<Rightarrow>
             let expected = filter (\<lambda>t. fill_ts t \<le> cutoff) (trade_log full);
                 rep2 = rep1\<lparr>trades_compared := trades_compared rep1 + length expected\<rparr>
             in Inr (if length (trade_log part) \<noteq> length expected
                  then rep2\<lparr>clean := False, violations := violations rep2 @
                    [(cutoff, CountDiffers (length (trade_log part)) (length expected))]\<rparr>
                  else case find (\<lambda>(a, b). \<not> same_trade a b) (zip expected (trade_log part)) of
                    None \<Rightarrow> rep2
                  | Some (a, b) \<Rightarrow> rep2\<lparr>clean := False, violations := violations rep2 @ [(cutoff, TradeDiffers a b)]\<rparr>))"

text \<open>\<open>None\<close> is a sampling loop that never ends, \<open>Inl\<close> an exception.\<close>

definition check_lookahead ::
    "'s strategy \<Rightarrow> libm \<Rightarrow> run_config \<Rightarrow> session_data \<Rightarrow> underlying_id \<Rightarrow> instrument_id \<Rightarrow> int \<Rightarrow> (nat \<Rightarrow> nat) \<Rightarrow>
     (exn + lookahead_report) option" where
  "check_lookahead S m cfg sd u sp cutoffs draw =
     (case run_session S m cfg sd u sp of
        Inl e \<Rightarrow> Some (Inl e)
      | Inr full \<Rightarrow>
          let obs = observed_times sd in
          if length obs < 2 then Some (Inr empty_report)
          else case draw_cutoffs draw obs cutoffs 0 (fold (near_fill obs) (trade_log full) []) of
            None \<Rightarrow> None
          | Some chosen \<Rightarrow>
              Some (try_fold (compare_at S m cfg sd u sp full) (map fst chosen) empty_report))"

section \<open>A clipped session is a session\<close>

lemma index_of_eq: "index_of i = index_of j \<longleftrightarrow> i = j"
  by (cases i; cases j) simp

lemma clip_fold:
  assumes "session_ok (tr_inner s)" and "distinct ids"
    and "\<forall>i \<in> set ids. map_of (tr_counts s) (index_of i) = None"
  shows "tr_inner (fold clip_step ids s) = tr_inner s \<and> tr_cutoff (fold clip_step ids s) = tr_cutoff s \<and>
    tr_kept (fold clip_step ids s) =
      tr_kept s @ filter (\<lambda>i. count_upto (sd_quotes (tr_inner s) i) (tr_cutoff s) \<noteq> 0) ids \<and>
    tr_total (fold clip_step ids s) =
      tr_total s + (\<Sum>i\<leftarrow>ids. count_upto (sd_quotes (tr_inner s) i) (tr_cutoff s)) \<and>
    (\<forall>i. map_of (tr_counts (fold clip_step ids s)) (index_of i) =
      (if i \<in> set ids \<and> count_upto (sd_quotes (tr_inner s) i) (tr_cutoff s) \<noteq> 0
       then Some (count_upto (sd_quotes (tr_inner s) i) (tr_cutoff s))
       else map_of (tr_counts s) (index_of i)))"
  using assms
proof (induction ids arbitrary: s)
  case (Cons i ids)
  let ?n = "count_upto (sd_quotes (tr_inner s) i) (tr_cutoff s)"
  have c: "columns_ok (sd_quotes (tr_inner s) i)" using Cons.prems(1) by (rule session_okD(1))
  have step: "clip_step i s = (if ?n = 0 then s else s\<lparr>tr_counts := om_put (index_of i) ?n (tr_counts s),
      tr_kept := tr_kept s @ [i], tr_total := tr_total s + ?n\<rparr>)"
    using Cons.prems(3) count_upto_le_size [of "sd_quotes (tr_inner s) i" "tr_cutoff s"]
    by (auto simp: clip_step_def index_at_or_before_count [OF c] Let_def)
  have other: "index_of j \<noteq> index_of i" if "j \<in> set ids" for j
    using Cons.prems(2) that by (auto simp: index_of_eq)
  have "\<forall>j \<in> set ids. map_of (tr_counts (clip_step i s)) (index_of j) = None"
    using Cons.prems(3) other by (auto simp: step)
  moreover have "session_ok (tr_inner (clip_step i s))" using Cons.prems(1) by (simp add: step)
  ultimately show ?case
    using Cons.IH [of "clip_step i s"] Cons.prems(2,3) by (auto simp: step index_of_eq)
qed simp

lemma truncated_fields:
  assumes "session_ok sd"
  shows "tr_kept (truncated_session sd T) = filter (\<lambda>i. count_upto (sd_quotes sd i) T \<noteq> 0) (sd_instruments sd)"
    and "tr_total (truncated_session sd T) = (\<Sum>i\<leftarrow>sd_instruments sd. count_upto (sd_quotes sd i) T)"
    and "tr_quotes (truncated_session sd T) i = upto_time T (sd_quotes sd i)"
    and "tr_inner (truncated_session sd T) = sd"
proof -
  let ?s = "\<lparr>tr_inner = sd, tr_cutoff = T, tr_kept = [], tr_counts = [], tr_total = 0\<rparr>"
  note f = clip_fold [of ?s "sd_instruments sd", simplified, OF assms session_okD(4) [OF assms]]
  show "tr_kept (truncated_session sd T) = filter (\<lambda>i. count_upto (sd_quotes sd i) T \<noteq> 0) (sd_instruments sd)"
    "tr_total (truncated_session sd T) = (\<Sum>i\<leftarrow>sd_instruments sd. count_upto (sd_quotes sd i) T)"
    "tr_inner (truncated_session sd T) = sd"
    using f by (simp_all add: truncated_session_def)
  have out: "count_upto (sd_quotes sd i) T = 0" if "i \<notin> set (sd_instruments sd)"
    using session_okD(3) [OF assms, of i] that count_upto_le_size [of "sd_quotes sd i" T] by (metis le_zero_eq)
  show "tr_quotes (truncated_session sd T) i = upto_time T (sd_quotes sd i)"
    using f out first_rows_0 [of "sd_quotes sd i"] by (auto simp: tr_quotes_def truncated_session_def upto_time_def)
qed

end
