(* ===== verification/LookaheadLaws.thy ===== *)
theory LookaheadLaws
  imports Lookahead
begin

text \<open>
  The theorem \<open>lookahead.hpp\<close> rests on: what a causal strategy does up to \<open>T\<close> does not depend on
  data after \<open>T\<close>.  The interface of a causal strategy is the locale \<open>causal_strategy\<close>, interpreted on
  the short straddle; under it a run on the session clipped at \<open>T\<close> has exactly the trades the full
  run has by \<open>T\<close>, so the check reports no violation.  For any strategy at all the verdict is exact: one
  violation for each cutoff at which the clipped run's trades are not the full run's.
\<close>

section \<open>The clipped session as a source\<close>

abbreviation clip :: "timestamp \<Rightarrow> session_data \<Rightarrow> session_data" where
  "clip T sd \<equiv> truncated_data (truncated_session sd T)"

lemma clip_quotes: "session_ok sd \<Longrightarrow> sd_quotes (clip T sd) i = upto_time T (sd_quotes sd i)"
  by (simp add: truncated_data_def truncated_fields)

lemma clip_ok:
  assumes "session_ok sd"
  shows "session_ok (clip T sd)"
proof -
  note f = truncated_fields [OF assms, of T]
  have q: "sd_quotes (clip T sd) = (\<lambda>i. upto_time T (sd_quotes sd i))" by (rule ext) (rule clip_quotes [OF assms])
  have kept: "sd_instruments (clip T sd) = filter (\<lambda>i. count_upto (sd_quotes sd i) T \<noteq> 0) (sd_instruments sd)"
    by (simp add: truncated_data_def f)
  have "(\<Sum>i\<leftarrow>filter (\<lambda>i. count_upto (sd_quotes sd i) T \<noteq> 0) ids. count_upto (sd_quotes sd i) T) =
      (\<Sum>i\<leftarrow>ids. count_upto (sd_quotes sd i) T)" for ids
    by (induction ids) auto
  then have "sd_total_observations (clip T sd) = length (all_events (clip T sd))"
    by (simp add: all_events_def q kept length_concat comp_def) (simp add: truncated_data_def f)
  moreover have "i \<in> set (sd_instruments (clip T sd))" if "count_upto (sd_quotes sd i) T \<noteq> 0" for i
    using that session_okD(3) [OF assms, of i] count_upto_le_size [of "sd_quotes sd i" T] by (auto simp: kept)
  moreover have "count_upto (sd_quotes sd i) T < 2 ^ 32" for i
    using session_okD(2) [OF assms, of i] count_upto_le_size [of "sd_quotes sd i" T] by linarith
  moreover have "distinct (sd_instruments (clip T sd))" using session_okD(4) [OF assms] by (simp add: kept)
  moreover have "sd_event_order (clip T sd) = []" "sd_timeline (clip T sd) = []"
    "sd_printed_by (clip T sd) = default_printed_by (sd_quotes (clip T sd))"
    by (simp_all add: truncated_data_def)
  ultimately show ?thesis
    using session_okD(1) [OF assms] by (simp add: session_ok_def q upto_time_ok)
qed

interpretation clipped: session_source truncated_data "\<lambda>s. \<exists>sd T. session_ok sd \<and> s = truncated_session sd T"
  by unfold_locales (auto intro: clip_ok)

lemma clip_same: "session_ok sd \<Longrightarrow> same_upto T sd (clip T sd)"
  by (simp add: same_upto_def clip_quotes upto_upto session_okD(1)) (simp add: truncated_data_def truncated_fields)

lemma clip_times:
  assumes "session_ok sd"
  shows "distinct_times (clip T sd) = filter (\<lambda>t. t \<le> T) (distinct_times sd)"
proof (rule sorted_distinct_set_unique)
  note s = distinct_times_laws [OF assms] and c = distinct_times_laws [OF clip_ok [OF assms], of T]
  show "sorted (distinct_times (clip T sd))" "distinct (distinct_times (clip T sd))"
    using c(1) by (simp_all add: strict_sorted_iff)
  show "sorted (filter (\<lambda>t. t \<le> T) (distinct_times sd))" "distinct (filter (\<lambda>t. t \<le> T) (distinct_times sd))"
    using s(1) by (simp_all add: strict_sorted_iff sorted_wrt_filter)
  show "set (distinct_times (clip T sd)) = set (filter (\<lambda>t. t \<le> T) (distinct_times sd))"
    by (auto simp: s(2) c(2) clip_quotes [OF assms] c_ts_upto session_okD(1) [OF assms])
qed

lemma after_epoch_times:
  "session_ok sd \<Longrightarrow> after_epoch sd \<longleftrightarrow> (\<forall>t \<in> set (distinct_times sd). Timestamp 0 < t)"
  by (simp add: after_epoch_def distinct_times_laws(2) flip: set_all_times)

lemma clip_after_epoch: "session_ok sd \<Longrightarrow> after_epoch sd \<Longrightarrow> after_epoch (clip T sd)"
  by (simp add: after_epoch_times clip_ok clip_times)

section \<open>Live legs are listed\<close>

text \<open>Only an instrument the registry lists is ever filled, so margin never fails on a live leg.\<close>

definition listed :: "registry \<Rightarrow> instrument_id set" where
  "listed reg = {i. \<exists>sp. spec reg i = Inr sp}"

lemma fill_order_listed:
  assumes "fill_order mv ord (p, still) = Inr (q, still)"
  shows "o_instrument ord \<in> listed (mv_registry mv)"
  using assms by (auto simp: fill_order_def listed_def split: if_splits option.splits sum.splits)

lemma fills_held:
  assumes inv: "portfolio_ok p" and run: "process_pending mv p = Inr q" and "held p \<subseteq> listed (mv_registry mv)"
  shows "held q \<subseteq> listed (mv_registry mv)"
proof (cases "pending p = []")
  case False
  let ?I = "\<lambda>ords r. inv_with never ords r \<and> held r \<subseteq> listed (mv_registry mv)"
  obtain p1 still where f: "try_fold (fill_order mv) (pending p) (p, []) = Inr (p1, still)" "q = p1\<lparr>pending := still\<rparr>"
    using run False by (auto simp: process_pending_def split: sum.splits)
  have step: "?I (kept' @ rest) r'" if I: "?I (kept @ ord # rest) r" and one: "fill_order mv ord (r, kept) = Inr (r', kept')"
    for ord rest r kept r' kept'
  proof -
    have "held r' \<subseteq> listed (mv_registry mv)"
      using one
    proof (cases rule: fill_order_cases)
      case rest
      then show ?thesis using I by simp
    next
      case (fill x px t)
      obtain l where l: "order_matches never (pf_delay r) ord l" "the_leg r (o_position ord) (o_leg_index ord) = l"
        using order_leg [OF conjunct1 [OF I]] by metis
      have "held r' = held (put_leg (o_position ord) (o_leg_index ord) (leg_after ord px (mv_now mv) l) r)"
        by (rule held_cong) (use fill(5) l(2) in \<open>simp add: fill_facts_def Let_def\<close>)
      moreover have "leg_instrument (leg_after ord px (mv_now mv) l) = o_instrument ord"
        using l(1) by (auto simp: leg_after_def order_matches_def never_def split: if_splits)
      moreover have "o_instrument ord \<in> listed (mv_registry mv)"
        using one unfolding fill(1) by (rule fill_order_listed)
      ultimately show ?thesis
        using I held_put [of "o_position ord" "o_leg_index ord" "leg_after ord px (mv_now mv) l" r]
        by (auto split: if_splits)
    qed
    then show ?thesis using fill_order_step [OF conjunct1 [OF I] one] by blast
  qed
  have "?I still p1"
    by (rule sweep [where I = ?I, OF step _ f(1)]) (use inv assms(3) in \<open>auto simp: portfolio_ok_def\<close>)
  then show ?thesis by (simp add: f(2))
qed (use run assms(3) in \<open>simp add: process_pending_def\<close>)

lemma margin_total:
  assumes "held p \<subseteq> listed (cx_registry c)"
  shows "\<exists>mr. margin c p = Inr mr"
proof -
  have greeks: "\<exists>g. greeks c i = Inr g" if "spec (cx_registry c) i = Inr sp" for i sp
    by (auto simp: greeks_def that Let_def split: option.splits)
  have "\<exists>g'. group_leg c l g = Inr g' \<and> True" if "l \<in> set (concat (map pos_legs (positions p)))" for l g
  proof (cases "live l")
    case True
    then have "leg_instrument l \<in> held p" using that by (auto intro: heldI)
    then obtain sp where sp: "spec (cx_registry c) (leg_instrument l) = Inr sp" using assms by (auto simp: listed_def)
    then obtain g' where "greeks c (leg_instrument l) = Inr g'" using greeks by blast
    then show ?thesis using True sp by (cases g') (auto simp: group_leg_def Let_def)
  qed (simp add: group_leg_def)
  then have "\<exists>gs. try_fold (group_leg c) (concat (map pos_legs (positions p))) [] = Inr gs \<and> True"
    by (intro try_fold_total [where P = "\<lambda>_. True"]) auto
  then show ?thesis by (auto simp: margin_def)
qed

context order_strategy
begin

lemma run_steps_held:
  assumes "try_fold (run_step S cfg sd c) ts st = Inr st'" and "pf_reach (rs_portfolio st)" and "ids_fit (rs_portfolio st')"
    and "held (rs_portfolio st) \<subseteq> listed (sd_registry sd)"
  shows "held (rs_portfolio st') \<subseteq> listed (sd_registry sd)"
  using assms
proof (induction ts arbitrary: st)
  case (Cons t ts)
  then obtain st1 where st1: "run_step S cfg sd c t st = Inr st1" "try_fold (run_step S cfg sd c) ts st1 = Inr st'"
    by (auto split: sum.splits)
  have fit: "ids_fit (rs_portfolio st1)" using run_steps_log(2) [OF st1(2)] Cons.prems(3) by linarith
  from st1(1) have "pf_reach (rs_portfolio st1) \<and> held (rs_portfolio st1) \<subseteq> listed (sd_registry sd)"
  proof (cases rule: run_step_books)
    case (1 p1)
    have "held p1 \<subseteq> listed (sd_registry sd)"
      using fills_held [OF pf_reach_ok [OF Cons.prems(2)] 1(1)] Cons.prems(4) by simp
    then show ?thesis
      using 1(2) 1(7) [OF pf_reach.step [OF Cons.prems(2) pf_step.filled [OF 1(1)]] fit] by (auto simp: asks_def)
  qed
  then show ?case using Cons.IH [OF st1(2)] Cons.prems(3) by blast
qed simp

lemma run_start_held:
  assumes "run_start S m cfg sd u sp = Inr st"
  shows "held (rs_portfolio st) = {}"
proof -
  obtain fills p0 s0 s p where new: "new_portfolio fills (execution_delay_nanos cfg) (rc_costs cfg) = Inr p0"
    and res: "st_resume S (run_ctx m cfg sd u sp) s0 p0 = Inr (s, p)" and st: "rs_portfolio st = p"
    using assms by (auto simp: run_start_def Let_def split: sum.splits option.splits)
  have "held p0 = {}" using new by (auto simp: held_def new_portfolio_def split: option.splits if_splits)
  then show ?thesis using order_steps_asks [OF orders_only [OF res]] by (simp add: st asks_def)
qed

lemma run_loop_margin:
  assumes run: "run_loop S m cfg sd u sp = Inr st" and fit: "ids_fit (rs_portfolio st)"
  shows "\<exists>r. run_session S m cfg sd u sp = Inr r \<and> trade_log r = trades (rs_portfolio st)"
proof -
  obtain st0 where st0: "run_start S m cfg sd u sp = Inr st0"
    and loop: "try_fold (run_step S cfg sd (run_ctx m cfg sd u sp)) (fst (session_steps sd)) st0 = Inr st"
    using run by (auto simp: run_loop_def split: sum.splits)
  have fit0: "ids_fit (rs_portfolio st0)" using run_steps_log(2) [OF loop] fit by linarith
  have "held (rs_portfolio st) \<subseteq> listed (sd_registry sd)"
    by (rule run_steps_held [OF loop run_start_inv(5) [OF st0 fit0] fit]) (simp add: run_start_held [OF st0])
  then have "\<exists>mr. margin (ctx_on (run_ctx m cfg sd u sp) sd (rs_now st)) (rs_portfolio st) = Inr mr"
    by (intro margin_total) (simp add: cx_registry_def ctx_on_def)
  then show ?thesis by (auto simp: run_session_def run Let_def)
qed

end

section \<open>Causal strategies\<close>

lemma sorted_split: "sorted xs \<Longrightarrow> xs = filter (\<lambda>x. x \<le> t) xs @ filter (\<lambda>x. \<not> x \<le> t) xs"
  for t :: "'a::linorder"
proof (induction xs)
  case (Cons x xs)
  show ?case
  proof (cases "x \<le> t")
    case False
    then have "\<forall>y \<in> set xs. \<not> y \<le> t" using Cons.prems by auto
    then have "filter (\<lambda>x. x \<le> t) xs = []" "filter (\<lambda>x. \<not> x \<le> t) xs = xs"
      by (auto simp: filter_empty_conv filter_id_conv)
    then show ?thesis using False by simp
  qed (use Cons in simp)
qed simp

text \<open>On sessions that agree up to the clock the strategy starts, waits and acts alike.\<close>

locale causal_strategy = order_strategy +
  assumes start_causal: "session_ok sd \<Longrightarrow> session_ok sd' \<Longrightarrow> same_upto t sd sd' \<Longrightarrow>
      st_start S (ctx_on c sd t) = st_start S (ctx_on c sd' t)"
    and resume_causal: "session_ok sd \<Longrightarrow> session_ok sd' \<Longrightarrow> same_upto t sd sd' \<Longrightarrow>
      st_resume S (ctx_on c sd t) s p = st_resume S (ctx_on c sd' t) s p"
    and pending_causal: "session_ok sd \<Longrightarrow> session_ok sd' \<Longrightarrow> same_upto t sd sd' \<Longrightarrow>
      cond_valid (st_pending S (ctx_on c sd t) s) = cond_valid (st_pending S (ctx_on c sd' t) s) \<and>
      cond_eval (st_pending S (ctx_on c sd t) s) \<lparr>ev_market = market sd t, ev_portfolio = p, ev_now = t\<rparr> =
      cond_eval (st_pending S (ctx_on c sd' t) s) \<lparr>ev_market = market sd' t, ev_portfolio = p, ev_now = t\<rparr>"
begin

lemma resume_loop_same:
  assumes "session_ok sd" and "session_ok sd'" and "same_upto t sd sd'"
  shows "resume_loop S mx (ctx_on c sd t) t g x = resume_loop S mx (ctx_on c sd' t) t g x"
proof (induction "nat (mx - g)" arbitrary: g x rule: less_induct)
  case less
  obtain s p e r where x: "x = (s, p, e, r)" by (cases x) auto
  note pend = pending_causal [OF assms, of c s p] and res = resume_causal [OF assms, of c s p]
  have mkt: "cx_market (ctx_on c sd t) = market sd t" "cx_market (ctx_on c sd' t) = market sd' t"
    by (simp_all add: ctx_on_def)
  have "resume_loop S mx (ctx_on c sd t) t (g + 1) y = resume_loop S mx (ctx_on c sd' t) t (g + 1) y"
    if "\<not> mx < g + 1" for y
    using less [of "g + 1"] that by simp
  then show ?case
    unfolding x resume_loop.simps [of S mx "ctx_on c sd t" t g] resume_loop.simps [of S mx "ctx_on c sd' t" t g]
      mkt conjunct1 [OF pend] conjunct2 [OF pend] res
    by (auto split: sum.splits bool.splits)
qed

lemma run_step_same:
  assumes "session_ok sd" and "session_ok sd'" and "same_upto t sd sd'"
  shows "run_step S cfg sd c t st = run_step S cfg sd' c t st"
proof (cases "t < rs_now st")
  case False
  have m: "market sd t = market sd' t" by (rule market_same_past [OF assms])
  have v: "margin (ctx_on c sd t) = margin (ctx_on c sd' t)" by (rule view_margin [OF ctx_on_view [OF assms]])
  have "sample_margin cfg (ctx_on c sd t) = sample_margin cfg (ctx_on c sd' t)"
    by (intro ext) (simp only: sample_margin_def v)
  then show ?thesis
    using False unfolding run_step_def by (simp only: advance_to_def if_False sum.case m resume_loop_same [OF assms])
qed (simp add: run_step_def advance_to_def)

lemma run_steps_same:
  assumes "session_ok sd" and "session_ok sd'" and "same_upto T sd sd'" and "\<forall>t \<in> set ts. t \<le> T"
  shows "try_fold (run_step S cfg sd c) ts st = try_fold (run_step S cfg sd' c) ts st"
  using assms(4)
proof (induction ts arbitrary: st)
  case (Cons t ts)
  have "run_step S cfg sd c t st = run_step S cfg sd' c t st"
    using Cons.prems by (intro run_step_same [OF assms(1,2) same_upto_earlier [OF assms(1-3)]]) simp
  then show ?case using Cons by (auto split: sum.splits)
qed simp

text \<open>The contexts of the two runs differ in nothing that re-pointing keeps.\<close>

lemma run_ctx_on: "sd_date sd = sd_date sd' \<Longrightarrow> ctx_on (run_ctx m cfg sd u sp) x t = ctx_on (run_ctx m cfg sd' u sp) x t"
  by (simp add: ctx_on_def run_ctx_def new_ctx_def)

lemma run_step_ctx: "sd_date sd = sd_date sd' \<Longrightarrow>
    run_step S cfg x (run_ctx m cfg sd u sp) = run_step S cfg x (run_ctx m cfg sd' u sp)"
  by (intro ext) (simp only: run_step_def run_ctx_on [of sd sd'])

lemma run_start_same:
  assumes "session_ok sd" and "session_ok sd'" and "same_upto T sd sd'" and "Timestamp 0 \<le> T"
  shows "run_start S m cfg sd u sp = run_start S m cfg sd' u sp"
proof -
  let ?c = "run_ctx m cfg sd u sp"
  have same: "same_upto (Timestamp 0) sd sd'" by (rule same_upto_earlier [OF assms])
  have "sd_date sd' = sd_date sd" using same by (simp add: same_upto_def)
  then have c: "run_ctx m cfg sd u sp = ctx_on ?c sd (Timestamp 0)" "run_ctx m cfg sd' u sp = ctx_on ?c sd' (Timestamp 0)"
    by (simp_all add: run_ctx_def ctx_on_def new_ctx_def)
  note starts = start_causal [OF assms(1,2) same, of ?c] and resumes = resume_causal [OF assms(1,2) same, of ?c]
  show ?thesis unfolding run_start_def c(2) by (subst (1) c(1)) (simp only: starts resumes Let_def)
qed

lemma clipped_loop:
  assumes ok: "session_ok sd" "after_epoch sd" and "Timestamp 0 \<le> T"
    and run: "run_loop S m cfg sd u sp = Inr st"
  obtains st' where "run_loop S m cfg (clip T sd) u sp = Inr st'"
    "trades (rs_portfolio st') = filter (\<lambda>t. fill_ts t \<le> T) (trades (rs_portfolio st))"
    "length (positions (rs_portfolio st')) \<le> length (positions (rs_portfolio st))"
proof -
  let ?run = "\<lambda>sd. run_step S cfg sd (run_ctx m cfg sd u sp)"
  define early late where el: "early = filter (\<lambda>t. t \<le> T) (distinct_times sd)" "late = filter (\<lambda>t. \<not> t \<le> T) (distinct_times sd)"
  have ok': "session_ok (clip T sd)" and same: "same_upto T sd (clip T sd)"
    using ok(1) by (simp_all add: clip_ok clip_same)
  have date: "sd_date sd = sd_date (clip T sd)" using same by (simp add: same_upto_def)
  have "sorted (distinct_times sd)" using distinct_times_laws(1) [OF ok(1)] by (simp add: strict_sorted_iff)
  then have split: "distinct_times sd = early @ late"
    unfolding el by (rule sorted_split)
  obtain st0 where st0: "run_start S m cfg sd u sp = Inr st0"
    and loop: "try_fold (?run sd) (early @ late) st0 = Inr st"
    using run by (auto simp: run_loop_def session_steps_distinct [OF ok] split split: sum.splits)
  obtain st1 where st1: "try_fold (?run sd) early st0 = Inr st1" "try_fold (?run sd) late st1 = Inr st"
    using loop by (auto simp: try_fold_append split: sum.splits)
  have "try_fold (?run (clip T sd)) early st0 = Inr st1"
    using st1(1) run_steps_same [OF ok(1) ok' same, of early cfg "run_ctx m cfg sd u sp" st0]
    by (simp add: el run_step_ctx [OF date])
  moreover have "fst (session_steps (clip T sd)) = early"
    by (simp add: session_steps_distinct ok' clip_after_epoch ok clip_times el)
  ultimately have run': "run_loop S m cfg (clip T sd) u sp = Inr st1"
    using st0 run_start_same [OF ok(1) ok' same assms(3)] by (simp add: run_loop_def)
  note log0 = run_steps_log [OF st1(1)] and log1 = run_steps_log [OF st1(2)]
  obtain new where new: "trades (rs_portfolio st) = trades (rs_portfolio st1) @ new" "\<forall>t \<in> set new. fill_ts t \<in> set late"
    using log1(1) by blast
  have "\<forall>t \<in> set (trades (rs_portfolio st1)). fill_ts t \<in> set early"
    using log0(1) run_start_inv(4) [OF st0] by auto
  then have "filter (\<lambda>t. fill_ts t \<le> T) (trades (rs_portfolio st1)) = trades (rs_portfolio st1)"
    by (auto simp: el filter_id_conv)
  moreover have "filter (\<lambda>t. fill_ts t \<le> T) new = []" using new(2) by (auto simp: el filter_empty_conv)
  ultimately show ?thesis using that [OF run'] new(1) log1(2) by simp
qed

end

section \<open>The short straddle is causal\<close>

lemma view_straddle_resume: "same_view c c' \<Longrightarrow> straddle_resume stop target c = straddle_resume stop target c'"
proof -
  assume v: "same_view c c'"
  have sells: "sell c = sell c'" by (simp add: sell_def view_place [OF v])
  have closes: "ctx_close c = ctx_close c'" by (intro ext) (simp only: ctx_close_def same_viewD(12) [OF v])
  have "straddle_enter stop target c = straddle_enter stop target c'"
    by (intro ext) (simp only: straddle_enter_def view_chain [OF v] view_straddle [OF v] view_at [OF v] sells)
  moreover have "straddle_exit c = straddle_exit c'"
    by (intro ext) (simp only: straddle_exit_def view_at [OF v] closes)
  ultimately show ?thesis by (intro ext) (simp only: straddle_resume_def view_at [OF v])
qed

interpretation straddling_causal: causal_strategy "short_straddle stop target"
proof
  fix sd sd' :: session_data and t c s p
  assume same: "session_ok sd" "session_ok sd'" "same_upto t sd sd'"
  show "st_start (short_straddle stop target) (ctx_on c sd t) = st_start (short_straddle stop target) (ctx_on c sd' t)"
    by (simp add: short_straddle_def)
  show "st_resume (short_straddle stop target) (ctx_on c sd t) s p = st_resume (short_straddle stop target) (ctx_on c sd' t) s p"
    using view_straddle_resume [OF ctx_on_view [OF same]] by (simp add: short_straddle_def)
  show "cond_valid (st_pending (short_straddle stop target) (ctx_on c sd t) s) =
      cond_valid (st_pending (short_straddle stop target) (ctx_on c sd' t) s) \<and>
    cond_eval (st_pending (short_straddle stop target) (ctx_on c sd t) s) \<lparr>ev_market = market sd t, ev_portfolio = p, ev_now = t\<rparr> =
    cond_eval (st_pending (short_straddle stop target) (ctx_on c sd' t) s) \<lparr>ev_market = market sd' t, ev_portfolio = p, ev_now = t\<rparr>"
    using market_same_past [OF same] by (simp add: short_straddle_def)
qed

interpretation buying_causal: causal_strategy buy_at_once
  by unfold_locales (simp_all add: buy_at_once_def ctx_on_def cx_now_def cond_valid_def cond_eval_def)

section \<open>The sampling loop\<close>

lemma draw_cutoffs_ends:
  assumes draws: "\<forall>i < length obs. \<exists>k < K. draw k = i" and range: "\<forall>k. draw k < length obs"
    and "distinct obs" and "om_ok chosen" and "fst ` set chosen \<subseteq> nanos ` set obs"
    and "\<forall>j < k. nanos (obs ! draw j) \<in> fst ` set chosen"
  shows "\<exists>out. draw_cutoffs draw obs cutoffs k chosen = Some out \<and> fst ` set out \<subseteq> nanos ` set obs \<and>
    min cutoffs (int (length obs)) \<le> int (length out)"
  using assms(4-)
proof (induction "K - k" arbitrary: k chosen rule: less_induct)
  case less
  define c1 where "c1 = om_put (nanos (obs ! draw k)) () chosen"
  have keys: "fst ` set c1 = insert (nanos (obs ! draw k)) (fst ` set chosen)"
    using set_om_put [of "nanos (obs ! draw k)" "()" chosen] by (simp add: c1_def)
  have c1: "om_ok c1" "fst ` set c1 \<subseteq> nanos ` set obs" using less.prems(1,2) range by (auto simp: keys) (simp add: c1_def)
  have seen: "\<forall>j < Suc k. nanos (obs ! draw j) \<in> fst ` set c1" using less.prems(3) by (auto simp: keys less_Suc_eq)
  show ?case
  proof (cases "int (length chosen) < cutoffs \<and> \<not> length obs \<le> length c1")
    case True
    have "k < K"
    proof (rule ccontr)
      assume "\<not> k < K"
      then have "\<forall>i < length obs. nanos (obs ! i) \<in> fst ` set c1"
        using draws seen by (metis less_SucI linorder_not_less order_less_le_trans)
      then have "nanos ` set obs \<subseteq> fst ` set c1" by (auto simp: in_set_conv_nth)
      then have "card (nanos ` set obs) \<le> card (fst ` set c1)" by (intro card_mono) auto
      moreover have "inj_on nanos (set obs)" by (auto simp: inj_on_def intro: timestamp.expand)
      then have "card (nanos ` set obs) = length obs" using assms(3) by (simp add: card_image distinct_card)
      moreover have "card (fst ` set c1) \<le> length c1" by (metis card_length length_map list.set_map)
      ultimately show False using True by linarith
    qed
    then have "K - Suc k < K - k" by simp
    from less.hyps [OF this c1 seen] show ?thesis
      using True by (subst draw_cutoffs.simps) (simp add: c1_def [symmetric] Let_def)
  next
    case False
    then show ?thesis using c1(2) less.prems(2)
      by (subst draw_cutoffs.simps) (auto simp: c1_def [symmetric] Let_def)
  qed
qed

lemma near_fills_keys:
  "om_ok chosen \<Longrightarrow> fst ` set chosen \<subseteq> nanos ` set obs \<Longrightarrow>
   om_ok (fold (near_fill obs) ts chosen) \<and> fst ` set (fold (near_fill obs) ts chosen) \<subseteq> nanos ` set obs"
proof (induction ts arbitrary: chosen)
  case (Cons t ts)
  have put: "fst ` set (om_put x () c) = insert x (fst ` set c)" for x and c :: "(int \<times> unit) list"
    using set_om_put [of x "()" c] by simp
  have "lower_bound obs (fill_ts t) - 1 < length obs" if "lower_bound obs (fill_ts t) \<noteq> 0"
    using that bsearch_le [of "\<lambda>x. \<not> x < fill_ts t" obs 0 "length obs"] by (simp add: lower_bound_def)
  then have "fst ` set (near_fill obs t chosen) \<subseteq> nanos ` set obs" "om_ok (near_fill obs t chosen)"
    using Cons.prems by (auto simp: near_fill_def Let_def put)
  then show ?case using Cons.IH by simp
qed simp

text \<open>Draws that reach every index reach them all within some number of draws.\<close>

lemma cutoffs_chosen:
  assumes "\<forall>k. draw k < length obs" and "\<forall>i < length obs. \<exists>k. draw k = i" and "distinct obs"
    and "om_ok chosen \<and> fst ` set chosen \<subseteq> nanos ` set obs"
  shows "\<exists>out. draw_cutoffs draw obs cutoffs 0 chosen = Some out \<and> fst ` set out \<subseteq> nanos ` set obs \<and>
    min cutoffs (int (length obs)) \<le> int (length out)"
proof -
  obtain pos where draw: "\<forall>i < length obs. draw (pos i) = i" using assms(2) by metis
  define K where "K = Suc (Max (insert 0 (pos ` {..<length obs})))"
  have "pos i < K" if "i < length obs" for i using that by (auto simp: K_def less_Suc_eq_le intro!: Max_ge)
  then have "\<forall>i < length obs. \<exists>k < K. draw k = i" using draw by blast
  then show ?thesis using draw_cutoffs_ends [of obs K draw chosen 0 cutoffs] assms by simp
qed

lemma observed_times_distinct: "session_ok sd \<Longrightarrow> after_epoch sd \<Longrightarrow> observed_times sd = distinct_times sd"
proof -
  assume ok: "session_ok sd" "after_epoch sd"
  let ?sd = "sd\<lparr>sd_timeline := []\<rparr>"
  have ev: "all_events ?sd = all_events sd" by (simp add: all_events_def)
  have "session_ok ?sd" using ok(1) by (simp add: session_ok_def ev)
  moreover have "after_epoch ?sd" using ok(2) by (simp add: after_epoch_def ev)
  ultimately have "session_steps ?sd = (distinct_times ?sd, length (all_events ?sd))" by (rule session_steps_distinct)
  moreover have "drain (event_cursor ?sd) = drain (event_cursor sd)"
    using drain_sorted_events [OF ok(1)] drain_sorted_events [OF \<open>session_ok ?sd\<close>] ev by simp
  moreover have "distinct_times ?sd = distinct_times sd" by (simp add: distinct_times_def ev)
  ultimately show ?thesis by (simp add: session_steps_def observed_times_def)
qed

section \<open>The check\<close>

lemma clipped_logs:
  assumes "causal_strategy S" and "session_ok sd" and "after_epoch sd"
    and "run_loop S m cfg sd u sp = Inr st" and "ids_fit (rs_portfolio st)" and "Timestamp 0 \<le> T"
  shows "\<exists>full part. run_session S m cfg sd u sp = Inr full \<and>
    run_session S m cfg (truncated_data (truncated_session sd T)) u sp = Inr part \<and>
    trade_log part = filter (\<lambda>t. fill_ts t \<le> T) (trade_log full)"
proof -
  have S: "order_strategy S" using assms(1) by (simp add: causal_strategy_def)
  obtain st' where st': "run_loop S m cfg (clip T sd) u sp = Inr st'"
    "trades (rs_portfolio st') = filter (\<lambda>t. fill_ts t \<le> T) (trades (rs_portfolio st))"
    "length (positions (rs_portfolio st')) \<le> length (positions (rs_portfolio st))"
    by (rule causal_strategy.clipped_loop [OF assms(1-3,6,4)])
  obtain full where "run_session S m cfg sd u sp = Inr full" "trade_log full = trades (rs_portfolio st)"
    using order_strategy.run_loop_margin [OF S assms(4,5)] by blast
  moreover have "ids_fit (rs_portfolio st')" using st'(3) assms(5) by linarith
  then obtain part where "run_session S m cfg (clip T sd) u sp = Inr part" "trade_log part = trades (rs_portfolio st')"
    using order_strategy.run_loop_margin [OF S st'(1)] by blast
  ultimately show ?thesis using st'(2) by auto
qed

lemma causal_check:
  assumes "causal_strategy S" and "session_ok sd" and "after_epoch sd"
    and "run_loop S m cfg sd u sp = Inr st" and "ids_fit (rs_portfolio st)"
    and "\<forall>k. draw k < length (distinct_times sd)" and "\<forall>i < length (distinct_times sd). \<exists>k. draw k = i"
  shows "\<exists>rep. check_lookahead S m cfg sd u sp cutoffs draw = Some (Inr rep) \<and> clean rep \<and> violations rep = [] \<and>
    (2 \<le> length (distinct_times sd) \<longrightarrow> min cutoffs (int (length (distinct_times sd))) \<le> int (cutoffs_tested rep))"
proof -
  let ?obs = "distinct_times sd"
  note clipped = clipped_logs [OF assms(1-5)]
  obtain full where full: "run_session S m cfg sd u sp = Inr full"
    using clipped [of "Timestamp 0"] by auto
  have obs: "observed_times sd = ?obs"
    by (rule observed_times_distinct [OF assms(2,3)])
  have step: "\<exists>rep'. compare_at S m cfg sd u sp full ns rep = Inr rep' \<and> clean rep' \<and> violations rep' = [] \<and>
      cutoffs_tested rep' = Suc (cutoffs_tested rep)"
    if ns: "ns \<in> nanos ` set ?obs" and rep: "clean rep \<and> violations rep = []" for ns rep
  proof -
    have "Timestamp 0 \<le> Timestamp ns" using ns assms(2,3) by (auto simp: after_epoch_times less_timestamp_def less_eq_timestamp_def)
    from clipped [OF this] full obtain part where part: "run_session S m cfg (clip (Timestamp ns) sd) u sp = Inr part"
      "trade_log part = filter (\<lambda>t. fill_ts t \<le> Timestamp ns) (trade_log full)" by auto
    have "find (\<lambda>(a, b). \<not> same_trade a b) (zip xs xs) = None" for xs
      by (auto simp: find_None_iff same_trade_def in_set_zip)
    then show ?thesis using rep
      by (cases "tr_kept (truncated_session sd (Timestamp ns)) = []") (simp_all add: compare_at_def part Let_def)
  qed
  have steps: "\<exists>rep'. try_fold (compare_at S m cfg sd u sp full) xs rep = Inr rep' \<and> clean rep' \<and> violations rep' = [] \<and>
      cutoffs_tested rep' = cutoffs_tested rep + length xs"
    if "set xs \<subseteq> nanos ` set ?obs" and "clean rep \<and> violations rep = []" for xs rep
    using that
  proof (induction xs arbitrary: rep)
    case (Cons x xs)
    obtain rep1 where "compare_at S m cfg sd u sp full x rep = Inr rep1" "clean rep1 \<and> violations rep1 = []"
      "cutoffs_tested rep1 = Suc (cutoffs_tested rep)"
      using step [of x rep] Cons.prems by auto
    then show ?case using Cons.IH [of rep1] Cons.prems(1) by auto
  qed auto
  show ?thesis
  proof (cases "length ?obs < 2")
    case True
    then show ?thesis by (simp add: check_lookahead_def full obs Let_def empty_report_def)
  next
    case False
    have "distinct ?obs" using distinct_times_laws(1) [OF assms(2)] by (simp add: strict_sorted_iff)
    then have "\<exists>out. draw_cutoffs draw ?obs cutoffs 0 (fold (near_fill ?obs) (trade_log full) []) = Some out \<and>
        fst ` set out \<subseteq> nanos ` set ?obs \<and> min cutoffs (int (length ?obs)) \<le> int (length out)"
      by (rule cutoffs_chosen [OF assms(6,7) _ near_fills_keys]) simp_all
    then obtain out where out: "draw_cutoffs draw ?obs cutoffs 0 (fold (near_fill ?obs) (trade_log full) []) = Some out"
      "fst ` set out \<subseteq> nanos ` set ?obs" "min cutoffs (int (length ?obs)) \<le> int (length out)"
      by blast
    obtain rep where "try_fold (compare_at S m cfg sd u sp full) (map fst out) empty_report = Inr rep" "clean rep"
      "violations rep = []" "cutoffs_tested rep = length out"
      using steps [of "map fst out" empty_report] out(2) by (auto simp: empty_report_def)
    then show ?thesis using False out(3) by (simp add: check_lookahead_def full obs out(1) Let_def)
  qed
qed

section \<open>Properties\<close>

text \<open>C22: the theorem of \<open>lookahead.hpp\<close>.  For a strategy that trades through the context and reads
  nothing later than its clock, on every session after the epoch and at every cutoff \<open>T\<close> after the
  epoch, the run on the session clipped at \<open>T\<close> also completes, and its trade log is exactly the
  part of the full run's log that was filled by \<open>T\<close>: same trades, signals, fills, prices and costs.\<close>

theorem clipped_run_has_the_same_trades:
  assumes "causal_strategy S" and "session_ok sd" and "after_epoch sd"
    and "run_loop S m cfg sd u sp = Inr st" and "ids_fit (rs_portfolio st)" and "Timestamp 0 \<le> T"
  shows "\<exists>full part. run_session S m cfg sd u sp = Inr full \<and>
    run_session S m cfg (truncated_data (truncated_session sd T)) u sp = Inr part \<and>
    trade_log part = filter (\<lambda>t. fill_ts t \<le> T) (trade_log full)"
  using assms by (rule clipped_logs)

theorem clipped_run_has_the_same_trades_witness:
  "\<exists>full part. run_session buy_at_once flat_libm free_config future_session (UnderlyingId 0) (InstrumentId 0) = Inr full \<and>
     run_session buy_at_once flat_libm free_config
       (truncated_data (truncated_session future_session (Timestamp 15))) (UnderlyingId 0) (InstrumentId 0) = Inr part \<and>
     trade_log part = filter (\<lambda>t. fill_ts t \<le> Timestamp 15) (trade_log full)"
proof -
  obtain st where st: "run_loop buy_at_once flat_libm free_config future_session (UnderlyingId 0) (InstrumentId 0) = Inr st"
    "map (\<lambda>p. map leg_instrument (pos_legs p)) (positions (rs_portfolio st)) = [[InstrumentId 0]]"
    using future_run by (elim exE conjE) (rule that)
  have "ids_fit (rs_portfolio st)" using arg_cong [OF st(2), of length] by simp
  from clipped_run_has_the_same_trades [OF buying_causal.causal_strategy_axioms future_ok st(1) this, of "Timestamp 15"]
  show ?thesis by (simp add: less_eq_timestamp_def)
qed

text \<open>What the check is to find at a cutoff: the run on the clipped session, if it keeps any instrument,
  completes with a log that agrees with the part of the full log filled by then, trade by trade.\<close>

definition agrees_at ::
    "'s strategy \<Rightarrow> libm \<Rightarrow> run_config \<Rightarrow> session_data \<Rightarrow> underlying_id \<Rightarrow> instrument_id \<Rightarrow> run_result \<Rightarrow> timestamp \<Rightarrow> bool" where
  "agrees_at S m cfg sd u sp full T \<longleftrightarrow> tr_kept (truncated_session sd T) = [] \<or>
     (\<exists>part. run_session S m cfg (truncated_data (truncated_session sd T)) u sp = Inr part \<and>
       list_all2 (\<lambda>a b. signal_ts a = signal_ts b \<and> fill_ts a = fill_ts b \<and> t_instrument a = t_instrument b \<and>
           t_side a = t_side b \<and> t_qty a = t_qty b \<and> t_price a = t_price b)
         (filter (\<lambda>t. fill_ts t \<le> T) (trade_log full)) (trade_log part))"

lemma same_trades_iff:
  "list_all2 (\<lambda>a b. signal_ts a = signal_ts b \<and> fill_ts a = fill_ts b \<and> t_instrument a = t_instrument b \<and>
      t_side a = t_side b \<and> t_qty a = t_qty b \<and> t_price a = t_price b) xs ys \<longleftrightarrow>
    length xs = length ys \<and> find (\<lambda>(a, b). \<not> same_trade a b) (zip xs ys) = None"
  by (auto simp: list_all2_iff find_None_iff same_trade_def)

lemma compare_at_exact:
  assumes "compare_at S m cfg sd u sp full ns rep = Inr rep'" and "clean rep \<longleftrightarrow> violations rep = []"
  shows "cutoffs_tested rep' = Suc (cutoffs_tested rep) \<and> (clean rep' \<longleftrightarrow> violations rep' = []) \<and>
    map fst (violations rep') = map fst (violations rep) @ filter (\<lambda>T. \<not> agrees_at S m cfg sd u sp full T) [Timestamp ns]"
proof (cases "tr_kept (truncated_session sd (Timestamp ns)) = []")
  case True
  then show ?thesis using assms by (auto simp: compare_at_def agrees_at_def Let_def)
next
  case False
  then obtain part where part: "run_session S m cfg (clip (Timestamp ns) sd) u sp = Inr part"
    using assms(1) by (auto simp: compare_at_def Let_def split: sum.splits)
  let ?e = "filter (\<lambda>t. fill_ts t \<le> Timestamp ns) (trade_log full)"
  have "agrees_at S m cfg sd u sp full (Timestamp ns) \<longleftrightarrow>
      length (trade_log part) = length ?e \<and> find (\<lambda>(a, b). \<not> same_trade a b) (zip ?e (trade_log part)) = None"
    using False part by (auto simp: agrees_at_def same_trades_iff)
  then show ?thesis using assms False part
    by (cases "find (\<lambda>(a, b). \<not> same_trade a b) (zip ?e (trade_log part))") (auto simp: compare_at_def Let_def split: if_splits)
qed

lemma compare_all_exact:
  assumes "try_fold (compare_at S m cfg sd u sp full) xs rep = Inr rep'" and "clean rep \<longleftrightarrow> violations rep = []"
  shows "cutoffs_tested rep' = cutoffs_tested rep + length xs \<and> (clean rep' \<longleftrightarrow> violations rep' = []) \<and>
    map fst (violations rep') = map fst (violations rep) @ filter (\<lambda>T. \<not> agrees_at S m cfg sd u sp full T) (map Timestamp xs)"
  using assms
proof (induction xs arbitrary: rep)
  case (Cons x xs)
  then obtain r where r: "compare_at S m cfg sd u sp full x rep = Inr r" "try_fold (compare_at S m cfg sd u sp full) xs r = Inr rep'"
    by (auto split: sum.splits)
  note one = compare_at_exact [OF r(1) Cons.prems(2)]
  then show ?case using Cons.IH [OF r(2)] by simp
qed simp

text \<open>Which cutoffs are tested: never fewer than were chosen near the fills.\<close>

lemma draw_cutoffs_grows:
  assumes "draw_cutoffs draw obs cutoffs k chosen = Some out" and "om_ok chosen"
    and "fst ` set chosen \<subseteq> nanos ` set obs" and "\<forall>k. draw k < length obs"
  shows "om_ok out \<and> fst ` set chosen \<subseteq> fst ` set out \<and> fst ` set out \<subseteq> nanos ` set obs"
proof -
  have "om_ok chosen \<Longrightarrow> fst ` set chosen \<subseteq> nanos ` set obs \<Longrightarrow>
      om_ok out \<and> fst ` set chosen \<subseteq> fst ` set out \<and> fst ` set out \<subseteq> nanos ` set obs"
    using assms(4)
  proof (induction rule: draw_cutoffs.raw_induct [OF _ assms(1)])
    case (1 loop draw obs cutoffs k chosen out)
    define c where "c = om_put (nanos (obs ! draw k)) () chosen"
    have put: "fst ` set c = insert (nanos (obs ! draw k)) (fst ` set chosen)"
      using set_om_put [of "nanos (obs ! draw k)" "()" chosen] by (simp add: c_def)
    have c: "om_ok c" "fst ` set c \<subseteq> nanos ` set obs" using 1(3-5) by (auto simp: put) (simp add: c_def)
    show ?case
    proof (cases "int (length chosen) < cutoffs \<and> \<not> length obs \<le> length c")
      case True
      then have "loop draw obs cutoffs (k + 1) c = Some out" using 1(2) by (simp add: c_def Let_def)
      then show ?thesis using 1(1) [OF _ c 1(5)] put by auto
    next
      case False
      then have "out = c \<or> out = chosen" using 1(2) by (auto simp: c_def Let_def split: if_splits)
      moreover have "fst ` set chosen \<subseteq> fst ` set c" unfolding put by (rule subset_insertI)
      ultimately show ?thesis using c 1(3,4) by (metis subset_refl)
    qed
  qed
  then show ?thesis using assms by blast
qed

lemma lower_bound_nth:
  assumes "sorted_wrt (<) obs" and "k < length obs"
  shows "lower_bound obs (obs ! k) = k"
proof -
  have "takeWhile (\<lambda>x. x < obs ! k) obs = take k obs"
    using assms by (intro takeWhile_eq_take_P_nth) (auto intro: sorted_wrt_nth_less)
  then show ?thesis using assms by (simp add: lower_bound_sorted strict_sorted_imp_sorted)
qed

lemma near_fills_chosen:
  assumes "sorted_wrt (<) obs" and "k < length obs" and "t \<in> set ts" and "fill_ts t = obs ! k"
  shows "nanos (obs ! k) \<in> fst ` set (fold (near_fill obs) ts chosen) \<and>
    (0 < k \<longrightarrow> nanos (obs ! (k - 1)) \<in> fst ` set (fold (near_fill obs) ts chosen))"
proof -
  have put: "fst ` set (om_put x () c) = insert x (fst ` set c)" for x and c :: "(int \<times> unit) list"
    using set_om_put [of x "()" c] by simp
  have more: "fst ` set c \<subseteq> fst ` set (near_fill obs t c)" for t c by (auto simp: near_fill_def Let_def put)
  have mores: "fst ` set c \<subseteq> fst ` set (fold (near_fill obs) ts c)" for ts c
    by (induction ts arbitrary: c) (simp, metis fold_simps(2) more subset_trans)
  obtain us vs where ts: "ts = us @ t # vs" using assms(3) by (auto dest: split_list)
  let ?c = "near_fill obs t (fold (near_fill obs) us chosen)"
  have "lower_bound obs (fill_ts t) = k" using assms(4) lower_bound_nth [OF assms(1,2)] by simp
  then have "nanos (obs ! k) \<in> fst ` set ?c \<and> (0 < k \<longrightarrow> nanos (obs ! (k - 1)) \<in> fst ` set ?c)"
    using assms(2) by (auto simp: near_fill_def Let_def put)
  then show ?thesis using mores [of ?c vs] by (auto simp: ts simp del: image_subset_iff)
qed

lemma check_verdict:
  assumes "session_ok sd" and "after_epoch sd" and "\<forall>k. draw k < length (distinct_times sd)"
    and "check_lookahead S m cfg sd u sp cutoffs draw = Some (Inr rep)"
  shows "\<exists>full tested. run_session S m cfg sd u sp = Inr full \<and> length tested = cutoffs_tested rep \<and>
    sorted_wrt (<) tested \<and> set tested \<subseteq> set (distinct_times sd) \<and>
    (2 \<le> length (distinct_times sd) \<longrightarrow> (\<forall>t \<in> set (trade_log full). \<forall>k < length (distinct_times sd).
       distinct_times sd ! k = fill_ts t \<longrightarrow>
         distinct_times sd ! k \<in> set tested \<and> (0 < k \<longrightarrow> distinct_times sd ! (k - 1) \<in> set tested))) \<and>
    (clean rep \<longleftrightarrow> (\<forall>T \<in> set tested. agrees_at S m cfg sd u sp full T)) \<and>
    map fst (violations rep) = filter (\<lambda>T. \<not> agrees_at S m cfg sd u sp full T) tested"
proof -
  let ?obs = "distinct_times sd"
  have obs: "observed_times sd = ?obs" by (rule observed_times_distinct [OF assms(1,2)])
  have sorted: "sorted_wrt (<) ?obs" by (rule distinct_times_laws(1) [OF assms(1)])
  obtain full where full: "run_session S m cfg sd u sp = Inr full"
    using assms(4) by (auto simp: check_lookahead_def split: sum.splits)
  show ?thesis
  proof (cases "length ?obs < 2")
    case True
    then have "rep = empty_report" using assms(4) by (simp add: check_lookahead_def full obs Let_def)
    then show ?thesis using True full by (intro exI [of _ full] exI [of _ "[]"]) (simp add: empty_report_def)
  next
    case False
    define near where "near = fold (near_fill ?obs) (trade_log full) []"
    obtain out where out: "draw_cutoffs draw ?obs cutoffs 0 near = Some out"
      "try_fold (compare_at S m cfg sd u sp full) (map fst out) empty_report = Inr rep"
      using assms(4) False by (auto simp: check_lookahead_def full obs Let_def near_def split: option.splits)
    have "om_ok near \<and> fst ` set near \<subseteq> nanos ` set ?obs" unfolding near_def by (rule near_fills_keys) simp_all
    then have grown: "om_ok out" "fst ` set near \<subseteq> fst ` set out" "fst ` set out \<subseteq> nanos ` set ?obs"
      using draw_cutoffs_grows [OF out(1) _ _ assms(3)] by simp_all
    define tested where "tested = map Timestamp (map fst out)"
    have tested: "T \<in> set tested \<longleftrightarrow> nanos T \<in> fst ` set out" for T
      by (cases T) (force simp: tested_def)
    have asc: "sorted_wrt (<) tested" using grown(1) by (simp add: tested_def om_ok_def sorted_wrt_map less_timestamp_def)
    have times: "set tested \<subseteq> set ?obs"
    proof
      fix T assume "T \<in> set tested"
      then have "nanos T \<in> nanos ` set ?obs" using grown(3) tested by blast
      then show "T \<in> set ?obs" by (auto dest: timestamp.expand)
    qed
    have fills: "?obs ! k \<in> set tested \<and> (0 < k \<longrightarrow> ?obs ! (k - 1) \<in> set tested)"
      if "t \<in> set (trade_log full)" "k < length ?obs" "?obs ! k = fill_ts t" for t k
      using near_fills_chosen [OF sorted that(2,1) that(3) [symmetric], of "[]"] grown(2)
      unfolding tested near_def by blast
    have "clean empty_report \<longleftrightarrow> violations empty_report = []" by (simp add: empty_report_def)
    note exact = compare_all_exact [OF out(2) this]
    have found: "map fst (violations rep) = filter (\<lambda>T. \<not> agrees_at S m cfg sd u sp full T) tested"
      using exact by (simp add: empty_report_def tested_def)
    have "clean rep \<longleftrightarrow> filter (\<lambda>T. \<not> agrees_at S m cfg sd u sp full T) tested = []"
      unfolding found [symmetric] map_is_Nil_conv using exact by blast
    then have verdict: "clean rep \<longleftrightarrow> (\<forall>T \<in> set tested. agrees_at S m cfg sd u sp full T)"
      by (simp add: filter_empty_conv)
    have "length tested = cutoffs_tested rep" using exact by (simp add: empty_report_def tested_def)
    with full asc times fills found verdict show ?thesis by blast
  qed
qed

text \<open>C23: the look-ahead check is exact, on a well-formed session whose times are after the epoch and for
  draws that are indices into its times.  For any strategy: a check that returns has run the strategy
  on the full session and tested distinct times of the session in ascending order, with two times or
  more the time of every fill and the time before it among them; its report is clean exactly when at
  every cutoff tested the clipped run agrees with the full log up to there, trade by trade, and the
  violations are recorded exactly at the cutoffs where it does not.  For a causal strategy whose full
  run completes without exhausting the ids, when the draws eventually reach every index: the check
  returns, for every number of cutoffs, after testing at least that many or all times there are (none
  in a session of fewer than two), and its report is clean.\<close>

theorem causal_strategies_pass_the_check:
  assumes "session_ok sd" and "after_epoch sd" and "\<forall>k. draw k < length (distinct_times sd)"
  shows "(\<forall>rep. check_lookahead S' m cfg sd u sp cutoffs draw = Some (Inr rep) \<longrightarrow>
      (\<exists>full tested. run_session S' m cfg sd u sp = Inr full \<and> length tested = cutoffs_tested rep \<and>
        sorted_wrt (<) tested \<and> set tested \<subseteq> set (distinct_times sd) \<and>
        (2 \<le> length (distinct_times sd) \<longrightarrow> (\<forall>t \<in> set (trade_log full). \<forall>k < length (distinct_times sd).
           distinct_times sd ! k = fill_ts t \<longrightarrow>
             distinct_times sd ! k \<in> set tested \<and> (0 < k \<longrightarrow> distinct_times sd ! (k - 1) \<in> set tested))) \<and>
        (clean rep \<longleftrightarrow> (\<forall>T \<in> set tested. agrees_at S' m cfg sd u sp full T)) \<and>
        map fst (violations rep) = filter (\<lambda>T. \<not> agrees_at S' m cfg sd u sp full T) tested)) \<and>
    (causal_strategy S \<and> (\<exists>st. run_loop S m cfg sd u sp = Inr st \<and> ids_fit (rs_portfolio st)) \<and>
      (\<forall>i < length (distinct_times sd). \<exists>k. draw k = i) \<longrightarrow>
      (\<exists>rep. check_lookahead S m cfg sd u sp cutoffs draw = Some (Inr rep) \<and> clean rep \<and> violations rep = [] \<and>
        (2 \<le> length (distinct_times sd) \<longrightarrow> min cutoffs (int (length (distinct_times sd))) \<le> int (cutoffs_tested rep))))"
  using check_verdict [OF assms] causal_check [OF _ assms(1,2) _ _ assms(3)] by blast

theorem causal_strategies_pass_the_check_witness:
  "\<exists>rep. check_lookahead buy_at_once flat_libm free_config future_session (UnderlyingId 0) (InstrumentId 0) 40 (\<lambda>k. k mod 3) =
     Some (Inr rep) \<and> clean rep"
proof -
  obtain st where st: "run_loop buy_at_once flat_libm free_config future_session (UnderlyingId 0) (InstrumentId 0) = Inr st"
    "map (\<lambda>p. map leg_instrument (pos_legs p)) (positions (rs_portfolio st)) = [[InstrumentId 0]]"
    using future_run by (elim exE conjE) (rule that)
  have fit: "ids_fit (rs_portfolio st)" using arg_cong [OF st(2), of length] by simp
  have "sd_timeline future_session = [Timestamp 10, Timestamp 20, Timestamp 30]" by (simp add: future_session_def)
  then have "distinct_times future_session = [Timestamp 10, Timestamp 20, Timestamp 30]"
    using session_okD(6) [OF future_ok(1)] by auto
  then have n: "length (distinct_times future_session) = 3" by simp
  have "\<forall>k. k mod 3 < length (distinct_times future_session)"
    "\<forall>i < length (distinct_times future_session). \<exists>k. k mod 3 = i"
    by (auto simp: n) (metis mod_less)
  with causal_strategies_pass_the_check [OF future_ok this(1), of buy_at_once flat_libm free_config "UnderlyingId 0" "InstrumentId 0" 40 buy_at_once]
  show ?thesis using buying_causal.causal_strategy_axioms st(1) fit by blast
qed

end
