(* ===== verification/Backtest.thy ===== *)
theory Backtest
  imports LookaheadLaws
begin

text \<open>
  \<open>backtest.hpp\<close> and \<open>backtest.cpp\<close>: one strategy over many sessions.  Clock, portfolio, context and
  coroutine outlive a session; at the end of each the expired contracts are settled and the day
  orders withdrawn.
\<close>

section \<open>Configuration and result\<close>

datatype expiry_handling = Settle | Forbid

record backtest_config =
  bc_run :: run_config
  bc_expiry :: expiry_handling
  settlement_second_of_day :: int

definition default_backtest_config :: backtest_config where
  "default_backtest_config =
     \<lparr>bc_run = default_run_config, bc_expiry = Settle, settlement_second_of_day = 15 * 3600 + 30 * 60\<rparr>"

record session_summary =
  ss_date :: date
  realized_to_date :: money
  costs_to_date :: money
  ss_equity :: money
  ss_peak_margin :: money
  ss_trades :: nat
  ss_settled_legs :: nat
  ss_open_positions :: nat

record backtest_result =
  br_sessions :: "date list"
  br_realized :: money
  br_costs :: money
  br_net_realized :: money
  br_unrealized :: money
  br_final_equity :: money
  br_peak_margin :: money
  br_observations :: nat
  br_steps :: nat
  br_resumes :: nat
  br_trades :: nat
  br_settled_legs :: nat
  br_illiquid_fills :: nat
  br_oversized_fills :: nat
  br_cancelled_orders :: nat
  br_open_positions :: nat
  br_strategy_finished :: bool
  br_trade_log :: "trade_record list"
  daily :: "session_summary list"

definition empty_result :: backtest_result where
  "empty_result =
     \<lparr>br_sessions = [], br_realized = 0, br_costs = 0, br_net_realized = 0, br_unrealized = 0,
      br_final_equity = 0, br_peak_margin = 0, br_observations = 0, br_steps = 0, br_resumes = 0,
      br_trades = 0, br_settled_legs = 0, br_illiquid_fills = 0, br_oversized_fills = 0,
      br_cancelled_orders = 0, br_open_positions = 0, br_strategy_finished = False,
      br_trade_log = [], daily = []\<rparr>"

text \<open>The interface \<open>DataSource\<close>: the record of its virtual functions; a load may throw, and gives the
  same session for the same date.\<close>

record data_source =
  ds_sessions :: "date list"
  ds_load :: "date \<Rightarrow> exn + session_data option"

section \<open>Settlement\<close>

text \<open>The loop over the later expiries.\<close>

fun later_forward :: "ctx \<Rightarrow> date \<Rightarrow> date list \<Rightarrow> dbl option" where
  "later_forward c ex [] = None"
| "later_forward c ex (d # ds) =
     (if d \<le> ex then later_forward c ex ds
      else case forward c d of Some f \<Rightarrow> Some f | None \<Rightarrow> later_forward c ex ds)"

definition settlement_level :: "ctx \<Rightarrow> instrument_id \<Rightarrow> date \<Rightarrow> dbl option" where
  "settlement_level c sp ex =
     (let parity = (case forward c ex of Some f \<Rightarrow> Some f | None \<Rightarrow> later_forward c ex (ctx_expiries c))
      in if valid sp then
           (case latest (cx_market c) sp of
              Some q \<Rightarrow> if 0 < minor (q_last q) then Some (price_to_double (q_last q)) else parity
            | None \<Rightarrow> parity)
         else parity)"

text \<open>One iteration over the legs; the \<open>std::set\<close> of expiries is an ordered map to unit.\<close>

definition due_leg :: "registry \<Rightarrow> date \<Rightarrow> leg \<Rightarrow> (int \<times> unit) list \<Rightarrow> exn + (int \<times> unit) list" where
  "due_leg reg today l due =
     (if \<not> live l then Inr due
      else case spec reg (leg_instrument l) of
        Inl e \<Rightarrow> Inl e
      | Inr sp \<Rightarrow>
          if \<not> is_option sp \<or> \<not> date_valid (expiry sp) then Inr due
          else if expiry sp \<le> today then Inr (om_put (yyyymmdd (expiry sp)) () due)
          else Inr due)"

definition due_expiries :: "portfolio \<Rightarrow> registry \<Rightarrow> date \<Rightarrow> exn + (int \<times> unit) list" where
  "due_expiries p reg today = try_fold (due_leg reg today) (concat (map pos_legs (positions p))) []"

text \<open>One iteration of the settling loop of a session; the state is the portfolio and \<open>settled_today\<close>.\<close>

definition settle_due ::
    "expiry_handling \<Rightarrow> ctx \<Rightarrow> instrument_id \<Rightarrow> int \<Rightarrow> portfolio \<times> nat \<Rightarrow> exn + portfolio \<times> nat" where
  "settle_due handling c sp key = (\<lambda>(p, settled_today).
     if handling = Forbid
     then Inl (RuntimeError ''a position was still open at expiry and ExpiryHandling::Forbid is set'')
     else case settlement_level c sp (Date key) of
       None \<Rightarrow> Inl (RuntimeError ''cannot settle expiry: no underlying level and no parity forward available'')
     | Some level \<Rightarrow>
         (case settle_expiry (cx_market c) (Date key) level (cx_now c) p of
            Inl e \<Rightarrow> Inl e
          | Inr (n, q) \<Rightarrow> Inr (q, settled_today + n)))"

section \<open>One session\<close>

definition backtest_step ::
    "'s strategy \<Rightarrow> run_config \<Rightarrow> session_data \<Rightarrow> ctx \<Rightarrow> timestamp \<Rightarrow> 's run_state \<Rightarrow> exn + 's run_state" where
  "backtest_step S cfg sd c step_ts st =
     (case advance_to (rs_now st) step_ts of Inl e \<Rightarrow> Inl e
      | Inr now \<Rightarrow>
     (case process_pending (market sd now) (rs_portfolio st) of Inl e \<Rightarrow> Inl e
      | Inr p1 \<Rightarrow>
     (let pm = refresh_marks (market sd now) p1 in
      case process_risk_rules (market sd now) pm of Inl e \<Rightarrow> Inl e
      | Inr p2 \<Rightarrow>
     (case sample_margin cfg (ctx_on c sd now) p2 step_ts (rs_next_margin st, rs_peak st) of Inl e \<Rightarrow> Inl e
      | Inr (nm, peak) \<Rightarrow>
     (case resume_loop S (max_resumes_per_step cfg) (ctx_on c sd now) step_ts 0
             (rs_task st, p2, rs_evals st, rs_resumes st) of Inl e \<Rightarrow> Inl e
      | Inr (s, p3, evals, resumes) \<Rightarrow>
          Inr \<lparr>rs_now = now, rs_portfolio = p3, rs_task = s, rs_next_margin = nm, rs_peak = peak,
            rs_steps = rs_steps st + 1, rs_evals = evals, rs_resumes = resumes\<rparr>)))))"

text \<open>What the backtest carries from one session to the next.\<close>

record 's backtest_state =
  bt_now :: timestamp
  bt_portfolio :: portfolio
  bt_task :: 's
  bt_ctx :: ctx
  bt_observations :: nat
  bt_steps :: nat
  bt_resumes :: nat
  bt_trades_seen :: nat
  bt_sessions :: "date list"
  bt_daily :: "session_summary list"
  bt_peak :: money

text \<open>The end of a session: the clock, settlement and the day orders.\<close>

definition close_session ::
    "backtest_config \<Rightarrow> session_data \<Rightarrow> ctx \<Rightarrow> instrument_id \<Rightarrow> date \<Rightarrow> timestamp \<Rightarrow> portfolio \<Rightarrow>
     exn + timestamp \<times> portfolio \<times> nat" where
  "close_session cfg sd c sp d now p =
     (let settle_at = timestamp_of d (settlement_second_of_day cfg) kISTOffsetSeconds;
          bell = (if now < settle_at then settle_at else now)
      in case due_expiries p (sd_registry sd) d of Inl e \<Rightarrow> Inl e
         | Inr due \<Rightarrow>
        (case try_fold (settle_due (bc_expiry cfg) (ctx_on c sd bell) sp) (map fst due) (p, 0) of Inl e \<Rightarrow> Inl e
         | Inr (p1, n_settled) \<Rightarrow>
        (case cancel_working_orders p1 of Inl e \<Rightarrow> Inl e
         | Inr (_, p2) \<Rightarrow> Inr (bell, p2, n_settled))))"

definition run_day ::
    "'s strategy \<Rightarrow> backtest_config \<Rightarrow> data_source \<Rightarrow> instrument_id \<Rightarrow> date \<Rightarrow> 's backtest_state \<Rightarrow>
     exn + 's backtest_state" where
  "run_day S cfg src sp d bt =
     (case ds_load src d of Inl e \<Rightarrow> Inl e
      | Inr None \<Rightarrow> Inr bt
      | Inr (Some sd) \<Rightarrow>
          let c = bind_session sd (market sd (bt_now bt)) d (bt_ctx bt);
              st0 = \<lparr>rs_now = bt_now bt, rs_portfolio = bt_portfolio bt, rs_task = bt_task bt,
                rs_next_margin = kNoTime, rs_peak = 0, rs_steps = bt_steps bt, rs_evals = 0, rs_resumes = bt_resumes bt\<rparr>
          in case try_fold (backtest_step S (bc_run cfg) sd c) (fst (session_steps sd)) st0 of Inl e \<Rightarrow> Inl e
             | Inr st \<Rightarrow>
            (case close_session cfg sd c sp d (rs_now st) (rs_portfolio st) of Inl e \<Rightarrow> Inl e
             | Inr (bell, p, n_settled) \<Rightarrow>
                 let summary = \<lparr>ss_date = d, realized_to_date = realized p, costs_to_date = total_costs p,
                       ss_equity = equity (market sd bell) p, ss_peak_margin = rs_peak st,
                       ss_trades = length (trades p) - bt_trades_seen bt, ss_settled_legs = n_settled,
                       ss_open_positions = length (filter is_open (positions p))\<rparr>
                 in Inr \<lparr>bt_now = bell, bt_portfolio = p, bt_task = rs_task st, bt_ctx = ctx_on c sd bell,
                      bt_observations = bt_observations bt + snd (session_steps sd), bt_steps = rs_steps st,
                      bt_resumes = rs_resumes st, bt_trades_seen = length (trades p),
                      bt_sessions = bt_sessions bt @ [d], bt_daily = bt_daily bt @ [summary],
                      bt_peak = (if amount (bt_peak bt) < amount (rs_peak st) then rs_peak st else bt_peak bt)\<rparr>))"

section \<open>The run\<close>

definition backtest_start ::
    "'s strategy \<Rightarrow> libm \<Rightarrow> backtest_config \<Rightarrow> data_source \<Rightarrow> underlying_id \<Rightarrow> instrument_id \<Rightarrow> date list \<Rightarrow>
     portfolio \<Rightarrow> exn + 's backtest_state" where
  "backtest_start S m cfg src u sp dates p0 =
     (case ds_load src (hd dates) of
        Inl e \<Rightarrow> Inl e
      | Inr None \<Rightarrow> Inl (RuntimeError ''run_backtest: first session failed to load'')
      | Inr (Some sd) \<Rightarrow>
          let c = (new_ctx m sd (market sd (Timestamp 0)) u sp (hd dates) kISTOffsetSeconds
                (session_open_sec (bc_run cfg)) (rc_rate (bc_run cfg)) (rc_margin (bc_run cfg)))
                \<lparr>cx_calendar := Some dates\<rparr>
          in case st_start S c of
               None \<Rightarrow> Inl (InvalidArgument ''run_backtest: strategy produced no task'')
             | Some s0 \<Rightarrow>
                 (case st_resume S c s0 p0 of
                    Inl e \<Rightarrow> Inl e
                  | Inr (s, p) \<Rightarrow> Inr \<lparr>bt_now = Timestamp 0, bt_portfolio = p, bt_task = s, bt_ctx = c,
                      bt_observations = 0, bt_steps = 0, bt_resumes = 0, bt_trades_seen = 0, bt_sessions = [],
                      bt_daily = [], bt_peak = 0\<rparr>))"

definition backtest_loop ::
    "'s strategy \<Rightarrow> libm \<Rightarrow> backtest_config \<Rightarrow> data_source \<Rightarrow> underlying_id \<Rightarrow> instrument_id \<Rightarrow> date list \<Rightarrow>
     portfolio \<Rightarrow> exn + 's backtest_state" where
  "backtest_loop S m cfg src u sp dates p0 =
     (case backtest_start S m cfg src u sp dates p0 of
        Inl e \<Rightarrow> Inl e
      | Inr bt0 \<Rightarrow> try_fold (run_day S cfg src sp) dates bt0)"

definition backtest_report :: "'s strategy \<Rightarrow> 's backtest_state \<Rightarrow> backtest_result" where
  "backtest_report S bt =
     (let p = bt_portfolio bt; net = net_realized p;
          unreal = (if bt_daily bt = [] then 0 else ss_equity (last (bt_daily bt)) - net)
      in \<lparr>br_sessions = bt_sessions bt, br_realized = realized p, br_costs = total_costs p,
          br_net_realized = net, br_unrealized = unreal, br_final_equity = net + unreal,
          br_peak_margin = bt_peak bt, br_observations = bt_observations bt, br_steps = bt_steps bt,
          br_resumes = bt_resumes bt, br_trades = length (trades p), br_settled_legs = settled_legs p,
          br_illiquid_fills = illiquid_fills p, br_oversized_fills = oversized_fills p,
          br_cancelled_orders = cancelled_orders p,
          br_open_positions = length (filter is_open (positions p)),
          br_strategy_finished = st_done S (bt_task bt), br_trade_log = trades p, daily = bt_daily bt\<rparr>)"

definition run_backtest ::
    "'s strategy \<Rightarrow> libm \<Rightarrow> backtest_config \<Rightarrow> data_source \<Rightarrow> underlying_id \<Rightarrow> instrument_id \<Rightarrow> date list \<Rightarrow>
     exn + backtest_result" where
  "run_backtest S m cfg src u sp dates0 =
     (let dates = (if dates0 = [] then ds_sessions src else dates0);
          fills = (case rc_fills (bc_run cfg) of None \<Rightarrow> Some cross_spread | Some f \<Rightarrow> Some f)
      in if \<not> sorted dates then Inl (InvalidArgument ''run_backtest: sessions must be in ascending date order'')
         else case new_portfolio fills (execution_delay_nanos (bc_run cfg)) (rc_costs (bc_run cfg)) of
           Inl e \<Rightarrow> Inl e
         | Inr p0 \<Rightarrow>
             if dates = [] then Inr empty_result
             else (case backtest_loop S m cfg src u sp dates p0 of
                 Inl e \<Rightarrow> Inl e | Inr bt \<Rightarrow> Inr (backtest_report S bt)))"

end
