(* ===== verification/BacktestLaws.thy ===== *)
theory BacktestLaws
  imports Backtest
begin

text \<open>
  The laws of a backtest: what settlement adds to the trade log, what the end of a session leaves in
  the book, and the invariant that carries the books from session to session.
\<close>

section \<open>Settlement and the trade log\<close>

lemma settle_facts_log:
  assumes "settle_facts mv level whn x l p q t"
  shows "trades q = trades p @ [t]" "pending q = pending p" "pf_delay q = pf_delay p"
    "length (positions q) = length (positions p)" "t_settled t" "fill_ts t = whn"
  using assms by (simp_all add: settle_facts_def)

text \<open>The loops of a settlement: the log grows by settled trades, one for each leg counted.\<close>

definition settles_only :: "timestamp \<Rightarrow> portfolio \<Rightarrow> portfolio \<Rightarrow> nat \<Rightarrow> bool" where
  "settles_only whn p q n \<longleftrightarrow>
     (\<exists>new. trades q = trades p @ new \<and> length new = n \<and> (\<forall>t \<in> set new. t_settled t \<and> fill_ts t = whn)) \<and>
     set (pending q) \<subseteq> set (pending p) \<and> pf_delay q = pf_delay p \<and> length (positions q) = length (positions p)"

lemma settles_only_refl [simp]: "settles_only whn p p 0"
  by (simp add: settles_only_def)

lemma settles_only_add:
  assumes "settles_only whn p q n" and "settles_only whn q r k"
  shows "settles_only whn p r (n + k)"
proof -
  obtain a b where a: "trades q = trades p @ a" "length a = n" "\<forall>t \<in> set a. t_settled t \<and> fill_ts t = whn"
    and b: "trades r = trades q @ b" "length b = k" "\<forall>t \<in> set b. t_settled t \<and> fill_ts t = whn"
    using assms unfolding settles_only_def by blast
  have "trades r = trades p @ (a @ b) \<and> length (a @ b) = n + k \<and> (\<forall>t \<in> set (a @ b). t_settled t \<and> fill_ts t = whn)"
    using a b by auto
  then show ?thesis using assms unfolding settles_only_def by auto
qed

lemma settles_only_leg:
  assumes "settle_leg mv ex level whn x (p, n) = Inr (q, n')"
  shows "\<exists>k. n' = n + k \<and> settles_only whn p q k"
  using assms
proof (cases rule: settle_leg_cases)
  case (settle t)
  note log = settle_facts_log [OF settle(4)]
  have "settles_only whn p q 1"
    unfolding settles_only_def by (intro conjI exI [of _ "[t]"]) (use log in simp_all)
  then show ?thesis using settle(1) by blast
qed auto

lemma settles_only_legs:
  assumes "try_fold (settle_leg mv ex level whn) xs (p, n) = Inr (q, n')"
  shows "\<exists>k. n' = n + k \<and> settles_only whn p q k"
  using assms
proof (induction xs arbitrary: p n)
  case (Cons x xs)
  then obtain p1 n1 where x: "settle_leg mv ex level whn x (p, n) = Inr (p1, n1)"
    and xs: "try_fold (settle_leg mv ex level whn) xs (p1, n1) = Inr (q, n')"
    by (auto split: sum.splits)
  obtain k1 where k1: "n1 = n + k1" "settles_only whn p p1 k1" using settles_only_leg [OF x] by blast
  obtain k2 where k2: "n' = n1 + k2" "settles_only whn p1 q k2" using Cons.IH [OF xs] by blast
  then show ?case using k1 settles_only_add [OF k1(2) k2(2)] by (intro exI [of _ "k1 + k2"]) simp
qed (auto intro: exI [of _ 0])

lemma drops_only:
  assumes "try_fold (drop_settled mv ex) ords (p, keep) = Inr (q, keep')"
  shows "trades q = trades p \<and> pf_delay q = pf_delay p \<and> length (positions q) = length (positions p) \<and>
    set keep' \<subseteq> set keep \<union> set ords"
  using assms
proof (induction ords arbitrary: p keep)
  case (Cons ord ords)
  then obtain p1 k1 where x: "drop_settled mv ex ord (p, keep) = Inr (p1, k1)"
    and xs: "try_fold (drop_settled mv ex) ords (p1, k1) = Inr (q, keep')"
    by (auto split: sum.splits)
  have "trades p1 = trades p \<and> pf_delay p1 = pf_delay p \<and> length (positions p1) = length (positions p) \<and>
      set k1 \<subseteq> set keep \<union> {ord}"
    using x by (cases rule: drop_settled_cases) (simp_all add: Let_def subset_insertI2)
  then show ?case using Cons.IH [OF xs] by auto
qed simp

lemma settle_log:
  assumes "settle_expiry mv ex level whn p = Inr (n, q)"
  shows "settles_only whn p q n"
proof -
  obtain p1 p2 keep where 1: "try_fold (settle_leg mv ex level whn) (leg_indices p) (p, 0) = Inr (p1, n)"
    and 2: "try_fold (drop_settled mv ex) (pending p1) (p1, []) = Inr (p2, keep)" and q: "q = p2\<lparr>pending := keep\<rparr>"
    using assms by (auto simp: settle_expiry_def split: sum.splits)
  have "settles_only whn p p1 n" using settles_only_legs [OF 1] by simp
  moreover have "settles_only whn p1 q 0" using drops_only [OF 2] by (simp add: settles_only_def q)
  ultimately show ?thesis using settles_only_add by fastforce
qed

lemma withdraw_log:
  "trades (fst (fold withdraw ords s)) = trades (fst s) \<and> pf_delay (fst (fold withdraw ords s)) = pf_delay (fst s) \<and>
   length (positions (fst (fold withdraw ords s))) = length (positions (fst s))"
proof (induction ords arbitrary: s)
  case (Cons ord ords)
  have "trades (fst (withdraw ord s)) = trades (fst s) \<and> pf_delay (fst (withdraw ord s)) = pf_delay (fst s) \<and>
      length (positions (fst (withdraw ord s))) = length (positions (fst s))"
    by (cases s) (simp add: withdraw_def Let_def)
  then show ?case using Cons.IH by simp
qed simp

lemma cancel_log:
  assumes "cancel_working_orders p = Inr (n, q)"
  shows "trades q = trades p" and "pf_delay q = pf_delay p" and "length (positions q) = length (positions p)"
    and "pending q = []"
proof -
  obtain p1 ab where f: "fold withdraw (pending p) (p, []) = (p1, ab)" by (cases "fold withdraw (pending p) (p, [])")
  note run = cancel_working_orders_run [OF assms f] and log = withdraw_log [of "pending p" "(p, [])", unfolded f]
  show "trades q = trades p" "pf_delay q = pf_delay p" "length (positions q) = length (positions p)" "pending q = []"
    using run log by simp_all
qed

section \<open>The legs of a portfolio\<close>

abbreviation legs :: "portfolio \<Rightarrow> leg list" where
  "legs p \<equiv> concat (map pos_legs (positions p))"

lemma in_legs: "l \<in> set (legs p) \<longleftrightarrow> (\<exists>x. legs_of p x = Some l)"
proof
  assume "l \<in> set (legs p)"
  then obtain pos where pos: "pos \<in> set (positions p)" "l \<in> set (pos_legs pos)" by auto
  then obtain i k where "i < length (positions p)" "positions p ! i = pos" "k < length (pos_legs pos)" "pos_legs pos ! k = l"
    by (metis in_set_conv_nth)
  then have "legs_of p (int i, k) = Some l" by (simp add: legs_of_def leg_ref_def the_leg_def)
  then show "\<exists>x. legs_of p x = Some l" by blast
next
  assume "\<exists>x. legs_of p x = Some l"
  then obtain i k where l: "nat i < length (positions p)" "k < length (pos_legs (positions p ! nat i))"
    "l = pos_legs (positions p ! nat i) ! k"
    by (auto simp: legs_of_def leg_ref_def the_leg_def split: if_splits)
  then have "positions p ! nat i \<in> set (positions p)" "l \<in> set (pos_legs (positions p ! nat i))" by simp_all
  then show "l \<in> set (legs p)" by auto
qed

text \<open>The live contracts: what settlement and the day's end can only shrink.\<close>

lemma held_legs: "i \<in> held p \<longleftrightarrow> (\<exists>x l. legs_of p x = Some l \<and> live l \<and> leg_instrument l = i)"
proof -
  have "i \<in> held p \<longleftrightarrow> (\<exists>l \<in> set (legs p). live l \<and> leg_instrument l = i)" by (auto simp: held_def)
  then show ?thesis unfolding Bex_def in_legs by blast
qed

lemma held_settled:
  assumes "portfolio_ok p" and "settle_expiry mv ex level whn p = Inr (n, q)"
  shows "held q \<subseteq> {i \<in> held p. \<not> expires_on mv ex i}"
proof
  fix i assume "i \<in> held q"
  then obtain x l where l: "legs_of q x = Some l" "live l" "leg_instrument l = i" unfolding held_legs by blast
  then obtain l0 where l0: "legs_of p x = Some l0" "l = settled_book mv ex level whn l0"
    using settle_expiry_laws(2) [OF assms, of x] by auto
  then have "live l0" "leg_instrument l0 = i" "\<not> expires_on mv ex i"
    using l by (auto simp: settled_book_def leg_settled_def live_def split: if_splits)
  then show "i \<in> {i \<in> held p. \<not> expires_on mv ex i}" using l0(1) unfolding held_legs by blast
qed

lemma held_cancelled:
  assumes "portfolio_ok p" and "cancel_working_orders p = Inr (n, q)"
  shows "held q \<subseteq> held p"
proof
  fix i assume "i \<in> held q"
  then obtain x l where l: "legs_of q x = Some l" "live l" "leg_instrument l = i" unfolding held_legs by blast
  then obtain l0 where l0: "legs_of p x = Some l0" "l = stood_down l0"
    using cancel_working_orders_laws(4) [OF assms, of x] by auto
  then have "live l0" "leg_instrument l0 = i" using l by (auto simp: stood_down_def live_def split: if_splits)
  then show "i \<in> held p" using l0(1) unfolding held_legs by blast
qed

end
