(* ===== verification/BacktestRuns.thy ===== *)
theory BacktestRuns
  imports BacktestLaws
begin

text \<open>
  What holds of every backtest: one step and one session of it, the invariant carried from session
  to session, and the properties of \<open>run_backtest\<close>, with a concrete backtest.
\<close>

section \<open>Time\<close>

text \<open>What the books satisfy at a time, and what they satisfy when the next step may fill their orders.\<close>

definition log_in_time :: "timestamp \<Rightarrow> portfolio \<Rightarrow> bool" where
  "log_in_time now p \<longleftrightarrow> (\<forall>t \<in> set (trades p). (t_settled t \<or> signal_ts t < fill_ts t) \<and> fill_ts t \<le> now) \<and>
     sorted (map fill_ts (trades p))"

definition timely :: "timestamp \<Rightarrow> portfolio \<Rightarrow> bool" where
  "timely now p \<longleftrightarrow> log_in_time now p \<and> (\<forall>ord \<in> set (pending p). submitted_at ord \<le> now)"

definition ready :: "timestamp \<Rightarrow> portfolio \<Rightarrow> bool" where
  "ready now p \<longleftrightarrow> log_in_time now p \<and> (\<forall>ord \<in> set (pending p). submitted_at ord < now)"

lemma log_in_time_later: "log_in_time now p \<Longrightarrow> now \<le> t \<Longrightarrow> log_in_time t p"
  by (auto simp: log_in_time_def intro: order_trans)

lemma log_in_time_add:
  assumes "log_in_time now p" and "trades q = trades p @ new" and "now \<le> t"
    and "\<forall>x \<in> set new. (t_settled x \<or> signal_ts x < fill_ts x) \<and> fill_ts x = t"
  shows "log_in_time t q"
proof -
  have "map fill_ts new = replicate (length new) t" by (rule replicate_eqI) (use assms(4) in auto)
  moreover have "fill_ts x \<le> t" if "x \<in> set (trades p)" for x using assms(1,3) that by (auto simp: log_in_time_def)
  ultimately show ?thesis using assms by (auto simp: log_in_time_def sorted_append)
qed

lemma ready_next: "timely now p \<Longrightarrow> now < t \<Longrightarrow> ready t p"
  by (auto simp: timely_def ready_def intro: log_in_time_later)

lemma ready_open: "timely now p \<Longrightarrow> pending p = [] \<Longrightarrow> now \<le> t \<Longrightarrow> ready t p"
  by (auto simp: timely_def ready_def intro: log_in_time_later)

lemma fills_timely:
  assumes "process_pending mv p = Inr q" and "ready (mv_now mv) p"
  shows "timely (mv_now mv) q"
  using assms(1)
proof (cases rule: fills_pending)
  case (1 new)
  have "\<forall>x \<in> set new. (t_settled x \<or> signal_ts x < fill_ts x) \<and> fill_ts x = mv_now mv"
    using 1(5) assms(2) by (fastforce simp: ready_def)
  then have "log_in_time (mv_now mv) q"
    by (rule log_in_time_add [OF _ 1(1) order_refl, of "mv_now mv", rotated]) (use assms(2) in \<open>simp add: ready_def\<close>)
  then show ?thesis using 1(2) assms(2) by (fastforce simp: timely_def ready_def)
qed

lemma asks_timely: "asks now p q \<Longrightarrow> timely now p \<Longrightarrow> timely now q"
  by (auto simp: asks_def timely_def log_in_time_def)

lemma settles_timely:
  assumes "settles_only whn p q n" and "timely now p" and "now \<le> whn"
  shows "timely whn q"
proof -
  obtain new where "trades q = trades p @ new" "\<forall>t \<in> set new. t_settled t \<and> fill_ts t = whn"
    using assms(1) by (auto simp: settles_only_def)
  then have "log_in_time whn q" by (intro log_in_time_add [OF _ _ assms(3)]) (use assms(2) in \<open>auto simp: timely_def\<close>)
  moreover have "submitted_at ord \<le> whn" if "ord \<in> set (pending q)" for ord
    using assms that by (fastforce simp: settles_only_def timely_def)
  ultimately show ?thesis by (simp add: timely_def)
qed

section \<open>One step\<close>

lemma held_refresh [simp]: "held (refresh_marks mv p) = held p"
proof -
  have "legs (refresh_marks mv p) = map (refresh_leg mv) (legs p)"
    by (simp add: refresh_marks_def map_concat comp_def)
  then have "set (legs (refresh_marks mv p)) = refresh_leg mv ` set (legs p)" by (simp only: set_map)
  moreover have "held r = leg_instrument ` {l \<in> set (legs r). live l}" for r by (auto simp: held_def)
  moreover have "live (refresh_leg mv l) = live l" for l by (simp add: live_def)
  moreover have "leg_instrument ` {l \<in> refresh_leg mv ` L. live l} = leg_instrument ` {l \<in> L. live (refresh_leg mv l)}" for L
    by (force simp: image_iff)
  ultimately show ?thesis by (simp only:)
qed

lemma refresh_asks [simp]: "asks now p (refresh_marks mv p)"
  by (simp add: asks_def)

lemma backtest_step_cases:
  assumes "backtest_step S cfg sd c ts st = Inr st'"
  obtains p1 p2 nm pk s p3 e r where "rs_now st \<le> ts" "process_pending (market sd ts) (rs_portfolio st) = Inr p1"
    "process_risk_rules (market sd ts) (refresh_marks (market sd ts) p1) = Inr p2"
    "resume_loop S (max_resumes_per_step cfg) (ctx_on c sd ts) ts 0 (rs_task st, p2, rs_evals st, rs_resumes st) = Inr (s, p3, e, r)"
    "st' = \<lparr>rs_now = ts, rs_portfolio = p3, rs_task = s, rs_next_margin = nm, rs_peak = pk,
            rs_steps = rs_steps st + 1, rs_evals = e, rs_resumes = r\<rparr>"
proof -
  have now: "rs_now st \<le> ts" "advance_to (rs_now st) ts = Inr ts"
    using assms by (auto simp: backtest_step_def advance_to_def split: if_splits)
  note run = assms [unfolded backtest_step_def now(2) sum.case Let_def]
  obtain p1 where 1: "process_pending (market sd ts) (rs_portfolio st) = Inr p1"
    using run by (cases "process_pending (market sd ts) (rs_portfolio st)") simp_all
  note run = run [unfolded 1 sum.case]
  obtain p2 where 2: "process_risk_rules (market sd ts) (refresh_marks (market sd ts) p1) = Inr p2"
    using run by (cases "process_risk_rules (market sd ts) (refresh_marks (market sd ts) p1)") simp_all
  note run = run [unfolded 2 sum.case]
  obtain nm pk where 3: "sample_margin cfg (ctx_on c sd ts) p2 ts (rs_next_margin st, rs_peak st) = Inr (nm, pk)"
    using run by (cases "sample_margin cfg (ctx_on c sd ts) p2 ts (rs_next_margin st, rs_peak st)") auto
  note run = run [unfolded 3 sum.case prod.case]
  obtain s p3 e r where 4: "resume_loop S (max_resumes_per_step cfg) (ctx_on c sd ts) ts 0
      (rs_task st, p2, rs_evals st, rs_resumes st) = Inr (s, p3, e, r)"
    using run by (cases "resume_loop S (max_resumes_per_step cfg) (ctx_on c sd ts) ts 0
      (rs_task st, p2, rs_evals st, rs_resumes st)") auto
  show ?thesis using that [OF now(1) 1 2 4, of nm pk] run by (simp add: 4)
qed

text \<open>The log of a stretch of steps: it grows by fills alone, at times of the session.\<close>

definition fills_only :: "timestamp set \<Rightarrow> portfolio \<Rightarrow> portfolio \<Rightarrow> bool" where
  "fills_only T p q \<longleftrightarrow>
     (\<exists>new. trades q = trades p @ new \<and> (\<forall>t \<in> set new. \<not> t_settled t \<and> fill_ts t \<in> T)) \<and>
     pf_delay q = pf_delay p \<and> length (positions p) \<le> length (positions q)"

lemma fills_only_refl [simp]: "fills_only T p p"
  by (simp add: fills_only_def)

lemma fills_only_trans: "fills_only T p q \<Longrightarrow> fills_only T q r \<Longrightarrow> fills_only T p r"
  by (auto simp: fills_only_def)

lemma fills_only_mono:
  assumes "fills_only T p q" and "T \<subseteq> T'"
  shows "fills_only T' p q"
proof -
  obtain new where "trades q = trades p @ new" "\<forall>t \<in> set new. \<not> t_settled t \<and> fill_ts t \<in> T"
    using assms(1) unfolding fills_only_def by blast
  then have "trades q = trades p @ new \<and> (\<forall>t \<in> set new. \<not> t_settled t \<and> fill_ts t \<in> T')" using assms(2) by blast
  then show ?thesis using assms(1) unfolding fills_only_def by blast
qed

lemma fills_only_fill:
  assumes "process_pending mv p = Inr q"
  shows "fills_only {mv_now mv} p q"
  using assms
proof (cases rule: fills_pending)
  case (1 new)
  then show ?thesis unfolding fills_only_def by (intro conjI exI [of _ new]) auto
qed

lemma fills_only_asks: "asks now p q \<Longrightarrow> fills_only T p q"
  by (simp add: fills_only_def asks_def)

context order_strategy
begin

lemma backtest_step_laws:
  assumes "backtest_step S cfg sd c ts st = Inr st'"
  shows "rs_now st \<le> ts" and "rs_now st' = ts" and "rs_steps st' = Suc (rs_steps st)"
    and "fills_only {ts} (rs_portfolio st) (rs_portfolio st')"
    and "ready ts (rs_portfolio st) \<Longrightarrow> timely ts (rs_portfolio st')"
    and "pf_reach (rs_portfolio st) \<Longrightarrow> ids_fit (rs_portfolio st') \<Longrightarrow> pf_reach (rs_portfolio st')"
proof -
  obtain p1 p2 nm pk s p3 e r where 1: "rs_now st \<le> ts" "process_pending (market sd ts) (rs_portfolio st) = Inr p1"
    "process_risk_rules (market sd ts) (refresh_marks (market sd ts) p1) = Inr p2"
    "resume_loop S (max_resumes_per_step cfg) (ctx_on c sd ts) ts 0 (rs_task st, p2, rs_evals st, rs_resumes st) = Inr (s, p3, e, r)"
    "st' = \<lparr>rs_now = ts, rs_portfolio = p3, rs_task = s, rs_next_margin = nm, rs_peak = pk,
            rs_steps = rs_steps st + 1, rs_evals = e, rs_resumes = r\<rparr>"
    using assms by (rule backtest_step_cases)
  have steps: "order_steps ts p2 p3" using resume_loop_orders [OF 1(4)] by (simp add: ctx_on_def cx_now_def)
  have "asks ts (refresh_marks (market sd ts) p1) p2" using asks_rules [OF 1(3)] by simp
  then have asks: "asks ts p1 p3"
    using order_steps_asks [OF steps] refresh_asks by (blast intro: asks_trans)
  show "rs_now st \<le> ts" "rs_now st' = ts" "rs_steps st' = Suc (rs_steps st)" using 1(1) by (simp_all add: 1(5))
  have "fills_only {ts} (rs_portfolio st) p1" using fills_only_fill [OF 1(2)] by simp
  then have "fills_only {ts} (rs_portfolio st) p3" using fills_only_asks [OF asks] by (rule fills_only_trans)
  then show "fills_only {ts} (rs_portfolio st) (rs_portfolio st')" by (simp add: 1(5))
  show "timely ts (rs_portfolio st')" if "ready ts (rs_portfolio st)"
    using fills_timely [OF 1(2)] that by (auto simp: 1(5) intro: asks_timely [OF asks])
  show "pf_reach (rs_portfolio st')" if "pf_reach (rs_portfolio st)" "ids_fit (rs_portfolio st')"
    using order_steps_reach [OF steps pf_reach.step [OF pf_reach.step [OF pf_reach.step
      [OF that(1) pf_step.filled [OF 1(2)]] pf_step.marked] pf_step.ruled [OF 1(3)]]] that(2) by (simp add: 1(5))
qed

lemma backtest_steps_laws:
  assumes "try_fold (backtest_step S cfg sd c) ts st = Inr st'" and "sorted_wrt (<) ts"
  shows "rs_now st \<le> rs_now st'" and "rs_steps st' = rs_steps st + length ts"
    and "fills_only (set ts) (rs_portfolio st) (rs_portfolio st')"
    and "timely (rs_now st) (rs_portfolio st) \<Longrightarrow> (ts = [] \<or> ready (hd ts) (rs_portfolio st)) \<Longrightarrow>
      timely (rs_now st') (rs_portfolio st')"
    and "pf_reach (rs_portfolio st) \<Longrightarrow> ids_fit (rs_portfolio st') \<Longrightarrow> pf_reach (rs_portfolio st')"
proof (atomize(full), use assms in \<open>induction ts arbitrary: st\<close>)
  case (Cons t ts)
  then obtain st1 where st1: "backtest_step S cfg sd c t st = Inr st1" "try_fold (backtest_step S cfg sd c) ts st1 = Inr st'"
    by (auto split: sum.splits)
  note one = backtest_step_laws [OF st1(1)]
  have "sorted_wrt (<) ts" using Cons.prems(2) by simp
  note ih = Cons.IH [OF st1(2) this]
  have more: "fills_only (set ts) (rs_portfolio st1) (rs_portfolio st')" using ih by blast
  have "fills_only (set (t # ts)) (rs_portfolio st) (rs_portfolio st1)" using one(4) by (rule fills_only_mono) simp
  moreover have "fills_only (set (t # ts)) (rs_portfolio st1) (rs_portfolio st')" using more by (rule fills_only_mono) auto
  ultimately have fills: "fills_only (set (t # ts)) (rs_portfolio st) (rs_portfolio st')" by (rule fills_only_trans)
  have time: "timely (rs_now st') (rs_portfolio st')" if "ready t (rs_portfolio st)"
  proof -
    have now: "timely t (rs_portfolio st1)" using that by (rule one(5))
    moreover have "ts = [] \<or> ready (hd ts) (rs_portfolio st1)"
      using ready_next [OF now] Cons.prems(2) by (cases ts) auto
    ultimately show ?thesis using ih one(2) by simp
  qed
  have reach: "pf_reach (rs_portfolio st')" if "pf_reach (rs_portfolio st)" "ids_fit (rs_portfolio st')"
  proof -
    have "ids_fit (rs_portfolio st1)" using more that(2) by (simp add: fills_only_def)
    then show ?thesis using ih one(6) that by simp
  qed
  have "rs_now st \<le> rs_now st'" "rs_steps st' = rs_steps st + length (t # ts)" using ih one(1-3) by auto
  then show ?case using fills time reach by simp
qed simp

end

section \<open>The end of a session\<close>

text \<open>The collected expiries hold the expiry of every live option that is due.\<close>

definition collected :: "registry \<Rightarrow> date \<Rightarrow> int set \<Rightarrow> instrument_id \<Rightarrow> bool" where
  "collected reg d due i \<longleftrightarrow> (\<exists>sp. spec reg i = Inr sp \<and>
     (is_option sp \<and> date_valid (expiry sp) \<and> expiry sp \<le> d \<longrightarrow> yyyymmdd (expiry sp) \<in> due))"

lemma due_leg_collects:
  assumes "due_leg reg d l due = Inr due'"
  shows "set (map fst due) \<subseteq> set (map fst due')"
    and "live l \<Longrightarrow> collected reg d (set (map fst due')) (leg_instrument l)"
proof -
  have "set (map fst due) \<subseteq> set (map fst due') \<and> (live l \<longrightarrow> collected reg d (set (map fst due')) (leg_instrument l))"
  proof (cases "live l")
    case True
    then obtain sp where sp: "spec reg (leg_instrument l) = Inr sp"
      using assms by (auto simp: due_leg_def split: sum.splits)
    show ?thesis
      using assms True sp set_om_put [of "yyyymmdd (expiry sp)" "()" due]
      by (auto simp: due_leg_def collected_def simp del: set_map split: if_splits)
  qed (use assms in \<open>simp add: due_leg_def\<close>)
  then show "set (map fst due) \<subseteq> set (map fst due')"
    "live l \<Longrightarrow> collected reg d (set (map fst due')) (leg_instrument l)" by simp_all
qed

lemma collected_mono: "collected reg d A i \<Longrightarrow> A \<subseteq> B \<Longrightarrow> collected reg d B i"
  by (auto simp: collected_def)

lemma due_legs_collect:
  assumes "try_fold (due_leg reg d) ls due = Inr due'"
  shows "set (map fst due) \<subseteq> set (map fst due') \<and>
    (\<forall>l \<in> set ls. live l \<longrightarrow> collected reg d (set (map fst due')) (leg_instrument l))"
  using assms
proof (induction ls arbitrary: due)
  case (Cons l ls)
  then obtain due1 where l: "due_leg reg d l due = Inr due1" and ls: "try_fold (due_leg reg d) ls due1 = Inr due'"
    by (auto split: sum.splits)
  show ?case using due_leg_collects [OF l] Cons.IH [OF ls] by (auto simp del: set_map intro: collected_mono)
qed simp

lemma due_expiries_collect:
  assumes "due_expiries p reg d = Inr due" and "i \<in> held p"
  shows "collected reg d (set (map fst due)) i"
proof -
  obtain pos l where "pos \<in> set (positions p)" "l \<in> set (pos_legs pos)" "live l" "leg_instrument l = i"
    using assms(2) by (auto simp: held_def)
  then have "l \<in> set (legs p)" "live l" "leg_instrument l = i" by auto
  then show ?thesis using due_legs_collect [OF assms(1) [unfolded due_expiries_def]] by blast
qed

lemma settle_due_cases:
  assumes "settle_due handling c sp key (p, n) = Inr (q, n')"
  obtains k level where "handling \<noteq> Forbid" "settle_expiry (cx_market c) (Date key) level (cx_now c) p = Inr (k, q)" "n' = n + k"
  using assms by (auto simp: settle_due_def split: if_splits option.splits sum.splits)

lemma settle_dues_log:
  assumes "try_fold (settle_due handling c sp) keys (p, n) = Inr (q, n')"
  shows "(\<exists>k. n' = n + k \<and> settles_only (cx_now c) p q k) \<and> (handling = Forbid \<longrightarrow> keys = [])"
  using assms
proof (induction keys arbitrary: p n)
  case (Cons key keys)
  then obtain p1 n1 where one: "settle_due handling c sp key (p, n) = Inr (p1, n1)"
    and rest: "try_fold (settle_due handling c sp) keys (p1, n1) = Inr (q, n')"
    by (auto split: sum.splits)
  obtain k level where k: "handling \<noteq> Forbid" "settle_expiry (cx_market c) (Date key) level (cx_now c) p = Inr (k, p1)" "n1 = n + k"
    using one by (rule settle_due_cases)
  obtain k' where k': "n' = n1 + k'" "settles_only (cx_now c) p1 q k'" using Cons.IH [OF rest] by blast
  have "settles_only (cx_now c) p q (k + k')" by (rule settles_only_add [OF settle_log [OF k(2)] k'(2)])
  then have "\<exists>k. n' = n + k \<and> settles_only (cx_now c) p q k" using k' k(3) by (intro exI [of _ "k + k'"]) simp
  then show ?case using k(1) by blast
qed (auto intro: exI [of _ 0])

lemma settle_dues_held:
  assumes "try_fold (settle_due handling c sp) keys (p, n) = Inr (q, n')" and "pf_reach p"
  shows "pf_reach q \<and>
    held q \<subseteq> {i \<in> held p. \<forall>key \<in> set keys. \<not> expires_on (cx_market c) (Date key) i}"
  using assms
proof (induction keys arbitrary: p n)
  case (Cons key keys)
  then obtain p1 n1 where one: "settle_due handling c sp key (p, n) = Inr (p1, n1)"
    and rest: "try_fold (settle_due handling c sp) keys (p1, n1) = Inr (q, n')"
    by (auto split: sum.splits)
  obtain k level where k: "handling \<noteq> Forbid" "settle_expiry (cx_market c) (Date key) level (cx_now c) p = Inr (k, p1)" "n1 = n + k"
    using one by (rule settle_due_cases)
  have p1: "pf_reach p1" by (rule pf_reach.step [OF Cons.prems(2) pf_step.settled [OF k(2)]])
  have h: "held p1 \<subseteq> {i \<in> held p. \<not> expires_on (cx_market c) (Date key) i}"
    by (rule held_settled [OF pf_reach_ok [OF Cons.prems(2)] k(2)])
  note ih = Cons.IH [OF rest p1]
  then have "held q \<subseteq> {i \<in> held p. \<forall>x \<in> set (key # keys). \<not> expires_on (cx_market c) (Date x) i}"
    using h by auto
  then show ?case using ih by blast
qed auto

text \<open>What is left after the bell: listed contracts that have not expired.\<close>

definition carried :: "registry \<Rightarrow> date \<Rightarrow> instrument_id \<Rightarrow> bool" where
  "carried reg d i \<longleftrightarrow> (\<exists>sp. spec reg i = Inr sp \<and> (is_option sp \<and> date_valid (expiry sp) \<longrightarrow> d < expiry sp))"

lemma close_session_cases:
  assumes "close_session cfg sd c sp d now p = Inr (bell, q, n)"
  obtains due p1 ab where "due_expiries p (sd_registry sd) d = Inr due" "now \<le> bell"
    "try_fold (settle_due (bc_expiry cfg) (ctx_on c sd bell) sp) (map fst due) (p, 0) = Inr (p1, n)"
    "cancel_working_orders p1 = Inr (ab, q)"
  using assms by (auto simp: close_session_def Let_def less_imp_le split: sum.splits if_splits)

lemma ctx_on_sees [simp]: "cx_now (ctx_on c sd t) = t" "cx_market (ctx_on c sd t) = market sd t"
  by (simp_all add: ctx_on_def cx_now_def)

lemma close_session_log:
  assumes "close_session cfg sd c sp d now p = Inr (bell, q, n)"
  shows "now \<le> bell" and "settles_only bell p q n" and "pending q = []" and "bc_expiry cfg = Forbid \<Longrightarrow> n = 0"
proof -
  obtain due p1 ab where x: "due_expiries p (sd_registry sd) d = Inr due" "now \<le> bell"
    "try_fold (settle_due (bc_expiry cfg) (ctx_on c sd bell) sp) (map fst due) (p, 0) = Inr (p1, n)"
    "cancel_working_orders p1 = Inr (ab, q)"
    using assms by (rule close_session_cases)
  note laws = settle_dues_log [OF x(3), unfolded ctx_on_sees] and log = cancel_log [OF x(4)]
  show "now \<le> bell" "pending q = []" by (rule x(2), rule log(4))
  have "settles_only bell p p1 n" using laws by auto
  moreover have "settles_only bell p1 q 0" using log by (simp add: settles_only_def)
  ultimately show "settles_only bell p q n" using settles_only_add by fastforce
  show "n = 0" if "bc_expiry cfg = Forbid" using x(3) laws that by simp
qed

lemma close_session_held:
  assumes "close_session cfg sd c sp d now p = Inr (bell, q, n)" and "pf_reach p"
  shows "pf_reach q" and "i \<in> held q \<Longrightarrow> carried (sd_registry sd) d i"
proof -
  obtain due p1 ab where x: "due_expiries p (sd_registry sd) d = Inr due" "now \<le> bell"
    "try_fold (settle_due (bc_expiry cfg) (ctx_on c sd bell) sp) (map fst due) (p, 0) = Inr (p1, n)"
    "cancel_working_orders p1 = Inr (ab, q)"
    using assms(1) by (rule close_session_cases)
  note laws = settle_dues_held [OF x(3) assms(2), unfolded ctx_on_sees]
  have p1: "pf_reach p1" using laws by blast
  show "pf_reach q" by (rule pf_reach.step [OF p1 pf_step.stood_down [OF x(4)]])
  show "carried (sd_registry sd) d i" if "i \<in> held q"
  proof -
    have "i \<in> held p1" using held_cancelled [OF pf_reach_ok [OF p1] x(4)] that by blast
    then have i: "i \<in> held p" "\<forall>key \<in> set (map fst due). \<not> expires_on (market sd bell) (Date key) i"
      using laws by blast+
    obtain s where s: "spec (sd_registry sd) i = Inr s"
      "is_option s \<and> date_valid (expiry s) \<and> expiry s \<le> d \<longrightarrow> yyyymmdd (expiry s) \<in> set (map fst due)"
      using due_expiries_collect [OF x(1) i(1)] by (auto simp: collected_def simp del: set_map)
    have "\<not> (is_option s \<and> date_valid (expiry s) \<and> expiry s \<le> d)"
    proof
      assume z: "is_option s \<and> date_valid (expiry s) \<and> expiry s \<le> d"
      then have "expires_on (market sd bell) (Date (yyyymmdd (expiry s))) i" by (simp add: expires_on_def s(1))
      then show False using i(2) s(2) z by blast
    qed
    then show ?thesis using s(1) by (auto simp: carried_def not_le)
  qed
qed

section \<open>One session, and many\<close>

lemma run_day_cases:
  assumes "run_day S cfg src sp d bt = Inr bt'"
  obtains (skipped) "ds_load src d = Inr None" "bt' = bt"
  | (ran) sd c st0 st bell p n smry where "ds_load src d = Inr (Some sd)"
      "rs_now st0 = bt_now bt" "rs_portfolio st0 = bt_portfolio bt"
      "try_fold (backtest_step S (bc_run cfg) sd c) (fst (session_steps sd)) st0 = Inr st"
      "close_session cfg sd c sp d (rs_now st) (rs_portfolio st) = Inr (bell, p, n)"
      "bt_now bt' = bell" "bt_portfolio bt' = p" "bt_trades_seen bt' = length (trades p)"
      "bt_sessions bt' = bt_sessions bt @ [d]" "bt_daily bt' = bt_daily bt @ [smry]"
      "ss_date smry = d" "ss_equity smry = equity (market sd bell) p" "ss_settled_legs smry = n"
      "ss_trades smry = length (trades p) - bt_trades_seen bt" "costs_to_date smry = total_costs p"
proof (cases "ds_load src d")
  case (Inr x)
  show ?thesis
  proof (cases x)
    case None
    then show ?thesis using assms Inr skipped by (simp add: run_day_def)
  next
    case (Some sd)
    define c where "c = bind_session sd (market sd (bt_now bt)) d (bt_ctx bt)"
    define st0 where "st0 = \<lparr>rs_now = bt_now bt, rs_portfolio = bt_portfolio bt, rs_task = bt_task bt,
      rs_next_margin = kNoTime, rs_peak = 0, rs_steps = bt_steps bt, rs_evals = 0, rs_resumes = bt_resumes bt\<rparr>"
    note run = assms [unfolded run_day_def Inr Some sum.case option.case Let_def, folded c_def st0_def]
    obtain st where st: "try_fold (backtest_step S (bc_run cfg) sd c) (fst (session_steps sd)) st0 = Inr st"
      using run by (cases "try_fold (backtest_step S (bc_run cfg) sd c) (fst (session_steps sd)) st0") simp_all
    note run = run [unfolded st sum.case]
    obtain bell p n where cl: "close_session cfg sd c sp d (rs_now st) (rs_portfolio st) = Inr (bell, p, n)"
      using run by (cases "close_session cfg sd c sp d (rs_now st) (rs_portfolio st)") auto
    note run = run [unfolded cl sum.case prod.case]
    show ?thesis
      by (rule ran [OF Inr [unfolded Some] _ _ st cl]) (use run in \<open>auto simp: st0_def\<close>)
  qed
qed (use assms in \<open>simp add: run_day_def\<close>)

text \<open>The sessions of a data source that a backtest may rely on.\<close>

definition source_ok :: "data_source \<Rightarrow> bool" where
  "source_ok src \<longleftrightarrow> (\<forall>d sd. ds_load src d = Inr (Some sd) \<longrightarrow> session_ok sd \<and> after_epoch sd)"

text \<open>What holds between the sessions.\<close>

definition bt_inv :: "backtest_config \<Rightarrow> 's backtest_state \<Rightarrow> bool" where
  "bt_inv cfg bt \<longleftrightarrow>
     timely (bt_now bt) (bt_portfolio bt) \<and> (bt_now bt = Timestamp 0 \<or> pending (bt_portfolio bt) = []) \<and>
     pf_delay (bt_portfolio bt) = execution_delay_nanos (bc_run cfg) \<and>
     bt_trades_seen bt = length (trades (bt_portfolio bt)) \<and>
     map ss_date (bt_daily bt) = bt_sessions bt \<and>
     sum_list (map ss_trades (bt_daily bt)) = length (trades (bt_portfolio bt)) \<and>
     sum_list (map ss_settled_legs (bt_daily bt)) = length (filter t_settled (trades (bt_portfolio bt)))"

text \<open>What one session does, whatever came before it.\<close>

context order_strategy
begin

lemma day_laws:
  assumes "source_ok src" and "run_day S cfg src sp d bt = Inr bt'" and load: "ds_load src d = Inr (Some sd)"
    and inv: "bt_inv cfg bt"
  obtains mid n smry where "fills_only (set (distinct_times sd)) (bt_portfolio bt) mid"
    "settles_only (bt_now bt') mid (bt_portfolio bt') n" "bt_inv cfg bt'" "pending (bt_portfolio bt') = []"
    "bt_now bt \<le> bt_now bt'" "bt_daily bt' = bt_daily bt @ [smry]" "ss_date smry = d" "ss_settled_legs smry = n"
    "ss_equity smry = equity (market sd (bt_now bt')) (bt_portfolio bt')"
    "pf_reach (bt_portfolio bt) \<Longrightarrow> ids_fit (bt_portfolio bt') \<Longrightarrow> pf_reach (bt_portfolio bt') \<and>
       (bc_expiry cfg = Forbid \<longrightarrow> n = 0) \<and> (\<forall>i \<in> held (bt_portfolio bt'). carried (sd_registry sd) d i)"
  using assms(2)
proof (cases rule: run_day_cases)
  case skipped
  then show ?thesis using load by simp
next
  case (ran sd' c st0 st bell p n smry)
  have sd: "sd' = sd" using ran(1) load by simp
  have ok: "session_ok sd" "after_epoch sd" using assms(1) load by (auto simp: source_ok_def)
  note sorted = steps_after_epoch [OF ok]
  have steps: "fst (session_steps sd) = distinct_times sd" by (simp add: session_steps_distinct [OF ok])
  from sorted have strict: "sorted_wrt (<) (distinct_times sd)" and pos: "\<forall>t \<in> set (distinct_times sd). Timestamp 0 < t" by simp_all
  note run = backtest_steps_laws [OF ran(4) [unfolded sd steps] strict, unfolded ran(2,3)]
  note cl = close_session_log [OF ran(5)]
  obtain fs where fs: "trades (rs_portfolio st) = trades (bt_portfolio bt) @ fs" "\<forall>t \<in> set fs. \<not> t_settled t"
    using run(3) unfolding fills_only_def by blast
  obtain ss where ss: "trades p = trades (rs_portfolio st) @ ss" "length ss = n" "\<forall>t \<in> set ss. t_settled t"
    using cl(2) unfolding settles_only_def by blast
  have "distinct_times sd = [] \<or> ready (hd (distinct_times sd)) (bt_portfolio bt)"
  proof (cases "distinct_times sd")
    case (Cons t ts)
    then have "bt_now bt \<le> t"
      using ran(4) backtest_step_laws(1) by (auto simp: sd steps ran(2) split: sum.splits) (metis ran(2))
    moreover have "Timestamp 0 < t" using pos Cons by simp
    ultimately have "ready t (bt_portfolio bt)"
      using inv by (auto simp: bt_inv_def intro: ready_next ready_open)
    then show ?thesis using Cons by simp
  qed simp
  then have "timely (rs_now st) (rs_portfolio st)" using run(4) inv by (simp add: bt_inv_def)
  then have time: "timely bell p" by (rule settles_timely [OF cl(2) _ cl(1)])
  have "filter t_settled fs = []" "filter t_settled ss = ss" using fs(2) ss(3) by (auto simp: filter_empty_conv)
  then have settled: "length (filter t_settled (trades p)) = length (filter t_settled (trades (bt_portfolio bt))) + n"
    by (simp add: ss(1,2) fs(1))
  have delay: "pf_delay p = pf_delay (bt_portfolio bt)" and len: "length (positions p) = length (positions (rs_portfolio st))"
    using run(3) cl(2) by (simp_all add: fills_only_def settles_only_def)
  show ?thesis
  proof (rule that [OF run(3)])
    show "settles_only (bt_now bt') (rs_portfolio st) (bt_portfolio bt') n" "pending (bt_portfolio bt') = []"
      "bt_now bt \<le> bt_now bt'" "bt_daily bt' = bt_daily bt @ [smry]" "ss_date smry = d" "ss_settled_legs smry = n"
      "ss_equity smry = equity (market sd (bt_now bt')) (bt_portfolio bt')"
      using cl run(1) ran sd by auto
    show "bt_inv cfg bt'"
      using inv time settled delay cl(3) ran by (simp add: bt_inv_def ss(1) fs(1))
    assume reach: "pf_reach (bt_portfolio bt)" "ids_fit (bt_portfolio bt')"
    then have "pf_reach (rs_portfolio st)" using run(5) len ran(7) by simp
    from close_session_held [OF ran(5) this] show "pf_reach (bt_portfolio bt') \<and> (bc_expiry cfg = Forbid \<longrightarrow> n = 0) \<and>
      (\<forall>i \<in> held (bt_portfolio bt'). carried (sd_registry sd) d i)"
      using cl(4) ran(7) sd by auto
  qed
qed

lemma days_laws:
  assumes "source_ok src" and "try_fold (run_day S cfg src sp) ds bt = Inr bt'" and "bt_inv cfg bt"
  shows "bt_inv cfg bt'" and "length (positions (bt_portfolio bt)) \<le> length (positions (bt_portfolio bt'))"
    and "bt_sessions bt' = bt_sessions bt @ filter (\<lambda>d. ds_load src d \<noteq> Inr None) ds"
    and "pf_reach (bt_portfolio bt) \<Longrightarrow> ids_fit (bt_portfolio bt') \<Longrightarrow> pf_reach (bt_portfolio bt')"
proof (atomize(full), use assms(2,3) in \<open>induction ds arbitrary: bt\<close>)
  case (Cons d ds)
  then obtain bt1 where one: "run_day S cfg src sp d bt = Inr bt1" and rest: "try_fold (run_day S cfg src sp) ds bt1 = Inr bt'"
    by (auto split: sum.splits)
  have one': "bt_inv cfg bt1 \<and> length (positions (bt_portfolio bt)) \<le> length (positions (bt_portfolio bt1)) \<and>
      bt_sessions bt1 = bt_sessions bt @ filter (\<lambda>d. ds_load src d \<noteq> Inr None) [d] \<and>
      (pf_reach (bt_portfolio bt) \<longrightarrow> ids_fit (bt_portfolio bt1) \<longrightarrow> pf_reach (bt_portfolio bt1))"
    using one
  proof (cases rule: run_day_cases)
    case skipped
    then show ?thesis using Cons.prems(2) by simp
  next
    case (ran sd)
    show ?thesis
      by (rule day_laws [OF assms(1) one ran(1) Cons.prems(2)])
        (use ran(1,9) in \<open>auto simp: fills_only_def settles_only_def\<close>)
  qed
  then show ?case using Cons.IH [OF rest] by auto
qed simp

lemma start_laws:
  assumes "backtest_start S m cfg src u sp dates p0 = Inr bt"
    and new: "new_portfolio fills (execution_delay_nanos (bc_run cfg)) costs = Inr p0"
  shows "bt_inv cfg bt" and "bt_sessions bt = []" and "ids_fit (bt_portfolio bt) \<Longrightarrow> pf_reach (bt_portfolio bt)"
proof -
  obtain c s0 s p where res: "st_resume S c s0 p0 = Inr (s, p)" "cx_now c = Timestamp 0"
    and bt: "bt = \<lparr>bt_now = Timestamp 0, bt_portfolio = p, bt_task = s, bt_ctx = c,
                      bt_observations = 0, bt_steps = 0, bt_resumes = 0, bt_trades_seen = 0, bt_sessions = [],
                      bt_daily = [], bt_peak = 0\<rparr>"
    using assms(1) by (auto simp: backtest_start_def Let_def new_ctx_def cx_now_def split: sum.splits option.splits)
  have steps: "order_steps (Timestamp 0) p0 p" using orders_only [OF res(1)] by (simp add: res(2))
  have p0: "trades p0 = []" "pending p0 = []" "pf_delay p0 = execution_delay_nanos (bc_run cfg)"
    using new by (auto simp: new_portfolio_def split: option.splits if_splits)
  from order_steps_asks [OF steps] have "timely (Timestamp 0) p"
    by (rule asks_timely) (simp add: timely_def log_in_time_def p0)
  then show "bt_inv cfg bt" "bt_sessions bt = []"
    using order_steps_asks [OF steps] p0 by (simp_all add: bt_inv_def bt asks_def)
  show "pf_reach (bt_portfolio bt)" if "ids_fit (bt_portfolio bt)"
    using order_steps_reach [OF steps pf_reach.start [OF new]] that by (simp add: bt)
qed

lemma backtest_loop_laws:
  assumes "source_ok src" and "backtest_loop S m cfg src u sp dates p0 = Inr bt"
    and "new_portfolio fills (execution_delay_nanos (bc_run cfg)) costs = Inr p0"
  shows "bt_inv cfg bt" and "bt_sessions bt = filter (\<lambda>d. ds_load src d \<noteq> Inr None) dates"
    and "ids_fit (bt_portfolio bt) \<Longrightarrow> pf_reach (bt_portfolio bt)"
proof -
  obtain bt0 where bt0: "backtest_start S m cfg src u sp dates p0 = Inr bt0"
    and run: "try_fold (run_day S cfg src sp) dates bt0 = Inr bt"
    using assms(2) by (auto simp: backtest_loop_def split: sum.splits)
  note start = start_laws [OF bt0 assms(3)] and days = days_laws [OF assms(1) run start_laws(1) [OF bt0 assms(3)]]
  show "bt_inv cfg bt" "bt_sessions bt = filter (\<lambda>d. ds_load src d \<noteq> Inr None) dates"
    using days(1,3) start(2) by simp_all
  show "pf_reach (bt_portfolio bt)" if "ids_fit (bt_portfolio bt)"
  proof -
    have "ids_fit (bt_portfolio bt0)" using days(2) that by (rule order_trans)
    then show ?thesis using days(4) start(3) that by blast
  qed
qed

end

section \<open>A concrete backtest\<close>

text \<open>Two dates, of which the source has the first: the session of the demonstration run.\<close>

definition future_source :: data_source where
  "future_source = \<lparr>ds_sessions = [Date 20250701, Date 20250702],
     ds_load = (\<lambda>d. Inr (if d = Date 20250701 then Some future_session else None))\<rparr>"

definition future_backtest :: backtest_config where
  "future_backtest = default_backtest_config\<lparr>bc_run := free_config, bc_expiry := Forbid\<rparr>"

lemma future_source_ok: "source_ok future_source"
  using future_ok by (simp add: source_ok_def future_source_def)

lemma future_bt_margin:
  assumes "map (\<lambda>p. map leg_instrument (pos_legs p)) (positions q) = [[InstrumentId 0]]" and "cx_session c = future_session"
  shows "margin c q = Inr no_margin"
proof -
  obtain pos l where "positions q = [pos]" "pos_legs pos = [l]" "leg_instrument l = InstrumentId 0"
    using assms(1) by auto
  then show ?thesis using assms(2)
    by (simp add: margin_def group_leg_def cx_registry_def is_option_def future_spec_def)
qed

lemma refresh_shape [simp]:
  "map (\<lambda>p. map leg_instrument (pos_legs p)) (positions (refresh_marks mv q)) =
   map (\<lambda>p. map leg_instrument (pos_legs p)) (positions q)"
  by (simp add: refresh_marks_def comp_def)

lemma future_bt_step:
  assumes "process_pending (market future_session t) (rs_portfolio st) = Inr q" and "rules q = []"
    and q: "map (\<lambda>p. map leg_instrument (pos_legs p)) (positions q) = [[InstrumentId 0]]"
    and "rs_now st \<le> t" and "rs_task st"
  shows "\<exists>st'. backtest_step buy_at_once free_config future_session c t st = Inr st' \<and>
    rs_now st' = t \<and> rs_portfolio st' = refresh_marks (market future_session t) q \<and> rs_task st'"
proof -
  let ?q = "refresh_marks (market future_session t) q"
  have "margin (ctx_on c future_session t) ?q = Inr no_margin"
    by (rule future_bt_margin) (use q in \<open>simp_all add: ctx_on_def\<close>)
  then have "\<exists>x. sample_margin free_config (ctx_on c future_session t) ?q t (rs_next_margin st, rs_peak st) = Inr x"
    by (simp add: sample_margin_def)
  moreover have "resume_loop buy_at_once mx c' t g (True, ?q, e, r) = Inr (True, ?q, e, r)" for mx c' g e r
    by (subst resume_loop.simps) (simp add: buy_at_once_def)
  ultimately show ?thesis
    using assms(1,2,4,5) by (auto simp: backtest_step_def advance_to_def process_risk_rules_def Let_def)
qed

text \<open>The order is refreshed before it is filled: the leg is still pending, so its mark stays.\<close>

lemma bought_marks: "refresh_marks mv bought = bought"
  by (simp add: refresh_marks_def bought_def refresh_leg_def new_leg_def live_def)

lemma future_bt_steps:
  assumes "rs_now st0 = Timestamp 0" "rs_portfolio st0 = bought" "rs_task st0"
  shows "\<exists>st. try_fold (backtest_step buy_at_once free_config future_session c) (fst (session_steps future_session)) st0 = Inr st \<and>
    rs_now st = Timestamp 30 \<and> pending (rs_portfolio st) = [] \<and> rules (rs_portfolio st) = [] \<and>
    map (\<lambda>t. (signal_ts t, fill_ts t)) (trades (rs_portfolio st)) = [(Timestamp 0, Timestamp 20)] \<and>
    map (\<lambda>p. map leg_instrument (pos_legs p)) (positions (rs_portfolio st)) = [[InstrumentId 0]]"
proof -
  let ?step = "backtest_step buy_at_once free_config future_session c"
  let ?mv = "\<lambda>t. market future_session (Timestamp t)"
  have b: "rules bought = []" "map (\<lambda>p. map leg_instrument (pos_legs p)) (positions bought) = [[InstrumentId 0]]"
    by (simp_all add: bought_def new_leg_def)
  have le: "rs_now st0 \<le> Timestamp 10" by (simp add: assms(1))
  have "process_pending (?mv 10) (rs_portfolio st0) = Inr bought" by (simp only: assms(2) future_wait)
  from future_bt_step [where c = c, OF this b le assms(3), unfolded bought_marks] obtain st1 where
    st1: "?step (Timestamp 10) st0 = Inr st1" "rs_now st1 = Timestamp 10" "rs_portfolio st1 = bought" "rs_task st1"
    by (elim exE conjE) (rule that)
  obtain q where q: "process_pending (?mv 20) bought = Inr q"
    "map (\<lambda>t. (signal_ts t, fill_ts t)) (trades q) = [(Timestamp 0, Timestamp 20)]" "pending q = []" "rules q = []"
    "map (\<lambda>p. map leg_instrument (pos_legs p)) (positions q) = [[InstrumentId 0]]"
    using future_fill by (elim exE conjE) (rule that)
  have le: "rs_now st1 \<le> Timestamp 20" by (simp add: st1(2))
  have "process_pending (?mv 20) (rs_portfolio st1) = Inr q" by (simp only: st1(3) q(1))
  from future_bt_step [where c = c, OF this q(4,5) le st1(4)] obtain st2 where
    st2: "?step (Timestamp 20) st1 = Inr st2" "rs_now st2 = Timestamp 20" "rs_portfolio st2 = refresh_marks (?mv 20) q" "rs_task st2"
    by (elim exE conjE) (rule that)
  let ?q = "refresh_marks (?mv 20) q"
  have q': "rules ?q = []" "map (\<lambda>p. map leg_instrument (pos_legs p)) (positions ?q) = [[InstrumentId 0]]"
    by (simp_all add: q(4,5))
  have le: "rs_now st2 \<le> Timestamp 30" by (simp add: st2(2))
  have "process_pending (?mv 30) (rs_portfolio st2) = Inr ?q" by (simp add: process_pending_def q(3) st2(3))
  from future_bt_step [where c = c, OF this q' le st2(4)] obtain st3 where
    st3: "?step (Timestamp 30) st2 = Inr st3" "rs_now st3 = Timestamp 30" "rs_portfolio st3 = refresh_marks (?mv 30) ?q"
    by (elim exE conjE) (rule that)
  have steps: "fst (session_steps future_session) = [Timestamp 10, Timestamp 20, Timestamp 30]"
    by (simp add: session_steps_def future_session_def)
  have "try_fold ?step (fst (session_steps future_session)) st0 = Inr st3"
    unfolding steps try_fold.simps st1(1) st2(1) st3(1) sum.case by (rule refl)
  then show ?thesis using st3(2,3) q(2-5) by (intro exI [of _ st3] conjI) simp_all
qed

lemma future_close:
  assumes "pending p = []" "rules p = []" and q: "map (\<lambda>p. map leg_instrument (pos_legs p)) (positions p) = [[InstrumentId 0]]"
  shows "\<exists>bell. close_session future_backtest future_session c sp d now p = Inr (bell, p, 0)"
proof -
  obtain pos l where p: "positions p = [pos]" "pos_legs pos = [l]" "leg_instrument l = InstrumentId 0" using q by auto
  have "due_expiries p (sd_registry future_session) d = Inr []"
    by (simp add: due_expiries_def due_leg_def p is_option_def future_spec_def)
  moreover have "cancel_working_orders p = Inr (0, p)" using assms(1,2) by (simp add: cancel_working_orders_def)
  ultimately show ?thesis by (simp add: close_session_def Let_def)
qed

lemma future_bt_day:
  assumes "bt_now bt = Timestamp 0" "bt_portfolio bt = bought" "bt_task bt"
  shows "\<exists>bt'. run_day buy_at_once future_backtest future_source sp (Date 20250701) bt = Inr bt' \<and>
    map (\<lambda>t. (signal_ts t, fill_ts t)) (trades (bt_portfolio bt')) = [(Timestamp 0, Timestamp 20)] \<and>
    map (\<lambda>p. map leg_instrument (pos_legs p)) (positions (bt_portfolio bt')) = [[InstrumentId 0]]"
proof -
  define c where "c = bind_session future_session (market future_session (bt_now bt)) (Date 20250701) (bt_ctx bt)"
  define st0 where "st0 = \<lparr>rs_now = bt_now bt, rs_portfolio = bt_portfolio bt, rs_task = bt_task bt,
    rs_next_margin = kNoTime, rs_peak = 0, rs_steps = bt_steps bt, rs_evals = 0, rs_resumes = bt_resumes bt\<rparr>"
  have "rs_now st0 = Timestamp 0" "rs_portfolio st0 = bought" "rs_task st0" using assms by (simp_all add: st0_def)
  from future_bt_steps [where c = c, OF this] obtain st where
    st: "try_fold (backtest_step buy_at_once free_config future_session c) (fst (session_steps future_session)) st0 = Inr st"
    "pending (rs_portfolio st) = []" "rules (rs_portfolio st) = []"
    "map (\<lambda>t. (signal_ts t, fill_ts t)) (trades (rs_portfolio st)) = [(Timestamp 0, Timestamp 20)]"
    "map (\<lambda>p. map leg_instrument (pos_legs p)) (positions (rs_portfolio st)) = [[InstrumentId 0]]"
    by (elim exE conjE) (rule that)
  from future_close [where c = c and sp = sp and d = "Date 20250701" and now = "rs_now st", OF st(2,3,5)] obtain bell where
    bell: "close_session future_backtest future_session c sp (Date 20250701) (rs_now st) (rs_portfolio st) = Inr (bell, rs_portfolio st, 0)"
    by (elim exE) (rule that)
  have load: "ds_load future_source (Date 20250701) = Inr (Some future_session)" by (simp add: future_source_def)
  have cfg: "bc_run future_backtest = free_config" by (simp add: future_backtest_def)
  show ?thesis
    unfolding run_day_def load sum.case option.case Let_def cfg c_def [symmetric] st0_def [symmetric] st(1) bell prod.case
    using st(4,5) by simp
qed

lemma future_bt_start:
  "\<exists>p0 bt. new_portfolio (Some cross_spread) 15 (Some no_costs) = Inr p0 \<and>
    backtest_start buy_at_once flat_libm future_backtest future_source (UnderlyingId 0) sp [Date 20250701, Date 20250702] p0 = Inr bt \<and>
    bt_now bt = Timestamp 0 \<and> bt_portfolio bt = bought \<and> bt_task bt"
  by (simp add: backtest_start_def future_source_def buy_at_once_def new_portfolio_def
      submit_open_def open_leg_def submit_def Let_def to_i32_def bought_def new_ctx_def cx_now_def)

lemma future_bt_loop:
  "\<exists>p0 bt. new_portfolio (Some cross_spread) 15 (Some no_costs) = Inr p0 \<and>
    backtest_loop buy_at_once flat_libm future_backtest future_source (UnderlyingId 0) sp [Date 20250701, Date 20250702] p0 = Inr bt \<and>
    map (\<lambda>t. (signal_ts t, fill_ts t)) (trades (bt_portfolio bt)) = [(Timestamp 0, Timestamp 20)] \<and>
    map (\<lambda>p. map leg_instrument (pos_legs p)) (positions (bt_portfolio bt)) = [[InstrumentId 0]]"
proof -
  obtain p0 bt0 where start: "new_portfolio (Some cross_spread) 15 (Some no_costs) = Inr p0"
    "backtest_start buy_at_once flat_libm future_backtest future_source (UnderlyingId 0) sp [Date 20250701, Date 20250702] p0 = Inr bt0"
    "bt_now bt0 = Timestamp 0" "bt_portfolio bt0 = bought" "bt_task bt0"
    using future_bt_start [of sp] by (elim exE conjE) (rule that)
  from future_bt_day [where sp = sp, OF start(3-5)] obtain bt1 where day: "run_day buy_at_once future_backtest future_source sp (Date 20250701) bt0 = Inr bt1"
    "map (\<lambda>t. (signal_ts t, fill_ts t)) (trades (bt_portfolio bt1)) = [(Timestamp 0, Timestamp 20)]"
    "map (\<lambda>p. map leg_instrument (pos_legs p)) (positions (bt_portfolio bt1)) = [[InstrumentId 0]]"
    by (elim exE conjE) (rule that)
  have "run_day buy_at_once future_backtest future_source sp (Date 20250702) bt1 = Inr bt1"
    by (simp add: run_day_def future_source_def)
  then have "backtest_loop buy_at_once flat_libm future_backtest future_source (UnderlyingId 0) sp [Date 20250701, Date 20250702] p0 = Inr bt1"
    by (simp add: backtest_loop_def start(2) day(1))
  then show ?thesis using start(1) day(2,3) by (intro exI conjI)
qed

section \<open>Properties\<close>



text \<open>C25: a backtest accounts for every session and every trade.  The reported sessions are, in ascending
  order, the dates the source could load, one daily summary each; the trades and the settled legs of
  the summaries add up to the log; no fill is at or before its signal nor inside the execution delay,
  across session boundaries included; the log is in time order; the cost total is the sum of the log;
  and final equity is that of the last summary, equal to net realised plus unrealised.\<close>

theorem backtest_accounts_for_every_trade:
  assumes "order_strategy S" and "source_ok src"
    and new: "new_portfolio (Some (case rc_fills (bc_run cfg) of None \<Rightarrow> cross_spread | Some f \<Rightarrow> f))
      (execution_delay_nanos (bc_run cfg)) (rc_costs (bc_run cfg)) = Inr p0"
    and dates: "dates = (if dates0 = [] then ds_sessions src else dates0)" "dates \<noteq> []"
    and loop: "backtest_loop S m cfg src u sp dates p0 = Inr bt" and fit: "ids_fit (bt_portfolio bt)"
    and run: "run_backtest S m cfg src u sp dates0 = Inr r"
  shows "br_sessions r = filter (\<lambda>d. ds_load src d \<noteq> Inr None) dates \<and> sorted (br_sessions r) \<and>
    map ss_date (daily r) = br_sessions r \<and>
    br_trades r = length (br_trade_log r) \<and> sum_list (map ss_trades (daily r)) = br_trades r \<and>
    sum_list (map ss_settled_legs (daily r)) = length (filter t_settled (br_trade_log r)) \<and>
    (\<forall>t \<in> set (br_trade_log r). \<not> t_settled t \<longrightarrow> signal_ts t < fill_ts t \<and>
       nanos (signal_ts t) + execution_delay_nanos (bc_run cfg) \<le> nanos (fill_ts t)) \<and>
    sorted (map fill_ts (br_trade_log r)) \<and>
    br_costs r = sum_list (map t_cost (br_trade_log r)) \<and>
    br_final_equity r = br_net_realized r + br_unrealized r \<and>
    (daily r \<noteq> [] \<longrightarrow> br_final_equity r = ss_equity (last (daily r)))"
proof -
  have fills: "(case rc_fills (bc_run cfg) of None \<Rightarrow> Some cross_spread | Some f \<Rightarrow> Some f) =
      Some (case rc_fills (bc_run cfg) of None \<Rightarrow> cross_spread | Some f \<Rightarrow> f)"
    by (simp split: option.splits)
  have sorted: "sorted dates" and r: "r = backtest_report S bt"
    using run dates(2) unfolding run_backtest_def fills Let_def dates(1) [symmetric]
    by (simp_all add: new loop split: if_splits)
  note laws = order_strategy.backtest_loop_laws [OF assms(1,2) loop new]
  have inv: "bt_inv cfg bt" by (rule laws(1))
  have "portfolio_ok (bt_portfolio bt)" by (rule pf_reach_ok [OF laws(3) [OF fit]])
  then have led: "ledger_ok (bt_portfolio bt)" and tim: "timing_ok (bt_portfolio bt)"
    by (simp_all add: portfolio_ok_def inv_with_def)
  have cancel: "a + (b - a) = b" for a b :: money
    by (cases a; cases b) (simp add: plus_money_def minus_money_def)
  have "br_sessions r = filter (\<lambda>d. ds_load src d \<noteq> Inr None) dates" "br_costs r = sum_list (map t_cost (br_trade_log r))"
    "br_final_equity r = br_net_realized r + br_unrealized r" "br_trades r = length (br_trade_log r)"
    using laws(2) led by (simp_all add: r backtest_report_def Let_def ledger_ok_def)
  moreover have "daily r \<noteq> [] \<longrightarrow> br_final_equity r = ss_equity (last (daily r))"
    by (simp add: r backtest_report_def Let_def cancel)
  moreover have "sorted (map fill_ts (br_trade_log r))" "map ss_date (daily r) = br_sessions r"
    "sum_list (map ss_trades (daily r)) = br_trades r"
    "sum_list (map ss_settled_legs (daily r)) = length (filter t_settled (br_trade_log r))"
    using inv by (simp_all add: bt_inv_def timely_def log_in_time_def r backtest_report_def Let_def)
  moreover have "\<forall>t \<in> set (br_trade_log r). \<not> t_settled t \<longrightarrow> signal_ts t < fill_ts t \<and>
       nanos (signal_ts t) + execution_delay_nanos (bc_run cfg) \<le> nanos (fill_ts t)"
    using inv tim
    by (auto simp: bt_inv_def timely_def log_in_time_def timing_ok_def r backtest_report_def Let_def less_eq_timestamp_def)
  moreover have "sorted (filter (\<lambda>d. ds_load src d \<noteq> Inr None) dates)"
    using sorted sorted_filter [of "\<lambda>d. d" dates] by simp
  ultimately show ?thesis by (simp only: simp_thms)
qed

theorem backtest_accounts_for_every_trade_witness:
  "\<exists>r. run_backtest buy_at_once flat_libm future_backtest future_source (UnderlyingId 0) (InstrumentId 0) [] = Inr r \<and>
     map ss_date (daily r) = [Date 20250701] \<and> sum_list (map ss_trades (daily r)) = 1"
proof -
  obtain p0 bt where loop: "new_portfolio (Some cross_spread) 15 (Some no_costs) = Inr p0"
    "backtest_loop buy_at_once flat_libm future_backtest future_source (UnderlyingId 0) (InstrumentId 0) [Date 20250701, Date 20250702] p0 = Inr bt"
    "map (\<lambda>t. (signal_ts t, fill_ts t)) (trades (bt_portfolio bt)) = [(Timestamp 0, Timestamp 20)]"
    "map (\<lambda>p. map leg_instrument (pos_legs p)) (positions (bt_portfolio bt)) = [[InstrumentId 0]]"
    using future_bt_loop [of "InstrumentId 0"] by (elim exE conjE) (rule that)
  have cfg: "execution_delay_nanos (bc_run future_backtest) = 15" "rc_costs (bc_run future_backtest) = Some no_costs"
    "rc_fills (bc_run future_backtest) = None"
    by (simp_all add: future_backtest_def free_config_def default_run_config_def)
  have new: "new_portfolio (Some (case rc_fills (bc_run future_backtest) of None \<Rightarrow> cross_spread | Some f \<Rightarrow> f))
      (execution_delay_nanos (bc_run future_backtest)) (rc_costs (bc_run future_backtest)) = Inr p0"
    using loop(1) by (simp add: cfg)
  have dates: "[Date 20250701, Date 20250702] = (if ([]::date list) = [] then ds_sessions future_source else [])"
    by (simp add: future_source_def)
  have "length (positions (bt_portfolio bt)) = 1" "length (trades (bt_portfolio bt)) = 1"
    using arg_cong [OF loop(4), of length] arg_cong [OF loop(3), of length] by simp_all
  moreover have run: "run_backtest buy_at_once flat_libm future_backtest future_source (UnderlyingId 0) (InstrumentId 0) [] =
      Inr (backtest_report buy_at_once bt)"
    using loop(1,2) by (simp add: run_backtest_def cfg Let_def dates [symmetric, simplified] less_eq_date_def)
  ultimately show ?thesis
    using backtest_accounts_for_every_trade [OF buying.order_strategy_axioms future_source_ok new dates _ loop(2) _ run]
    by (intro exI [of _ "backtest_report buy_at_once bt"]) (simp add: future_source_def backtest_report_def Let_def)
qed

end
