(* ===== verification/Codec.thy ===== *)
theory Codec
  imports Prelude
begin

text \<open>
  \<open>codec.hpp\<close> and \<open>codec.cpp\<close>: the integer column codec.  Every \<open>int64_t\<close> and \<open>uint64_t\<close> is a
  64-bit word, so arithmetic wraps as the code's casts make it; \<open>sint\<close> reads a word as signed.  The
  output vector is the list of bytes appended to it, an input pointer the list of the bytes left.
  A routine that returns false or 0 on malformed input returns \<open>None\<close>.
\<close>

unbundle bit_operations_syntax

type_synonym u8 = "8 word"
type_synonym u64 = "64 word"

section \<open>Zigzag and varints\<close>

definition zigzag :: "u64 \<Rightarrow> u64" where
  "zigzag v = push_bit 1 v XOR signed_drop_bit 63 v"

definition unzigzag :: "u64 \<Rightarrow> u64" where
  "unzigzag v = drop_bit 1 v XOR (NOT (v AND 1) + 1)"

lemma unat_drop_less: "v \<noteq> 0 \<Longrightarrow> 0 < n \<Longrightarrow> unat (drop_bit n v) < unat v" for v :: u64
proof -
  assume "v \<noteq> 0" "0 < n"
  then have "0 < unat v" "1 < (2 :: nat) ^ n" by (simp add: unat_gt_0, intro one_less_power) simp_all
  then show ?thesis by (simp add: unat_drop_bit_eq drop_bit_nat_def)
qed

function put_varint :: "u64 \<Rightarrow> u8 list" where
  "put_varint v = (if 0x80 \<le> v then (ucast v OR 0x80) # put_varint (drop_bit 7 v) else [ucast v])"
  by auto
termination
  by (relation "measure unat") (auto intro!: unat_drop_less)

fun varint_loop :: "nat \<Rightarrow> u64 \<Rightarrow> u8 list \<Rightarrow> (u64 \<times> u8 list) option" where
  "varint_loop shift acc [] = None"
| "varint_loop shift acc (b # bs) =
     (let acc' = acc OR push_bit shift (ucast (b AND 0x7F))
      in if b AND 0x80 = 0 then Some (acc', bs)
         else if 63 < shift + 7 then None
         else varint_loop (shift + 7) acc' bs)"

definition get_varint :: "u8 list \<Rightarrow> (u64 \<times> u8 list) option" where
  "get_varint bs = varint_loop 0 0 bs"

section \<open>Bit packing\<close>

definition kMaxPackedBits :: nat where
  "kMaxPackedBits = 56"

definition kCodecBlock :: nat where
  "kCodecBlock = 128"

function gcd_of :: "u64 \<Rightarrow> u64 \<Rightarrow> u64" where
  "gcd_of a b = (if b \<noteq> 0 then gcd_of b (a mod b) else a)"
  by auto
termination
  by (relation "measure (\<lambda>(a, b). unat b)") (auto simp: unat_mod word_neq_0_conv unat_gt_0)

function bits_for :: "u64 \<Rightarrow> nat" where
  "bits_for rng = (if 0 < rng then 1 + bits_for (drop_bit 1 rng) else 0)"
  by auto
termination
  by (relation "measure unat") (auto intro!: unat_drop_less simp: word_gt_0)

declare put_varint.simps [simp del] gcd_of.simps [simp del] bits_for.simps [simp del]

definition mask_of :: "nat \<Rightarrow> u64" where
  "mask_of bits = (if bits = 64 then NOT 0 else push_bit bits 1 - 1)"

text \<open>The inner loop of \<open>pack\<close>: the full bytes of the accumulator, what is left and its length.\<close>

fun flush :: "u64 \<Rightarrow> nat \<Rightarrow> u8 list \<times> u64 \<times> nat" where
  "flush acc n = (if 8 \<le> n then (let (bs, a, h) = flush (drop_bit 8 acc) (n - 8) in (ucast (acc AND 0xFF) # bs, a, h))
                  else ([], acc, n))"

declare flush.simps [simp del]

fun pack_loop :: "nat \<Rightarrow> u64 list \<Rightarrow> u64 \<Rightarrow> nat \<Rightarrow> u8 list" where
  "pack_loop bits [] acc n = (if 0 < n then [ucast (acc AND 0xFF)] else [])"
| "pack_loop bits (v # vs) acc n =
     (let (bs, a, h) = flush (acc OR push_bit n (v AND mask_of bits)) (n + bits) in bs @ pack_loop bits vs a h)"

definition pack :: "u64 list \<Rightarrow> nat \<Rightarrow> u8 list" where
  "pack values bits = (if bits = 0 then [] else pack_loop bits values 0 0)"

definition packed_bytes :: "nat \<Rightarrow> nat \<Rightarrow> nat" where
  "packed_bytes n bits = (n * bits + 7) div 8"

text \<open>The inner loop of \<open>unpack\<close>; the bytes cannot run out, their number having been checked.\<close>

fun refill :: "nat \<Rightarrow> u64 \<Rightarrow> nat \<Rightarrow> u8 list \<Rightarrow> u64 \<times> nat \<times> u8 list" where
  "refill bits acc n [] = (acc, n, [])"
| "refill bits acc n (b # bs) =
     (if n < bits then refill bits (acc OR push_bit n (ucast b)) (n + 8) bs else (acc, n, b # bs))"

fun unpack_loop :: "nat \<Rightarrow> nat \<Rightarrow> u64 \<Rightarrow> nat \<Rightarrow> u8 list \<Rightarrow> u64 list" where
  "unpack_loop bits 0 acc n q = []"
| "unpack_loop bits (Suc k) acc n q =
     (let (a, h, q') = refill bits acc n q
      in (a AND mask_of bits) # unpack_loop bits k (drop_bit bits a) (h - bits) q')"

definition unpack :: "u8 list \<Rightarrow> nat \<Rightarrow> nat \<Rightarrow> (u64 list \<times> u8 list) option" where
  "unpack p n bits =
     (if bits = 0 then Some (replicate n 0, p)
      else if length p < packed_bytes n bits then None
      else Some (unpack_loop bits n 0 0 p, drop (packed_bytes n bits) p))"

section \<open>Columns\<close>

definition magnitude :: "u64 \<Rightarrow> u64" where
  "magnitude d = (if sint d < 0 then NOT d + 1 else d)"

fun scale_loop :: "u64 \<Rightarrow> u64 \<Rightarrow> u64 list \<Rightarrow> u64" where
  "scale_loop previous scale [] = scale"
| "scale_loop previous scale (v # vs) =
     (if scale = 1 then scale else scale_loop v (gcd_of scale (magnitude (v - previous))) vs)"

definition signed_quotient :: "u64 \<Rightarrow> u64 \<Rightarrow> u64" where
  "signed_quotient a b = word_of_int (cdiv (sint a) (sint b))"

fun block_deltas :: "u64 \<Rightarrow> u64 \<Rightarrow> u64 list \<Rightarrow> u64 list" where
  "block_deltas scale previous [] = []"
| "block_deltas scale previous (v # vs) =
     (let raw = v - previous in (if scale = 1 then raw else signed_quotient raw scale) # block_deltas scale v vs)"

definition signed_min :: "u64 \<Rightarrow> u64 \<Rightarrow> u64" where
  "signed_min a b = (if sint b < sint a then b else a)"

definition min_delta_of :: "u64 list \<Rightarrow> u64" where
  "min_delta_of ds = fold (\<lambda>d m. signed_min m d) ds (word_of_int (2 ^ 63 - 1))"

text \<open>A raw 64-bit value, least significant byte first.\<close>

definition put_raw :: "u64 \<Rightarrow> u8 list" where
  "put_raw v = map (\<lambda>b. ucast (drop_bit (8 * b) v AND 0xFF)) [0..<8]"

definition encode_block :: "u64 \<Rightarrow> u64 \<Rightarrow> u64 list \<Rightarrow> u8 list" where
  "encode_block scale previous blk =
     (let deltas = block_deltas scale previous blk;
          min_delta = min_delta_of deltas;
          residuals = map (\<lambda>d. d - min_delta) deltas;
          rng = fold (\<lambda>r m. max m r) residuals 0;
          bits0 = bits_for rng;
          bits = (if kMaxPackedBits < bits0 then 64 else bits0)
      in put_varint (zigzag min_delta) @ [of_nat bits] @
         (if bits = 64 then concat (map put_raw residuals) else pack residuals bits))"

function encode_blocks :: "u64 \<Rightarrow> u64 \<Rightarrow> u64 list \<Rightarrow> u8 list" where
  "encode_blocks scale previous vs =
     (if vs = [] then []
      else let blk = take kCodecBlock vs
           in encode_block scale previous blk @ encode_blocks scale (last blk) (drop kCodecBlock vs))"
  by auto
termination
  by (relation "measure (\<lambda>(s, p, vs). length vs)") (auto simp: kCodecBlock_def)

declare encode_blocks.simps [simp del]

text \<open>The bytes appended to \<open>out\<close> and their number.\<close>

definition column_bytes :: "u64 list \<Rightarrow> u8 list" where
  "column_bytes values = put_varint (of_nat (length values)) @
     (case values of [] \<Rightarrow> []
      | v # vs \<Rightarrow>
          let scale0 = scale_loop v 0 vs; scale = (if scale0 = 0 then 1 else scale0)
          in put_varint (zigzag v) @ put_varint scale @ encode_blocks scale v vs)"

definition encode_column :: "u64 list \<Rightarrow> u8 list \<Rightarrow> u8 list \<times> nat" where
  "encode_column values out = (out @ column_bytes values, length (column_bytes values))"

definition peek_column_count :: "u8 list \<Rightarrow> nat" where
  "peek_column_count bs = (case get_varint bs of None \<Rightarrow> 0 | Some (count, _) \<Rightarrow> unat count)"

text \<open>The eight bytes of a raw value; \<open>b\<close> counts them.\<close>

fun get_raw :: "nat \<Rightarrow> u64 \<Rightarrow> u8 list \<Rightarrow> u64" where
  "get_raw b v [] = v"
| "get_raw b v (x # xs) = get_raw (b + 1) (v OR push_bit (8 * b) (ucast x)) xs"

fun raw_values :: "nat \<Rightarrow> u8 list \<Rightarrow> u64 list" where
  "raw_values 0 p = []"
| "raw_values (Suc n) p = get_raw 0 0 (take 8 p) # raw_values n (drop 8 p)"

definition decode_residuals :: "u8 list \<Rightarrow> nat \<Rightarrow> nat \<Rightarrow> (u64 list \<times> u8 list) option" where
  "decode_residuals p n bits =
     (if 64 < bits then None
      else if bits = 64 then
        (if length p < n * 8 then None else Some (raw_values n p, drop (n * 8) p))
      else if kMaxPackedBits < bits then None
      else unpack p n bits)"

text \<open>The inner loop that rebuilds a block from its residuals.\<close>

fun rebuild :: "u64 \<Rightarrow> u64 \<Rightarrow> u64 \<Rightarrow> u64 list \<Rightarrow> u64 list" where
  "rebuild scale min_delta previous [] = []"
| "rebuild scale min_delta previous (r # rs) =
     (let delta = r + min_delta;
          delta' = (if scale \<noteq> 1 then delta * scale else delta);
          v = previous + delta'
      in v # rebuild scale min_delta v rs)"

definition decode_block :: "u64 \<Rightarrow> u64 \<Rightarrow> nat \<Rightarrow> u8 list \<Rightarrow> (u64 list \<times> u8 list) option" where
  "decode_block scale previous n p =
     (case get_varint p of None \<Rightarrow> None
      | Some (packed_min, p1) \<Rightarrow>
         (case p1 of [] \<Rightarrow> None
          | b # p2 \<Rightarrow>
             (case decode_residuals p2 n (unat b) of None \<Rightarrow> None
              | Some (rs, p3) \<Rightarrow> Some (rebuild scale (unzigzag packed_min) previous rs, p3))))"

function decode_blocks :: "u64 \<Rightarrow> u64 \<Rightarrow> nat \<Rightarrow> u8 list \<Rightarrow> (u64 list \<times> u8 list) option" where
  "decode_blocks scale previous left p =
     (if left = 0 then Some ([], p)
      else case decode_block scale previous (min kCodecBlock left) p of None \<Rightarrow> None
        | Some (vs, p1) \<Rightarrow>
            (case decode_blocks scale (last vs) (left - min kCodecBlock left) p1 of None \<Rightarrow> None
             | Some (ws, p2) \<Rightarrow> Some (vs @ ws, p2)))"
  by auto
termination
  by (relation "measure (\<lambda>(s, v, n, p). n)") (auto simp: kCodecBlock_def)

declare decode_blocks.simps [simp del]

text \<open>The decoded column and the number of bytes consumed.\<close>

definition decode_column :: "u8 list \<Rightarrow> (u64 list \<times> nat) option" where
  "decode_column bs =
     (case get_varint bs of None \<Rightarrow> None
      | Some (count, p) \<Rightarrow>
          if count = 0 then Some ([], length bs - length p)
          else case get_varint p of None \<Rightarrow> None
          | Some (first, p1) \<Rightarrow>
             (case get_varint p1 of None \<Rightarrow> None
              | Some (scale, p2) \<Rightarrow>
                 if scale = 0 then None
                 else case decode_blocks scale (unzigzag first) (unat count - 1) p2 of None \<Rightarrow> None
                 | Some (vs, p3) \<Rightarrow> Some (unzigzag first # vs, length bs - length p3)))"

end
