(* ===== verification/Files.thy ===== *)
theory Files
  imports Prelude "HOL-Library.Char_ord" "HOL-Library.List_Lexorder"
begin

text \<open>
  The part of \<open>std::filesystem\<close> and of the file streams that the adapters and the day store use:
  file names, and a disk of regular files whose answers to \<open>ifstream\<close> and \<open>ofstream\<close> are its
  state.  What a stream reads is what was last written.
\<close>

text \<open>\<open>path::extension\<close>: from the last dot, unless that is the first character.\<close>

definition path_extension :: "string \<Rightarrow> string" where
  "path_extension name =
     (let suffix = takeWhile (\<lambda>c. c \<noteq> CHR ''.'') (rev name)
      in if length name \<le> length suffix + 1 then [] else CHR ''.'' # rev suffix)"

text \<open>
  A regular file, and whether it opens for reading.  \<open>can_create\<close> and \<open>has_room\<close> decide whether
  \<open>ofstream\<close> opens a path and whether that many bytes reach it.
\<close>

record disk_file =
  df_readable :: bool
  df_bytes :: "8 word list"

record disk =
  disk_files :: "string \<Rightarrow> disk_file option"
  can_create :: "string \<Rightarrow> bool"
  has_room :: "string \<Rightarrow> nat \<Rightarrow> bool"

definition store_file :: "string \<Rightarrow> 8 word list \<Rightarrow> disk \<Rightarrow> disk" where
  "store_file path bytes d = d\<lparr>disk_files := (disk_files d)(path \<mapsto> \<lparr>df_readable = True, df_bytes = bytes\<rparr>)\<rparr>"

lemma disk_files_store_file [simp]:
  "disk_files (store_file path bytes d) q =
    (if q = path then Some \<lparr>df_readable = True, df_bytes = bytes\<rparr> else disk_files d q)"
  by (simp add: store_file_def)

end
