(* ===== verification/Vfday.thy ===== *)
theory Vfday
  imports Codec Cursor Doubles Files
begin

unbundle bit_operations_syntax

text \<open>
  \<open>vfday.hpp\<close> and \<open>vfday.cpp\<close>: the day store, one file per session.  A file is its list of bytes; the
  packed structs are written and read by \<open>memcpy\<close>, here the little-endian layout of the platforms
  the code runs on.  A failure carries the data of its message; the sum of a
  failure and a result stands beside the state that the failure leaves behind (the registry, the
  stream, the cache), since \<open>VfdaySource\<close> catches what \<open>open\<close> throws and goes on.
\<close>

section \<open>Checksum\<close>

type_synonym u32 = "32 word"

definition crc_bit :: "u32 \<Rightarrow> u32" where
  "crc_bit c = (if c AND 1 \<noteq> 0 then 0xEDB88320 XOR drop_bit 1 c else drop_bit 1 c)"

definition crc_table :: "u32 list" where
  "crc_table = map (\<lambda>i. (crc_bit ^^ 8) (word_of_nat i)) [0..<256]"

definition crc_step :: "u8 \<Rightarrow> u32 \<Rightarrow> u32" where
  "crc_step b c = crc_table ! unat ((c XOR ucast b) AND 0xFF) XOR drop_bit 8 c"

definition crc32 :: "u8 list \<Rightarrow> u32 \<Rightarrow> u32" where
  "crc32 bs seed = fold crc_step bs (seed XOR 0xFFFFFFFF) XOR 0xFFFFFFFF"

text \<open>The call with the default seed, as the number the structs hold.\<close>

definition checksum :: "u8 list \<Rightarrow> int" where
  "checksum bs = uint (crc32 bs 0)"

section \<open>Packed structs\<close>

text \<open>The \<open>n\<close> bytes of an integer, least significant first, and the integer of some bytes.\<close>

fun le :: "nat \<Rightarrow> int \<Rightarrow> u8 list" where
  "le 0 x = []"
| "le (Suc n) x = word_of_int x # le n (x div 256)"

fun unle :: "u8 list \<Rightarrow> int" where
  "unle [] = 0"
| "unle (b # bs) = uint b + 256 * unle bs"

definition u8_at :: "nat \<Rightarrow> u8 list \<Rightarrow> int" where
  "u8_at k bs = unle (take 1 (drop k bs))"

definition u16_at :: "nat \<Rightarrow> u8 list \<Rightarrow> int" where
  "u16_at k bs = unle (take 2 (drop k bs))"

definition u32_at :: "nat \<Rightarrow> u8 list \<Rightarrow> int" where
  "u32_at k bs = unle (take 4 (drop k bs))"

definition i32_at :: "nat \<Rightarrow> u8 list \<Rightarrow> int" where
  "i32_at k bs = to_i32 (unle (take 4 (drop k bs)))"

definition i64_at :: "nat \<Rightarrow> u8 list \<Rightarrow> int" where
  "i64_at k bs = to_i64 (unle (take 8 (drop k bs)))"

text \<open>One of the four groups offset, bytes (for the timeline: entries), checksum of the header.\<close>

datatype region = Region (rg_offset: int) (rg_size: int) (rg_crc: int)

record file_header =
  h_magic :: "u8 list"
  h_version :: int
  h_flags :: int
  h_date :: int
  h_instrument_count :: int
  h_total_rows :: int
  h_table :: region
  h_strings :: region
  h_timeline :: region
  h_directory :: region
  h_file_bytes :: int
  h_header_crc :: int
  h_reserved :: int

record table_entry =
  te_name_offset :: int
  te_name_length :: int
  te_kind :: int
  te_right :: int
  te_reserved :: int
  te_expiry :: int
  te_strike :: int
  te_lot_size :: int
  te_tick :: int

record directory_entry =
  dx_table_index :: int
  dx_row_count :: int
  dx_blob_offset :: int
  dx_blob_bytes :: int
  dx_blob_crc :: int
  dx_first_ts :: int
  dx_last_ts :: int

definition header_size :: nat where
  "header_size = 112"

definition table_entry_size :: nat where
  "table_entry_size = 28"

definition directory_entry_size :: nat where
  "directory_entry_size = 40"

definition kMagic :: "u8 list" where
  "kMagic = [0x56, 0x46, 0x44, 0x41, 0x59, 0x30, 0x30, 0x33]"

definition kVfdayVersion :: int where
  "kVfdayVersion = 3"

definition put_region :: "region \<Rightarrow> u8 list" where
  "put_region r = le 8 (rg_offset r) @ le 4 (rg_size r) @ le 4 (rg_crc r)"

definition region_at :: "nat \<Rightarrow> u8 list \<Rightarrow> region" where
  "region_at k bs = Region (i64_at k bs) (u32_at (k + 8) bs) (u32_at (k + 12) bs)"

text \<open>The bytes before \<open>header_crc\<close>, and the whole header.\<close>

definition header_prefix :: "file_header \<Rightarrow> u8 list" where
  "header_prefix h = h_magic h @ le 4 (h_version h) @ le 4 (h_flags h) @ le 4 (h_date h) @
     le 4 (h_instrument_count h) @ le 8 (h_total_rows h) @ put_region (h_table h) @ put_region (h_strings h) @
     put_region (h_timeline h) @ put_region (h_directory h) @ le 8 (h_file_bytes h)"

definition put_header :: "file_header \<Rightarrow> u8 list" where
  "put_header h = header_prefix h @ le 4 (h_header_crc h) @ le 4 (h_reserved h)"

definition get_header :: "u8 list \<Rightarrow> file_header" where
  "get_header bs =
     \<lparr>h_magic = take 8 bs, h_version = u32_at 8 bs, h_flags = u32_at 12 bs, h_date = i32_at 16 bs,
      h_instrument_count = i32_at 20 bs, h_total_rows = i64_at 24 bs, h_table = region_at 32 bs,
      h_strings = region_at 48 bs, h_timeline = region_at 64 bs, h_directory = region_at 80 bs,
      h_file_bytes = i64_at 96 bs, h_header_crc = u32_at 104 bs, h_reserved = u32_at 108 bs\<rparr>"

definition put_table_entry :: "table_entry \<Rightarrow> u8 list" where
  "put_table_entry t = le 4 (te_name_offset t) @ le 4 (te_name_length t) @ le 1 (te_kind t) @ le 1 (te_right t) @
     le 2 (te_reserved t) @ le 4 (te_expiry t) @ le 4 (te_strike t) @ le 4 (te_lot_size t) @ le 4 (te_tick t)"

definition get_table_entry :: "u8 list \<Rightarrow> table_entry" where
  "get_table_entry bs =
     \<lparr>te_name_offset = u32_at 0 bs, te_name_length = u32_at 4 bs, te_kind = u8_at 8 bs, te_right = u8_at 9 bs,
      te_reserved = u16_at 10 bs, te_expiry = i32_at 12 bs, te_strike = i32_at 16 bs, te_lot_size = i32_at 20 bs,
      te_tick = i32_at 24 bs\<rparr>"

definition put_directory_entry :: "directory_entry \<Rightarrow> u8 list" where
  "put_directory_entry e = le 4 (dx_table_index e) @ le 4 (dx_row_count e) @ le 8 (dx_blob_offset e) @
     le 4 (dx_blob_bytes e) @ le 4 (dx_blob_crc e) @ le 8 (dx_first_ts e) @ le 8 (dx_last_ts e)"

definition get_directory_entry :: "u8 list \<Rightarrow> directory_entry" where
  "get_directory_entry bs =
     \<lparr>dx_table_index = i32_at 0 bs, dx_row_count = u32_at 4 bs, dx_blob_offset = i64_at 8 bs,
      dx_blob_bytes = u32_at 16 bs, dx_blob_crc = u32_at 20 bs, dx_first_ts = i64_at 24 bs, dx_last_ts = i64_at 32 bs\<rparr>"

text \<open>The elements of an array of structs read as raw bytes.\<close>

definition table_at :: "u8 list \<Rightarrow> nat \<Rightarrow> table_entry" where
  "table_at raw k = get_table_entry (drop (k * table_entry_size) raw)"

definition directory_at :: "u8 list \<Rightarrow> nat \<Rightarrow> directory_entry" where
  "directory_at raw k = get_directory_entry (drop (k * directory_entry_size) raw)"

section \<open>Failures\<close>

datatype problem =
    CannotOpenForWriting | WriteFailed
  | VerifyDate | VerifyRowCount | VerifyInstrumentCount | VerifyTimelineLength | VerifyTimeline
  | VerifyMissing | VerifyColumns | VerifyChecked
  | OutsideFile string | NotAFile | CannotOpen | ShorterThanHeader | NotVfday | WrongVersion int
  | HeaderChecksum | WrongSize int int | NegativeCount
  | TableChecksum | TableMisaligned | StringsChecksum | DirectoryChecksum | DirectoryMisaligned | TimelineChecksum
  | DirectoryLength | TimelineOrder | MissingInstrument | OutsidePayload | BackwardsRange | NameOutside
  | ContractTwice | RowCounts
  | CannotReopen | ShortRead | BlobChecksum | Undecodable | ColumnLength | TrailingBytes | TimeRange

text \<open>What a store operation throws: a \<open>runtime_error\<close> about a path, or an exception of the registry.\<close>

datatype store_error = Fail string problem | Thrown exn

section \<open>Writing\<close>

definition encode_into :: "int list \<Rightarrow> u8 list \<Rightarrow> u8 list" where
  "encode_into values blob = fst (encode_column (map word_of_int values) blob)"

text \<open>The eight columns of an instrument in file order.\<close>

definition column_values :: "quote_columns \<Rightarrow> int list list" where
  "column_values c =
     [map nanos (c_ts c), map minor (c_last c), map minor (c_bid c), map minor (c_ask c),
      c_bid_qty c, c_ask_qty c, c_last_qty c, c_open_interest c]"

definition encode_columns :: "quote_columns \<Rightarrow> u8 list \<Rightarrow> u8 list" where
  "encode_columns c blob = fold encode_into (column_values c) blob"

definition name_bytes :: "string \<Rightarrow> u8 list" where
  "name_bytes name = map (\<lambda>c. word_of_nat (of_char c)) name"

record writer =
  wr_blob :: "u8 list"
  wr_directory :: "directory_entry list"
  wr_table :: "table_entry list"
  wr_strings :: "u8 list"
  wr_interned :: "string \<Rightarrow> int option"

definition new_writer :: writer where
  "new_writer = \<lparr>wr_blob = [], wr_directory = [], wr_table = [], wr_strings = [], wr_interned = Map.empty\<rparr>"

definition intern_name :: "string \<Rightarrow> writer \<Rightarrow> int \<times> writer" where
  "intern_name name w =
     (case wr_interned w name of
        Some off \<Rightarrow> (off, w)
      | None \<Rightarrow>
          let off = to_u32 (int (length (wr_strings w)))
          in (off, w\<lparr>wr_strings := wr_strings w @ name_bytes name, wr_interned := (wr_interned w)(name \<mapsto> off)\<rparr>))"

definition write_columns :: "instrument_spec \<Rightarrow> string \<Rightarrow> quote_columns \<Rightarrow> writer \<Rightarrow> writer" where
  "write_columns sp name c w =
     (let (off, w1) = intern_name name w;
          entry = \<lparr>te_name_offset = off, te_name_length = to_u32 (int (length name)), te_kind = kind_code (kind sp),
            te_right = right_code (right_of sp), te_reserved = 0, te_expiry = yyyymmdd (expiry sp),
            te_strike = minor (strike sp), te_lot_size = lot_size sp, te_tick = minor (tick_size sp)\<rparr>;
          blob_start = int (header_size + length (wr_blob w1));
          blob = encode_columns c (wr_blob w1);
          blob_bytes = to_u32 (int (header_size + length blob) - blob_start)
      in w1\<lparr>wr_blob := blob, wr_table := wr_table w1 @ [entry],
            wr_directory := wr_directory w1 @ [\<lparr>dx_table_index = to_i32 (int (length (wr_table w1))),
              dx_row_count = to_u32 (int (size_of c)), dx_blob_offset = blob_start, dx_blob_bytes = blob_bytes,
              dx_blob_crc = checksum (take (nat blob_bytes) (drop (length (wr_blob w1)) blob)),
              dx_first_ts = nanos (hd (c_ts c)), dx_last_ts = nanos (last (c_ts c))\<rparr>]\<rparr>)"

definition write_instrument :: "session_data \<Rightarrow> instrument_id \<Rightarrow> writer \<Rightarrow> exn + writer" where
  "write_instrument sd i w =
     (let c = sd_quotes sd i
      in if size_of c = 0 then Inr w
         else case spec (sd_registry sd) i of Inl e \<Rightarrow> Inl e
         | Inr sp \<Rightarrow>
             (case underlying_name (sd_registry sd) (underlying sp) of Inl e \<Rightarrow> Inl e
              | Inr name \<Rightarrow> Inr (write_columns sp name c w)))"

definition derive_step :: "event \<Rightarrow> int list \<Rightarrow> int list" where
  "derive_step ev acc = (if acc = [] \<or> last acc \<noteq> nanos (e_ts ev) then acc @ [nanos (e_ts ev)] else acc)"

definition stored_timeline :: "session_data \<Rightarrow> int list" where
  "stored_timeline sd =
     (if sd_timeline sd = [] then fold derive_step (drain (event_cursor sd)) [] else map nanos (sd_timeline sd))"

text \<open>The header and the file it heads.\<close>

definition file_layout :: "session_data \<Rightarrow> writer \<Rightarrow> int list \<Rightarrow> file_header \<times> u8 list" where
  "file_layout sd w timeline =
     (let table = concat (map put_table_entry (wr_table w));
          directory = concat (map put_directory_entry (wr_directory w));
          times = concat (map (le 8) timeline);
          table_bytes = to_u32 (int (length table));
          strings_bytes = to_u32 (int (length (wr_strings w)));
          directory_bytes = to_u32 (int (length directory));
          table_offset = int (header_size + length (wr_blob w));
          strings_offset = table_offset + table_bytes;
          timeline_offset = strings_offset + strings_bytes;
          directory_offset = timeline_offset + int (length times);
          h0 = \<lparr>h_magic = kMagic, h_version = kVfdayVersion, h_flags = 0, h_date = yyyymmdd (sd_date sd),
            h_instrument_count = to_i32 (int (length (wr_directory w))),
            h_total_rows = to_i64 (int (sd_total_observations sd)),
            h_table = Region table_offset table_bytes (checksum (take (nat table_bytes) table)),
            h_strings = Region strings_offset strings_bytes (checksum (take (nat strings_bytes) (wr_strings w))),
            h_timeline = Region timeline_offset (to_u32 (int (length timeline))) (checksum times),
            h_directory = Region directory_offset directory_bytes (checksum (take (nat directory_bytes) directory)),
            h_file_bytes = directory_offset + directory_bytes, h_header_crc = 0, h_reserved = 0\<rparr>;
          h = h0\<lparr>h_header_crc := checksum (header_prefix h0)\<rparr>
      in (h, put_header h @ wr_blob w @ take (nat table_bytes) table @ take (nat strings_bytes) (wr_strings w) @
            times @ take (nat directory_bytes) directory))"

record store_stats =
  st_instruments :: nat
  st_rows :: nat
  st_timestamps :: nat
  st_bytes :: nat
  bytes_per_row :: dbl

text \<open>\<open>static_cast<std::size_t>\<close> of a 64-bit value.\<close>

definition to_size :: "int \<Rightarrow> nat" where
  "to_size x = nat (x mod 2 ^ 64)"

definition stats_of :: "file_header \<Rightarrow> writer \<Rightarrow> int list \<Rightarrow> store_stats" where
  "stats_of h w timeline =
     (let n = to_size (h_total_rows h); bytes = to_size (h_file_bytes h)
      in \<lparr>st_instruments = length (wr_directory w), st_rows = n, st_timestamps = length timeline, st_bytes = bytes,
          bytes_per_row = (if n \<noteq> 0 then fdiv (of_i (int bytes)) (of_i (int n)) else Fin 0)\<rparr>)"

section \<open>Reading\<close>

record stored_entry =
  en_table_index :: int
  en_row_count :: int
  en_blob_offset :: int
  en_blob_bytes :: int
  en_blob_crc :: int
  en_first :: timestamp
  en_last :: timestamp

text \<open>
  \<open>registry_\<close> is a pointer to the registry of the program, an argument of the operations below.
  \<open>vf_file\<close> is the lazily opened stream: \<open>None\<close> before the first use, then whether it is still good
  (a short read sets its failbit, which nothing clears).
\<close>

record vfday_session =
  vf_path :: string
  vf_date :: date
  vf_total_rows :: nat
  vf_instruments :: "instrument_id list"
  vf_entries :: "(int \<times> stored_entry) list"
  vf_timeline :: "timestamp list"
  vf_decoded :: "(int \<times> quote_columns) list"
  vf_file :: "bool option"

definition header_problem :: "u8 list \<Rightarrow> problem option" where
  "header_problem bytes =
     (if length bytes < header_size then Some ShorterThanHeader
      else let h = get_header bytes in
        if h_magic h \<noteq> kMagic then Some NotVfday
        else if h_version h \<noteq> kVfdayVersion then Some (WrongVersion (h_version h))
        else if checksum (take 104 bytes) \<noteq> h_header_crc h then Some HeaderChecksum
        else if h_file_bytes h \<noteq> int (length bytes) then Some (WrongSize (h_file_bytes h) (int (length bytes)))
        else if h_instrument_count h < 0 then Some NegativeCount
        else None)"

definition read_exact :: "string \<Rightarrow> int \<Rightarrow> nat \<Rightarrow> u8 list \<Rightarrow> problem + u8 list" where
  "read_exact what offset n bytes =
     (if offset < 0 \<or> length bytes < n \<or> int (length bytes) < offset + int n then Inl (OutsideFile what)
      else Inr (take n (drop (nat offset) bytes)))"

text \<open>A region and its checksum.\<close>

definition read_checked :: "string \<Rightarrow> problem \<Rightarrow> region \<Rightarrow> nat \<Rightarrow> u8 list \<Rightarrow> problem + u8 list" where
  "read_checked what bad r n bytes =
     (case read_exact what (rg_offset r) n bytes of Inl e \<Rightarrow> Inl e
      | Inr raw \<Rightarrow> if checksum raw \<noteq> rg_crc r then Inl bad else Inr raw)"

record raw_regions =
  rw_table :: "u8 list"
  rw_strings :: "u8 list"
  rw_directory :: "u8 list"
  rw_timeline :: "u8 list"

definition read_regions :: "file_header \<Rightarrow> u8 list \<Rightarrow> problem + raw_regions" where
  "read_regions h bytes =
     (case read_checked ''table'' TableChecksum (h_table h) (nat (rg_size (h_table h))) bytes of Inl e \<Rightarrow> Inl e
      | Inr table_raw \<Rightarrow>
          if nat (rg_size (h_table h)) mod table_entry_size \<noteq> 0 then Inl TableMisaligned
          else case read_checked ''strings'' StringsChecksum (h_strings h) (nat (rg_size (h_strings h))) bytes of Inl e \<Rightarrow> Inl e
          | Inr strings_raw \<Rightarrow>
             (case read_checked ''directory'' DirectoryChecksum (h_directory h) (nat (rg_size (h_directory h))) bytes of Inl e \<Rightarrow> Inl e
              | Inr dir_raw \<Rightarrow>
                  if nat (rg_size (h_directory h)) mod directory_entry_size \<noteq> 0 then Inl DirectoryMisaligned
                  else case read_checked ''timeline'' TimelineChecksum (h_timeline h) (nat (rg_size (h_timeline h)) * 8) bytes of
                    Inl e \<Rightarrow> Inl e
                  | Inr timeline_raw \<Rightarrow> Inr \<lparr>rw_table = table_raw, rw_strings = strings_raw, rw_directory = dir_raw,
                      rw_timeline = timeline_raw\<rparr>))"

text \<open>The loop over the timeline: \<open>previous\<close> is the value before, absent at the first.\<close>

fun read_timeline :: "int option \<Rightarrow> nat \<Rightarrow> u8 list \<Rightarrow> problem + timestamp list" where
  "read_timeline previous 0 raw = Inr []"
| "read_timeline previous (Suc n) raw =
     (let v = i64_at 0 raw
      in if (case previous of None \<Rightarrow> False | Some p \<Rightarrow> v \<le> p) then Inl TimelineOrder
         else case read_timeline (Some v) n (drop 8 raw) of Inl e \<Rightarrow> Inl e | Inr ts \<Rightarrow> Inr (Timestamp v # ts))"

text \<open>
  \<open>static_cast<InstrumentKind>\<close> and \<open>static_cast<Right>\<close> of a byte.  A byte that names no enumerator,
  which the writer never produces, gives a value without a name: unspecified here.
\<close>

definition kind_of_code :: "int \<Rightarrow> instrument_kind" where
  "kind_of_code n = (if n = 0 then Spot else if n = 1 then Future else if n = 2 then Option else undefined)"

definition right_of_code :: "int \<Rightarrow> right" where
  "right_of_code n = (if n = 0 then Call else if n = 1 then Put else undefined)"

definition name_of_bytes :: "u8 list \<Rightarrow> string" where
  "name_of_bytes bs = map (\<lambda>b. char_of (unat b)) bs"

definition stored_spec :: "table_entry \<Rightarrow> underlying_id \<Rightarrow> instrument_spec" where
  "stored_spec t u =
     \<lparr>spec_id = InstrumentId 0, underlying = u, kind = kind_of_code (te_kind t), expiry = Date (te_expiry t),
      strike = Price (te_strike t), right_of = right_of_code (te_right t), lot_size = te_lot_size t,
      tick_size = Price (te_tick t)\<rparr>"

definition entry_of :: "directory_entry \<Rightarrow> stored_entry" where
  "entry_of e =
     \<lparr>en_table_index = dx_table_index e, en_row_count = dx_row_count e, en_blob_offset = dx_blob_offset e,
      en_blob_bytes = dx_blob_bytes e, en_blob_crc = dx_blob_crc e, en_first = Timestamp (dx_first_ts e),
      en_last = Timestamp (dx_last_ts e)\<rparr>"

text \<open>One entry of the directory; the registry it leaves stands also when the file is refused.\<close>

definition open_entry ::
    "file_header \<Rightarrow> raw_regions \<Rightarrow> directory_entry \<Rightarrow> registry \<Rightarrow> vfday_session \<Rightarrow> registry \<times> (problem + vfday_session)" where
  "open_entry h raw e reg s =
     (if dx_table_index e < 0 \<or> int (length (rw_table raw) div table_entry_size) \<le> dx_table_index e
      then (reg, Inl MissingInstrument)
      else if dx_blob_offset e < int header_size \<or> rg_offset (h_table h) < dx_blob_offset e + dx_blob_bytes e
      then (reg, Inl OutsidePayload)
      else if dx_last_ts e < dx_first_ts e then (reg, Inl BackwardsRange)
      else let t = table_at (rw_table raw) (nat (dx_table_index e)) in
        if int (length (rw_strings raw)) < te_name_offset t + te_name_length t then (reg, Inl NameOutside)
        else let name = name_of_bytes (take (nat (te_name_length t)) (drop (nat (te_name_offset t)) (rw_strings raw)));
                 (u, reg1) = intern_underlying name reg;
                 (i, reg2) = add (stored_spec t u) reg1
             in if map_of (vf_entries s) (index_of i) \<noteq> None then (reg2, Inl ContractTwice)
                else (reg2, Inr (s\<lparr>vf_entries := om_put (index_of i) (entry_of e) (vf_entries s),
                                   vf_instruments := vf_instruments s @ [i]\<rparr>)))"

fun open_loop ::
    "file_header \<Rightarrow> raw_regions \<Rightarrow> directory_entry list \<Rightarrow> registry \<Rightarrow> vfday_session \<Rightarrow> registry \<times> (problem + vfday_session)" where
  "open_loop h raw [] reg s = (reg, Inr s)"
| "open_loop h raw (e # es) reg s =
     (case open_entry h raw e reg s of
        (reg1, Inl p) \<Rightarrow> (reg1, Inl p)
      | (reg1, Inr s1) \<Rightarrow> open_loop h raw es reg1 s1)"

definition directory_of :: "raw_regions \<Rightarrow> directory_entry list" where
  "directory_of raw = map (directory_at (rw_directory raw)) [0..<length (rw_directory raw) div directory_entry_size]"

text \<open>\<open>rows_seen\<close> sums the row counts of the directory in 64 bits.\<close>

definition rows_seen :: "directory_entry list \<Rightarrow> nat" where
  "rows_seen es = to_size (sum_list (map dx_row_count es))"

definition open_bytes :: "string \<Rightarrow> u8 list \<Rightarrow> registry \<Rightarrow> registry \<times> (problem + vfday_session)" where
  "open_bytes path bytes reg =
     (case header_problem bytes of Some p \<Rightarrow> (reg, Inl p)
      | None \<Rightarrow> let h = get_header bytes in
          case read_regions h bytes of Inl p \<Rightarrow> (reg, Inl p)
          | Inr raw \<Rightarrow> let es = directory_of raw in
              if length es \<noteq> nat (h_instrument_count h) then (reg, Inl DirectoryLength)
              else case read_timeline None (nat (rg_size (h_timeline h))) (rw_timeline raw) of Inl p \<Rightarrow> (reg, Inl p)
              | Inr ts \<Rightarrow>
                 (case open_loop h raw es reg
                     \<lparr>vf_path = path, vf_date = Date (h_date h), vf_total_rows = to_size (h_total_rows h),
                      vf_instruments = [], vf_entries = [], vf_timeline = ts, vf_decoded = [], vf_file = None\<rparr> of
                    (reg1, Inl p) \<Rightarrow> (reg1, Inl p)
                  | (reg1, Inr s) \<Rightarrow>
                      if rows_seen es \<noteq> to_size (h_total_rows h) then (reg1, Inl RowCounts) else (reg1, Inr s)))"

definition vfday_open :: "string \<Rightarrow> disk \<Rightarrow> registry \<Rightarrow> registry \<times> (store_error + vfday_session)" where
  "vfday_open path d reg =
     (case disk_files d path of
        None \<Rightarrow> (reg, Inl (Fail path NotAFile))
      | Some f \<Rightarrow>
          if \<not> df_readable f then (reg, Inl (Fail path CannotOpen))
          else case open_bytes path (df_bytes f) reg of
            (reg1, Inl p) \<Rightarrow> (reg1, Inl (Fail path p))
          | (reg1, Inr s) \<Rightarrow> (reg1, Inr s))"

definition stored_printed_by :: "vfday_session \<Rightarrow> instrument_id \<Rightarrow> timestamp \<Rightarrow> bool" where
  "stored_printed_by s i t =
     (case map_of (vf_entries s) (index_of i) of None \<Rightarrow> False | Some e \<Rightarrow> 0 < en_row_count e \<and> en_first e \<le> t)"

text \<open>\<open>next_column\<close> called \<open>k\<close> times: the columns and the bytes left.\<close>

fun next_columns :: "nat \<Rightarrow> int \<Rightarrow> u8 list \<Rightarrow> problem + int list list \<times> u8 list" where
  "next_columns 0 n p = Inr ([], p)"
| "next_columns (Suc k) n p =
     (case decode_column p of None \<Rightarrow> Inl Undecodable
      | Some (vs, used) \<Rightarrow>
          if int (length vs) \<noteq> n then Inl ColumnLength
          else case next_columns k n (drop used p) of Inl e \<Rightarrow> Inl e
          | Inr (cols, rest) \<Rightarrow> Inr (map sint vs # cols, rest))"

definition decode_entry :: "stored_entry \<Rightarrow> u8 list \<Rightarrow> problem + quote_columns" where
  "decode_entry e raw =
     (if checksum raw \<noteq> en_blob_crc e then Inl BlobChecksum
      else case next_columns 8 (en_row_count e) raw of Inl p \<Rightarrow> Inl p
      | Inr (cols, rest) \<Rightarrow>
          if rest \<noteq> [] then Inl TrailingBytes
          else let prices = map (\<lambda>x. Price (to_i32 x)); qtys = map to_i32;
                   c = \<lparr>c_ts = map Timestamp (cols ! 0), c_last = prices (cols ! 1), c_bid = prices (cols ! 2),
                     c_ask = prices (cols ! 3), c_bid_qty = qtys (cols ! 4), c_ask_qty = qtys (cols ! 5),
                     c_last_qty = qtys (cols ! 6), c_open_interest = cols ! 7\<rparr>
               in if c_ts c \<noteq> [] \<and> (hd (c_ts c) \<noteq> en_first e \<or> last (c_ts c) \<noteq> en_last e) then Inl TimeRange
                  else Inr c)"

text \<open>The read of a block from the stream, which it leaves good or not.\<close>

definition read_block :: "disk \<Rightarrow> vfday_session \<Rightarrow> stored_entry \<Rightarrow> vfday_session \<times> (problem + u8 list)" where
  "read_block d s e =
     (let readable = (case disk_files d (vf_path s) of None \<Rightarrow> False | Some f \<Rightarrow> df_readable f);
          bytes = (case disk_files d (vf_path s) of None \<Rightarrow> [] | Some f \<Rightarrow> df_bytes f);
          good = (case vf_file s of None \<Rightarrow> True | Some g \<Rightarrow> g)
      in if vf_file s = None \<and> \<not> readable then (s, Inl CannotReopen)
         else if good \<and> (en_blob_bytes e = 0 \<or> nat (en_blob_offset e) + nat (en_blob_bytes e) \<le> length bytes)
         then (s\<lparr>vf_file := Some True\<rparr>, Inr (take (nat (en_blob_bytes e)) (drop (nat (en_blob_offset e)) bytes)))
         else (s\<lparr>vf_file := Some False\<rparr>, Inl ShortRead))"

definition materialise :: "disk \<Rightarrow> instrument_id \<Rightarrow> vfday_session \<Rightarrow> vfday_session \<times> (store_error + quote_columns)" where
  "materialise d i s =
     (case map_of (vf_decoded s) (index_of i) of
        Some c \<Rightarrow> (s, Inr c)
      | None \<Rightarrow>
         (case map_of (vf_entries s) (index_of i) of
            None \<Rightarrow> (s, Inr empty_columns)
          | Some e \<Rightarrow>
             (case read_block d s e of
                (s1, Inl p) \<Rightarrow> (s1, Inl (Fail (vf_path s) p))
              | (s1, Inr raw) \<Rightarrow>
                 (case decode_entry e raw of
                    Inl p \<Rightarrow> (s1, Inl (Fail (vf_path s) p))
                  | Inr c \<Rightarrow> (s1\<lparr>vf_decoded := om_put (index_of i) c (vf_decoded s1)\<rparr>, Inr c)))))"

definition stored_quotes :: "disk \<Rightarrow> instrument_id \<Rightarrow> vfday_session \<Rightarrow> vfday_session \<times> (store_error + quote_columns)" where
  "stored_quotes d i s =
     (case materialise d i s of
        (s1, Inl e) \<Rightarrow> (s1, Inl e)
      | (s1, Inr c) \<Rightarrow> (s1, Inr (if c_ts c = [] then empty_columns else c)))"

definition decoded_instruments :: "vfday_session \<Rightarrow> nat" where
  "decoded_instruments s = length (vf_decoded s)"

text \<open>A row takes 8 bytes of time, 3 prices and 3 quantities of 4 bytes and 8 of open interest.\<close>

definition decoded_bytes :: "vfday_session \<Rightarrow> nat" where
  "decoded_bytes s = sum_list (map (\<lambda>(_, c). length (c_ts c) * (8 + 3 * 4 + 3 * 4 + 8)) (vf_decoded s))"

section \<open>Writing with verification\<close>

definition columns_equal :: "quote_columns \<Rightarrow> quote_columns \<Rightarrow> bool" where
  "columns_equal a b \<longleftrightarrow> size_of a = size_of b \<and> list_all (\<lambda>k. column_at a k = column_at b k) [0..<size_of a]"

definition same_contract ::
    "registry \<Rightarrow> instrument_spec \<Rightarrow> string \<Rightarrow> instrument_id \<Rightarrow> exn + bool" where
  "same_contract reg sp name candidate =
     (case spec reg candidate of Inl e \<Rightarrow> Inl e
      | Inr s \<Rightarrow>
          if kind s = kind sp \<and> expiry s = expiry sp \<and> strike s = strike sp \<and> right_of s = right_of sp \<and>
             lot_size s = lot_size sp
          then (case underlying_name reg (underlying s) of Inl e \<Rightarrow> Inl e | Inr n \<Rightarrow> Inr (n = name))
          else Inr False)"

fun find_original ::
    "registry \<Rightarrow> instrument_spec \<Rightarrow> string \<Rightarrow> instrument_id list \<Rightarrow> exn + instrument_id option" where
  "find_original reg sp name [] = Inr None"
| "find_original reg sp name (i # is) =
     (case same_contract reg sp name i of Inl e \<Rightarrow> Inl e
      | Inr found \<Rightarrow> if found then Inr (Some i) else find_original reg sp name is)"

text \<open>One instrument of the re-read file against the source; the state is the re-read session and \<open>checked\<close>.\<close>

definition verify_instrument ::
    "session_data \<Rightarrow> string \<Rightarrow> disk \<Rightarrow> registry \<Rightarrow> instrument_id \<Rightarrow> vfday_session \<times> nat \<Rightarrow> store_error + vfday_session \<times> nat" where
  "verify_instrument sd path d check written = (\<lambda>(s, checked).
     case spec check written of Inl e \<Rightarrow> Inl (Thrown e)
     | Inr sp \<Rightarrow>
        (case underlying_name check (underlying sp) of Inl e \<Rightarrow> Inl (Thrown e)
         | Inr name \<Rightarrow>
            (case find_original (sd_registry sd) sp name (sd_instruments sd) of Inl e \<Rightarrow> Inl (Thrown e)
             | Inr None \<Rightarrow> Inl (Fail path VerifyMissing)
             | Inr (Some original) \<Rightarrow>
                 if \<not> valid original then Inl (Fail path VerifyMissing)
                 else case stored_quotes d written s of (_, Inl e) \<Rightarrow> Inl e
                 | (s1, Inr c) \<Rightarrow>
                     if \<not> columns_equal (sd_quotes sd original) c then Inl (Fail path VerifyColumns)
                     else Inr (s1, checked + 1))))"

definition verify_file :: "session_data \<Rightarrow> string \<Rightarrow> disk \<Rightarrow> nat \<Rightarrow> store_error + unit" where
  "verify_file sd path d n =
     (case vfday_open path d empty_registry of
        (_, Inl e) \<Rightarrow> Inl e
      | (check, Inr reread) \<Rightarrow>
          if vf_date reread \<noteq> sd_date sd then Inl (Fail path VerifyDate)
          else if vf_total_rows reread \<noteq> sd_total_observations sd then Inl (Fail path VerifyRowCount)
          else if length (vf_instruments reread) \<noteq> n then Inl (Fail path VerifyInstrumentCount)
          else if sd_timeline sd \<noteq> [] \<and> length (vf_timeline reread) \<noteq> length (sd_timeline sd)
          then Inl (Fail path VerifyTimelineLength)
          else if sd_timeline sd \<noteq> [] \<and> vf_timeline reread \<noteq> sd_timeline sd then Inl (Fail path VerifyTimeline)
          else case try_fold (verify_instrument sd path d check) (vf_instruments reread) (reread, 0) of Inl e \<Rightarrow> Inl e
          | Inr (_, checked) \<Rightarrow> if checked \<noteq> n then Inl (Fail path VerifyChecked) else Inr ())"

definition write_vfday :: "session_data \<Rightarrow> string \<Rightarrow> bool \<Rightarrow> disk \<Rightarrow> store_error + disk \<times> store_stats" where
  "write_vfday sd path verify d =
     (case try_fold (write_instrument sd) (sd_instruments sd) new_writer of Inl e \<Rightarrow> Inl (Thrown e)
      | Inr w \<Rightarrow>
          let timeline = stored_timeline sd; (h, bytes) = file_layout sd w timeline
          in if \<not> can_create d path then Inl (Fail path CannotOpenForWriting)
             else if \<not> has_room d path (length bytes) then Inl (Fail path WriteFailed)
             else let d1 = store_file path bytes d; stats = stats_of h w timeline
                  in if verify
                     then (case verify_file sd path d1 (length (wr_directory w)) of Inl e \<Rightarrow> Inl e | Inr _ \<Rightarrow> Inr (d1, stats))
                     else Inr (d1, stats))"

section \<open>A directory of files\<close>

datatype source_problem = NoDirectory string | TwoFiles date string string | Refused store_error

record vfday_source =
  vs_files :: "(int \<times> string) list"
  vs_cache :: "(int \<times> vfday_session) list"
  vs_problems :: "source_problem list"

definition scan_file :: "disk \<Rightarrow> string \<Rightarrow> registry \<times> vfday_source \<Rightarrow> registry \<times> vfday_source" where
  "scan_file d path = (\<lambda>(reg, src).
     case vfday_open path d reg of
       (reg1, Inl e) \<Rightarrow> (reg1, src\<lparr>vs_problems := vs_problems src @ [Refused e]\<rparr>)
     | (reg1, Inr s) \<Rightarrow>
         let key = yyyymmdd (vf_date s)
         in (case map_of (vs_files src) key of
               Some other \<Rightarrow> (reg1, src\<lparr>vs_problems := vs_problems src @ [TwoFiles (vf_date s) other path]\<rparr>)
             | None \<Rightarrow> (reg1, src\<lparr>vs_files := om_put key path (vs_files src), vs_cache := om_put key s (vs_cache src)\<rparr>)))"

text \<open>
  \<open>listing\<close>: the path and the file name of each entry of the directory and whether it is a regular
  file, or \<open>None\<close> if there is no such directory.
\<close>

definition new_source :: "string \<Rightarrow> (string \<times> string \<times> bool) list option \<Rightarrow> disk \<Rightarrow> registry \<Rightarrow> registry \<times> vfday_source" where
  "new_source directory listing d reg =
     (let empty = \<lparr>vs_files = [], vs_cache = [], vs_problems = []\<rparr>
      in case listing of
           None \<Rightarrow> (reg, empty\<lparr>vs_problems := [NoDirectory directory]\<rparr>)
         | Some entries \<Rightarrow>
             fold (scan_file d)
               (sort (map fst (filter (\<lambda>(_, name, regular). regular \<and> path_extension name = ''.vfday'') entries))) (reg, empty))"

definition stored_sessions :: "vfday_source \<Rightarrow> date list" where
  "stored_sessions src = map (\<lambda>(k, _). Date k) (vs_files src)"

definition load_stored ::
    "disk \<Rightarrow> date \<Rightarrow> registry \<times> vfday_source \<Rightarrow> (registry \<times> vfday_source) \<times> (store_error + vfday_session option)" where
  "load_stored d dt = (\<lambda>(reg, src).
     case map_of (vs_cache src) (yyyymmdd dt) of
       Some s \<Rightarrow> ((reg, src), Inr (Some s))
     | None \<Rightarrow>
        (case map_of (vs_files src) (yyyymmdd dt) of
           None \<Rightarrow> ((reg, src), Inr None)
         | Some path \<Rightarrow>
            (case vfday_open path d reg of
               (reg1, Inl e) \<Rightarrow> ((reg1, src), Inl e)
             | (reg1, Inr s) \<Rightarrow> ((reg1, src\<lparr>vs_cache := om_put (yyyymmdd dt) s (vs_cache src)\<rparr>), Inr (Some s)))))"

end
