(* ===== verification/VfdayCrc.thy ===== *)
theory VfdayCrc
  imports Vfday
begin

unbundle bit_operations_syntax

text \<open>
  The table-driven checksum is the bitwise CRC-32 division, and every change confined to four
  consecutive bytes changes it.
\<close>

section \<open>One bit\<close>

abbreviation poly :: u32 where
  "poly \<equiv> 0xEDB88320"

lemma xor_cancel: "x XOR z = y XOR z \<longleftrightarrow> x = y" for x y z :: u32
proof
  assume "x XOR z = y XOR z"
  then have "(x XOR z) XOR z = (y XOR z) XOR z" by simp
  then show "x = y" by (simp add: xor.assoc)
qed simp

lemma xor_cancel_left: "z XOR x = z XOR y \<longleftrightarrow> x = y" for x y z :: u32
  using xor_cancel [of x z y] by (simp add: xor.commute)

lemma low_bit: "c AND 1 \<noteq> 0 \<longleftrightarrow> bit c 0" for c :: u32
  by (simp add: and_one_eq bit_0 odd_iff_mod_2_eq_one)

lemma crc_bit_alt: "crc_bit c = drop_bit 1 c XOR (if bit c 0 then poly else 0)"
  by (simp add: crc_bit_def low_bit xor.commute)

lemma xor_ifs: "(if p then x else 0) XOR (if q then x else 0) = (if p \<noteq> q then x else (0 :: u32))"
  by auto

lemma crc_bit_linear: "crc_bit (x XOR y) = crc_bit x XOR crc_bit y"
proof -
  have "crc_bit x XOR crc_bit y =
      (drop_bit 1 x XOR drop_bit 1 y) XOR ((if bit x 0 then poly else 0) XOR (if bit y 0 then poly else 0))"
    by (simp only: crc_bit_alt ac_simps)
  also have "\<dots> = crc_bit (x XOR y)"
    unfolding xor_ifs by (simp add: crc_bit_alt bit_xor_iff drop_bit_xor)
  finally show ?thesis by simp
qed

lemma poly_top: "bit poly 31"
  by code_simp

text \<open>The bit shifted out can be read off the top bit, so a step loses nothing.\<close>

lemma crc_bit_inj: "crc_bit x = crc_bit y \<Longrightarrow> x = y"
proof -
  assume eq: "crc_bit x = crc_bit y"
  have top: "bit (crc_bit c) 31 \<longleftrightarrow> bit c 0" for c
    using impossible_bit [of 32 c] by (simp add: crc_bit_alt bit_xor_iff bit_drop_bit_eq poly_top)
  have low: "bit x 0 \<longleftrightarrow> bit y 0" using top [of x] top [of y] eq by simp
  then have "drop_bit 1 x = drop_bit 1 y"
    using eq by (simp add: crc_bit_alt xor_cancel)
  then have "bit x (Suc n) \<longleftrightarrow> bit y (Suc n)" for n
    by (metis bit_drop_bit_eq plus_1_eq_Suc comp_apply)
  then show "x = y"
    using low by (intro bit_word_eqI) (metis not0_implies_Suc)
qed

lemma crc_pow_linear: "(crc_bit ^^ n) (x XOR y) = (crc_bit ^^ n) x XOR (crc_bit ^^ n) y"
  by (induction n arbitrary: x y) (simp_all add: crc_bit_linear)

lemma crc_pow_inj: "(crc_bit ^^ n) x = (crc_bit ^^ n) y \<Longrightarrow> x = y"
  by (induction n) (auto dest: crc_bit_inj)

text \<open>Over zero bits the division only shifts.\<close>

lemma crc_pow_zeros: "(\<And>i. i < n \<Longrightarrow> \<not> bit x i) \<Longrightarrow> (crc_bit ^^ n) x = drop_bit n x"
proof (induction n arbitrary: x)
  case (Suc n)
  have "\<not> bit x 0" using Suc.prems [of 0] by simp
  then have "crc_bit x = drop_bit 1 x" by (simp add: crc_bit_alt)
  moreover have "(crc_bit ^^ n) (drop_bit 1 x) = drop_bit n (drop_bit 1 x)"
    using Suc.prems by (intro Suc.IH) (simp add: bit_drop_bit_eq)
  ultimately show ?case by (simp add: funpow_Suc_right del: funpow.simps)
qed simp

section \<open>One byte\<close>

lemma crc_table_nth: "i < 256 \<Longrightarrow> crc_table ! i = (crc_bit ^^ 8) (word_of_nat i)"
  by (simp add: crc_table_def)

lemma crc_low_byte: "x AND 0xFF = take_bit 8 x" for x :: u32
  by (simp add: take_bit_eq_mask mask_eq_exp_minus_1)

lemma low_byte_less: "unat (take_bit 8 x) < 256" for x :: u32
  using take_bit_nat_less_exp [of 8 "unat x"] by (simp add: unsigned_take_bit_eq)

lemma byte_parts: "x = take_bit 8 x XOR push_bit 8 (drop_bit 8 x)" for x :: u32
proof (rule bit_word_eqI)
  fix i
  show "bit x i \<longleftrightarrow> bit (take_bit 8 x XOR push_bit 8 (drop_bit 8 x)) i" if "i < LENGTH(32)"
    using that by (cases "i < 8") (simp_all add: bit_simps)
qed

lemma crc_step_bitwise: "crc_step b c = (crc_bit ^^ 8) (c XOR ucast b)"
proof -
  let ?x = "c XOR ucast b"
  have "(crc_bit ^^ 8) ?x = (crc_bit ^^ 8) (take_bit 8 ?x) XOR (crc_bit ^^ 8) (push_bit 8 (drop_bit 8 ?x))"
    using crc_pow_linear [of 8 "take_bit 8 ?x" "push_bit 8 (drop_bit 8 ?x)"] by (simp only: byte_parts [of ?x, symmetric])
  also have "(crc_bit ^^ 8) (push_bit 8 (drop_bit 8 ?x)) = drop_bit 8 (push_bit 8 (drop_bit 8 ?x))"
    by (intro crc_pow_zeros) (simp add: bit_xor_iff bit_push_bit_iff)
  also have "\<dots> = drop_bit 8 c"
    by (intro bit_word_eqI) (auto simp: bit_simps dest: bit_imp_le_length)
  finally show ?thesis
    using crc_table_nth [OF low_byte_less, of ?x] by (simp add: crc_step_def crc_low_byte)
qed

section \<open>A burst\<close>

fun le_word :: "u8 list \<Rightarrow> u32" where
  "le_word [] = 0"
| "le_word (b # bs) = ucast b XOR push_bit 8 (le_word bs)"

lemma le_word_bits: "bit (le_word bs) i \<Longrightarrow> i < 8 * length bs"
proof (induction bs arbitrary: i)
  case (Cons b bs)
  show ?case
  proof (cases "i < 8")
    case False
    then have "bit (le_word bs) (i - 8)"
      using Cons.prems by (auto simp: bit_simps dest: bit_imp_le_length)
    from Cons.IH [OF this] show ?thesis using False by simp
  qed simp
qed simp

lemma unpush_le_word:
  assumes "length bs < 4"
  shows "drop_bit 8 (push_bit 8 (le_word bs)) = le_word bs"
proof (rule bit_word_eqI)
  fix i
  show "bit (drop_bit 8 (push_bit 8 (le_word bs))) i \<longleftrightarrow> bit (le_word bs) i"
    using le_word_bits [of bs i] assms by (auto simp: bit_simps)
qed

lemma crc_pow_add: "(crc_bit ^^ m) ((crc_bit ^^ n) x) = (crc_bit ^^ (m + n)) x"
  by (simp add: funpow_add)

lemma crc_burst:
  assumes "length bs \<le> 4"
  shows "fold crc_step bs c = (crc_bit ^^ (8 * length bs)) (c XOR le_word bs)"
  using assms
proof (induction bs arbitrary: c)
  case (Cons b bs)
  have push: "(crc_bit ^^ 8) (push_bit 8 (le_word bs)) = le_word bs"
    using crc_pow_zeros [of 8 "push_bit 8 (le_word bs)"] unpush_le_word Cons.prems by (simp add: bit_push_bit_iff del: funpow.simps)
  have "(crc_bit ^^ 8) (c XOR ucast b) XOR le_word bs = (crc_bit ^^ 8) (c XOR le_word (b # bs))"
    using crc_pow_linear [of 8 "c XOR ucast b" "push_bit 8 (le_word bs)"] unfolding push le_word.simps xor.assoc by (rule sym)
  moreover have "fold crc_step (b # bs) c = (crc_bit ^^ (8 * length bs)) ((crc_bit ^^ 8) (c XOR ucast b) XOR le_word bs)"
    using Cons.IH [of "crc_step b c"] Cons.prems unfolding crc_step_bitwise by (simp only: fold.simps comp_apply crc_step_bitwise) simp
  moreover have "8 * length bs + 8 = 8 * length (b # bs)" by simp
  ultimately show ?case using crc_pow_add [of "8 * length bs" 8 "c XOR le_word (b # bs)"] by (simp only:)
qed simp

lemma low_of_le_word: "ucast (le_word (b # bs)) = b"
proof (rule bit_word_eqI)
  fix i
  show "bit (ucast (le_word (b # bs)) :: u8) i \<longleftrightarrow> bit b i" if "i < LENGTH(8)"
    using that by (simp add: bit_simps)
qed

lemma le_word_inj:
  assumes "length as = length bs" and "le_word as = le_word bs" and "length bs \<le> 4"
  shows "as = bs"
  using assms
proof (induction as bs rule: list_induct2)
  case (Cons a as b bs)
  have len: "length bs < 4" "length as < 4" using Cons.prems(2) Cons.hyps by simp_all
  have ab: "a = b" using Cons.prems(1) by (rule box_equals [OF arg_cong [of _ _ ucast]]) (rule low_of_le_word)+
  have "push_bit 8 (le_word as) = push_bit 8 (le_word bs)"
    using Cons.prems(1) unfolding ab le_word.simps xor_cancel_left .
  then have "drop_bit 8 (push_bit 8 (le_word as)) = drop_bit 8 (push_bit 8 (le_word bs))" by (rule arg_cong)
  then have "le_word as = le_word bs" unfolding unpush_le_word [OF len(1)] unpush_le_word [OF len(2)] .
  then show ?case using Cons.IH len(1) by (simp add: ab)
qed simp

text \<open>The register after the same bytes still differs, so a checksum tells the two apart.\<close>

lemma fold_crc_inj: "fold crc_step bs x = fold crc_step bs y \<Longrightarrow> x = y"
proof (induction bs arbitrary: x y)
  case (Cons b bs)
  then have "crc_step b x = crc_step b y" by simp
  then have "x XOR ucast b = y XOR ucast b" unfolding crc_step_bitwise by (rule crc_pow_inj)
  then show ?case by (simp only: xor_cancel)
qed simp

lemma burst_changes_crc:
  assumes "length as = length bs" and "length bs \<le> 4" and "as \<noteq> bs"
  shows "crc32 (pre @ as @ post) seed \<noteq> crc32 (pre @ bs @ post) seed"
proof
  assume "crc32 (pre @ as @ post) seed = crc32 (pre @ bs @ post) seed"
  let ?c = "fold crc_step pre (seed XOR 0xFFFFFFFF)"
  have "fold crc_step post (fold crc_step as ?c) = fold crc_step post (fold crc_step bs ?c)"
    using \<open>crc32 _ _ = _\<close> by (simp add: crc32_def xor_cancel)
  then have "fold crc_step as ?c = fold crc_step bs ?c" by (rule fold_crc_inj)
  then have "?c XOR le_word as = ?c XOR le_word bs"
    using crc_burst [of as ?c] crc_burst [of bs ?c] assms(1,2) by (metis crc_pow_inj)
  then have "le_word as = le_word bs" by (simp only: xor_cancel_left)
  then show False using le_word_inj [OF assms(1)] assms(2,3) by blast
qed

text \<open>C31: what the checksums of the day store are worth.  The table-driven routine is the bit by bit
  division by the CRC-32 polynomial, it continues over a split of its input, and any change of a block
  that is confined to four consecutive bytes, whatever they become, changes its checksum.\<close>

theorem crc_detects_bursts:
  assumes "length new = length old" and "length old \<le> 4" and "new \<noteq> old"
  shows "crc32 (pre @ new @ post) seed \<noteq> crc32 (pre @ old @ post) seed \<and>
    checksum (pre @ new @ post) \<noteq> checksum (pre @ old @ post) \<and>
    crc32 (pre @ post) seed = crc32 post (crc32 pre seed) \<and>
    crc32 pre seed = fold (\<lambda>b c. (crc_bit ^^ 8) (c XOR ucast b)) pre (seed XOR 0xFFFFFFFF) XOR 0xFFFFFFFF"
proof -
  have "crc_step = (\<lambda>b c. (crc_bit ^^ 8) (c XOR ucast b))" by (intro ext) (rule crc_step_bitwise)
  then have "crc32 pre seed = fold (\<lambda>b c. (crc_bit ^^ 8) (c XOR ucast b)) pre (seed XOR 0xFFFFFFFF) XOR 0xFFFFFFFF"
    by (simp only: crc32_def)
  moreover have "crc32 (pre @ post) seed = crc32 post (crc32 pre seed)" by (simp add: crc32_def xor.assoc)
  moreover note burst_changes_crc [OF assms]
  moreover have "checksum (pre @ new @ post) \<noteq> checksum (pre @ old @ post)"
    using burst_changes_crc [OF assms, of pre post 0] by (simp only: checksum_def word_uint_eq_iff [symmetric] not_False_eq_True)
  ultimately show ?thesis by blast
qed

theorem crc_detects_bursts_witness:
  "checksum [97] = 0xE8B7BE43 \<and>
   checksum ([49] @ [51, 50] @ [52]) \<noteq> checksum ([49] @ [50, 51] @ [52])"
proof -
  note t = crc_detects_bursts [of "[51, 50]" "[50, 51]" "[49]" "[52]"]
  have "crc32 pre seed = fold (\<lambda>b c. (crc_bit ^^ 8) (c XOR ucast b)) pre (seed XOR 0xFFFFFFFF) XOR 0xFFFFFFFF" for pre seed
    using crc_detects_bursts [of "[0]" "[1]" pre "[]" seed] by simp
  then have "checksum [97] =
      uint (fold (\<lambda>b c. (crc_bit ^^ 8) (c XOR ucast b)) ([97] :: u8 list) (0 XOR 0xFFFFFFFF) XOR 0xFFFFFFFF)"
    by (simp only: checksum_def)
  also have "\<dots> = 0xE8B7BE43" by code_simp
  finally show ?thesis using t by simp
qed

end
