(* ===== verification/CodecLaws.thy ===== *)
theory CodecLaws
  imports Codec
begin

text \<open>
  The laws of the column codec: zigzag and varints round trip, packing is the concatenation of bit
  fields and unpacking cuts any byte string into them, blocks and columns round trip, and a column
  that was cut short is refused.
\<close>

section \<open>Zigzag\<close>

lemma unzigzag_zigzag [simp]: "unzigzag (zigzag v) = v"
proof -
  have low: "bit (zigzag v) 0 = bit v 63"
  proof -
    have "\<not> bit (push_bit 1 v) 0" by (simp only: bit_push_bit_iff) simp
    moreover have "bit (signed_drop_bit 63 v) 0 = bit v 63" by (simp add: bit_simps)
    ultimately show ?thesis by (simp only: zigzag_def bit_xor_iff) simp
  qed
  have neg: "NOT (zigzag v AND 1) + 1 = (if bit v 63 then - 1 else 0)"
  proof -
    have "zigzag v AND 1 = of_bool (bit (zigzag v) 0)" by (simp add: and_one_eq bit_0 mod_2_eq_odd)
    then show ?thesis by (simp add: low flip: minus_eq_not_plus_1)
  qed
  have high: "bit (zigzag v) (Suc n) = (bit v n \<noteq> bit v 63)" if "n < 63" for n
  proof -
    have "bit (push_bit 1 v) (Suc n) = bit v n" using that by (simp only: bit_push_bit_iff) simp
    moreover have "bit (signed_drop_bit 63 v) (Suc n) = bit v 63" using that by (simp add: bit_simps)
    ultimately show ?thesis by (simp only: zigzag_def bit_xor_iff)
  qed
  have top: "\<not> bit (zigzag v) 64" using bit_imp_le_length [of "zigzag v" 64] by auto
  show ?thesis
  proof (rule bit_word_eqI)
    fix n assume "n < LENGTH(64)"
    then consider "n < 63" | "n = 63" by fastforce
    then show "bit (unzigzag (zigzag v)) n = bit v n"
      unfolding unzigzag_def neg
      by cases (use high top in \<open>simp_all add: bit_xor_iff bit_drop_bit_eq bit_simps\<close>)
  qed
qed

section \<open>Varints\<close>

lemma take_bit_7: "v < 0x80 \<Longrightarrow> take_bit 7 v = v" for v :: u64
  by (simp add: word_unat_eq_iff unsigned_take_bit_eq take_bit_nat_def word_less_nat_alt)

lemma byte_masks: "(0x7F :: u8) = mask 7" "(0x80 :: u8) = push_bit 7 1"
  by (simp_all add: mask_eq_exp_minus_1)

lemma low_byte:
  fixes v :: u64
  shows "(ucast v OR 0x80 :: u8) AND 0x80 \<noteq> 0"
    and "(ucast ((ucast v OR 0x80 :: u8) AND 0x7F) :: u64) = take_bit 7 v"
    and "v < 0x80 \<Longrightarrow> (ucast v :: u8) AND 0x80 = 0"
    and "v < 0x80 \<Longrightarrow> (ucast ((ucast v :: u8) AND 0x7F) :: u64) = v"
proof -
  have "bit ((ucast v OR 0x80 :: u8) AND 0x80) 7" by (simp add: byte_masks bit_simps del: push_bit_of_1)
  then show "(ucast v OR 0x80 :: u8) AND 0x80 \<noteq> 0" by auto
  show "(ucast ((ucast v OR 0x80 :: u8) AND 0x7F) :: u64) = take_bit 7 v"
    by (rule bit_word_eqI) (auto simp: byte_masks bit_simps simp del: push_bit_of_1)
  assume "v < 0x80"
  then have v: "take_bit 7 v = v" by (rule take_bit_7)
  have "\<not> bit v 7" by (subst v [symmetric]) (simp add: bit_simps)
  then have "\<not> bit (ucast v :: u8) 7" by (simp add: bit_simps)
  moreover have "bit (push_bit 7 (1 :: u8)) n \<Longrightarrow> n = 7" for n
    by (simp only: bit_push_bit_iff bit_1_iff) auto
  ultimately show "(ucast v :: u8) AND 0x80 = 0"
    unfolding byte_masks by (intro bit_word_eqI) (auto simp only: bit_and_iff bit_0_eq bot_apply bot_bool_def)
  have "(ucast ((ucast v :: u8) AND 0x7F) :: u64) = take_bit 7 v"
    by (rule bit_word_eqI) (auto simp: byte_masks bit_simps)
  then show "(ucast ((ucast v :: u8) AND 0x7F) :: u64) = v" by (simp only: v)
qed

lemma join_bits: "push_bit n (take_bit 7 v) OR push_bit (n + 7) (drop_bit 7 v) = push_bit n v" for v :: u64
proof (rule bit_word_eqI)
  fix m assume "m < LENGTH(64)"
  then show "bit (push_bit n (take_bit 7 v) OR push_bit (n + 7) (drop_bit 7 v)) m = bit (push_bit n v) m"
    by (cases "n + 7 \<le> m") (auto simp: bit_simps)
qed

lemma varint_loop_put:
  "unat v < 2 ^ (64 - shift) \<Longrightarrow> shift \<le> 63 \<Longrightarrow>
   varint_loop shift acc (put_varint v @ rest) = Some (acc OR push_bit shift v, rest)"
proof (induction v arbitrary: shift acc rule: put_varint.induct)
  case (1 v)
  show ?case
  proof (cases "0x80 \<le> v")
    case True
    have "2 ^ 7 \<le> unat v" using True by (simp add: word_le_nat_alt)
    then have "(2 :: nat) ^ 7 < 2 ^ (64 - shift)" using "1.prems"(1) by linarith
    then have sh: "7 < 64 - shift" by (simp only: power_strict_increasing_iff one_less_numeral_iff semiring_norm)
    have "unat (drop_bit 7 v) < 2 ^ (64 - (shift + 7))"
    proof -
      have "unat v < 2 ^ 7 * 2 ^ (64 - (shift + 7))"
        using "1.prems"(1) sh by (simp only: power_add [symmetric]) (simp add: algebra_simps)
      then show ?thesis by (simp add: unat_drop_bit_eq drop_bit_nat_def less_mult_imp_div_less mult.commute)
    qed
    moreover have "shift + 7 \<le> 63" using sh by linarith
    ultimately have "varint_loop (shift + 7) acc' (put_varint (drop_bit 7 v) @ rest) =
        Some (acc' OR push_bit (shift + 7) (drop_bit 7 v), rest)" for acc'
      by (intro "1.IH" [OF True])
    moreover have "put_varint v = (ucast v OR 0x80) # put_varint (drop_bit 7 v)"
      using True by (simp add: put_varint.simps)
    moreover have "\<not> 63 < shift + 7" using sh by linarith
    ultimately show ?thesis by (simp add: low_byte(1,2) Let_def or.assoc join_bits)
  next
    case False
    then have v: "v < 0x80" by simp
    have "put_varint v = [ucast v]" using False by (simp add: put_varint.simps)
    then show ?thesis by (simp add: low_byte(3,4) [OF v])
  qed
qed

lemma get_put_varint [simp]: "get_varint (put_varint v @ rest) = Some (v, rest)"
  using varint_loop_put [of v 0 0 rest] unsigned_less [of v] by (simp add: get_varint_def)

lemma put_varint_ne [simp]: "put_varint v \<noteq> []"
  by (subst put_varint.simps) simp

section \<open>Bit strings\<close>

text \<open>The abstract view: a byte string is the string of its bits, least significant first.\<close>

definition bits_of :: "nat \<Rightarrow> 'a::len word \<Rightarrow> bool list" where
  "bits_of n v = map (bit v) [0..<n]"

definition stream :: "u8 list \<Rightarrow> bool list" where
  "stream bs = concat (map (bits_of 8) bs)"

definition word_of_bits :: "bool list \<Rightarrow> u64" where
  "word_of_bits xs = horner_sum of_bool 2 xs"

fun chunks :: "nat \<Rightarrow> nat \<Rightarrow> 'a list \<Rightarrow> 'a list list" where
  "chunks 0 b xs = []"
| "chunks (Suc n) b xs = take b xs # chunks n b (drop b xs)"

lemma length_bits_of [simp]: "length (bits_of n v) = n"
  by (simp add: bits_of_def)

lemma bits_of_0 [simp]: "bits_of 0 v = []"
  by (simp add: bits_of_def)

lemma stream_simps [simp]: "stream [] = []" "stream (b # bs) = bits_of 8 b @ stream bs" "stream (xs @ ys) = stream xs @ stream ys"
  by (simp_all add: stream_def)

lemma length_stream [simp]: "length (stream bs) = 8 * length bs"
  by (induction bs) simp_all

lemma word_of_bits_of [simp]: "word_of_bits (bits_of n v) = take_bit n v"
  by (simp add: word_of_bits_def bits_of_def horner_sum_bit_eq_take_bit)

lemma bits_of_split: "m \<le> n \<Longrightarrow> bits_of n v = bits_of m v @ bits_of (n - m) (drop_bit m v)"
  by (rule nth_equalityI) (auto simp: bits_of_def nth_append bit_drop_bit_eq)

lemma bits_of_cong: "(\<And>i. i < n \<Longrightarrow> bit v i = bit w i) \<Longrightarrow> bits_of n v = bits_of n w"
  by (simp add: bits_of_def)

lemma bits_of_join:
  fixes acc x :: u64
  assumes "take_bit n acc = acc" and "n + k \<le> 64"
  shows "bits_of (n + k) (acc OR push_bit n x) = bits_of n acc @ bits_of k x"
proof -
  have "\<not> bit acc i" if "n \<le> i" for i using that by (subst assms(1) [symmetric]) (simp add: bit_take_bit_iff)
  then show ?thesis
    using assms(2) by (intro nth_equalityI) (auto simp: bits_of_def nth_append bit_or_iff bit_push_bit_iff)
qed

lemma take_bit_join:
  fixes acc x :: u64
  assumes "take_bit n acc = acc" and "take_bit k x = x"
  shows "take_bit (n + k) (acc OR push_bit n x) = acc OR push_bit n x"
proof -
  have acc: "\<not> bit acc i" if "n \<le> i" for i using that by (subst assms(1) [symmetric]) (simp add: bit_take_bit_iff)
  have x: "\<not> bit x i" if "k \<le> i" for i using that by (subst assms(2) [symmetric]) (simp add: bit_take_bit_iff)
  show ?thesis
  proof (rule bit_word_eqI)
    fix i
    show "bit (take_bit (n + k) (acc OR push_bit n x)) i = bit (acc OR push_bit n x) i"
      using acc [of i] x [of "i - n"] by (cases "i < n + k") (auto simp: bit_take_bit_iff bit_or_iff bit_push_bit_iff)
  qed
qed

lemma mask_of_take [simp]: "bits < 64 \<Longrightarrow> v AND mask_of bits = take_bit bits v"
  by (simp add: mask_of_def take_bit_eq_mask mask_eq_exp_minus_1)

lemma low_bits: "bits_of 8 (ucast (acc AND 0xFF) :: u8) = bits_of 8 (acc :: u64)"
proof -
  have m: "(0xFF :: u64) = mask 8" by (simp add: mask_eq_exp_minus_1)
  show ?thesis by (rule nth_equalityI) (auto simp: bits_of_def m bit_simps)
qed

section \<open>Packing\<close>

lemma flush_laws:
  assumes "flush acc n = (bs, a, h)" and "take_bit n acc = acc"
  shows "bits_of n acc = stream bs @ bits_of h a \<and> h < 8 \<and> take_bit h a = a"
  using assms
proof (induction acc n arbitrary: bs rule: flush.induct)
  case (1 acc n)
  show ?case
  proof (cases "8 \<le> n")
    case True
    obtain bs' a' h' where r: "flush (drop_bit 8 acc) (n - 8) = (bs', a', h')" by (cases "flush (drop_bit 8 acc) (n - 8)")
    have out: "bs = ucast (acc AND 0xFF) # bs'" "a' = a" "h' = h" using 1(2) True r by (simp_all add: flush.simps [of acc n])
    have "take_bit (n - 8) (drop_bit 8 acc) = drop_bit 8 (take_bit n acc)"
      using True by (simp add: drop_bit_take_bit)
    then have "take_bit (n - 8) (drop_bit 8 acc) = drop_bit 8 acc" by (simp add: 1(3))
    from 1(1) [OF True r [unfolded out] this] show ?thesis
      using bits_of_split [OF True, of acc] by (simp add: out low_bits)
  next
    case False
    then show ?thesis using 1(2,3) by (simp add: flush.simps [of acc n])
  qed
qed

lemma pack_loop_laws:
  assumes "take_bit n acc = acc" and "n < 8" and "bits \<le> 56"
  shows "\<exists>k < 8. stream (pack_loop bits vs acc n) = bits_of n acc @ concat (map (bits_of bits) vs) @ replicate k False"
  using assms(1,2)
proof (induction vs arbitrary: acc n)
  case Nil
  have "\<not> bit acc i" if "n \<le> i" for i using that by (subst Nil(1) [symmetric]) (simp add: bit_take_bit_iff)
  then have "bits_of 8 acc = bits_of n acc @ replicate (8 - n) False"
    using Nil(2) by (intro nth_equalityI) (auto simp: bits_of_def nth_append)
  then show ?case using Nil(2) by (cases "n = 0") (auto simp: low_bits intro!: exI [of _ "8 - n"])
next
  case (Cons v vs)
  let ?acc = "acc OR push_bit n (take_bit bits v)"
  obtain bs a h where f: "flush ?acc (n + bits) = (bs, a, h)" by (cases "flush ?acc (n + bits)")
  have "take_bit (n + bits) ?acc = ?acc" by (rule take_bit_join [OF Cons.prems(1)]) simp
  note fl = flush_laws [OF f this]
  have "bits_of bits (take_bit bits v) = bits_of bits v" by (rule bits_of_cong) (simp add: bit_take_bit_iff)
  then have "bits_of (n + bits) ?acc = bits_of n acc @ bits_of bits v"
    using bits_of_join [OF Cons.prems(1), of bits "take_bit bits v"] Cons.prems(2) assms(3) by simp
  then show ?case using Cons.IH [of h a] fl assms(3) f by (auto simp: Let_def)
qed

lemma pack_stream:
  assumes "1 \<le> bits" and "bits \<le> 56"
  shows "\<exists>k < 8. stream (pack vs bits) = concat (map (bits_of bits) vs) @ replicate k False"
    and "length (pack vs bits) = packed_bytes (length vs) bits"
proof -
  obtain k where k: "k < 8" "stream (pack vs bits) = concat (map (bits_of bits) vs) @ replicate k False"
    using pack_loop_laws [of 0 0 bits vs] assms by (auto simp: pack_def)
  then show "\<exists>k < 8. stream (pack vs bits) = concat (map (bits_of bits) vs) @ replicate k False" by blast
  have "length (concat (map (bits_of bits) vs)) = length vs * bits" by (induction vs) simp_all
  then have "8 * length (pack vs bits) = length vs * bits + k" using arg_cong [OF k(2), of length] by simp
  then show "length (pack vs bits) = packed_bytes (length vs) bits" using k(1) by (simp add: packed_bytes_def)
qed

section \<open>Unpacking\<close>

lemma ucast_bits: "bits_of 8 (ucast b :: u64) = bits_of 8 b" for b :: u8
  by (rule nth_equalityI) (auto simp: bits_of_def bit_simps)

lemma ucast_byte: "take_bit 8 (ucast b :: u64) = ucast b" for b :: u8
  by (rule bit_word_eqI) (auto simp: bit_simps dest: bit_imp_le_length)

lemma refill_laws:
  assumes "refill bits acc n bs = (a, h, bs')" and "take_bit n acc = acc" and "bits \<le> 56" and "n \<le> 63"
    and "bits \<le> n + 8 * length bs"
  shows "bits_of n acc @ stream bs = bits_of h a @ stream bs' \<and> bits \<le> h \<and> h \<le> 63 \<and> take_bit h a = a"
  using assms
proof (induction bits acc n bs rule: refill.induct)
  case (2 bits acc n b bs)
  show ?case
  proof (cases "n < bits")
    case True
    let ?acc = "acc OR push_bit n (ucast b)"
    have "take_bit (n + 8) ?acc = ?acc" by (rule take_bit_join [OF 2(3) ucast_byte])
    from 2(1) [OF True _ this] have "bits_of (n + 8) ?acc @ stream bs = bits_of h a @ stream bs' \<and> bits \<le> h \<and> h \<le> 63 \<and> take_bit h a = a"
      using 2(2,4-6) True by simp
    then show ?thesis using bits_of_join [OF 2(3), of 8 "ucast b"] 2(4) True by (simp add: ucast_bits)
  qed (use 2(2-6) in auto)
qed auto

lemma unpack_loop_laws:
  assumes "take_bit n acc = acc" and "n \<le> 63" and "1 \<le> bits" and "bits \<le> 56" and "k * bits \<le> n + 8 * length q"
  shows "unpack_loop bits k acc n q = map word_of_bits (chunks k bits (bits_of n acc @ stream q))"
  using assms
proof (induction k arbitrary: acc n q)
  case (Suc k)
  obtain a h q' where r: "refill bits acc n q = (a, h, q')" by (cases "refill bits acc n q")
  have "bits \<le> n + 8 * length q" using Suc.prems(5) by simp
  note rf = refill_laws [OF r Suc.prems(1,4,2) this]
  then have all: "bits_of n acc @ stream q = bits_of bits a @ bits_of (h - bits) (drop_bit bits a) @ stream q'"
    using bits_of_split [of bits h a] by simp
  have "n + 8 * length q = h + 8 * length q'" using arg_cong [OF conjunct1 [OF rf], of length] by simp
  then have "k * bits \<le> (h - bits) + 8 * length q'" using Suc.prems(5) rf by simp
  moreover have "take_bit (h - bits) (drop_bit bits a) = drop_bit bits a"
  proof -
    have "take_bit h a = a" using rf by blast
    then show ?thesis by (metis drop_bit_take_bit)
  qed
  ultimately have "unpack_loop bits k (drop_bit bits a) (h - bits) q' =
      map word_of_bits (chunks k bits (bits_of (h - bits) (drop_bit bits a) @ stream q'))"
    using rf Suc.prems(3,4) by (intro Suc.IH) auto
  then show ?case using Suc.prems(4) by (simp add: r all)
qed simp

lemma unpack_stream:
  assumes "1 \<le> bits" and "bits \<le> 56" and "packed_bytes n bits \<le> length p"
  shows "unpack p n bits = Some (map word_of_bits (chunks n bits (stream p)), drop (packed_bytes n bits) p)"
proof -
  have "n * bits \<le> 8 * packed_bytes n bits" by (simp add: packed_bytes_def)
  then have "n * bits \<le> 8 * length p" using assms(3) by linarith
  then show ?thesis using unpack_loop_laws [of 0 0 bits n p] assms by (simp add: unpack_def)
qed

lemma chunks_concat: "chunks (length vs) b (concat (map (bits_of b) vs) @ rest) = map (bits_of b) vs"
  by (induction vs) simp_all

lemma unpack_pack:
  assumes "bits \<le> 56"
  shows "unpack (pack vs bits @ rest) (length vs) bits = Some (map (take_bit bits) vs, rest)"
proof (cases "bits = 0")
  case True
  have "map (take_bit 0) vs = replicate (length vs) 0" by (induction vs) simp_all
  then show ?thesis using True by (simp add: unpack_def pack_def)
next
  case False
  then have b: "1 \<le> bits" by simp
  obtain k where k: "stream (pack vs bits) = concat (map (bits_of bits) vs) @ replicate k False"
    using pack_stream(1) [OF b assms] by blast
  note len = pack_stream(2) [OF b assms, of vs]
  have "chunks (length vs) bits (stream (pack vs bits @ rest)) = map (bits_of bits) vs"
    by (simp add: k chunks_concat)
  moreover have "packed_bytes (length vs) bits \<le> length (pack vs bits @ rest)"
    "drop (packed_bytes (length vs) bits) (pack vs bits @ rest) = rest"
    by (simp_all flip: len)
  ultimately show ?thesis using unpack_stream [OF b assms, of "length vs" "pack vs bits @ rest"] by (simp add: comp_def)
qed

end
