(* ===== verification/CodecColumns.thy ===== *)
theory CodecColumns
  imports CodecLaws
begin

text \<open>
  Blocks and columns of the codec: the common divisor and the bit width lose nothing, decoding
  inverts encoding, and decoding reads nothing past what it consumes.
\<close>

section \<open>The bit width\<close>

lemma bits_for_covers: "unat r < 2 ^ bits_for r"
proof (induction r rule: bits_for.induct)
  case (1 r)
  show ?case
  proof (cases "0 < r")
    case True
    have "unat (drop_bit 1 r) = unat r div 2" by (simp add: unat_drop_bit_eq drop_bit_nat_def)
    then have "unat r div 2 < 2 ^ bits_for (drop_bit 1 r)" using "1.IH" [OF True] by simp
    then have "unat r < 2 * 2 ^ bits_for (drop_bit 1 r)" by linarith
    then show ?thesis using True by (simp add: bits_for.simps [of r])
  qed (simp add: bits_for.simps word_gt_0)
qed

lemma bits_for_keeps:
  assumes "v \<le> r"
  shows "take_bit (bits_for r) v = v"
proof -
  have "unat v < 2 ^ bits_for r" using assms bits_for_covers [of r] by (simp add: word_le_nat_alt)
  then show ?thesis by (simp add: word_unat_eq_iff unsigned_take_bit_eq take_bit_nat_eq_self)
qed

lemma fold_max_above: "m \<le> fold (\<lambda>r m. max m r) rs m" "r \<in> set rs \<Longrightarrow> r \<le> fold (\<lambda>r m. max m r) rs m" for m :: u64
proof (induction rs arbitrary: m)
  case (Cons x xs)
  { case 1 show ?case using Cons.IH(1) [of "max m x"] by simp }
  { case 2 then show ?case using Cons.IH(1) [of "max m x"] Cons.IH(2) [of "max m x"] by auto }
qed simp_all

section \<open>The common divisor\<close>

lemma gcd_of_unat: "unat (gcd_of a b) = gcd (unat a) (unat b)"
proof (induction a b rule: gcd_of.induct)
  case (1 a b)
  show ?case
  proof (cases "b = 0")
    case False
    then show ?thesis using "1.IH" by (simp add: gcd_of.simps [of a b] unat_mod gcd.commute flip: gcd_red_nat)
  qed (simp add: gcd_of.simps)
qed

text \<open>The successive differences of a column.\<close>

fun steps :: "u64 \<Rightarrow> u64 list \<Rightarrow> u64 list" where
  "steps previous [] = []"
| "steps previous (v # vs) = (v - previous) # steps v vs"

lemma scale_divides:
  "unat (scale_loop previous scale vs) dvd unat scale \<and>
   (\<forall>r \<in> set (steps previous vs). unat (scale_loop previous scale vs) dvd unat (magnitude r))"
proof (induction previous scale vs rule: scale_loop.induct)
  case (2 previous scale v vs)
  show ?case
  proof (cases "scale = 1")
    case False
    then show ?thesis using "2.IH" by (auto simp: gcd_of_unat intro: dvd_trans)
  qed simp
qed simp

lemma sint_range: "- (2 ^ 63) \<le> sint r" "sint r < 2 ^ 63" for r :: u64
  using sint_greater_eq [of r] sint_less [of r] by simp_all

lemma uint_by_sign: "uint r = (if sint r < 0 then sint r + 2 ^ 64 else sint r)" for r :: u64
proof -
  have u: "uint r = sint r mod 2 ^ 64" by (simp add: uint_sint take_bit_eq_mod)
  show ?thesis
  proof (cases "sint r < 0")
    case True
    have "sint r mod 2 ^ 64 = (sint r + 2 ^ 64) mod 2 ^ 64" by simp
    also have "\<dots> = sint r + 2 ^ 64" by (rule mod_pos_pos_trivial) (use True sint_range [of r] in simp_all)
    finally show ?thesis using True u by simp
  next
    case False
    have "sint r mod 2 ^ 64 = sint r" by (rule mod_pos_pos_trivial) (use False sint_range [of r] in simp_all)
    then show ?thesis using False u by simp
  qed
qed

lemma unat_magnitude: "int (unat (magnitude r)) = \<bar>sint r\<bar>"
proof (cases "sint r < 0")
  case True
  have neg: "- r = word_of_int (- sint r)" by simp
  have "uint (- r) = - sint r mod 2 ^ 64"
    unfolding neg by (simp only: uint_word_of_int_eq take_bit_eq_mod) simp
  also have "\<dots> = - sint r" by (rule mod_pos_pos_trivial) (use True sint_range [of r] in simp_all)
  finally have "uint (- r) = - sint r" .
  then show ?thesis using True by (simp add: magnitude_def flip: minus_eq_not_plus_1)
qed (simp add: magnitude_def uint_by_sign)

lemma cdiv_exact:
  assumes "b dvd a"
  shows "cdiv a b * b = a"
proof (cases "b = 0")
  case False
  then have "\<bar>a\<bar> div \<bar>b\<bar> * \<bar>b\<bar> = \<bar>a\<bar>" using assms by simp
  moreover have "cdiv a b * b = sgn a * (sgn b * (\<bar>a\<bar> div \<bar>b\<bar> * b))" by (simp add: cdiv_def)
  moreover have "sgn b * (q * b) = q * \<bar>b\<bar>" for q by (simp add: abs_sgn mult.commute mult.left_commute)
  ultimately show ?thesis by (simp add: sgn_mult_abs)
qed (use assms in \<open>simp add: cdiv_def\<close>)

text \<open>A divisor of the magnitude divides the signed value, \<open>2 ^ 63\<close> included.\<close>

lemma signed_divides:
  fixes s :: u64
  assumes "unat s dvd unat (magnitude r)" and "s \<noteq> 0"
  shows "sint s dvd sint r"
proof -
  have "int (unat s) dvd \<bar>sint r\<bar>" using assms(1) unat_magnitude [of r] by (metis int_dvd_int_iff)
  then have d: "uint s dvd \<bar>sint r\<bar>" by simp
  show ?thesis
  proof (cases "sint s < 0")
    case False
    then have "uint s = sint s" using uint_by_sign [of s] by argo
    then show ?thesis using d by simp
  next
    case True
    show ?thesis
    proof (cases "sint r = 0")
      case nz: False
      have "uint s \<le> \<bar>sint r\<bar>" using d nz by (simp add: zdvd_imp_le)
      moreover have "\<bar>sint r\<bar> \<le> 2 ^ 63" using sint_greater_eq [of r] sint_less [of r] by simp
      moreover have "2 ^ 63 \<le> uint s" using True sint_greater_eq [of s] by (simp add: uint_by_sign)
      ultimately have "\<bar>sint r\<bar> = 2 ^ 63" "sint s = - (2 ^ 63)" using True by (simp_all add: uint_by_sign)
      then show ?thesis by (metis dvd_abs_iff minus_dvd_iff dvd_refl)
    qed simp
  qed
qed

lemma quotient_exact:
  assumes "unat s dvd unat (magnitude r)" and "s \<noteq> 0"
  shows "signed_quotient r s * s = r"
proof -
  have "signed_quotient r s * s = word_of_int (cdiv (sint r) (sint s) * sint s)"
    by (simp add: signed_quotient_def)
  also have "\<dots> = r" by (simp add: cdiv_exact [OF signed_divides [OF assms]])
  finally show ?thesis .
qed

section \<open>Raw values\<close>

lemma get_put_raw_from:
  "b \<le> 8 \<Longrightarrow> get_raw b acc (map (\<lambda>b. ucast (drop_bit (8 * b) v AND 0xFF)) [b..<8]) = acc OR push_bit (8 * b) (drop_bit (8 * b) v)"
proof (induction "8 - b" arbitrary: b acc)
  case 0
  then have "b = 8" by simp
  moreover have "drop_bit 64 v = 0" for v :: u64 by (rule bit_word_eqI) (auto simp: bit_drop_bit_eq dest: bit_imp_le_length)
  ultimately show ?case by simp
next
  case (Suc n)
  then have b: "b < 8" "n = 8 - Suc b" "Suc b \<le> 8" by simp_all
  have m: "(0xFF :: u64) = mask 8" by (simp add: mask_eq_exp_minus_1)
  have "push_bit (8 * b) (ucast (ucast (drop_bit (8 * b) v AND 0xFF) :: u8)) OR push_bit (8 * Suc b) (drop_bit (8 * Suc b) v) =
      push_bit (8 * b) (drop_bit (8 * b) v)"
  proof (rule bit_word_eqI)
    fix i assume "i < LENGTH(64)"
    then show "bit (push_bit (8 * b) (ucast (ucast (drop_bit (8 * b) v AND 0xFF) :: u8)) OR push_bit (8 * Suc b) (drop_bit (8 * Suc b) v)) i =
        bit (push_bit (8 * b) (drop_bit (8 * b) v)) i"
      by (cases "8 * Suc b \<le> i") (auto simp: m bit_simps)
  qed
  then show ?case
    using Suc(1) [OF b(2,3)] b(1) by (simp add: upt_conv_Cons or.assoc)
qed

lemma get_put_raw: "get_raw 0 0 (put_raw v) = v"
  using get_put_raw_from [of 0 0 v] by (simp add: put_raw_def)

lemma length_put_raw [simp]: "length (put_raw v) = 8"
  by (simp add: put_raw_def)

lemma raw_values_put: "raw_values (length vs) (concat (map put_raw vs) @ rest) = vs"
  by (induction vs) (simp_all add: get_put_raw)

lemma length_raws [simp]: "length (concat (map put_raw vs)) = length vs * 8"
  by (induction vs) simp_all

section \<open>Blocks\<close>

lemma length_deltas [simp]: "length (block_deltas scale previous vs) = length vs"
  by (induction scale previous vs rule: block_deltas.induct) (simp_all add: Let_def)

lemma rebuild_deltas:
  assumes "scale \<noteq> 0" and "\<forall>r \<in> set (steps previous vs). unat scale dvd unat (magnitude r)"
  shows "rebuild scale m previous (map (\<lambda>d. d - m) (block_deltas scale previous vs)) = vs"
  using assms(2)
proof (induction vs arbitrary: previous)
  case (Cons v vs)
  then have "signed_quotient (v - previous) scale * scale = v - previous"
    using assms(1) by (intro quotient_exact) simp_all
  moreover have "rebuild scale m v (map (\<lambda>d. d - m) (block_deltas scale v vs)) = vs" using Cons by simp
  ultimately show ?case by (cases "scale = 1") (simp_all add: Let_def)
qed simp

lemma decode_encode_residuals:
  assumes "\<forall>r \<in> set rs. r \<le> rng" and "bits = (if kMaxPackedBits < bits_for rng then 64 else bits_for rng)"
  shows "unat (of_nat bits :: u8) = bits"
    and "decode_residuals ((if bits = 64 then concat (map put_raw rs) else pack rs bits) @ rest) (length rs) bits = Some (rs, rest)"
proof -
  have bits: "bits \<le> 64" using assms(2) by (simp add: kMaxPackedBits_def split: if_splits)
  then show "unat (of_nat bits :: u8) = bits" by (simp add: unat_of_nat)
  show "decode_residuals ((if bits = 64 then concat (map put_raw rs) else pack rs bits) @ rest) (length rs) bits = Some (rs, rest)"
  proof (cases "bits = 64")
    case True
    then show ?thesis by (simp add: decode_residuals_def raw_values_put)
  next
    case False
    then have b: "bits = bits_for rng" "bits \<le> 56" using assms(2) by (auto simp: kMaxPackedBits_def split: if_splits)
    have "map (take_bit bits) rs = rs" by (rule map_idI) (use assms(1) in \<open>simp add: b(1) bits_for_keeps\<close>)
    then show ?thesis using False b(2) bits unpack_pack [OF b(2), of rs rest] by (simp add: decode_residuals_def kMaxPackedBits_def)
  qed
qed

lemma decode_encode_block:
  assumes "scale \<noteq> 0" and "\<forall>r \<in> set (steps previous vs). unat scale dvd unat (magnitude r)"
  shows "decode_block scale previous (length vs) (encode_block scale previous vs @ rest) = Some (vs, rest)"
proof -
  define ds where "ds = block_deltas scale previous vs"
  define m where "m = min_delta_of ds"
  define rs where "rs = map (\<lambda>d. d - m) ds"
  define rng where "rng = fold (\<lambda>r m. max m r) rs 0"
  define bits where "bits = (if kMaxPackedBits < bits_for rng then 64 else bits_for rng)"
  have "\<forall>r \<in> set rs. r \<le> rng" by (auto simp: rng_def intro: fold_max_above(2))
  note res = decode_encode_residuals [OF this bits_def]
  have len: "length vs = length rs" by (simp add: rs_def ds_def)
  have "encode_block scale previous vs = put_varint (zigzag m) @ [of_nat bits] @
      (if bits = 64 then concat (map put_raw rs) else pack rs bits)"
    by (simp add: encode_block_def Let_def ds_def m_def rs_def rng_def bits_def)
  then show ?thesis
    using res(2) [of rest] rebuild_deltas [OF assms, of m] unfolding decode_block_def len
    by (simp add: res(1) rs_def ds_def)
qed

section \<open>Columns\<close>

lemma steps_append: "steps previous (xs @ ys) = steps previous xs @ steps (last (previous # xs)) ys"
  by (induction xs arbitrary: previous) auto

lemma decode_encode_blocks:
  "scale \<noteq> 0 \<Longrightarrow> \<forall>r \<in> set (steps previous vs). unat scale dvd unat (magnitude r) \<Longrightarrow>
   decode_blocks scale previous (length vs) (encode_blocks scale previous vs @ rest) = Some (vs, rest)"
proof (induction scale previous vs rule: encode_blocks.induct)
  case (1 scale previous vs)
  show ?case
  proof (cases "vs = []")
    case False
    define blk where "blk = take kCodecBlock vs"
    define more where "more = drop kCodecBlock vs"
    have split: "vs = blk @ more" by (simp add: blk_def more_def)
    have ne: "blk \<noteq> []" using False by (simp add: blk_def kCodecBlock_def)
    have n: "min kCodecBlock (length vs) = length blk" by (simp add: blk_def min.commute)
    have st: "steps previous vs = steps previous blk @ steps (last blk) more"
      using steps_append [of previous blk more] ne by (simp add: split)
    have head: "decode_block scale previous (length blk) (encode_block scale previous blk @ rest') = Some (blk, rest')" for rest'
      using "1.prems" by (intro decode_encode_block) (auto simp: st)
    have "decode_blocks scale (last blk) (length more) (encode_blocks scale (last blk) more @ rest) = Some (more, rest)"
      using "1.IH" [OF False blk_def] "1.prems" by (simp add: st more_def)
    moreover have "length vs - length blk = length more" by (simp add: split)
    moreover have "encode_blocks scale previous vs = encode_block scale previous blk @ encode_blocks scale (last blk) more"
      using False by (simp add: encode_blocks.simps [of scale previous vs] Let_def blk_def more_def)
    ultimately show ?thesis
      using False by (subst decode_blocks.simps) (simp add: n head split [symmetric])
  qed (simp add: encode_blocks.simps decode_blocks.simps)
qed

lemma column_round_trip:
  assumes "length xs < 2 ^ 64"
  shows "decode_column (column_bytes xs @ rest) = Some (xs, length (column_bytes xs))"
proof -
  have count: "unat (of_nat (length xs) :: u64) = length xs" using assms by (simp add: unat_of_nat)
  show ?thesis
  proof (cases xs)
    case Nil
    then show ?thesis by (simp add: decode_column_def column_bytes_def)
  next
    case (Cons v vs)
    define s0 where "s0 = scale_loop v 0 vs"
    define scale where "scale = (if s0 = 0 then 1 else s0)"
    have s: "scale \<noteq> 0" by (simp add: scale_def)
    have "unat scale dvd unat (magnitude r)" if "r \<in> set (steps v vs)" for r
    proof (cases "s0 = 0")
      case False
      then show ?thesis using scale_divides [of v 0 vs] that by (simp add: scale_def s0_def)
    qed (simp add: scale_def)
    then have blocks: "decode_blocks scale v (length vs) (encode_blocks scale v vs @ rest) = Some (vs, rest)"
      using s by (intro decode_encode_blocks) simp_all
    have bytes: "column_bytes xs = put_varint (of_nat (length xs)) @ put_varint (zigzag v) @ put_varint scale @ encode_blocks scale v vs"
      by (simp add: column_bytes_def Cons Let_def s0_def scale_def)
    have nz: "(of_nat (length xs) :: u64) \<noteq> 0" using count Cons by (metis length_0_conv list.distinct(1) unsigned_0)
    have left: "unat (of_nat (length xs) :: u64) - 1 = length vs" unfolding count by (simp add: Cons)
    show ?thesis
      unfolding decode_column_def bytes append_assoc get_put_varint option.case prod.case
      using nz s by (simp only: if_False unzigzag_zigzag left blocks option.case prod.case) (simp add: Cons)
  qed
qed

section \<open>What decoding reads\<close>

text \<open>
  A reader that succeeds consumes a prefix of its input, at least \<open>k\<close> bytes of it, and gives the
  same value whatever follows.
\<close>

definition reads :: "nat \<Rightarrow> (u8 list \<Rightarrow> ('a \<times> u8 list) option) \<Rightarrow> bool" where
  "reads k f \<longleftrightarrow> (\<forall>p x r. f p = Some (x, r) \<longrightarrow> k + length r \<le> length p \<and> (\<forall>e. f (p @ e) = Some (x, r @ e)))"

lemma readsD: "reads k f \<Longrightarrow> f p = Some (x, r) \<Longrightarrow> k + length r \<le> length p"
  "reads k f \<Longrightarrow> f p = Some (x, r) \<Longrightarrow> f (p @ e) = Some (x, r @ e)"
  by (auto simp: reads_def)

lemma varint_loop_reads: "varint_loop sh acc p = Some (x, r) \<Longrightarrow>
    1 + length r \<le> length p \<and> varint_loop sh acc (p @ e) = Some (x, r @ e)"
  by (induction sh acc p rule: varint_loop.induct) (fastforce simp: Let_def split: if_splits)+

lemma get_varint_reads: "reads 1 get_varint"
  using varint_loop_reads by (auto simp: reads_def get_varint_def)

lemma chunks_append: "n * b \<le> length xs \<Longrightarrow> chunks n b (xs @ ys) = chunks n b xs"
  by (induction n arbitrary: xs) simp_all

lemma length_chunks [simp]: "length (chunks n b xs) = n"
  by (induction n arbitrary: xs) simp_all

lemma raw_values_append: "n * 8 \<le> length p \<Longrightarrow> raw_values n (p @ e) = raw_values n p"
  by (induction n arbitrary: p) simp_all

lemma length_raw_values [simp]: "length (raw_values n p) = n"
  by (induction n arbitrary: p) simp_all

lemma unpack_reads:
  assumes "bits \<le> 56"
  shows "reads 0 (\<lambda>p. unpack p n bits)" and "unpack p n bits = Some (vs, r) \<Longrightarrow> length vs = n"
proof -
  have "0 + length r \<le> length p \<and> (\<forall>e. unpack (p @ e) n bits = Some (x, r @ e)) \<and> length x = n"
    if run: "unpack p n bits = Some (x, r)" for p x r
  proof (cases "bits = 0")
    case True
    then show ?thesis using run by (auto simp: unpack_def)
  next
    case False
    then have b: "1 \<le> bits" by simp
    have len: "packed_bytes n bits \<le> length p" using run False by (simp add: unpack_def split: if_splits)
    then have len': "packed_bytes n bits \<le> length (p @ e)" for e by simp
    have "n * bits \<le> 8 * packed_bytes n bits" by (simp add: packed_bytes_def)
    then have "n * bits \<le> length (stream p)" using len by simp
    then show ?thesis
      using run unpack_stream [OF b assms len] unpack_stream [OF b assms len'] len by (auto simp: chunks_append)
  qed
  then show "reads 0 (\<lambda>p. unpack p n bits)" "unpack p n bits = Some (vs, r) \<Longrightarrow> length vs = n"
    by (simp_all add: reads_def)
qed

lemma decode_residuals_reads:
  shows "reads 0 (\<lambda>p. decode_residuals p n bits)" and "decode_residuals p n bits = Some (rs, r) \<Longrightarrow> length rs = n"
proof -
  consider "bits = 64" | "bits \<noteq> 64" "bits \<le> 56" | "bits \<noteq> 64" "56 < bits" by linarith
  then have "reads 0 (\<lambda>p. decode_residuals p n bits) \<and> (\<forall>p rs r. decode_residuals p n bits = Some (rs, r) \<longrightarrow> length rs = n)"
  proof cases
    case 1
    then show ?thesis by (auto simp: reads_def decode_residuals_def raw_values_append split: if_splits)
  next
    case 2
    then have "decode_residuals p n bits = unpack p n bits" for p by (simp add: decode_residuals_def kMaxPackedBits_def)
    then show ?thesis using unpack_reads [OF 2(2)] by simp
  next
    case 3
    then have "decode_residuals p n bits = None" for p by (simp add: decode_residuals_def kMaxPackedBits_def)
    then show ?thesis by (simp add: reads_def)
  qed
  then show "reads 0 (\<lambda>p. decode_residuals p n bits)" "decode_residuals p n bits = Some (rs, r) \<Longrightarrow> length rs = n"
    by auto
qed

lemma length_rebuild [simp]: "length (rebuild scale m previous rs) = length rs"
  by (induction scale m previous rs rule: rebuild.induct) (simp_all add: Let_def)

lemma decode_block_cases:
  assumes "decode_block scale previous n p = Some (vs, r)"
  obtains m b p2 rs where "get_varint p = Some (m, b # p2)" "decode_residuals p2 n (unat b) = Some (rs, r)"
    "vs = rebuild scale (unzigzag m) previous rs"
  using assms by (auto simp: decode_block_def split: option.splits list.splits)

lemma decode_block_reads:
  shows "reads 2 (decode_block scale previous n)" and "decode_block scale previous n p = Some (vs, r) \<Longrightarrow> length vs = n"
proof -
  have "2 + length r \<le> length p \<and> (\<forall>e. decode_block scale previous n (p @ e) = Some (x, r @ e))"
    if run: "decode_block scale previous n p = Some (x, r)" for p x r
    using run
  proof (cases rule: decode_block_cases)
    case (1 m b p2 rs)
    note v = readsD [OF get_varint_reads 1(1)] and d = readsD [OF decode_residuals_reads(1) 1(2)]
    show ?thesis using v(1) d(1) v(2) d(2) by (simp add: decode_block_def 1(3))
  qed
  then show "reads 2 (decode_block scale previous n)" by (simp add: reads_def)
  show "length vs = n" if "decode_block scale previous n p = Some (vs, r)"
    using that by (cases rule: decode_block_cases) (simp add: decode_residuals_reads(2))
qed

lemma decode_blocks_reads:
  "decode_blocks scale previous n p = Some (x, r) \<Longrightarrow>
   length x = n \<and> length r \<le> length p \<and> decode_blocks scale previous n (p @ e) = Some (x, r @ e)"
proof (induction scale previous n p arbitrary: x r rule: decode_blocks.induct)
  case (1 scale previous n p)
  show ?case
  proof (cases "n = 0")
    case False
    obtain vs p1 where one: "decode_block scale previous (min kCodecBlock n) p = Some (vs, p1)"
      using "1.prems" False by (subst (asm) decode_blocks.simps) (auto split: option.splits)
    obtain ws where more: "decode_blocks scale (last vs) (n - min kCodecBlock n) p1 = Some (ws, r)" and x: "x = vs @ ws"
      using "1.prems" False by (subst (asm) decode_blocks.simps) (auto simp: one split: option.splits)
    note ih = "1.IH" [OF False one refl more]
    note rd = readsD [OF decode_block_reads(1) one]
    have "decode_blocks scale previous n (p @ e) = Some (x, r @ e)"
      using False ih by (subst decode_blocks.simps) (simp add: rd(2) x)
    then show ?thesis using ih rd(1) decode_block_reads(2) [OF one] by (simp add: x)
  qed (use "1.prems" in \<open>simp add: decode_blocks.simps\<close>)
qed

lemma decode_column_reads:
  assumes "decode_column p = Some (xs, m)"
  shows "length xs = peek_column_count p" and "m \<le> length p" and "0 < m" and "decode_column (p @ e) = Some (xs, m)"
proof -
  obtain count p0 where c: "get_varint p = Some (count, p0)"
    using assms by (auto simp: decode_column_def split: option.splits)
  note rc = readsD [OF get_varint_reads c]
  have "length xs = unat count \<and> m \<le> length p \<and> 0 < m \<and> decode_column (p @ e) = Some (xs, m)"
  proof (cases "count = 0")
    case True
    then show ?thesis using assms rc by (auto simp: decode_column_def c)
  next
    case False
    obtain first p1 where f: "get_varint p0 = Some (first, p1)"
      using assms False by (auto simp: decode_column_def c split: option.splits)
    obtain scale p2 where s: "get_varint p1 = Some (scale, p2)" "scale \<noteq> 0"
      using assms False by (auto simp: decode_column_def c f split: option.splits if_splits)
    obtain vs p3 where b: "decode_blocks scale (unzigzag first) (unat count - 1) p2 = Some (vs, p3)"
      "xs = unzigzag first # vs" "m = length p - length p3"
      using assms False s(2) by (auto simp: decode_column_def c f s(1) split: option.splits)
    note rf = readsD [OF get_varint_reads f] and rs = readsD [OF get_varint_reads s(1)] and rb = decode_blocks_reads [OF b(1)]
    have "length vs = unat count - 1" "length p3 \<le> length p2" using rb [where e = e] by blast+
    moreover have "0 < unat count" using False by (simp add: unat_gt_0)
    moreover have "decode_column (p @ e) = Some (xs, m)"
      using False s(2) rb by (simp add: decode_column_def rc(2) rf(2) rs(2) b(2,3))
    ultimately show ?thesis using rc(1) rf(1) rs(1) by (simp add: b(2,3))
  qed
  then show "length xs = peek_column_count p" "m \<le> length p" "0 < m" "decode_column (p @ e) = Some (xs, m)"
    by (simp_all add: peek_column_count_def c)
qed

section \<open>Properties\<close>

text \<open>C26: packing refines the bit string it stands for.  For every width the encoder packs with, the bytes
  of \<open>pack\<close>, read as bits, are the low \<open>bits\<close> bits of each value in turn and fewer than eight zero
  bits, \<open>packed_bytes\<close> bytes in all; \<open>unpack\<close> accepts exactly the inputs that are long enough, cuts
  their bits into fields of that width and leaves the rest; so the 64-bit accumulators of both loops
  never lose a bit.\<close>

theorem packing_is_bit_concatenation:
  assumes "1 \<le> bits" and "bits \<le> kMaxPackedBits"
  shows "(\<exists>k < 8. stream (pack vs bits) = concat (map (bits_of bits) vs) @ replicate k False) \<and>
    length (pack vs bits) = packed_bytes (length vs) bits \<and>
    (unpack p n bits = (if length p < packed_bytes n bits then None
       else Some (map word_of_bits (chunks n bits (stream p)), drop (packed_bytes n bits) p))) \<and>
    unpack (pack vs bits @ rest) (length vs) bits = Some (map (take_bit bits) vs, rest)"
proof -
  have b: "bits \<le> 56" using assms(2) by (simp add: kMaxPackedBits_def)
  have "unpack p n bits = None" if "length p < packed_bytes n bits" using assms(1) that by (simp add: unpack_def)
  then show ?thesis
    using pack_stream [OF assms(1) b, of vs] unpack_stream [OF assms(1) b, of n p] unpack_pack [OF b, of vs rest]
    by (simp add: not_less)
qed

theorem packing_is_bit_concatenation_witness:
  "pack [5, 2, 7] 3 = [0xD5, 1] \<and> unpack ([0xD5, 1] @ [9]) (length [5, 2, 7 :: u64]) 3 = Some (map (take_bit 3) [5, 2, 7], [9])"
proof -
  have p: "pack [5, 2, 7] 3 = [0xD5, 1]" by code_simp
  have "1 \<le> (3 :: nat)" "3 \<le> kMaxPackedBits" by (simp_all add: kMaxPackedBits_def)
  from packing_is_bit_concatenation [OF this, of "[5, 2, 7]" "[]" 0 "[9]"] show ?thesis unfolding p by blast
qed

text \<open>C27: the codec is lossless.  Decoding what \<open>encode_column\<close> appended, whatever follows it, gives back
  the column exactly, for every 64-bit value and every wrap-around of their differences, consumes
  exactly the bytes written, and the count can be read without decoding.\<close>

theorem decode_inverts_encode:
  assumes "length values < 2 ^ 64" and "encode_column values out = (out @ written, n)"
  shows "decode_column (written @ rest) = Some (values, n) \<and> n = length written \<and>
    peek_column_count (written @ rest) = length values"
proof -
  have w: "written = column_bytes values" "n = length (column_bytes values)"
    using assms(2) by (auto simp: encode_column_def)
  note trip = column_round_trip [OF assms(1), of rest]
  show ?thesis using trip decode_column_reads(1) [OF trip] by (simp add: w)
qed

theorem decode_inverts_encode_witness:
  "decode_column ([4, 200, 1, 1, 7, 4, 133, 0] @ [42]) = Some ([100, 101, 105, 101], 8)"
proof -
  have "column_bytes [100, 101, 105, 101] = [4, 200, 1, 1, 7, 4, 133, 0]" by code_simp
  then have "encode_column [100, 101, 105, 101] [] = ([] @ [4, 200, 1, 1, 7, 4, 133, 0], 8)"
    by (simp add: encode_column_def)
  from decode_inverts_encode [OF _ this, of "[42]"] show ?thesis by simp
qed

text \<open>C28: a truncated column is refused.  Every proper prefix of an encoded column decodes to nothing; and
  any input that decodes at all, encoded here or not, gives as many values as it claims, consumes at
  least one byte and at most its length, and means the same whatever follows.\<close>

theorem truncated_columns_are_refused:
  assumes "length values < 2 ^ 64" and "k < length (column_bytes values)"
  shows "decode_column (take k (column_bytes values)) = None \<and>
    (\<forall>p xs m. decode_column p = Some (xs, m) \<longrightarrow>
       length xs = peek_column_count p \<and> 0 < m \<and> m \<le> length p \<and> (\<forall>e. decode_column (p @ e) = Some (xs, m)))"
proof -
  have "decode_column (take k (column_bytes values)) = None"
  proof (rule ccontr)
    assume "decode_column (take k (column_bytes values)) \<noteq> None"
    then obtain xs m where d: "decode_column (take k (column_bytes values)) = Some (xs, m)" by auto
    have "decode_column (column_bytes values) = Some (xs, m)"
      using decode_column_reads(4) [OF d, of "drop k (column_bytes values)"] by simp
    moreover have "decode_column (column_bytes values) = Some (values, length (column_bytes values))"
      using column_round_trip [OF assms(1), of "[]"] by simp
    moreover have "m \<le> k" using decode_column_reads(2) [OF d] by simp
    ultimately show False using assms(2) by simp
  qed
  then show ?thesis using decode_column_reads by blast
qed

theorem truncated_columns_are_refused_witness:
  "decode_column [4, 200, 1, 1, 7, 4, 133] = None"
proof -
  have c: "column_bytes [100, 101, 105, 101] = [4, 200, 1, 1, 7, 4, 133, 0]" by code_simp
  show ?thesis using truncated_columns_are_refused [of "[100, 101, 105, 101]" 7] unfolding c by simp
qed

end
