(* ===== verification/VfdayFormat.thy ===== *)
theory VfdayFormat
  imports VfdayCrc CodecColumns
begin

text \<open>
  What the day store writes it reads back, piece by piece: the packed structs, arrays of them, and
  the columns of an instrument.
\<close>

section \<open>Packed structs\<close>

lemma length_le [simp]: "length (le n x) = n"
  by (induction n arbitrary: x) simp_all

lemma unle_le [simp]: "unle (le n x) = x mod 256 ^ n"
proof (induction n arbitrary: x)
  case (Suc n)
  have "uint (word_of_int x :: u8) = x mod 256" by (simp add: uint_word_of_int)
  moreover have "x mod (256 * 256 ^ n) = 256 * (x div 256 mod 256 ^ n) + x mod 256"
    by (rule zmod_zmult2_eq) simp
  ultimately show ?case using Suc by simp
qed simp

text \<open>The readers, stripped of their casts.\<close>

lemma i32_wrap: "i32_ok x \<Longrightarrow> to_i32 (x mod 2 ^ 32) = x"
  by (simp add: to_i32_def mod_simps)

lemma i64_wrap: "i64_ok x \<Longrightarrow> to_i64 (x mod 2 ^ 64) = x"
  by (simp add: to_i64_def mod_simps)

lemmas readers = u8_at_def u16_at_def u32_at_def i32_at_def i64_at_def

text \<open>A struct with a fixed layout, and arrays of it.\<close>

locale packed_struct =
  fixes put :: "'a \<Rightarrow> u8 list" and get :: "u8 list \<Rightarrow> 'a" and width :: nat and ok :: "'a \<Rightarrow> bool"
  assumes length_put: "ok x \<Longrightarrow> length (put x) = width"
    and get_put: "ok x \<Longrightarrow> get (put x @ rest) = x"
begin

lemma length_array: "list_all ok xs \<Longrightarrow> length (concat (map put xs)) = length xs * width"
  by (induction xs) (simp_all add: length_put)

lemma array_at:
  assumes "list_all ok xs" and "k < length xs"
  shows "get (drop (k * width) (concat (map put xs))) = xs ! k"
  using assms
proof (induction xs arbitrary: k)
  case (Cons x xs)
  then show ?case
    by (cases k) (simp_all add: get_put length_put drop_append)
qed simp

end

abbreviation u32_ok :: "int \<Rightarrow> bool" where
  "u32_ok x \<equiv> 0 \<le> x \<and> x < 2 ^ 32"

definition region_ok :: "region \<Rightarrow> bool" where
  "region_ok r \<longleftrightarrow> i64_ok (rg_offset r) \<and> u32_ok (rg_size r) \<and> u32_ok (rg_crc r)"

definition table_entry_ok :: "table_entry \<Rightarrow> bool" where
  "table_entry_ok t \<longleftrightarrow> u32_ok (te_name_offset t) \<and> u32_ok (te_name_length t) \<and> 0 \<le> te_kind t \<and> te_kind t < 2 ^ 8 \<and>
     0 \<le> te_right t \<and> te_right t < 2 ^ 8 \<and> te_reserved t = 0 \<and> i32_ok (te_expiry t) \<and> i32_ok (te_strike t) \<and>
     i32_ok (te_lot_size t) \<and> i32_ok (te_tick t)"

definition directory_entry_ok :: "directory_entry \<Rightarrow> bool" where
  "directory_entry_ok e \<longleftrightarrow> i32_ok (dx_table_index e) \<and> u32_ok (dx_row_count e) \<and> i64_ok (dx_blob_offset e) \<and>
     u32_ok (dx_blob_bytes e) \<and> u32_ok (dx_blob_crc e) \<and> i64_ok (dx_first_ts e) \<and> i64_ok (dx_last_ts e)"

definition header_ok :: "file_header \<Rightarrow> bool" where
  "header_ok h \<longleftrightarrow> length (h_magic h) = 8 \<and> u32_ok (h_version h) \<and> u32_ok (h_flags h) \<and> i32_ok (h_date h) \<and>
     i32_ok (h_instrument_count h) \<and> i64_ok (h_total_rows h) \<and> region_ok (h_table h) \<and> region_ok (h_strings h) \<and>
     region_ok (h_timeline h) \<and> region_ok (h_directory h) \<and> i64_ok (h_file_bytes h) \<and> u32_ok (h_header_crc h) \<and>
     u32_ok (h_reserved h)"

lemma header_size_laws [simp]: "length (put_region r) = 16"
  by (simp add: put_region_def del: le.simps)

lemma region_get_put:
  assumes "region_ok r" and "length pre = k"
  shows "region_at k (pre @ put_region r @ post) = r"
  using assms i64_wrap [of "rg_offset r"]
  by (cases r) (simp add: region_ok_def region_at_def put_region_def readers del: le.simps)

interpretation table_layout: packed_struct put_table_entry get_table_entry table_entry_size table_entry_ok
proof
  fix t rest assume ok: "table_entry_ok t"
  show "length (put_table_entry t) = table_entry_size"
    by (simp add: put_table_entry_def table_entry_size_def del: le.simps)
  show "get_table_entry (put_table_entry t @ rest) = t"
    using ok [unfolded table_entry_ok_def] i32_wrap
    by (cases t) (simp add: get_table_entry_def put_table_entry_def readers del: le.simps)
qed

interpretation directory_layout: packed_struct put_directory_entry get_directory_entry directory_entry_size directory_entry_ok
proof
  fix e rest assume ok: "directory_entry_ok e"
  show "length (put_directory_entry e) = directory_entry_size"
    by (simp add: put_directory_entry_def directory_entry_size_def del: le.simps)
  show "get_directory_entry (put_directory_entry e @ rest) = e"
    using ok [unfolded directory_entry_ok_def] i32_wrap i64_wrap
    by (cases e) (simp add: get_directory_entry_def put_directory_entry_def readers del: le.simps)
qed

lemma length_header_prefix: "length (h_magic h) = 8 \<Longrightarrow> length (header_prefix h) = 104"
  by (simp add: header_prefix_def del: le.simps)

interpretation header_layout: packed_struct put_header get_header header_size header_ok
proof
  fix h rest assume ok: "header_ok h"
  show "length (put_header h) = header_size"
    using ok length_header_prefix by (simp add: put_header_def header_size_def header_ok_def del: le.simps)
  note w = ok [unfolded header_ok_def]
  let ?a = "h_magic h @ le 4 (h_version h) @ le 4 (h_flags h) @ le 4 (h_date h) @ le 4 (h_instrument_count h) @ le 8 (h_total_rows h)"
  let ?b = "?a @ put_region (h_table h)" let ?c = "?b @ put_region (h_strings h)" let ?d = "?c @ put_region (h_timeline h)"
  have len: "length ?a = 32" "length ?b = 48" "length ?c = 64" "length ?d = 80" using w by (simp_all del: le.simps)
  have "region_at 32 (put_header h @ rest) = h_table h" "region_at 48 (put_header h @ rest) = h_strings h"
    "region_at 64 (put_header h @ rest) = h_timeline h" "region_at 80 (put_header h @ rest) = h_directory h"
    using region_get_put [OF _ len(1), of "h_table h"] region_get_put [OF _ len(2), of "h_strings h"]
      region_get_put [OF _ len(3), of "h_timeline h"] region_get_put [OF _ len(4), of "h_directory h"] w
    by (simp_all add: put_header_def header_prefix_def del: le.simps)
  then show "get_header (put_header h @ rest) = h"
    using w i32_wrap i64_wrap
    by (cases h) (simp add: get_header_def put_header_def header_prefix_def readers del: le.simps)
qed

section \<open>The columns of an instrument\<close>

lemma sint_word_of_int_id: "i64_ok x \<Longrightarrow> sint (word_of_int x :: u64) = x"
  by (simp add: signed_of_int signed_take_bit_int_eq_self)

definition column_data :: "quote_columns \<Rightarrow> u8 list" where
  "column_data c = concat (map (\<lambda>vs. column_bytes (map word_of_int vs)) (column_values c))"

lemma encode_columns_append: "encode_columns c blob = blob @ column_data c"
  by (simp add: encode_columns_def column_data_def column_values_def encode_into_def encode_column_def)

lemma next_columns_read:
  assumes "\<forall>vs \<in> set cols. length vs = n \<and> (\<forall>x \<in> set vs. i64_ok x)" and "n < 2 ^ 64"
  shows "next_columns (length cols) (int n) (concat (map (\<lambda>vs. column_bytes (map word_of_int vs)) cols) @ rest) = Inr (cols, rest)"
  using assms(1)
proof (induction cols)
  case (Cons vs cols)
  let ?ws = "map word_of_int vs :: u64 list"
  have len: "length ?ws < 2 ^ 64" using Cons.prems assms(2) by simp
  have "map sint ?ws = vs" using Cons.prems sint_word_of_int_id by (simp add: map_idI)
  then show ?case using column_round_trip [OF len] Cons by simp
qed simp

definition storable_columns :: "quote_columns \<Rightarrow> bool" where
  "storable_columns c \<longleftrightarrow> columns_ok c \<and> size_of c < 2 ^ 32 \<and> (\<forall>t \<in> set (c_ts c). i64_ok (nanos t)) \<and>
     (\<forall>p \<in> set (c_last c) \<union> set (c_bid c) \<union> set (c_ask c). i32_ok (minor p)) \<and>
     (\<forall>q \<in> set (c_bid_qty c) \<union> set (c_ask_qty c) \<union> set (c_last_qty c). i32_ok q) \<and>
     (\<forall>n \<in> set (c_open_interest c). i64_ok n)"

text \<open>The entry of a block of columns, wherever it is put.\<close>

definition describes :: "quote_columns \<Rightarrow> stored_entry \<Rightarrow> bool" where
  "describes c e \<longleftrightarrow> en_row_count e = int (size_of c) \<and> en_blob_bytes e = int (length (column_data c)) \<and>
     en_blob_crc e = checksum (column_data c) \<and> en_first e = hd (c_ts c) \<and> en_last e = last (c_ts c)"

lemma storable_column_values:
  assumes "storable_columns c"
  shows "\<forall>vs \<in> set (column_values c). length vs = size_of c \<and> (\<forall>x \<in> set vs. i64_ok x)"
proof -
  have prices: "\<forall>x \<in> set (map minor ps). i64_ok x" if "\<forall>p \<in> set ps. i32_ok (minor p)" for ps using that by fastforce
  have qtys: "\<forall>x \<in> set qs. i64_ok x" if "\<forall>q \<in> set qs. i32_ok q" for qs using that by fastforce
  note c = assms [unfolded storable_columns_def]
  have "\<forall>x \<in> set (map minor (c_last c)). i64_ok x" "\<forall>x \<in> set (map minor (c_bid c)). i64_ok x"
    "\<forall>x \<in> set (map minor (c_ask c)). i64_ok x" "\<forall>x \<in> set (c_bid_qty c). i64_ok x" "\<forall>x \<in> set (c_ask_qty c). i64_ok x"
    "\<forall>x \<in> set (c_last_qty c). i64_ok x"
    using c by (intro prices qtys; simp)+
  moreover have "\<forall>x \<in> set (map nanos (c_ts c)). i64_ok x" "\<forall>x \<in> set (c_open_interest c). i64_ok x" using c by simp_all
  moreover have "length (c_ts c) = size_of c" "length (c_last c) = size_of c" "length (c_bid c) = size_of c"
    "length (c_ask c) = size_of c" "length (c_bid_qty c) = size_of c" "length (c_ask_qty c) = size_of c"
    "length (c_last_qty c) = size_of c" "length (c_open_interest c) = size_of c"
    using c by (simp_all add: columns_ok_def size_of_def)
  ultimately show ?thesis by (simp only: column_values_def list.set ball_simps length_map)
qed

lemma length_column_values: "length (column_values c) = 8"
  by (simp add: column_values_def)

lemma decode_entry_data:
  assumes "storable_columns c" and "describes c e"
  shows "decode_entry e (column_data c) = Inr c"
proof -
  have size: "size_of c < 2 ^ 64" using assms(1) by (simp add: storable_columns_def)
  have cols: "next_columns 8 (int (size_of c)) (column_data c) = Inr (column_values c, [])"
    using next_columns_read [OF storable_column_values [OF assms(1)] size, of "[]"]
    by (simp only: column_data_def length_column_values append_Nil2)
  have prices: "map (\<lambda>x. Price (to_i32 x)) (map minor ps) = ps" if "\<forall>p \<in> set ps. i32_ok (minor p)" for ps
    using that by (simp add: to_i32_id map_idI)
  have qtys: "map to_i32 qs = qs" if "\<forall>q \<in> set qs. i32_ok q" for qs
    using that by (simp add: to_i32_id map_idI)
  have ts: "map Timestamp (map nanos ts) = ts" for ts by (simp add: map_idI)
  have "map (\<lambda>x. Price (to_i32 x)) (map minor (c_last c)) = c_last c" "map (\<lambda>x. Price (to_i32 x)) (map minor (c_bid c)) = c_bid c"
    "map (\<lambda>x. Price (to_i32 x)) (map minor (c_ask c)) = c_ask c" "map to_i32 (c_bid_qty c) = c_bid_qty c"
    "map to_i32 (c_ask_qty c) = c_ask_qty c" "map to_i32 (c_last_qty c) = c_last_qty c"
    using assms(1) by (intro prices qtys; simp add: storable_columns_def)+
  note columns = this ts
  show ?thesis
    using assms(2) cols unfolding describes_def decode_entry_def Let_def
    by (simp add: column_values_def columns del: map_map)
qed

end
