(* ===== verification/VfdayWriter.thy ===== *)
theory VfdayWriter
  imports VfdayFormat
begin

text \<open>
  What the writer of the day store collects while it goes through the instruments, and the file it
  lays out from that.
\<close>

section \<open>What the writer collects\<close>

definition slice :: "nat \<Rightarrow> nat \<Rightarrow> 'a list \<Rightarrow> 'a list" where
  "slice off n xs = take n (drop off xs)"

lemma slice_append [simp]: "off + n \<le> length xs \<Longrightarrow> slice off n (xs @ ys) = slice off n xs"
  by (simp add: slice_def)

lemma slice_here [simp]: "slice (length xs) (length ys) (xs @ ys @ zs) = ys" "slice (length xs) (length ys) (xs @ ys) = ys"
  by (simp_all add: slice_def)

lemma length_slice: "off + n \<le> length xs \<Longrightarrow> length (slice off n xs) = n"
  by (simp add: slice_def)

lemma length_name_bytes [simp]: "length (name_bytes name) = length name"
  by (simp add: name_bytes_def)

lemma name_round_trip [simp]: "name_of_bytes (name_bytes name) = name"
proof -
  have "char_of (unat (word_of_nat (of_char c) :: u8)) = c" for c
    using char_of_take_bit_eq [of 8 "of_char c :: nat"] by (simp add: unsigned_of_nat)
  then show ?thesis by (simp add: name_of_bytes_def name_bytes_def comp_def)
qed

definition named_at :: "u8 list \<Rightarrow> string \<Rightarrow> int \<Rightarrow> bool" where
  "named_at strings name off \<longleftrightarrow> 0 \<le> off \<and> off + int (length name) \<le> int (length strings) \<and>
     slice (nat off) (length name) strings = name_bytes name"

lemma named_at_append: "named_at strings name off \<Longrightarrow> named_at (strings @ tail) name off"
  by (auto simp: named_at_def nat_le_iff le_diff_iff')

text \<open>The source's description of an instrument, and an entry of the table that spells it.\<close>

definition listed_as :: "session_data \<Rightarrow> instrument_id \<Rightarrow> instrument_spec \<Rightarrow> string \<Rightarrow> bool" where
  "listed_as sd i sp name \<longleftrightarrow> spec (sd_registry sd) i = Inr sp \<and> underlying_name (sd_registry sd) (underlying sp) = Inr name"

definition spells :: "table_entry \<Rightarrow> instrument_spec \<Rightarrow> string \<Rightarrow> bool" where
  "spells t sp name \<longleftrightarrow> te_name_length t = int (length name) \<and> te_kind t = kind_code (kind sp) \<and>
     te_right t = right_code (right_of sp) \<and> te_reserved t = 0 \<and> te_expiry t = yyyymmdd (expiry sp) \<and>
     te_strike t = minor (strike sp) \<and> te_lot_size t = lot_size sp \<and> te_tick t = minor (tick_size sp)"

definition recorded :: "session_data \<Rightarrow> u8 list \<Rightarrow> instrument_id \<Rightarrow> table_entry \<Rightarrow> bool" where
  "recorded sd strings i t \<longleftrightarrow> (\<exists>sp name. listed_as sd i sp name \<and> spells t sp name \<and> named_at strings name (te_name_offset t))"

lemma recorded_append: "recorded sd strings i t \<Longrightarrow> recorded sd (strings @ tail) i t"
  using named_at_append unfolding recorded_def by blast

definition filed :: "u8 list \<Rightarrow> quote_columns \<Rightarrow> directory_entry \<Rightarrow> bool" where
  "filed blob c e \<longleftrightarrow> describes c (entry_of e) \<and> int header_size \<le> dx_blob_offset e \<and>
     dx_blob_offset e + int (length (column_data c)) \<le> int (header_size + length blob) \<and>
     slice (nat (dx_blob_offset e) - header_size) (length (column_data c)) blob = column_data c"

lemma filed_append:
  assumes "filed blob c e"
  shows "filed (blob @ tail) c e"
proof -
  have "nat (dx_blob_offset e) - header_size + length (column_data c) \<le> length blob"
    using assms unfolding filed_def by linarith
  then show ?thesis using assms by (simp add: filed_def)
qed

definition covers :: "directory_entry \<Rightarrow> nat \<Rightarrow> bool" where
  "covers e p \<longleftrightarrow> dx_blob_offset e \<le> int (header_size + p) \<and> int (header_size + p) < dx_blob_offset e + dx_blob_bytes e"

definition writer_ok :: "session_data \<Rightarrow> instrument_id list \<Rightarrow> writer \<Rightarrow> bool" where
  "writer_ok sd ids w \<longleftrightarrow> length (wr_table w) = length ids \<and> length (wr_directory w) = length ids \<and>
     (\<forall>n < length ids. recorded sd (wr_strings w) (ids ! n) (wr_table w ! n)) \<and>
     (\<forall>n < length ids. filed (wr_blob w) (sd_quotes sd (ids ! n)) (wr_directory w ! n) \<and>
        dx_table_index (wr_directory w ! n) = int n) \<and>
     (\<forall>name off. wr_interned w name = Some off \<longrightarrow> named_at (wr_strings w) name off) \<and>
     (\<forall>p < length (wr_blob w). \<exists>n < length ids. covers (wr_directory w ! n) p)"

definition fits :: "writer \<Rightarrow> bool" where
  "fits w \<longleftrightarrow> length (wr_blob w) < 2 ^ 32 \<and> length (wr_strings w) < 2 ^ 32 \<and> length (wr_table w) < 2 ^ 31"

lemma new_writer_ok: "writer_ok sd [] new_writer"
  by (simp add: writer_ok_def new_writer_def)

lemma intern_name_laws:
  assumes "intern_name name w = (off, w1)" and "\<forall>name off. wr_interned w name = Some off \<longrightarrow> named_at (wr_strings w) name off"
    and "length (wr_strings w1) < 2 ^ 32"
  shows "named_at (wr_strings w1) name off \<and> (\<exists>tail. wr_strings w1 = wr_strings w @ tail) \<and>
    (\<forall>name off. wr_interned w1 name = Some off \<longrightarrow> named_at (wr_strings w1) name off) \<and>
    wr_blob w1 = wr_blob w \<and> wr_table w1 = wr_table w \<and> wr_directory w1 = wr_directory w"
proof (cases "wr_interned w name")
  case None
  let ?off = "int (length (wr_strings w))"
  have w1: "w1 = w\<lparr>wr_strings := wr_strings w @ name_bytes name, wr_interned := (wr_interned w)(name \<mapsto> off)\<rparr>"
    "off = to_u32 ?off" using assms(1) None by (auto simp: intern_name_def Let_def)
  moreover have "length (wr_strings w) < 2 ^ 32" using assms(3) w1(1) by simp
  ultimately have off: "off = ?off" by (simp add: to_u32_id)
  have "named_at (wr_strings w @ name_bytes name) name off"
    using slice_here(2) [of "wr_strings w" "name_bytes name"] by (simp add: named_at_def off)
  then show ?thesis using assms(2) named_at_append by (simp add: w1(1))
next
  case (Some off')
  then show ?thesis using assms(1,2) by (auto simp: intern_name_def)
qed

lemma writer_ok_snoc:
  assumes "writer_ok sd ids w" and l: "listed_as sd i sp name" and "size_of (sd_quotes sd i) < 2 ^ 32"
    and w': "w' = write_columns sp name (sd_quotes sd i) w" and "fits w'"
  shows "writer_ok sd (ids @ [i]) w'"
proof -
  let ?c = "sd_quotes sd i" let ?data = "column_data ?c"
  obtain off w1 where i: "intern_name name w = (off, w1)" by (cases "intern_name name w")
  note ok = assms(1) [unfolded writer_ok_def]
  have strings: "wr_strings w' = wr_strings w1" and blob: "wr_blob w' = wr_blob w1 @ ?data"
    by (simp_all add: w' write_columns_def i Let_def encode_columns_append)
  note small = assms(5) [unfolded fits_def]
  have "length (wr_strings w1) < 2 ^ 32" using small strings by simp
  note n = intern_name_laws [OF i _ this] ok
  obtain tail where tail: "wr_strings w1 = wr_strings w @ tail" using n by blast
  have blob1: "wr_blob w1 = wr_blob w" "wr_table w1 = wr_table w" "wr_directory w1 = wr_directory w" using n by simp_all
  have len: "length ?data < 2 ^ 32" using small blob by simp
  obtain t e where t: "wr_table w' = wr_table w @ [t]" "wr_directory w' = wr_directory w @ [e]"
    and te: "spells t sp name" "te_name_offset t = off"
    and e: "describes ?c (entry_of e)" "dx_blob_offset e = int (header_size + length (wr_blob w))"
      "dx_table_index e = int (length (wr_table w))"
  proof -
    have "length name < 2 ^ 32"
      using small strings n by (simp add: named_at_def)
    then have name: "to_u32 (int (length name)) = int (length name)" by (simp add: to_u32_id)
    have idx: "to_i32 (int (length (wr_table w))) = int (length (wr_table w))"
      using small by (intro to_i32_id) (simp add: w' write_columns_def i Let_def blob1)
    have bytes: "to_u32 (int (header_size + length (wr_blob w @ ?data)) - int (header_size + length (wr_blob w))) = int (length ?data)"
      using len by (simp add: to_u32_id)
    have rows: "to_u32 (int (size_of ?c)) = int (size_of ?c)" using assms(3) by (simp add: to_u32_id)
    define t where "t = \<lparr>te_name_offset = off, te_name_length = int (length name), te_kind = kind_code (kind sp),
      te_right = right_code (right_of sp), te_reserved = 0, te_expiry = yyyymmdd (expiry sp),
      te_strike = minor (strike sp), te_lot_size = lot_size sp, te_tick = minor (tick_size sp)\<rparr>"
    define e where "e = \<lparr>dx_table_index = int (length (wr_table w)), dx_row_count = int (size_of ?c),
      dx_blob_offset = int (header_size + length (wr_blob w)), dx_blob_bytes = int (length ?data),
      dx_blob_crc = checksum ?data, dx_first_ts = nanos (hd (c_ts ?c)), dx_last_ts = nanos (last (c_ts ?c))\<rparr>"
    have "wr_table w' = wr_table w @ [t]" "wr_directory w' = wr_directory w @ [e]"
      using bytes by (simp_all add: w' write_columns_def i Let_def encode_columns_append blob1 idx name rows t_def e_def)
    then show ?thesis by (rule that) (simp_all add: t_def e_def spells_def describes_def entry_of_def)
  qed
  have here: "filed (wr_blob w') ?c e" "dx_blob_bytes e = int (length ?data)"
    using e(1,2) slice_here(2) [of "wr_blob w" ?data] by (simp_all add: filed_def blob blob1 describes_def entry_of_def nat_int_add)
  have "recorded sd (wr_strings w') ((ids @ [i]) ! k) (wr_table w' ! k)" if "k < length (ids @ [i])" for k
  proof (cases "k = length ids")
    case True
    then show ?thesis using l te n ok by (auto simp: recorded_def t strings nth_append)
  next
    case False
    then have "recorded sd (wr_strings w) (ids ! k) (wr_table w ! k)" "k < length ids" using ok that by simp_all
    then show ?thesis using ok recorded_append by (simp add: t strings tail nth_append)
  qed
  moreover have "filed (wr_blob w') (sd_quotes sd ((ids @ [i]) ! k)) (wr_directory w' ! k) \<and> dx_table_index (wr_directory w' ! k) = int k"
    if "k < length (ids @ [i])" for k
  proof (cases "k = length ids")
    case True
    then show ?thesis using here e(3) ok by (simp add: t nth_append)
  next
    case False
    then have "k < length ids" using that by simp
    then show ?thesis using ok filed_append by (simp add: t nth_append blob blob1)
  qed
  moreover have "\<exists>k < length (ids @ [i]). covers (wr_directory w' ! k) p" if "p < length (wr_blob w')" for p
  proof (cases "p < length (wr_blob w)")
    case True
    then obtain k where k: "k < length ids" "covers (wr_directory w ! k) p" using ok by blast
    then have "wr_directory w' ! k = wr_directory w ! k" using ok by (simp add: t nth_append)
    with k show ?thesis by (intro exI [of _ k]) simp
  next
    case False
    then have "covers e p" using that e(2) here(2) by (simp add: covers_def blob blob1)
    then show ?thesis using ok by (intro exI [of _ "length ids"]) (simp add: t nth_append)
  qed
  moreover have "wr_interned w' = wr_interned w1" by (simp add: w' write_columns_def i Let_def)
  ultimately show ?thesis using ok n by (simp add: writer_ok_def t strings)
qed

section \<open>The loop over the instruments\<close>

lemma write_instrument_cases:
  assumes "write_instrument sd i w = Inr w'"
  obtains (skipped) "size_of (sd_quotes sd i) = 0" "w' = w"
  | (stored) sp name where "size_of (sd_quotes sd i) \<noteq> 0" "listed_as sd i sp name" "w' = write_columns sp name (sd_quotes sd i) w"
  using assms by (auto simp: write_instrument_def listed_as_def Let_def split: if_splits sum.splits)

definition name_length :: "session_data \<Rightarrow> instrument_id \<Rightarrow> nat" where
  "name_length sd i =
     (case spec (sd_registry sd) i of Inl _ \<Rightarrow> 0
      | Inr sp \<Rightarrow> (case underlying_name (sd_registry sd) (underlying sp) of Inl _ \<Rightarrow> 0 | Inr name \<Rightarrow> length name))"

text \<open>What an instrument adds to the file, at most, and the size of the whole.\<close>

definition instrument_size :: "session_data \<Rightarrow> instrument_id \<Rightarrow> nat" where
  "instrument_size sd i = table_entry_size + directory_entry_size + name_length sd i + length (column_data (sd_quotes sd i))"

definition store_size :: "session_data \<Rightarrow> nat" where
  "store_size sd = header_size + sum_list (map (instrument_size sd) (sd_instruments sd)) + 8 * length (stored_timeline sd)"

definition weight :: "writer \<Rightarrow> nat" where
  "weight w = length (wr_blob w) + length (wr_strings w) + (table_entry_size + directory_entry_size) * length (wr_table w)"

lemma write_columns_weight:
  assumes "w' = write_columns sp name c w"
  shows "weight w \<le> weight w' \<and> weight w' \<le> weight w + table_entry_size + directory_entry_size + length name + length (column_data c)"
proof -
  obtain off w1 where i: "intern_name name w = (off, w1)" by (cases "intern_name name w")
  have "wr_blob w1 = wr_blob w" "wr_table w1 = wr_table w" "length (wr_strings w) \<le> length (wr_strings w1)"
    "length (wr_strings w1) \<le> length (wr_strings w) + length name"
    using i by (auto simp: intern_name_def Let_def split: option.splits)
  then show ?thesis by (simp add: assms write_columns_def i Let_def weight_def encode_columns_append)
qed

lemma weight_fits: "weight w < 2 ^ 31 \<Longrightarrow> fits w"
proof -
  assume w: "weight w < 2 ^ 31"
  have "length (wr_table w) \<le> (table_entry_size + directory_entry_size) * length (wr_table w)"
    by (simp add: table_entry_size_def)
  moreover have "(2 :: nat) ^ 31 < 2 ^ 32" by simp
  ultimately show "fits w" using w unfolding weight_def fits_def by (intro conjI; linarith)
qed

lemma writer_loop:
  assumes "\<forall>i. size_of (sd_quotes sd i) < 2 ^ 32"
    and "try_fold (write_instrument sd) ids new_writer = Inr w" and "weight w < 2 ^ 31"
  shows "writer_ok sd (filter (\<lambda>i. size_of (sd_quotes sd i) \<noteq> 0) ids) w"
  using assms(2,3)
proof (induction ids arbitrary: w rule: rev_induct)
  case Nil
  then show ?case by (simp add: new_writer_ok)
next
  case (snoc i ids)
  obtain w0 where w0: "try_fold (write_instrument sd) ids new_writer = Inr w0" "write_instrument sd i w0 = Inr w"
    using snoc.prems(1) by (auto simp: try_fold_append split: sum.splits)
  from w0(2) show ?case
  proof (cases rule: write_instrument_cases)
    case skipped
    then show ?thesis using snoc.IH [OF w0(1)] snoc.prems(2) by simp
  next
    case (stored sp name)
    have "weight w0 < 2 ^ 31" using write_columns_weight [OF stored(3)] snoc.prems(2) by simp
    note ok = snoc.IH [OF w0(1) this]
    show ?thesis
      using writer_ok_snoc [OF ok stored(2) _ stored(3) weight_fits [OF snoc.prems(2)]] assms(1) stored(1) by simp
  qed
qed

lemma loop_weight:
  assumes "try_fold (write_instrument sd) ids new_writer = Inr w"
  shows "weight w \<le> sum_list (map (instrument_size sd) ids)"
  using assms
proof (induction ids arbitrary: w rule: rev_induct)
  case Nil
  then show ?case by (auto simp: weight_def new_writer_def)
next
  case (snoc i ids)
  obtain w0 where w0: "try_fold (write_instrument sd) ids new_writer = Inr w0" "write_instrument sd i w0 = Inr w"
    using snoc.prems(1) by (auto simp: try_fold_append split: sum.splits)
  note ih = snoc.IH [OF w0(1)]
  from w0(2) show ?case
  proof (cases rule: write_instrument_cases)
    case skipped
    then show ?thesis using ih by simp
  next
    case (stored sp name)
    have "name_length sd i = length name" using stored(2) by (simp add: name_length_def listed_as_def)
    then show ?thesis using write_columns_weight [OF stored(3)] ih by (simp add: instrument_size_def)
  qed
qed

text \<open>The loop throws only where the registry does not know an instrument.\<close>

lemma writer_loop_total:
  assumes "\<forall>i \<in> set ids. size_of (sd_quotes sd i) \<noteq> 0 \<longrightarrow> (\<exists>sp name. listed_as sd i sp name)"
  shows "\<exists>w'. try_fold (write_instrument sd) ids w = Inr w'"
  using assms
proof (induction ids arbitrary: w)
  case (Cons i ids)
  have "\<exists>w1. write_instrument sd i w = Inr w1"
    using Cons.prems by (auto simp: write_instrument_def listed_as_def Let_def)
  then show ?case using Cons by auto
qed simp

end
