(* ===== verification/VfdayFile.thy ===== *)
theory VfdayFile
  imports VfdayWriter
begin

text \<open>
  The file the writer lays out, and what \<open>open\<close> finds in it: the header, the regions, the tables and
  the timeline.
\<close>

section \<open>Sessions that can be stored\<close>

definition spec_in_range :: "instrument_spec \<Rightarrow> bool" where
  "spec_in_range sp \<longleftrightarrow> i32_ok (yyyymmdd (expiry sp)) \<and> i32_ok (minor (strike sp)) \<and> i32_ok (lot_size sp) \<and>
     i32_ok (minor (tick_size sp))"

text \<open>
  A well-formed session whose instruments its registry knows, whose numbers have the widths the code
  gives them and whose file stays below 2 GiB.
\<close>

definition storable :: "session_data \<Rightarrow> bool" where
  "storable sd \<longleftrightarrow> session_ok sd \<and> registry_ok (sd_registry sd) \<and> i32_ok (yyyymmdd (sd_date sd)) \<and>
     (\<forall>i. storable_columns (sd_quotes sd i)) \<and>
     (\<forall>i \<in> set (sd_instruments sd). \<exists>sp name. listed_as sd i sp name \<and> spec_in_range sp) \<and>
     sd_total_observations sd < 2 ^ 63 \<and> store_size sd < 2 ^ 31"

lemma storableD:
  assumes "storable sd"
  shows "session_ok sd" and "registry_ok (sd_registry sd)" and "i32_ok (yyyymmdd (sd_date sd))"
    and "storable_columns (sd_quotes sd i)"
    and "i \<in> set (sd_instruments sd) \<Longrightarrow> \<exists>sp name. listed_as sd i sp name \<and> spec_in_range sp"
    and "sd_total_observations sd < 2 ^ 63" and "store_size sd < 2 ^ 31"
  using assms by (simp_all add: storable_def)

section \<open>The timeline\<close>

lemma fold_derive_step: "fold derive_step es (map nanos acc) = map nanos (fold timeline_step es acc)"
proof (induction es arbitrary: acc)
  case (Cons e es)
  have "derive_step e (map nanos acc) = map nanos (timeline_step e acc)"
    by (auto simp: derive_step_def timeline_step_def last_map timestamp.expand)
  then show ?case using Cons by simp
qed simp

lemma stored_timeline_distinct:
  assumes "session_ok sd"
  shows "stored_timeline sd = map nanos (distinct_times sd)"
proof (cases "sd_timeline sd = []")
  case True
  have "fold derive_step (drain (event_cursor sd)) [] = map nanos (remdups_adj (map e_ts (sort (all_events sd))))"
    using fold_derive_step [of "drain (event_cursor sd)" "[]"] drain_sorted_events [OF assms]
    by (simp add: fold_timeline_step)
  then show ?thesis by (simp add: stored_timeline_def True distinct_times_def)
next
  case False
  then show ?thesis using session_okD(6) [OF assms] by (simp add: stored_timeline_def)
qed

lemma read_timeline_le:
  assumes "\<forall>x \<in> set xs. i64_ok x" and "sorted_wrt (<) (case previous of None \<Rightarrow> xs | Some p \<Rightarrow> p # xs)"
  shows "read_timeline previous (length xs) (concat (map (le 8) xs)) = Inr (map Timestamp xs)"
  using assms
proof (induction xs arbitrary: previous)
  case (Cons x xs)
  have v: "i64_at 0 (concat (map (le 8) (x # xs))) = x"
    using i64_wrap [of x] Cons.prems(1) by (simp add: i64_at_def del: le.simps)
  have "read_timeline (Some x) (length xs) (concat (map (le 8) xs)) = Inr (map Timestamp xs)"
    using Cons.prems by (intro Cons.IH) (auto split: option.splits)
  moreover have "\<not> (case previous of None \<Rightarrow> False | Some p \<Rightarrow> x \<le> p)"
    using Cons.prems(2) by (auto split: option.splits)
  ultimately show ?case
    using v by (simp add: Let_def del: le.simps)
qed simp

section \<open>The tables\<close>

lemma checksum_u32: "u32_ok (checksum bs)"
  using uint_bounded [of "crc32 bs 0"] by (simp add: checksum_def)

definition stored_ids :: "session_data \<Rightarrow> instrument_id list" where
  "stored_ids sd = filter (\<lambda>i. size_of (sd_quotes sd i) \<noteq> 0) (sd_instruments sd)"

lemma storable_written:
  assumes "storable sd" and "try_fold (write_instrument sd) (sd_instruments sd) new_writer = Inr w"
  shows "writer_ok sd (stored_ids sd) w" and "weight w + header_size + 8 * length (stored_timeline sd) < 2 ^ 31" and "fits w"
proof -
  show small: "weight w + header_size + 8 * length (stored_timeline sd) < 2 ^ 31"
    using loop_weight [OF assms(2)] storableD(7) [OF assms(1)] by (simp add: store_size_def)
  then have w: "weight w < 2 ^ 31" by linarith
  then show "fits w" by (rule weight_fits)
  show "writer_ok sd (stored_ids sd) w"
    using writer_loop [OF _ assms(2) w] session_okD(2) [OF storableD(1) [OF assms(1)]] by (simp add: stored_ids_def)
qed

lemma tables_valid:
  assumes "storable sd" and "writer_ok sd (stored_ids sd) w" and "fits w"
  shows "list_all table_entry_ok (wr_table w)" and "list_all directory_entry_ok (wr_directory w)"
proof -
  note ok = assms(2) [unfolded writer_ok_def] and small = assms(3) [unfolded fits_def]
  have "table_entry_ok (wr_table w ! n)" if n: "n < length (wr_table w)" for n
  proof -
    have k: "n < length (stored_ids sd)" using n ok by simp
    then obtain sp name where r: "listed_as sd (stored_ids sd ! n) sp name" "spells (wr_table w ! n) sp name"
      "named_at (wr_strings w) name (te_name_offset (wr_table w ! n))" using ok unfolding recorded_def by blast
    have "stored_ids sd ! n \<in> set (sd_instruments sd)" using nth_mem [OF k] by (simp add: stored_ids_def)
    from storableD(5) [OF assms(1) this] r(1) have "spec_in_range sp" by (auto simp: listed_as_def)
    moreover have "kind_code (kind sp) \<in> {0, 1, 2}" "right_code (right_of sp) \<in> {0, 1}"
      by (cases "kind sp"; simp) (cases "right_of sp"; simp)
    ultimately show ?thesis
      using r(2,3) small by (auto simp: table_entry_ok_def spells_def named_at_def spec_in_range_def)
  qed
  then show "list_all table_entry_ok (wr_table w)" by (simp add: list_all_length)
  have "directory_entry_ok (wr_directory w ! n)" if n: "n < length (wr_directory w)" for n
  proof -
    let ?c = "sd_quotes sd (stored_ids sd ! n)"
    have k: "n < length (stored_ids sd)" using n ok by simp
    then have f: "filed (wr_blob w) ?c (wr_directory w ! n)" "dx_table_index (wr_directory w ! n) = int n" using ok by blast+
    have "size_of ?c \<noteq> 0" using nth_mem [OF k] by (simp add: stored_ids_def)
    then have "hd (c_ts ?c) \<in> set (c_ts ?c)" "last (c_ts ?c) \<in> set (c_ts ?c)" by (auto simp: size_of_def)
    moreover have "storable_columns ?c" using storableD(4) [OF assms(1)] .
    ultimately have ts: "i64_ok (nanos (hd (c_ts ?c)))" "i64_ok (nanos (last (c_ts ?c)))" "size_of ?c < 2 ^ 32"
      unfolding storable_columns_def by blast+
    have n31: "n < 2 ^ 31" using k ok small by simp
    note d = f(1) [unfolded filed_def describes_def entry_of_def, simplified]
    have first: "dx_first_ts (wr_directory w ! n) = nanos (hd (c_ts ?c))" "dx_last_ts (wr_directory w ! n) = nanos (last (c_ts ?c))"
      using d by (metis timestamp.sel)+
    have bytes: "dx_blob_bytes (wr_directory w ! n) = int (length (column_data ?c))" using d by simp
    have off: "dx_blob_offset (wr_directory w ! n) + int (length (column_data ?c)) \<le> int header_size + int (length (wr_blob w))"
      "int header_size \<le> dx_blob_offset (wr_directory w ! n)" using d by simp_all
    have "int (length (wr_blob w)) < 2 ^ 32" using small by simp
    then have "i64_ok (dx_blob_offset (wr_directory w ! n))" "u32_ok (dx_blob_bytes (wr_directory w ! n))"
      using off bytes by (simp_all add: header_size_def)
    then show ?thesis
      using f(2) n31 ts d checksum_u32 [of "column_data ?c"] by (simp add: directory_entry_ok_def first)
  qed
  then show "list_all directory_entry_ok (wr_directory w)" by (simp add: list_all_length)
qed

section \<open>The file\<close>

text \<open>The parts after the header, in file order.\<close>

definition table_part :: "writer \<Rightarrow> u8 list" where
  "table_part w = concat (map put_table_entry (wr_table w))"

definition times_part :: "int list \<Rightarrow> u8 list" where
  "times_part tms = concat (map (le 8) tms)"

definition directory_part :: "writer \<Rightarrow> u8 list" where
  "directory_part w = concat (map put_directory_entry (wr_directory w))"

definition parts :: "writer \<Rightarrow> int list \<Rightarrow> u8 list" where
  "parts w tms = wr_blob w @ table_part w @ wr_strings w @ times_part tms @ directory_part w"

text \<open>The region of a part that starts after some bytes.\<close>

definition region_for :: "nat \<Rightarrow> nat \<Rightarrow> u8 list \<Rightarrow> region" where
  "region_for off n part = Region (int off) (int n) (checksum part)"

definition laid_out :: "session_data \<Rightarrow> writer \<Rightarrow> int list \<Rightarrow> file_header \<Rightarrow> bool" where
  "laid_out sd w tms h \<longleftrightarrow>
     (let o1 = header_size + length (wr_blob w); o2 = o1 + length (table_part w); o3 = o2 + length (wr_strings w);
          o4 = o3 + length (times_part tms)
      in h_magic h = kMagic \<and> h_version h = kVfdayVersion \<and> h_date h = yyyymmdd (sd_date sd) \<and>
         h_instrument_count h = int (length (wr_directory w)) \<and> h_total_rows h = int (sd_total_observations sd) \<and>
         h_table h = region_for o1 (length (table_part w)) (table_part w) \<and>
         h_strings h = region_for o2 (length (wr_strings w)) (wr_strings w) \<and>
         h_timeline h = region_for o3 (length tms) (times_part tms) \<and>
         h_directory h = region_for o4 (length (directory_part w)) (directory_part w) \<and>
         h_file_bytes h = int (o4 + length (directory_part w)) \<and> h_header_crc h = checksum (header_prefix h))"

lemma header_prefix_crc [simp]: "header_prefix (h\<lparr>h_header_crc := c\<rparr>) = header_prefix h"
  by (simp add: header_prefix_def)

lemma length_times_part [simp]: "length (times_part tms) = 8 * length tms"
  by (induction tms) (simp_all add: times_part_def del: le.simps)

text \<open>What all the lengths come to, when the tables are valid.\<close>

lemma part_lengths:
  assumes "list_all table_entry_ok (wr_table w)" and "list_all directory_entry_ok (wr_directory w)"
  shows "length (table_part w) = length (wr_table w) * table_entry_size"
    and "length (directory_part w) = length (wr_directory w) * directory_entry_size"
  using table_layout.length_array [OF assms(1)] directory_layout.length_array [OF assms(2)]
  by (simp_all add: table_part_def directory_part_def)

lemma file_layout_parts:
  assumes "storable sd" and "writer_ok sd (stored_ids sd) w"
    and small: "weight w + header_size + 8 * length tms < 2 ^ 31" and "file_layout sd w tms = (h, bytes)"
  shows "bytes = put_header h @ parts w tms" and "laid_out sd w tms h" and "header_ok h"
    and "header_size + length (parts w tms) < 2 ^ 31"
proof -
  have "weight w < 2 ^ 31" using small by simp
  note fit = weight_fits [OF this]
  note valid = tables_valid [OF assms(1,2) fit]
  note len = part_lengths [OF valid]
  have same: "length (wr_table w) = length (wr_directory w)" using assms(2) by (simp add: writer_ok_def)
  show total: "header_size + length (parts w tms) < 2 ^ 31"
    using small len same by (simp add: parts_def weight_def algebra_simps)
  have d: "length (wr_directory w) < 2 ^ 31" using fit same by (simp add: fits_def)
  have u: "to_u32 (int (length (table_part w))) = int (length (table_part w))"
    "to_u32 (int (length (wr_strings w))) = int (length (wr_strings w))"
    "to_u32 (int (length (directory_part w))) = int (length (directory_part w))"
    "to_u32 (int (length tms)) = int (length tms)"
    "to_i32 (int (length (wr_directory w))) = int (length (wr_directory w))"
    "to_i64 (int (sd_total_observations sd)) = int (sd_total_observations sd)"
    using total d storableD(6) [OF assms(1)] by (simp_all add: parts_def to_u32_id to_i32_id to_i64_id)
  have h: "bytes = put_header h @ parts w tms \<and> laid_out sd w tms h \<and> h_flags h = 0 \<and> h_reserved h = 0"
    using assms(4) u
    by (auto simp: file_layout_def Let_def table_part_def [symmetric] times_part_def [symmetric] directory_part_def [symmetric]
        parts_def laid_out_def region_for_def header_prefix_def)
  then show "bytes = put_header h @ parts w tms" "laid_out sd w tms h" by simp_all
  show "header_ok h"
    using h total d storableD(3,6) [OF assms(1)] checksum_u32
    by (auto simp: laid_out_def Let_def header_ok_def region_ok_def region_for_def kMagic_def kVfdayVersion_def parts_def)
qed

section \<open>What \<open>open\<close> finds\<close>

lemma header_accepted:
  assumes "header_ok h" and "laid_out sd w tms h" and "bytes = put_header h @ parts w tms"
  shows "header_problem bytes = None" and "get_header bytes = h"
proof -
  show get: "get_header bytes = h" using header_layout.get_put [OF assms(1)] by (simp add: assms(3))
  have len: "length (put_header h) = header_size" by (rule header_layout.length_put [OF assms(1)])
  have "length (header_prefix h) = 104" using assms(1) by (intro length_header_prefix) (simp add: header_ok_def)
  then have prefix: "take 104 bytes = header_prefix h" by (simp add: assms(3) put_header_def)
  have "length bytes = header_size + length (parts w tms)" by (simp add: assms(3) len)
  then show "header_problem bytes = None"
    using assms(2) unfolding header_problem_def get prefix Let_def laid_out_def
    by (simp add: parts_def)
qed

lemma read_checked_part:
  assumes "length pre = off" and "length part = k"
  shows "read_checked what bad (region_for off n part) k (pre @ part @ post) = Inr part"
  using assms by (simp add: read_checked_def read_exact_def region_for_def)

lemma regions_read:
  assumes "header_ok h" and "laid_out sd w tms h" and "bytes = put_header h @ parts w tms"
    and "list_all table_entry_ok (wr_table w)" and "list_all directory_entry_ok (wr_directory w)"
  shows "read_regions h bytes = Inr \<lparr>rw_table = table_part w, rw_strings = wr_strings w, rw_directory = directory_part w,
    rw_timeline = times_part tms\<rparr>"
proof -
  note len = part_lengths [OF assms(4,5)]
  have hl: "length (put_header h) = header_size" by (rule header_layout.length_put [OF assms(1)])
  let ?a = "put_header h @ wr_blob w" let ?b = "?a @ table_part w" let ?c = "?b @ wr_strings w" let ?d = "?c @ times_part tms"
  have bytes: "bytes = ?a @ table_part w @ (wr_strings w @ times_part tms @ directory_part w)"
    "bytes = ?b @ wr_strings w @ (times_part tms @ directory_part w)" "bytes = ?c @ times_part tms @ directory_part w"
    "bytes = ?d @ directory_part w @ []"
    by (simp_all add: assms(3) parts_def)
  note h = assms(2) [unfolded laid_out_def Let_def]
  have "read_checked ''table'' TableChecksum (h_table h) (length (table_part w)) bytes = Inr (table_part w)"
    "read_checked ''strings'' StringsChecksum (h_strings h) (length (wr_strings w)) bytes = Inr (wr_strings w)"
    using h read_checked_part [of ?a] read_checked_part [of ?b] by (simp_all add: bytes(1) hl)
  moreover have "read_checked ''timeline'' TimelineChecksum (h_timeline h) (length tms * 8) bytes = Inr (times_part tms)"
    using h read_checked_part [of ?c] unfolding bytes(3) by (simp add: hl)
  moreover have "read_checked ''directory'' DirectoryChecksum (h_directory h) (length (directory_part w)) bytes = Inr (directory_part w)"
    using h read_checked_part [where pre = ?d and post = "[]"] unfolding bytes(4) by (simp add: hl)
  moreover have "nat (rg_size (h_table h)) = length (table_part w)" "nat (rg_size (h_strings h)) = length (wr_strings w)"
    "nat (rg_size (h_directory h)) = length (directory_part w)" "nat (rg_size (h_timeline h)) = length tms"
    using h by (simp_all add: region_for_def)
  ultimately show ?thesis by (simp add: read_regions_def len)
qed

lemma directory_read:
  assumes "list_all directory_entry_ok (wr_directory w)"
  shows "directory_of \<lparr>rw_table = t, rw_strings = s, rw_directory = directory_part w, rw_timeline = m\<rparr> = wr_directory w"
proof -
  have "length (directory_part w) div directory_entry_size = length (wr_directory w)"
    using directory_layout.length_array [OF assms] by (simp add: directory_part_def directory_entry_size_def)
  moreover have "map (directory_at (directory_part w)) [0..<length (wr_directory w)] = map ((!) (wr_directory w)) [0..<length (wr_directory w)]"
    using directory_layout.array_at [OF assms] by (intro map_cong) (simp_all add: directory_at_def directory_part_def)
  ultimately show ?thesis by (simp add: directory_of_def map_nth)
qed

lemma table_read:
  "list_all table_entry_ok (wr_table w) \<Longrightarrow> n < length (wr_table w) \<Longrightarrow> table_at (table_part w) n = wr_table w ! n"
  by (simp add: table_at_def table_part_def table_layout.array_at)

end
