(* ===== verification/VfdayOpen.thy ===== *)
theory VfdayOpen
  imports VfdayFile
begin

text \<open>
  \<open>open\<close> on a file of the writer: the directory loop registers exactly the stored contracts, in
  whatever registry it is given.
\<close>

section \<open>Registering a stored contract\<close>

text \<open>The same contract: the fields a registry identifies it by.\<close>

definition same_as :: "session_data \<Rightarrow> registry \<Rightarrow> instrument_id \<Rightarrow> instrument_id \<Rightarrow> bool" where
  "same_as sd reg i x \<longleftrightarrow> (\<exists>sp name sp'. listed_as sd i sp name \<and> spec reg x = Inr sp' \<and>
     underlying_ids reg name = Some (underlying sp') \<and> kind sp' = kind sp \<and> expiry sp' = expiry sp \<and>
     strike sp' = strike sp \<and> (is_option sp \<longrightarrow> right_of sp' = right_of sp))"

text \<open>And the same description of it, in the fields that do not identify it; only a contract that is
  registered from the file itself, and not before it, has that.\<close>

definition exactly_as :: "session_data \<Rightarrow> registry \<Rightarrow> instrument_id \<Rightarrow> instrument_id \<Rightarrow> bool" where
  "exactly_as sd reg i x \<longleftrightarrow> (\<exists>sp sp'. spec (sd_registry sd) i = Inr sp \<and> spec reg x = Inr sp' \<and>
     right_of sp' = right_of sp \<and> lot_size sp' = lot_size sp \<and> tick_size sp' = tick_size sp)"

definition room_left :: "nat \<Rightarrow> registry \<Rightarrow> bool" where
  "room_left n reg \<longleftrightarrow> length (specs reg) + n \<le> 2 ^ 31 \<and> length (underlyings reg) + n \<le> 2 ^ 31"

text \<open>How a registry grows.\<close>

definition grown :: "registry \<Rightarrow> registry \<Rightarrow> bool" where
  "grown reg reg' \<longleftrightarrow> (\<exists>rest. specs reg' = specs reg @ rest) \<and>
     (\<forall>name u. underlying_ids reg name = Some u \<longrightarrow> underlying_ids reg' name = Some u)"

lemma grown_same_as: "grown reg reg' \<Longrightarrow> same_as sd reg i x \<Longrightarrow> same_as sd reg' i x"
  unfolding grown_def same_as_def using spec_prefix by blast

lemma same_as_functional:
  assumes "registry_ok reg" and "same_as sd reg i x" and "same_as sd reg i y"
  shows "x = y"
proof -
  obtain sp name sx sy where l: "spec reg x = Inr sx" "spec reg y = Inr sy"
    "underlying_ids reg name = Some (underlying sx)" "underlying_ids reg name = Some (underlying sy)"
    "kind sx = kind sp" "expiry sx = expiry sp" "strike sx = strike sp" "is_option sp \<longrightarrow> right_of sx = right_of sp"
    "kind sy = kind sp" "expiry sy = expiry sp" "strike sy = strike sp" "is_option sp \<longrightarrow> right_of sy = right_of sp"
    using assms(2,3) unfolding same_as_def listed_as_def by auto
  then have "key_of sx = key_of sy" by (auto simp: key_of_eq is_option_def)
  then show ?thesis using spec_by_key [OF assms(1) l(1)] spec_by_key [OF assms(1) l(2)] by simp
qed

lemma grown_exactly_as: "grown reg reg' \<Longrightarrow> exactly_as sd reg i x \<Longrightarrow> exactly_as sd reg' i x"
  unfolding grown_def exactly_as_def using spec_prefix by blast

lemma underlying_name_of_id:
  assumes "registry_ok reg"
  shows "underlying_ids reg name = Some u \<longleftrightarrow> underlying_name reg u = Inr name"
proof
  assume "underlying_ids reg name = Some u"
  then show "underlying_name reg u = Inr name"
    using assms by (auto simp: registry_ok_def underlyings_ok_def underlying_name_def)
next
  assume u: "underlying_name reg u = Inr name"
  then have "u = UnderlyingId (int (nat (uindex u)))" "nat (uindex u) < length (underlyings reg)"
    "underlyings reg ! nat (uindex u) = name"
    by (auto simp: underlying_name_def underlying_id.expand split: if_splits)
  then show "underlying_ids reg name = Some u" using assms by (auto simp: registry_ok_def underlyings_ok_def)
qed

lemma codes [simp]: "kind_of_code (kind_code k) = k" "right_of_code (right_code r) = r"
  by (cases k; simp add: kind_of_code_def) (cases r; simp add: right_of_code_def)

lemma stored_spec_spells: "spells t sp name \<Longrightarrow> stored_spec t u = sp\<lparr>spec_id := InstrumentId 0, underlying := u\<rparr>"
  by (cases sp) (simp add: spells_def stored_spec_def)

lemma register_stored:
  assumes "registry_ok reg" and "room_left (Suc n) reg" and "intern_underlying name reg = (u, reg1)"
    and "listed_as sd i sp name" and "spells t sp name" and "add (stored_spec t u) reg1 = (x, reg2)"
  shows "registry_ok reg2" and "room_left n reg2" and "grown reg reg2" and "same_as sd reg2 i x"
    and "specs reg2 = specs reg \<or>
      (x = InstrumentId (int (length (specs reg))) \<and> length (specs reg2) = Suc (length (specs reg)) \<and> exactly_as sd reg2 i x)"
    and "index_of x < int (length (specs reg2))" and "specs reg2 = specs reg \<Longrightarrow> index_of x < int (length (specs reg))"
proof -
  have l: "length (underlyings reg) < 2 ^ 31" "length (specs reg) < 2 ^ 31" using assms(2) by (simp_all add: room_left_def)
  note 1 = intern_underlying_ok [OF assms(1) l(1) assms(3)]
  have s1: "specs reg1 = specs reg" using assms(3) by (auto simp: intern_underlying_def Let_def split: option.splits)
  have l1: "length (specs reg1) < 2 ^ 31" using l s1 by simp
  show ok2: "registry_ok reg2" using add_registry_ok [OF _ l1 assms(6)] 1 by blast
  have u2: "underlying_ids reg2 = underlying_ids reg1" "underlyings reg2 = underlyings reg1"
    and s2: "length (specs reg2) \<le> Suc (length (specs reg))"
    and key: "by_key reg2 (key_of (stored_spec t u)) = Some x"
    using s1 by (auto intro: add_cases [OF l1 assms(6)])
  show "room_left n reg2" using assms(2) 1 s2 u2 by (simp add: room_left_def)
  obtain rest where rest: "specs reg2 = specs reg @ rest" using add_prefix [OF assms(6)] s1 by auto
  moreover have "underlying_ids reg2 m = Some v" if "underlying_ids reg m = Some v" for m v
    using names.intern_keeps [OF assms(1) l(1) assms(3)] that by (simp add: u2)
  ultimately show "grown reg reg2" by (auto simp: grown_def)
  note sp = stored_spec_spells [OF assms(5), of u]
  obtain sp' where sp': "spec reg2 x = Inr sp'" "key_of sp' = key_of (stored_spec t u)"
    using by_key_spec [OF ok2 key] by blast
  have "kind_code (kind sp') = kind_code (kind sp)" using sp'(2) by (simp add: key_of_def sp)
  then have "kind sp' = kind sp" by (metis codes(1))
  moreover have "underlying sp' = u" "expiry sp' = expiry sp" "strike sp' = strike sp"
    using sp'(2) by (simp_all add: key_of_def sp underlying_id.expand date.expand price.expand)
  moreover have "is_option sp \<longrightarrow> right_of sp' = right_of sp"
    using sp'(2) calculation(1) by (cases "right_of sp'"; cases "right_of sp"; simp add: key_of_def sp is_option_def split: if_splits)
  moreover have "underlying_ids reg2 name = Some u" using 1 by (simp add: u2)
  ultimately show "same_as sd reg2 i x" using assms(4) sp'(1) unfolding same_as_def by blast
  show "index_of x < int (length (specs reg2))" using sp'(1) by (simp add: spec_def split: if_splits)
  then show "specs reg2 = specs reg \<Longrightarrow> index_of x < int (length (specs reg))" by simp
  show "specs reg2 = specs reg \<or>
      (x = InstrumentId (int (length (specs reg))) \<and> length (specs reg2) = Suc (length (specs reg)) \<and> exactly_as sd reg2 i x)"
    using l1 assms(6)
  proof (cases rule: add_cases)
    case new
    then have "spec reg2 x = Inr ((stored_spec t u)\<lparr>spec_id := x\<rparr>)" using s1 by (simp add: spec_def nth_append)
    then show ?thesis using new s1 assms(4) by (simp add: exactly_as_def listed_as_def sp)
  qed (simp add: s1)
qed

text \<open>Two stored instruments that come out as the same contract are the same instrument.\<close>

lemma same_as_inj:
  assumes "registry_ok (sd_registry sd)" and "registry_ok reg" and "same_as sd reg i x" and "same_as sd reg j x"
  shows "i = j"
proof -
  obtain sp name sp' where 1: "listed_as sd i sp name" "spec reg x = Inr sp'" "underlying_ids reg name = Some (underlying sp')"
    "kind sp' = kind sp" "expiry sp' = expiry sp" "strike sp' = strike sp" "is_option sp \<longrightarrow> right_of sp' = right_of sp"
    using assms(3) unfolding same_as_def by blast
  obtain tp name' where 2: "listed_as sd j tp name'" "underlying_ids reg name' = Some (underlying sp')"
    "kind sp' = kind tp" "expiry sp' = expiry tp" "strike sp' = strike tp" "is_option tp \<longrightarrow> right_of sp' = right_of tp"
    using assms(4) 1(2) unfolding same_as_def by auto
  have "name = name'" using 1(3) 2(2) underlying_name_of_id [OF assms(2)] by simp
  then have "underlying sp = underlying tp"
    using 1(1) 2(1) underlying_name_of_id [OF assms(1)] by (metis listed_as_def option.inject)
  then have "key_of sp = key_of tp" using 1 2 by (simp add: key_of_def is_option_def)
  then show ?thesis
    using spec_by_key [OF assms(1)] 1(1) 2(1) by (metis listed_as_def option.inject)
qed

section \<open>The directory loop\<close>

lemma slice_shift: "length pre \<le> off \<Longrightarrow> slice off n (pre @ xs) = slice (off - length pre) n xs"
  by (simp add: slice_def)

text \<open>What the loop has built after the first \<open>k\<close> entries, from the registry \<open>reg0\<close>.\<close>

definition reopened ::
    "session_data \<Rightarrow> writer \<Rightarrow> registry \<Rightarrow> nat \<Rightarrow> registry \<Rightarrow> vfday_session \<Rightarrow> bool" where
  "reopened sd w reg0 k reg s \<longleftrightarrow> registry_ok reg \<and> room_left (length (stored_ids sd) - k) reg \<and> grown reg0 reg \<and>
     length (vf_instruments s) = k \<and>
     (\<forall>n < k. same_as sd reg (stored_ids sd ! n) (vf_instruments s ! n) \<and>
        map_of (vf_entries s) (index_of (vf_instruments s ! n)) = Some (entry_of (wr_directory w ! n))) \<and>
     (\<forall>key. map_of (vf_entries s) key \<noteq> None \<longrightarrow> InstrumentId key \<in> set (vf_instruments s)) \<and>
     (\<forall>j. length (specs reg0) \<le> j \<and> j < length (specs reg) \<longrightarrow> InstrumentId (int j) \<in> set (vf_instruments s)) \<and>
     (\<forall>n < k. int (length (specs reg0)) \<le> index_of (vf_instruments s ! n) \<longrightarrow>
        exactly_as sd reg (stored_ids sd ! n) (vf_instruments s ! n)) \<and>
     (\<forall>x \<in> set (vf_instruments s). index_of x < int (length (specs reg)))"

text \<open>The session the loop starts from, with everything but the entries and the instruments.\<close>

definition same_frame :: "vfday_session \<Rightarrow> vfday_session \<Rightarrow> bool" where
  "same_frame s s' \<longleftrightarrow> vf_path s' = vf_path s \<and> vf_date s' = vf_date s \<and> vf_total_rows s' = vf_total_rows s \<and>
     vf_timeline s' = vf_timeline s \<and> vf_decoded s' = vf_decoded s \<and> vf_file s' = vf_file s"

lemma entry_checks:
  assumes "storable sd" and "writer_ok sd (stored_ids sd) w" and "fits w" and "k < length (stored_ids sd)"
    and "laid_out sd w tms h" and raw: "rw_table raw = table_part w" "rw_strings raw = wr_strings w"
  shows "\<exists>sp name t. listed_as sd (stored_ids sd ! k) sp name \<and> spells t sp name \<and>
    open_entry h raw (wr_directory w ! k) reg s =
      (let (u, reg1) = intern_underlying name reg; (i, reg2) = add (stored_spec t u) reg1
       in if map_of (vf_entries s) (index_of i) \<noteq> None then (reg2, Inl ContractTwice)
          else (reg2, Inr (s\<lparr>vf_entries := om_put (index_of i) (entry_of (wr_directory w ! k)) (vf_entries s),
                             vf_instruments := vf_instruments s @ [i]\<rparr>)))"
proof -
  note ok = assms(2) [unfolded writer_ok_def]
  let ?e = "wr_directory w ! k" and ?t = "wr_table w ! k" and ?c = "sd_quotes sd (stored_ids sd ! k)"
  note valid = tables_valid [OF assms(1-3)]
  obtain sp name where r: "listed_as sd (stored_ids sd ! k) sp name" "spells ?t sp name" "named_at (wr_strings w) name (te_name_offset ?t)"
    using ok assms(4) unfolding recorded_def by blast
  have f: "filed (wr_blob w) ?c ?e" "dx_table_index ?e = int k" using ok assms(4) by blast+
  have kt: "k < length (wr_table w)" using ok assms(4) by simp
  have idx: "(dx_table_index ?e < 0 \<or> int (length (rw_table raw) div table_entry_size) \<le> dx_table_index ?e) = False"
    using f(2) kt part_lengths(1) [OF valid] by (simp add: raw table_entry_size_def)
  have tbl: "rg_offset (h_table h) = int (header_size + length (wr_blob w))"
    using assms(5) by (simp add: laid_out_def Let_def region_for_def)
  have payload: "(dx_blob_offset ?e < int header_size \<or> rg_offset (h_table h) < dx_blob_offset ?e + dx_blob_bytes ?e) = False"
    using f(1) unfolding tbl filed_def describes_def entry_of_def by simp
  have "size_of ?c \<noteq> 0" using nth_mem [OF assms(4)] by (simp add: stored_ids_def)
  then have ne: "c_ts ?c \<noteq> []" by (simp add: size_of_def)
  have "sorted (c_ts ?c)" using storableD(4) [OF assms(1)] by (simp add: storable_columns_def columns_okD)
  then have "hd (c_ts ?c) \<le> last (c_ts ?c)" using ne by (simp add: sorted_le_last)
  moreover have "hd (c_ts ?c) = Timestamp (dx_first_ts ?e)" "last (c_ts ?c) = Timestamp (dx_last_ts ?e)"
    using f(1) by (simp_all add: filed_def describes_def entry_of_def)
  ultimately have range: "(dx_last_ts ?e < dx_first_ts ?e) = False" by simp
  have at: "table_at (rw_table raw) (nat (dx_table_index ?e)) = ?t" using table_read [OF valid(1) kt] by (simp add: raw f(2))
  have inside: "(int (length (rw_strings raw)) < te_name_offset ?t + te_name_length ?t) = False"
    using r(2,3) by (simp add: raw named_at_def spells_def)
  have name: "name_of_bytes (take (nat (te_name_length ?t)) (drop (nat (te_name_offset ?t)) (rw_strings raw))) = name"
    using r(2,3) by (simp add: raw named_at_def spells_def slice_def)
  show ?thesis
    unfolding open_entry_def idx payload range if_False Let_def at inside name using r(1,2) by blast
qed

lemma reopen_step:
  assumes "storable sd" and "writer_ok sd (stored_ids sd) w" and "fits w" and k: "k < length (stored_ids sd)"
    and "laid_out sd w tms h" and raw: "rw_table raw = table_part w" "rw_strings raw = wr_strings w"
    and r: "reopened sd w reg0 k reg s"
  shows "\<exists>reg' s'. open_entry h raw (wr_directory w ! k) reg s = (reg', Inr s') \<and> reopened sd w reg0 (Suc k) reg' s' \<and> same_frame s s'"
proof -
  note R = r [unfolded reopened_def]
  obtain sp name t where e: "listed_as sd (stored_ids sd ! k) sp name" "spells t sp name"
    "open_entry h raw (wr_directory w ! k) reg s =
      (let (u, reg1) = intern_underlying name reg; (i, reg2) = add (stored_spec t u) reg1
       in if map_of (vf_entries s) (index_of i) \<noteq> None then (reg2, Inl ContractTwice)
          else (reg2, Inr (s\<lparr>vf_entries := om_put (index_of i) (entry_of (wr_directory w ! k)) (vf_entries s),
                             vf_instruments := vf_instruments s @ [i]\<rparr>)))"
    using entry_checks [OF assms(1-7), of reg s] by blast
  obtain u reg1 where u: "intern_underlying name reg = (u, reg1)" by (cases "intern_underlying name reg")
  obtain x reg2 where a: "add (stored_spec t u) reg1 = (x, reg2)" by (cases "add (stored_spec t u) reg1")
  have room: "room_left (Suc (length (stored_ids sd) - Suc k)) reg" using R k by (simp add: Suc_diff_Suc)
  have regok: "registry_ok reg" using R by blast
  note g = register_stored [OF regok room u e(1,2) a]
  have src: "registry_ok (sd_registry sd)" "distinct (stored_ids sd)"
    using storableD(1,2) [OF assms(1)] session_okD(4) by (auto simp: stored_ids_def)
  have fresh: "x \<notin> set (vf_instruments s)"
  proof
    assume "x \<in> set (vf_instruments s)"
    then obtain n where n: "n < k" "vf_instruments s ! n = x" using R by (auto simp: in_set_conv_nth)
    then have "same_as sd reg2 (stored_ids sd ! n) x" using R grown_same_as [OF g(3)] by blast
    then have "stored_ids sd ! n = stored_ids sd ! k" using same_as_inj [OF src(1) g(1) _ g(4)] by blast
    then show False using src(2) n(1) k by (simp add: nth_eq_iff_index_eq)
  qed
  then have none: "map_of (vf_entries s) (index_of x) = None" using R by (metis instrument_id.collapse option.exhaust option.distinct(1))
  let ?s' = "s\<lparr>vf_entries := om_put (index_of x) (entry_of (wr_directory w ! k)) (vf_entries s), vf_instruments := vf_instruments s @ [x]\<rparr>"
  have step: "open_entry h raw (wr_directory w ! k) reg s = (reg2, Inr ?s')" by (simp add: e(3) u a none)
  have "same_as sd reg2 (stored_ids sd ! n) (vf_instruments ?s' ! n) \<and>
      map_of (vf_entries ?s') (index_of (vf_instruments ?s' ! n)) = Some (entry_of (wr_directory w ! n))" if n: "n < Suc k" for n
  proof (cases "n = k")
    case True
    then show ?thesis using g(4) R by (simp add: nth_append)
  next
    case False
    then have nk: "n < k" using n by simp
    then have "vf_instruments s ! n \<in> set (vf_instruments s)" using R by simp
    then have "index_of (vf_instruments s ! n) \<noteq> index_of x" using fresh by (metis instrument_id.collapse)
    then show ?thesis using nk R grown_same_as [OF g(3)] by (simp add: nth_append)
  qed
  moreover have "InstrumentId (int j) \<in> set (vf_instruments ?s')" if j: "length (specs reg0) \<le> j \<and> j < length (specs reg2)" for j
  proof (cases "j < length (specs reg)")
    case True
    then show ?thesis using R j by simp
  next
    case False
    then have "specs reg2 \<noteq> specs reg" using j by auto
    then have "x = InstrumentId (int j)" using g(5) False j by simp
    then show ?thesis by simp
  qed
  moreover have "exactly_as sd reg2 (stored_ids sd ! n) (vf_instruments ?s' ! n)"
    if n: "n < Suc k" "int (length (specs reg0)) \<le> index_of (vf_instruments ?s' ! n)" for n
  proof (cases "n = k")
    case True
    then have x: "int (length (specs reg0)) \<le> index_of x" using n(2) R by (simp add: nth_append)
    have "specs reg2 \<noteq> specs reg"
    proof
      assume "specs reg2 = specs reg"
      then have "InstrumentId (int (nat (index_of x))) \<in> set (vf_instruments s)"
        using R x g(7) by (metis nat_less_iff nat_le_iff le_nat_iff of_nat_0_le_iff order_trans)
      moreover have "InstrumentId (int (nat (index_of x))) = x" using x by (cases x) simp
      ultimately show False using fresh by simp
    qed
    then have "exactly_as sd reg2 (stored_ids sd ! k) x" using g(5) by blast
    then show ?thesis using True R by (simp add: nth_append)
  next
    case False
    then show ?thesis using n R grown_exactly_as [OF g(3)] by (simp add: nth_append)
  qed
  moreover have "index_of y < int (length (specs reg2))" if "y \<in> set (vf_instruments ?s')" for y
  proof (cases "y = x")
    case False
    then have "index_of y < int (length (specs reg))" using R that by simp
    moreover have "length (specs reg) \<le> length (specs reg2)" using g(3) by (auto simp: grown_def)
    ultimately show ?thesis by simp
  qed (use g(6) in simp)
  moreover have "grown reg0 reg2"
  proof -
    have "grown reg0 reg" using R by simp
    then show ?thesis using g(3) by (auto simp: grown_def)
  qed
  moreover have "InstrumentId key \<in> set (vf_instruments ?s')" if "map_of (vf_entries ?s') key \<noteq> None" for key
    using that R by (cases x) (auto split: if_splits)
  ultimately have "reopened sd w reg0 (Suc k) reg2 ?s'"
    using g(1,2) R unfolding reopened_def by simp
  then show ?thesis using step by (auto simp: same_frame_def)
qed

end
