(* ===== verification/VfdayRoundTrip.thy ===== *)
theory VfdayRoundTrip
  imports VfdayOpen
begin

text \<open>
  The day store end to end: a session that is written and opened again, with its columns decoded on
  demand through the cache.
\<close>

section \<open>Opening\<close>

lemma open_loop_runs:
  assumes "storable sd" and "writer_ok sd (stored_ids sd) w" and "fits w" and "laid_out sd w tms h"
    and "rw_table raw = table_part w" and "rw_strings raw = wr_strings w"
    and "reopened sd w reg0 k reg s" and "k \<le> length (stored_ids sd)"
  shows "\<exists>reg' s'. open_loop h raw (drop k (wr_directory w)) reg s = (reg', Inr s') \<and>
    reopened sd w reg0 (length (stored_ids sd)) reg' s' \<and> same_frame s s'"
  using assms(7,8)
proof (induction "length (stored_ids sd) - k" arbitrary: k reg s)
  case 0
  then have "k = length (stored_ids sd)" "length (wr_directory w) = length (stored_ids sd)"
    using assms(2) by (simp_all add: writer_ok_def)
  then show ?case using 0 by (simp add: same_frame_def)
next
  case (Suc m)
  then have k: "k < length (stored_ids sd)" by simp
  have dir: "length (wr_directory w) = length (stored_ids sd)" using assms(2) by (simp add: writer_ok_def)
  obtain reg1 s1 where 1: "open_entry h raw (wr_directory w ! k) reg s = (reg1, Inr s1)" "reopened sd w reg0 (Suc k) reg1 s1" "same_frame s s1"
    using reopen_step [OF assms(1-3) k assms(4-6) Suc.prems(1)] by blast
  obtain reg2 s2 where 2: "open_loop h raw (drop (Suc k) (wr_directory w)) reg1 s1 = (reg2, Inr s2)"
    "reopened sd w reg0 (length (stored_ids sd)) reg2 s2" "same_frame s1 s2"
    using Suc.hyps(1) [OF _ 1(2)] Suc.hyps(2) k by fastforce
  have "drop k (wr_directory w) = wr_directory w ! k # drop (Suc k) (wr_directory w)" using k dir by (simp add: Cons_nth_drop_Suc)
  then show ?case using 1 2 by (auto simp: same_frame_def)
qed

lemma sum_list_nonzero:
  fixes f :: "'a \<Rightarrow> nat"
  shows "sum_list (map f (filter (\<lambda>x. f x \<noteq> 0) xs)) = sum_list (map f xs)"
  by (induction xs) simp_all

lemma length_all_events: "length (all_events sd) = sum_list (map (\<lambda>i. size_of (sd_quotes sd i)) (sd_instruments sd))"
  by (simp add: all_events_def length_concat comp_def)

lemma rows_of_directory:
  assumes "storable sd" and "writer_ok sd (stored_ids sd) w"
  shows "rows_seen (wr_directory w) = sd_total_observations sd"
proof -
  note ok = assms(2) [unfolded writer_ok_def]
  have "map dx_row_count (wr_directory w) = map (\<lambda>i. int (size_of (sd_quotes sd i))) (stored_ids sd)"
    using ok by (intro nth_equalityI) (auto simp: filed_def describes_def entry_of_def)
  then have "sum_list (map dx_row_count (wr_directory w)) = int (sum_list (map (\<lambda>i. size_of (sd_quotes sd i)) (stored_ids sd)))"
    by (simp add: sum_list_of_nat [symmetric] comp_def)
  also have "\<dots> = int (sd_total_observations sd)"
    using session_okD(8) [OF storableD(1) [OF assms(1)]] sum_list_nonzero [of "\<lambda>i. size_of (sd_quotes sd i)"]
    by (simp add: stored_ids_def length_all_events)
  finally show ?thesis using storableD(6) [OF assms(1)] by (simp add: rows_seen_def to_size_def)
qed

lemma times_in_range:
  assumes "storable sd"
  shows "\<forall>x \<in> set (map nanos (distinct_times sd)). i64_ok x" and "sorted_wrt (<) (map nanos (distinct_times sd))"
proof -
  note ok = storableD(1) [OF assms]
  show "\<forall>x \<in> set (map nanos (distinct_times sd)). i64_ok x"
    using distinct_times_laws(2) [OF ok] storableD(4) [OF assms] by (fastforce simp: storable_columns_def)
  have "sorted_wrt (\<lambda>a b. nanos a < nanos b) (distinct_times sd)"
    using distinct_times_laws(1) [OF ok] by (simp add: less_timestamp_def [abs_def])
  then show "sorted_wrt (<) (map nanos (distinct_times sd))" by (simp add: sorted_wrt_map)
qed

text \<open>The writer's state and the file for a session that can be stored.\<close>

definition file_for :: "session_data \<Rightarrow> writer \<Rightarrow> file_header \<Rightarrow> u8 list \<Rightarrow> bool" where
  "file_for sd w h bytes \<longleftrightarrow> try_fold (write_instrument sd) (sd_instruments sd) new_writer = Inr w \<and>
     file_layout sd w (stored_timeline sd) = (h, bytes)"

lemma file_for_parts:
  assumes "storable sd" and "file_for sd w h bytes"
  shows "writer_ok sd (stored_ids sd) w" and "fits w" and "bytes = put_header h @ parts w (stored_timeline sd)"
    and "laid_out sd w (stored_timeline sd) h" and "header_ok h" and "length bytes < 2 ^ 31"
proof -
  note w = storable_written [OF assms(1) assms(2) [unfolded file_for_def, THEN conjunct1]]
  note f = file_layout_parts [OF assms(1) w(1,2) assms(2) [unfolded file_for_def, THEN conjunct2]]
  show "writer_ok sd (stored_ids sd) w" "fits w" by (fact w)+
  show "bytes = put_header h @ parts w (stored_timeline sd)" "laid_out sd w (stored_timeline sd) h" "header_ok h" by (fact f)+
  then show "length bytes < 2 ^ 31" using f(4) header_layout.length_put [OF f(3)] by simp
qed

lemma open_stored:
  assumes "storable sd" and "file_for sd w h bytes"
    and "disk_files d path = Some \<lparr>df_readable = True, df_bytes = bytes\<rparr>"
    and "registry_ok reg0" and "room_left (length (stored_ids sd)) reg0"
  shows "\<exists>reg s. vfday_open path d reg0 = (reg, Inr s) \<and> reopened sd w reg0 (length (stored_ids sd)) reg s \<and>
    vf_path s = path \<and> vf_date s = sd_date sd \<and> vf_total_rows s = sd_total_observations sd \<and>
    vf_timeline s = distinct_times sd \<and> vf_decoded s = [] \<and> vf_file s = None"
proof -
  note p = file_for_parts [OF assms(1,2)]
  note valid = tables_valid [OF assms(1) p(1,2)]
  note head = header_accepted [OF p(5,4,3)] and regions = regions_read [OF p(5,4,3) valid]
  note H = p(4) [unfolded laid_out_def Let_def]
  let ?raw = "\<lparr>rw_table = table_part w, rw_strings = wr_strings w, rw_directory = directory_part w,
    rw_timeline = times_part (stored_timeline sd)\<rparr>"
  let ?s0 = "\<lparr>vf_path = path, vf_date = Date (h_date h), vf_total_rows = to_size (h_total_rows h), vf_instruments = [],
    vf_entries = [], vf_timeline = distinct_times sd, vf_decoded = [], vf_file = None\<rparr>"
  have count: "length (wr_directory w) = length (stored_ids sd)" using p(1) by (simp add: writer_ok_def)
  have dir: "directory_of ?raw = wr_directory w" by (rule directory_read [OF valid(2)])
  have total: "to_size (h_total_rows h) = sd_total_observations sd"
    using H storableD(6) [OF assms(1)] by (simp add: to_size_def)
  have times: "read_timeline None (nat (rg_size (h_timeline h))) (rw_timeline ?raw) = Inr (distinct_times sd)"
    using read_timeline_le [OF times_in_range(1) [OF assms(1)], of None] times_in_range(2) [OF assms(1)] H
    by (simp add: region_for_def times_part_def stored_timeline_distinct [OF storableD(1) [OF assms(1)]] comp_def)
  have "reopened sd w reg0 0 reg0 ?s0"
    using assms(4,5) by (simp add: reopened_def grown_def)
  then obtain reg s where loop: "open_loop h ?raw (wr_directory w) reg0 ?s0 = (reg, Inr s)"
    "reopened sd w reg0 (length (stored_ids sd)) reg s" "same_frame ?s0 s"
    using open_loop_runs [OF assms(1) p(1,2,4), of ?raw reg0 0 reg0 ?s0] by auto
  have "open_bytes path bytes reg0 = (reg, Inr s)"
    unfolding open_bytes_def head(1) option.case head(2) Let_def regions sum.case dir times
    using H count loop(1) rows_of_directory [OF assms(1) p(1)] total by simp
  then have "vfday_open path d reg0 = (reg, Inr s)" by (simp add: vfday_open_def assms(3))
  then show ?thesis using loop(2,3) total H by (auto simp: same_frame_def)
qed

section \<open>Decoding on demand\<close>

text \<open>The columns a session serves: those of the stored instrument an id stands for.\<close>

definition served :: "session_data \<Rightarrow> vfday_session \<Rightarrow> instrument_id \<Rightarrow> quote_columns" where
  "served sd s x =
     (case map_of (zip (vf_instruments s) (stored_ids sd)) x of None \<Rightarrow> empty_columns | Some i \<Rightarrow> sd_quotes sd i)"

text \<open>A session whose file is still the one written, with a cache that holds what it should.\<close>

definition intact :: "session_data \<Rightarrow> writer \<Rightarrow> disk \<Rightarrow> vfday_session \<Rightarrow> bool" where
  "intact sd w d s \<longleftrightarrow>
     (\<exists>h bytes. file_for sd w h bytes \<and> disk_files d (vf_path s) = Some \<lparr>df_readable = True, df_bytes = bytes\<rparr>) \<and>
     length (vf_instruments s) = length (stored_ids sd) \<and> distinct (vf_instruments s) \<and>
     (\<forall>n < length (stored_ids sd). map_of (vf_entries s) (index_of (vf_instruments s ! n)) = Some (entry_of (wr_directory w ! n))) \<and>
     (\<forall>key. map_of (vf_entries s) key \<noteq> None \<longrightarrow> InstrumentId key \<in> set (vf_instruments s)) \<and>
     (\<forall>key c. map_of (vf_decoded s) key = Some c \<longrightarrow> c = served sd s (InstrumentId key)) \<and> vf_file s \<noteq> Some False"

lemma served_nth:
  "distinct (vf_instruments s) \<Longrightarrow> length (vf_instruments s) = length (stored_ids sd) \<Longrightarrow> n < length (stored_ids sd) \<Longrightarrow>
    served sd s (vf_instruments s ! n) = sd_quotes sd (stored_ids sd ! n)"
  by (simp add: served_def map_of_zip_nth)

lemma served_other:
  "length (vf_instruments s) = length (stored_ids sd) \<Longrightarrow> x \<notin> set (vf_instruments s) \<Longrightarrow> served sd s x = empty_columns"
  by (simp add: served_def map_of_zip_is_None option.case_eq_if)

lemma block_in_file:
  assumes "storable sd" and "file_for sd w h bytes" and n: "n < length (stored_ids sd)"
  shows "filed (wr_blob w) (sd_quotes sd (stored_ids sd ! n)) (wr_directory w ! n)"
    and "nat (dx_blob_offset (wr_directory w ! n)) + nat (dx_blob_bytes (wr_directory w ! n)) \<le> length bytes"
    and "slice (nat (dx_blob_offset (wr_directory w ! n))) (nat (dx_blob_bytes (wr_directory w ! n))) bytes =
      column_data (sd_quotes sd (stored_ids sd ! n))"
proof -
  let ?e = "wr_directory w ! n" and ?data = "column_data (sd_quotes sd (stored_ids sd ! n))"
  note p = file_for_parts [OF assms(1,2)]
  show f: "filed (wr_blob w) (sd_quotes sd (stored_ids sd ! n)) ?e" using p(1) n by (simp add: writer_ok_def)
  have hl: "length (put_header h) = header_size" by (rule header_layout.length_put [OF p(5)])
  have b: "dx_blob_bytes ?e = int (length ?data)" using f by (simp add: filed_def describes_def entry_of_def)
  have off: "header_size \<le> nat (dx_blob_offset ?e)" "nat (dx_blob_offset ?e) - header_size + length ?data \<le> length (wr_blob w)"
    using f unfolding filed_def by linarith+
  have "length bytes = header_size + length (parts w (stored_timeline sd))" by (simp add: p(3) hl)
  then show "nat (dx_blob_offset ?e) + nat (dx_blob_bytes ?e) \<le> length bytes" using off b by (simp add: parts_def)
  have "slice (nat (dx_blob_offset ?e)) (length ?data) bytes = slice (nat (dx_blob_offset ?e) - header_size) (length ?data) (parts w (stored_timeline sd))"
    using slice_shift [of "put_header h"] off(1) by (simp add: p(3) hl)
  also have "\<dots> = slice (nat (dx_blob_offset ?e) - header_size) (length ?data) (wr_blob w)"
    unfolding parts_def using off(2) by (rule slice_append)
  also have "\<dots> = ?data" using f by (simp add: filed_def)
  finally show "slice (nat (dx_blob_offset ?e)) (nat (dx_blob_bytes ?e)) bytes = ?data" by (simp add: b)
qed

lemma served_cong: "vf_instruments s' = vf_instruments s \<Longrightarrow> served sd s' = served sd s"
  by (simp add: served_def fun_eq_iff)

lemma intact_materialise:
  assumes "storable sd" and i: "intact sd w d s"
  shows "\<exists>s'. materialise d x s = (s', Inr (served sd s x)) \<and> intact sd w d s' \<and> vf_instruments s' = vf_instruments s"
proof (cases "map_of (vf_decoded s) (index_of x)")
  case (Some c)
  then have "c = served sd s x" using i by (metis intact_def instrument_id.collapse)
  then show ?thesis using Some i by (simp add: materialise_def)
next
  case None
  show ?thesis
  proof (cases "map_of (vf_entries s) (index_of x)")
    case no: None
    have "x \<notin> set (vf_instruments s)"
      using i no by (metis (no_types, lifting) in_set_conv_nth intact_def option.distinct(1))
    then have "served sd s x = empty_columns" using i by (intro served_other) (simp_all add: intact_def)
    then show ?thesis using None no i by (simp add: materialise_def)
  next
    case (Some e)
    note I = i [unfolded intact_def]
    obtain h bytes where wf: "file_for sd w h bytes" "disk_files d (vf_path s) = Some \<lparr>df_readable = True, df_bytes = bytes\<rparr>"
      using I by blast
    have "x \<in> set (vf_instruments s)" using I Some by (metis instrument_id.collapse option.distinct(1))
    then obtain n where n: "n < length (stored_ids sd)" "x = vf_instruments s ! n" using I by (metis in_set_conv_nth)
    then have e: "e = entry_of (wr_directory w ! n)" using I Some by simp
    have c: "served sd s x = sd_quotes sd (stored_ids sd ! n)" using served_nth I n by blast
    note block = block_in_file [OF assms(1) wf(1) n(1)]
    have "read_block d s e = (s\<lparr>vf_file := Some True\<rparr>, Inr (column_data (served sd s x)))"
    proof -
      have "(case vf_file s of None \<Rightarrow> True | Some g \<Rightarrow> g) = True" using I by (auto split: option.split)
      then show ?thesis using block(2,3) by (simp add: read_block_def wf(2) e entry_of_def c slice_def Let_def)
    qed
    moreover have "decode_entry e (column_data (served sd s x)) = Inr (served sd s x)"
      using block(1) storableD(4) [OF assms(1)] unfolding c e by (intro decode_entry_data) (simp_all add: filed_def)
    ultimately have m: "materialise d x s = (s\<lparr>vf_file := Some True, vf_decoded := om_put (index_of x) (served sd s x) (vf_decoded s)\<rparr>,
        Inr (served sd s x))"
      by (simp add: materialise_def None Some)
    let ?s' = "s\<lparr>vf_file := Some True, vf_decoded := om_put (index_of x) (served sd s x) (vf_decoded s)\<rparr>"
    have "served sd ?s' = served sd s" by (rule served_cong) simp
    then have "intact sd w d ?s'" using I wf unfolding intact_def by (cases x) auto
    then show ?thesis using m by simp
  qed
qed

lemma stored_columns_nonempty: "storable sd \<Longrightarrow> n < length (stored_ids sd) \<Longrightarrow> c_ts (sd_quotes sd (stored_ids sd ! n)) \<noteq> []"
  using nth_mem [of n "stored_ids sd"] by (auto simp: stored_ids_def size_of_def)

lemma intact_quotes:
  assumes "storable sd" and i: "intact sd w d s"
  shows "\<exists>s'. stored_quotes d x s = (s', Inr (served sd s x)) \<and> intact sd w d s' \<and> vf_instruments s' = vf_instruments s"
proof -
  have "served sd s x = empty_columns" if "c_ts (served sd s x) = []"
  proof (cases "x \<in> set (vf_instruments s)")
    case True
    then obtain n where n: "n < length (stored_ids sd)" "x = vf_instruments s ! n" using i by (metis in_set_conv_nth intact_def)
    then have "served sd s x = sd_quotes sd (stored_ids sd ! n)" using served_nth i unfolding intact_def by blast
    then show ?thesis using that stored_columns_nonempty [OF assms(1) n(1)] by simp
  next
    case False
    then show ?thesis using served_other i unfolding intact_def by blast
  qed
  then show ?thesis
    using intact_materialise [OF assms, of x] by (auto simp: stored_quotes_def)
qed

section \<open>The session the rest of the program sees\<close>

text \<open>
  The virtual functions of \<open>VfdaySession\<close>; \<open>event_order\<close> is inherited and empty.  A \<open>quotes\<close> that
  throws ends the run, so the record says nothing about its value.
\<close>

definition stored_data :: "registry \<Rightarrow> disk \<Rightarrow> vfday_session \<Rightarrow> session_data" where
  "stored_data reg d s =
     \<lparr>sd_date = vf_date s, sd_registry = reg, sd_instruments = vf_instruments s,
      sd_quotes = (\<lambda>i. case snd (stored_quotes d i s) of Inl _ \<Rightarrow> undefined | Inr c \<Rightarrow> c),
      sd_total_observations = vf_total_rows s, sd_event_order = [], sd_timeline = vf_timeline s,
      sd_printed_by = stored_printed_by s\<rparr>"

lemma stored_data_quotes:
  assumes "storable sd" and "intact sd w d s"
  shows "sd_quotes (stored_data reg d s) = served sd s"
proof
  fix x
  show "sd_quotes (stored_data reg d s) x = served sd s x"
    using intact_quotes [OF assms, of x] by (auto simp: stored_data_def)
qed

lemma hd_le_iff:
  assumes "columns_ok c" and "size_of c \<noteq> 0"
  shows "count_upto c t \<noteq> 0 \<longleftrightarrow> hd (c_ts c) \<le> t"
  using nth_le_iff_count_upto [OF assms(1), of 0 t] assms(2) by (simp add: size_of_def hd_conv_nth)

lemma sum_over_served:
  assumes "storable sd" and "intact sd w d s"
  shows "map (\<lambda>x. size_of (served sd s x)) (vf_instruments s) = map (\<lambda>i. size_of (sd_quotes sd i)) (stored_ids sd)"
  using assms(2) served_nth by (intro nth_equalityI) (simp_all add: intact_def)

lemma served_cases: "served sd s x = empty_columns \<or> (\<exists>i. served sd s x = sd_quotes sd i)"
  unfolding served_def by (cases "map_of (zip (vf_instruments s) (stored_ids sd)) x") auto

lemma served_columns:
  assumes "storable sd" and "intact sd w d s"
  shows "columns_ok (served sd s x)" and "size_of (served sd s x) < 2 ^ 32"
    and "size_of (served sd s x) \<noteq> 0 \<longleftrightarrow> x \<in> set (vf_instruments s)"
proof -
  note served_cases [of sd s x]
  moreover have "columns_ok (sd_quotes sd i)" "size_of (sd_quotes sd i) < 2 ^ 32" for i
    using storableD(4) [OF assms(1), of i] unfolding storable_columns_def by blast+
  moreover have "size_of empty_columns < 2 ^ 32" by (simp add: size_of_def empty_columns_def)
  ultimately show "columns_ok (served sd s x)" "size_of (served sd s x) < 2 ^ 32" using empty_columns_ok by metis+
  show "size_of (served sd s x) \<noteq> 0 \<longleftrightarrow> x \<in> set (vf_instruments s)"
  proof (cases "x \<in> set (vf_instruments s)")
    case True
    then obtain n where n: "n < length (stored_ids sd)" "x = vf_instruments s ! n" using assms(2) by (metis in_set_conv_nth intact_def)
    then have "served sd s x = sd_quotes sd (stored_ids sd ! n)" using served_nth assms(2) unfolding intact_def by blast
    then show ?thesis using True stored_columns_nonempty [OF assms(1) n(1)] by (simp add: size_of_def)
  next
    case False
    then have "served sd s x = empty_columns" using served_other assms(2) unfolding intact_def by blast
    then show ?thesis using False by (simp add: size_of_def empty_columns_def)
  qed
qed

lemma served_times:
  assumes "storable sd" and "intact sd w d s"
  shows "(\<Union>x. set (c_ts (served sd s x))) = (\<Union>i. set (c_ts (sd_quotes sd i)))"
proof (intro equalityI subsetI)
  fix t assume "t \<in> (\<Union>x. set (c_ts (served sd s x)))"
  then obtain x where x: "t \<in> set (c_ts (served sd s x))" by blast
  from served_cases [of sd s x] show "t \<in> (\<Union>i. set (c_ts (sd_quotes sd i)))"
  proof (elim disjE exE)
    assume "served sd s x = empty_columns"
    with x show ?thesis by (simp add: empty_columns_def)
  next
    fix i assume "served sd s x = sd_quotes sd i"
    with x show ?thesis by (intro UN_I [of i]) simp_all
  qed
next
  note I = assms(2) [unfolded intact_def]
  fix t assume "t \<in> (\<Union>i. set (c_ts (sd_quotes sd i)))"
  then obtain i where i: "t \<in> set (c_ts (sd_quotes sd i))" by blast
  then have "size_of (sd_quotes sd i) \<noteq> 0" by (auto simp: size_of_def)
  then have "i \<in> set (stored_ids sd)" using session_okD(3) [OF storableD(1) [OF assms(1)]] by (simp add: stored_ids_def)
  then obtain n where n: "n < length (stored_ids sd)" "stored_ids sd ! n = i" by (metis in_set_conv_nth)
  have "served sd s (vf_instruments s ! n) = sd_quotes sd i" using served_nth [OF _ _ n(1)] I n(2) by simp
  with i show "t \<in> (\<Union>x. set (c_ts (served sd s x)))" by (intro UN_I [of "vf_instruments s ! n"]) simp_all
qed

lemma stored_printed_by_default:
  assumes "storable sd" and "intact sd w d s"
  shows "stored_printed_by s x t = default_printed_by (served sd s) x t"
proof (cases "x \<in> set (vf_instruments s)")
  case True
  note I = assms(2) [unfolded intact_def]
  obtain n where n: "n < length (stored_ids sd)" "x = vf_instruments s ! n" using True I by (metis in_set_conv_nth)
  let ?c = "sd_quotes sd (stored_ids sd ! n)"
  have c: "served sd s x = ?c" using served_nth I n by blast
  obtain h bytes where "file_for sd w h bytes" using I by blast
  note block = block_in_file(1) [OF assms(1) this n(1)]
  have e: "map_of (vf_entries s) (index_of x) = Some (entry_of (wr_directory w ! n))" using I n by blast
  have size: "size_of ?c \<noteq> 0" using stored_columns_nonempty [OF assms(1) n(1)] by (simp add: size_of_def)
  have ok: "columns_ok (served sd s x)" by (rule served_columns(1) [OF assms])
  have "stored_printed_by s x t \<longleftrightarrow> hd (c_ts ?c) \<le> t"
    using block size by (simp add: stored_printed_by_def e filed_def describes_def)
  then show ?thesis
    using default_printed_by_count [where f = "served sd s" and i = x, OF ok] hd_le_iff [OF ok [unfolded c] size] by (simp add: c)
next
  case False
  then have none: "map_of (vf_entries s) (index_of x) = None"
    using assms(2) unfolding intact_def by (metis instrument_id.collapse)
  have "size_of (served sd s x) = 0" using False served_columns(3) [OF assms] by blast
  then show ?thesis by (simp add: stored_printed_by_def none default_printed_by_def Let_def)
qed

lemma stored_session_ok:
  assumes "storable sd" and "intact sd w d s" and "vf_total_rows s = sd_total_observations sd"
    and "vf_timeline s = distinct_times sd"
  shows "session_ok (stored_data reg d s)"
proof -
  let ?new = "stored_data reg d s" and ?bare = "(stored_data reg d s)\<lparr>sd_timeline := []\<rparr>"
  have q: "sd_quotes ?new = served sd s" by (rule stored_data_quotes [OF assms(1,2)])
  have fields: "sd_instruments ?new = vf_instruments s" "sd_total_observations ?new = vf_total_rows s" "sd_event_order ?new = []"
    "sd_timeline ?new = vf_timeline s" "sd_printed_by ?new = stored_printed_by s"
    by (simp_all add: stored_data_def)
  have dist: "distinct (vf_instruments s)" using assms(2) by (simp add: intact_def)
  have total: "length (all_events ?new) = sd_total_observations sd"
  proof -
    have "length (all_events ?new) = sum_list (map (\<lambda>i. size_of (sd_quotes sd i)) (stored_ids sd))"
      using sum_over_served [OF assms(1,2)] by (simp add: length_all_events q fields)
    then show ?thesis
      using sum_list_nonzero [of "\<lambda>i. size_of (sd_quotes sd i)"] session_okD(8) [OF storableD(1) [OF assms(1)]]
      by (simp add: stored_ids_def length_all_events)
  qed
  have events: "all_events ?bare = all_events ?new" by (simp add: all_events_def)
  have bare: "session_ok ?bare"
    using served_columns [OF assms(1,2)] stored_printed_by_default [OF assms(1,2)] dist total
    unfolding session_ok_def events by (simp add: q fields assms(3))
  have times: "distinct_times ?new = distinct_times sd"
  proof (rule strict_sorted_equal)
    show "sorted_wrt (<) (distinct_times ?new)" using distinct_times_laws(1) [OF bare] by (simp add: distinct_times_def events)
    show "sorted_wrt (<) (distinct_times sd)" by (rule distinct_times_laws(1) [OF storableD(1) [OF assms(1)]])
    show "set (distinct_times ?new) = set (distinct_times sd)"
      using distinct_times_laws(2) [OF bare] distinct_times_laws(2) [OF storableD(1) [OF assms(1)]] served_times [OF assms(1,2)]
      by (simp add: distinct_times_def events q)
  qed
  show ?thesis
    using bare times unfolding session_ok_def events by (simp add: fields assms(4))
qed

lemma reopened_intact:
  assumes "storable sd" and "file_for sd w h bytes" and "disk_files d (vf_path s) = Some \<lparr>df_readable = True, df_bytes = bytes\<rparr>"
    and "reopened sd w reg0 (length (stored_ids sd)) reg s" and "vf_decoded s = []" and "vf_file s = None"
  shows "intact sd w d s"
proof -
  note R = assms(4) [unfolded reopened_def]
  have dist: "distinct (stored_ids sd)" using session_okD(4) [OF storableD(1) [OF assms(1)]] by (simp add: stored_ids_def)
  have "distinct (vf_instruments s)"
    unfolding distinct_conv_nth
  proof (intro allI impI)
    fix m n assume mn: "m < length (vf_instruments s)" "n < length (vf_instruments s)" "m \<noteq> n"
    have "same_as sd reg (stored_ids sd ! m) (vf_instruments s ! m)" "same_as sd reg (stored_ids sd ! n) (vf_instruments s ! n)"
      using R mn by simp_all
    then have "vf_instruments s ! m = vf_instruments s ! n \<Longrightarrow> stored_ids sd ! m = stored_ids sd ! n"
      using same_as_inj [OF storableD(2) [OF assms(1)]] R by metis
    then show "vf_instruments s ! m \<noteq> vf_instruments s ! n"
      using dist mn R by (metis nth_eq_iff_index_eq)
  qed
  then show ?thesis using R assms(2,3,5,6) unfolding intact_def by auto
qed

section \<open>The interface of a data source\<close>

text \<open>A store session is one of the sources of \<open>session_source\<close>: the state is what it is opened with.\<close>

definition store_ok :: "registry \<times> disk \<times> vfday_session \<Rightarrow> bool" where
  "store_ok = (\<lambda>(reg, d, s). \<exists>sd w. storable sd \<and> intact sd w d s \<and> vf_total_rows s = sd_total_observations sd \<and>
     vf_timeline s = distinct_times sd)"

interpretation store: session_source "\<lambda>(reg, d, s). stored_data reg d s" store_ok
  by unfold_locales (auto simp: store_ok_def stored_session_ok)

section \<open>Verification\<close>

lemma find_original_finds:
  assumes "\<forall>i \<in> set is. same_contract reg sp name i = Inr (i = target)" and "target \<in> set is"
  shows "find_original reg sp name is = Inr (Some target)"
  using assms by (induction "is") auto

lemma spec_valid: "spec reg i = Inr sp \<Longrightarrow> valid i \<and> 0 \<le> index_of i"
  by (auto simp: spec_def valid_def invalid_instrument_def split: if_splits)

text \<open>The search by identity finds the instrument that was stored.\<close>

lemma original_found:
  assumes "storable sd" and reg: "registry_ok reg" and n: "i \<in> set (sd_instruments sd)"
    and same: "same_as sd reg i x" and exact: "exactly_as sd reg i x"
  shows "\<exists>sp name. spec reg x = Inr sp \<and> underlying_name reg (underlying sp) = Inr name \<and>
    find_original (sd_registry sd) sp name (sd_instruments sd) = Inr (Some i)"
proof -
  obtain tp name sp where t: "listed_as sd i tp name" "spec reg x = Inr sp" "underlying_ids reg name = Some (underlying sp)"
    "kind sp = kind tp" "expiry sp = expiry tp" "strike sp = strike tp"
    using same unfolding same_as_def by blast
  have e: "right_of sp = right_of tp" "lot_size sp = lot_size tp"
    using exact t(1,2) by (auto simp: exactly_as_def listed_as_def)
  note src = storableD(2) [OF assms(1)]
  have "same_contract (sd_registry sd) sp name j = Inr (j = i)" if j: "j \<in> set (sd_instruments sd)" for j
  proof -
    obtain jp jname where l: "listed_as sd j jp jname" using storableD(5) [OF assms(1) j] by blast
    show ?thesis
    proof (cases "j = i")
      case True
      then show ?thesis using t e by (simp add: same_contract_def listed_as_def)
    next
      case False
      have "\<not> (kind jp = kind sp \<and> expiry jp = expiry sp \<and> strike jp = strike sp \<and> right_of jp = right_of sp \<and> jname = name)"
      proof
        assume a: "kind jp = kind sp \<and> expiry jp = expiry sp \<and> strike jp = strike sp \<and> right_of jp = right_of sp \<and> jname = name"
        then have "underlying jp = underlying tp"
          using l t(1) underlying_name_of_id [OF src] by (metis listed_as_def option.inject)
        then have "key_of jp = key_of tp" using a t e by (simp add: key_of_def)
        then show False using spec_by_key [OF src] l t(1) False by (metis listed_as_def option.inject)
      qed
      then show ?thesis using l False by (auto simp: same_contract_def listed_as_def)
    qed
  qed
  then have "find_original (sd_registry sd) sp name (sd_instruments sd) = Inr (Some i)"
    by (intro find_original_finds) (simp_all add: n)
  then show ?thesis using t underlying_name_of_id [OF reg] by blast
qed

lemma columns_equal_refl [simp]: "columns_equal c c"
  by (simp add: columns_equal_def list_all_iff)

lemma verify_loop:
  assumes "storable sd" and "registry_ok reg" and "list_all2 (\<lambda>x i. i \<in> set (sd_instruments sd) \<and>
      same_as sd reg i x \<and> exactly_as sd reg i x \<and> served sd s0 x = sd_quotes sd i) xs is"
    and "intact sd w d s" and "vf_instruments s = vf_instruments s0"
  shows "\<exists>s'. try_fold (verify_instrument sd path d reg) xs (s, k) = Inr (s', k + length xs)"
  using assms(3-5)
proof (induction xs "is" arbitrary: s k rule: list_all2_induct)
  case (Cons x xs i "is")
  note i = Cons.hyps(1)
  obtain sp name where o: "spec reg x = Inr sp" "underlying_name reg (underlying sp) = Inr name"
    "find_original (sd_registry sd) sp name (sd_instruments sd) = Inr (Some i)"
    using original_found [OF assms(1,2)] i by blast
  have v: "valid i" using i spec_valid by (auto simp: same_as_def listed_as_def)
  have "served sd s x = sd_quotes sd i" using i served_cong [OF Cons.prems(2)] by simp
  then obtain s1 where s1: "stored_quotes d x s = (s1, Inr (sd_quotes sd i))" "intact sd w d s1" "vf_instruments s1 = vf_instruments s"
    using intact_quotes [OF assms(1) Cons.prems(1), of x] by auto
  then have "verify_instrument sd path d reg x (s, k) = Inr (s1, k + 1)" by (simp add: verify_instrument_def o v)
  then show ?case using Cons.IH [OF s1(2), of "k + 1"] s1(3) Cons.prems(2) by simp
qed simp

lemma verify_succeeds:
  assumes "storable sd" and "file_for sd w h bytes"
  shows "verify_file sd path (store_file path bytes d) (length (wr_directory w)) = Inr ()"
proof -
  let ?d = "store_file path bytes d"
  have room: "room_left (length (stored_ids sd)) empty_registry"
  proof -
    have "length (stored_ids sd) < 2 ^ 31"
      using file_for_parts(1,2) [OF assms] by (simp add: writer_ok_def fits_def)
    then show ?thesis by (simp add: room_left_def empty_registry_def)
  qed
  obtain reg s where o: "vfday_open path ?d empty_registry = (reg, Inr s)" "reopened sd w empty_registry (length (stored_ids sd)) reg s"
    "vf_path s = path" "vf_date s = sd_date sd" "vf_total_rows s = sd_total_observations sd"
    "vf_timeline s = distinct_times sd" "vf_decoded s = []" "vf_file s = None"
    using open_stored [OF assms _ registry_ok_empty room, of ?d path] by auto
  have i: "intact sd w ?d s" using reopened_intact [OF assms(1,2) _ o(2,7,8)] by (simp add: o(3))
  note R = o(2) [unfolded reopened_def] and I = i [unfolded intact_def]
  have reg: "registry_ok reg" using R by blast
  have "list_all2 (\<lambda>x i. i \<in> set (sd_instruments sd) \<and> same_as sd reg i x \<and> exactly_as sd reg i x \<and> served sd s x = sd_quotes sd i)
      (vf_instruments s) (stored_ids sd)"
    unfolding list_all2_conv_all_nth
  proof (intro conjI allI impI)
    fix n assume "n < length (vf_instruments s)"
    then have n: "n < length (stored_ids sd)" using I by simp
    show "stored_ids sd ! n \<in> set (sd_instruments sd)" using nth_mem [OF n] by (simp add: stored_ids_def)
    show same: "same_as sd reg (stored_ids sd ! n) (vf_instruments s ! n)" using R n by blast
    then have "0 \<le> index_of (vf_instruments s ! n)" using spec_valid by (auto simp: same_as_def)
    then show "exactly_as sd reg (stored_ids sd ! n) (vf_instruments s ! n)"
      using R n by (simp add: empty_registry_def)
    show "served sd s (vf_instruments s ! n) = sd_quotes sd (stored_ids sd ! n)" using served_nth I n by blast
  qed (use I in simp)
  from verify_loop [OF assms(1) reg this i refl, of path 0] obtain s' where
    loop: "try_fold (verify_instrument sd path ?d reg) (vf_instruments s) (s, 0) = Inr (s', length (vf_instruments s))" by auto
  have times: "sd_timeline sd \<noteq> [] \<Longrightarrow> vf_timeline s = sd_timeline sd"
    using session_okD(6) [OF storableD(1) [OF assms(1)]] o(6) by simp
  have count: "length (vf_instruments s) = length (wr_directory w)"
    using I file_for_parts(1) [OF assms] by (simp add: writer_ok_def)
  show ?thesis
    unfolding verify_file_def o(1) using o(4,5) times count loop by (auto simp: o(4,5))
qed

section \<open>Properties\<close>

lemma write_storable:
  assumes "storable sd"
  shows "\<exists>w h bytes. file_for sd w h bytes \<and> (\<forall>verify. write_vfday sd path verify d =
    (if \<not> can_create d path then Inl (Fail path CannotOpenForWriting)
     else if \<not> has_room d path (length bytes) then Inl (Fail path WriteFailed)
     else Inr (store_file path bytes d, stats_of h w (stored_timeline sd))))"
proof -
  have "\<forall>i \<in> set (sd_instruments sd). size_of (sd_quotes sd i) \<noteq> 0 \<longrightarrow> (\<exists>sp name. listed_as sd i sp name)"
    using storableD(5) [OF assms] by blast
  from writer_loop_total [OF this, of new_writer] obtain w where
    w: "try_fold (write_instrument sd) (sd_instruments sd) new_writer = Inr w" by blast
  obtain h bytes where "file_layout sd w (stored_timeline sd) = (h, bytes)" by (cases "file_layout sd w (stored_timeline sd)")
  with w have f: "file_for sd w h bytes" by (simp add: file_for_def)
  have "write_vfday sd path verify d =
    (if \<not> can_create d path then Inl (Fail path CannotOpenForWriting)
     else if \<not> has_room d path (length bytes) then Inl (Fail path WriteFailed)
     else Inr (store_file path bytes d, stats_of h w (stored_timeline sd)))" for verify
    using f verify_succeeds [OF assms f] by (simp add: write_vfday_def file_for_def Let_def)
  then show ?thesis using f by blast
qed

text \<open>What the registry says of a stored contract, in full.\<close>

lemma reopened_description:
  assumes "reopened sd w reg (length (stored_ids sd)) reg' s" and "n < length (stored_ids sd)"
  shows "case spec reg (vf_instruments s ! n) of Inr known \<Rightarrow> spec reg' (vf_instruments s ! n) = Inr known
    | Inl _ \<Rightarrow> exactly_as sd reg' (stored_ids sd ! n) (vf_instruments s ! n)"
proof (cases "spec reg (vf_instruments s ! n)")
  case (Inl e)
  have "same_as sd reg' (stored_ids sd ! n) (vf_instruments s ! n)" using assms by (simp add: reopened_def)
  then have "0 \<le> index_of (vf_instruments s ! n)" using spec_valid by (auto simp: same_as_def)
  then have "int (length (specs reg)) \<le> index_of (vf_instruments s ! n)" using Inl by (simp add: spec_def split: if_splits)
  then show ?thesis using Inl assms by (simp add: reopened_def)
next
  case (Inr known)
  moreover have "grown reg reg'" using assms(1) by (simp add: reopened_def)
  ultimately show ?thesis using spec_prefix by (auto simp: grown_def)
qed

text \<open>C32: the day store is lossless.  A session that can be stored (it is well-formed, its registry lists
  its instruments, its numbers have their widths and the file stays below 2 GiB) is written, verified or
  not, to the same file, and the verification never objects; the write fails only where the disk does.
  Opening the file against any registry with room succeeds and gives a session that meets the contract of
  a data source, with the date, the row count and the timeline of the one written, whose instruments are,
  one by one, the same contracts in that registry and serve, through the cache, exactly the columns
  stored.  A contract the registry did not know, so any contract when it was empty, is registered with
  the lot size and tick size stored; one it already knew keeps the description it had, whatever lot size
  and tick size the file has.\<close>

theorem day_store_round_trip:
  assumes "storable sd" and "registry_ok reg" and "room_left (length (sd_instruments sd)) reg"
  shows "write_vfday sd path True d = write_vfday sd path False d \<and>
    (\<forall>e. write_vfday sd path True d = Inl e \<longrightarrow> e = Fail path CannotOpenForWriting \<or> e = Fail path WriteFailed) \<and>
    (\<forall>d' stats. write_vfday sd path True d = Inr (d', stats) \<longrightarrow>
      st_instruments stats = length (stored_ids sd) \<and> st_rows stats = sd_total_observations sd \<and>
      st_timestamps stats = length (distinct_times sd) \<and>
      (\<exists>reg' s. vfday_open path d' reg = (reg', Inr s) \<and> registry_ok reg' \<and> grown reg reg' \<and>
         session_ok (stored_data reg' d' s) \<and> vf_date s = sd_date sd \<and>
         vf_total_rows s = sd_total_observations sd \<and> vf_timeline s = distinct_times sd \<and>
         length (vf_instruments s) = length (stored_ids sd) \<and>
         (\<forall>n < length (stored_ids sd). same_as sd reg' (stored_ids sd ! n) (vf_instruments s ! n) \<and>
            (case spec reg (vf_instruments s ! n) of
               Inr known \<Rightarrow> spec reg' (vf_instruments s ! n) = Inr known
             | Inl _ \<Rightarrow> (\<exists>sp sp'. spec (sd_registry sd) (stored_ids sd ! n) = Inr sp \<and>
                 spec reg' (vf_instruments s ! n) = Inr sp' \<and> right_of sp' = right_of sp \<and>
                 lot_size sp' = lot_size sp \<and> tick_size sp' = tick_size sp)) \<and>
            sd_quotes (stored_data reg' d' s) (vf_instruments s ! n) = sd_quotes sd (stored_ids sd ! n))))"
proof -
  obtain w h bytes where f: "file_for sd w h bytes" and wr: "\<And>verify. write_vfday sd path verify d =
    (if \<not> can_create d path then Inl (Fail path CannotOpenForWriting)
     else if \<not> has_room d path (length bytes) then Inl (Fail path WriteFailed)
     else Inr (store_file path bytes d, stats_of h w (stored_timeline sd)))"
    using write_storable [OF assms(1), of path d] by blast
  have "length (stored_ids sd) \<le> length (sd_instruments sd)" unfolding stored_ids_def by (rule length_filter_le)
  then have room: "room_left (length (stored_ids sd)) reg"
    using assms(3) unfolding room_left_def by linarith
  have stats: "st_instruments (stats_of h w (stored_timeline sd)) = length (stored_ids sd) \<and>
      st_rows (stats_of h w (stored_timeline sd)) = sd_total_observations sd \<and>
      st_timestamps (stats_of h w (stored_timeline sd)) = length (distinct_times sd)"
    using file_for_parts(1,4) [OF assms(1) f] storableD(6) [OF assms(1)]
    by (simp add: stats_of_def Let_def laid_out_def writer_ok_def to_size_def stored_timeline_distinct [OF storableD(1) [OF assms(1)]])
  let ?d = "store_file path bytes d"
  obtain reg' s where o: "vfday_open path ?d reg = (reg', Inr s)" "reopened sd w reg (length (stored_ids sd)) reg' s"
    "vf_path s = path" "vf_date s = sd_date sd" "vf_total_rows s = sd_total_observations sd"
    "vf_timeline s = distinct_times sd" "vf_decoded s = []" "vf_file s = None"
    using open_stored [OF assms(1) f _ assms(2) room, of ?d path] by auto
  have i: "intact sd w ?d s" using reopened_intact [OF assms(1) f _ o(2,7,8)] by (simp add: o(3))
  have ok: "session_ok (stored_data reg' ?d s)" by (rule stored_session_ok [OF assms(1) i o(5,6)])
  have q: "\<forall>n < length (stored_ids sd). sd_quotes (stored_data reg' ?d s) (vf_instruments s ! n) = sd_quotes sd (stored_ids sd ! n)"
    using stored_data_quotes [OF assms(1) i] served_nth i by (simp add: intact_def)
  have "registry_ok reg'" "grown reg reg'" "length (vf_instruments s) = length (stored_ids sd)"
    "\<forall>n < length (stored_ids sd). same_as sd reg' (stored_ids sd ! n) (vf_instruments s ! n)"
    using o(2) by (simp_all add: reopened_def)
  moreover have "case spec reg (vf_instruments s ! n) of Inr known \<Rightarrow> spec reg' (vf_instruments s ! n) = Inr known
      | Inl _ \<Rightarrow> exactly_as sd reg' (stored_ids sd ! n) (vf_instruments s ! n)" if "n < length (stored_ids sd)" for n
    using reopened_description [OF o(2) that] .
  ultimately show ?thesis using o(1,3-6) ok q stats unfolding exactly_as_def by (simp add: wr)
qed

text \<open>A session of one quote.\<close>

definition one_quote :: quote_columns where
  "one_quote = \<lparr>c_ts = [Timestamp 1000], c_last = [Price 255100], c_bid = [Price 253985], c_ask = [Price 260355],
     c_bid_qty = [75], c_ask_qty = [975], c_last_qty = [150], c_open_interest = [34575]\<rparr>"

definition sample_registry :: registry where
  "sample_registry = snd (add (nifty_call 2500000 Call) (snd (intern_underlying ''NIFTY'' empty_registry)))"

definition sample_store :: session_data where
  "sample_store = memory_data \<lparr>ms_date = Date 20250701, ms_registry = sample_registry, ms_series = [(0, one_quote)],
     ms_instruments = [InstrumentId 0], ms_order = [], ms_timeline = [Timestamp 1000], ms_total = 1\<rparr>"

definition empty_disk :: disk where
  "empty_disk = \<lparr>disk_files = Map.empty, can_create = (\<lambda>_. True), has_room = (\<lambda>_ _. True)\<rparr>"

lemma sample_quotes: "sd_quotes sample_store i = (if i = InstrumentId 0 then one_quote else empty_columns)"
  by (cases i) (simp add: sample_store_def memory_data_def ms_quotes_def)

lemma sample_registry_ok: "registry_ok sample_registry"
proof -
  obtain u r1 where u: "intern_underlying ''NIFTY'' empty_registry = (u, r1)" by (cases "intern_underlying ''NIFTY'' empty_registry")
  obtain i r2 where a: "add (nifty_call 2500000 Call) r1 = (i, r2)" by (cases "add (nifty_call 2500000 Call) r1")
  have "registry_ok r1" using intern_underlying_ok [OF registry_ok_empty _ u] by (simp add: empty_registry_def)
  moreover have "length (specs r1) < 2 ^ 31" using u by (auto simp: intern_underlying_def empty_registry_def Let_def)
  ultimately show ?thesis using add_registry_ok [OF _ _ a] by (simp add: sample_registry_def u a)
qed

lemma sample_listed: "\<exists>sp. listed_as sample_store (InstrumentId 0) sp ''NIFTY'' \<and> spec_in_range sp"
proof -
  have "specs sample_registry = [(nifty_call 2500000 Call)\<lparr>spec_id := InstrumentId 0\<rparr>]" "underlyings sample_registry = [''NIFTY'']"
    by (simp_all add: sample_registry_def add_def intern_underlying_def empty_registry_def Let_def to_i32_def)
  then have "spec sample_registry (InstrumentId 0) = Inr ((nifty_call 2500000 Call)\<lparr>spec_id := InstrumentId 0\<rparr>)"
    "underlying_name sample_registry (UnderlyingId 0) = Inr ''NIFTY''"
    by (simp_all add: spec_def underlying_name_def)
  then show ?thesis
    by (simp add: listed_as_def sample_store_def memory_data_def nifty_call_def spec_in_range_def)
qed

lemma sample_storable: "storable sample_store"
proof -
  have ok: "session_ok sample_store"
    unfolding sample_store_def
    by (rule memory_session_ok)
      (simp add: memory_ok_def om_ok_def columns_ok_def size_of_def one_quote_def series_events_def)
  obtain sp where sp: "listed_as sample_store (InstrumentId 0) sp ''NIFTY''" "spec_in_range sp" using sample_listed by blast
  have fields: "sd_instruments sample_store = [InstrumentId 0]" "sd_registry sample_store = sample_registry"
    "sd_date sample_store = Date 20250701" "sd_total_observations sample_store = 1" "stored_timeline sample_store = [1000]"
    by (simp_all add: sample_store_def memory_data_def stored_timeline_def)
  have "storable_columns (sd_quotes sample_store i)" for i
    by (simp add: sample_quotes storable_columns_def columns_ok_def size_of_def one_quote_def empty_columns_def)
  moreover have "name_length sample_store (InstrumentId 0) = 5" using sp(1) by (simp add: name_length_def listed_as_def)
  moreover have "length (column_data one_quote) < 1000" by code_simp
  ultimately show ?thesis
    using ok sample_registry_ok sp
    by (auto simp: storable_def fields store_size_def instrument_size_def sample_quotes
        table_entry_size_def directory_entry_size_def header_size_def)
qed

theorem day_store_round_trip_witness:
  "\<exists>d' stats reg' s. write_vfday sample_store ''day.vfday'' True empty_disk = Inr (d', stats) \<and> st_rows stats = 1 \<and>
     vfday_open ''day.vfday'' d' empty_registry = (reg', Inr s) \<and> session_ok (stored_data reg' d' s) \<and>
     length (vf_instruments s) = 1 \<and> sd_quotes (stored_data reg' d' s) (vf_instruments s ! 0) = one_quote"
proof -
  obtain d' stats where w: "write_vfday sample_store ''day.vfday'' True empty_disk = Inr (d', stats)"
    using write_storable [OF sample_storable, of "''day.vfday''" empty_disk] by (auto simp: empty_disk_def)
  have room: "room_left (length (sd_instruments sample_store)) empty_registry"
    by (simp add: room_left_def sample_store_def memory_data_def empty_registry_def)
  have ids: "stored_ids sample_store = [InstrumentId 0]" "sd_total_observations sample_store = 1"
    by (simp_all add: stored_ids_def sample_quotes sample_store_def memory_data_def) (simp add: one_quote_def size_of_def ms_quotes_def)
  note t = day_store_round_trip [OF sample_storable registry_ok_empty room, of "''day.vfday''" empty_disk]
  from conjunct2 [OF conjunct2 [OF t]] w obtain reg' s where
    "st_rows stats = 1" "vfday_open ''day.vfday'' d' empty_registry = (reg', Inr s)" "session_ok (stored_data reg' d' s)"
    "length (vf_instruments s) = 1" "sd_quotes (stored_data reg' d' s) (vf_instruments s ! 0) = one_quote"
    by (auto simp: ids sample_quotes)
  with w show ?thesis by blast
qed

end
