(* ===== verification/VfdayDamage.thy ===== *)
theory VfdayDamage
  imports VfdayRoundTrip
begin

text \<open>
  A stored file with one byte changed: what the checksums catch, and where.
\<close>

section \<open>One byte\<close>

lemma checksum_update:
  assumes "q < length part" and "b \<noteq> part ! q"
  shows "checksum (part[q := b]) \<noteq> checksum part"
proof -
  have "crc32 (take q part @ [b] @ drop (Suc q) part) 0 \<noteq> crc32 (take q part @ [part ! q] @ drop (Suc q) part) 0"
    using assms(2) by (intro burst_changes_crc) simp_all
  moreover have "part[q := b] = take q part @ [b] @ drop (Suc q) part" using assms(1) by (simp add: upd_conv_take_nth_drop)
  moreover have "part = take q part @ [part ! q] @ drop (Suc q) part" using assms(1) by (simp add: id_take_nth_drop)
  ultimately show ?thesis by (metis checksum_def word_uint_eq_iff)
qed

lemma slice_update:
  "slice off n (xs[p := b]) = (if off \<le> p \<and> p < off + n then (slice off n xs)[p - off := b] else slice off n xs)"
  by (auto simp: slice_def drop_update_swap drop_update_cancel take_update_swap not_le not_less)
    (simp add: list_update_beyond)

lemma low_digit:
  fixes a b c d :: int
  assumes "0 \<le> a" and "a < 256" and "0 \<le> b" and "b < 256" and "a + 256 * c = b + 256 * d"
  shows "a = b \<and> c = d"
proof -
  have "(a + 256 * c) mod 256 = a" "(b + 256 * d) mod 256 = b" using assms(1-4) by simp_all
  then show ?thesis using assms(5) by auto
qed

lemma unle_inj: "length xs = length ys \<Longrightarrow> unle xs = unle ys \<Longrightarrow> xs = ys"
proof (induction xs ys rule: list_induct2)
  case (Cons x xs y ys)
  have "uint x < 256" "uint y < 256" using uint_bounded [of x] uint_bounded [of y] by simp_all
  then have "uint x = uint y \<and> unle xs = unle ys" using Cons.prems by (intro low_digit) simp_all
  then show ?case using Cons.IH by (simp add: word_uint_eq_iff)
qed simp

section \<open>The header\<close>

lemma header_damage:
  assumes "header_ok h" and "laid_out sd w tms h" and "bytes = put_header h @ parts w tms"
    and "p < 108" and "b \<noteq> bytes ! p"
  shows "header_problem (bytes[p := b]) \<noteq> None"
proof -
  let ?bytes = "bytes[p := b]"
  have hl: "length (put_header h) = header_size" by (rule header_layout.length_put [OF assms(1)])
  have len: "108 < length bytes" using hl by (simp add: assms(3) header_size_def)
  have get: "get_header bytes = h" and none: "header_problem bytes = None"
    using header_accepted [OF assms(1-3)] by simp_all
  then have crc: "checksum (take 104 bytes) = u32_at 104 bytes"
    by (auto simp: header_problem_def Let_def get_header_def split: if_splits)
  have "checksum (take 104 ?bytes) \<noteq> u32_at 104 ?bytes"
  proof (cases "p < 104")
    case True
    have "checksum (take 104 ?bytes) \<noteq> checksum (take 104 bytes)"
      using checksum_update [of p "take 104 bytes" b] True len assms(5) by (simp add: take_update_swap)
    moreover have "u32_at 104 ?bytes = u32_at 104 bytes" using True by (simp add: u32_at_def drop_update_cancel)
    ultimately show ?thesis using crc by simp
  next
    case False
    let ?f = "take 4 (drop 104 bytes)"
    have f: "take 4 (drop 104 ?bytes) = ?f[p - 104 := b]" using False by (simp add: drop_update_swap take_update_swap)
    have "?f[p - 104 := b] ! (p - 104) \<noteq> ?f ! (p - 104)" using False assms(4,5) len by simp
    then have "?f[p - 104 := b] \<noteq> ?f" by metis
    then have "u32_at 104 ?bytes \<noteq> u32_at 104 bytes"
      using unle_inj [of "?f[p - 104 := b]" ?f] by (auto simp: u32_at_def f)
    moreover have "take 104 ?bytes = take 104 bytes" using False by (simp add: take_update_cancel)
    ultimately show ?thesis using crc by simp
  qed
  then show ?thesis by (simp add: header_problem_def Let_def get_header_def)
qed

section \<open>The regions\<close>

lemma read_checked_Inr:
  "read_checked what bad r n bytes = Inr raw \<Longrightarrow> raw = slice (nat (rg_offset r)) n bytes \<and> checksum raw = rg_crc r"
  by (auto simp: read_checked_def read_exact_def slice_def split: if_splits sum.splits)

lemma region_damage:
  assumes "length pre = off" and "length part = k" and "bytes = pre @ part @ post"
    and "off \<le> p" and "p < off + k" and "b \<noteq> bytes ! p"
  shows "read_checked what bad (region_for off n part) k (bytes[p := b]) \<noteq> Inr raw"
proof
  assume "read_checked what bad (region_for off n part) k (bytes[p := b]) = Inr raw"
  then have r: "raw = slice off k (bytes[p := b])" "checksum raw = checksum part"
    using read_checked_Inr by (force simp: region_for_def)+
  have "slice off k bytes = part" using assms(1,2) by (auto simp: assms(3) slice_def)
  then have "raw = part[p - off := b]" using r(1) assms(4,5) by (simp add: slice_update)
  moreover have "p - off < length part" using assms(2,4,5) by simp
  then have "bytes ! p = part ! (p - off)" using assms(1,4) by (simp add: assms(3) nth_append)
  ultimately show False
    using checksum_update [of "p - off" part b] assms(2,4-6) r(2) by auto
qed

lemma read_regions_Inr:
  assumes "read_regions h bytes = Inr raw"
  shows "\<exists>raw. read_checked ''table'' TableChecksum (h_table h) (nat (rg_size (h_table h))) bytes = Inr raw"
    and "\<exists>raw. read_checked ''strings'' StringsChecksum (h_strings h) (nat (rg_size (h_strings h))) bytes = Inr raw"
    and "\<exists>raw. read_checked ''directory'' DirectoryChecksum (h_directory h) (nat (rg_size (h_directory h))) bytes = Inr raw"
    and "\<exists>raw. read_checked ''timeline'' TimelineChecksum (h_timeline h) (nat (rg_size (h_timeline h)) * 8) bytes = Inr raw"
  using assms by (auto simp: read_regions_def split: sum.splits if_splits)

lemma regions_damage:
  assumes "header_ok h" and "laid_out sd w tms h" and "bytes = put_header h @ parts w tms"
    and "header_size + length (wr_blob w) \<le> p" and "p < length bytes" and "b \<noteq> bytes ! p"
  shows "read_regions h (bytes[p := b]) \<noteq> Inr raw"
proof
  assume r: "read_regions h (bytes[p := b]) = Inr raw"
  note H = assms(2) [unfolded laid_out_def Let_def]
  have hl: "length (put_header h) = header_size" by (rule header_layout.length_put [OF assms(1)])
  let ?a = "put_header h @ wr_blob w" let ?b = "?a @ table_part w" let ?c = "?b @ wr_strings w" let ?d = "?c @ times_part tms"
  have bytes: "bytes = ?a @ table_part w @ (wr_strings w @ times_part tms @ directory_part w)"
    "bytes = ?b @ wr_strings w @ (times_part tms @ directory_part w)" "bytes = ?c @ times_part tms @ directory_part w"
    "bytes = ?d @ directory_part w @ []"
    by (simp_all add: assms(3) parts_def)
  have sizes: "nat (rg_size (h_table h)) = length (table_part w)" "nat (rg_size (h_strings h)) = length (wr_strings w)"
    "nat (rg_size (h_directory h)) = length (directory_part w)" "nat (rg_size (h_timeline h)) * 8 = length (times_part tms)"
    using H by (simp_all add: region_for_def)
  note reads = read_regions_Inr [OF r, unfolded sizes]
  have "\<not> p < length ?b"
  proof
    assume "p < length ?b"
    then show False
      using region_damage [OF _ refl bytes(1), of "header_size + length (wr_blob w)" p b] assms(4,6) reads(1) H
      by (auto simp: hl)
  qed
  moreover have "\<not> (length ?b \<le> p \<and> p < length ?c)"
  proof
    assume "length ?b \<le> p \<and> p < length ?c"
    then show False
      using region_damage [OF _ refl bytes(2), of "header_size + length (wr_blob w) + length (table_part w)" p b] assms(6) reads(2) H
      by (auto simp: hl)
  qed
  moreover have "\<not> (length ?c \<le> p \<and> p < length ?d)"
  proof
    assume "length ?c \<le> p \<and> p < length ?d"
    then show False
      using region_damage [OF _ refl bytes(3), of "header_size + length (wr_blob w) + length (table_part w) + length (wr_strings w)" p b]
        assms(6) reads(4) H
      by (auto simp: hl)
  qed
  moreover have "\<not> (length ?d \<le> p \<and> p < length bytes)"
  proof
    assume "length ?d \<le> p \<and> p < length bytes"
    then show False
      using region_damage [OF _ refl bytes(4), of "header_size + length (wr_blob w) + length (table_part w) + length (wr_strings w) + length (times_part tms)" p b]
        assms(6) reads(3) H bytes(4)
      by (auto simp: hl)
  qed
  ultimately show False using assms(5) by linarith
qed

section \<open>The blocks\<close>

text \<open>What an instrument gets from a file with the byte at \<open>p\<close> changed: its columns or a refusal.\<close>

lemma materialise_damaged:
  assumes "storable sd" and "intact sd w d s" and "file_for sd w h bytes"
    and "disk_files d (vf_path s) = Some \<lparr>df_readable = True, df_bytes = bytes\<rparr>"
    and "disk_files d2 (vf_path s) = Some \<lparr>df_readable = True, df_bytes = bytes[p := b]\<rparr>" and "vf_decoded s = []"
    and "p < length bytes" and "b \<noteq> bytes ! p" and n: "n < length (stored_ids sd)"
  shows "snd (stored_quotes d2 (vf_instruments s ! n) s) =
    (if nat (dx_blob_offset (wr_directory w ! n)) \<le> p \<and>
        p < nat (dx_blob_offset (wr_directory w ! n)) + nat (dx_blob_bytes (wr_directory w ! n))
     then Inl (Fail (vf_path s) BlobChecksum) else Inr (sd_quotes sd (stored_ids sd ! n)))"
proof -
  let ?e = "wr_directory w ! n" and ?c = "sd_quotes sd (stored_ids sd ! n)" and ?x = "vf_instruments s ! n"
  let ?off = "nat (dx_blob_offset ?e)" and ?len = "nat (dx_blob_bytes ?e)"
  note I = assms(2) [unfolded intact_def]
  note block = block_in_file [OF assms(1,3) n]
  have e: "map_of (vf_entries s) (index_of ?x) = Some (entry_of ?e)" using I n by blast
  have good: "(case vf_file s of None \<Rightarrow> True | Some g \<Rightarrow> g) = True" using I by (auto split: option.split)
  have raw: "read_block d2 s (entry_of ?e) = (s\<lparr>vf_file := Some True\<rparr>, Inr (slice ?off ?len (bytes[p := b])))"
    using block(2) good by (simp add: read_block_def assms(5) entry_of_def slice_def Let_def)
  show ?thesis
  proof (cases "?off \<le> p \<and> p < ?off + ?len")
    case True
    have len: "length (column_data ?c) = ?len" using block(2,3) by (metis length_slice)
    have q: "p - ?off < ?len" using True by linarith
    then have "column_data ?c ! (p - ?off) = bytes ! p" using True block(2) by (simp add: block(3) [symmetric] slice_def)
    moreover have "p - ?off < length (column_data ?c)" using q len by simp
    ultimately have "checksum ((column_data ?c)[p - ?off := b]) \<noteq> checksum (column_data ?c)"
      using checksum_update assms(8) by metis
    moreover have "en_blob_crc (entry_of ?e) = checksum (column_data ?c)" using block(1) by (simp add: filed_def describes_def)
    ultimately have "decode_entry (entry_of ?e) (slice ?off ?len (bytes[p := b])) = Inl BlobChecksum"
      using True by (simp add: slice_update block(3) decode_entry_def)
    then show ?thesis using True by (simp add: stored_quotes_def materialise_def assms(6) e raw)
  next
    case False
    then have same: "slice ?off ?len (bytes[p := b]) = column_data ?c" by (simp only: slice_update if_False block(3))
    have "decode_entry (entry_of ?e) (column_data ?c) = Inr ?c"
      using block(1) storableD(4) [OF assms(1)] by (intro decode_entry_data) (simp_all add: filed_def)
    then have "snd (stored_quotes d2 ?x s) = Inr ?c"
      using stored_columns_nonempty [OF assms(1) n] by (simp add: stored_quotes_def materialise_def assms(6) e raw same)
    then show ?thesis using False by (simp only: if_False)
  qed
qed

lemma payload_untouched:
  assumes "header_ok h" and "laid_out sd w tms h" and "bytes = put_header h @ parts w tms"
    and "header_size \<le> p" and "p < header_size + length (wr_blob w)"
  shows "open_bytes path (bytes[p := b]) reg = open_bytes path bytes reg"
proof -
  have hl: "length (put_header h) = header_size" by (rule header_layout.length_put [OF assms(1)])
  have b': "bytes[p := b] = put_header h @ (parts w tms)[p - header_size := b]"
    using assms(4) hl by (simp add: assms(3) list_update_append)
  have get: "get_header (bytes[p := b]) = h" "get_header bytes = h"
    using header_layout.get_put [OF assms(1)] by (simp add: b', simp add: assms(3))
  have "take 104 (bytes[p := b]) = take 104 bytes" using assms(4) by (simp add: header_size_def take_update_cancel)
  then have "header_problem (bytes[p := b]) = header_problem bytes" unfolding header_problem_def get by simp
  moreover have later: "read_checked what bad r n (bytes[p := b]) = read_checked what bad r n bytes"
    if "int (header_size + length (wr_blob w)) \<le> rg_offset r" for what bad r n
  proof -
    have "p < nat (rg_offset r)" using that assms(5) by linarith
    then show ?thesis by (simp add: read_checked_def read_exact_def drop_update_cancel)
  qed
  have "int (header_size + length (wr_blob w)) \<le> rg_offset (h_table h)" "int (header_size + length (wr_blob w)) \<le> rg_offset (h_strings h)"
    "int (header_size + length (wr_blob w)) \<le> rg_offset (h_directory h)" "int (header_size + length (wr_blob w)) \<le> rg_offset (h_timeline h)"
    using assms(2) by (simp_all add: laid_out_def Let_def region_for_def)
  then have "read_regions h (bytes[p := b]) = read_regions h bytes"
    unfolding read_regions_def by (simp only: later)
  ultimately show ?thesis by (simp only: open_bytes_def get Let_def)
qed

section \<open>Properties\<close>

text \<open>C33: a damaged file is never taken for good.  If one byte of a written file is changed, anywhere but in
  the four reserved bytes of the header that nothing reads, then either the file is refused when it is
  opened, or the damage lies in the block of some instrument and asking for its quotes fails with a
  checksum mismatch; and no instrument is ever served anything but the columns that were stored.\<close>

theorem damaged_files_are_refused:
  assumes "storable sd" and "write_vfday sd path verify d = Inr (d1, stats)" and "disk_files d1 path = Some f"
    and "p < length (df_bytes f)" and "p < 108 \<or> 112 \<le> p" and "b \<noteq> df_bytes f ! p"
    and "registry_ok reg" and "room_left (length (sd_instruments sd)) reg"
  shows "case vfday_open path (store_file path ((df_bytes f)[p := b]) d1) reg of
      (_, Inl e) \<Rightarrow> \<exists>why. e = Fail path why
    | (_, Inr s) \<Rightarrow> length (vf_instruments s) = length (stored_ids sd) \<and>
        (\<exists>n < length (stored_ids sd). snd (stored_quotes (store_file path ((df_bytes f)[p := b]) d1) (vf_instruments s ! n) s) =
           Inl (Fail path BlobChecksum)) \<and>
        (\<forall>n < length (stored_ids sd). \<forall>c.
           snd (stored_quotes (store_file path ((df_bytes f)[p := b]) d1) (vf_instruments s ! n) s) = Inr c \<longrightarrow>
           c = sd_quotes sd (stored_ids sd ! n))"
proof -
  obtain w h bytes where wf: "file_for sd w h bytes" "d1 = store_file path bytes d"
    using write_storable [OF assms(1), of path d] assms(2) by (auto split: if_splits)
  have f: "df_bytes f = bytes" using assms(3) wf(2) by auto
  let ?d2 = "store_file path (bytes[p := b]) d1"
  note P = file_for_parts [OF assms(1) wf(1)]
  have opened: "vfday_open path ?d2 reg = (case open_bytes path (bytes[p := b]) reg of
      (r, Inl e) \<Rightarrow> (r, Inl (Fail path e)) | (r, Inr s) \<Rightarrow> (r, Inr s))"
    by (simp add: vfday_open_def)
  have refused: ?thesis if "open_bytes path (bytes[p := b]) reg = (r, Inl e)" for r e
    using that by (simp add: f opened)
  consider (header) "p < 108" | (blob) "header_size \<le> p" "p < header_size + length (wr_blob w)"
    | (region) "header_size + length (wr_blob w) \<le> p"
    using assms(5) by (fastforce simp: header_size_def)
  then show ?thesis
  proof cases
    case header
    then obtain e where "header_problem (bytes[p := b]) = Some e"
      using header_damage [OF P(5,4,3) header] assms(6) f by auto
    then show ?thesis using refused by (simp add: open_bytes_def)
  next
    case region
    then obtain e where "read_regions h (bytes[p := b]) = Inl e"
      using regions_damage [OF P(5,4,3) region] assms(4,6) f by (metis sum.exhaust)
    moreover have "get_header (bytes[p := b]) = h"
    proof -
      have "header_size \<le> p" using region by simp
      then have "bytes[p := b] = put_header h @ (parts w (stored_timeline sd))[p - header_size := b]"
        using header_layout.length_put [OF P(5)] by (simp add: P(3) list_update_append)
      then show ?thesis using header_layout.get_put [OF P(5)] by simp
    qed
    ultimately obtain e where "open_bytes path (bytes[p := b]) reg = (reg, Inl e)"
      by (cases "header_problem (bytes[p := b])") (simp_all add: open_bytes_def)
    then show ?thesis by (rule refused)
  next
    case blob
    have "length (stored_ids sd) \<le> length (sd_instruments sd)" unfolding stored_ids_def by (rule length_filter_le)
    then have room: "room_left (length (stored_ids sd)) reg" using assms(8) unfolding room_left_def by linarith
    have on_disk: "disk_files d1 path = Some \<lparr>df_readable = True, df_bytes = bytes\<rparr>" by (simp add: wf(2))
    obtain reg' s where o: "vfday_open path d1 reg = (reg', Inr s)" "reopened sd w reg (length (stored_ids sd)) reg' s"
      "vf_path s = path" "vf_decoded s = []" "vf_file s = None"
      using open_stored [OF assms(1) wf(1) on_disk assms(7) room] by blast
    have i: "intact sd w d1 s" using reopened_intact [OF assms(1) wf(1) _ o(2,4,5)] on_disk by (simp add: o(3))
    have same: "vfday_open path ?d2 reg = (reg', Inr s)"
      using o(1) payload_untouched [OF P(5,4,3) blob] by (simp add: opened vfday_open_def on_disk)
    have len: "length (vf_instruments s) = length (stored_ids sd)" using i by (simp add: intact_def)
    have quotes: "snd (stored_quotes ?d2 (vf_instruments s ! n) s) =
        (if nat (dx_blob_offset (wr_directory w ! n)) \<le> p \<and>
            p < nat (dx_blob_offset (wr_directory w ! n)) + nat (dx_blob_bytes (wr_directory w ! n))
         then Inl (Fail path BlobChecksum) else Inr (sd_quotes sd (stored_ids sd ! n)))"
      if "n < length (stored_ids sd)" for n
      using materialise_damaged [OF assms(1) i wf(1) _ _ o(4) _ _ that, of ?d2 p b] assms(4,6) f on_disk by (simp add: o(3))
    have "p - header_size < length (wr_blob w)" using blob by linarith
    then obtain n where n: "n < length (stored_ids sd)" "covers (wr_directory w ! n) (p - header_size)"
      using P(1) unfolding writer_ok_def by blast
    then have "nat (dx_blob_offset (wr_directory w ! n)) \<le> p \<and>
        p < nat (dx_blob_offset (wr_directory w ! n)) + nat (dx_blob_bytes (wr_directory w ! n))"
      using blob(1) block_in_file(1) [OF assms(1) wf(1) n(1)] unfolding covers_def filed_def by linarith
    then have hit: "snd (stored_quotes ?d2 (vf_instruments s ! n) s) = Inl (Fail path BlobChecksum)"
      using quotes [OF n(1)] by (simp only: simp_thms if_True)
    have "c = sd_quotes sd (stored_ids sd ! k)"
      if "k < length (stored_ids sd)" "snd (stored_quotes ?d2 (vf_instruments s ! k) s) = Inr c" for k c
      using quotes [OF that(1)] that(2) by (auto split: if_splits)
    then show ?thesis using hit n(1) len by (auto simp: f same)
  qed
qed

theorem damaged_files_are_refused_witness:
  "\<exists>d1 f. disk_files d1 ''day.vfday'' = Some f \<and>
     (case vfday_open ''day.vfday'' (store_file ''day.vfday'' ((df_bytes f)[0 := 0]) d1) empty_registry of
        (_, Inl e) \<Rightarrow> \<exists>why. e = Fail ''day.vfday'' why
      | (_, Inr s) \<Rightarrow> length (vf_instruments s) = 1)"
proof -
  obtain w h bytes where wf: "file_for sample_store w h bytes"
    and wr: "write_vfday sample_store ''day.vfday'' True empty_disk =
      Inr (store_file ''day.vfday'' bytes empty_disk, stats_of h w (stored_timeline sample_store))"
    using write_storable [OF sample_storable, of "''day.vfday''" empty_disk] by (auto simp: empty_disk_def)
  note P = file_for_parts [OF sample_storable wf]
  have "length bytes > 0" using header_layout.length_put [OF P(5)] by (simp add: P(3) header_size_def)
  moreover have "bytes ! 0 = 0x56"
    using P(4) by (simp add: P(3) put_header_def header_prefix_def laid_out_def Let_def kMagic_def)
  moreover have "room_left (length (sd_instruments sample_store)) empty_registry"
    by (simp add: room_left_def sample_store_def memory_data_def empty_registry_def)
  moreover have "length (stored_ids sample_store) = 1"
    by (simp add: stored_ids_def sample_quotes sample_store_def memory_data_def) (simp add: one_quote_def size_of_def ms_quotes_def)
  ultimately show ?thesis
    using damaged_files_are_refused [OF sample_storable wr, of "\<lparr>df_readable = True, df_bytes = bytes\<rparr>" 0 0 empty_registry] registry_ok_empty
    by (intro exI [of _ "store_file ''day.vfday'' bytes empty_disk"] exI [of _ "\<lparr>df_readable = True, df_bytes = bytes\<rparr>"])
      (auto split: prod.splits sum.splits)
qed

end
