(* ===== verification/Display.thy ===== *)
theory Display
  imports Calendar
begin

text \<open>
  \<open>types.cpp\<close>: dates and enumerators as text.  The text of a date names the files of the day store
  and is compared with them, so it must tell dates apart.
\<close>

definition digit_char :: "nat \<Rightarrow> char" where
  "digit_char n = char_of (48 + n)"

fun show_nat :: "nat \<Rightarrow> string" where
  "show_nat n = (if n < 10 then [digit_char n] else show_nat (n div 10) @ [digit_char (n mod 10)])"

declare show_nat.simps [simp del]

text \<open>The conversion \<open>%0wd\<close> of \<open>printf\<close>, for a number that is not negative.\<close>

definition zero_padded :: "nat \<Rightarrow> nat \<Rightarrow> string" where
  "zero_padded w n = replicate (w - length (show_nat n)) CHR ''0'' @ show_nat n"

text \<open>The fields of a valid date are not negative, and the text fits the buffer of sixteen bytes.\<close>

definition date_to_string :: "date \<Rightarrow> string" where
  "date_to_string d =
     (if \<not> date_valid d then ''invalid-date''
      else zero_padded 4 (nat (year d)) @ ''-'' @ zero_padded 2 (nat (month d)) @ ''-'' @ zero_padded 2 (nat (day d)))"

fun right_to_string :: "right \<Rightarrow> string" where
  "right_to_string Call = ''CE''"
| "right_to_string Put = ''PE''"

fun kind_to_string :: "instrument_kind \<Rightarrow> string" where
  "kind_to_string Spot = ''spot''"
| "kind_to_string Future = ''future''"
| "kind_to_string Option = ''option''"

section \<open>Dates are told apart\<close>

text \<open>Reading the digits back.\<close>

fun read_digits :: "nat \<Rightarrow> string \<Rightarrow> nat" where
  "read_digits acc [] = acc"
| "read_digits acc (c # cs) = read_digits (10 * acc + (of_char c - 48)) cs"

lemma read_digits_append [simp]: "read_digits acc (xs @ ys) = read_digits (read_digits acc xs) ys"
  by (induction xs arbitrary: acc) auto

lemma digit_char_value [simp]: "n < 10 \<Longrightarrow> of_char (digit_char n) = 48 + n"
  unfolding digit_char_def by (simp only: of_char_of) simp

lemma show_nat_cases: "show_nat n = (if n < 10 then [digit_char n] else show_nat (n div 10) @ [digit_char (n mod 10)])"
  by (rule show_nat.simps)

lemma read_show_nat [simp]: "read_digits 0 (show_nat n) = n"
proof (induction n rule: show_nat.induct)
  case (1 n)
  then show ?case by (cases "n < 10") (simp_all add: show_nat_cases [of n])
qed

lemma read_zeros: "read_digits 0 (replicate k CHR ''0'') = 0"
  by (induction k) auto

lemma read_zero_padded [simp]: "read_digits 0 (zero_padded w n) = n"
  by (simp add: zero_padded_def read_zeros)

lemma length_show_nat: "n < 10 ^ w \<Longrightarrow> 0 < w \<Longrightarrow> length (show_nat n) \<le> w"
proof (induction n arbitrary: w rule: show_nat.induct)
  case (1 n)
  show ?case
  proof (cases "n < 10")
    case False
    obtain v where v: "w = Suc v" using 1(3) by (cases w) auto
    have "n < 10 * 10 ^ v" using 1(2) by (simp only: v power_Suc)
    then have "n div 10 < 10 ^ v" by (simp only: less_mult_imp_div_less mult.commute)
    moreover have "0 < v" using 1(2) False by (cases v) (simp_all add: v)
    ultimately have "length (show_nat (n div 10)) \<le> v" by (rule 1(1) [OF False])
    then show ?thesis by (simp add: show_nat_cases [of n] False v)
  qed (use 1(3) in \<open>simp add: show_nat_cases [of n]\<close>)
qed

lemma length_zero_padded: "n < 10 ^ w \<Longrightarrow> 0 < w \<Longrightarrow> length (zero_padded w n) = w"
  using length_show_nat [of n w] by (simp add: zero_padded_def)

lemma zero_padded_inject: "zero_padded v m = zero_padded w n \<Longrightarrow> m = n"
  using read_zero_padded [of v m] read_zero_padded [of w n] by simp

lemma date_fields:
  assumes "date_valid d"
  shows "0 \<le> year d" and "0 \<le> month d" and "month d < 100" and "0 \<le> day d" and "day d < 100"
    and "yyyymmdd d = year d * 10000 + month d * 100 + day d"
proof -
  let ?n = "yyyymmdd d"
  have n: "0 < ?n" using assms by (simp add: date_valid_def)
  then have f: "year d = ?n div 10000" "month d = ?n div 100 mod 100" "day d = ?n mod 100"
    by (simp_all add: year_def month_def day_def cdiv_nonneg cmod_nonneg)
  show "0 \<le> year d" "0 \<le> month d" "month d < 100" "0 \<le> day d" "day d < 100"
    using n by (simp_all add: f)
  show "?n = year d * 10000 + month d * 100 + day d" 
    unfolding f using zdiv_zmult2_eq [of 100 ?n 100] by (simp only: algebra_simps flip: minus_div_mult_eq_mod) simp
qed

lemma date_to_string_inject:
  assumes "date_valid d" and "date_valid e" and "date_to_string d = date_to_string e"
  shows "d = e"
proof -
  note D = date_fields [OF assms(1)] and E = date_fields [OF assms(2)]
  have len: "length (zero_padded 2 (nat (month d))) = 2" "length (zero_padded 2 (nat (month e))) = 2"
    "length (zero_padded 2 (nat (day d))) = 2" "length (zero_padded 2 (nat (day e))) = 2"
    using D(2-5) E(2-5) by (simp_all add: length_zero_padded nat_less_iff)
  have "zero_padded 4 (nat (year d)) @ ''-'' @ zero_padded 2 (nat (month d)) @ ''-'' @ zero_padded 2 (nat (day d)) =
      zero_padded 4 (nat (year e)) @ ''-'' @ zero_padded 2 (nat (month e)) @ ''-'' @ zero_padded 2 (nat (day e))"
    using assms by (simp add: date_to_string_def)
  then have "zero_padded 4 (nat (year d)) = zero_padded 4 (nat (year e)) \<and>
      zero_padded 2 (nat (month d)) = zero_padded 2 (nat (month e)) \<and> zero_padded 2 (nat (day d)) = zero_padded 2 (nat (day e))"
    using len by simp
  then have "nat (year d) = nat (year e)" "nat (month d) = nat (month e)" "nat (day d) = nat (day e)"
    using zero_padded_inject by blast+
  then have "yyyymmdd d = yyyymmdd e" using D E by simp
  then show ?thesis by (cases d; cases e) simp
qed

end
