(* ===== verification/Gfdl.thy ===== *)
theory Gfdl
  imports MemorySource Calendar Files
begin

text \<open>
  \<open>gfdl_csv.hpp\<close> and \<open>gfdl_csv.cpp\<close>: the adapter for the vendor's tkr CSV.  A pointer into a
  buffer is the list of the characters left; the file system and the archive (miniz) are the
  listings they give, an argument of the loaders.  A warning carries the data of its message.
\<close>

section \<open>Field scanners\<close>

definition month_names :: "string list" where
  "month_names = [''JAN'', ''FEB'', ''MAR'', ''APR'', ''MAY'', ''JUN'', ''JUL'', ''AUG'', ''SEP'', ''OCT'', ''NOV'', ''DEC'']"

fun month_loop :: "int \<Rightarrow> string list \<Rightarrow> string \<Rightarrow> int" where
  "month_loop i [] s = 0"
| "month_loop i (m # ms) s = (if s = m then i + 1 else month_loop (i + 1) ms s)"

definition month_from :: "string \<Rightarrow> int" where
  "month_from s = month_loop 0 month_names s"

definition char_value :: "char \<Rightarrow> int" where
  "char_value c = of_char c"

definition is_digit :: "char \<Rightarrow> bool" where
  "is_digit c \<longleftrightarrow> char_value (CHR ''0'') \<le> char_value c \<and> char_value c \<le> char_value (CHR ''9'')"

definition digit_value :: "char \<Rightarrow> int" where
  "digit_value c = char_value c - char_value (CHR ''0'')"

text \<open>The optional sign: whether it is a minus, and what follows it.\<close>

fun scan_sign :: "string \<Rightarrow> bool \<times> string" where
  "scan_sign [] = (False, [])"
| "scan_sign (c # cs) = (if c = CHR ''-'' \<or> c = CHR ''+'' then (c = CHR ''-'', cs) else (False, c # cs))"

fun scan_digits :: "int \<Rightarrow> string \<Rightarrow> int \<times> string" where
  "scan_digits v [] = (v, [])"
| "scan_digits v (c # cs) = (if is_digit c then scan_digits (v * 10 + digit_value c) cs else (v, c # cs))"

definition scan_int :: "string \<Rightarrow> int \<times> string" where
  "scan_int p =
     (let (neg, p1) = scan_sign p; (v, p2) = scan_digits 0 p1 in (if neg then - v else v, p2))"

text \<open>The decimals: the first two count, the rest are passed over.\<close>

fun scan_fraction :: "int \<Rightarrow> nat \<Rightarrow> string \<Rightarrow> int \<times> nat \<times> string" where
  "scan_fraction frac digits [] = (frac, digits, [])"
| "scan_fraction frac digits (c # cs) =
     (if is_digit c
      then (if digits < 2 then scan_fraction (frac * 10 + digit_value c) (digits + 1) cs else scan_fraction frac digits cs)
      else (frac, digits, c # cs))"

definition scan_price_minor :: "string \<Rightarrow> int \<times> string" where
  "scan_price_minor p =
     (let (neg, p1) = scan_sign p;
          (whole, p2) = scan_digits 0 p1;
          (frac, digits, p3) = (case p2 of [] \<Rightarrow> (0, 0, [])
            | c # cs \<Rightarrow> if c = CHR ''.'' then scan_fraction 0 0 cs else (0, 0, c # cs));
          v = whole * 100 + frac * 10 ^ (2 - digits)
      in (to_i32 (if neg then - v else v), p3))"

definition newline :: "char \<Rightarrow> bool" where
  "newline c \<longleftrightarrow> c = CHR 0x0A \<or> c = CHR 0x0D"

text \<open>\<open>if (p < end && *p == c) ++p;\<close>\<close>

definition skip_char :: "char \<Rightarrow> string \<Rightarrow> string" where
  "skip_char c p = (case p of [] \<Rightarrow> [] | x # xs \<Rightarrow> if x = c then xs else p)"

definition skip_field :: "string \<Rightarrow> string" where
  "skip_field p = skip_char (CHR '','') (dropWhile (\<lambda>c. c \<noteq> CHR '','' \<and> \<not> newline c) p)"

section \<open>Symbols\<close>

record parsed_symbol =
  ps_underlying :: string
  ps_expiry :: date
  ps_strike :: price
  ps_right :: right
  ps_ok :: bool

definition no_symbol :: parsed_symbol where
  "no_symbol = \<lparr>ps_underlying = [], ps_expiry = Date 0, ps_strike = Price 0, ps_right = Call, ps_ok = False\<rparr>"

text \<open>What follows the underlying: day, month, year and strike.\<close>

definition parse_contract :: "string \<Rightarrow> parsed_symbol \<Rightarrow> parsed_symbol" where
  "parse_contract rest out =
     (if length rest < 8 \<or> \<not> is_digit (rest ! 0) \<or> \<not> is_digit (rest ! 1) then out
      else let day = digit_value (rest ! 0) * 10 + digit_value (rest ! 1);
               month = month_from (take 3 (drop 2 rest))
           in if month = 0 \<or> \<not> is_digit (rest ! 5) \<or> \<not> is_digit (rest ! 6) then out
              else let year = 2000 + digit_value (rest ! 5) * 10 + digit_value (rest ! 6);
                       strike_text = drop 7 rest
                   in if strike_text = [] \<or> (\<exists>c \<in> set strike_text. \<not> is_digit c \<and> c \<noteq> CHR ''.'') then out
                      else let out1 = out\<lparr>ps_strike := Price (fst (scan_price_minor strike_text))\<rparr>
                           in if minor (ps_strike out1) \<le> 0 \<or> day < 1 \<or> 31 < day then out1
                              else out1\<lparr>ps_expiry := Date (year * 10000 + month * 100 + day), ps_ok := True\<rparr>)"

definition parse_gfdl_symbol :: "string \<Rightarrow> parsed_symbol" where
  "parse_gfdl_symbol full =
     (let ticker = takeWhile (\<lambda>c. c \<noteq> CHR ''.'') full; n = length ticker
      in if n < 12 then no_symbol
         else let tail = drop (n - 2) ticker
              in if tail \<noteq> ''CE'' \<and> tail \<noteq> ''PE'' then no_symbol
                 else let out = no_symbol\<lparr>ps_right := (if tail = ''CE'' then Call else Put)\<rparr>;
                          body = take (n - 2) ticker;
                          i = length (takeWhile (\<lambda>c. \<not> is_digit c) body)
                      in if i = 0 \<or> length body \<le> i + 7 then out
                         else parse_contract (drop i body) (out\<lparr>ps_underlying := take i body\<rparr>))"

section \<open>Rows\<close>

record load_options =
  lo_lot_size :: int
  lo_tick_size :: price
  utc_offset_seconds :: int
  only_underlying :: string
  expected_date :: date

definition default_load_options :: load_options where
  "default_load_options =
     \<lparr>lo_lot_size = 75, lo_tick_size = Price 5, utc_offset_seconds = kISTOffsetSeconds,
      only_underlying = [], expected_date = Date 0\<rparr>"

text \<open>What the rows of a day go into.\<close>

record row_sink =
  sk_session :: "memory_session option"
  sk_date :: date
  sk_read :: nat
  sk_skipped :: nat
  sk_expected :: date

text \<open>The locals of \<open>parse_csv_rows\<close>; \<open>previous\<close> and \<open>have_previous\<close> are one option.\<close>

record csv_state =
  cv_row_date :: date
  cv_previous :: "timestamp option"
  cv_sink :: row_sink

record csv_row =
  row_day :: int
  row_month :: int
  row_year :: int
  row_hour :: int
  row_minute :: int
  row_second :: int
  row_quote :: quote

definition scan_row :: "string \<Rightarrow> csv_row" where
  "scan_row line =
     (let p = skip_field line;
          (dd, p) = scan_int p; p = skip_char (CHR ''/'') p;
          (mm, p) = scan_int p; p = skip_char (CHR ''/'') p;
          (yyyy, p) = scan_int p; p = skip_char (CHR '','') p;
          (hh, p) = scan_int p; p = skip_char (CHR '':'') p;
          (mi, p) = scan_int p; p = skip_char (CHR '':'') p;
          (ss, p) = scan_int p; p = skip_char (CHR '','') p;
          (last, p) = scan_price_minor p; p = skip_char (CHR '','') p;
          (bid, p) = scan_price_minor p; p = skip_char (CHR '','') p;
          (bid_qty, p) = scan_int p; p = skip_char (CHR '','') p;
          (ask, p) = scan_price_minor p; p = skip_char (CHR '','') p;
          (ask_qty, p) = scan_int p; p = skip_char (CHR '','') p;
          (last_qty, p) = scan_int p; p = skip_char (CHR '','') p;
          (oi, p) = scan_int p
      in \<lparr>row_day = dd, row_month = mm, row_year = yyyy, row_hour = hh, row_minute = mi, row_second = ss,
          row_quote = \<lparr>q_ts = Timestamp 0, q_last = Price last, q_bid = Price bid, q_ask = Price ask,
            q_bid_qty = to_i32 bid_qty, q_ask_qty = to_i32 ask_qty, q_last_qty = to_i32 last_qty,
            q_open_interest = oi\<rparr>\<rparr>)"

definition row_in_range :: "csv_row \<Rightarrow> bool" where
  "row_in_range r \<longleftrightarrow> \<not> (row_year r < 1990 \<or> 2100 < row_year r \<or> row_month r < 1 \<or> 12 < row_month r \<or>
     row_day r < 1 \<or> 31 < row_day r \<or> row_hour r < 0 \<or> 23 < row_hour r \<or> row_minute r < 0 \<or> 59 < row_minute r \<or>
     row_second r < 0 \<or> 59 < row_second r)"

definition skip_row :: "csv_state \<Rightarrow> csv_state" where
  "skip_row st = st\<lparr>cv_sink := (cv_sink st)\<lparr>sk_skipped := sk_skipped (cv_sink st) + 1\<rparr>\<rparr>"

text \<open>An admitted row: the session is created at the first one.\<close>

definition admit_row ::
    "registry \<Rightarrow> instrument_id \<Rightarrow> date \<Rightarrow> quote \<Rightarrow> csv_state \<Rightarrow> exn + csv_state" where
  "admit_row reg i d q st =
     (let sk = cv_sink st;
          sk1 = (case sk_session sk of Some _ \<Rightarrow> sk
            | None \<Rightarrow> sk\<lparr>sk_session := Some (new_session d reg), sk_date := d\<rparr>)
      in case append_quote i q (the (sk_session sk1)) of
           Inl e \<Rightarrow> Inl e
         | Inr m \<Rightarrow> Inr (st\<lparr>cv_previous := Some (q_ts q),
             cv_sink := sk1\<lparr>sk_session := Some m, sk_read := sk_read sk1 + 1\<rparr>\<rparr>))"

definition csv_line ::
    "load_options \<Rightarrow> registry \<Rightarrow> instrument_id \<Rightarrow> string \<Rightarrow> csv_state \<Rightarrow> exn + csv_state" where
  "csv_line opts reg i line st =
     (if length (filter (\<lambda>c. c = CHR '','') line) \<noteq> 9 then Inr (skip_row st)
      else let r = scan_row line in
        if \<not> row_in_range r then Inr (skip_row st)
        else let d = Date (to_i32 (row_year r * 10000 + row_month r * 100 + row_day r)) in
          if date_valid (sk_expected (cv_sink st)) \<and> d \<noteq> sk_expected (cv_sink st) then Inr (skip_row st)
          else let sk = (if date_valid (sk_expected (cv_sink st)) then cv_sink st else (cv_sink st)\<lparr>sk_expected := d\<rparr>);
                   st1 = st\<lparr>cv_sink := sk, cv_row_date := (if date_valid (cv_row_date st) then cv_row_date st else d)\<rparr>;
                   q = (row_quote r)\<lparr>q_ts := timestamp_of d (row_hour r * 3600 + row_minute r * 60 + row_second r)
                          (utc_offset_seconds opts)\<rparr>
               in case cv_previous st1 of
                    Some t \<Rightarrow> if q_ts q < t then Inr (skip_row st1) else admit_row reg i d q st1
                  | None \<Rightarrow> admit_row reg i d q st1)"

function csv_loop ::
    "load_options \<Rightarrow> registry \<Rightarrow> instrument_id \<Rightarrow> string \<Rightarrow> csv_state \<Rightarrow> exn + csv_state" where
  "csv_loop opts reg i [] st = Inr st"
| "csv_loop opts reg i (c # cs) st =
     (if newline c then csv_loop opts reg i cs st
      else let scan = dropWhile (\<lambda>c. \<not> newline c) (c # cs) in
        case csv_line opts reg i (takeWhile (\<lambda>c. \<not> newline c) (c # cs)) st of
          Inl e \<Rightarrow> Inl e
        | Inr st' \<Rightarrow> csv_loop opts reg i (dropWhile newline scan) st')"
  by pat_completeness auto
termination
proof (relation "measure (\<lambda>(_, _, _, p, _). length p)", goal_cases)
  case (3 opts reg i c cs st scan st')
  have "length (dropWhile newline (dropWhile (\<lambda>c. \<not> newline c) cs)) \<le> length cs"
    using length_dropWhile_le order_trans by blast
  then show ?case using 3 by (auto simp: less_Suc_eq_le)
qed auto

definition csv_header :: "string \<Rightarrow> string" where
  "csv_header p =
     (if 6 < length p \<and> take 6 p = ''Ticker''
      then (case dropWhile (\<lambda>c. c \<noteq> CHR 0x0A) p of [] \<Rightarrow> [] | _ # rest \<Rightarrow> rest) else p)"

definition parse_csv_rows ::
    "string \<Rightarrow> instrument_id \<Rightarrow> load_options \<Rightarrow> registry \<Rightarrow> row_sink \<Rightarrow> exn + date \<times> row_sink" where
  "parse_csv_rows data i opts reg sk =
     (case csv_loop opts reg i (csv_header data) \<lparr>cv_row_date = Date 0, cv_previous = None, cv_sink = sk\<rparr> of
        Inl e \<Rightarrow> Inl e
      | Inr st \<Rightarrow> Inr (cv_row_date st, cv_sink st))"

section \<open>A day of files\<close>

datatype load_warning =
    NotADirectory string
  | UnparsableSymbol string
  | Unreadable string
  | CarriesDate string date date
  | CannotOpenZip string
  | CouldNotDecompress string

record gfdl_day =
  gd_session :: "memory_session option"
  gd_underlying :: underlying_id
  gd_date :: date
  files_read :: nat
  files_skipped :: nat
  gd_rows_read :: nat
  gd_rows_skipped :: nat
  gd_expiries :: "date list"
  warnings :: "load_warning list"

definition empty_day :: gfdl_day where
  "empty_day = \<lparr>gd_session = None, gd_underlying = UnderlyingId 0, gd_date = Date 0, files_read = 0, files_skipped = 0,
     gd_rows_read = 0, gd_rows_skipped = 0, gd_expiries = [], warnings = []\<rparr>"

text \<open>The locals of both loaders: the registry, the day, the expiries seen and the expected date.\<close>

record load_state =
  ls_registry :: registry
  ls_day :: gfdl_day
  ls_expiries :: "(int \<times> unit) list"
  ls_expected :: date

definition skip_file :: "load_warning list \<Rightarrow> load_state \<Rightarrow> load_state" where
  "skip_file ws st =
     st\<lparr>ls_day := (ls_day st)\<lparr>files_skipped := files_skipped (ls_day st) + 1, warnings := warnings (ls_day st) @ ws\<rparr>\<rparr>"

definition contract_of :: "load_options \<Rightarrow> parsed_symbol \<Rightarrow> underlying_id \<Rightarrow> instrument_spec" where
  "contract_of opts tkr u =
     \<lparr>spec_id = InstrumentId 0, underlying = u, kind = Option, expiry = ps_expiry tkr, strike = ps_strike tkr,
      right_of = ps_right tkr, lot_size = lo_lot_size opts, tick_size = lo_tick_size opts\<rparr>"

text \<open>What both loaders do with the bytes of one file.\<close>

definition read_file ::
    "load_options \<Rightarrow> string \<Rightarrow> parsed_symbol \<Rightarrow> string \<Rightarrow> load_state \<Rightarrow> exn + load_state" where
  "read_file opts name tkr data st =
     (let (u, reg1) = intern_underlying (ps_underlying tkr) (ls_registry st);
          (i, reg2) = add (contract_of opts tkr u) reg1;
          day = ls_day st;
          sk = \<lparr>sk_session = gd_session day, sk_date = gd_date day, sk_read = gd_rows_read day,
            sk_skipped = gd_rows_skipped day, sk_expected = ls_expected st\<rparr>
      in case parse_csv_rows data i opts reg2 sk of
           Inl e \<Rightarrow> Inl e
         | Inr (row_date, sk') \<Rightarrow>
             let mismatch = (if date_valid row_date \<and> date_valid (sk_date sk') \<and> row_date \<noteq> sk_date sk'
                   then [CarriesDate name row_date (sk_date sk')] else [])
             in Inr \<lparr>ls_registry = reg2,
                  ls_day = day\<lparr>gd_session := sk_session sk', gd_underlying := u, gd_date := sk_date sk',
                    files_read := files_read day + 1, gd_rows_read := sk_read sk', gd_rows_skipped := sk_skipped sk',
                    warnings := warnings day @ mismatch\<rparr>,
                  ls_expiries = om_put (yyyymmdd (ps_expiry tkr)) () (ls_expiries st),
                  ls_expected = sk_expected sk'\<rparr>)"

definition wrong_underlying :: "load_options \<Rightarrow> parsed_symbol \<Rightarrow> bool" where
  "wrong_underlying opts tkr \<longleftrightarrow> only_underlying opts \<noteq> [] \<and> ps_underlying tkr \<noteq> only_underlying opts"

text \<open>A session refers to the registry it was made with, so at the end it sees all of it.\<close>

definition bind_registry :: "registry \<Rightarrow> memory_session option \<Rightarrow> memory_session option" where
  "bind_registry reg m = map_option (\<lambda>s. build_event_order (s\<lparr>ms_registry := reg\<rparr>)) m"

subsection \<open>A directory\<close>

text \<open>An entry of a directory; \<open>de_contents\<close> is \<open>None\<close> when it cannot be read.\<close>

record dir_entry =
  de_name :: string
  de_regular :: bool
  de_contents :: "string option"

definition csv_files :: "dir_entry list \<Rightarrow> dir_entry list" where
  "csv_files entries =
     sort_key de_name (filter (\<lambda>e. de_regular e \<and> path_extension (de_name e) \<in> {''.csv'', ''.CSV''}) entries)"

definition dir_file :: "load_options \<Rightarrow> dir_entry \<Rightarrow> load_state \<Rightarrow> exn + load_state" where
  "dir_file opts e st =
     (let tkr = parse_gfdl_symbol (de_name e)
      in if \<not> ps_ok tkr then Inr (skip_file [UnparsableSymbol (de_name e)] st)
         else if wrong_underlying opts tkr then Inr (skip_file [] st)
         else case de_contents e of
             None \<Rightarrow> Inr (skip_file [Unreadable (de_name e)] st)
           | Some data \<Rightarrow>
               if data = [] then Inr (skip_file [] st) else read_file opts (de_name e) tkr data st)"

definition load_gfdl_day ::
    "registry \<Rightarrow> string \<Rightarrow> dir_entry list option \<Rightarrow> load_options \<Rightarrow> exn + registry \<times> gfdl_day" where
  "load_gfdl_day reg directory listing opts =
     (case listing of
        None \<Rightarrow> Inr (reg, empty_day\<lparr>warnings := [NotADirectory directory]\<rparr>)
      | Some entries \<Rightarrow>
          (case try_fold (dir_file opts) (csv_files entries)
                  \<lparr>ls_registry = reg, ls_day = empty_day, ls_expiries = [], ls_expected = expected_date opts\<rparr> of
             Inl e \<Rightarrow> Inl e
           | Inr st \<Rightarrow> Inr (ls_registry st, (ls_day st)
               \<lparr>gd_expiries := map (\<lambda>(k, _). Date k) (ls_expiries st),
                gd_session := bind_registry (ls_registry st) (gd_session (ls_day st))\<rparr>)))"

subsection \<open>An archive\<close>

text \<open>A member of the archive: \<open>None\<close> for a name or data the reader cannot give.\<close>

record zip_entry =
  ze_is_directory :: bool
  ze_name :: "string option"
  ze_data :: "string option"

text \<open>\<open>find_last_of\<close> and what follows the character found.\<close>

definition after_last :: "(char \<Rightarrow> bool) \<Rightarrow> string \<Rightarrow> string option" where
  "after_last P s =
     (let suffix = takeWhile (\<lambda>c. \<not> P c) (rev s) in if length suffix = length s then None else Some (rev suffix))"

definition leaf_of :: "string \<Rightarrow> string" where
  "leaf_of path = (case after_last (\<lambda>c. c = CHR ''/'' \<or> c = CHR 0x5C) path of None \<Rightarrow> path | Some s \<Rightarrow> s)"

definition archive_date :: "string \<Rightarrow> date" where
  "archive_date zip_path =
     (case after_last (\<lambda>c. c = CHR ''_'') (leaf_of zip_path) of
        None \<Rightarrow> Date 0
      | Some s \<Rightarrow>
          let digits = take 8 s
          in if length digits = 8 \<and> list_all is_digit digits then
               (let dd = fst (scan_digits 0 (take 2 digits)); mm = fst (scan_digits 0 (take 2 (drop 2 digits)));
                    yy = fst (scan_digits 0 (drop 4 digits))
                in if 1 \<le> dd \<and> dd \<le> 31 \<and> 1 \<le> mm \<and> mm \<le> 12 \<and> 1990 \<le> yy \<and> yy \<le> 2100
                   then Date (yy * 10000 + mm * 100 + dd) else Date 0)
             else Date 0)"

definition zip_members :: "zip_entry list \<Rightarrow> (string \<times> zip_entry) list" where
  "zip_members entries =
     sort_key fst (concat (map (\<lambda>e. if ze_is_directory e then []
       else case ze_name e of None \<Rightarrow> [] | Some n \<Rightarrow> [(n, e)]) entries))"

definition zip_file :: "load_options \<Rightarrow> string \<times> zip_entry \<Rightarrow> load_state \<Rightarrow> exn + load_state" where
  "zip_file opts member st =
     (let leaf = leaf_of (fst member); tkr = parse_gfdl_symbol leaf
      in if \<not> ps_ok tkr then Inr (skip_file (if 4 < length leaf then [UnparsableSymbol leaf] else []) st)
         else if wrong_underlying opts tkr then Inr (skip_file [] st)
         else case ze_data (snd member) of
             None \<Rightarrow> Inr (skip_file [CouldNotDecompress leaf] st)
           | Some data \<Rightarrow> read_file opts leaf tkr data st)"

text \<open>The expiries of the contracts that have rows.\<close>

fun session_expiries :: "registry \<Rightarrow> instrument_id list \<Rightarrow> (int \<times> unit) list \<Rightarrow> exn + (int \<times> unit) list" where
  "session_expiries reg [] acc = Inr acc"
| "session_expiries reg (i # is) acc =
     (case spec reg i of Inl e \<Rightarrow> Inl e
      | Inr sp \<Rightarrow> session_expiries reg is (if date_valid (expiry sp) then om_put (yyyymmdd (expiry sp)) () acc else acc))"

definition load_gfdl_zip ::
    "registry \<Rightarrow> string \<Rightarrow> zip_entry list option \<Rightarrow> load_options \<Rightarrow> exn + registry \<times> gfdl_day" where
  "load_gfdl_zip reg zip_path archive opts =
     (case archive of
        None \<Rightarrow> Inr (reg, empty_day\<lparr>warnings := [CannotOpenZip zip_path]\<rparr>)
      | Some entries \<Rightarrow>
          let expected = (if date_valid (expected_date opts) then expected_date opts else archive_date zip_path)
          in case try_fold (zip_file opts) (zip_members entries)
                  \<lparr>ls_registry = reg, ls_day = empty_day, ls_expiries = [], ls_expected = expected\<rparr> of
             Inl e \<Rightarrow> Inl e
           | Inr st \<Rightarrow>
               (case (case gd_session (ls_day st) of None \<Rightarrow> Inr []
                      | Some m \<Rightarrow> session_expiries (ls_registry st) (ms_instruments m) []) of
                  Inl e \<Rightarrow> Inl e
                | Inr es \<Rightarrow> Inr (ls_registry st, (ls_day st)
                    \<lparr>gd_expiries := map (\<lambda>(k, _). Date k) es,
                     gd_session := bind_registry (ls_registry st) (gd_session (ls_day st))\<rparr>)))"

end
