(* ===== verification/Arguments.thy ===== *)
theory Arguments
  imports Gfdl
begin

text \<open>
  What the command line tools use of the C library and of \<open>std::filesystem::path\<close>: \<open>atoi\<close>, \<open>atoll\<close>,
  file names, joining and the order of paths.
\<close>

definition is_space :: "char \<Rightarrow> bool" where
  "is_space c \<longleftrightarrow> c = CHR '' '' \<or> 9 \<le> char_value c \<and> char_value c \<le> 13"

text \<open>
  A number outside the type is undefined behaviour of \<open>atoi\<close> and \<open>atoll\<close>; the values are then the ones
  of the GNU library, the saturated \<open>long\<close> and its low 32 bits.
\<close>

definition atoll :: "string \<Rightarrow> int" where
  "atoll s = max (- (2 ^ 63)) (min (2 ^ 63 - 1) (fst (scan_int (dropWhile is_space s))))"

definition atoi :: "string \<Rightarrow> int" where
  "atoi s = to_i32 (atoll s)"

text \<open>\<open>path::filename\<close>, \<open>operator/\<close> with a relative right side, and the components of a path.\<close>

definition path_filename :: "string \<Rightarrow> string" where
  "path_filename p = (case after_last (\<lambda>c. c = CHR ''/'') p of None \<Rightarrow> p | Some s \<Rightarrow> s)"

definition path_join :: "string \<Rightarrow> string \<Rightarrow> string" where
  "path_join p q = (if path_filename p = [] then p @ q else p @ CHR ''/'' # q)"

fun path_parts :: "string \<Rightarrow> string list" where
  "path_parts [] = [[]]"
| "path_parts (c # cs) =
     (if c = CHR ''/'' then [] # path_parts cs
      else case path_parts cs of [] \<Rightarrow> [[c]] | x # xs \<Rightarrow> (c # x) # xs)"

end
