(* ===== verification/Convert.thy ===== *)
theory Convert
  imports VfdayRoundTrip Display Arguments
begin

text \<open>
  \<open>examples/convert.cpp\<close>: the tool that turns vendor archives into the day store.  What it finds at
  its input is a parameter, the output goes to the disk of the day store.  A problem carries the data
  of its message; the progress lines are the figures it counts.
\<close>

section \<open>Arguments and input\<close>

record convert_options =
  cx_load :: load_options
  cx_verify :: bool
  cx_force :: bool
  cx_limit :: nat

definition default_convert :: convert_options where
  "default_convert = \<lparr>cx_load = default_load_options, cx_verify = True, cx_force = False, cx_limit = 0\<rparr>"

definition convert_flag :: "string \<Rightarrow> convert_options \<Rightarrow> convert_options option" where
  "convert_flag a opts =
     (if a = ''--no-verify'' then Some (opts\<lparr>cx_verify := False\<rparr>)
      else if a = ''--force'' then Some (opts\<lparr>cx_force := True\<rparr>)
      else None)"

text \<open>The loop over \<open>argv[3]\<close> and after; \<open>None\<close> for an unknown argument.\<close>

fun convert_args :: "string list \<Rightarrow> convert_options \<Rightarrow> convert_options option" where
  "convert_args [] opts = Some opts"
| "convert_args [a] opts = convert_flag a opts"
| "convert_args (a # b # rest) opts =
     (if a = ''--lot-size'' then convert_args rest (opts\<lparr>cx_load := (cx_load opts)\<lparr>lo_lot_size := atoi b\<rparr>\<rparr>)
      else if a = ''--underlying'' then convert_args rest (opts\<lparr>cx_load := (cx_load opts)\<lparr>only_underlying := b\<rparr>\<rparr>)
      else if a = ''--limit'' then convert_args rest (opts\<lparr>cx_limit := to_size (atoll b)\<rparr>)
      else case convert_flag a opts of None \<Rightarrow> None | Some opts1 \<Rightarrow> convert_args (b # rest) opts1)"

text \<open>
  What is at a path: the two kinds of file the tool asks for, the entries under a directory (path,
  whether regular) and directly in it, an archive's members, its size (\<open>None\<close> where \<open>file_size\<close>
  throws), and whether the output directory is there or can be made.
\<close>

record input_tree =
  it_is_directory :: "string \<Rightarrow> bool"
  it_is_file :: "string \<Rightarrow> bool"
  it_below :: "string \<Rightarrow> (string \<times> bool) list"
  it_entries :: "string \<Rightarrow> dir_entry list"
  it_members :: "string \<Rightarrow> zip_entry list option"
  it_size :: "string \<Rightarrow> nat option"
  it_output :: "string \<Rightarrow> bool"

definition zip_archives :: "(string \<times> bool) list \<Rightarrow> string list" where
  "zip_archives entries = map fst (filter (\<lambda>(p, regular). regular \<and> path_extension (path_filename p) = ''.zip'') entries)"

text \<open>The archives, and whether the input is a directory of loose files; \<open>None\<close> if there is no input.\<close>

definition find_archives :: "input_tree \<Rightarrow> string \<Rightarrow> (string list \<times> bool) option" where
  "find_archives tree input =
     (if it_is_directory tree input
      then (let zips = zip_archives (it_below tree input)
            in if zips \<noteq> [] then Some (zips, False)
               else if \<exists>e \<in> set (it_entries tree input). de_regular e \<and> path_extension (de_name e) = ''.csv''
               then Some ([input], True) else Some ([], False))
      else if it_is_file tree input then Some ([input], False)
      else None)"

definition chosen :: "nat \<Rightarrow> string list \<Rightarrow> string list" where
  "chosen limit archives =
     (let sorted = sort_key path_parts archives in if limit \<noteq> 0 \<and> limit < length sorted then take limit sorted else sorted)"

section \<open>One archive\<close>

datatype convert_problem =
    LoadFailed string exn
  | NoReadableRows string
  | StoreFailed string store_error
  | DayWarning date load_warning

record convert_state =
  cv_disk :: disk
  cv_converted :: nat
  cv_skipped :: nat
  cv_failed :: nat
  cv_rows :: nat
  cv_out :: nat
  cv_in :: nat
  cv_problems :: "convert_problem list"

definition new_convert :: "disk \<Rightarrow> convert_state" where
  "new_convert d = \<lparr>cv_disk = d, cv_converted = 0, cv_skipped = 0, cv_failed = 0, cv_rows = 0, cv_out = 0, cv_in = 0,
     cv_problems = []\<rparr>"

definition fail_archive :: "convert_problem \<Rightarrow> convert_state \<Rightarrow> convert_state" where
  "fail_archive p st = st\<lparr>cv_failed := cv_failed st + 1, cv_problems := cv_problems st @ [p]\<rparr>"

text \<open>\<open>fs::remove\<close> with an error code: what is there is removed, nothing there is no error.\<close>

definition remove_file :: "string \<Rightarrow> disk \<Rightarrow> disk" where
  "remove_file path d = d\<lparr>disk_files := (disk_files d)(path := None)\<rparr>"

definition load_archive :: "convert_options \<Rightarrow> input_tree \<Rightarrow> bool \<Rightarrow> string \<Rightarrow> exn + registry \<times> gfdl_day" where
  "load_archive opts tree csv archive =
     (if csv then load_gfdl_day empty_registry archive (Some (it_entries tree archive)) (cx_load opts)
      else load_gfdl_zip empty_registry archive (it_members tree archive) (cx_load opts))"

text \<open>A size on its way through a \<open>double\<close>.\<close>

definition size_through_double :: "nat \<Rightarrow> nat" where
  "size_through_double n = (case of_i (int n) of Fin q \<Rightarrow> nat \<lfloor>q\<rfloor> | _ \<Rightarrow> 0)"

definition count_day :: "nat \<Rightarrow> store_stats \<Rightarrow> gfdl_day \<Rightarrow> convert_state \<Rightarrow> convert_state" where
  "count_day bytes_in stats gd st =
     st\<lparr>cv_converted := cv_converted st + 1, cv_rows := cv_rows st + st_rows stats, cv_out := cv_out st + st_bytes stats,
        cv_in := cv_in st + size_through_double bytes_in,
        cv_problems := cv_problems st @ map (DayWarning (gd_date gd)) (warnings gd)\<rparr>"

definition day_path :: "string \<Rightarrow> gfdl_day \<Rightarrow> string" where
  "day_path outdir gd = path_join outdir (date_to_string (gd_date gd) @ ''.vfday'')"

text \<open>
  The body of the loop.  The left is the exception of \<open>file_size\<close>, which nothing catches, with the
  state the tool had reached.
\<close>

definition convert_archive ::
    "convert_options \<Rightarrow> input_tree \<Rightarrow> bool \<Rightarrow> string \<Rightarrow> string \<Rightarrow> convert_state \<Rightarrow> convert_state + convert_state" where
  "convert_archive opts tree csv outdir archive st =
     (case load_archive opts tree csv archive of
        Inl e \<Rightarrow> Inr (fail_archive (LoadFailed (path_filename archive) e) st)
      | Inr (reg, gd) \<Rightarrow>
         (case gd_session gd of
            None \<Rightarrow> Inr (fail_archive (NoReadableRows (path_filename archive)) st)
          | Some m \<Rightarrow>
              if gd_rows_read gd = 0 then Inr (fail_archive (NoReadableRows (path_filename archive)) st)
              else if \<not> cx_force opts \<and> disk_files (cv_disk st) (day_path outdir gd) \<noteq> None
              then Inr (st\<lparr>cv_skipped := cv_skipped st + 1\<rparr>)
              else case write_vfday (memory_data m) (day_path outdir gd) (cx_verify opts) (cv_disk st) of
                Inl e \<Rightarrow> Inr (fail_archive (StoreFailed (path_filename archive) e)
                  (st\<lparr>cv_disk := remove_file (day_path outdir gd) (cv_disk st)\<rparr>))
              | Inr (d, stats) \<Rightarrow>
                 (case it_size tree archive of
                    None \<Rightarrow> Inl (st\<lparr>cv_disk := d\<rparr>)
                  | Some n \<Rightarrow> Inr (count_day n stats gd (st\<lparr>cv_disk := d\<rparr>)))))"

section \<open>The tool\<close>

datatype convert_outcome = Misused | NoInput | NothingToConvert | NoOutput | Stopped convert_state | Finished convert_state

definition convert_code :: "convert_outcome \<Rightarrow> int option" where
  "convert_code r =
     (case r of Misused \<Rightarrow> Some 2 | NoInput \<Rightarrow> Some 1 | NothingToConvert \<Rightarrow> Some 1 | NoOutput \<Rightarrow> None | Stopped _ \<Rightarrow> None
      | Finished st \<Rightarrow> Some (if cv_failed st = 0 then 0 else 1))"

definition convert :: "string list \<Rightarrow> input_tree \<Rightarrow> disk \<Rightarrow> convert_outcome" where
  "convert argv tree d =
     (case argv of
        input # outdir # rest \<Rightarrow>
          (case convert_args rest default_convert of None \<Rightarrow> Misused
           | Some opts \<Rightarrow>
              (case find_archives tree input of None \<Rightarrow> NoInput
               | Some (archives, csv) \<Rightarrow>
                   if chosen (cx_limit opts) archives = [] then NothingToConvert
                   else if \<not> it_output tree outdir then NoOutput
                   else case try_fold (convert_archive opts tree csv outdir) (chosen (cx_limit opts) archives) (new_convert d) of
                     Inl st \<Rightarrow> Stopped st
                   | Inr st \<Rightarrow> Finished st))
      | _ \<Rightarrow> Misused)"

end
