(* ===== verification/VerifyStore.thy ===== *)
theory VerifyStore
  imports VfdayRoundTrip Display Arguments
begin

text \<open>
  \<open>examples/verify_store.cpp\<close>: the tool that checks a directory of stored days without rebuilding
  them.  A problem carries the data of its message; the figures it prints are its counters.
\<close>

section \<open>Arguments\<close>

definition parse_hhmm :: "string \<Rightarrow> int" where
  "parse_hhmm s =
     (let hh = atoi s; colon = dropWhile (\<lambda>c. c \<noteq> CHR '':'') s; mm = (if colon = [] then 0 else atoi (tl colon))
      in hh * 3600 + mm * 60)"

record check_options =
  co_deep :: bool
  co_open :: int
  co_close :: int

definition default_check :: check_options where
  "default_check = \<lparr>co_deep = False, co_open = 9 * 3600, co_close = 15 * 3600 + 45 * 60\<rparr>"

text \<open>The loop over \<open>argv[2]\<close> and after; \<open>None\<close> for an unknown argument.\<close>

fun check_args :: "string list \<Rightarrow> check_options \<Rightarrow> check_options option" where
  "check_args [] o1 = Some o1"
| "check_args [a] o1 = (if a = ''--deep'' then Some (o1\<lparr>co_deep := True\<rparr>) else None)"
| "check_args (a # b # rest) o1 =
     (if a = ''--deep'' then check_args (b # rest) (o1\<lparr>co_deep := True\<rparr>)
      else if a = ''--open'' then check_args rest (o1\<lparr>co_open := parse_hhmm b\<rparr>)
      else if a = ''--close'' then check_args rest (o1\<lparr>co_close := parse_hhmm b\<rparr>)
      else None)"

section \<open>One file\<close>

datatype check_problem =
    NamesOtherDate string date
  | EmptyTimeline date
  | OutsideHours date nat timestamp
  | InstrumentSpans date timestamp timestamp
  | RowsDoNotSum date
  | CannotCheck string store_error

record check_state =
  ck_ok :: nat
  ck_bad :: nat
  ck_rows :: nat
  ck_instruments :: nat
  ck_stamps :: nat
  ck_problems :: "check_problem list"
  ck_first :: date
  ck_last :: date

definition new_check :: check_state where
  "new_check = \<lparr>ck_ok = 0, ck_bad = 0, ck_rows = 0, ck_instruments = 0, ck_stamps = 0, ck_problems = [],
     ck_first = Date 0, ck_last = Date 0\<rparr>"

definition report :: "check_problem list \<Rightarrow> check_state \<Rightarrow> check_state" where
  "report ps st = st\<lparr>ck_problems := ck_problems st @ ps\<rparr>"

text \<open>The timestamps outside the trading hours; the message has their number and the first.\<close>

definition outside_hours :: "timestamp \<Rightarrow> timestamp \<Rightarrow> timestamp list \<Rightarrow> timestamp list" where
  "outside_hours lo hi ts = filter (\<lambda>t. t < lo \<or> hi < t) ts"

text \<open>
  The loop of \<open>--deep\<close>: the rows counted, and the range of the instrument it stopped at if there was
  one outside the trading hours.
\<close>

fun deep_scan ::
    "disk \<Rightarrow> timestamp \<Rightarrow> timestamp \<Rightarrow> instrument_id list \<Rightarrow> vfday_session \<Rightarrow> nat \<Rightarrow>
       store_error + nat \<times> (timestamp \<times> timestamp) option" where
  "deep_scan d lo hi [] s counted = Inr (counted, None)"
| "deep_scan d lo hi (i # is) s counted =
     (case stored_quotes d i s of
        (_, Inl e) \<Rightarrow> Inl e
      | (s1, Inr c) \<Rightarrow>
          if size_of c = 0 then deep_scan d lo hi is s1 (counted + size_of c)
          else if hd (c_ts c) < lo \<or> hi < last (c_ts c)
          then Inr (counted + size_of c, Some (hd (c_ts c), last (c_ts c)))
          else deep_scan d lo hi is s1 (counted + size_of c))"

definition deep_check ::
    "disk \<Rightarrow> timestamp \<Rightarrow> timestamp \<Rightarrow> vfday_session \<Rightarrow> store_error + check_problem list" where
  "deep_check d lo hi s =
     (case deep_scan d lo hi (vf_instruments s) s 0 of Inl e \<Rightarrow> Inl e
      | Inr (counted, spans) \<Rightarrow>
          Inr ((case spans of None \<Rightarrow> [] | Some (a, b) \<Rightarrow> [InstrumentSpans (vf_date s) a b]) @
            (if counted \<noteq> vf_total_rows s then [RowsDoNotSum (vf_date s)] else [])))"

text \<open>The body of the loop over the files; every file gets a registry of its own.\<close>

definition check_file :: "check_options \<Rightarrow> disk \<Rightarrow> string \<times> string \<Rightarrow> check_state \<Rightarrow> check_state" where
  "check_file opts d = (\<lambda>(path, name) st.
     case vfday_open path d empty_registry of
       (_, Inl e) \<Rightarrow> (report [CannotCheck name e] st)\<lparr>ck_bad := ck_bad st + 1\<rparr>
     | (_, Inr s) \<Rightarrow>
         let dt = vf_date s;
             st1 = st\<lparr>ck_first := (if date_valid (ck_first st) then ck_first st else dt), ck_last := dt\<rparr>;
             st2 = (if take 10 name \<noteq> date_to_string dt then report [NamesOtherDate name dt] st1 else st1);
             lo = timestamp_of dt (co_open opts) kISTOffsetSeconds;
             hi = timestamp_of dt (co_close opts) kISTOffsetSeconds;
             st3 = (if vf_timeline s = [] then report [EmptyTimeline dt] st2 else st2);
             outside = outside_hours lo hi (vf_timeline s);
             st4 = (if outside \<noteq> [] then report [OutsideHours dt (length outside) (hd outside)] st3 else st3)
         in (case (if co_deep opts then deep_check d lo hi s else Inr []) of
               Inl e \<Rightarrow> (report [CannotCheck name e] st4)\<lparr>ck_bad := ck_bad st4 + 1\<rparr>
             | Inr ps \<Rightarrow> (report ps st4)
                 \<lparr>ck_rows := ck_rows st4 + vf_total_rows s, ck_instruments := ck_instruments st4 + length (vf_instruments s),
                  ck_stamps := ck_stamps st4 + length (vf_timeline s), ck_ok := ck_ok st4 + 1\<rparr>))"

section \<open>The tool\<close>

text \<open>How \<open>main\<close> ends: a missing directory is an exception nothing catches.\<close>

datatype check_outcome = Usage | Uncaught | NoFiles | Checked check_state

definition exit_code :: "check_outcome \<Rightarrow> int option" where
  "exit_code r = (case r of Usage \<Rightarrow> Some 2 | Uncaught \<Rightarrow> None | NoFiles \<Rightarrow> Some 1
     | Checked st \<Rightarrow> Some (if ck_problems st = [] then 0 else 1))"

text \<open>An entry of the directory: path, file name, whether it is a regular file.\<close>

definition store_files :: "(string \<times> string \<times> bool) list \<Rightarrow> (string \<times> string) list" where
  "store_files entries =
     sort_key fst (map (\<lambda>(p, n, _). (p, n)) (filter (\<lambda>(_, n, regular). regular \<and> path_extension n = ''.vfday'') entries))"

definition verify_store ::
    "string list \<Rightarrow> (string \<Rightarrow> (string \<times> string \<times> bool) list option) \<Rightarrow> disk \<Rightarrow> check_outcome" where
  "verify_store argv listing d =
     (case argv of
        dir # rest \<Rightarrow>
          (case check_args rest default_check of None \<Rightarrow> Usage
           | Some opts \<Rightarrow>
              (case listing dir of None \<Rightarrow> Uncaught
               | Some entries \<Rightarrow>
                   if store_files entries = [] then NoFiles
                   else Checked (fold (check_file opts d) (store_files entries) new_check)))
      | [] \<Rightarrow> Usage)"

end
