(* ===== verification/VerifyStoreLaws.thy ===== *)
theory VerifyStoreLaws
  imports VerifyStore
begin

text \<open>
  What the store check decides: it is clean exactly when every file opens as a session that trades in
  the given hours under its file name, and it is clean on days the writer stored.
\<close>

section \<open>One file\<close>

definition hours_of :: "check_options \<Rightarrow> date \<Rightarrow> timestamp \<times> timestamp" where
  "hours_of opts dt = (timestamp_of dt (co_open opts) kISTOffsetSeconds, timestamp_of dt (co_close opts) kISTOffsetSeconds)"

definition within_hours :: "check_options \<Rightarrow> date \<Rightarrow> timestamp list \<Rightarrow> bool" where
  "within_hours opts dt ts \<longleftrightarrow> (\<forall>t \<in> set ts. fst (hours_of opts dt) \<le> t \<and> t \<le> snd (hours_of opts dt))"

text \<open>The columns of a file, decoded one instrument after the other; \<open>None\<close> when one does not decode.\<close>

fun read_columns :: "disk \<Rightarrow> instrument_id list \<Rightarrow> vfday_session \<Rightarrow> quote_columns list option" where
  "read_columns d [] s = Some []"
| "read_columns d (i # is) s =
     (case stored_quotes d i s of
        (_, Inl _) \<Rightarrow> None
      | (s1, Inr c) \<Rightarrow> map_option (Cons c) (read_columns d is s1))"

text \<open>What a clean check means for a file: a name, a timeline, and with \<open>--deep\<close> columns that all decode,
  start and end in the trading hours and together have as many rows as the header says.\<close>

definition day_sound :: "check_options \<Rightarrow> disk \<Rightarrow> string \<times> string \<Rightarrow> bool" where
  "day_sound opts d = (\<lambda>(path, name). \<exists>reg s. vfday_open path d empty_registry = (reg, Inr s) \<and>
     take 10 name = date_to_string (vf_date s) \<and> vf_timeline s \<noteq> [] \<and>
     within_hours opts (vf_date s) (vf_timeline s) \<and>
     (co_deep opts \<longrightarrow> (\<exists>cs. read_columns d (vf_instruments s) s = Some cs \<and>
        sum_list (map size_of cs) = vf_total_rows s \<and>
        (\<forall>c \<in> set cs. c_ts c \<noteq> [] \<longrightarrow>
          fst (hours_of opts (vf_date s)) \<le> hd (c_ts c) \<and> last (c_ts c) \<le> snd (hours_of opts (vf_date s))))))"

text \<open>The scan gets to the end exactly when that holds.\<close>

lemma deep_scan_clean:
  "deep_scan d lo hi is s n = Inr (k, None) \<longleftrightarrow>
    (\<exists>cs. read_columns d is s = Some cs \<and> k = n + sum_list (map size_of cs) \<and>
      (\<forall>c \<in> set cs. c_ts c \<noteq> [] \<longrightarrow> lo \<le> hd (c_ts c) \<and> last (c_ts c) \<le> hi))"
proof (induction "is" arbitrary: s n)
  case (Cons i "is")
  obtain s1 r where q: "stored_quotes d i s = (s1, r)" by (cases "stored_quotes d i s")
  show ?case
  proof (cases r)
    case (Inr c)
    show ?thesis
    proof (cases "c_ts c \<noteq> [] \<and> (hd (c_ts c) < lo \<or> hi < last (c_ts c))")
      case True
      then show ?thesis by (auto simp: q Inr size_of_def)
    next
      case False
      then have "deep_scan d lo hi (i # is) s n = deep_scan d lo hi is s1 (n + size_of c)"
        by (auto simp: q Inr size_of_def)
      then show ?thesis using False by (auto simp: q Inr Cons.IH not_less)
    qed
  qed (simp add: q)
qed auto

lemma deep_check_clean:
  "deep_check d lo hi s = Inr [] \<longleftrightarrow>
    (\<exists>cs. read_columns d (vf_instruments s) s = Some cs \<and> sum_list (map size_of cs) = vf_total_rows s \<and>
      (\<forall>c \<in> set cs. c_ts c \<noteq> [] \<longrightarrow> lo \<le> hd (c_ts c) \<and> last (c_ts c) \<le> hi))"
proof -
  have "deep_check d lo hi s = Inr [] \<longleftrightarrow> deep_scan d lo hi (vf_instruments s) s 0 = Inr (vf_total_rows s, None)"
    by (auto simp: deep_check_def split: sum.splits option.splits)
  then show ?thesis by (auto simp: deep_scan_clean)
qed

lemma day_sound_iff:
  "day_sound opts d (path, name) \<longleftrightarrow> (\<exists>reg s. vfday_open path d empty_registry = (reg, Inr s) \<and>
     take 10 name = date_to_string (vf_date s) \<and> vf_timeline s \<noteq> [] \<and>
     within_hours opts (vf_date s) (vf_timeline s) \<and>
     (co_deep opts \<longrightarrow> deep_check d (fst (hours_of opts (vf_date s))) (snd (hours_of opts (vf_date s))) s = Inr []))"
  by (simp add: day_sound_def deep_check_clean)

lemma report_fields [simp]:
  "ck_problems (report ps st) = ck_problems st @ ps" "ck_ok (report ps st) = ck_ok st" "ck_bad (report ps st) = ck_bad st"
  "ck_rows (report ps st) = ck_rows st"
  by (simp_all add: report_def)

lemma outside_hours_none: "outside_hours (fst (hours_of opts dt)) (snd (hours_of opts dt)) ts = [] \<longleftrightarrow> within_hours opts dt ts"
  by (auto simp: outside_hours_def within_hours_def filter_empty_conv not_less)

text \<open>A file adds problems exactly when it is not sound, and a sound one counts.\<close>

lemma check_file_problems:
  "\<exists>ps. ck_problems (check_file opts d f st) = ck_problems st @ ps \<and> (ps = [] \<longleftrightarrow> day_sound opts d f)"
proof -
  obtain path name where f: "f = (path, name)" by (cases f)
  obtain reg r where o1: "vfday_open path d empty_registry = (reg, r)" by (cases "vfday_open path d empty_registry")
  show ?thesis
  proof (cases r)
    case (Inl e)
    then show ?thesis by (simp add: check_file_def day_sound_iff f o1)
  next
    case (Inr s)
    let ?lo = "fst (hours_of opts (vf_date s))" and ?hi = "snd (hours_of opts (vf_date s))"
    note out = outside_hours_none [of opts "vf_date s" "vf_timeline s"]
    have lohi: "timestamp_of (vf_date s) (co_open opts) kISTOffsetSeconds = ?lo"
      "timestamp_of (vf_date s) (co_close opts) kISTOffsetSeconds = ?hi" by (simp_all add: hours_of_def)
    show ?thesis
    proof (cases "if co_deep opts then deep_check d ?lo ?hi s else Inr []")
      case (Inl e)
      then show ?thesis
        using out by (auto simp: check_file_def day_sound_iff f o1 Inr lohi Let_def split: if_splits)
    next
      case (Inr ps)
      then show ?thesis
        using out by (auto simp: check_file_def day_sound_iff f o1 \<open>r = Inr s\<close> lohi Let_def split: if_splits)
    qed
  qed
qed

lemma check_files_problems:
  "\<exists>ps. ck_problems (fold (check_file opts d) fs st) = ck_problems st @ ps \<and> (ps = [] \<longleftrightarrow> (\<forall>f \<in> set fs. day_sound opts d f))"
proof (induction fs arbitrary: st)
  case (Cons f fs)
  obtain ps qs where "ck_problems (check_file opts d f st) = ck_problems st @ ps" "ps = [] \<longleftrightarrow> day_sound opts d f"
    "ck_problems (fold (check_file opts d) fs (check_file opts d f st)) = ck_problems (check_file opts d f st) @ qs"
    "qs = [] \<longleftrightarrow> (\<forall>f \<in> set fs. day_sound opts d f)"
    using check_file_problems [of opts d f st] Cons.IH [of "check_file opts d f st"] by blast
  then show ?case by (intro exI [of _ "ps @ qs"]) simp
qed simp

section \<open>Days the writer stored\<close>

definition holds_day :: "disk \<Rightarrow> string \<Rightarrow> session_data \<Rightarrow> bool" where
  "holds_day d path sd \<longleftrightarrow> storable sd \<and>
     (\<exists>w h bytes. file_for sd w h bytes \<and> disk_files d path = Some \<lparr>df_readable = True, df_bytes = bytes\<rparr>)"

lemma written_holds_day: "storable sd \<Longrightarrow> write_vfday sd path verify d = Inr (d', stats) \<Longrightarrow> holds_day d' path sd"
  using write_storable [of sd path d] by (fastforce simp: holds_day_def split: if_splits)

lemma open_day:
  assumes "holds_day d path sd"
  obtains reg s w where "vfday_open path d empty_registry = (reg, Inr s)" and "intact sd w d s"
    and "vf_date s = sd_date sd" and "vf_total_rows s = sd_total_observations sd" and "vf_timeline s = distinct_times sd"
    and "length (vf_instruments s) = length (stored_ids sd)"
proof -
  obtain w h bytes where f: "storable sd" "file_for sd w h bytes" "disk_files d path = Some \<lparr>df_readable = True, df_bytes = bytes\<rparr>"
    using assms unfolding holds_day_def by blast
  have "length (stored_ids sd) < 2 ^ 31" using file_for_parts(1,2) [OF f(1,2)] by (simp add: writer_ok_def fits_def)
  then have room: "room_left (length (stored_ids sd)) empty_registry" by (simp add: room_left_def empty_registry_def)
  obtain reg s where o1: "vfday_open path d empty_registry = (reg, Inr s)" "reopened sd w empty_registry (length (stored_ids sd)) reg s"
    "vf_path s = path" "vf_date s = sd_date sd" "vf_total_rows s = sd_total_observations sd"
    "vf_timeline s = distinct_times sd" "vf_decoded s = []" "vf_file s = None"
    using open_stored [OF f registry_ok_empty room] by blast
  have "intact sd w d s" using reopened_intact [OF f(1,2) _ o1(2,7,8)] f(3) o1(3) by simp
  moreover have "length (vf_instruments s) = length (stored_ids sd)" using o1(2) unfolding reopened_def by blast
  ultimately show thesis using o1(1,4-6) that by blast
qed

text \<open>Every instrument decodes; the rows add up when all of them lie in the trading hours.\<close>

lemma deep_scan_intact:
  assumes "storable sd" and "intact sd w d s" and "\<forall>i. size_of (served sd s i) \<noteq> 0 \<longrightarrow>
    lo \<le> hd (c_ts (served sd s i)) \<and> last (c_ts (served sd s i)) \<le> hi"
  shows "deep_scan d lo hi is s n = Inr (n + sum_list (map (\<lambda>i. size_of (served sd s i)) is), None)"
  using assms(2,3)
proof (induction "is" arbitrary: s n)
  case (Cons i "is")
  obtain s1 where s1: "stored_quotes d i s = (s1, Inr (served sd s i))" "intact sd w d s1" "vf_instruments s1 = vf_instruments s"
    using intact_quotes [OF assms(1) Cons.prems(1)] by blast
  have c: "served sd s1 = served sd s" by (rule served_cong [OF s1(3)])
  have "deep_scan d lo hi is s1 m = Inr (m + sum_list (map (\<lambda>i. size_of (served sd s i)) is), None)" for m
    using Cons.IH [OF s1(2)] Cons.prems(2) by (simp add: c)
  moreover have "\<not> (hd (c_ts (served sd s i)) < lo \<or> hi < last (c_ts (served sd s i)))" if "size_of (served sd s i) \<noteq> 0"
    using Cons.prems(2) that by (simp add: not_less)
  ultimately show ?case by (simp add: s1(1))
qed simp

lemma stored_day_sound:
  assumes "holds_day d path sd" and "take 10 name = date_to_string (sd_date sd)"
    and "distinct_times sd \<noteq> []" and "within_hours opts (sd_date sd) (distinct_times sd)"
  shows "day_sound opts d (path, name)"
proof -
  obtain reg s w where s: "vfday_open path d empty_registry = (reg, Inr s)" "intact sd w d s" "vf_date s = sd_date sd"
    "vf_total_rows s = sd_total_observations sd" "vf_timeline s = distinct_times sd"
    using open_day [OF assms(1)] by metis
  have st: "storable sd" using assms(1) by (simp add: holds_day_def)
  have ok: "session_ok (stored_data reg d s)" by (rule stored_session_ok [OF st s(2,4,5)])
  have q: "sd_quotes (stored_data reg d s) = served sd s" by (rule stored_data_quotes [OF st s(2)])
  let ?lo = "fst (hours_of opts (vf_date s))" and ?hi = "snd (hours_of opts (vf_date s))"
  have times: "set (c_ts (served sd s i)) \<subseteq> set (vf_timeline s)" for i
    using served_times [OF st s(2)] distinct_times_laws(2) [OF storableD(1) [OF st]] s(5) by auto
  have "?lo \<le> hd (c_ts (served sd s i)) \<and> last (c_ts (served sd s i)) \<le> ?hi" if "size_of (served sd s i) \<noteq> 0" for i
  proof -
    have "c_ts (served sd s i) \<noteq> []" using that by (auto simp: size_of_def)
    then have "hd (c_ts (served sd s i)) \<in> set (vf_timeline s)" "last (c_ts (served sd s i)) \<in> set (vf_timeline s)"
      using times hd_in_set last_in_set by blast+
    then show ?thesis using assms(4) s(3,5) by (simp add: within_hours_def)
  qed
  then have "deep_scan d ?lo ?hi (vf_instruments s) s 0 = Inr (sum_list (map (\<lambda>i. size_of (served sd s i)) (vf_instruments s)), None)"
    using deep_scan_intact [OF st s(2), of ?lo ?hi "vf_instruments s" 0] by simp
  moreover have "sum_list (map (\<lambda>i. size_of (served sd s i)) (vf_instruments s)) = vf_total_rows s"
    using session_okD(8) [OF ok] by (simp add: length_all_events q) (simp add: stored_data_def)
  ultimately have "deep_check d ?lo ?hi s = Inr []" by (simp add: deep_check_def)
  then show ?thesis using s assms(2-4) by (simp add: day_sound_iff)
qed

text \<open>What a sound file adds to the counters.\<close>

lemma sound_day_counts:
  assumes "day_sound opts d (path, name)" and "vfday_open path d empty_registry = (reg, Inr s)"
  shows "ck_ok (check_file opts d (path, name) st) = ck_ok st + 1" and "ck_bad (check_file opts d (path, name) st) = ck_bad st"
    and "ck_rows (check_file opts d (path, name) st) = ck_rows st + vf_total_rows s"
  using assms by (auto simp: check_file_def day_sound_iff hours_of_def Let_def)

lemma stored_days_counts:
  assumes "\<forall>(path, name) \<in> set fs. holds_day d path (days path) \<and> day_sound opts d (path, name)"
  shows "ck_ok (fold (check_file opts d) fs st) = ck_ok st + length fs \<and> ck_bad (fold (check_file opts d) fs st) = ck_bad st \<and>
    ck_rows (fold (check_file opts d) fs st) = ck_rows st + sum_list (map (\<lambda>(path, _). sd_total_observations (days path)) fs)"
  using assms
proof (induction fs arbitrary: st)
  case (Cons f fs)
  obtain path name where f: "f = (path, name)" by (cases f)
  have day: "holds_day d path (days path)" "day_sound opts d (path, name)" using Cons.prems f by auto
  obtain reg s where s: "vfday_open path d empty_registry = (reg, Inr s)" "vf_total_rows s = sd_total_observations (days path)"
    using open_day [OF day(1)] by metis
  show ?case
    using Cons.IH [of "check_file opts d f st"] Cons.prems sound_day_counts [OF day(2) s(1)] s(2) by (simp add: f)
qed simp

section \<open>Property\<close>

text \<open>The files of a store are the regular entries with its extension, in some order.\<close>

lemma store_files_mset:
  "mset (store_files entries) =
    mset (map (\<lambda>(p, n, _). (p, n)) (filter (\<lambda>(_, n, regular). regular \<and> path_extension n = ''.vfday'') entries))"
  by (simp add: store_files_def)

lemma store_files_set: "(p, n) \<in> set (store_files entries) \<longleftrightarrow> (p, n, True) \<in> set entries \<and> path_extension n = ''.vfday''"
  by (auto simp: store_files_def image_iff split: prod.splits)

text \<open>C34: the store check.  With options it accepts and a directory it can list, it ends with code 0
  exactly when there is a file to check, that is a regular entry with the extension of the store, and
  every one opens, is named after its date, has a timeline, all of it inside the trading hours,
  and, with \<open>--deep\<close>, decodes column by column to as many rows in all as its header says, the first
  observation of each column not before the hours and the last not after them.  On a directory with
  files, all days the writer stored under their names and trading in those hours, it reports nothing
  and counts every file and every row.\<close>

theorem store_check_is_exact:
  assumes "check_args rest default_check = Some opts" and "listing dir = Some entries"
    and files: "files = filter (\<lambda>(path, name, regular). regular \<and> path_extension name = ''.vfday'') entries"
  shows "(exit_code (verify_store (dir # rest) listing d) = Some 0 \<longleftrightarrow>
      files \<noteq> [] \<and>
      (\<forall>(path, name, _) \<in> set files. \<exists>reg s. vfday_open path d empty_registry = (reg, Inr s) \<and>
         take 10 name = date_to_string (vf_date s) \<and> vf_timeline s \<noteq> [] \<and>
         (\<forall>t \<in> set (vf_timeline s). timestamp_of (vf_date s) (co_open opts) kISTOffsetSeconds \<le> t \<and>
            t \<le> timestamp_of (vf_date s) (co_close opts) kISTOffsetSeconds) \<and>
         (co_deep opts \<longrightarrow> (\<exists>cs. read_columns d (vf_instruments s) s = Some cs \<and>
            sum_list (map size_of cs) = vf_total_rows s \<and>
            (\<forall>c \<in> set cs. c_ts c \<noteq> [] \<longrightarrow>
               timestamp_of (vf_date s) (co_open opts) kISTOffsetSeconds \<le> hd (c_ts c) \<and>
               last (c_ts c) \<le> timestamp_of (vf_date s) (co_close opts) kISTOffsetSeconds))))) \<and>
    (files \<noteq> [] \<and> (\<forall>(path, name, _) \<in> set files. holds_day d path (days path) \<and>
        take 10 name = date_to_string (sd_date (days path)) \<and> distinct_times (days path) \<noteq> [] \<and>
        (\<forall>t \<in> set (distinct_times (days path)). timestamp_of (sd_date (days path)) (co_open opts) kISTOffsetSeconds \<le> t \<and>
           t \<le> timestamp_of (sd_date (days path)) (co_close opts) kISTOffsetSeconds)) \<longrightarrow>
      (\<exists>st. verify_store (dir # rest) listing d = Checked st \<and> ck_problems st = [] \<and>
        ck_ok st = length files \<and> ck_bad st = 0 \<and>
        ck_rows st = sum_list (map (\<lambda>(path, _, _). sd_total_observations (days path)) files)))"
proof -
  let ?fs = "store_files entries"
  let ?st = "fold (check_file opts d) ?fs new_check"
  have ms: "mset ?fs = mset (map (\<lambda>(p, n, _). (p, n)) files)" by (simp only: store_files_mset files)
  have mem: "(p, n) \<in> set ?fs \<longleftrightarrow> (p, n, True) \<in> set files" for p n
    by (auto simp: store_files_set files)
  have regular: "x \<in> set files \<Longrightarrow> snd (snd x)" for x by (auto simp: files)
  have all: "(\<forall>(p, n, _) \<in> set files. P p n) \<longleftrightarrow> (\<forall>(p, n) \<in> set ?fs. P p n)" for P
    using mem regular by force
  have len: "length ?fs = length files" using arg_cong [OF ms, of size] by simp
  have sum: "sum_list (map (\<lambda>(p, _). g p) ?fs) = sum_list (map (\<lambda>(p, _, _). g p) files)" for g :: "string \<Rightarrow> nat"
  proof -
    have "mset (map (\<lambda>x. g (fst x)) ?fs) = mset (map (\<lambda>x. g (fst x)) files)"
      using arg_cong [OF ms, of "image_mset (\<lambda>x. g (fst x))"]
      by (simp add: comp_def case_prod_beta image_mset.compositionality)
    then have "sum_list (map (\<lambda>x. g (fst x)) ?fs) = sum_list (map (\<lambda>x. g (fst x)) files)" by (metis sum_mset_sum_list)
    then show ?thesis by (simp add: case_prod_beta')
  qed
  have empty: "?fs = [] \<longleftrightarrow> files = []" using len by (metis length_0_conv)
  have run: "?fs \<noteq> [] \<Longrightarrow> verify_store (dir # rest) listing d = Checked ?st" using assms(1,2) by (simp add: verify_store_def)
  have none: "?fs = [] \<Longrightarrow> verify_store (dir # rest) listing d = NoFiles" using assms(1,2) by (simp add: verify_store_def)
  have clean: "ck_problems ?st = [] \<longleftrightarrow> (\<forall>f \<in> set ?fs. day_sound opts d f)"
    using check_files_problems [of opts d ?fs new_check] by (auto simp: new_check_def)
  have "exit_code (verify_store (dir # rest) listing d) = Some 0 \<longleftrightarrow> files \<noteq> [] \<and> (\<forall>(p, n, _) \<in> set files. day_sound opts d (p, n))"
    unfolding all [of "\<lambda>p n. day_sound opts d (p, n)"] using clean run none empty
    by (cases "?fs = []") (auto simp: exit_code_def)
  moreover have "ck_problems ?st = [] \<and> ck_ok ?st = length files \<and> ck_bad ?st = 0 \<and>
      ck_rows ?st = sum_list (map (\<lambda>(path, _, _). sd_total_observations (days path)) files)"
    if days: "\<forall>(path, name, _) \<in> set files. holds_day d path (days path) \<and>
        take 10 name = date_to_string (sd_date (days path)) \<and> distinct_times (days path) \<noteq> [] \<and>
        within_hours opts (sd_date (days path)) (distinct_times (days path))"
  proof -
    have "\<forall>(path, name) \<in> set ?fs. holds_day d path (days path) \<and> day_sound opts d (path, name)"
      using days stored_day_sound unfolding all [of "\<lambda>path name. holds_day d path (days path) \<and>
        take 10 name = date_to_string (sd_date (days path)) \<and> distinct_times (days path) \<noteq> [] \<and>
        within_hours opts (sd_date (days path)) (distinct_times (days path))"] by fastforce
    then show ?thesis
      using stored_days_counts [of ?fs d days opts new_check] clean len sum by (fastforce simp: new_check_def)
  qed
  ultimately show ?thesis using run empty
    unfolding within_hours_def hours_of_def day_sound_def fst_conv snd_conv prod.case by blast
qed

text \<open>A day of one quote, a microsecond after the epoch: half past five in the morning.\<close>

definition early_day :: session_data where
  "early_day = sample_store\<lparr>sd_date := Date 19700101\<rparr>"

lemma early_day_storable: "storable early_day"
proof -
  have events: "all_events early_day = all_events sample_store" by (simp add: all_events_def early_day_def)
  then have ok: "session_ok early_day = session_ok sample_store"
    by (simp add: session_ok_def distinct_times_def) (simp add: early_day_def)
  have times: "stored_timeline early_day = stored_timeline sample_store"
    by (simp add: stored_timeline_def early_day_def sample_store_def memory_data_def)
  have listed: "listed_as early_day = listed_as sample_store" by (simp add: listed_as_def early_day_def fun_eq_iff)
  have "name_length early_day = name_length sample_store"
    by (simp add: name_length_def early_day_def fun_eq_iff split: sum.split)
  then have "instrument_size early_day = instrument_size sample_store"
    by (simp add: instrument_size_def early_day_def fun_eq_iff)
  then have "store_size early_day = store_size sample_store" by (simp add: store_size_def times) (simp add: early_day_def)
  then show ?thesis
    using sample_storable unfolding storable_def ok listed by (simp add: early_day_def)
qed

theorem store_check_is_exact_witness:
  "\<exists>d stats st. write_vfday early_day ''s/1970-01-01.vfday'' True empty_disk = Inr (d, stats) \<and>
     verify_store [''s'', ''--deep'', ''--open'', ''05:00'', ''--close'', ''06:00'']
       [''s'' \<mapsto> [(''s/1970-01-01.vfday'', ''1970-01-01.vfday'', True)]] d = Checked st \<and> ck_ok st = 1 \<and> ck_rows st = 1"
proof -
  obtain d stats where w: "write_vfday early_day ''s/1970-01-01.vfday'' True empty_disk = Inr (d, stats)"
    using write_storable [OF early_day_storable, of "''s/1970-01-01.vfday''" empty_disk] by (auto simp: empty_disk_def)
  define opts where "opts = \<lparr>co_deep = True, co_open = 18000, co_close = 21600\<rparr>"
  have args: "check_args [''--deep'', ''--open'', ''05:00'', ''--close'', ''06:00''] default_check = Some opts"
    unfolding opts_def by code_simp
  have files: "path_extension ''1970-01-01.vfday'' = ''.vfday''" by code_simp
  have name: "take 10 ''1970-01-01.vfday'' = date_to_string (Date 19700101)" by code_simp
  have times: "distinct_times early_day = [Timestamp 1000]" "sd_total_observations early_day = 1" "sd_date early_day = Date 19700101"
    by code_simp+
  have hours: "within_hours opts (Date 19700101) [Timestamp 1000]" unfolding opts_def by code_simp
  have day: "holds_day d ''s/1970-01-01.vfday'' early_day" by (rule written_holds_day [OF early_day_storable w])
  note check = store_check_is_exact [OF args _ refl, of "[''s'' \<mapsto> [(''s/1970-01-01.vfday'', ''1970-01-01.vfday'', True)]]" "''s''"
      "[(''s/1970-01-01.vfday'', ''1970-01-01.vfday'', True)]" d "\<lambda>_. early_day"]
  from check have "\<exists>st. verify_store [''s'', ''--deep'', ''--open'', ''05:00'', ''--close'', ''06:00'']
       [''s'' \<mapsto> [(''s/1970-01-01.vfday'', ''1970-01-01.vfday'', True)]] d = Checked st \<and> ck_ok st = 1 \<and> ck_rows st = 1"
    using day name hours by (auto simp: files times within_hours_def hours_of_def)
  with w show ?thesis by blast
qed

end
