(* ===== verification/GfdlLaws.thy ===== *)
theory GfdlLaws
  imports Gfdl
begin

text \<open>
  The laws of the CSV adapter: a buffer is its lines, what one line can do to the day, the invariant
  of a day being loaded, and the round trip of the vendor's formats.
\<close>

section \<open>Lines\<close>

fun split_by :: "(char \<Rightarrow> bool) \<Rightarrow> string \<Rightarrow> string list" where
  "split_by P [] = [[]]"
| "split_by P (c # cs) =
     (if P c then [] # split_by P cs
      else case split_by P cs of [] \<Rightarrow> [[c]] | l # ls \<Rightarrow> (c # l) # ls)"

definition lines_of :: "string \<Rightarrow> string list" where
  "lines_of p = filter (\<lambda>l. l \<noteq> []) (split_by newline p)"

lemma split_by_none: "\<forall>c \<in> set xs. \<not> P c \<Longrightarrow> split_by P xs = [xs]"
  by (induction xs) simp_all

lemma split_by_append: "\<forall>c \<in> set xs. \<not> P c \<Longrightarrow> P c \<Longrightarrow> split_by P (xs @ c # ys) = xs # split_by P ys"
  by (induction xs) simp_all

lemma lines_of_newline: "newline c \<Longrightarrow> lines_of (c # cs) = lines_of cs"
  by (simp add: lines_of_def)

lemma lines_of_drop: "lines_of (dropWhile newline p) = lines_of p"
  by (induction p) (simp_all add: lines_of_newline)

lemma lines_of_nil [simp]: "lines_of [] = []"
  by (simp add: lines_of_def)

lemma lines_of_line:
  assumes "\<forall>c \<in> set l. \<not> newline c" and "l \<noteq> []" and "p = [] \<or> newline (hd p)"
  shows "lines_of (l @ p) = l # lines_of p"
proof (cases p)
  case Nil
  then show ?thesis using assms by (simp add: lines_of_def split_by_none)
next
  case (Cons c cs)
  then show ?thesis using assms split_by_append [of l newline c cs] by (simp add: lines_of_def lines_of_newline)
qed

lemma csv_loop_lines: "csv_loop opts reg i p st = try_fold (csv_line opts reg i) (lines_of p) st"
proof (induction opts reg i p st rule: csv_loop.induct)
  case (2 opts reg i c cs st)
  show ?case
  proof (cases "newline c")
    case True
    then show ?thesis using 2(1) by (simp add: lines_of_newline)
  next
    case False
    let ?l = "takeWhile (\<lambda>c. \<not> newline c) (c # cs)" and ?p = "dropWhile (\<lambda>c. \<not> newline c) (c # cs)"
    have "?p = [] \<or> newline (hd ?p)" using hd_dropWhile [of "\<lambda>c. \<not> newline c" "c # cs"] by blast
    moreover have "\<forall>c \<in> set ?l. \<not> newline c" by (auto dest: set_takeWhileD)
    moreover have "?l \<noteq> []" using False by simp
    ultimately have "lines_of (?l @ ?p) = ?l # lines_of ?p" by (intro lines_of_line)
    then have split: "lines_of (c # cs) = ?l # lines_of (dropWhile newline ?p)"
      by (simp only: takeWhile_dropWhile_id lines_of_drop)
    show ?thesis
    proof (cases "csv_line opts reg i ?l st")
      case (Inl e)
      then show ?thesis unfolding split using False by simp
    next
      case (Inr st')
      have "csv_loop opts reg i (dropWhile newline ?p) st' = try_fold (csv_line opts reg i) (lines_of (dropWhile newline ?p)) st'"
        by (rule 2(2) [OF False refl Inr])
      then show ?thesis unfolding split using False Inr by (simp add: Let_def)
    qed
  qed
qed simp

section \<open>One line\<close>

text \<open>A line is skipped, possibly after fixing the day's date, or its quote is appended.\<close>

lemma csv_line_cases:
  assumes "csv_line opts reg i line st = Inr st'"
  obtains (skip) "st' = skip_row st"
  | (late) d where "date_valid d" "date_valid (sk_expected (cv_sink st)) \<Longrightarrow> d = sk_expected (cv_sink st)"
      "st' = skip_row (st\<lparr>cv_sink := (cv_sink st)\<lparr>sk_expected := d\<rparr>,
        cv_row_date := (if date_valid (cv_row_date st) then cv_row_date st else d)\<rparr>)"
  | (admit) d q s where "date_valid d" "date_valid (sk_expected (cv_sink st)) \<Longrightarrow> d = sk_expected (cv_sink st)"
      "0 \<le> s" "s < 86400" "q_ts q = timestamp_of d s (utc_offset_seconds opts)"
      "admit_row reg i d q (st\<lparr>cv_sink := (cv_sink st)\<lparr>sk_expected := d\<rparr>,
        cv_row_date := (if date_valid (cv_row_date st) then cv_row_date st else d)\<rparr>) = Inr st'"
proof -
  define r where "r = scan_row line"
  define d where "d = Date (to_i32 (row_year r * 10000 + row_month r * 100 + row_day r))"
  define s where "s = row_hour r * 3600 + row_minute r * 60 + row_second r"
  define q where "q = (row_quote r)\<lparr>q_ts := timestamp_of d s (utc_offset_seconds opts)\<rparr>"
  define st1 where "st1 = st\<lparr>cv_sink := (cv_sink st)\<lparr>sk_expected := d\<rparr>,
        cv_row_date := (if date_valid (cv_row_date st) then cv_row_date st else d)\<rparr>"
  show ?thesis
  proof (cases "length (filter (\<lambda>c. c = CHR '','') line) \<noteq> 9 \<or> \<not> row_in_range r \<or>
      (date_valid (sk_expected (cv_sink st)) \<and> d \<noteq> sk_expected (cv_sink st))")
    case True
    have "st' = skip_row st"
      using assms [unfolded csv_line_def Let_def, folded r_def, folded d_def] True by (simp split: if_split_asm)
    then show ?thesis by (rule skip)
  next
    case False
    then have range: "row_in_range r" and same: "date_valid (sk_expected (cv_sink st)) \<Longrightarrow> d = sk_expected (cv_sink st)" by auto
    have dv: "date_valid d" using range by (simp add: d_def date_valid_def row_in_range_def to_i32_id)
    have s: "0 \<le> s" "s < 86400" using range by (simp_all add: s_def row_in_range_def)
    have sk: "(if date_valid (sk_expected (cv_sink st)) then cv_sink st else (cv_sink st)\<lparr>sk_expected := d\<rparr>) = (cv_sink st)\<lparr>sk_expected := d\<rparr>"
      using same by (cases "cv_sink st") auto
    have no: "(length (filter (\<lambda>c. c = CHR '','') line) \<noteq> 9) = False" "(\<not> row_in_range r) = False"
      "(date_valid (sk_expected (cv_sink st)) \<and> d \<noteq> sk_expected (cv_sink st)) = False"
      using False by auto
    note run = assms [unfolded csv_line_def Let_def, folded r_def, folded d_def, unfolded no if_False sk,
      folded s_def, folded q_def, folded st1_def]
    have qt: "q_ts q = timestamp_of d s (utc_offset_seconds opts)" by (simp add: q_def)
    consider "Inr (skip_row st1) = (Inr st' :: exn + csv_state)" | "admit_row reg i d q st1 = Inr st'"
    proof (cases "cv_previous st1")
      case None
      show ?thesis by (rule that(2)) (rule run [unfolded None option.case])
    next
      case (Some t)
      note run = run [unfolded Some option.case]
      show ?thesis
      proof (cases "q_ts q < t")
        case True
        show ?thesis by (rule that(1)) (rule run [unfolded Eq_TrueI [OF True] if_True])
      next
        case False
        show ?thesis by (rule that(2)) (rule run [unfolded Eq_FalseI [OF False] if_False])
      qed
    qed
    then show ?thesis
    proof cases
      case 1
      then have "st' = skip_row st1" by (simp only: sum.inject)
      then show ?thesis unfolding st1_def by (rule late [OF dv, rotated]) (rule same)
    next
      case 2
      show ?thesis by (rule admit [OF dv _ s qt 2 [unfolded st1_def]]) (rule same)
    qed
  qed
qed

section \<open>The invariant of a day\<close>

definition within_day :: "int \<Rightarrow> date \<Rightarrow> timestamp \<Rightarrow> bool" where
  "within_day off d t \<longleftrightarrow> (\<exists>s. 0 \<le> s \<and> s < 86400 \<and> t = timestamp_of d s off)"

definition sink_ok :: "int \<Rightarrow> row_sink \<Rightarrow> bool" where
  "sink_ok off sk \<longleftrightarrow>
     (case sk_session sk of
        None \<Rightarrow> sk_read sk = 0 \<and> sk_date sk = Date 0
      | Some m \<Rightarrow> memory_ok m \<and> ms_total m = sk_read sk \<and> ms_date m = sk_date sk \<and> sk_date sk = sk_expected sk \<and>
          date_valid (sk_date sk) \<and> (\<forall>i. \<forall>t \<in> set (c_ts (ms_quotes m i)). within_day off (sk_date sk) t))"

definition sink_instruments :: "row_sink \<Rightarrow> instrument_id set" where
  "sink_instruments sk = (case sk_session sk of None \<Rightarrow> {} | Some m \<Rightarrow> set (ms_instruments m))"

text \<open>What any line, and so any file, does to the sink.\<close>

definition sink_step :: "int \<Rightarrow> instrument_id \<Rightarrow> nat \<Rightarrow> row_sink \<Rightarrow> row_sink \<Rightarrow> bool" where
  "sink_step off i n sk sk' \<longleftrightarrow>
     sk_read sk' + sk_skipped sk' = sk_read sk + sk_skipped sk + n \<and> sk_read sk \<le> sk_read sk' \<and>
     (date_valid (sk_expected sk) \<longrightarrow> sk_expected sk' = sk_expected sk) \<and>
     sink_instruments sk' \<subseteq> insert i (sink_instruments sk) \<and>
     (sink_ok off sk \<longrightarrow> sk_read sk' < 2 ^ 32 \<longrightarrow> sink_ok off sk')"

lemma sink_step_refl: "sink_step off i 0 sk sk"
  by (auto simp: sink_step_def)

lemma sink_step_trans:
  assumes "sink_step off i n sk sk1" and "sink_step off i k sk1 sk2"
  shows "sink_step off i (n + k) sk sk2"
proof -
  note a = assms [unfolded sink_step_def]
  have "sk_read sk2 + sk_skipped sk2 = sk_read sk + sk_skipped sk + (n + k)" "sk_read sk \<le> sk_read sk2"
    using a by linarith+
  moreover have "sink_instruments sk2 \<subseteq> insert i (sink_instruments sk)" using a by blast
  moreover have "date_valid (sk_expected sk) \<longrightarrow> sk_expected sk2 = sk_expected sk" using a by metis
  moreover have "sink_ok off sk2" if "sink_ok off sk" "sk_read sk2 < 2 ^ 32"
  proof -
    have "sk_read sk1 < 2 ^ 32" using a that(2) by linarith
    then show ?thesis using a that by blast
  qed
  ultimately show ?thesis unfolding sink_step_def by blast
qed

lemma sink_step_expect:
  assumes "date_valid (sk_expected sk) \<Longrightarrow> d = sk_expected sk" and "sink_step off i n (sk\<lparr>sk_expected := d\<rparr>) sk'"
    and "date_valid d"
  shows "sink_step off i n sk sk'"
proof -
  have "sink_ok off (sk\<lparr>sk_expected := d\<rparr>)" if "sink_ok off sk"
    using that assms(1) by (auto simp: sink_ok_def split: option.splits)
  then show ?thesis using assms by (auto simp: sink_step_def sink_instruments_def)
qed

lemma append_instruments:
  assumes "append_quote i q m = Inr m'"
  shows "set (ms_instruments m') \<subseteq> insert i (set (ms_instruments m))"
  using assms by (auto simp: append_quote_def series_for_def Let_def split: option.splits if_splits)

lemma append_times:
  assumes "append_quote i q m = Inr m'"
  shows "set (c_ts (ms_quotes m' j)) \<subseteq> insert (q_ts q) (set (c_ts (ms_quotes m j)))"
  using append_quote_Inr(1) [OF assms] by (auto simp: push_row_def)

lemma skip_row_step: "sink_step off i 1 (cv_sink st) (cv_sink (skip_row st))"
  by (auto simp: sink_step_def skip_row_def sink_ok_def sink_instruments_def split: option.splits)

lemma admit_row_step:
  assumes run: "admit_row reg i d q st = Inr st'" and d: "sk_expected (cv_sink st) = d" "date_valid d"
    and t: "within_day off d (q_ts q)"
  shows "sink_step off i 1 (cv_sink st) (cv_sink st')" and "cv_row_date st' = cv_row_date st"
proof -
  define sk where "sk = cv_sink st"
  define sk1 where "sk1 = (case sk_session sk of Some _ \<Rightarrow> sk | None \<Rightarrow> sk\<lparr>sk_session := Some (new_session d reg), sk_date := d\<rparr>)"
  obtain m0 where m0: "sk_session sk1 = Some m0"
    by (cases "sk_session sk") (auto simp: sk1_def)
  obtain m where m: "append_quote i q m0 = Inr m"
    and st': "st' = st\<lparr>cv_previous := Some (q_ts q), cv_sink := sk1\<lparr>sk_session := Some m, sk_read := sk_read sk1 + 1\<rparr>\<rparr>"
    using run m0 unfolding admit_row_def Let_def sk_def [symmetric] sk1_def [symmetric] by (auto split: sum.splits)
  have same: "sk_read sk1 = sk_read sk" "sk_skipped sk1 = sk_skipped sk" "sk_expected sk1 = sk_expected sk"
    by (auto simp: sk1_def split: option.splits)
  have inst: "set (ms_instruments m0) = sink_instruments sk"
    using m0 by (auto simp: sk1_def sink_instruments_def new_session_def split: option.splits)
  have ok1: "memory_ok m0 \<and> ms_total m0 = sk_read sk \<and> ms_date m0 = d \<and> sk_date sk1 = d \<and>
      (\<forall>i. \<forall>t \<in> set (c_ts (ms_quotes m0 i)). within_day off d t)" if "sink_ok off sk"
  proof (cases "sk_session sk")
    case None
    then show ?thesis
      using that m0 new_session_ok [of d reg] by (simp add: sink_ok_def sk1_def) (auto simp: new_session_def ms_quotes_def empty_columns_def)
  next
    case (Some x)
    then show ?thesis using that m0 d by (auto simp: sink_ok_def sk1_def sk_def)
  qed
  have "sink_ok off (cv_sink st')" if ok: "sink_ok off sk" and room: "sk_read sk + 1 < 2 ^ 32"
  proof -
    have "Suc (size_of (ms_quotes m0 i)) < 2 ^ 32" using size_of_ms_quotes [of m0 i] ok1 [OF ok] room by simp
    note app = append_quote_ok [OF _ this m] and q = append_quote_Inr [OF m] and ts = append_times [OF m]
    have "within_day off d t" if "t \<in> set (c_ts (ms_quotes m j))" for t j
      using ts [of j] that ok1 [OF ok] assms(4) by blast
    then show ?thesis using ok1 [OF ok] app q(5) same d by (simp add: sink_ok_def st' sk_def)
  qed
  moreover have "sink_instruments (cv_sink st') \<subseteq> insert i (sink_instruments sk)"
    using append_instruments [OF m] inst by (simp add: sink_instruments_def st')
  ultimately show "sink_step off i 1 (cv_sink st) (cv_sink st')"
    unfolding sk_def [symmetric] by (simp add: sink_step_def st' same)
  show "cv_row_date st' = cv_row_date st" by (simp add: st')
qed

text \<open>The date of a file's rows is the date of the day.\<close>

definition dated :: "csv_state \<Rightarrow> bool" where
  "dated st \<longleftrightarrow> (date_valid (cv_row_date st) \<longrightarrow> cv_row_date st = sk_expected (cv_sink st))"

lemma csv_line_step:
  assumes "csv_line opts reg i line st = Inr st'"
  shows "sink_step (utc_offset_seconds opts) i 1 (cv_sink st) (cv_sink st') \<and> (dated st \<longrightarrow> dated st')"
  using assms
proof (cases rule: csv_line_cases)
  case skip
  have "dated (skip_row st) = dated st" by (simp add: dated_def skip_row_def)
  then show ?thesis using skip_row_step [of _ i st] by (simp add: skip)
next
  case (late d)
  let ?st = "st\<lparr>cv_sink := (cv_sink st)\<lparr>sk_expected := d\<rparr>, cv_row_date := (if date_valid (cv_row_date st) then cv_row_date st else d)\<rparr>"
  have "sink_step (utc_offset_seconds opts) i 1 ((cv_sink st)\<lparr>sk_expected := d\<rparr>) (cv_sink (skip_row ?st))"
    using skip_row_step [of _ i ?st] by simp
  from sink_step_expect [OF late(2) this late(1)] show ?thesis
    using late(1,2) by (auto simp: late(3) dated_def skip_row_def)
next
  case (admit d q s)
  let ?st = "st\<lparr>cv_sink := (cv_sink st)\<lparr>sk_expected := d\<rparr>, cv_row_date := (if date_valid (cv_row_date st) then cv_row_date st else d)\<rparr>"
  have "within_day (utc_offset_seconds opts) d (q_ts q)" using admit(3-5) by (auto simp: within_day_def)
  note step = admit_row_step [OF admit(6) _ admit(1) this]
  have s1: "sink_step (utc_offset_seconds opts) i 1 ((cv_sink st)\<lparr>sk_expected := d\<rparr>) (cv_sink st')" using step(1) by simp
  have "dated st'" if "dated st"
  proof -
    have "sk_expected (cv_sink st') = d" using s1 admit(1) by (simp add: sink_step_def)
    moreover have "cv_row_date st' = (if date_valid (cv_row_date st) then cv_row_date st else d)" using step(2) by simp
    ultimately show ?thesis using that admit(2) by (auto simp: dated_def)
  qed
  then show ?thesis using sink_step_expect [OF admit(2) s1 admit(1)] by simp
qed

lemma csv_lines_step:
  assumes "try_fold (csv_line opts reg i) ls st = Inr st'"
  shows "sink_step (utc_offset_seconds opts) i (length ls) (cv_sink st) (cv_sink st') \<and> (dated st \<longrightarrow> dated st')"
  using assms
proof (induction ls arbitrary: st)
  case (Cons l ls)
  then obtain st1 where st1: "csv_line opts reg i l st = Inr st1" "try_fold (csv_line opts reg i) ls st1 = Inr st'"
    by (auto split: sum.splits)
  show ?case
    using sink_step_trans [OF conjunct1 [OF csv_line_step [OF st1(1)]] conjunct1 [OF Cons.IH [OF st1(2)]]]
      csv_line_step [OF st1(1)] Cons.IH [OF st1(2)] by simp
qed (simp add: sink_step_refl)

lemma parse_csv_rows_laws:
  assumes "parse_csv_rows data i opts reg sk = Inr (row_date, sk')"
  shows "sink_step (utc_offset_seconds opts) i (length (lines_of (csv_header data))) sk sk'"
    and "date_valid row_date \<Longrightarrow> row_date = sk_expected sk'"
proof -
  obtain st where st: "try_fold (csv_line opts reg i) (lines_of (csv_header data))
      \<lparr>cv_row_date = Date 0, cv_previous = None, cv_sink = sk\<rparr> = Inr st" "row_date = cv_row_date st" "sk' = cv_sink st"
    using assms by (auto simp: parse_csv_rows_def csv_loop_lines split: sum.splits)
  note laws = csv_lines_step [OF st(1)]
  show "sink_step (utc_offset_seconds opts) i (length (lines_of (csv_header data))) sk sk'" using laws st(3) by simp
  have "dated st" using laws by (simp add: dated_def date_valid_def)
  then show "row_date = sk_expected sk'" if "date_valid row_date" using that by (simp add: dated_def st(2,3))
qed

section \<open>A day of files\<close>

definition sink_of :: "load_state \<Rightarrow> row_sink" where
  "sink_of st = \<lparr>sk_session = gd_session (ls_day st), sk_date = gd_date (ls_day st), sk_read = gd_rows_read (ls_day st),
     sk_skipped = gd_rows_skipped (ls_day st), sk_expected = ls_expected st\<rparr>"

text \<open>A session holds listed options only.\<close>

definition lists_option :: "registry \<Rightarrow> instrument_id \<Rightarrow> bool" where
  "lists_option reg i \<longleftrightarrow> (\<exists>sp. spec reg i = Inr sp \<and> kind sp = Option \<and> spec_id sp = i)"

definition load_ok :: "load_options \<Rightarrow> load_state \<Rightarrow> bool" where
  "load_ok opts st \<longleftrightarrow> registry_ok (ls_registry st) \<and> sink_ok (utc_offset_seconds opts) (sink_of st) \<and>
     (\<forall>name d e. CarriesDate name d e \<notin> set (warnings (ls_day st))) \<and>
     (\<forall>i \<in> sink_instruments (sink_of st). lists_option (ls_registry st) i)"

definition room_for :: "nat \<Rightarrow> registry \<Rightarrow> bool" where
  "room_for n reg \<longleftrightarrow> length (specs reg) + n \<le> 2 ^ 31 \<and> length (underlyings reg) + n \<le> 2 ^ 31"

lemma intern_underlying_specs: "intern_underlying name r = (u, r') \<Longrightarrow> specs r' = specs r \<and> length (underlyings r') \<le> Suc (length (underlyings r))"
  by (auto simp: intern_underlying_def Let_def split: option.splits)

lemma add_lengths: "add s r = (i, r') \<Longrightarrow> length (specs r') \<le> Suc (length (specs r)) \<and> underlyings r' = underlyings r"
  by (auto simp: add_def Let_def split: option.splits)

lemma spec_cong: "specs r' = specs r \<Longrightarrow> spec r' i = spec r i"
  by (simp add: spec_def)

lemma read_file_cases:
  assumes "read_file opts name tkr data st = Inr st'"
  obtains u reg1 i reg2 row_date where "intern_underlying (ps_underlying tkr) (ls_registry st) = (u, reg1)"
    "add (contract_of opts tkr u) reg1 = (i, reg2)" "parse_csv_rows data i opts reg2 (sink_of st) = Inr (row_date, sink_of st')"
    "ls_registry st' = reg2"
    "warnings (ls_day st') = warnings (ls_day st) @
       (if date_valid row_date \<and> date_valid (sk_date (sink_of st')) \<and> row_date \<noteq> sk_date (sink_of st')
        then [CarriesDate name row_date (sk_date (sink_of st'))] else [])"
proof -
  obtain u reg1 where 1: "intern_underlying (ps_underlying tkr) (ls_registry st) = (u, reg1)"
    by (cases "intern_underlying (ps_underlying tkr) (ls_registry st)")
  obtain i reg2 where 2: "add (contract_of opts tkr u) reg1 = (i, reg2)" by (cases "add (contract_of opts tkr u) reg1")
  note run = assms [unfolded read_file_def Let_def 1 2 prod.case]
  obtain row_date sk where 3: "parse_csv_rows data i opts reg2 (sink_of st) = Inr (row_date, sk)"
    using run by (cases "parse_csv_rows data i opts reg2 (sink_of st)") (auto simp: sink_of_def)
  note run = run [folded sink_of_def, unfolded 3 sum.case prod.case]
  have sk: "sink_of st' = sk" and reg: "ls_registry st' = reg2" and w: "warnings (ls_day st') = warnings (ls_day st) @
       (if date_valid row_date \<and> date_valid (sk_date sk) \<and> row_date \<noteq> sk_date sk
        then [CarriesDate name row_date (sk_date sk)] else [])"
    using run by (auto simp: sink_of_def)
  show ?thesis by (rule that [OF 1 2 3 [folded sk] reg]) (simp only: w sk)
qed

lemma read_file_laws:
  assumes "read_file opts name tkr data st = Inr st'"
  shows "gd_rows_read (ls_day st) \<le> gd_rows_read (ls_day st')"
    and "date_valid (ls_expected st) \<Longrightarrow> ls_expected st' = ls_expected st"
    and "room_for (Suc n) (ls_registry st) \<Longrightarrow> room_for n (ls_registry st')"
    and "room_for (Suc n) (ls_registry st) \<Longrightarrow> gd_rows_read (ls_day st') < 2 ^ 32 \<Longrightarrow> load_ok opts st \<Longrightarrow> load_ok opts st'"
proof -
  obtain u reg1 i reg2 row_date where r: "intern_underlying (ps_underlying tkr) (ls_registry st) = (u, reg1)"
    "add (contract_of opts tkr u) reg1 = (i, reg2)" "parse_csv_rows data i opts reg2 (sink_of st) = Inr (row_date, sink_of st')"
    "ls_registry st' = reg2"
    "warnings (ls_day st') = warnings (ls_day st) @
       (if date_valid row_date \<and> date_valid (sk_date (sink_of st')) \<and> row_date \<noteq> sk_date (sink_of st')
        then [CarriesDate name row_date (sk_date (sink_of st'))] else [])"
    using assms by (rule read_file_cases)
  note csv = parse_csv_rows_laws [OF r(3)] and u = intern_underlying_specs [OF r(1)] and a = add_lengths [OF r(2)]
  have sel: "sk_read (sink_of x) = gd_rows_read (ls_day x)" "sk_expected (sink_of x) = ls_expected x" for x
    by (simp_all add: sink_of_def)
  show "gd_rows_read (ls_day st) \<le> gd_rows_read (ls_day st')"
    "date_valid (ls_expected st) \<Longrightarrow> ls_expected st' = ls_expected st"
    using csv(1) by (simp_all add: sink_step_def sel)
  show "room_for n (ls_registry st')" if "room_for (Suc n) (ls_registry st)"
    using u a that by (simp add: room_for_def r(4))
  show "load_ok opts st'" if room: "room_for (Suc n) (ls_registry st)" and rows: "gd_rows_read (ls_day st') < 2 ^ 32"
    and ok: "load_ok opts st"
  proof -
    have reg: "registry_ok (ls_registry st)" and l1: "length (underlyings (ls_registry st)) < 2 ^ 31"
      using ok room by (simp_all add: load_ok_def room_for_def)
    note reg1 = conjunct1 [OF intern_underlying_ok [OF reg l1 r(1)]]
    have l2: "length (specs reg1) < 2 ^ 31" using room u by (simp add: room_for_def)
    note reg2 = add_registry_ok [OF reg1 l2 r(2)]
    have sink: "sink_ok (utc_offset_seconds opts) (sink_of st')"
      using csv(1) ok rows by (simp add: load_ok_def sink_step_def sel)
    have "by_key reg2 (key_of (contract_of opts tkr u)) = Some i"
      using l2 r(2) by (cases rule: add_cases) auto
    then obtain sp where sp: "spec reg2 i = Inr sp" "key_of sp = key_of (contract_of opts tkr u)" "spec_id sp = i"
      using by_key_spec [OF reg2] by blast
    then have "kind sp = Option" by (cases "kind sp") (simp_all add: key_of_def contract_of_def)
    then have "lists_option reg2 i" using sp by (auto simp: lists_option_def)
    moreover have "lists_option reg2 j" if "lists_option (ls_registry st) j" for j
    proof -
      obtain rest where "specs reg2 = specs reg1 @ rest" using add_prefix [OF r(2)] by blast
      then show ?thesis using that u spec_prefix [of reg2 reg1 rest j] by (auto simp: lists_option_def spec_cong [of reg1 "ls_registry st"])
    qed
    ultimately have "\<forall>j \<in> sink_instruments (sink_of st'). lists_option reg2 j"
      using csv(1) ok by (fastforce simp: sink_step_def load_ok_def)
    moreover have "sk_date (sink_of st') = sk_expected (sink_of st') \<or> \<not> date_valid (sk_date (sink_of st'))"
      using sink by (auto simp: sink_ok_def date_valid_def split: option.splits)
    then have "warnings (ls_day st') = warnings (ls_day st)" using csv(2) by (auto simp: r(5))
    ultimately show ?thesis using sink reg2 ok by (simp add: load_ok_def r(4))
  qed
qed

text \<open>A loader skips a file or reads it.\<close>

lemma skip_file_laws:
  assumes "\<forall>name d e. CarriesDate name d e \<notin> set ws"
  shows "load_ok opts st \<Longrightarrow> load_ok opts (skip_file ws st)"
    and "gd_rows_read (ls_day (skip_file ws st)) = gd_rows_read (ls_day st)"
    and "ls_expected (skip_file ws st) = ls_expected st" and "ls_registry (skip_file ws st) = ls_registry st"
  using assms by (auto simp: skip_file_def load_ok_def sink_of_def)

definition reads_or_skips :: "load_options \<Rightarrow> ('a \<Rightarrow> load_state \<Rightarrow> exn + load_state) \<Rightarrow> bool" where
  "reads_or_skips opts f \<longleftrightarrow> (\<forall>x st st'. f x st = Inr st' \<longrightarrow>
     (\<exists>ws. st' = skip_file ws st \<and> (\<forall>name d e. CarriesDate name d e \<notin> set ws)) \<or>
     (\<exists>name tkr data. read_file opts name tkr data st = Inr st'))"

lemma dir_file_reads: "reads_or_skips opts (dir_file opts)"
  by (fastforce simp: reads_or_skips_def dir_file_def Let_def split: if_splits option.splits)

lemma zip_file_reads: "reads_or_skips opts (zip_file opts)"
  by (fastforce simp: reads_or_skips_def zip_file_def Let_def split: if_splits option.splits)

lemma load_files_laws:
  assumes "reads_or_skips opts f" and "try_fold f xs st = Inr st'"
  shows "gd_rows_read (ls_day st) \<le> gd_rows_read (ls_day st')"
    and "date_valid (ls_expected st) \<Longrightarrow> ls_expected st' = ls_expected st"
    and "room_for (length xs) (ls_registry st) \<Longrightarrow> gd_rows_read (ls_day st') < 2 ^ 32 \<Longrightarrow> load_ok opts st \<Longrightarrow> load_ok opts st'"
proof (atomize(full), use assms(2) in \<open>induction xs arbitrary: st\<close>)
  case (Cons x xs)
  then obtain st1 where st1: "f x st = Inr st1" "try_fold f xs st1 = Inr st'" by (auto split: sum.splits)
  have one: "gd_rows_read (ls_day st) \<le> gd_rows_read (ls_day st1) \<and> (date_valid (ls_expected st) \<longrightarrow> ls_expected st1 = ls_expected st) \<and>
      (room_for (Suc (length xs)) (ls_registry st) \<longrightarrow> room_for (length xs) (ls_registry st1)) \<and>
      (room_for (Suc (length xs)) (ls_registry st) \<longrightarrow> gd_rows_read (ls_day st1) < 2 ^ 32 \<longrightarrow> load_ok opts st \<longrightarrow> load_ok opts st1)"
  proof -
    consider ws where "st1 = skip_file ws st" "\<forall>name d e. CarriesDate name d e \<notin> set ws"
      | name tkr data where "read_file opts name tkr data st = Inr st1"
      using assms(1) st1(1) unfolding reads_or_skips_def by blast
    then show ?thesis
    proof cases
      case 1
      then show ?thesis using skip_file_laws [OF 1(2)] by (auto simp: room_for_def)
    next
      case 2
      show ?thesis using read_file_laws [OF 2] by blast
    qed
  qed
  note ih = Cons.IH [OF st1(2)]
  have "gd_rows_read (ls_day st1) \<le> gd_rows_read (ls_day st')" using ih by blast
  then show ?case using one ih by auto
qed simp

lemma start_ok:
  assumes "registry_ok reg"
  shows "load_ok opts \<lparr>ls_registry = reg, ls_day = empty_day, ls_expiries = [], ls_expected = e\<rparr>"
  using assms by (simp add: load_ok_def sink_of_def empty_day_def sink_ok_def sink_instruments_def)

lemma length_zip_members: "length (zip_members entries) \<le> length entries"
proof -
  have "length (concat (map (\<lambda>e. if ze_is_directory e then []
       else case ze_name e of None \<Rightarrow> [] | Some n \<Rightarrow> [(n, e)]) entries)) \<le> length entries"
    by (induction entries) (auto split: option.splits)
  then show ?thesis by (simp add: zip_members_def)
qed

text \<open>Both loaders: a fold over the files, and a report on its result.\<close>

lemma load_day_cases:
  assumes "load_gfdl_day reg path (Some files) opts = Inr (reg', out)"
  obtains st where "try_fold (dir_file opts) (csv_files files)
      \<lparr>ls_registry = reg, ls_day = empty_day, ls_expiries = [], ls_expected = expected_date opts\<rparr> = Inr st"
    "reg' = ls_registry st" "gd_session out = bind_registry reg' (gd_session (ls_day st))" "gd_date out = gd_date (ls_day st)"
    "gd_rows_read out = gd_rows_read (ls_day st)" "warnings out = warnings (ls_day st)"
  using assms by (auto simp: load_gfdl_day_def split: sum.splits)

lemma load_zip_cases:
  assumes "load_gfdl_zip reg path (Some members) opts = Inr (reg', out)"
  obtains e st where "try_fold (zip_file opts) (zip_members members)
      \<lparr>ls_registry = reg, ls_day = empty_day, ls_expiries = [], ls_expected = e\<rparr> = Inr st"
    "date_valid (expected_date opts) \<Longrightarrow> e = expected_date opts"
    "reg' = ls_registry st" "gd_session out = bind_registry reg' (gd_session (ls_day st))" "gd_date out = gd_date (ls_day st)"
    "gd_rows_read out = gd_rows_read (ls_day st)" "warnings out = warnings (ls_day st)"
  using assms by (auto simp: load_gfdl_zip_def Let_def split: sum.splits if_splits)

lemma rows_ts: "q \<in> set (rows c) \<Longrightarrow> q_ts q \<in> set (c_ts c)"
  using q_ts_rows [of c] by (metis image_eqI list.set_map)

lemma loaded_session:
  assumes "load_ok opts st" and "s = bind_registry (ls_registry st) (gd_session (ls_day st))"
  shows "case s of None \<Rightarrow> gd_rows_read (ls_day st) = 0
     | Some m \<Rightarrow> session_ok (memory_data m) \<and> ms_date m = gd_date (ls_day st) \<and> ms_registry m = ls_registry st \<and>
         ms_total m = gd_rows_read (ls_day st) \<and> ls_expected st = gd_date (ls_day st) \<and>
         (\<forall>i. \<forall>q \<in> set (rows (ms_quotes m i)). within_day (utc_offset_seconds opts) (gd_date (ls_day st)) (q_ts q)) \<and>
         (\<forall>i \<in> set (ms_instruments m). lists_option (ls_registry st) i)"
proof (cases "gd_session (ls_day st)")
  case None
  then show ?thesis using assms by (simp add: bind_registry_def load_ok_def sink_ok_def sink_of_def)
next
  case (Some m)
  let ?m = "m\<lparr>ms_registry := ls_registry st\<rparr>"
  have ok: "memory_ok m" "ms_total m = gd_rows_read (ls_day st)" "ms_date m = gd_date (ls_day st)" "ls_expected st = gd_date (ls_day st)"
    "\<forall>i. \<forall>t \<in> set (c_ts (ms_quotes m i)). within_day (utc_offset_seconds opts) (gd_date (ls_day st)) t"
    "\<forall>i \<in> set (ms_instruments m). lists_option (ls_registry st) i"
    using assms(1) [unfolded load_ok_def sink_ok_def sink_of_def sink_instruments_def row_sink.simps Some option.case] by metis+
  have "memory_ok ?m" using ok(1) by (simp add: memory_ok_def)
  then have "session_ok (memory_data (build_event_order ?m))" by (intro memory.source_ok build_event_order_ok)
  moreover have "ms_quotes (build_event_order ?m) = ms_quotes m" by (simp add: build_event_order_def ms_quotes_def Let_def fun_eq_iff)
  ultimately show ?thesis
    using ok(2-6) by (auto simp: assms(2) Some bind_registry_def build_event_order_def Let_def dest: rows_ts)
qed

text \<open>The state behind a report.\<close>

definition reports :: "load_options \<Rightarrow> load_state \<Rightarrow> registry \<Rightarrow> gfdl_day \<Rightarrow> bool" where
  "reports opts st reg' out \<longleftrightarrow> load_ok opts st \<and> reg' = ls_registry st \<and>
     gd_session out = bind_registry (ls_registry st) (gd_session (ls_day st)) \<and> gd_date out = gd_date (ls_day st) \<and>
     gd_rows_read out = gd_rows_read (ls_day st) \<and> warnings out = warnings (ls_day st) \<and>
     (date_valid (expected_date opts) \<longrightarrow> ls_expected st = expected_date opts)"

lemma load_day_reports:
  assumes "registry_ok reg" and "room_for n reg" and l: "load_gfdl_day reg path (Some files) opts = Inr (reg', out)"
    and "length files \<le> n" and "gd_rows_read out < 2 ^ 32"
  shows "\<exists>st. reports opts st reg' out"
  using l
proof (cases rule: load_day_cases)
  case (1 st)
  have "length (csv_files files) \<le> n" using assms(4) by (simp add: csv_files_def order_trans [OF length_filter_le])
  then have room: "room_for (length (csv_files files)) reg" using assms(2) by (simp add: room_for_def)
  note laws = load_files_laws [OF dir_file_reads 1(1)]
  have "load_ok opts st" by (rule laws(3) [OF _ _ start_ok [OF assms(1)]]) (use room assms(5) 1(5) in simp_all)
  then show ?thesis using laws(2) 1(2-6) by (intro exI [of _ st]) (simp add: reports_def)
qed

lemma load_zip_reports:
  assumes "registry_ok reg" and "room_for n reg" and l: "load_gfdl_zip reg path (Some members) opts = Inr (reg', out)"
    and "length members \<le> n" and "gd_rows_read out < 2 ^ 32"
  shows "\<exists>st. reports opts st reg' out"
  using l
proof (cases rule: load_zip_cases)
  case (1 e st)
  have "length (zip_members members) \<le> n" using assms(4) length_zip_members order_trans by blast
  then have room: "room_for (length (zip_members members)) reg" using assms(2) by (simp add: room_for_def)
  note laws = load_files_laws [OF zip_file_reads 1(1)]
  have "load_ok opts st" by (rule laws(3) [OF _ _ start_ok [OF assms(1)]]) (use room assms(5) 1(6) in simp_all)
  then show ?thesis using laws(2) 1(2-7) by (intro exI [of _ st]) (simp add: reports_def)
qed

section \<open>Properties\<close>

text \<open>C29: whatever the files hold, a loaded day is a well-formed session of one date.  For any directory
  or archive that the loaders accept, the session meets the contract of a data source, has the
  reported date (the expected one when that is given) and the reported number of rows; every quote in
  it falls on that date, every instrument in it is a listed option of the registry the session
  refers to; and the warning that a file carries another date is never given, since such rows
  are skipped before it is computed.\<close>

theorem loaded_days_are_sessions:
  assumes "registry_ok reg" and "length (specs reg) + n \<le> 2 ^ 31" and "length (underlyings reg) + n \<le> 2 ^ 31"
    and load: "(\<exists>files. load_gfdl_day reg path (Some files) opts = Inr (reg', out) \<and> length files \<le> n) \<or>
      (\<exists>members. load_gfdl_zip reg path (Some members) opts = Inr (reg', out) \<and> length members \<le> n)"
    and rows: "gd_rows_read out < 2 ^ 32"
  shows "registry_ok reg' \<and>
    (case gd_session out of
       None \<Rightarrow> gd_rows_read out = 0
     | Some m \<Rightarrow> session_ok (memory_data m) \<and> ms_date m = gd_date out \<and> ms_registry m = reg' \<and>
         ms_total m = gd_rows_read out \<and>
         (date_valid (expected_date opts) \<longrightarrow> gd_date out = expected_date opts) \<and>
         (\<forall>i. \<forall>q \<in> set (rows (ms_quotes m i)).
            \<exists>s. 0 \<le> s \<and> s < 86400 \<and> q_ts q = timestamp_of (gd_date out) s (utc_offset_seconds opts)) \<and>
         (\<forall>i \<in> set (ms_instruments m). \<exists>sp. spec reg' i = Inr sp \<and> kind sp = Option \<and> spec_id sp = i)) \<and>
    (\<forall>name d e. CarriesDate name d e \<notin> set (warnings out))"
proof -
  have "room_for n reg" using assms(2,3) by (simp add: room_for_def)
  then obtain st where "reports opts st reg' out"
    using load load_day_reports [OF assms(1) _ _ _ rows] load_zip_reports [OF assms(1) _ _ _ rows] by blast
  note st = this [unfolded reports_def]
  have "load_ok opts st" "gd_session out = bind_registry (ls_registry st) (gd_session (ls_day st))" using st by simp_all
  note session = loaded_session [OF this]
  have "registry_ok reg'" "\<forall>name d e. CarriesDate name d e \<notin> set (warnings out)"
    using st by (simp_all add: load_ok_def)
  moreover have "case gd_session out of
       None \<Rightarrow> gd_rows_read out = 0
     | Some m \<Rightarrow> session_ok (memory_data m) \<and> ms_date m = gd_date out \<and> ms_registry m = reg' \<and>
         ms_total m = gd_rows_read out \<and>
         (date_valid (expected_date opts) \<longrightarrow> gd_date out = expected_date opts) \<and>
         (\<forall>i. \<forall>q \<in> set (rows (ms_quotes m i)).
            \<exists>s. 0 \<le> s \<and> s < 86400 \<and> q_ts q = timestamp_of (gd_date out) s (utc_offset_seconds opts)) \<and>
         (\<forall>i \<in> set (ms_instruments m). \<exists>sp. spec reg' i = Inr sp \<and> kind sp = Option \<and> spec_id sp = i)"
  proof (cases "gd_session out")
    case (Some m)
    then show ?thesis using session st unfolding within_day_def lists_option_def by simp
  qed (use session st in simp)
  ultimately show ?thesis by blast
qed

text \<open>A file with a row of its day and a row of another: the second is skipped.\<close>

definition sample_csv :: string where
  "sample_csv = ''Ticker,Date'' @ [CHR 0x0A] @ ''NIFTY03JUL2523000CE.NFO,01/07/2025,10:11:50,2551,2539.85,75,2603.55,975,150,34575'' @ [CHR 0x0D, CHR 0x0A] @
     ''NIFTY03JUL2523000CE.NFO,02/07/2025,10:11:51,2551,2539.85,75,2603.55,975,150,34575'' @ [CHR 0x0A]"

definition sample_file :: dir_entry where
  "sample_file = \<lparr>de_name = ''NIFTY03JUL2523000CE.NFO.csv'', de_regular = True, de_contents = Some sample_csv\<rparr>"

lemma sample_fold:
  "case try_fold (dir_file default_load_options) [sample_file]
     \<lparr>ls_registry = empty_registry, ls_day = empty_day, ls_expiries = [], ls_expected = Date 0\<rparr> of
     Inl _ \<Rightarrow> False
   | Inr st \<Rightarrow> gd_rows_read (ls_day st) = 1 \<and> gd_rows_skipped (ls_day st) = 1 \<and> gd_date (ls_day st) = Date 20250701 \<and>
       gd_session (ls_day st) \<noteq> None"
  by code_simp

theorem loaded_days_are_sessions_witness:
  "\<exists>reg' out m. load_gfdl_day empty_registry ''ticks'' (Some [sample_file]) default_load_options = Inr (reg', out) \<and>
     gd_session out = Some m \<and> session_ok (memory_data m) \<and> ms_total m = 1 \<and> ms_date m = Date 20250701"
proof -
  obtain st where st: "try_fold (dir_file default_load_options) [sample_file]
     \<lparr>ls_registry = empty_registry, ls_day = empty_day, ls_expiries = [], ls_expected = Date 0\<rparr> = Inr st"
    "gd_rows_read (ls_day st) = 1" "gd_date (ls_day st) = Date 20250701" "gd_session (ls_day st) \<noteq> None"
    using sample_fold by (auto split: sum.splits)
  have "de_regular sample_file \<and> path_extension (de_name sample_file) = ''.csv''"
    by (simp add: sample_file_def path_extension_def Let_def)
  then have "csv_files [sample_file] = [sample_file]" by (simp add: csv_files_def)
  then obtain reg' out where load: "load_gfdl_day empty_registry ''ticks'' (Some [sample_file]) default_load_options = Inr (reg', out)"
    "gd_rows_read out = 1" "gd_date out = Date 20250701" "gd_session out \<noteq> None"
    using st by (simp add: load_gfdl_day_def default_load_options_def bind_registry_def)
  have "length (specs empty_registry) + 1 \<le> 2 ^ 31" "length (underlyings empty_registry) + 1 \<le> 2 ^ 31"
    by (simp_all add: empty_registry_def)
  note t = loaded_days_are_sessions [OF registry_ok_empty this, of "''ticks''" default_load_options reg' out]
  have "gd_rows_read out < 2 ^ 32" by (simp add: load(2))
  with t load(1) have "case gd_session out of None \<Rightarrow> gd_rows_read out = 0
     | Some m \<Rightarrow> session_ok (memory_data m) \<and> ms_date m = gd_date out \<and> ms_total m = gd_rows_read out"
    by (cases "gd_session out") fastforce+
  then show ?thesis using load by auto
qed

end
