(* ===== verification/GfdlRoundTrip.thy ===== *)
theory GfdlRoundTrip
  imports GfdlLaws Display
begin

text \<open>
  The vendor's formats read back: a printed contract name and a printed file of rows are parsed to
  what was printed.
\<close>

section \<open>Printing\<close>

definition show_two :: "nat \<Rightarrow> string" where
  "show_two n = [digit_char (n div 10), digit_char (n mod 10)]"

text \<open>A price with \<open>k\<close> decimals; with none there is no point, with more than two the rest are zeros.\<close>

definition show_decimals :: "nat \<Rightarrow> nat \<Rightarrow> string" where
  "show_decimals k cents = (if k = 0 then [] else CHR ''.'' # take k (show_two cents) @ replicate (k - 2) (CHR ''0''))"

definition show_price :: "nat \<Rightarrow> price \<Rightarrow> string" where
  "show_price k p = show_nat (nat (minor p) div 100) @ show_decimals k (nat (minor p) mod 100)"

text \<open>Enough decimals to say it.\<close>

definition says_price :: "nat \<Rightarrow> price \<Rightarrow> bool" where
  "says_price k p \<longleftrightarrow> 0 \<le> minor p \<and> minor p < 2 ^ 31 \<and> 10 ^ (2 - k) dvd minor p"

definition show_int :: "int \<Rightarrow> string" where
  "show_int n = show_nat (nat n)"

definition show_symbol :: "string \<Rightarrow> nat \<Rightarrow> nat \<Rightarrow> nat \<Rightarrow> nat \<Rightarrow> right \<Rightarrow> string" where
  "show_symbol name dd mm yy k r =
     name @ show_two dd @ month_names ! (mm - 1) @ show_two yy @ show_nat k @ (if r = Call then ''CE'' else ''PE'')"

text \<open>A row at a second of the day; \<open>dec\<close> gives the decimals of its last, bid and ask price.\<close>

definition show_row :: "(nat \<times> quote \<Rightarrow> nat \<times> nat \<times> nat) \<Rightarrow> string \<Rightarrow> nat \<Rightarrow> nat \<Rightarrow> nat \<Rightarrow> nat \<times> quote \<Rightarrow> string" where
  "show_row dec ticker yyyy mm dd = (\<lambda>(s, q). case dec (s, q) of (k, kb, ka) \<Rightarrow>
     ticker @ CHR '','' # show_two dd @ CHR ''/'' # show_two mm @ CHR ''/'' # show_nat yyyy @ CHR '','' #
     show_two (s div 3600) @ CHR '':'' # show_two (s div 60 mod 60) @ CHR '':'' # show_two (s mod 60) @ CHR '','' #
     show_price k (q_last q) @ CHR '','' # show_price kb (q_bid q) @ CHR '','' # show_int (q_bid_qty q) @ CHR '','' #
     show_price ka (q_ask q) @ CHR '','' # show_int (q_ask_qty q) @ CHR '','' # show_int (q_last_qty q) @ CHR '','' #
     show_int (q_open_interest q))"

definition show_file :: "(nat \<times> quote \<Rightarrow> nat \<times> nat \<times> nat) \<Rightarrow> string \<Rightarrow> nat \<Rightarrow> nat \<Rightarrow> nat \<Rightarrow> (nat \<times> quote) list \<Rightarrow> string" where
  "show_file dec ticker yyyy mm dd rs =
     ''Ticker,Date,Time,LTP,BuyPrice,BuyQty,SellPrice,SellQty,LTQ,OpenInterest'' @ CHR 0x0A #
     concat (map (\<lambda>r. show_row dec ticker yyyy mm dd r @ [CHR 0x0D, CHR 0x0A]) rs)"

section \<open>Digits\<close>

lemma digit_char_laws:
  assumes "n < 10"
  shows "is_digit (digit_char n)" and "digit_value (digit_char n) = int n"
proof -
  have "(of_char (digit_char n) :: int) = int (of_char (digit_char n))" by (simp only: of_nat_of_char)
  also have "(of_char (digit_char n) :: nat) = 48 + n" using assms by (simp only: digit_char_def of_char_of) simp
  finally have "(of_char (digit_char n) :: int) = int n + 48" by simp
  then show "is_digit (digit_char n)" "digit_value (digit_char n) = int n"
    using assms by (simp_all add: is_digit_def digit_value_def char_value_def)
qed

lemma tens [simp]: "int (n div 10) * 10 + int (n mod 10) = int n"
  by (metis div_mult_mod_eq of_nat_add of_nat_mult of_nat_numeral)

definition digits_only :: "string \<Rightarrow> bool" where
  "digits_only s \<longleftrightarrow> s \<noteq> [] \<and> (\<forall>c \<in> set s. is_digit c)"

lemma show_nat_digits: "digits_only (show_nat n)"
  by (induction n rule: show_nat.induct)
    (subst show_nat.simps, auto simp: digits_only_def digit_char_laws)

lemma show_two_digits: "n < 100 \<Longrightarrow> digits_only (show_two n)"
  by (simp add: show_two_def digits_only_def digit_char_laws)

lemma not_digits [simp]: "\<not> is_digit (CHR ''-'')" "\<not> is_digit (CHR ''+'')" "\<not> is_digit (CHR '','')"
  "\<not> is_digit (CHR ''/'')" "\<not> is_digit (CHR '':'')" "\<not> is_digit (CHR ''.'')" "\<not> is_digit (CHR 0x0A)" "\<not> is_digit (CHR 0x0D)"
  by (simp_all add: is_digit_def char_value_def)

definition stops :: "string \<Rightarrow> bool" where
  "stops p \<longleftrightarrow> p = [] \<or> \<not> is_digit (hd p)"

lemma stops_simps [simp]: "stops []" "\<not> is_digit c \<Longrightarrow> stops (c # cs)"
  by (simp_all add: stops_def)

lemma scan_digits_append: "\<forall>c \<in> set s. is_digit c \<Longrightarrow> scan_digits v (s @ p) = scan_digits (fst (scan_digits v s)) p"
  by (induction s arbitrary: v) simp_all

lemma scan_digits_stop: "stops p \<Longrightarrow> scan_digits v p = (v, p)"
  by (cases p) (simp_all add: stops_def)

lemma scan_nat_value: "fst (scan_digits 0 (show_nat n)) = int n"
proof (induction n rule: show_nat.induct)
  case (1 n)
  show ?case
  proof (cases "n < 10")
    case True
    then show ?thesis by (simp add: show_nat.simps digit_char_laws)
  next
    case False
    have d: "\<forall>c \<in> set (show_nat (n div 10)). is_digit c" using show_nat_digits [of "n div 10"] by (simp add: digits_only_def)
    have "show_nat n = show_nat (n div 10) @ [digit_char (n mod 10)]" using False by (simp add: show_nat.simps [of n])
    then show ?thesis using scan_digits_append [OF d, of 0 "[digit_char (n mod 10)]"] 1 [OF False] by (simp add: digit_char_laws)
  qed
qed

lemma scan_two_value: "n < 100 \<Longrightarrow> fst (scan_digits 0 (show_two n)) = int n"
  by (simp add: show_two_def digit_char_laws)

text \<open>A field of digits scans to its value and leaves what follows.\<close>

lemma scan_sign_digits: "digits_only s \<Longrightarrow> scan_sign (s @ p) = (False, s @ p)"
  by (cases s) (auto simp: digits_only_def)

lemma scan_digits_field:
  assumes "digits_only s" and "stops p"
  shows "scan_digits 0 (s @ p) = (fst (scan_digits 0 s), p)"
  using assms scan_digits_append [of s 0 p] by (simp add: digits_only_def scan_digits_stop)

lemma scan_int_field: "digits_only s \<Longrightarrow> stops p \<Longrightarrow> scan_int (s @ p) = (fst (scan_digits 0 s), p)"
  by (simp add: scan_int_def scan_sign_digits scan_digits_field)

lemma scan_int_two [simp]: "n < 100 \<Longrightarrow> stops p \<Longrightarrow> scan_int (show_two n @ p) = (int n, p)"
  by (simp add: scan_int_field show_two_digits scan_two_value)

lemma scan_int_nat [simp]: "stops p \<Longrightarrow> scan_int (show_nat n @ p) = (int n, p)"
  by (simp add: scan_int_field show_nat_digits scan_nat_value)

lemma scan_int_int [simp]: "0 \<le> n \<Longrightarrow> stops p \<Longrightarrow> scan_int (show_int n @ p) = (n, p)"
  by (simp add: show_int_def)

text \<open>The decimals count from the left: what is read times the missing power of ten is the amount.\<close>

lemma scan_fraction_rest: "scan_fraction v 2 (replicate j (CHR ''0'') @ rest) = scan_fraction v 2 rest"
  by (induction j) (simp_all add: is_digit_def char_value_def)

lemma scan_decimals:
  assumes "cents < 100" and "10 ^ (2 - k) dvd cents" and "0 < k" and "stops rest"
  shows "\<exists>frac digits. scan_fraction 0 0 (take k (show_two cents) @ replicate (k - 2) (CHR ''0'') @ rest) = (frac, digits, rest) \<and>
    frac * 10 ^ (2 - digits) = int cents"
proof -
  have stop: "scan_fraction v j rest = (v, j, rest)" for v j using assms(4) by (cases rest) (simp_all add: stops_def)
  have d: "cents div 10 < 10" using assms(1) by (simp add: div_less_iff_less_mult)
  show ?thesis
  proof (cases "k = 1")
    case True
    then have "cents mod 10 = 0" using assms(2) by (simp add: dvd_eq_mod_eq_0)
    then show ?thesis using tens [of cents] d True by (simp add: show_two_def stop digit_char_laws)
  next
    case False
    then have "take k (show_two cents) = show_two cents" using assms(3) by (simp add: show_two_def)
    then show ?thesis using tens [of cents] d scan_fraction_rest [of _ "k - 2" rest] stop
      by (simp add: show_two_def digit_char_laws numeral_2_eq_2)
  qed
qed

lemma decimals_stop: "stops rest \<Longrightarrow> stops (show_decimals k cents @ rest)"
  by (simp add: show_decimals_def)

lemma scan_price_field [simp]:
  assumes "says_price k p" and "stops rest" and "rest = [] \<or> hd rest \<noteq> CHR ''.''"
  shows "scan_price_minor (show_price k p @ rest) = (minor p, rest)"
proof -
  let ?n = "nat (minor p)"
  have "int (10 ^ (2 - k)) dvd int ?n" and range: "0 \<le> minor p" "minor p < 2 ^ 31"
    using assms(1) by (simp_all add: says_price_def)
  then have p: "0 \<le> minor p" "minor p < 2 ^ 31" "10 ^ (2 - k) dvd ?n" by (simp_all only: int_dvd_int_iff)
  have "10 ^ (2 - k) dvd (100 :: nat)"
    using le_imp_power_dvd [of "2 - k" 2 "10 :: nat"] by simp
  then have c: "10 ^ (2 - k) dvd ?n mod 100" using p(3) by (simp add: dvd_mod)
  have whole: "scan_digits 0 (show_nat (?n div 100) @ show_decimals k (?n mod 100) @ rest) =
      (int (?n div 100), show_decimals k (?n mod 100) @ rest)"
    using decimals_stop [OF assms(2)] by (simp add: scan_digits_field show_nat_digits scan_nat_value)
  have sgn: "scan_sign (show_nat (?n div 100) @ show_decimals k (?n mod 100) @ rest) =
      (False, show_nat (?n div 100) @ show_decimals k (?n mod 100) @ rest)"
    by (rule scan_sign_digits [OF show_nat_digits])
  have sum: "int (?n div 100) * 100 + int (?n mod 100) = minor p"
    using p(1) by (simp add: zdiv_int zmod_int)
  show ?thesis
  proof (cases "k = 0")
    case True
    then have "int (?n mod 100) = 0" using p(3) by (simp add: dvd_eq_mod_eq_0)
    moreover have "(case rest of [] \<Rightarrow> (0, 0, []) | c # cs \<Rightarrow> if c = CHR ''.'' then scan_fraction 0 0 cs else (0, 0, c # cs)) = (0 :: int, 0 :: nat, rest)"
      using assms(3) by (cases rest) simp_all
    ultimately show ?thesis using whole sgn sum p True
      by (simp add: scan_price_minor_def show_price_def show_decimals_def to_i32_id)
  next
    case False
    obtain frac digits where f: "scan_fraction 0 0 (take k (show_two (?n mod 100)) @ replicate (k - 2) (CHR ''0'') @ rest) = (frac, digits, rest)"
      "frac * 10 ^ (2 - digits) = int (?n mod 100)"
      using scan_decimals [OF _ c _ assms(2)] False by auto
    then show ?thesis using whole sgn sum p False
      by (simp add: scan_price_minor_def show_price_def show_decimals_def to_i32_id)
  qed
qed

section \<open>Rows\<close>

text \<open>What the vendor prints: non-negative fields of the code's widths, at a second of the day.\<close>

definition printable :: "(nat \<times> quote \<Rightarrow> nat \<times> nat \<times> nat) \<Rightarrow> date \<Rightarrow> int \<Rightarrow> nat \<times> quote \<Rightarrow> bool" where
  "printable dec d off = (\<lambda>(s, q). s < 86400 \<and> q_ts q = timestamp_of d (int s) off \<and>
     (case dec (s, q) of (k, kb, ka) \<Rightarrow>
        says_price k (q_last q) \<and> says_price kb (q_bid q) \<and> says_price ka (q_ask q)) \<and>
     (\<forall>n \<in> {q_bid_qty q, q_ask_qty q, q_last_qty q}. 0 \<le> n \<and> n < 2 ^ 31) \<and>
     0 \<le> q_open_interest q \<and> q_open_interest q < 2 ^ 63)"

definition plain :: "string \<Rightarrow> bool" where
  "plain ticker \<longleftrightarrow> ticker \<noteq> [] \<and> (\<forall>c \<in> set ticker. c \<noteq> CHR '','' \<and> \<not> newline c)"

definition on_calendar :: "nat \<Rightarrow> nat \<Rightarrow> nat \<Rightarrow> bool" where
  "on_calendar yyyy mm dd \<longleftrightarrow> 1990 \<le> yyyy \<and> yyyy \<le> 2100 \<and> 1 \<le> mm \<and> mm \<le> 12 \<and> 1 \<le> dd \<and> dd \<le> 31"

definition date_of :: "nat \<Rightarrow> nat \<Rightarrow> nat \<Rightarrow> date" where
  "date_of yyyy mm dd = Date (int yyyy * 10000 + int mm * 100 + int dd)"

lemma skip_char_hit [simp]: "skip_char c (c # p) = p"
  by (simp add: skip_char_def)

lemma skip_field_plain: "plain ticker \<Longrightarrow> skip_field (ticker @ CHR '','' # p) = p"
  by (simp add: skip_field_def plain_def dropWhile_append3 newline_def)

text \<open>The fields of a printed row, one by one.\<close>

lemma scan_show_row:
  assumes "plain ticker" and "on_calendar yyyy mm dd" and "printable dec d off (s, q)"
  shows "scan_row (show_row dec ticker yyyy mm dd (s, q)) =
    \<lparr>row_day = int dd, row_month = int mm, row_year = int yyyy, row_hour = int (s div 3600),
     row_minute = int (s div 60 mod 60), row_second = int (s mod 60), row_quote = q\<lparr>q_ts := Timestamp 0\<rparr>\<rparr>"
proof -
  have s: "s div 3600 < 100" "s div 60 mod 60 < 100" "s mod 60 < 100" "dd < 100" "mm < 100"
    using assms(2,3) by (auto simp: printable_def on_calendar_def div_less_iff_less_mult order.strict_trans [OF mod_less_divisor])
  obtain k kb ka where k: "dec (s, q) = (k, kb, ka)" by (cases "dec (s, q)")
  have q: "says_price k (q_last q)" "says_price kb (q_bid q)" "says_price ka (q_ask q)" "0 \<le> q_bid_qty q" "0 \<le> q_ask_qty q" "0 \<le> q_last_qty q"
    "q_bid_qty q < 2 ^ 31" "q_ask_qty q < 2 ^ 31" "q_last_qty q < 2 ^ 31" "0 \<le> q_open_interest q"
    using assms(3) by (simp_all add: printable_def k)
  have oi: "scan_int (show_int (q_open_interest q)) = (q_open_interest q, [])"
    using scan_int_int [OF q(10), of "[]"] by simp
  show ?thesis
    unfolding scan_row_def show_row_def prod.case k skip_field_plain [OF assms(1)] Let_def
    using oi s q by (cases q) (simp add: to_i32_id)
qed

lemma show_price_chars: "c \<in> set (show_price k p) \<Longrightarrow> c = CHR ''.'' \<or> is_digit c"
proof -
  have "is_digit (CHR ''0'')" by (simp add: is_digit_def char_value_def)
  then show "c \<in> set (show_price k p) \<Longrightarrow> c = CHR ''.'' \<or> is_digit c"
    using show_nat_digits [of "nat (minor p) div 100"] show_two_digits [of "nat (minor p) mod 100"]
    by (auto simp: show_price_def show_decimals_def digits_only_def split: if_splits dest: in_set_takeD)
qed

definition commas :: "string \<Rightarrow> nat" where
  "commas line = length (filter (\<lambda>c. c = CHR '','') line)"

lemma commas_simps [simp]: "commas [] = 0" "commas (c # cs) = (if c = CHR '','' then Suc (commas cs) else commas cs)"
  "commas (xs @ ys) = commas xs + commas ys"
  by (simp_all add: commas_def)

lemma no_commas: "(\<forall>c \<in> set s. c \<noteq> CHR '','') \<Longrightarrow> commas s = 0"
  by (simp add: commas_def filter_empty_conv)

lemma digits_no_commas: "digits_only s \<Longrightarrow> commas s = 0"
  using no_commas not_digits(3) by (metis digits_only_def)

lemma field_commas [simp]: "commas (show_nat n) = 0" "n < 100 \<Longrightarrow> commas (show_two n) = 0" "commas (show_price k p) = 0"
  "commas (show_int j) = 0"
  using show_price_chars no_commas not_digits(3)
  by (simp_all add: digits_no_commas show_nat_digits show_two_digits show_int_def) fastforce

lemma row_commas:
  assumes "plain ticker" and "on_calendar yyyy mm dd" and "printable dec d off (s, q)"
  shows "commas (show_row dec ticker yyyy mm dd (s, q)) = 9"
proof -
  have s: "s div 3600 < 100" "s div 60 mod 60 < 100" "s mod 60 < 100" "dd < 100" "mm < 100"
    using assms(2,3) by (auto simp: printable_def on_calendar_def div_less_iff_less_mult order.strict_trans [OF mod_less_divisor])
  have "commas ticker = 0" using assms(1) by (intro no_commas) (simp add: plain_def)
  then show ?thesis by (simp add: show_row_def s split: prod.split)
qed

section \<open>Files\<close>

lemma newline_simps [simp]: "newline (CHR 0x0A)" "newline (CHR 0x0D)" "\<not> newline (CHR '','')" "\<not> newline (CHR ''/'')"
  "\<not> newline (CHR '':'')" "\<not> newline (CHR ''.'')"
  by (simp_all add: newline_def)

definition one_line :: "string \<Rightarrow> bool" where
  "one_line l \<longleftrightarrow> (\<forall>c \<in> set l. \<not> newline c)"

lemma one_line_simps [simp]: "one_line []" "one_line (c # cs) \<longleftrightarrow> \<not> newline c \<and> one_line cs"
  "one_line (xs @ ys) \<longleftrightarrow> one_line xs \<and> one_line ys"
  by (auto simp: one_line_def)

lemma digits_one_line: "digits_only s \<Longrightarrow> one_line s"
  using not_digits(7,8) by (auto simp: digits_only_def one_line_def newline_def)

lemma fields_one_line [simp]: "one_line (show_nat n)" "n < 100 \<Longrightarrow> one_line (show_two n)" "one_line (show_price k p)"
  "one_line (show_int j)"
  using show_price_chars not_digits(7,8)
  by (simp_all add: digits_one_line show_nat_digits show_two_digits show_int_def) (fastforce simp: one_line_def newline_def)

lemma row_one_line:
  assumes "plain ticker" and "on_calendar yyyy mm dd" and "printable dec d off (s, q)"
  shows "one_line (show_row dec ticker yyyy mm dd (s, q))" and "show_row dec ticker yyyy mm dd (s, q) \<noteq> []"
proof -
  have s: "s div 3600 < 100" "s div 60 mod 60 < 100" "s mod 60 < 100" "dd < 100" "mm < 100"
    using assms(2,3) by (auto simp: printable_def on_calendar_def div_less_iff_less_mult order.strict_trans [OF mod_less_divisor])
  have "one_line ticker" using assms(1) by (simp add: plain_def one_line_def)
  then show "one_line (show_row dec ticker yyyy mm dd (s, q))" by (simp add: show_row_def s split: prod.split)
  show "show_row dec ticker yyyy mm dd (s, q) \<noteq> []" using assms(1) by (simp add: show_row_def split: prod.split)
qed

lemma lines_of_rows:
  assumes "plain ticker" and "on_calendar yyyy mm dd" and "\<forall>r \<in> set rs. printable dec d off r"
  shows "lines_of (concat (map (\<lambda>r. show_row dec ticker yyyy mm dd r @ [CHR 0x0D, CHR 0x0A]) rs)) = map (show_row dec ticker yyyy mm dd) rs"
  using assms(3)
proof (induction rs)
  case (Cons r rs)
  let ?rest = "concat (map (\<lambda>r. show_row dec ticker yyyy mm dd r @ [CHR 0x0D, CHR 0x0A]) rs)"
  obtain s q where r: "r = (s, q)" by (cases r)
  have p: "printable dec d off (s, q)" using Cons.prems by (simp add: r)
  note row = row_one_line [OF assms(1,2) p]
  have "lines_of (show_row dec ticker yyyy mm dd r @ (CHR 0x0D # CHR 0x0A # ?rest)) =
      show_row dec ticker yyyy mm dd r # lines_of (CHR 0x0D # CHR 0x0A # ?rest)"
    using row by (intro lines_of_line) (simp_all add: r one_line_def)
  then show ?case using Cons by (simp add: lines_of_newline)
qed simp

lemma header_of_file:
  "csv_header (show_file dec ticker yyyy mm dd rs) = concat (map (\<lambda>r. show_row dec ticker yyyy mm dd r @ [CHR 0x0D, CHR 0x0A]) rs)"
  by (simp add: csv_header_def show_file_def)

lemma printed_row:
  assumes "plain ticker" and "on_calendar yyyy mm dd" and "printable dec (date_of yyyy mm dd) (utc_offset_seconds opts) (s, q)"
    and "\<not> date_valid (sk_expected (cv_sink st)) \<or> sk_expected (cv_sink st) = date_of yyyy mm dd"
    and "\<And>t. cv_previous st = Some t \<Longrightarrow> t \<le> q_ts q"
  shows "csv_line opts reg i (show_row dec ticker yyyy mm dd (s, q)) st = admit_row reg i (date_of yyyy mm dd) q
    (st\<lparr>cv_sink := (cv_sink st)\<lparr>sk_expected := date_of yyyy mm dd\<rparr>,
        cv_row_date := (if date_valid (cv_row_date st) then cv_row_date st else date_of yyyy mm dd)\<rparr>)"
proof -
  let ?d = "date_of yyyy mm dd"
  let ?l = "show_row dec ticker yyyy mm dd (s, q)"
  note scan = scan_show_row [OF assms(1-3)]
  have comma: "(length (filter (\<lambda>c. c = CHR '','') ?l) \<noteq> 9) = False"
    using row_commas [OF assms(1-3)] by (simp add: commas_def)
  have s: "s div 3600 < 24" "s div 60 mod 60 < 60" "s mod 60 < 60"
    using assms(3) by (simp_all add: printable_def div_less_iff_less_mult)
  have range: "(\<not> row_in_range (scan_row ?l)) = False"
  proof -
    have "x mod 60 \<le> 59" for x :: int using pos_mod_bound [of 60 x] by linarith
    then show ?thesis using assms(2) s by (simp add: scan row_in_range_def on_calendar_def not_less zmod_int flip: of_nat_div)
  qed
  have "Date (to_i32 (row_year (scan_row ?l) * 10000 + row_month (scan_row ?l) * 100 + row_day (scan_row ?l))) = ?d"
    using assms(2) by (simp add: scan date_of_def on_calendar_def to_i32_id)
  moreover have "row_hour (scan_row ?l) * 3600 + row_minute (scan_row ?l) * 60 + row_second (scan_row ?l) = int s"
  proof -
    have "s div 60 div 60 = s div 3600" by (simp add: div_mult2_eq [symmetric])
    then have "s = s div 3600 * 3600 + s div 60 mod 60 * 60 + s mod 60"
      using div_mult_mod_eq [of s 60] div_mult_mod_eq [of "s div 60" 60] by linarith
    then have "int s = int (s div 3600 * 3600 + s div 60 mod 60 * 60 + s mod 60)" by simp
    then show ?thesis by (simp add: scan)
  qed
  moreover have ts: "timestamp_of ?d (int s) (utc_offset_seconds opts) = q_ts q" using assms(3) by (simp add: printable_def)
  moreover have "(row_quote (scan_row ?l))\<lparr>q_ts := q_ts q\<rparr> = q" by (simp add: scan)
  moreover have "(date_valid (sk_expected (cv_sink st)) \<and> ?d \<noteq> sk_expected (cv_sink st)) = False" using assms(4) by auto
  moreover have "(if date_valid (sk_expected (cv_sink st)) then cv_sink st else (cv_sink st)\<lparr>sk_expected := ?d\<rparr>) =
      (cv_sink st)\<lparr>sk_expected := ?d\<rparr>"
    using assms(4) by (cases "cv_sink st") auto
  ultimately show ?thesis
    using assms(5) unfolding csv_line_def Let_def comma range if_False
    by (simp split: option.split) (auto simp: not_less)
qed

text \<open>The rows of a file, once the first has fixed the day.\<close>

definition running :: "date \<Rightarrow> memory_session \<Rightarrow> nat \<Rightarrow> nat \<Rightarrow> timestamp \<Rightarrow> csv_state" where
  "running d m n k t = \<lparr>cv_row_date = d, cv_previous = Some t,
     cv_sink = \<lparr>sk_session = Some m, sk_date = d, sk_read = n, sk_skipped = k, sk_expected = d\<rparr>\<rparr>"

lemma admit_running: "date_valid d \<Longrightarrow> admit_row reg i d q (running d m n k t) =
    (case append_quote i q m of Inl e \<Rightarrow> Inl e | Inr m' \<Rightarrow> Inr (running d m' (n + 1) k (q_ts q)))"
  by (simp add: admit_row_def running_def split: sum.split)

lemma later_in_day: "s \<le> s' \<Longrightarrow> timestamp_of d (int s) off \<le> timestamp_of d (int s') off"
  by (simp add: timestamp_of_def from_seconds_def less_eq_timestamp_def)

lemma date_of_valid: "on_calendar yyyy mm dd \<Longrightarrow> date_valid (date_of yyyy mm dd)"
  by (simp add: on_calendar_def date_of_def date_valid_def)

lemma printable_ts: "printable dec d off r \<Longrightarrow> q_ts (snd r) = timestamp_of d (int (fst r)) off"
  by (cases r) (simp add: printable_def)

lemma printed_rows:
  assumes "plain ticker" and "on_calendar yyyy mm dd"
    and "\<forall>r \<in> set rs. printable dec (date_of yyyy mm dd) (utc_offset_seconds opts) r" and "sorted (map fst rs)"
    and "\<forall>r \<in> set rs. t \<le> q_ts (snd r)"
  shows "try_fold (csv_line opts reg i) (map (show_row dec ticker yyyy mm dd) rs) (running (date_of yyyy mm dd) m n k t) =
    (case append_all (map (\<lambda>r. (i, snd r)) rs) m of Inl e \<Rightarrow> Inl e
     | Inr m' \<Rightarrow> Inr (running (date_of yyyy mm dd) m' (n + length rs) k (last (t # map (q_ts \<circ> snd) rs))))"
  using assms(3-5)
proof (induction rs arbitrary: m n t)
  case (Cons r rs)
  let ?d = "date_of yyyy mm dd" and ?off = "utc_offset_seconds opts"
  obtain s q where r: "r = (s, q)" by (cases r)
  have p: "printable dec ?d ?off (s, q)" using Cons.prems(1) by (simp add: r)
  have line: "csv_line opts reg i (show_row dec ticker yyyy mm dd (s, q)) (running ?d m n k t) =
      admit_row reg i ?d q (running ?d m n k t)"
    using printed_row [OF assms(1,2) p, of "running ?d m n k t"] Cons.prems(3) date_of_valid [OF assms(2)]
    by (simp add: running_def r)
  have later: "\<forall>r \<in> set rs. q_ts q \<le> q_ts (snd r)"
  proof
    fix x assume x: "x \<in> set rs"
    then have "s \<le> fst x" using Cons.prems(2) by (simp add: r)
    moreover have "q_ts q = timestamp_of ?d (int s) ?off" using p by (simp add: printable_def)
    moreover have "q_ts (snd x) = timestamp_of ?d (int (fst x)) ?off" using Cons.prems(1) x by (intro printable_ts [of dec]) simp
    ultimately show "q_ts q \<le> q_ts (snd x)" by (simp add: later_in_day)
  qed
  show ?case
  proof (cases "append_quote i q m")
    case (Inl e)
    then show ?thesis using date_of_valid [OF assms(2)] by (simp add: r line admit_running)
  next
    case (Inr m1)
    have "sorted (map fst rs)" "\<forall>r \<in> set rs. printable dec ?d ?off r" using Cons.prems(1,2) by simp_all
    note ih = Cons.IH [OF this(2,1) later, of m1 "n + 1"]
    have "last (t # map (q_ts \<circ> snd) (r # rs)) = last (q_ts q # map (q_ts \<circ> snd) rs)" by (simp add: r)
    moreover have "n + length (r # rs) = n + 1 + length rs" by simp
    moreover have "append_all (map (\<lambda>r. (i, snd r)) (r # rs)) m = append_all (map (\<lambda>r. (i, snd r)) rs) m1"
      by (simp add: r Inr)
    moreover have "try_fold (csv_line opts reg i) (map (show_row dec ticker yyyy mm dd) (r # rs)) (running ?d m n k t) =
        try_fold (csv_line opts reg i) (map (show_row dec ticker yyyy mm dd) rs) (running ?d m1 (n + 1) k (q_ts q))"
      using date_of_valid [OF assms(2)] by (simp add: r line admit_running Inr)
    ultimately show ?thesis using ih by (simp only:)
  qed
qed simp

text \<open>The first row of the first file of a day.\<close>

definition fresh_sink :: "date \<Rightarrow> row_sink" where
  "fresh_sink e = \<lparr>sk_session = None, sk_date = Date 0, sk_read = 0, sk_skipped = 0, sk_expected = e\<rparr>"

lemma first_row:
  assumes "plain ticker" and "on_calendar yyyy mm dd" and "printable dec (date_of yyyy mm dd) (utc_offset_seconds opts) (s, q)"
    and "\<not> date_valid e \<or> e = date_of yyyy mm dd"
  shows "csv_line opts reg i (show_row dec ticker yyyy mm dd (s, q)) \<lparr>cv_row_date = Date 0, cv_previous = None, cv_sink = fresh_sink e\<rparr> =
    (case append_quote i q (new_session (date_of yyyy mm dd) reg) of Inl e \<Rightarrow> Inl e
     | Inr m \<Rightarrow> Inr (running (date_of yyyy mm dd) m 1 0 (q_ts q)))"
  using printed_row [OF assms(1-3), of "\<lparr>cv_row_date = Date 0, cv_previous = None, cv_sink = fresh_sink e\<rparr>"] assms(4)
  by (simp add: fresh_sink_def admit_row_def running_def date_valid_def split: sum.split)

lemma printed_file:
  assumes "plain ticker" and "on_calendar yyyy mm dd" and "rs \<noteq> []" and "length rs < 2 ^ 32"
    and "\<forall>r \<in> set rs. printable dec (date_of yyyy mm dd) (utc_offset_seconds opts) r" and "sorted (map fst rs)"
    and "\<not> date_valid e \<or> e = date_of yyyy mm dd"
  shows "\<exists>m. parse_csv_rows (show_file dec ticker yyyy mm dd rs) i opts reg (fresh_sink e) =
      Inr (date_of yyyy mm dd, \<lparr>sk_session = Some m, sk_date = date_of yyyy mm dd, sk_read = length rs, sk_skipped = 0,
        sk_expected = date_of yyyy mm dd\<rparr>) \<and>
    append_all (map (\<lambda>r. (i, snd r)) rs) (new_session (date_of yyyy mm dd) reg) = Inr m"
proof -
  let ?d = "date_of yyyy mm dd" and ?off = "utc_offset_seconds opts"
  let ?qs = "map (\<lambda>r. (i, snd r)) rs"
  have ts: "map (q_ts \<circ> snd) rs = map (\<lambda>r. timestamp_of ?d (int (fst r)) ?off) rs"
    using assms(5) by (simp add: printable_ts [of dec])
  have "sorted (map (\<lambda>r. timestamp_of ?d (int (fst r)) ?off) rs)"
    using assms(6) by (auto simp: sorted_iff_nth_mono intro: later_in_day)
  then have "sorted (map (q_ts \<circ> snd) rs)" by (simp only: ts)
  moreover have "rows_of j ?qs = (if j = i then map snd rs else [])" for j
    by (induction rs) (auto simp: rows_of_def)
  ultimately have "sorted (map q_ts (rows_of j ?qs))" for j by simp
  moreover have new: "rows (ms_quotes (new_session ?d reg) j) = []" "ms_total (new_session ?d reg) = 0" for j
    by (simp_all add: new_session_def ms_quotes_def rows_def)
  ultimately obtain m where m: "append_all ?qs (new_session ?d reg) = Inr m"
    using append_all_iff [OF new_session_ok, of ?d reg ?qs] assms(4) by auto
  obtain s q rs' where rs: "rs = (s, q) # rs'" using assms(3) by (cases rs) auto
  obtain m1 where m1: "append_quote i q (new_session ?d reg) = Inr m1" "append_all (map (\<lambda>r. (i, snd r)) rs') m1 = Inr m"
    using m by (auto simp: rs split: sum.splits)
  have p: "printable dec ?d ?off (s, q)" "\<forall>r \<in> set rs'. printable dec ?d ?off r" "sorted (map fst rs')"
    using assms(5,6) by (simp_all add: rs)
  have "\<forall>r \<in> set rs'. q_ts q \<le> q_ts (snd r)"
    using \<open>sorted (map (q_ts \<circ> snd) rs)\<close> by (simp add: rs)
  note rest = printed_rows [OF assms(1,2) p(2,3) this, of reg i m1 1 0]
  have "parse_csv_rows (show_file dec ticker yyyy mm dd rs) i opts reg (fresh_sink e) =
      (case try_fold (csv_line opts reg i) (map (show_row dec ticker yyyy mm dd) rs)
          \<lparr>cv_row_date = Date 0, cv_previous = None, cv_sink = fresh_sink e\<rparr> of Inl e \<Rightarrow> Inl e
       | Inr st \<Rightarrow> Inr (cv_row_date st, cv_sink st))"
    by (simp only: parse_csv_rows_def header_of_file csv_loop_lines lines_of_rows [OF assms(1,2,5)])
  also have "\<dots> = Inr (?d, \<lparr>sk_session = Some m, sk_date = ?d, sk_read = length rs, sk_skipped = 0, sk_expected = ?d\<rparr>)"
    using first_row [OF assms(1,2) p(1) assms(7), of reg i] rest by (simp add: rs m1) (simp add: running_def)
  finally show ?thesis using m by blast
qed

section \<open>Contract names\<close>

definition plain_underlying :: "string \<Rightarrow> bool" where
  "plain_underlying u \<longleftrightarrow> u \<noteq> [] \<and> (\<forall>c \<in> set u. \<not> is_digit c \<and> c \<noteq> CHR ''.'')"

lemma month_names_length [simp]: "length month_names = 12"
  by (simp add: month_names_def)

lemma month_names_laws:
  assumes "1 \<le> mm" and "mm \<le> 12"
  shows "month_from (month_names ! (mm - 1)) = int mm" and "length (month_names ! (mm - 1)) = 3"
    and "CHR ''.'' \<notin> set (month_names ! (mm - 1))"
proof -
  have "\<forall>m \<in> set [0..<12]. month_from (month_names ! m) = int m + 1 \<and> length (month_names ! m) = 3 \<and>
      CHR ''.'' \<notin> set (month_names ! m)" by code_simp
  then have "month_from (month_names ! (mm - 1)) = int (mm - 1) + 1 \<and> length (month_names ! (mm - 1)) = 3 \<and>
      CHR ''.'' \<notin> set (month_names ! (mm - 1))" using assms by (elim ballE [where x = "mm - 1"]) auto
  then show "month_from (month_names ! (mm - 1)) = int mm" "length (month_names ! (mm - 1)) = 3"
    "CHR ''.'' \<notin> set (month_names ! (mm - 1))" using assms(1) by simp_all
qed

lemma digits_no_dot: "digits_only s \<Longrightarrow> CHR ''.'' \<notin> set s"
  using not_digits(6) by (auto simp: digits_only_def)

text \<open>A whole strike, in rupees, is read as its hundredfold.\<close>

lemma scan_strike:
  assumes "100 * k < 2 ^ 31"
  shows "scan_price_minor (show_nat k) = (100 * int k, [])"
proof -
  have "scan_sign (show_nat k) = (False, show_nat k)" using scan_sign_digits [OF show_nat_digits, of k "[]"] by simp
  moreover have "scan_digits 0 (show_nat k) = (int k, [])"
    using scan_digits_field [OF show_nat_digits, of "[]" k] by (simp add: scan_nat_value)
  moreover have "int k * 100 < 2 ^ 31" using assms by simp
  ultimately show ?thesis by (simp add: scan_price_minor_def to_i32_id)
qed

lemma parse_contract_printed:
  assumes "month_from name = int mm" and "length name = 3" and "1 \<le> mm" and "1 \<le> dd" and "dd \<le> 31" and "yy < 100"
    and "0 < k" and "100 * k < 2 ^ 31"
  shows "parse_contract (show_two dd @ name @ show_two yy @ show_nat k) out =
    out\<lparr>ps_strike := Price (100 * int k),
        ps_expiry := Date ((2000 + int yy) * 10000 + int mm * 100 + int dd), ps_ok := True\<rparr>"
proof -
  obtain a b c where m: "name = [a, b, c]" using assms(2) by (auto simp: length_Suc_conv numeral_3_eq_3)
  have month: "month_from [a, b, c] = int mm" using assms(1) by (simp only: m)
  have strike: "show_nat k \<noteq> []" "\<forall>x \<in> set (show_nat k). is_digit x"
    using show_nat_digits [of k] by (simp_all add: digits_only_def)
  have tens10: "dd div 10 < 10" "yy div 10 < 10" "dd mod 10 < 10" "yy mod 10 < 10"
    using assms(5,6) by (simp_all add: div_less_iff_less_mult)
  note digits = tens10 [THEN digit_char_laws(1)] tens10 [THEN digit_char_laws(2)]
  let ?rest = "show_two dd @ name @ show_two yy @ show_nat k"
  have at: "?rest = digit_char (dd div 10) # digit_char (dd mod 10) # a # b # c #
      digit_char (yy div 10) # digit_char (yy mod 10) # show_nat k"
    by (simp add: show_two_def m)
  have nth: "?rest ! 0 = digit_char (dd div 10)" "?rest ! 1 = digit_char (dd mod 10)" "take 3 (drop 2 ?rest) = [a, b, c]"
    "?rest ! 5 = digit_char (yy div 10)" "?rest ! 6 = digit_char (yy mod 10)" "drop 7 ?rest = show_nat k"
    unfolding at by simp_all
  have long: "(length ?rest < 8) = False" using strike(1) unfolding at by (cases "show_nat k") simp_all
  have vals: "digit_value (?rest ! 0) * 10 + digit_value (?rest ! 1) = int dd"
    "2000 + digit_value (?rest ! 5) * 10 + digit_value (?rest ! 6) = 2000 + int yy"
    unfolding nth digits using tens [of dd] tens [of yy] by linarith+
  have bad: "(\<exists>x \<in> set (show_nat k). \<not> is_digit x \<and> x \<noteq> CHR ''.'') = False" using strike(2) by blast
  show ?thesis
    unfolding parse_contract_def Let_def vals
    unfolding nth long month bad scan_strike [OF assms(8)] using assms(3-7) strike(1) digits(1-4) by simp
qed

lemma parse_show_symbol:
  assumes "plain_underlying u" and "1 \<le> mm" and "mm \<le> 12" and "1 \<le> dd" and "dd \<le> 31" and "yy < 100"
    and "0 < k" and "100 * k < 2 ^ 31" and "12 \<le> length (show_symbol u dd mm yy k r)"
  shows "parse_gfdl_symbol (show_symbol u dd mm yy k r @ CHR ''.'' # suffix) =
    \<lparr>ps_underlying = u, ps_expiry = Date ((2000 + int yy) * 10000 + int mm * 100 + int dd),
     ps_strike = Price (100 * int k), ps_right = r, ps_ok = True\<rparr>"
proof -
  obtain name where name: "name = month_names ! (mm - 1)" by blast
  note month = month_names_laws [OF assms(2,3), folded name]
  let ?rest = "show_two dd @ name @ show_two yy @ show_nat k"
  let ?right = "if r = Call then ''CE'' else ''PE''"
  let ?t = "show_symbol u dd mm yy k r"
  have t: "?t = (u @ ?rest) @ ?right" by (simp add: show_symbol_def name)
  have two: "show_two dd = digit_char (dd div 10) # [digit_char (dd mod 10)]" "is_digit (digit_char (dd div 10))"
    using assms(5) by (simp_all add: show_two_def digit_char_laws div_less_iff_less_mult)
  have "CHR ''.'' \<notin> set ?t"
    using assms(1,5,6) month(3)
    by (auto simp: t plain_underlying_def digits_no_dot show_two_digits show_nat_digits split: if_splits)
  then have ticker: "takeWhile (\<lambda>c. c \<noteq> CHR ''.'') (?t @ CHR ''.'' # suffix) = ?t"
    by (subst takeWhile_append2) auto
  have cut: "drop (length ?t - 2) ?t = ?right" "take (length ?t - 2) ?t = u @ ?rest" by (simp_all add: t)
  have stem: "takeWhile (\<lambda>c. \<not> is_digit c) (u @ ?rest) = u"
    using assms(1) two by (subst takeWhile_append2) (auto simp: plain_underlying_def)
  have long: "\<not> length (u @ ?rest) \<le> length u + 7"
    using show_nat_digits [of k] month(2) by (simp add: show_two_def digits_only_def Suc_le_eq)
  have right: "(?right \<noteq> ''CE'' \<and> ?right \<noteq> ''PE'') = False" "(if ?right = ''CE'' then Call else Put) = r"
    by (cases r; simp)+
  have long': "(length u = 0 \<or> length (u @ ?rest) \<le> length u + 7) = False"
    using long assms(1) by (simp add: plain_underlying_def)
  have short: "(length ?t < 12) = False" using assms(9) by simp
  have parts: "take (length u) (u @ ?rest) = u" "drop (length u) (u @ ?rest) = ?rest" by simp_all
  show ?thesis
    unfolding parse_gfdl_symbol_def ticker Let_def short if_False cut right stem long' parts
      parse_contract_printed [OF month(1,2) assms(2,4-8)]
    by (simp add: no_symbol_def)
qed

section \<open>A directory with one printed file\<close>

definition file_name :: "string \<Rightarrow> nat \<Rightarrow> nat \<Rightarrow> nat \<Rightarrow> nat \<Rightarrow> right \<Rightarrow> string" where
  "file_name u dd mm yy k r = show_symbol u dd mm yy k r @ ''.NFO.csv''"

lemma file_name_extension: "path_extension (file_name u dd mm yy k r) = ''.csv''"
  by (simp add: file_name_def path_extension_def Let_def)

lemma show_file_nonempty: "show_file dec ticker yyyy mm dd rs \<noteq> []"
  by (simp add: show_file_def)

lemma contract_key:
  assumes "key_of sp = key_of (contract_of opts tkr u)"
  shows "kind sp = Option \<and> underlying sp = u \<and> expiry sp = ps_expiry tkr \<and> strike sp = ps_strike tkr \<and> right_of sp = ps_right tkr"
proof -
  have "kind_code (kind sp) = kind_code Option" using assms by (simp add: key_of_def contract_of_def)
  then have "kind sp = Option" by (cases "kind sp") simp_all
  moreover from this assms have "right_code (right_of sp) = right_code (ps_right tkr)" by (simp add: key_of_def contract_of_def)
  then have "right_of sp = ps_right tkr" by (cases "right_of sp"; cases "ps_right tkr") simp_all
  ultimately show ?thesis
    using assms by (simp add: key_of_def contract_of_def date.expand price.expand underlying_id.expand)
qed

lemma bound_session: "\<exists>m'. bind_registry reg (Some m) = Some m' \<and> ms_quotes m' = ms_quotes m"
  by (simp add: bind_registry_def build_event_order_def Let_def ms_quotes_def fun_eq_iff)

lemma registered_contract:
  assumes "registry_ok reg" and "room_for 1 reg" and u: "intern_underlying name reg = (u, reg1)"
    and a: "add (contract_of opts tkr u) reg1 = (i, reg2)"
  shows "\<exists>sp. spec reg2 i = Inr sp \<and> key_of sp = key_of (contract_of opts tkr u) \<and> underlying_ids reg2 name = Some u"
proof -
  have "length (underlyings reg) < 2 ^ 31" using assms(2) by (simp add: room_for_def)
  note 1 = intern_underlying_ok [OF assms(1) this u]
  have l: "length (specs reg1) < 2 ^ 31"
    using assms(2) u by (auto simp: room_for_def intern_underlying_def Let_def split: option.splits)
  have "registry_ok reg2" using add_registry_ok [OF _ l a] 1 by blast
  moreover have "by_key reg2 (key_of (contract_of opts tkr u)) = Some i" "underlying_ids reg2 = underlying_ids reg1"
    using a by (auto elim: add_cases [OF l])
  ultimately show ?thesis using by_key_spec 1 by (metis fun_upd_same)
qed

lemma read_printed_file:
  assumes "plain ticker" and "on_calendar yyyy mm dd" and "rs \<noteq> []" and "length rs < 2 ^ 32"
    and "\<forall>r \<in> set rs. printable dec (date_of yyyy mm dd) (utc_offset_seconds opts) r" and "sorted (map fst rs)"
    and "\<not> date_valid e \<or> e = date_of yyyy mm dd"
    and u: "intern_underlying (ps_underlying tkr) reg = (u, reg1)" and a: "add (contract_of opts tkr u) reg1 = (i, reg2)"
  shows "\<exists>m st. read_file opts name tkr (show_file dec ticker yyyy mm dd rs)
        \<lparr>ls_registry = reg, ls_day = empty_day, ls_expiries = [], ls_expected = e\<rparr> = Inr st \<and>
      ls_registry st = reg2 \<and> ls_expiries st = [(yyyymmdd (ps_expiry tkr), ())] \<and>
      ls_day st = empty_day\<lparr>gd_session := Some m, gd_underlying := u, gd_date := date_of yyyy mm dd, files_read := 1,
        gd_rows_read := length rs\<rparr> \<and>
      memory_ok m \<and> (\<forall>j. rows (ms_quotes m j) = (if j = i then map snd rs else []))"
proof -
  obtain m where m: "parse_csv_rows (show_file dec ticker yyyy mm dd rs) i opts reg2 (fresh_sink e) =
      Inr (date_of yyyy mm dd, \<lparr>sk_session = Some m, sk_date = date_of yyyy mm dd, sk_read = length rs, sk_skipped = 0,
        sk_expected = date_of yyyy mm dd\<rparr>)"
    "append_all (map (\<lambda>r. (i, snd r)) rs) (new_session (date_of yyyy mm dd) reg2) = Inr m"
    using printed_file [OF assms(1-7), of i reg2] by blast
  have "ms_total (new_session (date_of yyyy mm dd) reg2) + length (map (\<lambda>r. (i, snd r)) rs) < 2 ^ 32"
    using assms(4) by (simp add: new_session_def)
  note ok = append_all_accepts [OF m(2) new_session_ok this]
  have "rows_of j (map (\<lambda>r. (i, snd r)) rs) = (if j = i then map snd rs else [])" for j
    by (induction rs) (auto simp: rows_of_def)
  then have "memory_ok m" "\<forall>j. rows (ms_quotes m j) = (if j = i then map snd rs else [])"
    using ok by (simp_all add: new_session_def ms_quotes_def rows_def)
  then show ?thesis
    using m(1) by (simp add: read_file_def u a empty_day_def fresh_sink_def)
qed

text \<open>C30: the vendor's format reads back.  A directory holds one file, named after an option with a
  strike in whole rupees (a name with a fractional one does not parse): the underlying, without digits or
  points, the expiry of this century as day, month name and two-digit year, the strike, CE or PE, of
  twelve characters or more before the suffix.  The file has rows of one date of 1990 to 2100 in time
  order, each price printed with any number of decimals that says it exactly (2551, 2539.85, 7.5), each
  field not negative and of the width the code gives it.  If the options ask for no other date and no
  other underlying and the registry has room, it loads as a session of that day whose one instrument is
  the contract the name says and whose quotes are the printed ones, in order and field by field; no row
  is skipped and nothing is warned of.\<close>

theorem printed_day_loads_back:
  assumes "plain_underlying u" and "1 \<le> em" and "em \<le> 12" and "1 \<le> ed" and "ed \<le> 31" and "ey < 100"
    and "0 < k" and "100 * k < 2 ^ 31" and "12 \<le> length (show_symbol u ed em ey k r)"
    and "plain ticker" and "on_calendar yyyy mm dd" and "rs \<noteq> []" and "length rs < 2 ^ 32"
    and "\<forall>r \<in> set rs. printable dec (date_of yyyy mm dd) (utc_offset_seconds opts) r" and "sorted (map fst rs)"
    and "\<not> date_valid (expected_date opts) \<or> expected_date opts = date_of yyyy mm dd"
    and "only_underlying opts = [] \<or> only_underlying opts = u"
    and "registry_ok reg" and "length (specs reg) < 2 ^ 31" and "length (underlyings reg) < 2 ^ 31"
  shows "\<exists>reg' out m i sp.
    load_gfdl_day reg path (Some [\<lparr>de_name = file_name u ed em ey k r, de_regular = True,
        de_contents = Some (show_file dec ticker yyyy mm dd rs)\<rparr>]) opts = Inr (reg', out) \<and>
    gd_session out = Some m \<and> gd_date out = date_of yyyy mm dd \<and> files_read out = 1 \<and> files_skipped out = 0 \<and>
    gd_rows_read out = length rs \<and> gd_rows_skipped out = 0 \<and> warnings out = [] \<and>
    gd_expiries out = [expiry sp] \<and>
    spec reg' i = Inr sp \<and> kind sp = Option \<and> underlying_ids reg' u = Some (underlying sp) \<and>
    expiry sp = date_of (2000 + ey) em ed \<and> strike sp = Price (100 * int k) \<and> right_of sp = r \<and>
    (\<forall>j. rows (ms_quotes m j) = (if j = i then map snd rs else []))"
proof -
  let ?name = "file_name u ed em ey k r"
  let ?e = "\<lparr>de_name = ?name, de_regular = True, de_contents = Some (show_file dec ticker yyyy mm dd rs)\<rparr>"
  let ?tkr = "\<lparr>ps_underlying = u, ps_expiry = date_of (2000 + ey) em ed, ps_strike = Price (100 * int k), ps_right = r, ps_ok = True\<rparr>"
  have tkr: "parse_gfdl_symbol ?name = ?tkr"
    using parse_show_symbol [OF assms(1-9), of "''NFO.csv''"] by (simp add: file_name_def date_of_def)
  obtain uid reg1 where ui: "intern_underlying u reg = (uid, reg1)" by (cases "intern_underlying u reg")
  obtain i reg2 where a: "add (contract_of opts ?tkr uid) reg1 = (i, reg2)" by (cases "add (contract_of opts ?tkr uid) reg1")
  obtain m st where read: "read_file opts ?name ?tkr (show_file dec ticker yyyy mm dd rs)
        \<lparr>ls_registry = reg, ls_day = empty_day, ls_expiries = [], ls_expected = expected_date opts\<rparr> = Inr st"
      "ls_registry st = reg2" "ls_expiries st = [(yyyymmdd (date_of (2000 + ey) em ed), ())]"
      "ls_day st = empty_day\<lparr>gd_session := Some m, gd_underlying := uid, gd_date := date_of yyyy mm dd, files_read := 1,
        gd_rows_read := length rs\<rparr>"
      "\<forall>j. rows (ms_quotes m j) = (if j = i then map snd rs else [])"
    using read_printed_file [OF assms(10-16), of ?tkr reg uid reg1 i reg2 ?name] ui a by auto
  have "csv_files [?e] = [?e]" by (simp add: csv_files_def file_name_extension)
  moreover have "\<not> wrong_underlying opts ?tkr" using assms(17) by (auto simp: wrong_underlying_def)
  ultimately have loaded: "load_gfdl_day reg path (Some [?e]) opts =
      Inr (reg2, (ls_day st)\<lparr>gd_expiries := [date_of (2000 + ey) em ed], gd_session := bind_registry reg2 (Some m)\<rparr>)"
    using read by (simp add: load_gfdl_day_def dir_file_def tkr show_file_nonempty)
  have "room_for 1 reg" using assms(19,20) by (simp add: room_for_def)
  from registered_contract [OF assms(18) this ui a] obtain sp where
    sp: "spec reg2 i = Inr sp" "key_of sp = key_of (contract_of opts ?tkr uid)" "underlying_ids reg2 u = Some uid" by blast
  obtain m' where m': "bind_registry reg2 (Some m) = Some m'" "ms_quotes m' = ms_quotes m" using bound_session by blast
  show ?thesis
    by (rule exI [of _ reg2], rule exI [of _ "(ls_day st)\<lparr>gd_expiries := [date_of (2000 + ey) em ed], gd_session := Some m'\<rparr>"],
        rule exI [of _ m'], rule exI [of _ i], rule exI [of _ sp])
      (use loaded m' read(4,5) sp contract_key [OF sp(2)] in \<open>simp add: empty_day_def\<close>)
qed

text \<open>The sample row of the adapter's header, printed and loaded.\<close>

definition sample_quote :: quote where
  "sample_quote = \<lparr>q_ts = timestamp_of (Date 20250701) 36710 kISTOffsetSeconds, q_last = Price 255100, q_bid = Price 253985,
     q_ask = Price 260355, q_bid_qty = 75, q_ask_qty = 975, q_last_qty = 150, q_open_interest = 34575\<rparr>"

text \<open>The prices of the sample row are printed as 2551, 2539.85 and 2603.55.\<close>

definition sample_decimals :: "nat \<times> quote \<Rightarrow> nat \<times> nat \<times> nat" where
  "sample_decimals = (\<lambda>_. (0, 2, 2))"

definition sample_file :: string where
  "sample_file = ''Ticker,Date,Time,LTP,BuyPrice,BuyQty,SellPrice,SellQty,LTQ,OpenInterest'' @ CHR 0x0A #
     ''NIFTY03JUL2523000CE.NFO,01/07/2025,10:11:50,2551,2539.85,75,2603.55,975,150,34575'' @ [CHR 0x0D, CHR 0x0A]"

lemma digit_chars: "digit_char 0 = CHR ''0''" "digit_char (Suc 0) = CHR ''1''" "digit_char 2 = CHR ''2''"
  "digit_char 3 = CHR ''3''" "digit_char 4 = CHR ''4''" "digit_char 5 = CHR ''5''" "digit_char 6 = CHR ''6''"
  "digit_char 7 = CHR ''7''" "digit_char 8 = CHR ''8''" "digit_char 9 = CHR ''9''"
  by code_simp+

lemma sample_file_shown:
  "show_file sample_decimals ''NIFTY03JUL2523000CE.NFO'' 2025 7 1 [(36710, sample_quote)] = sample_file"
  by (simp add: show_file_def show_row_def sample_file_def sample_decimals_def sample_quote_def show_price_def
      show_decimals_def show_int_def show_two_def show_nat.simps digit_chars)

theorem printed_day_loads_back_witness:
  "\<exists>reg' out m i. load_gfdl_day empty_registry ''ticks'' (Some [\<lparr>de_name = file_name ''NIFTY'' 3 7 25 23000 Call,
       de_regular = True, de_contents = Some sample_file\<rparr>]) default_load_options = Inr (reg', out) \<and>
     gd_session out = Some m \<and> rows (ms_quotes m i) = [sample_quote]"
proof -
  have names: "plain_underlying ''NIFTY''" "plain ''NIFTY03JUL2523000CE.NFO''" by code_simp+
  have long: "12 \<le> length (show_symbol ''NIFTY'' 3 7 25 23000 Call)"
    by (simp add: show_symbol_def show_two_def month_names_def)
  have cal: "on_calendar 2025 7 1" and d: "date_of 2025 7 1 = Date 20250701" by (simp_all add: on_calendar_def date_of_def)
  have row: "\<forall>r \<in> set [(36710, sample_quote)]. printable sample_decimals (date_of 2025 7 1) (utc_offset_seconds default_load_options) r"
    unfolding d by (simp add: printable_def says_price_def sample_decimals_def sample_quote_def default_load_options_def)
  have opts: "\<not> date_valid (expected_date default_load_options) \<or> expected_date default_load_options = date_of 2025 7 1"
    "only_underlying default_load_options = [] \<or> only_underlying default_load_options = ''NIFTY''"
    by (simp_all add: default_load_options_def date_valid_def)
  have room: "length (specs empty_registry) < 2 ^ 31" "length (underlyings empty_registry) < 2 ^ 31"
    by (simp_all add: empty_registry_def)
  have sizes: "(1 :: nat) \<le> 7" "(7 :: nat) \<le> 12" "(1 :: nat) \<le> 3" "(3 :: nat) \<le> 31" "(25 :: nat) < 100" "(0 :: nat) < 23000"
    "100 * (23000 :: nat) < 2 ^ 31" "[(36710 :: nat, sample_quote)] \<noteq> []" "length [(36710 :: nat, sample_quote)] < 2 ^ 32"
    "sorted (map fst [(36710 :: nat, sample_quote)])" by simp_all
  show ?thesis
    using printed_day_loads_back [OF names(1) sizes(1-7) long names(2) cal sizes(8,9) row sizes(10) opts registry_ok_empty room, of "''ticks''"]
    unfolding sample_file_shown by (elim exE conjE) auto
qed

end
