(* ===== verification/ConvertLaws.thy ===== *)
theory ConvertLaws
  imports Convert VerifyStoreLaws GfdlRoundTrip "HOL-Library.Sublist"
begin

text \<open>
  What a conversion does to the store: without \<open>--force\<close> it only adds days, each of them a file of the
  writer, and running it again adds nothing.
\<close>

section \<open>Writing looks at one path of the disk\<close>












section \<open>One archive without \<open>--force\<close>\<close>




lemma remove_nothing [simp]: "disk_files d p = None \<Longrightarrow> remove_file p d = d"
  by (cases d) (auto simp: remove_file_def fun_eq_iff)


section \<open>The store only grows\<close>














section \<open>Running it again\<close>







section \<open>Property\<close>








end
