(* ===== verification/Handles.thy ===== *)
theory Handles
  imports StrategyLaws "HOL-Library.Product_Lexorder"
begin

text \<open>
  The rest of \<open>strategy.hpp\<close>: the memo caches of the context, which must not change what it answers,
  and the handles a strategy is given for its positions and their legs.
\<close>

section \<open>The caches\<close>

record ctx_caches =
  ch_bars :: "((int \<times> int \<times> int) \<times> bar_series) list"
  ch_forward :: "((int \<times> int) \<times> dbl) list"

definition no_caches :: ctx_caches where
  "no_caches = \<lparr>ch_bars = [], ch_forward = []\<rparr>"

fun price_code :: "bar_price \<Rightarrow> int" where
  "price_code Last = 0"
| "price_code Mid = 1"

text \<open>\<open>Ctx::forward\<close> with its cache: what the search finds is kept, its failures are not.\<close>

definition cached_forward :: "ctx \<Rightarrow> date \<Rightarrow> ctx_caches \<Rightarrow> ctx_caches \<times> dbl option" where
  "cached_forward c ex ch =
     (if \<not> flt (Fin 0) (time_to_expiry (cx_now c) ex (cx_utc_offset c) kExpirySecond) then (ch, None)
      else let key = (yyyymmdd ex, nanos (cx_now c)) in
        case map_of (ch_forward ch) key of
          Some v \<Rightarrow> (ch, Some v)
        | None \<Rightarrow>
            (case forward c ex of
               None \<Rightarrow> (ch, None)
             | Some v \<Rightarrow> (ch\<lparr>ch_forward := om_put key v (ch_forward ch)\<rparr>, Some v)))"

definition cached_bars ::
    "ctx \<Rightarrow> instrument_id \<Rightarrow> int \<Rightarrow> bar_price \<Rightarrow> ctx_caches \<Rightarrow> exn + ctx_caches \<times> bar_series" where
  "cached_bars c i interval_seconds src ch =
     (if interval_seconds \<le> 0 then Inl (InvalidArgument ''Ctx::bars: interval must be positive'')
      else let key = (index_of i, interval_seconds, price_code src) in
        case map_of (ch_bars ch) key of
          Some s \<Rightarrow> Inr (ch, s)
        | None \<Rightarrow>
            (case ctx_bars c i interval_seconds src of
               Inl e \<Rightarrow> Inl e
             | Inr s \<Rightarrow> Inr (ch\<lparr>ch_bars := om_put key s (ch_bars ch)\<rparr>, s)))"

text \<open>Re-pointing the context empties both.\<close>

definition rebind :: "session_data \<Rightarrow> market_view \<Rightarrow> date \<Rightarrow> ctx \<times> ctx_caches \<Rightarrow> ctx \<times> ctx_caches" where
  "rebind sd mv d = (\<lambda>(c, ch). (bind_session sd mv d c, no_caches))"

text \<open>What a cache may hold: the answers of the context at its own and at earlier instants.\<close>

definition caches_ok :: "ctx \<Rightarrow> ctx_caches \<Rightarrow> bool" where
  "caches_ok c ch \<longleftrightarrow>
     (\<forall>key t v. map_of (ch_forward ch) (key, t) = Some v \<longrightarrow>
        forward (ctx_on c (cx_session c) (Timestamp t)) (Date key) = Some v) \<and>
     (\<forall>n secs src s. map_of (ch_bars ch) (n, secs, price_code src) = Some s \<longrightarrow>
        ctx_bars c (InstrumentId n) secs src = Inr s)"

lemma price_code_inject [simp]: "price_code a = price_code b \<longleftrightarrow> a = b"
  by (cases a; cases b) simp_all

lemma ctx_on_same [simp]: "cx_market c = market (cx_session c) (cx_now c) \<Longrightarrow> ctx_on c (cx_session c) (cx_now c) = c"
  by (simp add: ctx_on_def)

lemma ctx_on_ctx_on [simp]: "ctx_on (ctx_on c sd s) sd' t = ctx_on c sd' t"
  by (simp add: ctx_on_def)

lemma ctx_on_session [simp]: "cx_session (ctx_on c sd t) = sd"
  by (simp add: ctx_on_def)

lemma ctx_bars_clock: "ctx_bars (ctx_on c (cx_session c) t) = ctx_bars c"
  by (intro ext) (simp add: ctx_bars_def ctx_on_def)

lemma forward_expired: "\<not> flt (Fin 0) (time_to_expiry (cx_now c) ex (cx_utc_offset c) kExpirySecond) \<Longrightarrow> forward c ex = None"
  by (simp add: forward_def Let_def)

lemma no_caches_ok: "caches_ok c no_caches"
  by (simp add: caches_ok_def no_caches_def)

lemma caches_ok_clock: "caches_ok c ch \<Longrightarrow> caches_ok (ctx_on c (cx_session c) t) ch"
  by (simp add: caches_ok_def ctx_bars_clock)

lemma cached_forward_same:
  assumes "cx_market c = market (cx_session c) (cx_now c)" and "caches_ok c ch"
  shows "snd (cached_forward c ex ch) = forward c ex" and "caches_ok c (fst (cached_forward c ex ch))"
proof -
  let ?key = "(yyyymmdd ex, nanos (cx_now c))"
  have here: "ctx_on c (cx_session c) (Timestamp (nanos (cx_now c))) = c" "Date (yyyymmdd ex) = ex"
    using assms(1) by (simp_all add: timestamp.expand date.expand)
  have hit: "forward c ex = Some v" if "map_of (ch_forward ch) ?key = Some v" for v
    using assms(2) that here unfolding caches_ok_def by metis
  show "snd (cached_forward c ex ch) = forward c ex"
    using hit forward_expired by (auto simp: cached_forward_def Let_def split: option.split)
  show "caches_ok c (fst (cached_forward c ex ch))"
  proof (cases "forward c ex")
    case (Some v)
    then have "caches_ok c (ch\<lparr>ch_forward := om_put ?key v (ch_forward ch)\<rparr>)"
      using assms(2) here unfolding caches_ok_def by (auto split: if_splits)
    then show ?thesis using assms(2) Some by (auto simp: cached_forward_def Let_def split: option.split)
  qed (use assms(2) in \<open>auto simp: cached_forward_def Let_def split: option.split\<close>)
qed

lemma cached_bars_same:
  assumes "caches_ok c ch"
  shows "(case cached_bars c i secs src ch of Inl e \<Rightarrow> ctx_bars c i secs src = Inl e
    | Inr (ch', s) \<Rightarrow> ctx_bars c i secs src = Inr s \<and> caches_ok c ch')"
proof (cases "secs \<le> 0")
  case False
  let ?key = "(index_of i, secs, price_code src)"
  have i: "InstrumentId (index_of i) = i" by simp
  show ?thesis
  proof (cases "map_of (ch_bars ch) ?key")
    case (Some s)
    then have "ctx_bars c i secs src = Inr s" using assms i unfolding caches_ok_def by metis
    with Some show ?thesis using assms False by (simp add: cached_bars_def)
  next
    case None
    have "caches_ok c (ch\<lparr>ch_bars := om_put ?key s (ch_bars ch)\<rparr>)" if "ctx_bars c i secs src = Inr s" for s
      using assms that unfolding caches_ok_def by (auto split: if_splits)
    then show ?thesis using None False by (simp add: cached_bars_def Let_def split: sum.split)
  qed
qed (simp add: cached_bars_def ctx_bars_def)

text \<open>The caches are invisible.  Whatever sequence of questions filled them, in the session the context
  is bound to, a forward and a bar series come out as if they were computed anew, and the caches keep
  holding nothing else, at every later instant; binding another session empties them.\<close>

theorem caches_are_transparent:
  assumes "cx_market c = market (cx_session c) (cx_now c)" and "caches_ok c ch"
  shows "snd (cached_forward c ex ch) = forward c ex \<and> caches_ok c (fst (cached_forward c ex ch)) \<and>
    (case cached_bars c i secs src ch of Inl e \<Rightarrow> ctx_bars c i secs src = Inl e
     | Inr (ch', s) \<Rightarrow> ctx_bars c i secs src = Inr s \<and> caches_ok c ch') \<and>
    caches_ok (ctx_on c (cx_session c) t) ch \<and>
    (\<forall>sd mv d. caches_ok (fst (rebind sd mv d (c, ch))) (snd (rebind sd mv d (c, ch))))"
  using cached_forward_same [OF assms] cached_bars_same [OF assms(2)] caches_ok_clock [OF assms(2)] no_caches_ok
  by (simp add: rebind_def)

section \<open>Positions and legs\<close>

text \<open>\<open>PositionRef\<close>: the context and the id of a position.\<close>

definition ref_stop_loss :: "int \<Rightarrow> dbl \<Rightarrow> portfolio \<Rightarrow> exn + portfolio" where
  "ref_stop_loss i pct p = attach_stop_loss i None pct p"

definition ref_take_profit :: "int \<Rightarrow> dbl \<Rightarrow> portfolio \<Rightarrow> exn + portfolio" where
  "ref_take_profit i pct p = attach_take_profit i None pct p"

definition ref_close :: "ctx \<Rightarrow> int \<Rightarrow> portfolio \<Rightarrow> exn + portfolio" where
  "ref_close c i p = ctx_close c i p"

definition ref_closed :: "int \<Rightarrow> cond" where
  "ref_closed i = position_closed i"

definition ref_at_most :: "int \<Rightarrow> dbl \<Rightarrow> cond" where
  "ref_at_most i pct = pnl_pct_at_most i pct"

definition ref_at_least :: "int \<Rightarrow> dbl \<Rightarrow> cond" where
  "ref_at_least i pct = pnl_pct_at_least i pct"

text \<open>\<open>LegRef\<close>: a position and the index of one of its legs.\<close>

record leg_ref =
  lr_position :: int
  lr_leg :: nat

definition ref_leg :: "int \<Rightarrow> nat \<Rightarrow> leg_ref" where
  "ref_leg i k = \<lparr>lr_position = i, lr_leg = k\<rparr>"

definition leg_stop_loss :: "leg_ref \<Rightarrow> dbl \<Rightarrow> portfolio \<Rightarrow> exn + portfolio" where
  "leg_stop_loss r pct p = attach_stop_loss (lr_position r) (Some (lr_leg r)) pct p"

definition leg_take_profit :: "leg_ref \<Rightarrow> dbl \<Rightarrow> portfolio \<Rightarrow> exn + portfolio" where
  "leg_take_profit r pct p = attach_take_profit (lr_position r) (Some (lr_leg r)) pct p"

definition leg_close :: "ctx \<Rightarrow> leg_ref \<Rightarrow> portfolio \<Rightarrow> exn + portfolio" where
  "leg_close c r p = ctx_close_leg c (lr_position r) (lr_leg r) p"

text \<open>\<open>Ctx::chain(Date)\<close>.\<close>

definition chain_on :: "ctx \<Rightarrow> date \<Rightarrow> chain_view" where
  "chain_on c ex = chain_of c ex"

end
