(* ===== verification/Examples.thy ===== *)
theory Examples
  imports LookaheadLaws Handles
begin

text \<open>
  The other example strategies: the breakout of \<open>examples/bollinger.cpp\<close> under both confirmation
  policies and the rolled straddle of \<open>examples/positional.cpp\<close>.  A frame holds the point a coroutine
  waits at, its live locals and what it waits for.
\<close>

section \<open>The Bollinger breakout\<close>

datatype breakout_point = Unstarted | WarmingUp | Watching | InTrade | Exiting | Finished_breakout

record breakout_frame =
  bf_point :: breakout_point
  bf_pos :: int
  bf_cond :: cond

definition b_await :: "breakout_point \<Rightarrow> cond \<Rightarrow> breakout_frame \<Rightarrow> breakout_frame" where
  "b_await pt w f = f\<lparr>bf_point := pt, bf_cond := w\<rparr>"

definition b_return :: "breakout_frame \<Rightarrow> breakout_frame" where
  "b_return f = f\<lparr>bf_point := Finished_breakout, bf_cond := None\<rparr>"

text \<open>The bands on one-minute bars of the spot.\<close>

definition breakout_bands :: "ctx \<Rightarrow> exn + bollinger_bands" where
  "breakout_bands c = (case spot_bars c 60 of Inl e \<Rightarrow> Inl e | Inr m1 \<Rightarrow> bollinger m1 20 (Fin 2))"

text \<open>
  The crossing of the upper band.  The local \<open>bb\<close> describes the session the run is on, so it is
  computed from the context instead of being kept in the frame.
\<close>

definition breakout_cross :: "confirm \<Rightarrow> ctx \<Rightarrow> exn + cond" where
  "breakout_cross cf c = (case breakout_bands c of Inl e \<Rightarrow> Inl e | Inr bb \<Rightarrow> cross_above c (Some (upper bb)) cf)"

definition breakout_start :: "ctx \<Rightarrow> breakout_frame \<Rightarrow> portfolio \<Rightarrow> exn + breakout_frame \<times> portfolio" where
  "breakout_start c f p =
     (case breakout_bands c of Inl e \<Rightarrow> Inl e
      | Inr _ \<Rightarrow> (case ctx_at c ''09:40'' of Inl e \<Rightarrow> Inl e | Inr w \<Rightarrow> Inr (b_await WarmingUp w f, p)))"

definition breakout_watch :: "confirm \<Rightarrow> ctx \<Rightarrow> breakout_frame \<Rightarrow> portfolio \<Rightarrow> exn + breakout_frame \<times> portfolio" where
  "breakout_watch cf c f p =
     (case breakout_cross cf c of Inl e \<Rightarrow> Inl e
      | Inr _ \<Rightarrow> (case ctx_at c ''15:00'' of Inl e \<Rightarrow> Inl e | Inr w \<Rightarrow> Inr (b_await Watching w f, p)))"

definition breakout_exit_cond :: "ctx \<Rightarrow> int \<Rightarrow> exn + cond" where
  "breakout_exit_cond c i =
     (case ctx_at c ''15:15'' of Inl e \<Rightarrow> Inl e
      | Inr w \<Rightarrow> Inr (cond_or (cond_or (cond_or (ref_at_least i (rnd (1 / 4))) (ref_at_most i (fneg (rnd (1 / 5)))))
          (after_seconds c 600)) w))"

definition breakout_enter :: "ctx \<Rightarrow> breakout_frame \<Rightarrow> portfolio \<Rightarrow> exn + breakout_frame \<times> portfolio" where
  "breakout_enter c f p =
     (if timestamp_of (cx_date c) (15 * 3600) kISTOffsetSeconds \<le> cx_now c then Inr (b_return f, p)
      else case chain c of Inl e \<Rightarrow> Inl e
      | Inr v \<Rightarrow>
          (case atm_strike c v of None \<Rightarrow> Inr (b_return f, p)
           | Some k \<Rightarrow>
              (case chain_option c v k Call of None \<Rightarrow> Inr (b_return f, p)
               | Some call \<Rightarrow>
                  (case buy c [call] 1 ''breakout call'' p of Inl e \<Rightarrow> Inl e
                   | Inr (None, p') \<Rightarrow> Inr (b_return f, p')
                   | Inr (Some i, p') \<Rightarrow>
                      (case breakout_exit_cond c i of Inl e \<Rightarrow> Inl e
                       | Inr w \<Rightarrow> Inr (b_await InTrade w (f\<lparr>bf_pos := i\<rparr>), p'))))))"

definition breakout_exit :: "ctx \<Rightarrow> breakout_frame \<Rightarrow> portfolio \<Rightarrow> exn + breakout_frame \<times> portfolio" where
  "breakout_exit c f p =
     (case ref_close c (bf_pos f) p of Inl e \<Rightarrow> Inl e
      | Inr p' \<Rightarrow>
          (case ctx_at c ''15:29'' of Inl e \<Rightarrow> Inl e
           | Inr w \<Rightarrow> Inr (b_await Exiting (cond_or (ref_closed (bf_pos f)) w) f, p')))"

definition breakout_resume ::
    "confirm \<Rightarrow> ctx \<Rightarrow> breakout_frame \<Rightarrow> portfolio \<Rightarrow> exn + breakout_frame \<times> portfolio" where
  "breakout_resume cf c f p =
     (case bf_point f of
        Unstarted \<Rightarrow> breakout_start c f p
      | WarmingUp \<Rightarrow> breakout_watch cf c f p
      | Watching \<Rightarrow> breakout_enter c f p
      | InTrade \<Rightarrow> breakout_exit c f p
      | _ \<Rightarrow> Inr (b_return f, p))"

text \<open>While it watches, the frame holds the deadline and the crossing is put before it.\<close>

definition breakout_pending :: "confirm \<Rightarrow> ctx \<Rightarrow> breakout_frame \<Rightarrow> cond" where
  "breakout_pending cf c f =
     (if bf_point f = Watching
      then (case breakout_cross cf c of Inl _ \<Rightarrow> bf_cond f | Inr w \<Rightarrow> cond_or w (bf_cond f))
      else bf_cond f)"

definition breakout :: "confirm \<Rightarrow> breakout_frame strategy" where
  "breakout cf =
     \<lparr>st_start = (\<lambda>c. Some \<lparr>bf_point = Unstarted, bf_pos = 0, bf_cond = None\<rparr>),
      st_resume = breakout_resume cf,
      st_done = (\<lambda>f. bf_point f = Finished_breakout),
      st_pending = breakout_pending cf\<rparr>"

section \<open>The rolled straddle\<close>

datatype roll_point = Fresh | Morning | Afternoon

record roll_frame =
  rf_point :: roll_point
  rf_held :: "int option"
  rf_expiry :: "date option"
  rf_cond :: cond

definition r_await :: "roll_point \<Rightarrow> string \<Rightarrow> ctx \<Rightarrow> roll_frame \<Rightarrow> exn + roll_frame" where
  "r_await pt hhmm c f = (case ctx_at c hhmm of Inl e \<Rightarrow> Inl e | Inr w \<Rightarrow> Inr (f\<lparr>rf_point := pt, rf_cond := w\<rparr>))"

definition forget :: "roll_frame \<Rightarrow> roll_frame" where
  "forget f = f\<lparr>rf_held := None, rf_expiry := None\<rparr>"

text \<open>A stop may have closed the position overnight.\<close>

definition notice_closed :: "roll_frame \<Rightarrow> portfolio \<Rightarrow> exn + roll_frame" where
  "notice_closed f p =
     (case rf_held f of None \<Rightarrow> Inr f
      | Some i \<Rightarrow> (case pf_at p i of Inl e \<Rightarrow> Inl e | Inr pos \<Rightarrow> Inr (if is_closed pos then forget f else f)))"

definition roll_out :: "int \<Rightarrow> ctx \<Rightarrow> roll_frame \<Rightarrow> portfolio \<Rightarrow> exn + roll_frame \<times> portfolio" where
  "roll_out roll_days_before c f p =
     (case (rf_held f, rf_expiry f) of
        (Some i, Some ex) \<Rightarrow>
          if add_days ex (- roll_days_before) \<le> cx_date c
          then (case ref_close c i p of Inl e \<Rightarrow> Inl e | Inr p' \<Rightarrow> Inr (forget f, p'))
          else Inr (f, p)
      | _ \<Rightarrow> Inr (f, p))"

definition roll_in :: "dbl \<Rightarrow> int \<Rightarrow> ctx \<Rightarrow> roll_frame \<Rightarrow> portfolio \<Rightarrow> exn + roll_frame \<times> portfolio" where
  "roll_in stop roll_days_before c f p =
     (if rf_held f \<noteq> None then Inr (f, p)
      else case next_expiry c (roll_days_before + 1) of None \<Rightarrow> Inr (f, p)
      | Some ex \<Rightarrow>
          let legs = straddle c (chain_on c ex) 0 in
          if legs = [] then Inr (f, p)
          else (case sell c legs 1 ''straddle'' p of Inl e \<Rightarrow> Inl e
            | Inr (None, p') \<Rightarrow> Inr (f, p')
            | Inr (Some i, p') \<Rightarrow>
                (case ref_stop_loss i stop p' of Inl e \<Rightarrow> Inl e
                 | Inr p2 \<Rightarrow> Inr (f\<lparr>rf_held := Some i, rf_expiry := Some ex\<rparr>, p2))))"

definition roll_morning ::
    "dbl \<Rightarrow> int \<Rightarrow> ctx \<Rightarrow> roll_frame \<Rightarrow> portfolio \<Rightarrow> exn + roll_frame \<times> portfolio" where
  "roll_morning stop roll_days_before c f p =
     (case notice_closed f p of Inl e \<Rightarrow> Inl e
      | Inr f1 \<Rightarrow>
         (case roll_out roll_days_before c f1 p of Inl e \<Rightarrow> Inl e
          | Inr (f2, p2) \<Rightarrow>
             (case roll_in stop roll_days_before c f2 p2 of Inl e \<Rightarrow> Inl e
              | Inr (f3, p3) \<Rightarrow> (case r_await Afternoon ''15:20'' c f3 of Inl e \<Rightarrow> Inl e | Inr f4 \<Rightarrow> Inr (f4, p3)))))"

definition roll_resume ::
    "dbl \<Rightarrow> int \<Rightarrow> ctx \<Rightarrow> roll_frame \<Rightarrow> portfolio \<Rightarrow> exn + roll_frame \<times> portfolio" where
  "roll_resume stop roll_days_before c f p =
     (case rf_point f of
        Morning \<Rightarrow> roll_morning stop roll_days_before c f p
      | _ \<Rightarrow> (case r_await Morning ''09:30'' c f of Inl e \<Rightarrow> Inl e | Inr f1 \<Rightarrow> Inr (f1, p)))"

text \<open>The loop never ends, so the coroutine is never done.\<close>

definition rolled_straddle :: "dbl \<Rightarrow> int \<Rightarrow> roll_frame strategy" where
  "rolled_straddle stop roll_days_before =
     \<lparr>st_start = (\<lambda>c. Some \<lparr>rf_point = Fresh, rf_held = None, rf_expiry = None, rf_cond = None\<rparr>),
      st_resume = roll_resume stop roll_days_before,
      st_done = (\<lambda>f. False),
      st_pending = (\<lambda>c f. rf_cond f)\<rparr>"

end
