(* ===== verification/ExamplesLaws.thy ===== *)
theory ExamplesLaws
  imports Examples
begin

text \<open>
  The example strategies trade through their context and are causal, so what holds of every run, of
  every backtest and of the look-ahead check holds of them.
\<close>

section \<open>They trade through the context\<close>

lemma buy_orders: "buy c legs lots lbl p = Inr (r, p') \<Longrightarrow> order_steps (cx_now c) p p'"
  by (auto simp: buy_def place_def cx_now_def split: sum.splits if_splits intro!: r_into_rtranclp order_step.opens)

lemma breakout_enter_orders: "breakout_enter c f p = Inr (f', p') \<Longrightarrow> order_steps (cx_now c) p p'"
  by (auto simp: breakout_enter_def split: sum.splits option.splits if_splits intro: buy_orders)

lemma breakout_exit_orders: "breakout_exit c f p = Inr (f', p') \<Longrightarrow> order_steps (cx_now c) p p'"
  by (auto simp: breakout_exit_def ref_close_def split: sum.splits intro: close_orders)

interpretation breaking_out: order_strategy "breakout cf"
  by unfold_locales
    (auto simp: breakout_def breakout_resume_def breakout_start_def breakout_watch_def split: breakout_point.splits sum.splits
      intro: breakout_enter_orders breakout_exit_orders)

lemma roll_out_orders: "roll_out n c f p = Inr (f', p') \<Longrightarrow> order_steps (cx_now c) p p'"
  by (auto simp: roll_out_def ref_close_def split: option.splits sum.splits if_splits intro: close_orders)

lemma stop_orders: "ref_stop_loss i stop p = Inr q \<Longrightarrow> order_step t p q"
  by (auto simp: ref_stop_loss_def intro: order_step.stops)

lemma roll_in_orders: "roll_in stop n c f p = Inr (f', p') \<Longrightarrow> order_steps (cx_now c) p p'"
  by (auto simp: roll_in_def Let_def split: option.splits sum.splits if_splits
      intro: sell_orders rtranclp.rtrancl_into_rtrancl [OF sell_orders stop_orders])

lemma roll_morning_orders:
  assumes "roll_morning stop n c f p = Inr (f', p')"
  shows "order_steps (cx_now c) p p'"
proof -
  obtain f1 f2 p2 f3 where "roll_out n c f1 p = Inr (f2, p2)" "roll_in stop n c f2 p2 = Inr (f3, p')"
    using assms by (auto simp: roll_morning_def split: sum.splits)
  then show ?thesis using roll_out_orders roll_in_orders rtranclp_trans by metis
qed

interpretation rolling: order_strategy "rolled_straddle stop n"
  by unfold_locales
    (auto simp: rolled_straddle_def roll_resume_def split: roll_point.splits sum.splits intro: roll_morning_orders)

section \<open>The rolled straddle is causal\<close>

lemma view_roll_resume: "same_view c c' \<Longrightarrow> roll_resume stop n c = roll_resume stop n c'"
proof -
  assume v: "same_view c c'"
  have sells: "sell c = sell c'" by (simp add: sell_def view_place [OF v])
  have closes: "ref_close c = ref_close c'" by (intro ext) (simp only: ref_close_def ctx_close_def same_viewD(12) [OF v])
  have chains: "chain_on c = chain_on c'" by (intro ext) (simp only: chain_on_def view_chain_of [OF v])
  have awaits: "r_await pt hhmm c = r_await pt hhmm c'" for pt hhmm by (intro ext) (simp only: r_await_def view_at [OF v])
  have "roll_out n c = roll_out n c'" by (intro ext) (simp only: roll_out_def same_viewD(5) [OF v] closes)
  moreover have "roll_in stop n c = roll_in stop n c'"
    by (intro ext) (simp only: roll_in_def view_next_expiry [OF v] view_straddle [OF v] chains sells)
  ultimately have "roll_morning stop n c = roll_morning stop n c'" by (intro ext) (simp only: roll_morning_def awaits)
  then show ?thesis by (intro ext) (simp only: roll_resume_def awaits)
qed

interpretation rolling_causal: causal_strategy "rolled_straddle stop n"
proof
  fix sd sd' :: session_data and t c s p
  assume same: "session_ok sd" "session_ok sd'" "same_upto t sd sd'"
  show "st_start (rolled_straddle stop n) (ctx_on c sd t) = st_start (rolled_straddle stop n) (ctx_on c sd' t)"
    by (simp add: rolled_straddle_def)
  show "st_resume (rolled_straddle stop n) (ctx_on c sd t) s p = st_resume (rolled_straddle stop n) (ctx_on c sd' t) s p"
    using view_roll_resume [OF ctx_on_view [OF same]] by (simp add: rolled_straddle_def)
  show "cond_valid (st_pending (rolled_straddle stop n) (ctx_on c sd t) s) =
      cond_valid (st_pending (rolled_straddle stop n) (ctx_on c sd' t) s) \<and>
    cond_eval (st_pending (rolled_straddle stop n) (ctx_on c sd t) s) \<lparr>ev_market = market sd t, ev_portfolio = p, ev_now = t\<rparr> =
    cond_eval (st_pending (rolled_straddle stop n) (ctx_on c sd' t) s) \<lparr>ev_market = market sd' t, ev_portfolio = p, ev_now = t\<rparr>"
    using market_same_past [OF same] by (simp add: rolled_straddle_def)
qed

section \<open>The breakout is causal\<close>

lemma quote_is_past:
  assumes "session_ok sd" and "0 \<le> k" and "mv_quote (market sd now) i k = Inr (Some q)"
  shows "q_ts q \<le> now"
proof -
  let ?c = "sd_quotes sd i"
  note ok = session_okD(1) [OF assms(1), of i]
  have "nat k < count_upto ?c now" "q = column_at ?c (count_upto ?c now - 1 - nat k)"
    using assms(2,3) by (auto simp: market_def view_quote_count [OF ok] split: if_splits)
  then show ?thesis
    using nth_le_iff_count_upto [OF ok, of _ now] count_upto_le_size [of ?c now] by (simp add: column_at_def)
qed

text \<open>Past its day a bar series answers every question with the same error.\<close>

lemma expired_series:
  assumes "nanos (bs_valid_until s) \<noteq> 0" and "bs_valid_until s < now" and "bs_valid_until s' = bs_valid_until s"
  shows "known_count s now = known_count s' now" and "completed s now k = completed s' now k"
  using assms by (simp_all add: known_count_def completed_def)

lemma bands_causal:
  assumes "session_ok sd" and "session_ok sd'" and "same_upto t sd sd'"
  obtains bb bb' where "breakout_bands (ctx_on c sd t) = Inr bb" and "breakout_bands (ctx_on c sd' t) = Inr bb'"
    and "\<And>now k. now \<le> t \<Longrightarrow> indicator_at (upper bb) now k = indicator_at (upper bb') now k"
    and "\<And>now k. now \<le> t \<Longrightarrow> completed (ind_bars (upper bb)) now k = completed (ind_bars (upper bb')) now k"
proof -
  let ?i = "60 * 1000000000 :: int" and ?u = "Timestamp (nanos (cx_anchor c) + 24 * 3600 * 1000000000)"
  let ?q = "sd_quotes sd (cx_spot c)" and ?q' = "sd_quotes sd' (cx_spot c)"
  note ok = session_okD(1) [OF assms(1), of "cx_spot c"] session_okD(1) [OF assms(2), of "cx_spot c"]
  have up: "upto_time t ?q = upto_time t ?q'" using assms(3) by (simp add: same_upto_def)
  obtain s s' where s: "build ?q ?i (cx_anchor c) Last ?u = Inr s" "build ?q' ?i (cx_anchor c) Last ?u = Inr s'"
    using build_spec [of ?i] ok by fastforce
  have valid: "bs_valid_until s = ?u" "bs_valid_until s' = ?u"
    using s by (auto simp: build_def split: prod.splits)
  let ?vals = "\<lambda>s. map (\<lambda>i. fst (snd (band_values (closes_of s) 20 (Fin 2) i))) [0..<length (closes_of s)]"
  obtain bb bb' where bb: "bollinger s 20 (Fin 2) = Inr bb" "upper bb = \<lparr>ind_bars = s, ind_values = ?vals s\<rparr>"
    "bollinger s' 20 (Fin 2) = Inr bb'" "upper bb' = \<lparr>ind_bars = s', ind_values = ?vals s'\<rparr>"
    by (simp add: bollinger_def bar_indicator_def bollinger_values_eq closes_of_def)
  have bands: "breakout_bands (ctx_on c sd t) = Inr bb" "breakout_bands (ctx_on c sd' t) = Inr bb'"
    using s bb(1,3) by (simp_all add: breakout_bands_def spot_bars_def ctx_bars_def ctx_on_def)
  have "indicator_at (upper bb) now k = indicator_at (upper bb') now k \<and> completed s now k = completed s' now k"
    if now: "now \<le> t" for now k
  proof (cases "nanos ?u = 0 \<or> now \<le> ?u")
    case True
    show ?thesis
      using values_same_past(2) [OF _ ok up now True _ s, of 20 "\<lambda>x. fst (snd x)" "Fin 2" k] bars_same_past [OF _ ok up now True s]
      by (simp add: bb)
  next
    case False
    then have "known_count s now = known_count s' now" "completed s now k = completed s' now k"
      using expired_series [of s now s'] by (simp_all add: valid not_le)
    moreover obtain e where "known_count s now = Inl e" using False by (simp add: known_count_def valid not_le)
    ultimately have "known_count s now = Inl e" "known_count s' now = Inl e" "completed s now k = completed s' now k" by simp_all
    then show ?thesis by (simp add: bb indicator_at_def)
  qed
  then show thesis using that [OF bands] by (simp add: bb)
qed

lemma cross_causal:
  assumes "session_ok sd" and "session_ok sd'" and "same_upto t sd sd'"
  obtains w w' where "breakout_cross cf (ctx_on c sd t) = Inr w" and "breakout_cross cf (ctx_on c sd' t) = Inr w'"
    and "cond_eval w \<lparr>ev_market = market sd t, ev_portfolio = p, ev_now = t\<rparr> =
      cond_eval w' \<lparr>ev_market = market sd' t, ev_portfolio = p, ev_now = t\<rparr>"
proof -
  obtain bb bb' where bb: "breakout_bands (ctx_on c sd t) = Inr bb" "breakout_bands (ctx_on c sd' t) = Inr bb'"
    and ind: "\<And>now k. now \<le> t \<Longrightarrow> indicator_at (upper bb) now k = indicator_at (upper bb') now k"
    and com: "\<And>now k. now \<le> t \<Longrightarrow> completed (ind_bars (upper bb)) now k = completed (ind_bars (upper bb')) now k"
    by (rule bands_causal [OF assms, of c]) (rule that)
  note m = market_same_past [OF assms]
  let ?ev = "\<lambda>sd. \<lparr>ev_market = market sd t, ev_portfolio = p, ev_now = t\<rparr>"
  have "cond_eval (instant_cross i (upper bb) True) (?ev sd') = cond_eval (instant_cross i (upper bb') True) (?ev sd')" for i
    using ind quote_is_past [OF assms(2), of 1 t i]
    by (auto simp: instant_cross_def cond_eval_def split: sum.splits option.splits)
  moreover have "cond_eval (bar_close_cross (upper bb) True) (?ev sd') = cond_eval (bar_close_cross (upper bb') True) (?ev sd')"
    unfolding bar_close_cross_def cond_eval_def option.case eval_ctx.simps ind [OF order_refl] com [OF order_refl]
    by (rule refl)
  ultimately show thesis
    using that [of "if cf = Instant then instant_cross (cx_spot c) (upper bb) True else bar_close_cross (upper bb) True"
        "if cf = Instant then instant_cross (cx_spot c) (upper bb') True else bar_close_cross (upper bb') True"]
    by (simp add: breakout_cross_def bb cross_above_def ctx_cross_def m) (simp add: ctx_on_def)
qed

text \<open>Resuming reads nothing of the bands but that they can be computed.\<close>

lemma view_breakout_resume:
  assumes "session_ok sd" and "session_ok sd'" and "same_upto t sd sd'"
  shows "breakout_resume cf (ctx_on c sd t) = breakout_resume cf (ctx_on c sd' t)"
proof -
  let ?c = "ctx_on c sd t" and ?c' = "ctx_on c sd' t"
  have v: "same_view ?c ?c'" by (rule ctx_on_view [OF assms])
  obtain bb bb' where bb: "breakout_bands ?c = Inr bb" "breakout_bands ?c' = Inr bb'"
    by (rule bands_causal [OF assms, of c]) (rule that)
  obtain w w' where w: "breakout_cross cf ?c = Inr w" "breakout_cross cf ?c' = Inr w'"
    by (rule cross_causal [OF assms, of cf c undefined]) (rule that)
  have buys: "buy ?c = buy ?c'" by (simp add: buy_def view_place [OF v])
  have closes: "ref_close ?c = ref_close ?c'" by (intro ext) (simp only: ref_close_def ctx_close_def same_viewD(12) [OF v])
  have afters: "after_seconds ?c = after_seconds ?c'" by (intro ext) (simp only: after_seconds_def same_viewD(12) [OF v])
  have conds: "breakout_exit_cond ?c = breakout_exit_cond ?c'"
    by (intro ext) (simp only: breakout_exit_cond_def view_at [OF v] afters)
  have "breakout_start ?c = breakout_start ?c'" by (intro ext) (simp only: breakout_start_def bb sum.case view_at [OF v])
  moreover have "breakout_watch cf ?c = breakout_watch cf ?c'" by (intro ext) (simp only: breakout_watch_def w sum.case view_at [OF v])
  moreover have "breakout_enter ?c = breakout_enter ?c'"
    by (intro ext) (simp only: breakout_enter_def same_viewD(5,12) [OF v] view_chain [OF v] view_atm [OF v]
        view_chain_option [OF v] buys conds)
  moreover have "breakout_exit ?c = breakout_exit ?c'"
    by (intro ext) (simp only: breakout_exit_def closes view_at [OF v])
  ultimately show ?thesis by (intro ext) (simp only: breakout_resume_def)
qed

interpretation breaking_out_causal: causal_strategy "breakout cf"
proof
  fix sd sd' :: session_data and t c s p
  assume same: "session_ok sd" "session_ok sd'" "same_upto t sd sd'"
  show "st_start (breakout cf) (ctx_on c sd t) = st_start (breakout cf) (ctx_on c sd' t)"
    by (simp add: breakout_def)
  show "st_resume (breakout cf) (ctx_on c sd t) s p = st_resume (breakout cf) (ctx_on c sd' t) s p"
    using view_breakout_resume [OF same] by (simp add: breakout_def)
  obtain w w' where w: "breakout_cross cf (ctx_on c sd t) = Inr w" "breakout_cross cf (ctx_on c sd' t) = Inr w'"
    "cond_eval w \<lparr>ev_market = market sd t, ev_portfolio = p, ev_now = t\<rparr> =
      cond_eval w' \<lparr>ev_market = market sd' t, ev_portfolio = p, ev_now = t\<rparr>"
    by (rule cross_causal [OF same])
  have or: "cond_eval (cond_or a b) ev = (case cond_eval a ev of Inl e \<Rightarrow> Inl e | Inr True \<Rightarrow> Inr True | Inr False \<Rightarrow> cond_eval b ev)" for a b ev
    by (simp add: cond_or_def cond_eval_def [of "Some _"])
  show "cond_valid (st_pending (breakout cf) (ctx_on c sd t) s) = cond_valid (st_pending (breakout cf) (ctx_on c sd' t) s) \<and>
    cond_eval (st_pending (breakout cf) (ctx_on c sd t) s) \<lparr>ev_market = market sd t, ev_portfolio = p, ev_now = t\<rparr> =
    cond_eval (st_pending (breakout cf) (ctx_on c sd' t) s) \<lparr>ev_market = market sd' t, ev_portfolio = p, ev_now = t\<rparr>"
    using w(3) market_same_past [OF same]
    by (simp add: breakout_def breakout_pending_def w(1,2) or) (simp add: cond_or_def cond_valid_def)
qed

section \<open>Property\<close>

text \<open>C36: the audit printed by \<open>examples/bollinger.cpp\<close> is always clean.  Under either confirmation policy,
  on every session after the epoch on which the breakout completes, its bands are computed from the whole
  session and yet the run on the session cut at any \<open>T\<close> makes exactly the trades filled by \<open>T\<close>; so
  \<open>check_lookahead\<close> ends with a clean report whatever cutoffs are drawn, as long as the draws reach
  every observation.\<close>

theorem breakout_audit_is_clean:
  assumes "session_ok sd" and "after_epoch sd" and "run_loop (breakout cf) m cfg sd u sp = Inr st" and "ids_fit (rs_portfolio st)"
    and "\<forall>k. draw k < length (distinct_times sd)" and "\<forall>i < length (distinct_times sd). \<exists>k. draw k = i"
  shows "(\<forall>T. Timestamp 0 \<le> T \<longrightarrow> (\<exists>full part. run_session (breakout cf) m cfg sd u sp = Inr full \<and>
      run_session (breakout cf) m cfg (truncated_data (truncated_session sd T)) u sp = Inr part \<and>
      trade_log part = filter (\<lambda>t. fill_ts t \<le> T) (trade_log full))) \<and>
    (\<exists>rep. check_lookahead (breakout cf) m cfg sd u sp cutoffs draw = Some (Inr rep) \<and> clean rep \<and> violations rep = [])"
proof (intro conjI allI impI)
  note S = breaking_out_causal.causal_strategy_axioms
  fix T :: timestamp
  assume "Timestamp 0 \<le> T"
  from clipped_logs [OF S assms(1-4) this] show "\<exists>full part. run_session (breakout cf) m cfg sd u sp = Inr full \<and>
      run_session (breakout cf) m cfg (truncated_data (truncated_session sd T)) u sp = Inr part \<and>
      trade_log part = filter (\<lambda>t. fill_ts t \<le> T) (trade_log full)" .
next
  show "\<exists>rep. check_lookahead (breakout cf) m cfg sd u sp cutoffs draw = Some (Inr rep) \<and> clean rep \<and> violations rep = []"
    using causal_check [OF breaking_out_causal.causal_strategy_axioms assms] by blast
qed

text \<open>A session that ends before the bands are looked at.\<close>

definition warming :: "timestamp \<Rightarrow> breakout_frame run_state \<Rightarrow> bool" where
  "warming t st \<longleftrightarrow> rs_now st \<le> t \<and> positions (rs_portfolio st) = [] \<and> pending (rs_portfolio st) = [] \<and>
     rules (rs_portfolio st) = [] \<and>
     rs_task st = \<lparr>bf_point = WarmingUp, bf_pos = 0, bf_cond = at_or_after (timestamp_of (sd_date future_session) 34800 kISTOffsetSeconds)\<rparr>"

lemma warming_start:
  "\<exists>st. run_start (breakout cf) flat_libm free_config future_session (UnderlyingId 0) (InstrumentId 0) = Inr st \<and>
     warming (Timestamp 0) st"
proof -
  let ?c = "run_ctx flat_libm free_config future_session (UnderlyingId 0) (InstrumentId 0)"
  have c: "ctx_on ?c future_session (Timestamp 0) = ?c" by (simp add: ctx_on_def run_ctx_def new_ctx_def)
  have same: "same_upto (Timestamp 0) future_session future_session" by (simp add: same_upto_def)
  obtain bb where bb: "breakout_bands ?c = Inr bb"
    by (rule bands_causal [OF future_ok(1) future_ok(1) same, of ?c]) (use c that in simp)
  have "parse_time_of_day ''09:40'' = Inr 34800" by code_simp
  then have "ctx_at ?c ''09:40'' = Inr (at_or_after (timestamp_of (sd_date future_session) 34800 kISTOffsetSeconds))"
    by (simp add: ctx_at_def run_ctx_def new_ctx_def Let_def)
  then have resume: "breakout_resume cf ?c \<lparr>bf_point = Unstarted, bf_pos = 0, bf_cond = None\<rparr> p =
      Inr (\<lparr>bf_point = WarmingUp, bf_pos = 0, bf_cond = at_or_after (timestamp_of (sd_date future_session) 34800 kISTOffsetSeconds)\<rparr>, p)" for p
    by (simp add: breakout_resume_def breakout_start_def bb b_await_def)
  have "execution_delay_nanos free_config = 15" "rc_costs free_config = Some no_costs" "rc_fills free_config = None"
    by (simp_all add: free_config_def default_run_config_def)
  then show ?thesis
    by (simp add: run_start_def breakout_def resume new_portfolio_def warming_def Let_def)
qed

lemma warming_step:
  assumes "warming s st" and "s \<le> t" and "t < timestamp_of (sd_date future_session) 34800 kISTOffsetSeconds"
  shows "\<exists>st'. run_step (breakout cf) free_config future_session future_ctx t st = Inr st' \<and> warming t st'"
proof -
  note w = assms(1) [unfolded warming_def]
  have not_yet: "(timestamp_of (sd_date future_session) 34800 kISTOffsetSeconds \<le> t) = False"
    using assms(3) by (simp add: not_le)
  have "margin (ctx_on future_ctx future_session t) (rs_portfolio st) = Inr no_margin" using w by (simp add: margin_def)
  then have "\<exists>x. sample_margin free_config (ctx_on future_ctx future_session t) (rs_portfolio st) t (rs_next_margin st, rs_peak st) = Inr x"
    by (simp add: sample_margin_def)
  moreover have "resume_loop (breakout cf) mx c t g (rs_task st, p, e, r) = Inr (rs_task st, p, e + 1, r)" for mx c g p e r
    using w by (subst resume_loop.simps)
      (simp add: breakout_def breakout_pending_def at_or_after_def cond_valid_def cond_eval_def not_yet)
  ultimately show ?thesis
    using w assms(2) by (auto simp: run_step_def advance_to_def process_risk_rules_def process_pending_def warming_def)
qed

theorem breakout_audit_is_clean_witness:
  "\<exists>rep. check_lookahead (breakout BarClose) flat_libm free_config future_session (UnderlyingId 0) (InstrumentId 0) 40 (\<lambda>k. k mod 3) =
     Some (Inr rep) \<and> clean rep"
proof -
  let ?step = "run_step (breakout BarClose) free_config future_session future_ctx"
  have late: "Timestamp 30 < timestamp_of (sd_date future_session) 34800 kISTOffsetSeconds" by code_simp
  have soon: "t < timestamp_of (sd_date future_session) 34800 kISTOffsetSeconds" if "t \<le> Timestamp 30" for t
    using that late by (rule le_less_trans)
  obtain st0 where st0: "run_start (breakout BarClose) flat_libm free_config future_session (UnderlyingId 0) (InstrumentId 0) = Inr st0"
    "warming (Timestamp 0) st0" using warming_start by blast
  obtain st1 where st1: "?step (Timestamp 10) st0 = Inr st1" "warming (Timestamp 10) st1"
    using warming_step [OF st0(2) _ soon, of "Timestamp 10"] by (auto simp: less_eq_timestamp_def)
  obtain st2 where st2: "?step (Timestamp 20) st1 = Inr st2" "warming (Timestamp 20) st2"
    using warming_step [OF st1(2) _ soon, of "Timestamp 20"] by (auto simp: less_eq_timestamp_def)
  obtain st3 where st3: "?step (Timestamp 30) st2 = Inr st3" "warming (Timestamp 30) st3"
    using warming_step [OF st2(2) _ soon, of "Timestamp 30"] by (auto simp: less_eq_timestamp_def)
  have steps: "fst (session_steps future_session) = [Timestamp 10, Timestamp 20, Timestamp 30]"
    by (simp add: session_steps_def future_session_def)
  have run: "run_loop (breakout BarClose) flat_libm free_config future_session (UnderlyingId 0) (InstrumentId 0) = Inr st3"
    unfolding run_loop_def st0(1) sum.case steps try_fold.simps st1(1) st2(1) st3(1) by (rule refl)
  have fit: "ids_fit (rs_portfolio st3)" using st3(2) by (simp add: warming_def)
  have "sd_timeline future_session = [Timestamp 10, Timestamp 20, Timestamp 30]" by (simp add: future_session_def)
  then have "distinct_times future_session = [Timestamp 10, Timestamp 20, Timestamp 30]"
    using session_okD(6) [OF future_ok(1)] by auto
  then have n: "length (distinct_times future_session) = 3" by simp
  have "\<forall>k. k mod 3 < length (distinct_times future_session)" "\<forall>i < length (distinct_times future_session). \<exists>k. k mod 3 = i"
    by (auto simp: n) (metis mod_less)
  from breakout_audit_is_clean [OF future_ok run fit this] show ?thesis by blast
qed

end
