(* ===== verification/Synthetic.thy ===== *)
theory Synthetic
  imports MemorySource Prices Greeks
begin

text \<open>
  \<open>synthetic.hpp\<close> and \<open>synthetic.cpp\<close>: the generator of market data the engine is developed
  against.  \<open>std::mt19937_64\<close> is fixed bit for bit by the standard and is written out; the two
  distributions are not (the standard leaves their algorithms open), so they are an argument of
  the generator: any functions that draw from the engine and, for the normal one, keep a state.
\<close>

unbundle bit_operations_syntax

section \<open>The random engine\<close>

text \<open>The 312 words of the engine's state and the position of the next one to hand out.\<close>

datatype mt = MT (mt_words: "64 word list") (mt_next: nat)

fun mt_fill :: "nat \<Rightarrow> nat \<Rightarrow> 64 word \<Rightarrow> 64 word list" where
  "mt_fill i 0 x = []"
| "mt_fill i (Suc n) x =
     x # mt_fill (i + 1) n (6364136223846793005 * (x XOR drop_bit 62 x) + of_nat (i + 1))"

definition mt_seed :: "nat \<Rightarrow> mt" where
  "mt_seed seed = MT (mt_fill 0 312 (of_nat seed)) 312"

definition mt_mix :: "64 word \<Rightarrow> 64 word \<Rightarrow> 64 word \<Rightarrow> 64 word" where
  "mt_mix far x y =
     (let u = (x AND NOT (mask 31)) OR (y AND mask 31)
      in far XOR drop_bit 1 u XOR (if bit u 0 then 0xB5026F5AA96619E9 else 0))"

definition mt_twist :: "64 word list \<Rightarrow> 64 word list" where
  "mt_twist ws =
     fold (\<lambda>k xs. xs[k := mt_mix (xs ! ((k + 156) mod 312)) (xs ! k) (xs ! ((k + 1) mod 312))])
       [0..<312] ws"

definition mt_temper :: "64 word \<Rightarrow> 64 word" where
  "mt_temper z0 =
     (let z1 = z0 XOR (drop_bit 29 z0 AND 0x5555555555555555);
          z2 = z1 XOR (push_bit 17 z1 AND 0x71D67FFFEDA60000);
          z3 = z2 XOR (push_bit 37 z2 AND 0xFFF7EEE000000000)
      in z3 XOR drop_bit 43 z3)"

definition mt_draw :: "mt \<Rightarrow> nat \<times> mt" where
  "mt_draw g =
     (let (ws, i) = (if 312 \<le> mt_next g then (mt_twist (mt_words g), 0) else (mt_words g, mt_next g))
      in (unat (mt_temper (ws ! i)), MT ws (i + 1)))"

text \<open>The distributions: \<open>unit\<close> over \<open>[0, 1)\<close>, and a normal one with its mean, deviation and state.\<close>

record 'n distributions =
  uniform_unit :: "mt \<Rightarrow> dbl \<times> mt"
  normal_start :: 'n
  normal_draw :: "dbl \<Rightarrow> dbl \<Rightarrow> 'n \<Rightarrow> mt \<Rightarrow> dbl \<times> 'n \<times> mt"

section \<open>Configuration and results\<close>

record synthetic_config =
  sc_date :: date
  sc_expiry :: date
  sc_underlying :: string
  sc_spot_open :: price
  sc_strike_step :: price
  sc_strikes_each_side :: int
  sc_open_sec :: int
  sc_close_sec :: int
  sc_lot_size :: qty
  sc_seed :: nat

definition default_synthetic_config :: synthetic_config where
  "default_synthetic_config =
     \<lparr>sc_date = Date 20250701, sc_expiry = Date 20250703, sc_underlying = ''NIFTY'',
      sc_spot_open = price_from_double (Fin 25000), sc_strike_step = price_from_double (Fin 50),
      sc_strikes_each_side = 10, sc_open_sec = 9 * 3600 + 15 * 60,
      sc_close_sec = 15 * 3600 + 30 * 60, sc_lot_size = 75, sc_seed = 42\<rparr>"

record synthetic_session =
  sy_data :: memory_session
  sy_underlying :: underlying_id
  sy_spot :: instrument_id

record series_config =
  sq_start :: date
  sq_sessions :: int
  sq_expiry_weekday :: int
  sq_expiries_ahead :: int
  sq_spot_open :: price
  sq_strike_step :: price
  sq_strikes_each_side :: int
  sq_open_sec :: int
  sq_close_sec :: int
  sq_step_seconds :: int
  sq_lot_size :: qty
  sq_seed :: nat

definition default_series_config :: series_config where
  "default_series_config =
     \<lparr>sq_start = Date 20250630, sq_sessions = 10, sq_expiry_weekday = 4, sq_expiries_ahead = 2,
      sq_spot_open = price_from_double (Fin 25000), sq_strike_step = price_from_double (Fin 50),
      sq_strikes_each_side = 10, sq_open_sec = 9 * 3600 + 15 * 60,
      sq_close_sec = 15 * 3600 + 30 * 60, sq_step_seconds = 5, sq_lot_size = 75, sq_seed = 7\<rparr>"

record synthetic_series =
  sr_source :: memory_source
  sr_underlying :: underlying_id
  sr_spot :: instrument_id
  sr_dates :: "date list"
  sr_expiries :: "date list"

section \<open>Quotes\<close>

definition kTimeValueWidth :: dbl where
  "kTimeValueWidth = Fin 250"

definition kActivityWidth :: dbl where
  "kActivityWidth = Fin 400"

definition intrinsic_value :: "dbl \<Rightarrow> dbl \<Rightarrow> right \<Rightarrow> dbl" where
  "intrinsic_value spot k r =
     (case r of Call \<Rightarrow> fmax (Fin 0) (fsub spot k) | Put \<Rightarrow> fmax (Fin 0) (fsub k spot))"

text \<open>\<open>std::round\<close> and \<open>std::clamp\<close>.\<close>

definition fround :: "dbl \<Rightarrow> dbl" where
  "fround x = (case x of Fin q \<Rightarrow> of_i (round_half_away q) | _ \<Rightarrow> x)"

definition fclamp :: "dbl \<Rightarrow> dbl \<Rightarrow> dbl \<Rightarrow> dbl" where
  "fclamp v lo hi = (if flt v lo then lo else if flt hi v then hi else v)"

definition bell :: "libm \<Rightarrow> dbl \<Rightarrow> dbl \<Rightarrow> dbl" where
  "bell m away width =
     lm_exp m (fmul (fmul (Fin (- 1 / 2)) (fdiv away width)) (fdiv away width))"

definition spot_spec :: "underlying_id \<Rightarrow> instrument_spec" where
  "spot_spec u =
     \<lparr>spec_id = InstrumentId (- 1), underlying = u, kind = Spot, expiry = Date 0, strike = Price 0,
      right_of = Call, lot_size = 1, tick_size = Price 5\<rparr>"

definition option_spec :: "underlying_id \<Rightarrow> date \<Rightarrow> dbl \<Rightarrow> right \<Rightarrow> qty \<Rightarrow> instrument_spec" where
  "option_spec u e k r lot =
     \<lparr>spec_id = InstrumentId (- 1), underlying = u, kind = Option, expiry = e,
      strike = price_from_double k, right_of = r, lot_size = lot, tick_size = Price 5\<rparr>"

definition spot_quote :: "timestamp \<Rightarrow> dbl \<Rightarrow> quote" where
  "spot_quote ts spot =
     \<lparr>q_ts = ts, q_last = price_from_double spot,
      q_bid = price_from_double (fsub spot (Fin (1 / 4))),
      q_ask = price_from_double (fadd spot (Fin (1 / 4))),
      q_bid_qty = 0, q_ask_qty = 0, q_last_qty = 1, q_open_interest = 0\<rparr>"

definition half_spread :: "dbl \<Rightarrow> dbl \<Rightarrow> dbl \<Rightarrow> dbl" where
  "half_spread fair away strike_step =
     fmax (rnd (25 / 1000))
       (fadd (fmul fair (rnd (4 / 1000))) (fmul (fdiv (fabs away) strike_step) (rnd (5 / 100))))"

text \<open>
  A drawn number of lots: \<open>rng()\<close> is 64-bit unsigned, so the product is taken modulo \<open>2 ^ 64\<close> and
  then narrowed.
\<close>

definition some_lots :: "qty \<Rightarrow> nat \<Rightarrow> mt \<Rightarrow> qty \<times> mt" where
  "some_lots lot n g = (let (x, g1) = mt_draw g in (to_i32 (lot * (1 + int (x mod n))), g1))"

text \<open>The prices and sizes of one observation of an option worth \<open>fair\<close>.\<close>

definition option_quote ::
    "'n distributions \<Rightarrow> timestamp \<Rightarrow> dbl \<Rightarrow> dbl \<Rightarrow> qty \<Rightarrow> int \<Rightarrow> mt \<Rightarrow> quote \<times> mt" where
  "option_quote lib ts fair half lot oi g =
     (let (u, g1) = uniform_unit lib g;
          (traded, g2) = (if flt u (rnd (17 / 100)) then some_lots lot 8 g1 else (0, g1));
          (bids, g3) = some_lots lot 20 g2;
          (asks, g4) = some_lots lot 20 g3
      in (\<lparr>q_ts = ts, q_last = price_from_double fair,
           q_bid = price_from_double (fmax (rnd (5 / 100)) (fsub fair half)),
           q_ask = price_from_double (fadd fair half),
           q_bid_qty = bids, q_ask_qty = asks, q_last_qty = traded, q_open_interest = oi\<rparr>, g4))"

text \<open>
  What one listed option does at one time: it updates with a probability that falls away from the
  money (\<open>lo\<close> is the least), at its intrinsic value plus a time value of scale \<open>scale\<close>.
\<close>

record option_leg =
  ol_id :: instrument_id
  ol_strike :: dbl
  ol_right :: right
  ol_oi :: int

definition leg_update ::
    "libm \<Rightarrow> 'n distributions \<Rightarrow> dbl \<Rightarrow> qty \<Rightarrow> dbl \<Rightarrow> dbl \<Rightarrow> timestamp \<Rightarrow> dbl \<Rightarrow> dbl \<Rightarrow> option_leg \<Rightarrow>
      memory_session \<times> mt \<Rightarrow> exn + (memory_session \<times> mt)" where
  "leg_update m lib strike_step lot lo scale ts spot remaining leg st =
     (let away = fsub (ol_strike leg) spot;
          activity = fclamp (bell m away kActivityWidth) lo (Fin 1);
          (u, g1) = uniform_unit lib (snd st)
      in if flt activity u then Inr (fst st, g1)
         else let tv = fmul (fmul scale (fsqrt remaining)) (bell m away kTimeValueWidth);
                  fair = fmax (rnd (5 / 100))
                    (fadd (intrinsic_value spot (ol_strike leg) (ol_right leg)) tv);
                  (q, g2) = option_quote lib ts fair (half_spread fair away strike_step) lot
                    (ol_oi leg) g1
              in map_sum id (\<lambda>s. (s, g2)) (append_quote (ol_id leg) q (fst st)))"

section \<open>One session\<close>

record session_leg =
  sl_leg :: option_leg
  sl_first_sec :: int

text \<open>\<open>reserve\<close> throws beyond \<open>max_size\<close>, the most elements of 32 bytes.\<close>

definition max_legs :: int where
  "max_legs = (2 ^ 63 - 1) div 32"

definition first_second :: "synthetic_config \<Rightarrow> int \<Rightarrow> int" where
  "first_second cfg k =
     (let away = \<bar>k\<bar> in to_i32 (sc_open_sec cfg + min (to_i32 (away * away * 20)) 3600))"

definition ladder_strike :: "synthetic_config \<Rightarrow> int \<Rightarrow> dbl" where
  "ladder_strike cfg k =
     (let strike_step = price_to_double (sc_strike_step cfg)
      in fmul (fround (fdiv (fadd (price_to_double (sc_spot_open cfg)) (fmul (of_i k) strike_step))
           strike_step)) strike_step)"

definition add_leg ::
    "synthetic_config \<Rightarrow> underlying_id \<Rightarrow> int \<times> right \<Rightarrow> registry \<times> mt \<times> session_leg list \<Rightarrow>
      registry \<times> mt \<times> session_leg list" where
  "add_leg cfg u kr st =
     (let (k, r) = kr; (reg, g, legs) = st; level = ladder_strike cfg k;
          (i, reg1) = add (option_spec u (sc_expiry cfg) level r (sc_lot_size cfg)) reg;
          (x, g1) = mt_draw g
      in (reg1, g1, legs @ [\<lparr>sl_leg = \<lparr>ol_id = i, ol_strike = level, ol_right = r,
            ol_oi = 20000 + int (x mod 60000)\<rparr>, sl_first_sec = first_second cfg k\<rparr>]))"

definition ladder :: "int \<Rightarrow> (int \<times> right) list" where
  "ladder n = concat (map (\<lambda>k. [(k, Call), (k, Put)]) [- n..n])"

record 'n walk =
  wk_session :: memory_session
  wk_spot :: dbl
  wk_normal :: 'n
  wk_rng :: mt

definition session_leg_step ::
    "synthetic_config \<Rightarrow> libm \<Rightarrow> 'n distributions \<Rightarrow> int \<Rightarrow> timestamp \<Rightarrow> dbl \<Rightarrow> dbl \<Rightarrow> session_leg \<Rightarrow>
      memory_session \<times> mt \<Rightarrow> exn + (memory_session \<times> mt)" where
  "session_leg_step cfg m lib sec ts spot remaining leg st =
     (if sec < sl_first_sec leg then Inr st
      else leg_update m lib (price_to_double (sc_strike_step cfg)) (sc_lot_size cfg) (rnd (2 / 100))
             (Fin 120) ts spot remaining (sl_leg leg) st)"

definition session_second ::
    "synthetic_config \<Rightarrow> libm \<Rightarrow> 'n distributions \<Rightarrow> instrument_id \<Rightarrow> session_leg list \<Rightarrow> dbl \<Rightarrow> int \<Rightarrow>
      'n walk \<Rightarrow> exn + 'n walk" where
  "session_second cfg m lib spot_id legs dte t w =
     (let total_secs = to_i32 (sc_close_sec cfg - sc_open_sec cfg);
          sec = sc_open_sec cfg + t;
          ts = timestamp_of (sc_date cfg) sec kISTOffsetSeconds;
          (move, n1, g1) = normal_draw lib (Fin 0) (rnd (12 / 10)) (wk_normal w) (wk_rng w);
          spot = fadd (wk_spot w) move;
          progress = fdiv (of_i t) (of_i total_secs);
          remaining = fmax (rnd (2 / 100)) (fdiv (fsub dte progress) dte)
      in case append_quote spot_id (spot_quote ts spot) (wk_session w) of
           Inl e \<Rightarrow> Inl e
         | Inr s1 \<Rightarrow>
             map_sum id
               (\<lambda>(s2, g2). \<lparr>wk_session = s2, wk_spot = spot, wk_normal = n1, wk_rng = g2\<rparr>)
               (try_fold (session_leg_step cfg m lib sec ts spot remaining) legs (s1, g1)))"

definition make_synthetic_session ::
    "libm \<Rightarrow> 'n distributions \<Rightarrow> synthetic_config \<Rightarrow> registry \<Rightarrow> exn + (synthetic_session \<times> registry)" where
  "make_synthetic_session m lib cfg reg =
     (let (u, reg1) = intern_underlying (sc_underlying cfg) reg;
          (spot_id, reg2) = add (spot_spec u) reg1
      in if max_legs < (sc_strikes_each_side cfg mod 2 ^ 64 * 4 + 2) mod 2 ^ 64
         then Inl (LogicError ''vector::reserve'')
         else let (reg3, g, legs) = fold (add_leg cfg u) (ladder (sc_strikes_each_side cfg))
                    (reg2, mt_seed (sc_seed cfg), []);
                  dte = fmax (Fin 1) (of_i (day_number (sc_expiry cfg) - day_number (sc_date cfg)));
                  total_secs = to_i32 (sc_close_sec cfg - sc_open_sec cfg);
                  start = \<lparr>wk_session = new_session (sc_date cfg) reg3,
                    wk_spot = price_to_double (sc_spot_open cfg), wk_normal = normal_start lib,
                    wk_rng = g\<rparr>
              in map_sum id
                   (\<lambda>w. (\<lparr>sy_data = build_event_order (wk_session w), sy_underlying = u,
                          sy_spot = spot_id\<rparr>, reg3))
                   (try_fold (session_second cfg m lib spot_id legs dte) [0..total_secs] start))"

section \<open>A series of sessions\<close>

text \<open>
  The three loops whose end depends on the configuration are \<open>partial_function\<close>s: \<open>None\<close> is a
  loop that does not end (a step of zero seconds never passes
  the close).
\<close>

partial_function (option) trading_days :: "int \<Rightarrow> date \<Rightarrow> date list \<Rightarrow> date list option" where
  "trading_days n d dates =
     (if to_i32 (int (length dates)) < n
      then trading_days n (add_days d 1)
             (if weekday_of d \<noteq> 0 \<and> weekday_of d \<noteq> 6 then dates @ [d] else dates)
      else Some dates)"

partial_function (option) weekly_expiries ::
    "int \<Rightarrow> date \<Rightarrow> date \<Rightarrow> date list \<Rightarrow> date list option" where
  "weekly_expiries wd limit d es =
     (if d \<le> limit
      then weekly_expiries wd limit (add_days d 1) (if weekday_of d = wd then es @ [d] else es)
      else Some es)"

partial_function (option) each_step ::
    "(int \<Rightarrow> 's \<Rightarrow> exn + 's) \<Rightarrow> int \<Rightarrow> int \<Rightarrow> int \<Rightarrow> 's \<Rightarrow> (exn + 's) option" where
  "each_step f last_t step t s =
     (if t \<le> last_t
      then case f t s of Inl e \<Rightarrow> Some (Inl e) | Inr s1 \<Rightarrow> each_step f last_t step (to_i32 (t + step)) s1
      else Some (Inr s))"

record series_leg =
  se_leg :: option_leg
  se_expiry :: date

definition listed :: "series_config \<Rightarrow> date \<Rightarrow> date \<Rightarrow> bool" where
  "listed cfg date e \<longleftrightarrow>
     \<not> e < date \<and> \<not> 7 * sq_expiries_ahead cfg < day_number e - day_number date"

definition add_listing ::
    "series_config \<Rightarrow> underlying_id \<Rightarrow> dbl \<Rightarrow> date \<times> int \<times> right \<Rightarrow>
      registry \<times> mt \<times> series_leg list \<Rightarrow> registry \<times> mt \<times> series_leg list" where
  "add_listing cfg u centre ekr st =
     (let (e, k, r) = ekr; (reg, g, legs) = st;
          level = fadd centre (fmul (of_i k) (price_to_double (sq_strike_step cfg)));
          (i, reg1) = add (option_spec u e level r (sq_lot_size cfg)) reg;
          (x, g1) = mt_draw g
      in (reg1, g1, legs @ [\<lparr>se_leg = \<lparr>ol_id = i, ol_strike = level, ol_right = r,
            ol_oi = 20000 + int (x mod 60000)\<rparr>, se_expiry = e\<rparr>]))"

definition listings :: "series_config \<Rightarrow> date list \<Rightarrow> date \<Rightarrow> (date \<times> int \<times> right) list" where
  "listings cfg es date =
     concat (map (\<lambda>e. map (Pair e) (ladder (sq_strikes_each_side cfg))) (filter (listed cfg date) es))"

definition series_leg_step ::
    "series_config \<Rightarrow> libm \<Rightarrow> 'n distributions \<Rightarrow> date \<Rightarrow> timestamp \<Rightarrow> dbl \<Rightarrow> dbl \<Rightarrow> series_leg \<Rightarrow>
      memory_session \<times> mt \<Rightarrow> exn + (memory_session \<times> mt)" where
  "series_leg_step cfg m lib date ts spot day_fraction leg st =
     (let days_left = fsub (of_i (day_number (se_expiry leg) - day_number date)) day_fraction;
          remaining = fdiv (fmax (rnd (2 / 1000)) days_left) (Fin 365)
      in leg_update m lib (price_to_double (sq_strike_step cfg)) (sq_lot_size cfg) (rnd (5 / 100))
           (Fin 900) ts spot remaining (se_leg leg) st)"

definition series_second ::
    "series_config \<Rightarrow> libm \<Rightarrow> 'n distributions \<Rightarrow> instrument_id \<Rightarrow> series_leg list \<Rightarrow> date \<Rightarrow> int \<Rightarrow>
      'n walk \<Rightarrow> exn + 'n walk" where
  "series_second cfg m lib spot_id legs date t w =
     (let last_t = to_i32 (sq_close_sec cfg - sq_open_sec cfg);
          ts = timestamp_of date (sq_open_sec cfg + t) kISTOffsetSeconds;
          (move, n1, g1) = normal_draw lib (Fin 0) (rnd (16 / 10)) (wk_normal w) (wk_rng w);
          spot = fadd (wk_spot w) (fmul move (fsqrt (of_i (sq_step_seconds cfg))));
          day_fraction = fdiv (of_i t) (of_i last_t)
      in case append_quote spot_id (spot_quote ts spot) (wk_session w) of
           Inl e \<Rightarrow> Inl e
         | Inr s1 \<Rightarrow>
             map_sum id
               (\<lambda>(s2, g2). \<lparr>wk_session = s2, wk_spot = spot, wk_normal = n1, wk_rng = g2\<rparr>)
               (try_fold (series_leg_step cfg m lib date ts spot day_fraction) legs (s1, g1)))"

text \<open>What is carried from one session to the next.\<close>

record 'n series_state =
  st_registry :: registry
  st_rng :: mt
  st_step :: 'n
  st_gap :: 'n
  st_level :: dbl
  st_built :: "memory_session list"

definition series_day ::
    "series_config \<Rightarrow> libm \<Rightarrow> 'n distributions \<Rightarrow> underlying_id \<Rightarrow> instrument_id \<Rightarrow> date list \<Rightarrow> date \<Rightarrow>
      'n series_state \<Rightarrow> (exn + 'n series_state) option" where
  "series_day cfg m lib u spot_id es date st =
     (let (jump, gap1, g1) = normal_draw lib (Fin 0) (Fin 30) (st_gap st) (st_rng st);
          spot = fadd (st_level st) jump;
          strike_step = price_to_double (sq_strike_step cfg);
          centre = fmul (fround (fdiv spot strike_step)) strike_step;
          (reg1, g2, legs) = fold (add_listing cfg u centre) (listings cfg es date)
            (st_registry st, g1, []);
          last_t = to_i32 (sq_close_sec cfg - sq_open_sec cfg)
      in map_option
           (map_sum id (\<lambda>w. \<lparr>st_registry = reg1, st_rng = wk_rng w, st_step = wk_normal w,
              st_gap = gap1, st_level = wk_spot w,
              st_built = st_built st @ [build_event_order (wk_session w)]\<rparr>))
           (each_step (series_second cfg m lib spot_id legs date) last_t (sq_step_seconds cfg) 0
              \<lparr>wk_session = new_session date reg1, wk_spot = spot, wk_normal = st_step st,
               wk_rng = g2\<rparr>))"

text \<open>A loop whose body may throw or may not return.\<close>

fun run_days :: "('a \<Rightarrow> 's \<Rightarrow> (exn + 's) option) \<Rightarrow> 'a list \<Rightarrow> 's \<Rightarrow> (exn + 's) option" where
  "run_days f [] s = Some (Inr s)"
| "run_days f (x # xs) s =
     (case f x s of
        None \<Rightarrow> None
      | Some (Inl e) \<Rightarrow> Some (Inl e)
      | Some (Inr s1) \<Rightarrow> run_days f xs s1)"

text \<open>
  The sessions refer to the caller's registry, which grows until the last of them is built: each
  holds its final value.  Without trading days \<open>front()\<close> of the empty vector has no defined
  behaviour, which is a \<open>None\<close> here.
\<close>

definition make_synthetic_series ::
    "libm \<Rightarrow> 'n distributions \<Rightarrow> series_config \<Rightarrow> registry \<Rightarrow>
      (exn + (synthetic_series \<times> registry)) option" where
  "make_synthetic_series m lib cfg reg =
     (let (u, reg1) = intern_underlying ''NIFTY'' reg;
          (spot_id, reg2) = add (spot_spec u) reg1
      in case trading_days (sq_sessions cfg) (sq_start cfg) [] of
           None \<Rightarrow> None
         | Some dates \<Rightarrow>
             if dates = [] then None
             else case weekly_expiries (sq_expiry_weekday cfg)
                     (add_days (last dates) (to_i32 (7 * (sq_expiries_ahead cfg + 1)))) (hd dates) [] of
                    None \<Rightarrow> None
                  | Some es \<Rightarrow>
                      (case run_days (series_day cfg m lib u spot_id es) dates
                          \<lparr>st_registry = reg2, st_rng = mt_seed (sq_seed cfg),
                           st_step = normal_start lib, st_gap = normal_start lib,
                           st_level = price_to_double (sq_spot_open cfg), st_built = []\<rparr> of
                         None \<Rightarrow> None
                       | Some (Inl e) \<Rightarrow> Some (Inl e)
                       | Some (Inr st) \<Rightarrow>
                           (let final = st_registry st;
                                built = map (\<lambda>s. s\<lparr>ms_registry := final\<rparr>) (st_built st)
                            in Some (map_sum id
                                 (\<lambda>src. (\<lparr>sr_source = src, sr_underlying = u, sr_spot = spot_id,
                                          sr_dates = dates, sr_expiries = es\<rparr>, final))
                                 (try_fold (\<lambda>s. add_session (Some s)) built
                                    \<lparr>src_registry = final, src_sessions = []\<rparr>)))))"

end
