(* ===== verification/SyntheticLaws.thy ===== *)
theory SyntheticLaws
  imports Synthetic
begin

text \<open>
  What the generator produces.  Both generators write second after second through
  \<open>append_quote\<close>; \<open>written\<close> is the invariant of that writing, from which it follows that no append
  is refused.  \<open>rows_at\<close> says which instrument may print when.
\<close>

section \<open>Loops\<close>

lemma try_fold_counted:
  assumes "I n s" and "n + length xs \<le> N"
    and "\<And>x k t. x \<in> set xs \<Longrightarrow> k < N \<Longrightarrow> I k t \<Longrightarrow> \<exists>t'. f x t = Inr t' \<and> I (Suc k) t'"
  shows "\<exists>s'. try_fold f xs s = Inr s' \<and> I (n + length xs) s'"
  using assms
proof (induction xs arbitrary: n s)
  case (Cons x xs)
  then obtain t where t: "f x s = Inr t" "I (Suc n) t" by force
  moreover have "\<exists>s'. try_fold f xs t = Inr s' \<and> I (Suc n + length xs) s'"
    by (rule Cons.IH [OF t(2)]) (use Cons.prems in auto)
  ultimately show ?case by simp
qed simp

lemma try_fold_upto:
  assumes "I a s" and "a \<le> b + 1"
    and "\<And>t s. a \<le> t \<Longrightarrow> t \<le> b \<Longrightarrow> I t s \<Longrightarrow> \<exists>s'. f t s = Inr s' \<and> I (t + 1) s'"
  shows "\<exists>s'. try_fold f [a..b] s = Inr s' \<and> I (b + 1) s'"
  using assms
proof (induction "nat (b + 1 - a)" arbitrary: a s)
  case 0
  then have "a = b + 1" by simp
  then show ?case using 0 by simp
next
  case (Suc n)
  then have ab: "a \<le> b" by simp
  obtain t where t: "f a s = Inr t" "I (a + 1) t" using Suc.prems ab by blast
  have "\<exists>s'. try_fold f [a + 1..b] t = Inr s' \<and> I (b + 1) s'"
    by (rule Suc.hyps(1)) (use Suc.hyps(2) Suc.prems t ab in auto)
  then show ?case using t(1) ab by (simp add: upto_rec1)
qed

text \<open>The stepping loop ends for every positive step; its invariant holds at the time it ends.\<close>

lemma each_step_total:
  assumes "I t s" and step: "0 < step" and room: "last_t + step < 2 ^ 31" "- (2 ^ 31) \<le> t"
    and body: "\<And>t s. t \<le> last_t \<Longrightarrow> I t s \<Longrightarrow> \<exists>s'. f t s = Inr s' \<and> I (t + step) s'"
  shows "\<exists>s' t'. each_step f last_t step t s = Some (Inr s') \<and> I t' s'"
  using assms(1) room(2)
proof (induction "nat (last_t + 1 - t)" arbitrary: t s rule: less_induct)
  case less
  show ?case
  proof (cases "t \<le> last_t")
    case True
    then obtain s1 where s1: "f t s = Inr s1" "I (t + step) s1" using body less.prems by blast
    have w: "to_i32 (t + step) = t + step" using room(1) True less.prems(2) step by (intro to_i32_id) auto
    have "\<exists>s' t'. each_step f last_t step (t + step) s1 = Some (Inr s') \<and> I t' s'"
      by (rule less.hyps) (use True step s1 less.prems in auto)
    then show ?thesis using True s1(1) w by (subst each_step.simps) simp
  qed (use less.prems in \<open>auto simp: each_step.simps\<close>)
qed

section \<open>Writing a session\<close>

text \<open>
  The session of date \<open>d\<close> after at most \<open>n\<close> appends, none later than \<open>ts\<close>: every row of instrument \<open>i\<close> satisfies \<open>P i\<close>.
\<close>

definition written ::
    "date \<Rightarrow> registry \<Rightarrow> (instrument_id \<Rightarrow> quote \<Rightarrow> bool) \<Rightarrow> timestamp \<Rightarrow> nat \<Rightarrow> memory_session \<Rightarrow> bool"
    where
  "written d r P ts n m \<longleftrightarrow> memory_ok m \<and> ms_date m = d \<and> ms_registry m = r \<and> ms_total m \<le> n \<and>
     (\<forall>i. \<forall>q \<in> set (rows (ms_quotes m i)). P i q \<and> q_ts q \<le> ts)"

lemma written_new: "written d r P ts n (new_session d r)"
  by (simp add: written_def new_session_ok) (simp add: new_session_def ms_quotes_def rows_def)

lemma written_mono: "written d r P ts n m \<Longrightarrow> ts \<le> ts' \<Longrightarrow> n \<le> n' \<Longrightarrow> written d r P ts' n' m"
  unfolding written_def by (meson order_trans)

text \<open>An observation at or after the last one is accepted.\<close>

lemma written_append:
  assumes w: "written d r P ts n m" and room: "Suc n < 2 ^ 32" and q: "q_ts q = ts" "P i q"
  shows "\<exists>m'. append_quote i q m = Inr m' \<and> written d r P ts (Suc n) m' \<and>
    ms_quotes m' = (ms_quotes m)(i := push_row q (ms_quotes m i))"
proof -
  have ok: "memory_ok m" and le: "ms_total m \<le> n" using w by (simp_all add: written_def)
  have "\<forall>t \<in> set (c_ts (ms_quotes m i)). t \<le> ts"
    using w by (auto simp: written_def simp flip: q_ts_rows)
  then have "\<nexists>e. append_quote i q m = Inl e"
    unfolding append_quote_Inl using q(1) last_in_set [of "c_ts (ms_quotes m i)"] by fastforce
  then obtain m' where m': "append_quote i q m = Inr m'" by (cases "append_quote i q m") auto
  have "Suc (size_of (ms_quotes m i)) < 2 ^ 32" using size_of_ms_quotes [OF ok, of i] le room by linarith
  note a = append_quote_ok [OF ok this m'] and e = append_quote_Inr(1,5,6) [OF m']
  have "written d r P ts (Suc n) m'"
    using w a le q unfolding written_def e
    by (auto simp: rows_push_row [OF ms_quotes_ok [OF ok]])
  then show ?thesis using m' e(1) by blast
qed

lemma option_quote_ts: "option_quote lib ts fair half lot oi g = (q, g') \<Longrightarrow> q_ts q = ts"
  by (auto simp: option_quote_def Let_def split: prod.splits)

lemma leg_update_written:
  assumes w: "written d r P ts n (fst st)" and room: "Suc n < 2 ^ 32"
    and P: "\<And>q. q_ts q = ts \<Longrightarrow> P (ol_id leg) q"
  shows "\<exists>st'. leg_update m lib strike_step lot lo scale ts spot remaining leg st = Inr st' \<and>
    written d r P ts (Suc n) (fst st') \<and>
    (\<forall>i. i \<noteq> ol_id leg \<longrightarrow> ms_quotes (fst st') i = ms_quotes (fst st) i)"
proof -
  define away where "away = fsub (ol_strike leg) spot"
  obtain u g1 where u: "uniform_unit lib (snd st) = (u, g1)" by (cases "uniform_unit lib (snd st)")
  define fair where "fair = fmax (rnd (5 / 100)) (fadd (intrinsic_value spot (ol_strike leg) (ol_right leg))
    (fmul (fmul scale (fsqrt remaining)) (bell m away kTimeValueWidth)))"
  obtain q g2 where q: "option_quote lib ts fair (half_spread fair away strike_step) lot (ol_oi leg) g1 = (q, g2)"
    by (cases "option_quote lib ts fair (half_spread fair away strike_step) lot (ol_oi leg) g1")
  have "\<exists>s'. append_quote (ol_id leg) q (fst st) = Inr s' \<and> written d r P ts (Suc n) s' \<and>
      ms_quotes s' = (ms_quotes (fst st))(ol_id leg := push_row q (ms_quotes (fst st) (ol_id leg)))"
    by (rule written_append [OF w room option_quote_ts [OF q] P [OF option_quote_ts [OF q]]])
  then obtain s' where s': "append_quote (ol_id leg) q (fst st) = Inr s'" "written d r P ts (Suc n) s'"
      "ms_quotes s' = (ms_quotes (fst st))(ol_id leg := push_row q (ms_quotes (fst st) (ol_id leg)))"
    by blast
  have "leg_update m lib strike_step lot lo scale ts spot remaining leg st =
    (if flt (fclamp (bell m away kActivityWidth) lo (Fin 1)) u then Inr (fst st, g1) else Inr (s', g2))"
    unfolding leg_update_def Let_def u prod.case snd_conv away_def [symmetric] fair_def [symmetric] q s'(1)
    by simp
  then show ?thesis
    using s'(2,3) written_mono [OF w order_refl, of "Suc n"] by (cases "flt (fclamp (bell m away kActivityWidth) lo (Fin 1)) u") auto
qed


text \<open>One second: the index prints, then the listed options in order.\<close>

lemma second_written:
  fixes g1 :: 'g
  assumes w: "written d r P ts n s" and room: "Suc n + length legs < 2 ^ 32"
    and spot: "\<And>q. q_ts q = ts \<Longrightarrow> P spot_id q"
    and legs: "\<And>leg k st. leg \<in> set legs \<Longrightarrow> Suc k < 2 ^ 32 \<Longrightarrow> written d r P ts k (fst st) \<Longrightarrow>
      \<exists>st'. step leg st = Inr st' \<and> written d r P ts (Suc k) (fst st') \<and>
        ms_quotes (fst st') spot_id = ms_quotes (fst st) spot_id"
  shows "\<exists>s1 s2 g2. append_quote spot_id (spot_quote ts spot) s = Inr s1 \<and>
    try_fold step legs (s1, g1) = Inr (s2, g2) \<and> written d r P ts (Suc n + length legs) s2 \<and>
    c_ts (ms_quotes s2 spot_id) = c_ts (ms_quotes s spot_id) @ [ts]"
proof -
  have q: "q_ts (spot_quote ts spot) = ts" by (simp add: spot_quote_def)
  have "Suc n < 2 ^ 32" using room by linarith
  from written_append [OF w this q spot [OF q]] obtain s1
    where s1: "append_quote spot_id (spot_quote ts spot) s = Inr s1" "written d r P ts (Suc n) s1"
      "ms_quotes s1 = (ms_quotes s)(spot_id := push_row (spot_quote ts spot) (ms_quotes s spot_id))"
    by blast
  define I where "I = (\<lambda>k (st :: memory_session \<times> 'g). written d r P ts k (fst st) \<and>
    ms_quotes (fst st) spot_id = ms_quotes s1 spot_id)"
  have i: "I (Suc n) (s1, g1)" using s1(2) by (simp add: I_def)
  have "\<exists>st'. try_fold step legs (s1, g1) = Inr st' \<and> I (Suc n + length legs) st'"
  proof (rule try_fold_counted [where I = I, OF i order_refl])
    fix leg k st
    assume "leg \<in> set legs" and k: "k < Suc n + length legs" and "I k st"
    moreover have "Suc k < 2 ^ 32" using k room by linarith
    ultimately show "\<exists>st'. step leg st = Inr st' \<and> I (Suc k) st'"
      using legs [of leg k st] by (auto simp: I_def)
  qed
  then obtain s2 g2 where "try_fold step legs (s1, g1) = Inr (s2, g2)" "I (Suc n + length legs) (s2, g2)"
    by force
  moreover have "c_ts (ms_quotes s1 spot_id) = c_ts (ms_quotes s spot_id) @ [ts]"
    using q by (simp add: s1(3) push_row_def)
  ultimately show ?thesis using s1(1) by (auto simp: I_def)
qed

section \<open>Listing contracts\<close>

text \<open>Both generators register a list of contracts and draw an open interest for each.\<close>

definition register ::
    "('x \<Rightarrow> instrument_spec) \<Rightarrow> ('x \<Rightarrow> instrument_id \<Rightarrow> nat \<Rightarrow> 'leg) \<Rightarrow> 'x \<Rightarrow> registry \<times> mt \<times> 'leg list \<Rightarrow>
      registry \<times> mt \<times> 'leg list" where
  "register sp leg x st =
     (let (reg, g, legs) = st; (i, reg1) = add (sp x) reg; (y, g1) = mt_draw g
      in (reg1, g1, legs @ [leg x i y]))"

lemma add_leg_register:
  "add_leg cfg u = register
     (\<lambda>(k, r). option_spec u (sc_expiry cfg) (ladder_strike cfg k) r (sc_lot_size cfg))
     (\<lambda>(k, r) i x. \<lparr>sl_leg = \<lparr>ol_id = i, ol_strike = ladder_strike cfg k, ol_right = r,
        ol_oi = 20000 + int (x mod 60000)\<rparr>, sl_first_sec = first_second cfg k\<rparr>)"
  by (intro ext) (simp add: add_leg_def register_def Let_def split: prod.splits)

lemma add_listing_register:
  "add_listing cfg u centre = register
     (\<lambda>(e, k, r). option_spec u e (fadd centre (fmul (of_i k) (price_to_double (sq_strike_step cfg)))) r
        (sq_lot_size cfg))
     (\<lambda>(e, k, r) i x. \<lparr>se_leg = \<lparr>ol_id = i,
        ol_strike = fadd centre (fmul (of_i k) (price_to_double (sq_strike_step cfg))), ol_right = r,
        ol_oi = 20000 + int (x mod 60000)\<rparr>, se_expiry = e\<rparr>)"
  by (intro ext) (simp add: add_listing_def register_def Let_def split: prod.splits)

lemma fold_register:
  assumes "registry_ok reg" and "length (specs reg) + length xs \<le> 2 ^ 31"
    and "fold (register sp leg) xs (reg, g, legs) = (reg', g', legs')"
  shows "registry_ok reg' \<and> length (specs reg') \<le> length (specs reg) + length xs \<and>
    underlyings reg' = underlyings reg \<and>
    (\<forall>k i. by_key reg k = Some i \<longrightarrow> by_key reg' k = Some i) \<and>
    length legs' = length legs + length xs \<and>
    (\<forall>l \<in> set legs'. l \<in> set legs \<or>
       (\<exists>x \<in> set xs. \<exists>i y. l = leg x i y \<and> by_key reg' (key_of (sp x)) = Some i))"
  using assms
proof (induction xs arbitrary: reg g legs)
  case (Cons x xs)
  obtain i reg1 where a: "add (sp x) reg = (i, reg1)" by (cases "add (sp x) reg")
  obtain y g1 where y: "mt_draw g = (y, g1)" by (cases "mt_draw g")
  have step: "register sp leg x (reg, g, legs) = (reg1, g1, legs @ [leg x i y])"
    by (simp add: register_def a y)
  have run: "fold (register sp leg) xs (reg1, g1, legs @ [leg x i y]) = (reg', g', legs')"
    using Cons.prems(3) step by simp
  have room: "length (specs reg) < 2 ^ 31" using Cons.prems(2) by simp
  note l = instruments.intern_adds [OF Cons.prems(1) room a]
  have u: "underlyings reg1 = underlyings reg"
    using a by (auto simp: add_def Let_def split: option.splits)
  have r1: "registry_ok reg1" and r2: "length (specs reg1) + length xs \<le> 2 ^ 31"
    using l Cons.prems(2) by auto
  note ih = Cons.IH [OF r1 r2 run]
  have keep: "by_key reg1 k = Some j" if "by_key reg k = Some j" for k j
    by (rule instruments.intern_keeps [OF Cons.prems(1) room a that])
  have "by_key reg' (key_of (sp x)) = Some i" using l ih by simp
  then show ?case using ih keep u l by (fastforce simp: less_imp_le)
qed simp


section \<open>One session\<close>

lemma timestamp_of_mono: "s \<le> t \<Longrightarrow> timestamp_of d s off \<le> timestamp_of d t off"
  by (simp add: timestamp_of_def from_seconds_def)

lemma length_ladder: "0 \<le> n \<Longrightarrow> length (ladder n) = nat (4 * n + 2)"
  by (simp add: ladder_def length_concat comp_def sum_list_triv)

lemma set_ladder: "(k, r) \<in> set (ladder n) \<Longrightarrow> \<bar>k\<bar> \<le> n"
  by (auto simp: ladder_def)

lemma ms_quotes_build [simp]: "ms_quotes (build_event_order m) = ms_quotes m"
  by (auto simp: ms_quotes_def build_event_order_def Let_def)

lemma first_second_eq:
  assumes "\<bar>k\<bar> \<le> 10000" and "0 \<le> sc_open_sec cfg" and "sc_open_sec cfg < 86400"
  shows "first_second cfg k = sc_open_sec cfg + min (20 * k\<^sup>2) 3600"
proof -
  have sq: "\<bar>k\<bar> * \<bar>k\<bar> = k\<^sup>2" by (simp add: power2_eq_square)
  have "\<bar>k\<bar> * \<bar>k\<bar> \<le> 10000 * 10000" using assms(1) by (intro mult_mono) auto
  then have "k\<^sup>2 \<le> 10000 * 10000" unfolding sq .
  then have "i32_ok (k\<^sup>2 * 20)" by (auto intro: order_trans [of _ 0])
  then have "to_i32 (\<bar>k\<bar> * \<bar>k\<bar> * 20) = 20 * k\<^sup>2" unfolding sq by (simp add: to_i32_id)
  moreover have "to_i32 (sc_open_sec cfg + min (20 * k\<^sup>2) 3600) = sc_open_sec cfg + min (20 * k\<^sup>2) 3600"
    using assms(2,3) by (intro to_i32_id) (auto simp: min_def intro: order_trans [of _ 0])
  ultimately show ?thesis by (simp add: first_second_def Let_def)
qed

definition config_ok :: "synthetic_config \<Rightarrow> bool" where
  "config_ok cfg \<longleftrightarrow> 0 \<le> sc_strikes_each_side cfg \<and> sc_strikes_each_side cfg \<le> 10000 \<and>
     0 \<le> sc_open_sec cfg \<and> sc_open_sec cfg \<le> sc_close_sec cfg \<and> sc_close_sec cfg < 86400"

text \<open>Who may print when: the index at any second, an option from its first second on.\<close>

definition may_print ::
    "synthetic_config \<Rightarrow> registry \<Rightarrow> underlying_id \<Rightarrow> instrument_id \<Rightarrow> instrument_id \<Rightarrow> quote \<Rightarrow> bool" where
  "may_print cfg reg u spot_id i q \<longleftrightarrow>
     (\<exists>t. sc_open_sec cfg \<le> t \<and> t \<le> sc_close_sec cfg \<and>
        q_ts q = timestamp_of (sc_date cfg) t kISTOffsetSeconds \<and>
        (i = spot_id \<or>
         (\<exists>k r. \<bar>k\<bar> \<le> sc_strikes_each_side cfg \<and> sc_open_sec cfg + min (20 * k\<^sup>2) 3600 \<le> t \<and>
            find_option reg u (sc_expiry cfg) (price_from_double (ladder_strike cfg k)) r = Some i)))"

lemma session_second_written:
  fixes w :: "'n walk"
  assumes cfg: "config_ok cfg" and t: "0 \<le> t" "sc_open_sec cfg + t \<le> sc_close_sec cfg"
    and w: "written d r P (timestamp_of (sc_date cfg) (sc_open_sec cfg + t - 1) kISTOffsetSeconds) n (wk_session w)"
    and room: "Suc n + length legs < 2 ^ 32"
    and P: "P = may_print cfg reg u spot_id"
    and legs: "\<And>leg. leg \<in> set legs \<Longrightarrow> ol_id (sl_leg leg) \<noteq> spot_id \<and>
      (\<exists>k r. \<bar>k\<bar> \<le> sc_strikes_each_side cfg \<and> sl_first_sec leg = first_second cfg k \<and>
         find_option reg u (sc_expiry cfg) (price_from_double (ladder_strike cfg k)) r = Some (ol_id (sl_leg leg)))"
  shows "\<exists>w'. session_second cfg m lib spot_id legs dte t w = Inr w' \<and>
    written d r P (timestamp_of (sc_date cfg) (sc_open_sec cfg + t) kISTOffsetSeconds)
      (Suc n + length legs) (wk_session w') \<and>
    c_ts (ms_quotes (wk_session w') spot_id) = c_ts (ms_quotes (wk_session w) spot_id) @
      [timestamp_of (sc_date cfg) (sc_open_sec cfg + t) kISTOffsetSeconds]"
proof -
  let ?ts = "timestamp_of (sc_date cfg) (sc_open_sec cfg + t) kISTOffsetSeconds"
  have w1: "written d r P ?ts n (wk_session w)"
    by (rule written_mono [OF w timestamp_of_mono order_refl]) simp
  have spot: "P spot_id q" if "q_ts q = ?ts" for q
    using t that unfolding P may_print_def by (intro exI [of _ "sc_open_sec cfg + t"]) auto
  obtain move n1 g1 where mv: "normal_draw lib (Fin 0) (rnd (12 / 10)) (wk_normal w) (wk_rng w) = (move, n1, g1)"
    by (metis prod_cases3)
  define sp where "sp = fadd (wk_spot w) move"
  define remaining where "remaining = fmax (rnd (2 / 100))
    (fdiv (fsub dte (fdiv (of_i t) (of_i (to_i32 (sc_close_sec cfg - sc_open_sec cfg))))) dte)"
  define step where "step = session_leg_step cfg m lib (sc_open_sec cfg + t) ?ts sp remaining"
  have "\<exists>s1 s2 g2. append_quote spot_id (spot_quote ?ts sp) (wk_session w) = Inr s1 \<and>
      try_fold step legs (s1, g1) = Inr (s2, g2) \<and> written d r P ?ts (Suc n + length legs) s2 \<and>
      c_ts (ms_quotes s2 spot_id) = c_ts (ms_quotes (wk_session w) spot_id) @ [?ts]"
  proof (rule second_written [OF w1 room spot])
    fix leg k and st :: "memory_session \<times> mt"
    assume leg: "leg \<in> set legs" and k: "Suc k < 2 ^ 32" and st: "written d r P ?ts k (fst st)"
    show "\<exists>st'. step leg st = Inr st' \<and> written d r P ?ts (Suc k) (fst st') \<and>
        ms_quotes (fst st') spot_id = ms_quotes (fst st) spot_id"
    proof (cases "sc_open_sec cfg + t < sl_first_sec leg")
      case True
      then show ?thesis
        using st by (auto simp: step_def session_leg_step_def intro: written_mono)
    next
      case False
      obtain j rt where j: "\<bar>j\<bar> \<le> sc_strikes_each_side cfg" "sl_first_sec leg = first_second cfg j"
          "find_option reg u (sc_expiry cfg) (price_from_double (ladder_strike cfg j)) rt = Some (ol_id (sl_leg leg))"
          and ne: "ol_id (sl_leg leg) \<noteq> spot_id"
        using legs [OF leg] by blast
      have "first_second cfg j = sc_open_sec cfg + min (20 * j\<^sup>2) 3600"
        using cfg j(1) by (intro first_second_eq) (auto simp: config_ok_def)
      then have le: "sc_open_sec cfg + min (20 * j\<^sup>2) 3600 \<le> sc_open_sec cfg + t" using False j(2) by linarith
      have "P (ol_id (sl_leg leg)) q" if "q_ts q = ?ts" for q
        unfolding P may_print_def using j(1,3) le t that by (intro exI [of _ "sc_open_sec cfg + t"]) auto
      from leg_update_written [OF st k this] show ?thesis
        using False ne unfolding step_def session_leg_step_def by (metis (no_types))
    qed
  qed
  then show ?thesis
    unfolding session_second_def Let_def mv prod.case sp_def [symmetric] remaining_def [symmetric]
      step_def [symmetric] by auto
qed


lemma session_seconds_written:
  fixes w :: "'n walk"
  assumes cfg: "config_ok cfg" and P: "P = may_print cfg reg u spot_id"
    and w: "wk_session w = new_session (sc_date cfg) r"
    and legs: "length legs \<le> 40002" "\<And>leg. leg \<in> set legs \<Longrightarrow> ol_id (sl_leg leg) \<noteq> spot_id \<and>
      (\<exists>k r. \<bar>k\<bar> \<le> sc_strikes_each_side cfg \<and> sl_first_sec leg = first_second cfg k \<and>
         find_option reg u (sc_expiry cfg) (price_from_double (ladder_strike cfg k)) r = Some (ol_id (sl_leg leg)))"
  shows "\<exists>w' ts n. try_fold (session_second cfg m lib spot_id legs dte)
      [0..to_i32 (sc_close_sec cfg - sc_open_sec cfg)] w = Inr w' \<and>
    written (sc_date cfg) r P ts n (wk_session w') \<and>
    c_ts (ms_quotes (wk_session w') spot_id) =
      map (\<lambda>t. timestamp_of (sc_date cfg) t kISTOffsetSeconds) [sc_open_sec cfg..sc_close_sec cfg]"
proof -
  let ?ts = "\<lambda>t. timestamp_of (sc_date cfg) t kISTOffsetSeconds"
  define c where "c = sc_close_sec cfg - sc_open_sec cfg"
  have c: "0 \<le> c" "c < 86400" "to_i32 c = c" using cfg by (auto simp: config_ok_def c_def to_i32_id)
  define I where "I = (\<lambda>t (w :: 'n walk).
    written (sc_date cfg) r P (?ts (sc_open_sec cfg + t - 1)) (nat t * 40003) (wk_session w) \<and>
    c_ts (ms_quotes (wk_session w) spot_id) = map ?ts [sc_open_sec cfg..sc_open_sec cfg + t - 1])"
  have "I 0 w" by (simp add: I_def w written_new) (simp add: new_session_def ms_quotes_def empty_columns_def)
  moreover have "0 \<le> c + 1" using c(1) by simp
  ultimately have "\<exists>w'. try_fold (session_second cfg m lib spot_id legs dte) [0..c] w = Inr w' \<and> I (c + 1) w'"
  proof (rule try_fold_upto [where I = I])
    fix t and w :: "'n walk"
    assume t: "0 \<le> t" "t \<le> c" and i: "I t w"
    have room: "Suc (nat t * 40003) + length legs < 2 ^ 32" using t c legs(1) by simp
    have wi: "written (sc_date cfg) r P (?ts (sc_open_sec cfg + t - 1)) (nat t * 40003) (wk_session w)"
      and ci: "c_ts (ms_quotes (wk_session w) spot_id) = map ?ts [sc_open_sec cfg..sc_open_sec cfg + t - 1]"
      using i by (simp_all add: I_def)
    have "sc_open_sec cfg + t \<le> sc_close_sec cfg" using t(2) by (simp add: c_def)
    from session_second_written [OF cfg t(1) this wi room P legs(2)] obtain w'
      where w': "session_second cfg m lib spot_id legs dte t w = Inr w'"
        "written (sc_date cfg) r P (?ts (sc_open_sec cfg + t)) (Suc (nat t * 40003) + length legs) (wk_session w')"
        "c_ts (ms_quotes (wk_session w') spot_id) = map ?ts [sc_open_sec cfg..sc_open_sec cfg + t - 1] @ [?ts (sc_open_sec cfg + t)]"
      unfolding ci by blast
    have "Suc (nat t * 40003) + length legs \<le> nat (t + 1) * 40003" using t(1) legs(1) by simp
    from written_mono [OF w'(2) order_refl this]
    have "I (t + 1) w'" using w'(3) t(1) by (simp add: I_def upto_rec2 [of _ "sc_open_sec cfg + t"])
    then show "\<exists>w'. session_second cfg m lib spot_id legs dte t w = Inr w' \<and> I (t + 1) w'"
      using w'(1) by blast
  qed
  then show ?thesis unfolding c_def [symmetric] c(3) by (auto simp: I_def c_def)
qed

definition session_room :: "synthetic_config \<Rightarrow> registry \<Rightarrow> bool" where
  "session_room cfg reg \<longleftrightarrow> registry_ok reg \<and> length (underlyings reg) < 2 ^ 31 \<and>
     length (specs reg) + 40003 < 2 ^ 31"

text \<open>The contracts a session lists, in the registry it leaves.\<close>

lemma session_listing:
  assumes cfg: "config_ok cfg" and room: "session_room cfg reg"
    and u: "intern_underlying (sc_underlying cfg) reg = (u, reg1)"
    and spot: "add (spot_spec u) reg1 = (spot_id, reg2)"
    and run: "fold (add_leg cfg u) (ladder (sc_strikes_each_side cfg)) (reg2, g, []) = (reg3, g', legs)"
  shows "registry_ok reg3" and "length legs \<le> 40002" and "find_spot reg3 u = Some spot_id"
    and "leg \<in> set legs \<Longrightarrow> ol_id (sl_leg leg) \<noteq> spot_id \<and>
      (\<exists>k r. \<bar>k\<bar> \<le> sc_strikes_each_side cfg \<and> sl_first_sec leg = first_second cfg k \<and>
         find_option reg3 u (sc_expiry cfg) (price_from_double (ladder_strike cfg k)) r = Some (ol_id (sl_leg leg)))"
proof -
  have ok: "registry_ok reg" and ur: "length (underlyings reg) < 2 ^ 31"
    and sr: "length (specs reg) + 40003 < 2 ^ 31" using room by (simp_all add: session_room_def)
  have n: "0 \<le> sc_strikes_each_side cfg" "sc_strikes_each_side cfg \<le> 10000"
    using cfg by (simp_all add: config_ok_def)
  have ok1: "registry_ok reg1" using intern_underlying_ok [OF ok ur u] by simp
  have sp1: "specs reg1 = specs reg"
    using u by (auto simp: intern_underlying_def Let_def split: option.splits)
  have "length (specs reg1) < 2 ^ 31" using sr sp1 by simp
  note a = instruments.intern_adds [OF ok1 this spot]
  have ok2: "registry_ok reg2" using a by simp
  have l: "length (ladder (sc_strikes_each_side cfg)) \<le> 40002" using n by (simp add: length_ladder)
  have r2: "length (specs reg2) + length (ladder (sc_strikes_each_side cfg)) \<le> 2 ^ 31"
    using a l sr sp1 by simp
  note f = fold_register [OF ok2 r2 run [unfolded add_leg_register]]
  show ok3: "registry_ok reg3" and "length legs \<le> 40002" using f l by auto
  have k: "key_of (spot_spec u) = Key (uindex u) 0 0 0 0" by (simp add: key_of_def spot_spec_def)
  have spot3: "by_key reg3 (key_of (spot_spec u)) = Some spot_id" using a f by simp
  then show "find_spot reg3 u = Some spot_id" by (simp add: find_spot_def k)
  assume "leg \<in> set legs"
  then obtain j r i y where j: "(j, r) \<in> set (ladder (sc_strikes_each_side cfg))"
    "leg = \<lparr>sl_leg = \<lparr>ol_id = i, ol_strike = ladder_strike cfg j, ol_right = r,
        ol_oi = 20000 + int (y mod 60000)\<rparr>, sl_first_sec = first_second cfg j\<rparr>"
    "by_key reg3 (key_of (option_spec u (sc_expiry cfg) (ladder_strike cfg j) r (sc_lot_size cfg))) = Some i"
    using f by force
  have "key_of (option_spec u (sc_expiry cfg) (ladder_strike cfg j) r (sc_lot_size cfg)) \<noteq> key_of (spot_spec u)"
    unfolding k by (simp add: key_of_def option_spec_def)
  then have "i \<noteq> spot_id" using instruments.lookup_inj [OF ok3 _ spot3] j(3) by blast
  moreover have "find_option reg3 u (sc_expiry cfg) (price_from_double (ladder_strike cfg j)) r = Some i"
    using j(3) by (simp add: find_option_def key_of_def option_spec_def)
  ultimately show "ol_id (sl_leg leg) \<noteq> spot_id \<and>
      (\<exists>k r. \<bar>k\<bar> \<le> sc_strikes_each_side cfg \<and> sl_first_sec leg = first_second cfg k \<and>
         find_option reg3 u (sc_expiry cfg) (price_from_double (ladder_strike cfg k)) r = Some (ol_id (sl_leg leg)))"
    using set_ladder [OF j(1)] j(2) by auto
qed

text \<open>With sensible hours and room in the registry, generating a session never fails, whatever
  the seed and the distributions.  No append is refused; the result is a well-formed session of
  the configured date; the index prints exactly once in every second from open to close; and any
  other row belongs to an option of the ladder, at a second of the session not before that strike
  wakes up (\<open>20 k\<^sup>2\<close> seconds after the open for the \<open>k\<close>-th strike, an hour at most).\<close>

theorem synthetic_session_is_sound:
  assumes "config_ok cfg" and "session_room cfg reg"
  shows "\<exists>out reg'. make_synthetic_session m lib cfg reg = Inr (out, reg') \<and>
    session_ok (memory_data (sy_data out)) \<and> ms_date (sy_data out) = sc_date cfg \<and>
    registry_ok reg' \<and> find_spot reg' (sy_underlying out) = Some (sy_spot out) \<and>
    c_ts (ms_quotes (sy_data out) (sy_spot out)) =
      map (\<lambda>t. timestamp_of (sc_date cfg) t kISTOffsetSeconds) [sc_open_sec cfg..sc_close_sec cfg] \<and>
    (\<forall>i. \<forall>q \<in> set (rows (ms_quotes (sy_data out) i)).
       may_print cfg reg' (sy_underlying out) (sy_spot out) i q)"
proof -
  obtain u reg1 where u: "intern_underlying (sc_underlying cfg) reg = (u, reg1)"
    by (cases "intern_underlying (sc_underlying cfg) reg")
  obtain spot_id reg2 where spot: "add (spot_spec u) reg1 = (spot_id, reg2)"
    by (cases "add (spot_spec u) reg1")
  obtain reg3 g legs where legs: "fold (add_leg cfg u) (ladder (sc_strikes_each_side cfg))
      (reg2, mt_seed (sc_seed cfg), []) = (reg3, g, legs)"
    by (metis prod_cases3)
  note l = session_listing [OF assms u spot legs]
  have n: "0 \<le> sc_strikes_each_side cfg" "sc_strikes_each_side cfg \<le> 10000"
    using assms(1) by (simp_all add: config_ok_def)
  then have "\<not> max_legs < (sc_strikes_each_side cfg mod 2 ^ 64 * 4 + 2) mod 2 ^ 64"
    by (simp add: max_legs_def)
  moreover define start where "start = \<lparr>wk_session = new_session (sc_date cfg) reg3,
    wk_spot = price_to_double (sc_spot_open cfg), wk_normal = normal_start lib, wk_rng = g\<rparr>"
  moreover have "wk_session start = new_session (sc_date cfg) reg3" by (simp add: start_def)
  note session_seconds_written [OF assms(1) refl this l(2,4)]
  then obtain w ts k where "try_fold (session_second cfg m lib spot_id legs
        (fmax (Fin 1) (of_i (day_number (sc_expiry cfg) - day_number (sc_date cfg)))))
        [0..to_i32 (sc_close_sec cfg - sc_open_sec cfg)] start = Inr w"
      and w: "written (sc_date cfg) reg3 (may_print cfg reg3 u spot_id) ts k (wk_session w)"
      "c_ts (ms_quotes (wk_session w) spot_id) =
        map (\<lambda>t. timestamp_of (sc_date cfg) t kISTOffsetSeconds) [sc_open_sec cfg..sc_close_sec cfg]"
    by blast
  ultimately have "make_synthetic_session m lib cfg reg =
      Inr (\<lparr>sy_data = build_event_order (wk_session w), sy_underlying = u, sy_spot = spot_id\<rparr>, reg3)"
    unfolding make_synthetic_session_def Let_def u spot legs prod.case by simp
  moreover have "session_ok (memory_data (build_event_order (wk_session w)))"
    using w(1) by (intro memory_session_ok build_event_order_ok) (simp add: written_def)
  moreover have "ms_date (build_event_order (wk_session w)) = sc_date cfg"
    using w(1) by (simp add: written_def build_event_order_def Let_def)
  ultimately show ?thesis using l(1,3) w by (auto simp: written_def)
qed


definition plain_distributions :: "unit distributions" where
  "plain_distributions =
     \<lparr>uniform_unit = (\<lambda>g. (Fin 0, snd (mt_draw g))), normal_start = (),
      normal_draw = (\<lambda>mean _ _ g. (mean, (), snd (mt_draw g)))\<rparr>"

theorem synthetic_session_is_sound_witness:
  "config_ok default_synthetic_config \<and>
   (\<exists>out reg'. make_synthetic_session flat_libm plain_distributions default_synthetic_config
        empty_registry = Inr (out, reg') \<and>
      size_of (ms_quotes (sy_data out) (sy_spot out)) = 22501)"
proof -
  have c: "config_ok default_synthetic_config"
    by (simp add: config_ok_def default_synthetic_config_def)
  have r: "session_room default_synthetic_config empty_registry"
    by (simp add: session_room_def registry_ok_empty) (simp add: empty_registry_def)
  obtain out reg' where o: "make_synthetic_session flat_libm plain_distributions
        default_synthetic_config empty_registry = Inr (out, reg')"
      "c_ts (ms_quotes (sy_data out) (sy_spot out)) =
        map (\<lambda>t. timestamp_of (sc_date default_synthetic_config) t kISTOffsetSeconds)
          [sc_open_sec default_synthetic_config..sc_close_sec default_synthetic_config]"
    using synthetic_session_is_sound [OF c r] by blast
  have "size_of (ms_quotes (sy_data out) (sy_spot out)) = 22501"
    unfolding size_of_def o(2) length_map length_upto by (simp add: default_synthetic_config_def)
  then show ?thesis using c o(1) by blast
qed

end
