(* ===== verification/SyntheticSeries.thy ===== *)
theory SyntheticSeries
  imports SyntheticLaws
begin

text \<open>
  The multi-session generator returns, and what it returns: its loops over dates and seconds end,
  its trading days are the weekdays from the start on, and every session it builds is well formed.
\<close>

section \<open>Dates\<close>

lemma date_from_days_less:
  assumes "day_range a" and "day_range b"
  shows "date_from_days a < date_from_days b \<longleftrightarrow> a < b"
  using date_from_days_strict [OF assms] date_from_days_strict [OF assms(2,1)]
  by (metis less_asym linorder_less_linear)

lemma weekday_of_days: "day_range z \<Longrightarrow> weekday_of (date_from_days z) = (z + 4) mod 7"
  by (simp add: weekday_of_eq day_number_date_from_days)

lemma add_day: "day_range z \<Longrightarrow> add_days (date_from_days z) n = date_from_days (z + n)"
  by (simp add: add_days_def day_number_date_from_days)

text \<open>The dates from day \<open>a\<close> to day \<open>b\<close> with a property of their day count.\<close>

definition dates_with :: "(int \<Rightarrow> bool) \<Rightarrow> int \<Rightarrow> int \<Rightarrow> date list" where
  "dates_with P a b = map date_from_days (filter P [a..b])"

lemma dates_with_Nil [simp]: "b < a \<Longrightarrow> dates_with P a b = []"
  by (simp add: dates_with_def)

lemma dates_with_snoc:
  "a \<le> b \<Longrightarrow> dates_with P a b = dates_with P a (b - 1) @ (if P b then [date_from_days b] else [])"
  by (simp add: dates_with_def upto_rec2)

lemma dates_with_sorted:
  assumes "day_range a" and "day_range b"
  shows "sorted_wrt (<) (dates_with P a b)"
proof -
  have "sorted_wrt (\<lambda>x y. date_from_days x < date_from_days y) (filter P [a..b])"
  proof (rule sorted_wrt_mono_rel)
    show "sorted_wrt (<) (filter P [a..b])" by (simp add: sorted_wrt_filter)
    fix x y
    assume xy: "x \<in> set (filter P [a..b])" "y \<in> set (filter P [a..b])" "x < y"
    then have "day_range x" "day_range y" using assms by (auto simp: day_range_def)
    with xy(3) show "date_from_days x < date_from_days y" by (simp add: date_from_days_less)
  qed
  then show ?thesis by (simp add: dates_with_def sorted_wrt_map)
qed

definition trading :: "int \<Rightarrow> bool" where
  "trading z \<longleftrightarrow> (z + 4) mod 7 \<noteq> 0 \<and> (z + 4) mod 7 \<noteq> 6"

text \<open>At most two days pass before the next trading day.\<close>

definition days_off :: "int \<Rightarrow> nat" where
  "days_off z = (if (z + 4) mod 7 = 6 then 2 else if (z + 4) mod 7 = 0 then 1 else 0)"

lemma days_off_le: "days_off z \<le> 2"
  by (simp add: days_off_def)

lemma trading_days_off: "trading z \<longleftrightarrow> days_off z = 0"
  by (simp add: days_off_def trading_def)

lemma days_off_next:
  assumes "\<not> trading z"
  shows "Suc (days_off (z + 1)) = days_off z"
proof -
  have "(z + 1 + 4) mod 7 = ((z + 4) mod 7 + 1) mod 7" by presburger
  then show ?thesis using assms unfolding days_off_def trading_def by auto
qed

lemma trading_days_returns:
  assumes "day_range a" and n: "int (length (dates_with trading a (z - 1))) + int r = n" "n < 2 ^ 31"
    and "a \<le> z" "day_range (z + int (days_off z) + 3 * int r)"
  shows "\<exists>b. trading_days n (date_from_days z) (dates_with trading a (z - 1)) = Some (dates_with trading a b) \<and>
    int (length (dates_with trading a b)) = n \<and> (r = 0 \<longrightarrow> b = z - 1) \<and>
    (0 < r \<longrightarrow> trading b \<and> z \<le> b \<and> b \<le> z + int (days_off z) + 3 * int r - 3)"
  using n(1) assms(4,5)
proof (induction "3 * r + days_off z" arbitrary: z r rule: less_induct)
  case less
  let ?ds = "dates_with trading a (z - 1)"
  have w: "to_i32 (int (length ?ds)) = int (length ?ds)"
    using less.prems(1) n(2) by (intro to_i32_id) auto
  show ?case
  proof (cases "r = 0")
    case True
    then show ?thesis using less.prems w by (intro exI [of _ "z - 1"]) (subst trading_days.simps, simp)
  next
    case False
    then obtain r' where r': "r = Suc r'" by (cases r) auto
    have zr: "day_range z" using assms(1) less.prems(2,3) by (auto simp: day_range_def)
    have snoc: "dates_with trading a (z + 1 - 1) = ?ds @ (if trading z then [date_from_days z] else [])"
      using less.prems(2) by (simp add: dates_with_snoc)
    have "trading_days n (date_from_days z) ?ds =
        trading_days n (date_from_days (z + 1)) (dates_with trading a (z + 1 - 1))"
      unfolding snoc using less.prems(1) False w zr
      by (subst trading_days.simps) (simp add: weekday_of_days trading_def add_day)
    note step = this
    show ?thesis
    proof (cases "trading z")
      case True
      have 1: "3 * r' + days_off (z + 1) < 3 * r + days_off z" using days_off_le [of "z + 1"] r' by simp
      have 2: "int (length (dates_with trading a (z + 1 - 1))) + int r' = n"
        unfolding snoc using True less.prems(1) r' by simp
      have 3: "a \<le> z + 1" "day_range (z + 1 + int (days_off (z + 1)) + 3 * int r')"
        using less.prems(2,3) r' assms(1) days_off_le [of "z + 1"] by (auto simp: day_range_def)
      note ih = less.hyps [OF 1 2 3]
      then show ?thesis unfolding step
        using True r' days_off_le [of "z + 1"] trading_days_off [of z] by (cases "r' = 0") fastforce+
    next
      case no: False
      note o = days_off_next [OF no]
      have 1: "3 * r + days_off (z + 1) < 3 * r + days_off z" using o by simp
      have 2: "int (length (dates_with trading a (z + 1 - 1))) + int r = n"
        unfolding snoc using no less.prems(1) by simp
      have 3: "a \<le> z + 1" "day_range (z + 1 + int (days_off (z + 1)) + 3 * int r)"
        using less.prems(2,3) o by (auto simp: day_range_def)
      note ih = less.hyps [OF 1 2 3]
      then show ?thesis unfolding step using False o by force
    qed
  qed
qed


lemma weekly_expiries_returns:
  assumes "day_range a" "day_range l" "day_range (l + 1)" and "a \<le> z" "z \<le> l + 1"
  shows "weekly_expiries wd (date_from_days l) (date_from_days z)
      (dates_with (\<lambda>x. (x + 4) mod 7 = wd) a (z - 1)) =
    Some (dates_with (\<lambda>x. (x + 4) mod 7 = wd) a l)"
  using assms(4,5)
proof (induction "nat (l + 1 - z)" arbitrary: z)
  case 0
  then have z: "z = l + 1" by simp
  have "\<not> date_from_days z \<le> date_from_days l"
    using assms(2,3) by (simp add: z not_le date_from_days_less)
  then show ?case using z by (subst weekly_expiries.simps) simp
next
  case (Suc k)
  have zr: "day_range z" "day_range l" using assms Suc.prems Suc.hyps(2) by (auto simp: day_range_def)
  have le: "date_from_days z \<le> date_from_days l"
    using Suc.hyps(2) zr by (simp add: date_from_days_less flip: not_less)
  have "k = nat (l + 1 - (z + 1))" "a \<le> z + 1" "z + 1 \<le> l + 1" using Suc.hyps(2) Suc.prems by auto
  from Suc.hyps(1) [OF this] show ?case
    using Suc.prems le zr
    by (subst weekly_expiries.simps) (simp add: dates_with_snoc [of a z] weekday_of_days add_day split: if_splits)
qed

section \<open>Listings\<close>

text \<open>No more than \<open>expiries_ahead + 1\<close> weekly expiries are listed at once.\<close>

lemma listed_days:
  assumes "day_range z" "day_range x"
  shows "listed cfg (date_from_days z) (date_from_days x) \<longleftrightarrow> z \<le> x \<and> x - z \<le> 7 * sq_expiries_ahead cfg"
  using assms by (auto simp: listed_def date_from_days_less day_number_date_from_days)

lemma same_week_and_weekday:
  fixes x y z :: int
  assumes "(x + 4) mod 7 = (y + 4) mod 7" and "(x - z) div 7 = (y - z) div 7"
  shows "x = y"
proof -
  have "(x - z) mod 7 = (y - z) mod 7" using mod_diff_cong [OF assms(1) refl, of "z + 4"] by simp
  with assms(2) have "x - z = y - z" by (metis div_mult_mod_eq)
  then show ?thesis by simp
qed

lemma few_listed:
  assumes "day_range a" "day_range l" "day_range z" and "0 \<le> sq_expiries_ahead cfg"
  shows "int (length (filter (listed cfg (date_from_days z)) (dates_with (\<lambda>x. (x + 4) mod 7 = wd) a l)))
    \<le> sq_expiries_ahead cfg + 1"
proof -
  let ?A = "{x. (x + 4) mod 7 = wd \<and> z \<le> x \<and> x - z \<le> 7 * sq_expiries_ahead cfg}"
  have r: "day_range x" if "x \<in> {a..l}" for x using assms(1,2) that by (auto simp: day_range_def)
  have "length (filter (listed cfg (date_from_days z)) (dates_with (\<lambda>x. (x + 4) mod 7 = wd) a l)) =
      length (filter (\<lambda>x. listed cfg (date_from_days z) (date_from_days x) \<and> (x + 4) mod 7 = wd) [a..l])"
    by (simp add: dates_with_def filter_map comp_def conj_commute)
  also have "\<dots> = card (set (filter (\<lambda>x. listed cfg (date_from_days z) (date_from_days x) \<and> (x + 4) mod 7 = wd) [a..l]))"
    by (rule distinct_card [symmetric]) simp
  also have "\<dots> \<le> card ((\<lambda>x. (x - z) div 7) ` ?A)"
  proof (rule card_inj_on_le)
    show "inj_on (\<lambda>x. (x - z) div 7) (set (filter (\<lambda>x. listed cfg (date_from_days z) (date_from_days x) \<and> (x + 4) mod 7 = wd) [a..l]))"
      by (rule inj_onI, rule same_week_and_weekday) auto
    show "(\<lambda>x. (x - z) div 7) ` set (filter (\<lambda>x. listed cfg (date_from_days z) (date_from_days x) \<and> (x + 4) mod 7 = wd) [a..l]) \<subseteq>
        (\<lambda>x. (x - z) div 7) ` ?A"
      using r assms(3) by (auto simp: listed_days)
    have "(\<lambda>x. (x - z) div 7) ` ?A \<subseteq> {0..sq_expiries_ahead cfg}" by auto
    then show "finite ((\<lambda>x. (x - z) div 7) ` ?A)" by (rule finite_subset) simp
  qed
  also have "\<dots> \<le> card {0..sq_expiries_ahead cfg}"
    by (rule card_mono) auto
  finally show ?thesis using assms(4) by simp
qed

lemma length_listings:
  assumes "0 \<le> sq_strikes_each_side cfg"
  shows "length (listings cfg es d) = length (filter (listed cfg d) es) * nat (4 * sq_strikes_each_side cfg + 2)"
  using assms by (simp add: listings_def length_concat comp_def length_ladder sum_list_triv)


section \<open>One day\<close>

definition series_ok :: "series_config \<Rightarrow> bool" where
  "series_ok cfg \<longleftrightarrow> 1 \<le> sq_sessions cfg \<and> sq_sessions cfg \<le> 2000 \<and>
     0 \<le> sq_strikes_each_side cfg \<and> sq_strikes_each_side cfg \<le> 500 \<and>
     0 \<le> sq_expiries_ahead cfg \<and> sq_expiries_ahead cfg \<le> 20 \<and>
     0 \<le> sq_open_sec cfg \<and> sq_open_sec cfg \<le> sq_close_sec cfg \<and> sq_close_sec cfg < 86400 \<and>
     1 \<le> sq_step_seconds cfg \<and> sq_step_seconds cfg \<le> 86400 \<and>
     calendar_date (sq_start cfg) \<and> day_range (day_number (sq_start cfg)) \<and>
     day_range (day_number (sq_start cfg) + 7000)"

text \<open>Who may print on a day: the index, and the options of the expiries listed that day.\<close>

definition lists ::
    "series_config \<Rightarrow> date list \<Rightarrow> date \<Rightarrow> registry \<Rightarrow> underlying_id \<Rightarrow> instrument_id \<Rightarrow> instrument_id \<Rightarrow>
      quote \<Rightarrow> bool" where
  "lists cfg es d reg u spot_id i q \<longleftrightarrow>
     (\<exists>t. sq_open_sec cfg \<le> t \<and> t \<le> sq_close_sec cfg \<and> q_ts q = timestamp_of d t kISTOffsetSeconds) \<and>
     (i = spot_id \<or>
      (\<exists>e \<in> set es. \<exists>k r. d \<le> e \<and> day_number e - day_number d \<le> 7 * sq_expiries_ahead cfg \<and>
         find_option reg u e k r = Some i))"

lemma lists_mono:
  assumes "\<forall>k i. by_key reg k = Some i \<longrightarrow> by_key reg' k = Some i" and "lists cfg es d reg u spot_id i q"
  shows "lists cfg es d reg' u spot_id i q"
  using assms unfolding lists_def find_option_def by blast

lemma series_second_written:
  fixes w :: "'n walk"
  assumes cfg: "series_ok cfg" and t: "0 \<le> t" "t \<le> sq_close_sec cfg - sq_open_sec cfg"
    and w: "written d r P ts0 n (wk_session w)"
    and ts: "ts0 \<le> timestamp_of d (sq_open_sec cfg + t) kISTOffsetSeconds"
    and room: "Suc n + length legs < 2 ^ 32"
    and P: "P = lists cfg es d reg u spot_id"
    and legs: "\<And>leg. leg \<in> set legs \<Longrightarrow> ol_id (se_leg leg) \<noteq> spot_id \<and>
      (\<exists>e \<in> set es. \<exists>k r. listed cfg d e \<and> find_option reg u e k r = Some (ol_id (se_leg leg)))"
  shows "\<exists>w'. series_second cfg m lib spot_id legs d t w = Inr w' \<and>
    written d r P (timestamp_of d (sq_open_sec cfg + t) kISTOffsetSeconds) (Suc n + length legs) (wk_session w')"
proof -
  let ?ts = "timestamp_of d (sq_open_sec cfg + t) kISTOffsetSeconds"
  have w1: "written d r P ?ts n (wk_session w)" by (rule written_mono [OF w ts order_refl])
  have time: "\<exists>s. sq_open_sec cfg \<le> s \<and> s \<le> sq_close_sec cfg \<and> ?ts = timestamp_of d s kISTOffsetSeconds"
    using t by (intro exI [of _ "sq_open_sec cfg + t"]) auto
  have spot: "P spot_id q" if "q_ts q = ?ts" for q using time that by (simp add: P lists_def)
  obtain move n1 g1 where mv: "normal_draw lib (Fin 0) (rnd (16 / 10)) (wk_normal w) (wk_rng w) = (move, n1, g1)"
    by (metis prod_cases3)
  define sp where "sp = fadd (wk_spot w) (fmul move (fsqrt (of_i (sq_step_seconds cfg))))"
  define step where "step = series_leg_step cfg m lib d ?ts sp
    (fdiv (of_i t) (of_i (to_i32 (sq_close_sec cfg - sq_open_sec cfg))))"
  have "\<exists>s1 s2 g2. append_quote spot_id (spot_quote ?ts sp) (wk_session w) = Inr s1 \<and>
      try_fold step legs (s1, g1) = Inr (s2, g2) \<and> written d r P ?ts (Suc n + length legs) s2 \<and>
      c_ts (ms_quotes s2 spot_id) = c_ts (ms_quotes (wk_session w) spot_id) @ [?ts]"
  proof (rule second_written [OF w1 room spot])
    fix leg k and st :: "memory_session \<times> mt"
    assume leg: "leg \<in> set legs" and k: "Suc k < 2 ^ 32" and st: "written d r P ?ts k (fst st)"
    have "P (ol_id (se_leg leg)) q" if "q_ts q = ?ts" for q
      using time that legs [OF leg] by (auto simp: P lists_def listed_def not_less)
    from leg_update_written [OF st k this] show "\<exists>st'. step leg st = Inr st' \<and>
        written d r P ?ts (Suc k) (fst st') \<and> ms_quotes (fst st') spot_id = ms_quotes (fst st) spot_id"
      using legs [OF leg] unfolding step_def series_leg_step_def Let_def by (metis (no_types))
  qed
  then show ?thesis
    unfolding series_second_def Let_def mv prod.case sp_def [symmetric] step_def [symmetric] by auto
qed

lemma series_steps_written:
  fixes w :: "'n walk"
  assumes cfg: "series_ok cfg" and P: "P = lists cfg es d reg u spot_id"
    and w: "wk_session w = new_session d r"
    and legs: "length legs \<le> 42042" "\<And>leg. leg \<in> set legs \<Longrightarrow> ol_id (se_leg leg) \<noteq> spot_id \<and>
      (\<exists>e \<in> set es. \<exists>k r. listed cfg d e \<and> find_option reg u e k r = Some (ol_id (se_leg leg)))"
  shows "\<exists>w' ts n. each_step (series_second cfg m lib spot_id legs d)
      (to_i32 (sq_close_sec cfg - sq_open_sec cfg)) (sq_step_seconds cfg) 0 w = Some (Inr w') \<and>
    written d r P ts n (wk_session w')"
proof -
  let ?ts = "\<lambda>t. timestamp_of d t kISTOffsetSeconds"
  define c where "c = sq_close_sec cfg - sq_open_sec cfg"
  have c: "0 \<le> c" "c < 86400" "to_i32 c = c" and st: "1 \<le> sq_step_seconds cfg" "sq_step_seconds cfg \<le> 86400"
    using cfg by (auto simp: series_ok_def c_def to_i32_id)
  define I where "I = (\<lambda>t (w :: 'n walk). 0 \<le> t \<and>
    (\<exists>ts. ts \<le> ?ts (sq_open_sec cfg + t) \<and> written d r P ts (nat t * 42043) (wk_session w)))"
  have "I 0 w" by (auto simp: I_def w written_new)
  moreover have "0 < sq_step_seconds cfg" "c + sq_step_seconds cfg < 2 ^ 31" "- (2 ^ 31) \<le> (0 :: int)"
    using c st by auto
  ultimately have "\<exists>w' t'. each_step (series_second cfg m lib spot_id legs d) c (sq_step_seconds cfg) 0 w =
      Some (Inr w') \<and> I t' w'"
  proof (rule each_step_total [where I = I])
    fix t and w :: "'n walk"
    assume t: "t \<le> c" and i: "I t w"
    then obtain ts where w: "0 \<le> t" "ts \<le> ?ts (sq_open_sec cfg + t)"
      "written d r P ts (nat t * 42043) (wk_session w)" by (auto simp: I_def)
    have room: "Suc (nat t * 42043) + length legs < 2 ^ 32" using t c legs(1) by simp
    from series_second_written [OF cfg w(1) t [unfolded c_def] w(3,2) room P legs(2)] obtain w'
      where w': "series_second cfg m lib spot_id legs d t w = Inr w'"
        "written d r P (?ts (sq_open_sec cfg + t)) (Suc (nat t * 42043) + length legs) (wk_session w')" by blast
    have "Suc (nat t * 42043) + length legs \<le> nat (t + sq_step_seconds cfg) * 42043"
    proof -
      have "nat t + 1 \<le> nat (t + sq_step_seconds cfg)" using w(1) st(1) by simp
      then have "(nat t + 1) * 42043 \<le> nat (t + sq_step_seconds cfg) * 42043" by (rule mult_le_mono1)
      then show ?thesis using legs(1) by simp
    qed
    from written_mono [OF w'(2) order_refl this]
    have "I (t + sq_step_seconds cfg) w'"
      using w(1) st(1) unfolding I_def by (intro conjI exI [of _ "?ts (sq_open_sec cfg + t)"])
        (auto intro: timestamp_of_mono)
    then show "\<exists>w'. series_second cfg m lib spot_id legs d t w = Inr w' \<and> I (t + sq_step_seconds cfg) w'"
      using w'(1) by blast
  qed
  then show ?thesis unfolding c_def [symmetric] c(3) by (auto simp: I_def)
qed


text \<open>What a session of the series is, once the registry is \<open>reg\<close>.\<close>

definition built_ok ::
    "series_config \<Rightarrow> date list \<Rightarrow> registry \<Rightarrow> underlying_id \<Rightarrow> instrument_id \<Rightarrow> date \<Rightarrow> memory_session \<Rightarrow> bool"
    where
  "built_ok cfg es reg u spot_id d s \<longleftrightarrow> memory_ok s \<and> ms_date s = d \<and>
     (\<forall>i. \<forall>q \<in> set (rows (ms_quotes s i)). lists cfg es d reg u spot_id i q)"

lemma built_ok_mono:
  assumes "\<forall>k i. by_key reg k = Some i \<longrightarrow> by_key reg' k = Some i" and "built_ok cfg es reg u spot_id d s"
  shows "built_ok cfg es reg' u spot_id d s"
  using assms(2) lists_mono [OF assms(1)] unfolding built_ok_def by blast

lemma day_listing:
  assumes cfg: "series_ok cfg" and ok: "registry_ok reg" and room: "length (specs reg) + 42042 \<le> 2 ^ 31"
    and spot: "by_key reg (key_of (spot_spec u)) = Some spot_id"
    and few: "int (length (filter (listed cfg d) es)) \<le> sq_expiries_ahead cfg + 1"
    and run: "fold (add_listing cfg u centre) (listings cfg es d) (reg, g, []) = (reg1, g', legs)"
  shows "registry_ok reg1" and "length (specs reg1) \<le> length (specs reg) + 42042"
    and "\<forall>k i. by_key reg k = Some i \<longrightarrow> by_key reg1 k = Some i" and "length legs \<le> 42042"
    and "leg \<in> set legs \<Longrightarrow> ol_id (se_leg leg) \<noteq> spot_id \<and>
      (\<exists>e \<in> set es. \<exists>k r. listed cfg d e \<and> find_option reg1 u e k r = Some (ol_id (se_leg leg)))"
proof -
  have n: "0 \<le> sq_strikes_each_side cfg" "sq_strikes_each_side cfg \<le> 500" "sq_expiries_ahead cfg \<le> 20"
    using cfg by (simp_all add: series_ok_def)
  have "length (filter (listed cfg d) es) \<le> 21" using few n(3) by simp
  moreover have "nat (4 * sq_strikes_each_side cfg + 2) \<le> 2002" using n(2) by simp
  ultimately have "length (filter (listed cfg d) es) * nat (4 * sq_strikes_each_side cfg + 2) \<le> 21 * 2002"
    by (rule mult_le_mono)
  then have l: "length (listings cfg es d) \<le> 42042" unfolding length_listings [OF n(1)] by simp
  then have "length (specs reg) + length (listings cfg es d) \<le> 2 ^ 31" using room by linarith
  note f = fold_register [OF ok this run [unfolded add_listing_register]]
  show ok1: "registry_ok reg1" and "length (specs reg1) \<le> length (specs reg) + 42042"
    and "\<forall>k i. by_key reg k = Some i \<longrightarrow> by_key reg1 k = Some i" and "length legs \<le> 42042"
    using f l by auto
  have k: "key_of (spot_spec u) = Key (uindex u) 0 0 0 0" by (simp add: key_of_def spot_spec_def)
  have spot1: "by_key reg1 (key_of (spot_spec u)) = Some spot_id" using f spot by blast
  assume leg: "leg \<in> set legs"
  note f [THEN conjunct2, THEN conjunct2, THEN conjunct2, THEN conjunct2, THEN conjunct2, THEN bspec, OF leg]
  then obtain x i y where x: "x \<in> set (listings cfg es d)"
    "leg = (\<lambda>(e, k, r) i x. \<lparr>se_leg = \<lparr>ol_id = i,
        ol_strike = fadd centre (fmul (of_i k) (price_to_double (sq_strike_step cfg))), ol_right = r,
        ol_oi = 20000 + int (x mod 60000)\<rparr>, se_expiry = e\<rparr>) x i y"
    "by_key reg1 (key_of ((\<lambda>(e, k, r). option_spec u e
        (fadd centre (fmul (of_i k) (price_to_double (sq_strike_step cfg)))) r (sq_lot_size cfg)) x)) = Some i"
    unfolding list.set empty_iff simp_thms by (elim bexE exE conjE)
  obtain e j r where ejr: "x = (e, j, r)" by (rule prod_cases3)
  define level where "level = fadd centre (fmul (of_i j) (price_to_double (sq_strike_step cfg)))"
  have j: "(e, j, r) \<in> set (listings cfg es d)" "ol_id (se_leg leg) = i"
    "by_key reg1 (key_of (option_spec u e level r (sq_lot_size cfg))) = Some i"
    using x by (simp_all add: ejr level_def)
  have "key_of (option_spec u e level r (sq_lot_size cfg)) \<noteq> key_of (spot_spec u)"
    unfolding k by (simp add: key_of_def option_spec_def)
  then have "i \<noteq> spot_id" using instruments.lookup_inj [OF ok1 _ spot1] j(3) by blast
  moreover have "find_option reg1 u e (price_from_double level) r = Some i"
    using j(3) by (simp add: find_option_def key_of_def option_spec_def)
  moreover have "e \<in> set es \<and> listed cfg d e" using j(1) by (auto simp: listings_def)
  ultimately show "ol_id (se_leg leg) \<noteq> spot_id \<and>
      (\<exists>e \<in> set es. \<exists>k r. listed cfg d e \<and> find_option reg1 u e k r = Some (ol_id (se_leg leg)))"
    using j(2) by blast
qed

lemma series_day_built:
  fixes st :: "'n series_state"
  assumes cfg: "series_ok cfg" and ok: "registry_ok (st_registry st)"
    and room: "length (specs (st_registry st)) + 42042 \<le> 2 ^ 31"
    and spot: "by_key (st_registry st) (key_of (spot_spec u)) = Some spot_id"
    and few: "int (length (filter (listed cfg d) es)) \<le> sq_expiries_ahead cfg + 1"
  shows "\<exists>st' s. series_day cfg m lib u spot_id es d st = Some (Inr st') \<and>
    registry_ok (st_registry st') \<and>
    length (specs (st_registry st')) \<le> length (specs (st_registry st)) + 42042 \<and>
    (\<forall>k i. by_key (st_registry st) k = Some i \<longrightarrow> by_key (st_registry st') k = Some i) \<and>
    st_built st' = st_built st @ [s] \<and> built_ok cfg es (st_registry st') u spot_id d s"
proof -
  obtain jump gap1 g1 where jump: "normal_draw lib (Fin 0) (Fin 30) (st_gap st) (st_rng st) = (jump, gap1, g1)"
    by (metis prod_cases3)
  define sp where "sp = fadd (st_level st) jump"
  define centre where "centre = fmul (fround (fdiv sp (price_to_double (sq_strike_step cfg))))
    (price_to_double (sq_strike_step cfg))"
  obtain reg1 g2 legs where legs: "fold (add_listing cfg u centre) (listings cfg es d)
      (st_registry st, g1, []) = (reg1, g2, legs)" by (metis prod_cases3)
  note l = day_listing [OF cfg ok room spot few legs]
  define w0 where "w0 = \<lparr>wk_session = new_session d reg1, wk_spot = sp, wk_normal = st_step st, wk_rng = g2\<rparr>"
  have "wk_session w0 = new_session d reg1" by (simp add: w0_def)
  from series_steps_written [OF cfg refl this l(4,5)] obtain w ts k
    where w: "each_step (series_second cfg m lib spot_id legs d)
        (to_i32 (sq_close_sec cfg - sq_open_sec cfg)) (sq_step_seconds cfg) 0 w0 = Some (Inr w)"
      "written d reg1 (lists cfg es d reg1 u spot_id) ts k (wk_session w)" by blast
  define st' where "st' = \<lparr>st_registry = reg1, st_rng = wk_rng w, st_step = wk_normal w, st_gap = gap1,
    st_level = wk_spot w, st_built = st_built st @ [build_event_order (wk_session w)]\<rparr>"
  have "series_day cfg m lib u spot_id es d st = Some (Inr st')"
    unfolding series_day_def Let_def jump prod.case sp_def [symmetric] centre_def [symmetric] legs
      w0_def [symmetric] w(1) by (simp add: st'_def)
  moreover have "built_ok cfg es reg1 u spot_id d (build_event_order (wk_session w))"
    using w(2) build_event_order_ok [of "wk_session w"]
    by (auto simp: written_def built_ok_def) (simp add: build_event_order_def Let_def)
  ultimately show ?thesis using l(1-3) by (auto simp: st'_def)
qed

section \<open>The series\<close>

lemma series_days_built:
  fixes st :: "'n series_state"
  assumes cfg: "series_ok cfg" and ok: "registry_ok (st_registry st)"
    and room: "length (specs (st_registry st)) + length ds * 42042 \<le> 2 ^ 31"
    and spot: "by_key (st_registry st) (key_of (spot_spec u)) = Some spot_id"
    and few: "\<And>d. d \<in> set ds \<Longrightarrow> int (length (filter (listed cfg d) es)) \<le> sq_expiries_ahead cfg + 1"
    and built: "list_all2 (built_ok cfg es (st_registry st) u spot_id) pre (st_built st)"
  shows "\<exists>st'. run_days (series_day cfg m lib u spot_id es) ds st = Some (Inr st') \<and>
    registry_ok (st_registry st') \<and>
    (\<forall>k i. by_key (st_registry st) k = Some i \<longrightarrow> by_key (st_registry st') k = Some i) \<and>
    list_all2 (built_ok cfg es (st_registry st') u spot_id) (pre @ ds) (st_built st')"
  using ok room spot few built
proof (induction ds arbitrary: st pre)
  case (Cons d ds)
  have "length (specs (st_registry st)) + 42042 \<le> 2 ^ 31" using Cons.prems(2) by simp
  from series_day_built [OF cfg Cons.prems(1) this Cons.prems(3) Cons.prems(4)] obtain st1 s
    where 1: "series_day cfg m lib u spot_id es d st = Some (Inr st1)" "registry_ok (st_registry st1)"
      "length (specs (st_registry st1)) \<le> length (specs (st_registry st)) + 42042"
      "\<forall>k i. by_key (st_registry st) k = Some i \<longrightarrow> by_key (st_registry st1) k = Some i"
      "st_built st1 = st_built st @ [s]" "built_ok cfg es (st_registry st1) u spot_id d s"
    by (metis list.set_intros(1))
  have r: "length (specs (st_registry st1)) + length ds * 42042 \<le> 2 ^ 31" using 1(3) Cons.prems(2) by simp
  have sp: "by_key (st_registry st1) (key_of (spot_spec u)) = Some spot_id" using 1(4) Cons.prems(3) by blast
  have "list_all2 (built_ok cfg es (st_registry st1) u spot_id) pre (st_built st)"
    using Cons.prems(5) built_ok_mono [OF 1(4)] by (rule list_all2_mono)
  then have "list_all2 (built_ok cfg es (st_registry st1) u spot_id) (pre @ [d]) (st_built st1)"
    using 1(5,6) by (simp add: list_all2_appendI)
  from Cons.IH [OF 1(2) r sp _ this] Cons.prems(4) obtain st'
    where "run_days (series_day cfg m lib u spot_id es) ds st1 = Some (Inr st')" "registry_ok (st_registry st')"
      "\<forall>k i. by_key (st_registry st1) k = Some i \<longrightarrow> by_key (st_registry st') k = Some i"
      "list_all2 (built_ok cfg es (st_registry st') u spot_id) (pre @ d # ds) (st_built st')"
    by auto
  then show ?case using 1(1,4) by auto
qed auto

lemma om_put_last:
  "\<forall>x \<in> set m. fst x < k \<Longrightarrow> om_put k v m = m @ [(k, v)]"
  by (induction k v m rule: om_put.induct) auto

lemma add_sessions:
  assumes "sorted_wrt (<) (map fst (src_sessions src) @ map (\<lambda>s. yyyymmdd (ms_date s)) ss)"
  shows "try_fold (\<lambda>s. add_session (Some s)) ss src =
    Inr (src\<lparr>src_sessions := src_sessions src @ map (\<lambda>s. (yyyymmdd (ms_date s), s)) ss\<rparr>)"
  using assms
proof (induction ss arbitrary: src)
  case (Cons s ss)
  have "om_put (yyyymmdd (ms_date s)) s (src_sessions src) = src_sessions src @ [(yyyymmdd (ms_date s), s)]"
    using Cons.prems by (intro om_put_last) (auto simp: sorted_wrt_append)
  then show ?case using Cons.prems Cons.IH [of "src\<lparr>src_sessions := src_sessions src @ [(yyyymmdd (ms_date s), s)]\<rparr>"]
    by (simp add: add_session_def)
qed simp


text \<open>The dates the series covers and the expiries it knows.\<close>

lemma series_dates:
  assumes "series_ok cfg"
  obtains b c l where
    "trading_days (sq_sessions cfg) (sq_start cfg) [] = Some (dates_with trading (day_number (sq_start cfg)) b)"
    "int (length (dates_with trading (day_number (sq_start cfg)) b)) = sq_sessions cfg"
    "dates_with trading (day_number (sq_start cfg)) b \<noteq> []"
    "day_range (day_number (sq_start cfg))" "day_range b" "day_range c" "day_range l"
    "weekly_expiries (sq_expiry_weekday cfg)
      (add_days (last (dates_with trading (day_number (sq_start cfg)) b)) (to_i32 (7 * (sq_expiries_ahead cfg + 1))))
      (hd (dates_with trading (day_number (sq_start cfg)) b)) [] =
     Some (dates_with (\<lambda>x. (x + 4) mod 7 = sq_expiry_weekday cfg) c l)"
proof -
  define a where "a = day_number (sq_start cfg)"
  have ar: "day_range a" "day_range (a + 7000)" and start: "sq_start cfg = date_from_days a"
    and n: "1 \<le> sq_sessions cfg" "sq_sessions cfg \<le> 2000"
    and ahead: "0 \<le> sq_expiries_ahead cfg" "sq_expiries_ahead cfg \<le> 20"
    using assms by (simp_all add: series_ok_def a_def date_from_day_number)
  have r: "day_range x" if "a \<le> x" "x \<le> a + 7000" for x using that ar by (auto simp: day_range_def)
  let ?k = "nat (sq_sessions cfg)"
  have "int (length (dates_with trading a (a - 1))) + int ?k = sq_sessions cfg" "sq_sessions cfg < 2 ^ 31"
    "a \<le> a" "day_range (a + int (days_off a) + 3 * int ?k)"
    using n days_off_le [of a] by (auto intro: r)
  note td = trading_days_returns [OF ar(1) this]
  then obtain b where b: "trading_days (sq_sessions cfg) (sq_start cfg) [] = Some (dates_with trading a b)"
    "int (length (dates_with trading a b)) = sq_sessions cfg" "trading b" "a \<le> b" "b \<le> a + 2 + 6000"
    using n days_off_le [of a] by (auto simp: start)
  have f: "filter trading [a..b] \<noteq> []" using b(3,4) by (auto simp: filter_empty_conv)
  then have ne: "dates_with trading a b \<noteq> []" by (simp add: dates_with_def)
  have l0: "last (dates_with trading a b) = date_from_days b"
    using b(3,4) by (simp add: dates_with_snoc)
  define c where "c = hd (filter trading [a..b])"
  have "c \<in> set (filter trading [a..b])" using f unfolding c_def by (rule hd_in_set)
  then have c: "a \<le> c" "c \<le> b" by auto
  have h: "hd (dates_with trading a b) = date_from_days c"
    using f by (simp add: dates_with_def c_def hd_map)
  define l where "l = b + 7 * (sq_expiries_ahead cfg + 1)"
  have w: "to_i32 (7 * (sq_expiries_ahead cfg + 1)) = 7 * (sq_expiries_ahead cfg + 1)"
    using ahead by (intro to_i32_id) auto
  have lim: "add_days (date_from_days b) (to_i32 (7 * (sq_expiries_ahead cfg + 1))) = date_from_days l"
    unfolding w l_def by (rule add_day) (use b(4,5) in \<open>auto intro: r\<close>)
  have br: "day_range b" "day_range c" "day_range l" "day_range (l + 1)"
    using b(4,5) c ahead by (auto intro!: r simp: l_def)
  have "c \<le> l + 1" using c(2) ahead by (simp add: l_def)
  from weekly_expiries_returns [OF br(2-4) order_refl this, of "sq_expiry_weekday cfg"]
  have "weekly_expiries (sq_expiry_weekday cfg) (date_from_days l) (date_from_days c) [] =
     Some (dates_with (\<lambda>x. (x + 4) mod 7 = sq_expiry_weekday cfg) c l)" by simp
  with b(1,2) ne ar(1) br(1-3) show thesis
    by (intro that [of b c l]) (simp_all only: l0 h lim a_def [symmetric] simp_thms)
qed

definition series_room :: "registry \<Rightarrow> bool" where
  "series_room reg \<longleftrightarrow> registry_ok reg \<and> length (underlyings reg) < 2 ^ 31 \<and>
     length (specs reg) + 84084001 \<le> 2 ^ 31"

text \<open>A list of built sessions, given the caller's registry, as a source.\<close>

lemma source_of_built:
  assumes built: "list_all2 (built_ok cfg es reg u spot_id) ds ss" and ds: "sorted_wrt (<) ds"
    and src: "src = \<lparr>src_registry = reg,
      src_sessions = map (\<lambda>s. (yyyymmdd (ms_date s), s)) (map (\<lambda>s. s\<lparr>ms_registry := reg\<rparr>) ss)\<rparr>"
  shows "try_fold (\<lambda>s. add_session (Some s)) (map (\<lambda>s. s\<lparr>ms_registry := reg\<rparr>) ss)
      \<lparr>src_registry = reg, src_sessions = []\<rparr> = Inr src"
    and "sessions src = ds"
    and "d \<in> set ds \<Longrightarrow> \<exists>s. load src d = Some s \<and> session_ok (memory_data s) \<and> ms_date s = d \<and>
      ms_registry s = reg \<and> (\<forall>i. \<forall>q \<in> set (rows (ms_quotes s i)). lists cfg es d reg u spot_id i q)"
proof -
  have dates: "map ms_date ss = ds"
    using built by (induction rule: list_all2_induct) (auto simp: built_ok_def)
  then have keys: "map (\<lambda>s. yyyymmdd (ms_date s)) ss = map yyyymmdd ds"
    by (simp add: comp_def flip: dates)
  have sk: "sorted_wrt (<) (map yyyymmdd ds)"
    using ds by (simp add: sorted_wrt_map less_date_def [abs_def])
  show "try_fold (\<lambda>s. add_session (Some s)) (map (\<lambda>s. s\<lparr>ms_registry := reg\<rparr>) ss)
      \<lparr>src_registry = reg, src_sessions = []\<rparr> = Inr src"
    using sk by (subst add_sessions) (simp_all add: comp_def src keys)
  show "sessions src = ds"
    using dates by (simp add: sessions_def src comp_def)
  assume "d \<in> set ds"
  then obtain n where n: "n < length ds" "d = ds ! n" by (auto simp: in_set_conv_nth)
  then have b: "built_ok cfg es reg u spot_id d (ss ! n)" and ln: "n < length ss"
    using built by (auto simp: list_all2_conv_all_nth)
  define s where "s = (ss ! n)\<lparr>ms_registry := reg\<rparr>"
  have s: "memory_ok s" "ms_date s = d" "ms_registry s = reg" "ms_quotes s = ms_quotes (ss ! n)"
    using b by (auto simp: s_def built_ok_def memory_ok_def ms_quotes_def fun_eq_iff)
  have "distinct (map fst (src_sessions src))"
    using sk by (simp add: src comp_def keys strict_sorted_iff)
  moreover have "(yyyymmdd d, s) \<in> set (src_sessions src)"
    using ln s(2) by (auto simp: src s_def intro!: image_eqI [of _ _ "ss ! n"])
  ultimately have "load src d = Some s" by (simp add: load_def)
  then show "\<exists>s. load src d = Some s \<and> session_ok (memory_data s) \<and> ms_date s = d \<and>
      ms_registry s = reg \<and> (\<forall>i. \<forall>q \<in> set (rows (ms_quotes s i)). lists cfg es d reg u spot_id i q)"
    using s memory_session_ok [OF s(1)] b unfolding built_ok_def by auto
qed

text \<open>C37: for every configuration in \<open>series_ok\<close> the multi-session generator returns (its loops
  over dates, expiries and seconds end) and does not throw, whatever the seed and the
  distributions.  Its trading days are exactly the weekdays from the start date on, as many as
  asked for; the source serves exactly those dates, each with a well-formed session; and every row
  of a session lies within its hours and belongs to the index or to an option of an expiry listed
  that day: not past, and at most \<open>expiries_ahead\<close> weeks away.\<close>

theorem synthetic_series_is_sound:
  assumes "series_ok cfg" and "series_room reg"
  shows "\<exists>out reg' b. make_synthetic_series m lib cfg reg = Some (Inr (out, reg')) \<and>
    sr_dates out = dates_with trading (day_number (sq_start cfg)) b \<and>
    int (length (sr_dates out)) = sq_sessions cfg \<and> sessions (sr_source out) = sr_dates out \<and>
    (\<forall>d \<in> set (sr_dates out). \<exists>s. load (sr_source out) d = Some s \<and> session_ok (memory_data s) \<and>
       ms_date s = d \<and> ms_registry s = reg' \<and>
       (\<forall>i. \<forall>q \<in> set (rows (ms_quotes s i)).
          lists cfg (sr_expiries out) d reg' (sr_underlying out) (sr_spot out) i q))"
proof -
  obtain u reg1 where u: "intern_underlying ''NIFTY'' reg = (u, reg1)"
    by (cases "intern_underlying ''NIFTY'' reg")
  obtain spot_id reg2 where spot: "add (spot_spec u) reg1 = (spot_id, reg2)"
    by (cases "add (spot_spec u) reg1")
  have ok: "registry_ok reg" "length (underlyings reg) < 2 ^ 31" "length (specs reg) + 84084001 \<le> 2 ^ 31"
    using assms(2) by (simp_all add: series_room_def)
  have ok1: "registry_ok reg1" using intern_underlying_ok [OF ok(1,2) u] by simp
  have sp1: "specs reg1 = specs reg"
    using u by (auto simp: intern_underlying_def Let_def split: option.splits)
  have "length (specs reg1) < 2 ^ 31" using ok(3) sp1 by simp
  note a = instruments.intern_adds [OF ok1 this spot]
  obtain b c l where d: "trading_days (sq_sessions cfg) (sq_start cfg) [] = Some (dates_with trading (day_number (sq_start cfg)) b)"
    "int (length (dates_with trading (day_number (sq_start cfg)) b)) = sq_sessions cfg"
    "dates_with trading (day_number (sq_start cfg)) b \<noteq> []"
    "day_range (day_number (sq_start cfg))" "day_range b" "day_range c" "day_range l"
    "weekly_expiries (sq_expiry_weekday cfg)
      (add_days (last (dates_with trading (day_number (sq_start cfg)) b)) (to_i32 (7 * (sq_expiries_ahead cfg + 1))))
      (hd (dates_with trading (day_number (sq_start cfg)) b)) [] =
     Some (dates_with (\<lambda>x. (x + 4) mod 7 = sq_expiry_weekday cfg) c l)"
    by (rule series_dates [OF assms(1)])
  define ds where "ds = dates_with trading (day_number (sq_start cfg)) b"
  define es where "es = dates_with (\<lambda>x. (x + 4) mod 7 = sq_expiry_weekday cfg) c l"
  define st where "st = \<lparr>st_registry = reg2, st_rng = mt_seed (sq_seed cfg),
    st_step = normal_start lib, st_gap = normal_start lib,
    st_level = price_to_double (sq_spot_open cfg), st_built = []\<rparr>"
  have st: "st_registry st = reg2" "st_built st = []" by (simp_all add: st_def)
  have ahead: "0 \<le> sq_expiries_ahead cfg" "length ds \<le> 2000"
    using assms(1) d(2) by (auto simp: series_ok_def ds_def)
  have few: "int (length (filter (listed cfg x) es)) \<le> sq_expiries_ahead cfg + 1" if x: "x \<in> set ds" for x
  proof -
    obtain z where "x = date_from_days z" "day_range z"
      using x d(4,5) by (auto simp: ds_def dates_with_def day_range_def)
    then show ?thesis unfolding es_def by (simp add: few_listed [OF d(6,7) _ ahead(1)])
  qed
  have "length (specs reg2) + length ds * 42042 \<le> 2 ^ 31"
  proof -
    have "length ds * 42042 \<le> 2000 * 42042" using ahead(2) by (rule mult_le_mono1)
    then show ?thesis using a ok(3) sp1 by simp
  qed
  moreover have "by_key reg2 (key_of (spot_spec u)) = Some spot_id" using a by simp
  ultimately obtain st' where run: "run_days (series_day cfg m lib u spot_id es) ds st = Some (Inr st')"
    and built: "list_all2 (built_ok cfg es (st_registry st') u spot_id) ds (st_built st')"
    using series_days_built [OF assms(1), of st ds u spot_id es "[]" m lib] a few by (auto simp: st)
  have "sorted_wrt (<) ds" unfolding ds_def by (rule dates_with_sorted [OF d(4,5)])
  note src = source_of_built [OF built this refl]
  let ?src = "\<lparr>src_registry = st_registry st', src_sessions = map (\<lambda>s. (yyyymmdd (ms_date s), s))
    (map (\<lambda>s. s\<lparr>ms_registry := st_registry st'\<rparr>) (st_built st'))\<rparr>"
  have "make_synthetic_series m lib cfg reg = Some (Inr (\<lparr>sr_source = ?src, sr_underlying = u,
      sr_spot = spot_id, sr_dates = ds, sr_expiries = es\<rparr>, st_registry st'))"
    unfolding make_synthetic_series_def Let_def u spot prod.case d(1) option.case d(8)
    using d(3) run src(1) by (simp add: ds_def es_def st_def)
  then show ?thesis using src(2,3) d(2) unfolding ds_def by fastforce
qed


theorem synthetic_series_is_sound_witness:
  "series_ok default_series_config \<and>
   (\<exists>out reg'. make_synthetic_series flat_libm plain_distributions default_series_config
        empty_registry = Some (Inr (out, reg')) \<and> length (sessions (sr_source out)) = 10)"
proof -
  have d: "calendar_date (Date 20250630) \<and> day_range (day_number (Date 20250630)) \<and>
      day_range (day_number (Date 20250630) + 7000)" by code_simp
  then have c: "series_ok default_series_config"
    by (simp add: series_ok_def default_series_config_def)
  have r: "series_room empty_registry"
    by (simp add: series_room_def registry_ok_empty) (simp add: empty_registry_def)
  obtain out reg' where o: "make_synthetic_series flat_libm plain_distributions default_series_config
        empty_registry = Some (Inr (out, reg'))"
      "int (length (sr_dates out)) = sq_sessions default_series_config"
      "sessions (sr_source out) = sr_dates out"
    using synthetic_series_is_sound [OF c r] by blast
  have "length (sessions (sr_source out)) = 10"
    using o(2,3) by (simp add: default_series_config_def)
  then show ?thesis using c o(1) by blast
qed

end
