(* ===== verification/Tasks.thy ===== *)
theory Tasks
  imports EventLoop
begin

text \<open>
  \<open>StrategyTask\<close> and its awaiter (\<open>strategy.hpp\<close>): the handle the event loop drives.  The body of a
  coroutine, from one suspension to the next, is the parameter; the promise holds the condition it
  waits for.  Strategies made this way are compared by the locale \<open>same_strategy\<close>.
\<close>

section \<open>Tasks\<close>

text \<open>What one resumption of the body ends in: \<open>co_await\<close>, \<open>co_return\<close> or an exception.\<close>

datatype 's co_step = Await cond 's portfolio | Return 's portfolio | Throw exn

record 's task =
  tk_frame :: 's
  tk_pending :: cond
  tk_done :: bool

definition new_task :: "'s \<Rightarrow> 's task" where
  "new_task s = \<lparr>tk_frame = s, tk_pending = None, tk_done = False\<rparr>"

text \<open>\<open>resume\<close> clears the condition first, so only the body's next \<open>co_await\<close> can set it.\<close>

definition task_resume ::
    "(ctx \<Rightarrow> 's \<Rightarrow> portfolio \<Rightarrow> 's co_step) \<Rightarrow> ctx \<Rightarrow> 's task \<Rightarrow> portfolio \<Rightarrow> exn + 's task \<times> portfolio" where
  "task_resume body c tk p =
     (let tk1 = tk\<lparr>tk_pending := None\<rparr>
      in case body c (tk_frame tk1) p of
           Await w s q \<Rightarrow> Inr (tk1\<lparr>tk_frame := s, tk_pending := w\<rparr>, q)
         | Return s q \<Rightarrow> Inr (tk1\<lparr>tk_frame := s, tk_done := True\<rparr>, q)
         | Throw e \<Rightarrow> Inl e)"

definition coroutine ::
    "(ctx \<Rightarrow> 's) \<Rightarrow> (ctx \<Rightarrow> 's \<Rightarrow> portfolio \<Rightarrow> 's co_step) \<Rightarrow> 's task strategy" where
  "coroutine start body =
     \<lparr>st_start = (\<lambda>c. Some (new_task (start c))), st_resume = task_resume body, st_done = tk_done,
      st_pending = (\<lambda>_. tk_pending)\<rparr>"

section \<open>Equal strategies\<close>

text \<open>Two strategies whose frames correspond under \<open>h\<close> behave alike.\<close>

locale same_strategy =
  fixes S :: "'s strategy" and S' :: "'t strategy" and h :: "'s \<Rightarrow> 't"
  assumes start_same: "st_start S' c = map_option h (st_start S c)"
    and resume_same: "st_resume S' c (h s) p = map_sum id (map_prod h id) (st_resume S c s p)"
    and done_same: "st_done S' (h s) = st_done S s"
    and pending_same: "st_pending S' c (h s) = st_pending S c s"
begin

lemma resume_loop_same:
  "resume_loop S' mx c t g (h s, p, e, r) = map_sum id (map_prod h id) (resume_loop S mx c t g (s, p, e, r))"
proof (induction "nat (mx - g)" arbitrary: g s p e r rule: less_induct)
  case less
  have ih: "resume_loop S' mx c t (g + 1) (h s', p', e', r') =
      map_sum id (map_prod h id) (resume_loop S mx c t (g + 1) (s', p', e', r'))" if "\<not> mx < g + 1" for s' p' e' r'
    using that by (intro less) simp
  note unfold = resume_loop.simps [of S' mx c t g "h s"] resume_loop.simps [of S mx c t g s]
    done_same pending_same resume_same
  show ?case
  proof (cases "st_done S s \<or> \<not> cond_valid (st_pending S c s)")
    case False
    show ?thesis
    proof (cases "cond_eval (st_pending S c s) \<lparr>ev_market = cx_market c, ev_portfolio = p, ev_now = t\<rparr>")
      case (Inr b)
      show ?thesis
      proof (cases b)
        case True
        show ?thesis
        proof (cases "st_resume S c s p")
          case (Inr sp)
          obtain s' p' where "sp = (s', p')" by (cases sp)
          with Inr \<open>cond_eval _ _ = Inr b\<close> False True show ?thesis unfolding unfold by (simp add: ih)
        qed (use Inr False True in \<open>simp add: unfold\<close>)
      qed (use Inr False in \<open>simp add: unfold\<close>)
    qed (use False in \<open>simp add: unfold\<close>)
  qed (simp add: unfold)
qed

definition map_state :: "'s run_state \<Rightarrow> 't run_state" where
  "map_state st = \<lparr>rs_now = rs_now st, rs_portfolio = rs_portfolio st, rs_task = h (rs_task st),
     rs_next_margin = rs_next_margin st, rs_peak = rs_peak st, rs_steps = rs_steps st,
     rs_evals = rs_evals st, rs_resumes = rs_resumes st\<rparr>"

lemma map_state_simps [simp]:
  "rs_now (map_state st) = rs_now st" "rs_portfolio (map_state st) = rs_portfolio st"
  "rs_task (map_state st) = h (rs_task st)" "rs_peak (map_state st) = rs_peak st"
  "rs_steps (map_state st) = rs_steps st" "rs_resumes (map_state st) = rs_resumes st"
  by (simp_all add: map_state_def)

lemma run_step_same: "run_step S' cfg sd c t (map_state st) = map_sum id map_state (run_step S cfg sd c t st)"
  by (auto simp: run_step_def map_state_def resume_loop_same split: sum.splits)

lemma run_loop_same: "run_loop S' m cfg sd u sp = map_sum id map_state (run_loop S m cfg sd u sp)"
proof -
  have start: "run_start S' m cfg sd u sp = map_sum id map_state (run_start S m cfg sd u sp)"
    by (auto simp: run_start_def Let_def start_same resume_same map_state_def split: sum.splits option.splits)
  have "try_fold (run_step S' cfg sd c) ts (map_state st) = map_sum id map_state (try_fold (run_step S cfg sd c) ts st)"
    for c ts st
    by (induction ts arbitrary: st) (auto simp: run_step_same split: sum.splits)
  then show ?thesis by (auto simp: run_loop_def start split: sum.splits)
qed

lemma run_session_same: "run_session S' m cfg sd u sp = run_session S m cfg sd u sp"
  by (auto simp: run_session_def run_loop_same Let_def map_state_def done_same split: sum.splits)

end

end
