(* ===== verification/Bindings.thy ===== *)
theory Bindings
  imports Tasks Backtest Synthetic Gfdl VfdayRoundTrip Display Handles
begin

text \<open>
  \<open>bindings.cpp\<close>: the bridge that drives a Python coroutine from a C++ one, the data sets Python
  works on, and the conversions at the boundary.  Python is a parameter: a coroutine object has
  opaque states and a \<open>send\<close> that runs it to its next \<open>await\<close>, trading through the context it was
  given.  The declarations that only expose a member under a name are not definitions here.
\<close>

section \<open>Instrument ids as integers\<close>

definition to_ints :: "instrument_id list \<Rightarrow> int list" where
  "to_ints ids = map index_of ids"

definition to_ids :: "int list \<Rightarrow> instrument_id list" where
  "to_ids ints = map InstrumentId ints"

definition to_int_opt :: "instrument_id option \<Rightarrow> int option" where
  "to_int_opt i = map_option index_of i"

section \<open>The strategy bridge\<close>

text \<open>What a coroutine yields: a condition of the library, or anything else.\<close>

datatype py_object = CondObject cond | OtherObject

text \<open>
  What \<open>send\<close> ends in.  \<open>Raised e\<close> is any exception but \<open>StopIteration\<close>, which travels on as
  \<open>python_error\<close> and carries \<open>e\<close>.
\<close>

datatype py_sent = Yielded py_object | StopIteration | Raised exn

type_synonym 'g py_send = "ctx \<Rightarrow> 'g \<Rightarrow> portfolio \<Rightarrow> py_sent \<times> 'g \<times> portfolio"

definition await_error :: exn where
  "await_error = TypeError
     ''a strategy may only await a volforge condition; awaiting anything else (asyncio.sleep, an HTTP call) has no meaning inside a backtest''"

definition not_async_error :: exn where
  "not_async_error = TypeError
     (''strategy function must be `async def` '' @ [CHR 0xE2, CHR 0x80, CHR 0x94] @
      '' it returned something that is not a coroutine'')"

text \<open>\<open>None\<close>: the coroutine ran to completion.\<close>

definition send_to_coroutine ::
    "'g py_send \<Rightarrow> ctx \<Rightarrow> 'g \<Rightarrow> portfolio \<Rightarrow> exn + cond option \<times> 'g \<times> portfolio" where
  "send_to_coroutine send c g p =
     (case send c g p of
        (StopIteration, g1, p1) \<Rightarrow> Inr (None, g1, p1)
      | (Raised e, g1, p1) \<Rightarrow> Inl e
      | (Yielded OtherObject, g1, p1) \<Rightarrow> Inl await_error
      | (Yielded (CondObject w), g1, p1) \<Rightarrow> Inr (Some w, g1, p1))"

text \<open>One turn of the loop: it ends at the \<open>co_await\<close> of the condition sent back.\<close>

definition drive_python :: "'g py_send \<Rightarrow> ctx \<Rightarrow> 'g \<Rightarrow> portfolio \<Rightarrow> 'g co_step" where
  "drive_python send c g p =
     (case send_to_coroutine send c g p of
        Inl e \<Rightarrow> Throw e
      | Inr (None, g1, p1) \<Rightarrow> Return g1 p1
      | Inr (Some w, g1, p1) \<Rightarrow> Await w g1 p1)"

text \<open>
  The strategy of a Python callable: it raises, or returns an object without \<open>send\<close> (\<open>None\<close>), or a
  coroutine.  An exception of the call is kept in the frame until the first resumption, which
  follows it at once.
\<close>

definition make_strategy :: "(ctx \<Rightarrow> exn + 'g option) \<Rightarrow> 'g py_send \<Rightarrow> (exn + 'g) task strategy" where
  "make_strategy factory send =
     coroutine
       (\<lambda>c. case factory c of
              Inl e \<Rightarrow> Inl e
            | Inr None \<Rightarrow> Inl not_async_error
            | Inr (Some g) \<Rightarrow> Inr g)
       (\<lambda>c f p. case f of
              Inl e \<Rightarrow> Throw e
            | Inr g \<Rightarrow>
                (case drive_python send c g p of
                   Await w g1 q \<Rightarrow> Await w (Inr g1) q
                 | Return g1 q \<Rightarrow> Return (Inr g1) q
                 | Throw e \<Rightarrow> Throw e))"

section \<open>Data sets\<close>

datatype dataset_source = InMemory memory_source | InStore disk vfday_source

datatype dataset_warning = LoaderWarning load_warning | StoreWarning source_problem

record dataset =
  dt_registry :: registry
  dt_source :: "dataset_source option"
  dt_underlying :: underlying_id
  dt_spot :: instrument_id
  dt_dates :: "date list"
  dt_expiries :: "date list"
  dt_files_read :: nat
  dt_files_skipped :: nat
  dt_rows_read :: nat
  dt_rows_skipped :: nat
  dt_warnings :: "dataset_warning list"

definition new_dataset :: dataset where
  "new_dataset =
     \<lparr>dt_registry = empty_registry, dt_source = None, dt_underlying = UnderlyingId 0,
      dt_spot = invalid_instrument, dt_dates = [], dt_expiries = [], dt_files_read = 0,
      dt_files_skipped = 0, dt_rows_read = 0, dt_rows_skipped = 0, dt_warnings = []\<rparr>"

definition make_synthetic ::
    "libm \<Rightarrow> 'n distributions \<Rightarrow> series_config \<Rightarrow> (exn + dataset) option" where
  "make_synthetic m lib cfg =
     map_option (map_sum id (\<lambda>(s, reg). new_dataset
       \<lparr>dt_registry := reg, dt_source := Some (InMemory (sr_source s)),
        dt_underlying := sr_underlying s, dt_spot := sr_spot s, dt_dates := sr_dates s,
        dt_expiries := sr_expiries s, dt_rows_read := 0\<rparr>))
       (make_synthetic_series m lib cfg (dt_registry new_dataset))"

definition load_gfdl ::
    "string \<Rightarrow> dir_entry list option \<Rightarrow> qty \<Rightarrow> string \<Rightarrow> exn + dataset" where
  "load_gfdl directory listing lot only =
     (let opts = default_load_options\<lparr>lo_lot_size := lot, only_underlying := only\<rparr>
      in case load_gfdl_day (dt_registry new_dataset) directory listing opts of
           Inl e \<Rightarrow> Inl e
         | Inr (reg, gd) \<Rightarrow>
             if gd_session gd = None
             then Inl (RuntimeError (''no readable sessions found in '' @ directory))
             else map_sum id
               (\<lambda>src. new_dataset
                  \<lparr>dt_registry := reg, dt_source := Some (InMemory src),
                   dt_underlying := gd_underlying gd, dt_spot := invalid_instrument,
                   dt_dates := [gd_date gd], dt_expiries := gd_expiries gd,
                   dt_files_read := files_read gd, dt_files_skipped := files_skipped gd,
                   dt_rows_read := gd_rows_read gd, dt_rows_skipped := gd_rows_skipped gd,
                   dt_warnings := map LoaderWarning (warnings gd)\<rparr>)
               (add_session (gd_session gd) \<lparr>src_registry = reg, src_sessions = []\<rparr>))"

text \<open>The failure of \<open>open_store\<close>: the directory and the first problem, if any.\<close>

datatype no_sessions = NoSessions string "source_problem option"

text \<open>\<open>std::set\<close>: the distinct values in ascending order.\<close>

definition option_expiries :: "registry \<Rightarrow> date list" where
  "option_expiries reg =
     map Date (remdups_adj (sort (map (yyyymmdd \<circ> expiry)
       (filter (\<lambda>s. is_option s \<and> date_valid (expiry s)) (specs reg)))))"

definition open_store ::
    "string \<Rightarrow> (string \<times> string \<times> bool) list option \<Rightarrow> disk \<Rightarrow> no_sessions + dataset" where
  "open_store directory listing d =
     (let (reg, src) = new_source directory listing d (dt_registry new_dataset);
          dates = stored_sessions src
      in if dates = []
         then Inl (NoSessions directory (if vs_problems src = [] then None else Some (hd (vs_problems src))))
         else Inr (new_dataset
           \<lparr>dt_registry := reg, dt_source := Some (InStore d src),
            dt_underlying := (case find is_option (specs reg) of
               Some s \<Rightarrow> underlying s | None \<Rightarrow> dt_underlying new_dataset),
            dt_spot := invalid_instrument, dt_dates := dates, dt_expiries := option_expiries reg,
            dt_warnings := map StoreWarning (vs_problems src)\<rparr>))"

text \<open>
  The data source of a data set as the interface of the backtest.  A session of a store was opened
  with the store and stays in its cache; a later failure to open it again would be an exception.
\<close>

definition source_of :: "dataset \<Rightarrow> data_source" where
  "source_of data =
     (case dt_source data of
        Some (InMemory src) \<Rightarrow>
          \<lparr>ds_sessions = sessions src, ds_load = (\<lambda>d. Inr (map_option memory_data (load src d)))\<rparr>
      | Some (InStore dk src) \<Rightarrow>
          \<lparr>ds_sessions = stored_sessions src,
           ds_load = (\<lambda>d. case load_stored dk d (dt_registry data, src) of
              ((reg, _), Inr s) \<Rightarrow> Inr (map_option (stored_data reg dk) s)
            | (_, Inl _) \<Rightarrow> Inl (RuntimeError ''vfday''))\<rparr>
      | None \<Rightarrow> \<lparr>ds_sessions = [], ds_load = (\<lambda>_. Inr None)\<rparr>)"

definition py_run_backtest ::
    "libm \<Rightarrow> dataset \<Rightarrow> (ctx \<Rightarrow> exn + 'g option) \<Rightarrow> 'g py_send \<Rightarrow> backtest_config \<Rightarrow> exn + backtest_result" where
  "py_run_backtest m data factory send cfg =
     run_backtest (make_strategy factory send) m cfg (source_of data) (dt_underlying data) (dt_spot data) []"

text \<open>Properties of \<open>Data\<close> in Python.\<close>

definition dt_has_spot :: "dataset \<Rightarrow> bool" where
  "dt_has_spot data \<longleftrightarrow> valid (dt_spot data)"

definition dt_len :: "dataset \<Rightarrow> nat" where
  "dt_len data = length (dt_dates data)"

definition dt_instruments :: "dataset \<Rightarrow> nat" where
  "dt_instruments data = length (specs (dt_registry data))"

definition dt_repr :: "dataset \<Rightarrow> string" where
  "dt_repr data =
     (if dt_dates data = [] then ''Data(empty)''
      else let period = (if length (dt_dates data) = 1 then date_to_string (hd (dt_dates data))
                 else date_to_string (hd (dt_dates data)) @ '' to '' @ date_to_string (last (dt_dates data)))
           in ''Data('' @ show_nat (length (dt_dates data)) @ '' sessions, '' @ period @ '', '' @
              show_nat (dt_instruments data) @ '' instruments)'')"

section \<open>Conversions at the boundary\<close>

definition py_strikes :: "chain_view \<Rightarrow> dbl list" where
  "py_strikes v = map price_to_double (cv_strikes v)"

definition py_atm_strike :: "ctx \<Rightarrow> chain_view \<Rightarrow> dbl option" where
  "py_atm_strike c v = map_option price_to_double (atm_strike c v)"

definition py_strike_at :: "ctx \<Rightarrow> chain_view \<Rightarrow> int \<Rightarrow> dbl option" where
  "py_strike_at c v offset = map_option price_to_double (strike_at c v offset)"

definition py_option :: "ctx \<Rightarrow> chain_view \<Rightarrow> dbl \<Rightarrow> right \<Rightarrow> int option" where
  "py_option c v k r = to_int_opt (chain_option c v (price_from_double k) r)"

definition py_straddle :: "ctx \<Rightarrow> chain_view \<Rightarrow> int \<Rightarrow> int list" where
  "py_straddle c v off = to_ints (straddle c v off)"

definition py_strangle :: "ctx \<Rightarrow> chain_view \<Rightarrow> int \<Rightarrow> int list" where
  "py_strangle c v w = to_ints (strangle c v w)"

definition py_by_delta :: "ctx \<Rightarrow> chain_view \<Rightarrow> dbl \<Rightarrow> right \<Rightarrow> exn + int option" where
  "py_by_delta c v target r = map_sum id to_int_opt (by_delta c v target r)"

definition py_strangle_by_delta :: "ctx \<Rightarrow> chain_view \<Rightarrow> dbl \<Rightarrow> exn + int list" where
  "py_strangle_by_delta c v t = map_sum id to_ints (strangle_by_delta c v t)"

definition py_spot_price :: "ctx \<Rightarrow> dbl option" where
  "py_spot_price c = map_option price_to_double (spot_price c)"

definition py_greeks :: "ctx \<Rightarrow> int \<Rightarrow> exn + greek_set option" where
  "py_greeks c i = greeks c (InstrumentId i)"

definition py_bars :: "ctx \<Rightarrow> int \<Rightarrow> int \<Rightarrow> bar_price \<Rightarrow> exn + bar_series" where
  "py_bars c i secs src = ctx_bars c (InstrumentId i) secs src"

definition py_sell :: "ctx \<Rightarrow> int list \<Rightarrow> int \<Rightarrow> string \<Rightarrow> portfolio \<Rightarrow> exn + int option \<times> portfolio" where
  "py_sell c legs lots lbl p = sell c (to_ids legs) lots lbl p"

definition py_buy :: "ctx \<Rightarrow> int list \<Rightarrow> int \<Rightarrow> string \<Rightarrow> portfolio \<Rightarrow> exn + int option \<times> portfolio" where
  "py_buy c legs lots lbl p = buy c (to_ids legs) lots lbl p"

record instrument_dict =
  id_strike :: dbl
  id_right :: right
  id_expiry :: date
  id_lot_size :: qty
  id_is_option :: bool

definition py_instrument :: "ctx \<Rightarrow> int \<Rightarrow> exn + instrument_dict" where
  "py_instrument c i =
     map_sum id
       (\<lambda>s. \<lparr>id_strike = price_to_double (strike s), id_right = right_of s, id_expiry = expiry s,
             id_lot_size = lot_size s, id_is_option = is_option s\<rparr>)
       (spec (cx_registry c) (InstrumentId i))"

text \<open>The setter of the brokerage.\<close>

definition set_brokerage :: "dbl \<Rightarrow> rates \<Rightarrow> rates" where
  "set_brokerage v r = r\<lparr>brokerage_per_order := Money (llround (fmul v (Fin 100)))\<rparr>"

text \<open>The dictionary of a parsed symbol; \<open>None\<close> when it holds only \<open>ok = False\<close>.\<close>

definition py_parse_symbol :: "string \<Rightarrow> (string \<times> date \<times> dbl \<times> right) option" where
  "py_parse_symbol ticker =
     (let s = parse_gfdl_symbol ticker
      in if ps_ok s
         then Some (ps_underlying s, ps_expiry s, price_to_double (ps_strike s), ps_right s)
         else None)"

end
