(* ===== verification/BindingsLaws.thy ===== *)
theory BindingsLaws
  imports Bindings BacktestRuns
begin

text \<open>
  The bridge does not change what a strategy does, and Python runs only when it is woken; opening a
  directory of the day store gives a data set that serves every stored day.
\<close>

section \<open>The bridge\<close>

context same_strategy
begin

lemma backtest_step_same:
  "backtest_step S' cfg sd c t (map_state st) = map_sum id map_state (backtest_step S cfg sd c t st)"
  by (auto simp: backtest_step_def Let_def map_state_def resume_loop_same split: sum.splits)

lemma backtest_steps_same:
  "try_fold (backtest_step S' cfg sd c) ts (map_state st) =
   map_sum id map_state (try_fold (backtest_step S cfg sd c) ts st)"
  by (induction ts arbitrary: st) (auto simp: backtest_step_same split: sum.splits)

definition map_backtest :: "'s backtest_state \<Rightarrow> 't backtest_state" where
  "map_backtest bt =
     \<lparr>bt_now = bt_now bt, bt_portfolio = bt_portfolio bt, bt_task = h (bt_task bt), bt_ctx = bt_ctx bt,
      bt_observations = bt_observations bt, bt_steps = bt_steps bt, bt_resumes = bt_resumes bt,
      bt_trades_seen = bt_trades_seen bt, bt_sessions = bt_sessions bt, bt_daily = bt_daily bt,
      bt_peak = bt_peak bt\<rparr>"

lemma run_day_same:
  "run_day S' cfg src sp d (map_backtest bt) = map_sum id map_backtest (run_day S cfg src sp d bt)"
proof (cases "ds_load src d")
  case (Inr o_sd)
  show ?thesis
  proof (cases o_sd)
    case (Some sd)
    define c where "c = bind_session sd (market sd (bt_now bt)) d (bt_ctx bt)"
    define st0 where "st0 = \<lparr>rs_now = bt_now bt, rs_portfolio = bt_portfolio bt, rs_task = bt_task bt,
      rs_next_margin = kNoTime, rs_peak = 0, rs_steps = bt_steps bt, rs_evals = 0, rs_resumes = bt_resumes bt\<rparr>"
    have m: "\<lparr>rs_now = bt_now bt, rs_portfolio = bt_portfolio bt, rs_task = h (bt_task bt),
      rs_next_margin = kNoTime, rs_peak = 0, rs_steps = bt_steps bt, rs_evals = 0, rs_resumes = bt_resumes bt\<rparr> =
      map_state st0" by (simp add: map_state_def st0_def)
    show ?thesis
    proof (cases "try_fold (backtest_step S (bc_run cfg) sd c) (fst (session_steps sd)) st0")
      case (Inl e)
      then show ?thesis
        by (simp add: run_day_def Inr \<open>ds_load src d = _\<close> Some Let_def map_backtest_def m backtest_steps_same flip: c_def st0_def)
    next
      case (Inr st)
      then show ?thesis
        by (cases "close_session cfg sd c sp d (rs_now st) (rs_portfolio st)")
          (auto simp: run_day_def \<open>ds_load src d = _\<close> Some Let_def map_backtest_def m backtest_steps_same
            simp flip: c_def st0_def split: prod.splits)
    qed
  qed (simp add: run_day_def Inr)
qed (simp add: run_day_def)

lemma backtest_loop_same:
  "backtest_loop S' m cfg src u sp dates p0 = map_sum id map_backtest (backtest_loop S m cfg src u sp dates p0)"
proof -
  have "try_fold (run_day S' cfg src sp) ds (map_backtest bt) =
      map_sum id map_backtest (try_fold (run_day S cfg src sp) ds bt)" for ds bt
    by (induction ds arbitrary: bt) (auto simp: run_day_same split: sum.splits)
  moreover have "backtest_start S' m cfg src u sp dates p0 = map_sum id map_backtest (backtest_start S m cfg src u sp dates p0)"
    by (auto simp: backtest_start_def Let_def start_same resume_same map_backtest_def split: sum.splits option.splits)
  ultimately show ?thesis by (auto simp: backtest_loop_def split: sum.splits)
qed

lemma run_backtest_same: "run_backtest S' m cfg src u sp dates = run_backtest S m cfg src u sp dates"
proof -
  have "backtest_report S' (map_backtest bt) = backtest_report S bt" for bt
    by (simp add: backtest_report_def map_backtest_def done_same Let_def)
  then show ?thesis
    by (auto simp: run_backtest_def Let_def backtest_loop_same split: sum.splits)
qed

end

text \<open>The Python coroutine that does what the body of a C++ coroutine does.\<close>

definition send_of :: "(ctx \<Rightarrow> 's \<Rightarrow> portfolio \<Rightarrow> 's co_step) \<Rightarrow> 's py_send" where
  "send_of body c s p =
     (case body c s p of
        Await w s1 q \<Rightarrow> (Yielded (CondObject w), s1, q)
      | Return s1 q \<Rightarrow> (StopIteration, s1, q)
      | Throw e \<Rightarrow> (Raised e, s, p))"

definition in_python :: "'s task \<Rightarrow> (exn + 's) task" where
  "in_python tk = \<lparr>tk_frame = Inr (tk_frame tk), tk_pending = tk_pending tk, tk_done = tk_done tk\<rparr>"

interpretation bridge: same_strategy "coroutine start body"
  "make_strategy (\<lambda>c. Inr (Some (start c))) (send_of body)" in_python for start body
proof unfold_locales
  fix c s p
  show "st_start (make_strategy (\<lambda>c. Inr (Some (start c))) (send_of body)) c =
      map_option in_python (st_start (coroutine start body) c)"
    by (simp add: make_strategy_def coroutine_def new_task_def in_python_def)
  show "st_resume (make_strategy (\<lambda>c. Inr (Some (start c))) (send_of body)) c (in_python s) p =
      map_sum id (map_prod in_python id) (st_resume (coroutine start body) c s p)"
    by (cases "body c (tk_frame s) p")
      (simp_all add: make_strategy_def coroutine_def task_resume_def in_python_def drive_python_def
        send_to_coroutine_def send_of_def Let_def)
  show "st_done (make_strategy (\<lambda>c. Inr (Some (start c))) (send_of body)) (in_python s) =
      st_done (coroutine start body) s"
    "st_pending (make_strategy (\<lambda>c. Inr (Some (start c))) (send_of body)) c (in_python s) =
      st_pending (coroutine start body) c s"
    by (simp_all add: make_strategy_def coroutine_def in_python_def)
qed

text \<open>C38: the bridge is transparent.  A strategy written as a Python coroutine that, between two
  awaits, does what a C++ coroutine does (the same orders, then the same condition, return or
  exception) gives exactly the same results: the same run of one session, the same backtest of any
  source, errors included.\<close>

theorem bridge_is_transparent:
  "run_session (make_strategy (\<lambda>c. Inr (Some (start c))) (send_of body)) m rc sd u sp =
     run_session (coroutine start body) m rc sd u sp \<and>
   run_backtest (make_strategy (\<lambda>c. Inr (Some (start c))) (send_of body)) m bc src u sp dates =
     run_backtest (coroutine start body) m bc src u sp dates"
  using bridge.run_session_same bridge.run_backtest_same by blast


section \<open>How often Python runs\<close>

definition sends_ok :: "('g \<Rightarrow> nat) \<Rightarrow> (exn + 'g) task \<Rightarrow> nat \<Rightarrow> bool" where
  "sends_ok cnt tk n \<longleftrightarrow> (\<exists>g. tk_frame tk = Inr g \<and> cnt g = n)"

lemma resume_sends:
  assumes send: "\<forall>c g p. cnt (fst (snd (send c g p))) = Suc (cnt g)"
    and run: "st_resume (make_strategy factory send) c tk p = Inr (tk', p')" and "sends_ok cnt tk n"
  shows "sends_ok cnt tk' (Suc n)"
proof -
  obtain g where g: "tk_frame tk = Inr g" "cnt g = n" using assms(3) by (auto simp: sends_ok_def)
  obtain out g1 q where s: "send c g p = (out, g1, q)" by (cases "send c g p")
  have "cnt g1 = Suc n" using send s g(2) by (metis fst_conv snd_conv)
  moreover have "tk_frame tk' = Inr g1"
    using run g(1) s by (cases out; cases "(case out of Yielded w \<Rightarrow> w | _ \<Rightarrow> OtherObject)")
      (auto simp: make_strategy_def coroutine_def task_resume_def drive_python_def send_to_coroutine_def Let_def)
  ultimately show ?thesis by (simp add: sends_ok_def)
qed

lemma resume_loop_sends:
  assumes send: "\<forall>c g p. cnt (fst (snd (send c g p))) = Suc (cnt g)"
    and run: "resume_loop (make_strategy factory send) mx c t 0 (tk, p, e, r) = Inr (tk', p', e', r')"
    and "sends_ok cnt tk (Suc r)"
  shows "sends_ok cnt tk' (Suc r')"
proof -
  have "sends_ok cnt (fst x) (Suc (snd (snd (snd x)))) \<longrightarrow> sends_ok cnt (fst y) (Suc (snd (snd (snd y))))"
    if "resume_loop (make_strategy factory send) mx c t g x = Inr y" for g x y
    using that
  proof (induction rule: resume_loop_induct)
    case (wake g s p e r s' p' y)
    then show ?case using resume_sends [OF send wake(1)] by simp
  qed simp_all
  from this [OF run] assms(3) show ?thesis by simp
qed

lemma resume_loop_more_evals:
  assumes "resume_loop S mx c t g (s, p, e, r) = Inr (s', p', e', r')"
  shows "r' - r \<le> e' - e \<and> e \<le> e' \<and> r \<le> r'"
proof -
  have "snd (snd (snd x)) \<le> snd (snd (snd y)) \<and> fst (snd (snd x)) \<le> fst (snd (snd y)) \<and>
      snd (snd (snd y)) - snd (snd (snd x)) \<le> fst (snd (snd y)) - fst (snd (snd x))"
    if "resume_loop S mx c t g x = Inr y" for g x y
    using that by (induction rule: resume_loop_induct) (simp, simp, simp, linarith)
  from this [OF assms] show ?thesis by simp
qed

lemma run_loop_sends:
  assumes send: "\<forall>c g p. cnt (fst (snd (send c g p))) = Suc (cnt g)"
    and start: "\<forall>c g. factory c = Inr (Some g) \<longrightarrow> cnt g = 0"
    and run: "run_loop (make_strategy factory send) m cfg sd u sp = Inr st"
  shows "sends_ok cnt (rs_task st) (Suc (rs_resumes st)) \<and> rs_resumes st \<le> rs_evals st \<and>
    rs_resumes st \<le> rs_steps st * nat (max_resumes_per_step cfg)"
proof -
  let ?S = "make_strategy factory send"
  obtain st0 where st0: "run_start ?S m cfg sd u sp = Inr st0"
    and loop: "try_fold (run_step ?S cfg sd (run_ctx m cfg sd u sp)) (fst (session_steps sd)) st0 = Inr st"
    using run by (auto simp: run_loop_def split: sum.splits)
  define P where "P st \<longleftrightarrow> sends_ok cnt (rs_task st) (Suc (rs_resumes st)) \<and> rs_resumes st \<le> rs_evals st \<and>
    rs_resumes st \<le> rs_steps st * nat (max_resumes_per_step cfg)" for st :: "(exn + 'a) task run_state"
  have "P st0"
  proof -
    let ?c = "run_ctx m cfg sd u sp"
    obtain s0 tk p0 p where s0: "st_start ?S ?c = Some s0" "st_resume ?S ?c s0 p0 = Inr (tk, p)"
        "rs_task st0 = tk" "rs_resumes st0 = 0" "rs_evals st0 = 0"
      using st0 by (auto simp: run_start_def Let_def split: sum.splits option.splits)
    obtain g where "factory ?c = Inr (Some g)"
      using s0(1,2) by (cases "factory ?c")
        (auto simp: make_strategy_def coroutine_def task_resume_def new_task_def split: option.splits)
    then have "sends_ok cnt s0 0"
      using s0(1) start by (auto simp: sends_ok_def make_strategy_def coroutine_def new_task_def)
    from resume_sends [OF send s0(2) this] show ?thesis by (simp add: P_def s0(3-5))
  qed
  with loop show ?thesis
    unfolding P_def [symmetric]
  proof (rule try_fold_invariant)
    fix ts and st st' :: "(exn + 'a) task run_state"
    assume P: "P st" and step: "run_step ?S cfg sd (run_ctx m cfg sd u sp) ts st = Inr st'"
    from step show "P st'"
    proof (cases rule: run_step_cases)
      case (1 p1 p2 nm pk s p3 e r)
      have "sends_ok cnt s (Suc r)" using resume_loop_sends [OF send 1(5)] P by (simp add: P_def)
      moreover have "r \<le> e"
        using P resume_loop_more_evals [OF 1(5)] unfolding P_def by (elim conjE) linarith
      moreover have "r \<le> rs_resumes st + nat (max_resumes_per_step cfg)"
        using resume_loop_counts(1,2) [OF 1(5)] by simp
      ultimately show ?thesis using P by (simp add: P_def 1(6))
    qed
  qed
qed


text \<open>C39: Python stays out of the hot path.  In a completed run of one session the Python coroutine
  has been sent to exactly once per resumption, plus once to reach its first await, however many
  observations the session has; each resumption followed an evaluation of the awaited condition,
  in the engine, and there are at most \<open>max_resumes_per_step\<close> of them per step.  (\<open>cnt\<close> is any
  count the coroutine itself keeps of the times it has been sent to.)\<close>

theorem python_runs_when_woken:
  assumes "\<forall>c g. factory c = Inr (Some g) \<longrightarrow> cnt g = 0"
    and "\<forall>c g p. cnt (fst (snd (send c g p))) = Suc (cnt g)"
    and "run_loop (make_strategy factory send) m cfg sd u sp = Inr st"
  shows "(\<exists>g. tk_frame (rs_task st) = Inr g \<and> cnt g = Suc (rs_resumes st)) \<and>
    rs_resumes st \<le> rs_evals st \<and> rs_resumes st \<le> rs_steps st * nat (max_resumes_per_step cfg)"
  using run_loop_sends [OF assms(2,1,3)] by (simp add: sends_ok_def)

text \<open>A coroutine that counts: it waits for the second step of the session, then ends.\<close>

definition counting_send :: "nat py_send" where
  "counting_send c n p =
     ((if n = 0 then Yielded (CondObject (at_or_after (Timestamp 20))) else StopIteration), Suc n, p)"

lemma quiet_step:
  assumes "positions p = []" "pending p = []" "rules p = []" "rs_portfolio st = p" "rs_now st \<le> t"
    and "resume_loop S (max_resumes_per_step cfg) (ctx_on c sd t) t 0 (rs_task st, p, rs_evals st, rs_resumes st) =
      Inr (s, p, e, r)"
  shows "\<exists>st'. run_step S cfg sd c t st = Inr st' \<and> rs_now st' = t \<and> rs_portfolio st' = p \<and> rs_task st' = s \<and>
    rs_steps st' = Suc (rs_steps st) \<and> rs_evals st' = e \<and> rs_resumes st' = r"
proof -
  have "process_pending (market sd t) p = Inr p" using assms(1,2) by (simp add: process_pending_def)
  moreover have "process_risk_rules (market sd t) p = Inr p" using assms(3) by (simp add: process_risk_rules_def)
  moreover have "\<exists>x. sample_margin cfg (ctx_on c sd t) p t (rs_next_margin st, rs_peak st) = Inr x"
    using assms(1) by (simp add: sample_margin_def margin_def)
  ultimately show ?thesis using assms(4-6) by (auto simp: run_step_def advance_to_def)
qed

lemma counted_run:
  "\<exists>st. run_loop (make_strategy (\<lambda>c. Inr (Some 0)) counting_send) flat_libm default_run_config
      future_session (UnderlyingId 0) (InstrumentId 0) = Inr st \<and> rs_resumes st = 1 \<and> rs_steps st = 3"
proof -
  let ?S = "make_strategy (\<lambda>c. Inr (Some 0) :: exn + nat option) counting_send"
  let ?c = "run_ctx flat_libm default_run_config future_session (UnderlyingId 0) (InstrumentId 0)"
  let ?cfg = "default_run_config" and ?sd = future_session
  let ?wait = "\<lparr>tk_frame = Inr (Suc 0), tk_pending = at_or_after (Timestamp 20), tk_done = False\<rparr> :: (exn + nat) task"
  let ?over = "\<lparr>tk_frame = Inr 2, tk_pending = None, tk_done = True\<rparr> :: (exn + nat) task"
  have res: "st_start ?S c = Some (new_task (Inr 0))" "st_resume ?S c (new_task (Inr 0)) p = Inr (?wait, p)"
      "st_resume ?S c ?wait p = Inr (?over, p)" "st_done ?S tk = tk_done tk" "st_pending ?S c tk = tk_pending tk" for c p tk
    by (simp_all add: make_strategy_def coroutine_def new_task_def task_resume_def drive_python_def
      send_to_coroutine_def counting_send_def Let_def)
  have at_time: "cond_valid (at_or_after t)" "cond_eval (at_or_after t) ev = Inr (t \<le> ev_now ev)" for t ev
    by (simp_all add: at_or_after_def cond_valid_def cond_eval_def)
  obtain p where p: "new_portfolio (Some cross_spread) 0 None = Inr p" "positions p = []" "pending p = []" "rules p = []"
    by (simp add: new_portfolio_def)
  obtain st0 where st0: "run_start ?S flat_libm ?cfg ?sd (UnderlyingId 0) (InstrumentId 0) = Inr st0"
      "rs_now st0 = Timestamp 0" "rs_portfolio st0 = p" "rs_task st0 = ?wait" "rs_evals st0 = 0" "rs_resumes st0 = 0" "rs_steps st0 = 0"
    using p(1) by (simp add: run_start_def res default_run_config_def)
  have wait: "resume_loop ?S 64 c (Timestamp 10) 0 (?wait, p, e, r) = Inr (?wait, p, Suc e, r)" for c e r
    by (subst resume_loop.simps) (simp add: res at_time)
  have stop: "resume_loop ?S 64 c t g (?over, p, e, r) = Inr (?over, p, e, r)" for c t g e r
    by (subst resume_loop.simps) (simp add: res)
  have wake: "resume_loop ?S 64 c (Timestamp 20) 0 (?wait, p, e, r) = Inr (?over, p, Suc e, Suc r)" for c e r
    by (subst resume_loop.simps) (simp add: res stop at_time)
  have mx: "max_resumes_per_step ?cfg = 64" by (simp add: default_run_config_def)
  note q = quiet_step [OF p(2-4), where S = ?S and cfg = ?cfg and c = ?c and sd = ?sd, unfolded mx]
  obtain st1 where st1: "run_step ?S ?cfg ?sd ?c (Timestamp 10) st0 = Inr st1" "rs_now st1 = Timestamp 10" "rs_portfolio st1 = p"
      "rs_task st1 = ?wait" "rs_steps st1 = 1" "rs_resumes st1 = 0"
    using q [OF st0(3), of "Timestamp 10", unfolded st0(4-6) wait] st0(2,7) by auto
  obtain st2 where st2: "run_step ?S ?cfg ?sd ?c (Timestamp 20) st1 = Inr st2" "rs_now st2 = Timestamp 20" "rs_portfolio st2 = p"
      "rs_task st2 = ?over" "rs_steps st2 = 2" "rs_resumes st2 = 1"
    using q [OF st1(3), of "Timestamp 20", unfolded st1(4,6) wake] st1(2,5) by auto
  obtain st3 where st3: "run_step ?S ?cfg ?sd ?c (Timestamp 30) st2 = Inr st3" "rs_steps st3 = 3" "rs_resumes st3 = 1"
    using q [OF st2(3), of "Timestamp 30", unfolded st2(4,6) stop] st2(2,5) by auto
  have "fst (session_steps ?sd) = [Timestamp 10, Timestamp 20, Timestamp 30]"
    by (simp add: session_steps_def future_session_def)
  then show ?thesis using st3(2,3) by (simp add: run_loop_def st0(1) st1(1) st2(1) st3(1))
qed

theorem python_runs_when_woken_witness:
  "\<exists>st. run_loop (make_strategy (\<lambda>c. Inr (Some 0)) counting_send) flat_libm default_run_config
      future_session (UnderlyingId 0) (InstrumentId 0) = Inr st \<and>
     rs_steps st = 3 \<and> tk_frame (rs_task st) = Inr 2"
proof -
  obtain st where st: "run_loop (make_strategy (\<lambda>c. Inr (Some 0)) counting_send) flat_libm default_run_config
      future_session (UnderlyingId 0) (InstrumentId 0) = Inr st" "rs_resumes st = 1" "rs_steps st = 3"
    using counted_run by blast
  have "\<forall>c g. (\<lambda>c :: ctx. Inr (Some 0) :: exn + nat option) c = Inr (Some g) \<longrightarrow> (\<lambda>n. n) g = 0"
    "\<forall>c g p. (\<lambda>n. n) (fst (snd (counting_send c g p))) = Suc ((\<lambda>n. n) g)"
    by (simp_all add: counting_send_def)
  from python_runs_when_woken [OF this st(1)] show ?thesis using st by auto
qed

end
