(* ===== verification/StoreLaws.thy ===== *)
theory StoreLaws
  imports BindingsLaws
begin

text \<open>
  A directory of stored days as Python opens it: whatever was written for distinct dates is indexed
  without a problem and served, day by day, as it was written, all days against one registry.
\<close>

section \<open>Opening one file\<close>

lemma open_entry_growth:
  assumes "open_entry h raw e reg s = (reg', Inr s')"
  shows "length (specs reg') \<le> Suc (length (specs reg)) \<and>
    length (underlyings reg') \<le> Suc (length (underlyings reg)) \<and>
    length (vf_instruments s') = Suc (length (vf_instruments s))"
proof -
  have i: "specs reg1 = specs reg \<and> length (underlyings reg1) \<le> Suc (length (underlyings reg))"
    if "intern_underlying name reg = (u, reg1)" for name u reg1
    using that by (auto simp: intern_underlying_def Let_def split: option.splits)
  have a: "length (specs reg2) \<le> Suc (length (specs reg1)) \<and> underlyings reg2 = underlyings reg1"
    if "add sp reg1 = (x, reg2)" for sp x reg1 reg2
    using that by (auto simp: add_def Let_def split: option.splits)
  from assms obtain name u reg1 sp x where "intern_underlying name reg = (u, reg1)" "add sp reg1 = (x, reg')"
    "vf_instruments s' = vf_instruments s @ [x]"
    by (auto simp: open_entry_def Let_def split: if_splits prod.splits)
  then show ?thesis using i a by fastforce
qed

lemma open_loop_growth:
  "open_loop h raw es reg s = (reg', Inr s') \<Longrightarrow>
   length (specs reg') \<le> length (specs reg) + length es \<and>
   length (underlyings reg') \<le> length (underlyings reg) + length es \<and>
   length (vf_instruments s') = length (vf_instruments s) + length es"
proof (induction es arbitrary: reg s)
  case (Cons e es)
  then obtain reg1 s1 where 1: "open_entry h raw e reg s = (reg1, Inr s1)" "open_loop h raw es reg1 s1 = (reg', Inr s')"
    by (auto split: prod.splits sum.splits)
  then show ?case using Cons.IH [OF 1(2)] open_entry_growth [OF 1(1)] by simp
qed simp

lemma open_growth:
  assumes "vfday_open path d reg = (reg', Inr s)"
  shows "length (specs reg') \<le> length (specs reg) + length (vf_instruments s) \<and>
    length (underlyings reg') \<le> length (underlyings reg) + length (vf_instruments s)"
proof -
  from assms obtain h raw es s0 where "open_loop h raw es reg s0 = (reg', Inr s)" "vf_instruments s0 = []"
    by (auto simp: vfday_open_def open_bytes_def Let_def split: option.splits if_splits prod.splits sum.splits)
  from open_loop_growth [OF this(1)] this(2) show ?thesis by simp
qed

text \<open>The session of a stored day, opened against a registry that may have grown since.\<close>

definition opened :: "session_data \<Rightarrow> disk \<Rightarrow> registry \<Rightarrow> vfday_session \<Rightarrow> bool" where
  "opened sd d reg s \<longleftrightarrow> (\<exists>w. intact sd w d s) \<and> vf_date s = sd_date sd \<and>
     vf_total_rows s = sd_total_observations sd \<and> vf_timeline s = distinct_times sd \<and>
     (\<forall>n < length (stored_ids sd). same_as sd reg (stored_ids sd ! n) (vf_instruments s ! n))"

lemma opened_grown: "grown reg reg' \<Longrightarrow> opened sd d reg s \<Longrightarrow> opened sd d reg' s"
  using grown_same_as unfolding opened_def by blast

text \<open>Every contract of the registry either was in it or is described as the day describes it.\<close>

definition registers :: "session_data \<Rightarrow> registry \<Rightarrow> registry \<Rightarrow> bool" where
  "registers sd reg reg' \<longleftrightarrow> (\<forall>x sp. spec reg' x = Inr sp \<longrightarrow> spec reg x = Inr sp \<or>
     (\<exists>e. spec reg x = Inl e) \<and> (\<exists>i \<in> set (stored_ids sd). same_as sd reg' i x \<and> exactly_as sd reg' i x))"

lemma reopened_registers:
  assumes "reopened sd w reg (length (stored_ids sd)) reg' s"
  shows "registers sd reg reg'"
  unfolding registers_def
proof (intro allI impI)
  fix x sp
  assume x: "spec reg' x = Inr sp"
  note R = assms [unfolded reopened_def]
  show "spec reg x = Inr sp \<or>
    (\<exists>e. spec reg x = Inl e) \<and> (\<exists>i \<in> set (stored_ids sd). same_as sd reg' i x \<and> exactly_as sd reg' i x)"
  proof (cases "spec reg x")
    case (Inr known)
    moreover have "grown reg reg'" using R by blast
    ultimately show ?thesis using x spec_prefix by (fastforce simp: grown_def)
  next
    case (Inl e)
    then have j: "length (specs reg) \<le> nat (index_of x) \<and> nat (index_of x) < length (specs reg')" "x = InstrumentId (int (nat (index_of x)))"
      using x by (auto simp: spec_def instrument_id.expand split: if_splits)
    then have "x \<in> set (vf_instruments s)" using R by metis
    then obtain n where n: "n < length (stored_ids sd)" "vf_instruments s ! n = x" using R by (auto simp: in_set_conv_nth)
    then have "same_as sd reg' (stored_ids sd ! n) x \<and> exactly_as sd reg' (stored_ids sd ! n) x"
      using R reopened_description [OF assms n(1)] Inl by auto
    then show ?thesis using Inl n(1) nth_mem by blast
  qed
qed

text \<open>File \<open>p\<close> of the disk is what the writer wrote for \<open>sd\<close>.\<close>

definition stored_at :: "disk \<Rightarrow> string \<Rightarrow> session_data \<Rightarrow> bool" where
  "stored_at d p sd \<longleftrightarrow> storable sd \<and>
     (\<exists>verify d0 d1 stats. write_vfday sd p verify d0 = Inr (d1, stats) \<and> disk_files d p = disk_files d1 p)"

lemma open_stored_at:
  assumes "stored_at d p sd" and "registry_ok reg" and "room_left (length (sd_instruments sd)) reg"
  shows "\<exists>reg' s. vfday_open p d reg = (reg', Inr s) \<and> registry_ok reg' \<and> grown reg reg' \<and>
    length (specs reg') \<le> length (specs reg) + length (sd_instruments sd) \<and>
    length (underlyings reg') \<le> length (underlyings reg) + length (sd_instruments sd) \<and> opened sd d reg' s \<and> registers sd reg reg'"
proof -
  have st: "storable sd" using assms(1) by (simp add: stored_at_def)
  obtain verify d0 d1 stats where w: "write_vfday sd p verify d0 = Inr (d1, stats)" "disk_files d p = disk_files d1 p"
    using assms(1) by (auto simp: stored_at_def)
  obtain wr h bytes where f: "file_for sd wr h bytes" and "d1 = store_file p bytes d0"
    using write_storable [OF st, of p d0] w(1) by (auto split: if_splits)
  then have on_disk: "disk_files d p = Some \<lparr>df_readable = True, df_bytes = bytes\<rparr>"
    using w(2) by (simp add: store_file_def)
  have le: "length (stored_ids sd) \<le> length (sd_instruments sd)" unfolding stored_ids_def by (rule length_filter_le)
  then have "room_left (length (stored_ids sd)) reg" using assms(3) unfolding room_left_def by linarith
  from open_stored [OF st f on_disk assms(2) this] obtain reg' s where
    o: "vfday_open p d reg = (reg', Inr s)" "reopened sd wr reg (length (stored_ids sd)) reg' s" "vf_path s = p"
      "vf_date s = sd_date sd" "vf_total_rows s = sd_total_observations sd" "vf_timeline s = distinct_times sd"
      "vf_decoded s = []" "vf_file s = None" by blast
  have "intact sd wr d s" using reopened_intact [OF st f _ o(2,7,8)] on_disk by (simp add: o(3))
  then show ?thesis
    using o open_growth [OF o(1)] le reopened_registers [OF o(2)] unfolding opened_def reopened_def
    by (intro exI [of _ reg'] exI [of _ s] conjI) (auto intro: exI [of _ wr])
qed


section \<open>Indexing a directory\<close>

text \<open>The source after the files of \<open>ds\<close>: one entry each, in order of date, and no problem.\<close>

text \<open>A contract of the registry is described by the first of the days that holds it.\<close>

definition described :: "(string \<times> session_data) list \<Rightarrow> registry \<Rightarrow> instrument_id \<Rightarrow> bool" where
  "described ds reg x \<longleftrightarrow> (\<exists>pre q sd post. ds = pre @ (q, sd) # post \<and>
     (\<exists>i \<in> set (stored_ids sd). same_as sd reg i x \<and> exactly_as sd reg i x) \<and>
     (\<forall>y \<in> set pre. \<forall>i \<in> set (stored_ids (snd y)). \<not> same_as (snd y) reg i x))"

definition indexed :: "disk \<Rightarrow> (string \<times> session_data) list \<Rightarrow> registry \<Rightarrow> vfday_source \<Rightarrow> bool" where
  "indexed d ds reg src \<longleftrightarrow> registry_ok reg \<and> vs_problems src = [] \<and> om_ok (vs_files src) \<and>
     set (map fst (vs_files src)) = (\<lambda>x. yyyymmdd (sd_date (snd x))) ` set ds \<and>
     (\<forall>x \<in> set ds. \<exists>s. map_of (vs_cache src) (yyyymmdd (sd_date (snd x))) = Some s \<and> opened (snd x) d reg s) \<and>
     (\<forall>x sp. spec reg x = Inr sp \<longrightarrow> described ds reg x)"

text \<open>A contract that a day opened earlier holds is one the registry knew then.\<close>

lemma opened_knows:
  assumes "opened sd d reg s" and "i \<in> set (stored_ids sd)" and "grown reg reg'" and "registry_ok reg'" and "same_as sd reg' i x"
  shows "same_as sd reg i x"
proof -
  obtain n where "n < length (stored_ids sd)" "stored_ids sd ! n = i" using assms(2) by (auto simp: in_set_conv_nth)
  then have "same_as sd reg i (vf_instruments s ! n)" using assms(1) by (auto simp: opened_def)
  moreover from this have "vf_instruments s ! n = x"
    using same_as_functional [OF assms(4) _ assms(5)] grown_same_as [OF assms(3)] by blast
  ultimately show ?thesis by simp
qed

lemma described_step:
  assumes ds: "\<forall>y \<in> set ds. \<exists>s. opened (snd y) d reg s" and old: "\<forall>x sp. spec reg x = Inr sp \<longrightarrow> described ds reg x"
    and reg': "grown reg reg'" "registry_ok reg'" "registers sd reg reg'" and x: "spec reg' x = Inr sp"
  shows "described (ds @ [(p, sd)]) reg' x"
proof -
  have before: "same_as (snd y) reg i x" if "y \<in> set ds" "i \<in> set (stored_ids (snd y))" "same_as (snd y) reg' i x" for y i
    using ds that opened_knows [OF _ that(2) reg'(1,2) that(3)] by blast
  consider (known) "spec reg x = Inr sp"
    | (new) e where "spec reg x = Inl e" "\<exists>i \<in> set (stored_ids sd). same_as sd reg' i x \<and> exactly_as sd reg' i x"
    using reg'(3) x unfolding registers_def by blast
  then show ?thesis
  proof cases
    case known
    then obtain pre q sd' post i where d: "ds = pre @ (q, sd') # post" "i \<in> set (stored_ids sd')" "same_as sd' reg i x"
      "exactly_as sd' reg i x" "\<forall>y \<in> set pre. \<forall>i \<in> set (stored_ids (snd y)). \<not> same_as (snd y) reg i x"
      using old unfolding described_def by blast
    have "\<not> same_as (snd y) reg' j x" if "y \<in> set pre" "j \<in> set (stored_ids (snd y))" for y j
      using before [of y j] d(1,5) that by auto
    then show ?thesis
      using d(2) grown_same_as [OF reg'(1) d(3)] grown_exactly_as [OF reg'(1) d(4)] unfolding described_def
      by (intro exI [of _ pre] exI [of _ q] exI [of _ sd'] exI [of _ "post @ [(p, sd)]"]) (auto simp: d(1))
  next
    case new
    have "\<not> same_as (snd y) reg' j x" if "y \<in> set ds" "j \<in> set (stored_ids (snd y))" for y j
      using before [OF that] new(1) by (auto simp: same_as_def)
    then show ?thesis using new(2) unfolding described_def
      by (intro exI [of _ ds] exI [of _ p] exI [of _ sd] exI [of _ "[]"]) auto
  qed
qed

lemma scan_file_indexes:
  assumes "indexed d ds reg src" and "stored_at d p sd" and "room_left (length (sd_instruments sd) + n) reg"
    and fresh: "sd_date sd \<notin> (sd_date \<circ> snd) ` set ds"
  shows "\<exists>reg' src'. scan_file d p (reg, src) = (reg', src') \<and> indexed d (ds @ [(p, sd)]) reg' src' \<and> room_left n reg'"
proof -
  have I: "registry_ok reg" "vs_problems src = []" "om_ok (vs_files src)"
    "set (map fst (vs_files src)) = (\<lambda>x. yyyymmdd (sd_date (snd x))) ` set ds"
    "\<forall>x \<in> set ds. \<exists>s. map_of (vs_cache src) (yyyymmdd (sd_date (snd x))) = Some s \<and> opened (snd x) d reg s"
    "\<forall>x sp. spec reg x = Inr sp \<longrightarrow> described ds reg x"
    using assms(1) unfolding indexed_def by blast+
  have "room_left (length (sd_instruments sd)) reg" using assms(3) by (simp add: room_left_def)
  from open_stored_at [OF assms(2) I(1) this] obtain reg' s where
    o: "vfday_open p d reg = (reg', Inr s)" "registry_ok reg'" "grown reg reg'"
      "length (specs reg') \<le> length (specs reg) + length (sd_instruments sd)"
      "length (underlyings reg') \<le> length (underlyings reg) + length (sd_instruments sd)" "opened sd d reg' s" "registers sd reg reg'"
    by blast
  define key where "key = yyyymmdd (sd_date sd)"
  have k: "yyyymmdd (vf_date s) = key" using o(6) by (simp add: opened_def key_def)
  have new: "key \<noteq> yyyymmdd (sd_date (snd x))" if "x \<in> set ds" for x
  proof
    assume "key = yyyymmdd (sd_date (snd x))"
    then have "sd_date sd = (sd_date \<circ> snd) x" by (simp add: key_def date.expand)
    then show False using fresh that by blast
  qed
  have "key \<notin> set (map fst (vs_files src))" unfolding I(4) using new by blast
  then have none: "map_of (vs_files src) key = None" by (simp add: map_of_eq_None_iff)
  define src' where "src' = src\<lparr>vs_files := om_put key p (vs_files src), vs_cache := om_put key s (vs_cache src)\<rparr>"
  have "scan_file d p (reg, src) = (reg', src')"
    by (simp add: scan_file_def o(1) k none Let_def src'_def)
  moreover have "indexed d (ds @ [(p, sd)]) reg' src'"
  proof -
    have "vs_files src' = om_put key p (vs_files src)" by (simp add: src'_def)
    then have "set (map fst (vs_files src')) = insert key (set (map fst (vs_files src)))"
      by (simp only: set_om_put)
    then have "set (map fst (vs_files src')) = (\<lambda>x. yyyymmdd (sd_date (snd x))) ` set (ds @ [(p, sd)])"
      unfolding I(4) by (simp add: key_def)
    moreover have "\<exists>s'. map_of (vs_cache src') (yyyymmdd (sd_date (snd x))) = Some s' \<and> opened (snd x) d reg' s'"
      if "x \<in> set (ds @ [(p, sd)])" for x
    proof (cases "x \<in> set ds")
      case True
      then show ?thesis using I(5) new [OF True] opened_grown [OF o(3)] by (auto simp: src'_def)
    next
      case False
      then have "x = (p, sd)" using that by simp
      then show ?thesis using o(6) by (simp add: src'_def flip: key_def)
    qed
    moreover have "\<forall>x sp. spec reg' x = Inr sp \<longrightarrow> described (ds @ [(p, sd)]) reg' x"
      using described_step [OF _ I(6) o(3,2,7)] I(5) by blast
    ultimately show ?thesis using o(2) I(2,3) unfolding indexed_def by (simp add: src'_def)
  qed
  moreover have "room_left n reg'" using assms(3) o(4,5) by (simp add: room_left_def)
  ultimately show ?thesis by blast
qed

lemma scan_all:
  assumes "indexed d done reg src" and "\<forall>(p, sd) \<in> set ds. stored_at d p sd"
    and "room_left (sum_list (map (\<lambda>x. length (sd_instruments (snd x))) ds)) reg"
    and "distinct (map (sd_date \<circ> snd) (done @ ds))"
  shows "\<exists>reg' src'. fold (scan_file d) (map fst ds) (reg, src) = (reg', src') \<and> indexed d (done @ ds) reg' src'"
  using assms
proof (induction ds arbitrary: "done" reg src)
  case (Cons x ds)
  obtain p sd where x: "x = (p, sd)" by (cases x)
  have st: "stored_at d p sd" using Cons.prems(2) by (simp add: x)
  have room: "room_left (length (sd_instruments sd) + sum_list (map (\<lambda>x. length (sd_instruments (snd x))) ds)) reg"
    using Cons.prems(3) by (simp add: x)
  have fresh: "sd_date sd \<notin> (sd_date \<circ> snd) ` set done" using Cons.prems(4) by (auto simp: x)
  from scan_file_indexes [OF Cons.prems(1) st room fresh] obtain reg1 src1 where
    1: "scan_file d p (reg, src) = (reg1, src1)" "indexed d (done @ [(p, sd)]) reg1 src1"
      "room_left (sum_list (map (\<lambda>x. length (sd_instruments (snd x))) ds)) reg1" by blast
  have "distinct (map (sd_date \<circ> snd) ((done @ [(p, sd)]) @ ds))"
    using Cons.prems(4) by (simp add: x comp_def)
  from Cons.IH [OF 1(2) _ 1(3) this] Cons.prems(2) show ?case using 1(1) by (auto simp: x)
qed auto

lemma sort_map_fst: "sort (map fst xs) = map fst (sort_key fst xs)"
  by (rule properties_for_sort) simp_all

lemma open_directory:
  assumes "\<forall>(p, name, sd) \<in> set days. stored_at d p sd \<and> path_extension name = ''.vfday''"
    and "distinct (map (\<lambda>(p, name, sd). sd_date sd) days)"
    and "sum_list (map (\<lambda>(p, name, sd). length (sd_instruments sd)) days) \<le> 2 ^ 31"
  shows "\<exists>reg src ds. new_source directory (Some (map (\<lambda>(p, name, sd). (p, name, True)) days)) d empty_registry = (reg, src) \<and>
    set ds = (\<lambda>(p, name, sd). (p, sd)) ` set days \<and> sorted (map fst ds) \<and> indexed d ds reg src"
proof -
  define ds where "ds = map (\<lambda>(p, name, sd). (p, sd)) days"
  define es where "es = sort_key fst ds"
  have "filter (\<lambda>(_, name, regular). regular \<and> path_extension name = ''.vfday'') (map (\<lambda>(p, name, sd). (p, name, True)) days) =
      map (\<lambda>(p, name, sd). (p, name, True)) days"
    using assms(1) by (auto simp: filter_id_conv)
  then have files: "sort (map fst (filter (\<lambda>(_, name, regular). regular \<and> path_extension name = ''.vfday'')
      (map (\<lambda>(p, name, sd). (p, name, True)) days))) = map fst es"
    unfolding es_def sort_map_fst [symmetric] by (simp add: ds_def comp_def case_prod_beta)
  have es: "mset es = mset ds" "set es = set ds" by (simp_all add: es_def)
  let ?empty = "\<lparr>vs_files = [], vs_cache = [], vs_problems = []\<rparr>"
  have "spec empty_registry x \<noteq> Inr sp" for x sp by (auto simp: spec_def empty_registry_def)
  then have "indexed d [] empty_registry ?empty" by (simp add: indexed_def registry_ok_empty)
  moreover have "\<forall>(p, sd) \<in> set es. stored_at d p sd" using assms(1) by (auto simp: es(2) ds_def)
  moreover have "sum_list (map (\<lambda>x. length (sd_instruments (snd x))) es) \<le> 2 ^ 31"
  proof -
    have "sum_list (map (\<lambda>x. length (sd_instruments (snd x))) es) = sum_list (map (\<lambda>x. length (sd_instruments (snd x))) ds)"
      unfolding sum_mset_sum_list [symmetric] mset_map es(1) by (rule refl)
    then show ?thesis using assms(3) by (simp add: ds_def comp_def case_prod_unfold)
  qed
  then have "room_left (sum_list (map (\<lambda>x. length (sd_instruments (snd x))) es)) empty_registry"
    by (simp add: room_left_def empty_registry_def)
  moreover have "distinct (map (sd_date \<circ> snd) ([] @ es))"
  proof -
    have "distinct (map (sd_date \<circ> snd) ds)" using assms(2) by (simp add: ds_def comp_def case_prod_unfold)
    moreover have same: "mset (map (sd_date \<circ> snd) es) = mset (map (sd_date \<circ> snd) ds)" unfolding mset_map es(1) by (rule refl)
    ultimately show ?thesis using mset_eq_imp_distinct_iff [OF same] by simp
  qed
  ultimately obtain reg src where "fold (scan_file d) (map fst es) (empty_registry, ?empty) = (reg, src)" "indexed d es reg src"
    using scan_all [of d "[]" empty_registry ?empty es] by auto
  then have "new_source directory (Some (map (\<lambda>(p, name, sd). (p, name, True)) days)) d empty_registry = (reg, src)" "indexed d es reg src"
    unfolding new_source_def Let_def option.case files by simp_all
  then show ?thesis using es(2) by (intro exI [of _ reg] exI [of _ src] exI [of _ es]) (simp add: ds_def, simp add: es_def)
qed

text \<open>In order of path, the first of the days that holds a contract.\<close>

lemma described_first:
  assumes "described ds reg x" and "sorted (map fst ds)" and "set ds = (\<lambda>(p, name, sd). (p, sd)) ` set days"
  shows "\<exists>(q, name, sd) \<in> set days. (\<exists>i \<in> set (stored_ids sd). same_as sd reg i x \<and> exactly_as sd reg i x) \<and>
    (\<forall>(q', name', sd') \<in> set days. q' < q \<longrightarrow> (\<forall>i \<in> set (stored_ids sd'). \<not> same_as sd' reg i x))"
proof -
  obtain pre q sd post where d: "ds = pre @ (q, sd) # post"
    "\<exists>i \<in> set (stored_ids sd). same_as sd reg i x \<and> exactly_as sd reg i x"
    "\<forall>y \<in> set pre. \<forall>i \<in> set (stored_ids (snd y)). \<not> same_as (snd y) reg i x"
    using assms(1) unfolding described_def by blast
  have "(q, sd) \<in> set ds" by (simp add: d(1))
  then obtain name where n: "(q, name, sd) \<in> set days" unfolding assms(3) by auto
  have "\<forall>i \<in> set (stored_ids sd'). \<not> same_as sd' reg i x" if "(q', name', sd') \<in> set days" "q' < q" for q' name' sd'
  proof -
    have "(q', sd') \<in> set ds" unfolding assms(3) using that(1) by force
    moreover have "q \<le> fst y" if "y \<in> set post" for y using assms(2) that by (auto simp: d(1) sorted_append)
    ultimately have "(q', sd') \<in> set pre" using that(2) by (auto simp: d(1) not_less [symmetric])
    then show ?thesis using d(3) by fastforce
  qed
  with n d(2) show ?thesis by (intro bexI [of _ "(q, name, sd)"]) auto
qed

section \<open>The data set\<close>

lemma indexed_dates:
  assumes "indexed d ds reg src"
  shows "sorted_wrt (<) (stored_sessions src)" and "set (stored_sessions src) = (sd_date \<circ> snd) ` set ds"
proof -
  have ok: "om_ok (vs_files src)" and keys: "set (map fst (vs_files src)) = (\<lambda>x. yyyymmdd (sd_date (snd x))) ` set ds"
    using assms unfolding indexed_def by blast+
  have m: "stored_sessions src = map Date (map fst (vs_files src))"
    by (simp add: stored_sessions_def case_prod_beta)
  show "sorted_wrt (<) (stored_sessions src)"
    using ok unfolding m sorted_wrt_map by (simp add: om_ok_def sorted_wrt_map less_date_def)
  show "set (stored_sessions src) = (sd_date \<circ> snd) ` set ds"
    unfolding m set_map [of Date] keys by (simp add: image_image)
qed

lemma opened_session:
  assumes "opened sd d reg s" and "storable sd"
  shows "session_ok (stored_data reg d s)" and "sd_date (stored_data reg d s) = sd_date sd"
    and "sd_timeline (stored_data reg d s) = distinct_times sd"
    and "length (sd_instruments (stored_data reg d s)) = length (stored_ids sd)"
    and "\<forall>n < length (stored_ids sd). same_as sd reg (stored_ids sd ! n) (sd_instruments (stored_data reg d s) ! n) \<and>
      sd_quotes (stored_data reg d s) (sd_instruments (stored_data reg d s) ! n) = sd_quotes sd (stored_ids sd ! n)"
proof -
  obtain w where w: "intact sd w d s" and o: "vf_date s = sd_date sd" "vf_total_rows s = sd_total_observations sd"
    "vf_timeline s = distinct_times sd" "\<forall>n < length (stored_ids sd). same_as sd reg (stored_ids sd ! n) (vf_instruments s ! n)"
    using assms(1) unfolding opened_def by blast
  have i: "sd_instruments (stored_data reg d s) = vf_instruments s" "sd_date (stored_data reg d s) = vf_date s"
    "sd_timeline (stored_data reg d s) = vf_timeline s"
    by (simp_all add: stored_data_def)
  show "session_ok (stored_data reg d s)" by (rule stored_session_ok [OF assms(2) w o(2,3)])
  show "sd_date (stored_data reg d s) = sd_date sd" "sd_timeline (stored_data reg d s) = distinct_times sd"
    by (simp_all add: i o)
  have l: "length (vf_instruments s) = length (stored_ids sd)" "distinct (vf_instruments s)"
    using w unfolding intact_def by blast+
  show "length (sd_instruments (stored_data reg d s)) = length (stored_ids sd)" by (simp add: i l)
  show "\<forall>n < length (stored_ids sd). same_as sd reg (stored_ids sd ! n) (sd_instruments (stored_data reg d s) ! n) \<and>
      sd_quotes (stored_data reg d s) (sd_instruments (stored_data reg d s) ! n) = sd_quotes sd (stored_ids sd ! n)"
    using o(4) served_nth [OF l(2,1)] by (simp add: i stored_data_quotes [OF assms(2) w])
qed

text \<open>C40: opening a store gives every stored day back.  Let a directory hold, under distinct dates,
  files written by the store's writer for sessions that can be stored, with no more instruments in all
  than there are ids.  \<open>open_store\<close> then succeeds without a problem; its dates are theirs, in ascending
  order; and for each of them the backtest is served a well-formed session of that date, with the
  timeline of the session written, whose instruments are, one by one, the same contracts in the one
  registry of the data set and carry exactly the columns written, however the files are named and in
  whatever order they are found.  The lot size and tick size of a contract are those of the first file,
  in order of path, that holds it: the day's own where its file is that one or the files agree.\<close>

theorem store_serves_every_day:
  assumes "days \<noteq> []" and "\<forall>(p, name, sd) \<in> set days. stored_at d p sd \<and> path_extension name = ''.vfday''"
    and "distinct (map (\<lambda>(p, name, sd). sd_date sd) days)"
    and "sum_list (map (\<lambda>(p, name, sd). length (sd_instruments sd)) days) \<le> 2 ^ 31"
  shows "\<exists>data. open_store directory (Some (map (\<lambda>(p, name, sd). (p, name, True)) days)) d = Inr data \<and>
    dt_warnings data = [] \<and> \<not> dt_has_spot data \<and> sorted_wrt (<) (dt_dates data) \<and>
    set (dt_dates data) = (\<lambda>(p, name, sd). sd_date sd) ` set days \<and> ds_sessions (source_of data) = dt_dates data \<and>
    (\<forall>(p, name, sd) \<in> set days. \<exists>s. ds_load (source_of data) (sd_date sd) = Inr (Some s) \<and>
       session_ok s \<and> sd_date s = sd_date sd \<and> sd_timeline s = distinct_times sd \<and>
       length (sd_instruments s) = length (stored_ids sd) \<and>
       (\<forall>n < length (stored_ids sd). same_as sd (dt_registry data) (stored_ids sd ! n) (sd_instruments s ! n) \<and>
          sd_quotes s (sd_instruments s ! n) = sd_quotes sd (stored_ids sd ! n) \<and>
          (\<exists>(q, name', sd') \<in> set days.
             (\<exists>i \<in> set (stored_ids sd'). same_as sd' (dt_registry data) i (sd_instruments s ! n) \<and>
                (\<exists>sp sp'. spec (sd_registry sd') i = Inr sp \<and> spec (dt_registry data) (sd_instruments s ! n) = Inr sp' \<and>
                   right_of sp' = right_of sp \<and> lot_size sp' = lot_size sp \<and> tick_size sp' = tick_size sp)) \<and>
             (\<forall>(q', name'', sd'') \<in> set days. q' < q \<longrightarrow>
                (\<forall>i \<in> set (stored_ids sd''). \<not> same_as sd'' (dt_registry data) i (sd_instruments s ! n))))))"
proof -
  obtain reg src ds where o: "new_source directory (Some (map (\<lambda>(p, name, sd). (p, name, True)) days)) d empty_registry = (reg, src)"
    "set ds = (\<lambda>(p, name, sd). (p, sd)) ` set days" "indexed d ds reg src" "sorted (map fst ds)"
    using open_directory [OF assms(2-4)] by blast
  note dates = indexed_dates [OF o(3)]
  have set: "set (stored_sessions src) = (\<lambda>(p, name, sd). sd_date sd) ` set days"
    unfolding dates(2) o(2) by (simp add: image_image case_prod_beta)
  then have ne: "stored_sessions src \<noteq> []" using assms(1) by auto
  define data where "data = new_dataset
    \<lparr>dt_registry := reg, dt_source := Some (InStore d src),
     dt_underlying := (case find is_option (specs reg) of Some s \<Rightarrow> underlying s | None \<Rightarrow> dt_underlying new_dataset),
     dt_spot := invalid_instrument, dt_dates := stored_sessions src, dt_expiries := option_expiries reg,
     dt_warnings := map StoreWarning (vs_problems src)\<rparr>"
  have e: "dt_registry new_dataset = empty_registry" by (simp add: new_dataset_def)
  have data: "open_store directory (Some (map (\<lambda>(p, name, sd). (p, name, True)) days)) d = Inr data"
    unfolding open_store_def e o(1) Let_def prod.case using ne by (simp add: data_def)
  have f: "dt_registry data = reg" "dt_source data = Some (InStore d src)" "dt_dates data = stored_sessions src"
    "dt_spot data = invalid_instrument" by (simp_all add: data_def)
  have p: "vs_problems src = []" using o(3) by (simp add: indexed_def)
  define first where "first x \<longleftrightarrow> (\<exists>(q, name', sd') \<in> set days.
      (\<exists>i \<in> set (stored_ids sd'). same_as sd' reg i x \<and> exactly_as sd' reg i x) \<and>
      (\<forall>(q', name'', sd'') \<in> set days. q' < q \<longrightarrow> (\<forall>i \<in> set (stored_ids sd''). \<not> same_as sd'' reg i x)))" for x
  have known: "first x" if "spec reg x = Inr sp" for x sp
  proof -
    have "described ds reg x" using o(3) that unfolding indexed_def by blast
    from described_first [OF this o(4,2)] show ?thesis by (simp add: first_def)
  qed
  have "\<exists>s. ds_load (source_of data) (sd_date sd) = Inr (Some s) \<and> session_ok s \<and> sd_date s = sd_date sd \<and>
      sd_timeline s = distinct_times sd \<and> length (sd_instruments s) = length (stored_ids sd) \<and>
      (\<forall>n < length (stored_ids sd). same_as sd reg (stored_ids sd ! n) (sd_instruments s ! n) \<and>
         sd_quotes s (sd_instruments s ! n) = sd_quotes sd (stored_ids sd ! n) \<and> first (sd_instruments s ! n))"
    if x: "(q, name, sd) \<in> set days" for q name sd
  proof -
    have "(q, sd) \<in> set ds" unfolding o(2) using x by force
    then obtain s where s: "map_of (vs_cache src) (yyyymmdd (sd_date sd)) = Some s" "opened sd d reg s"
      using o(3) by (force simp: indexed_def)
    have "storable sd" using assms(2) x by (auto simp: stored_at_def)
    note laws = opened_session [OF s(2) this]
    have "ds_load (source_of data) (sd_date sd) = Inr (Some (stored_data reg d s))"
      by (simp add: source_of_def f load_stored_def s(1))
    moreover have "first (sd_instruments (stored_data reg d s) ! n)" if "n < length (stored_ids sd)" for n
      using laws(5) that known unfolding same_as_def by blast
    ultimately show ?thesis using laws by (intro exI [of _ "stored_data reg d s"]) simp
  qed
  then have "\<forall>(p, name, sd) \<in> set days. \<exists>s. ds_load (source_of data) (sd_date sd) = Inr (Some s) \<and> session_ok s \<and>
      sd_date s = sd_date sd \<and> sd_timeline s = distinct_times sd \<and> length (sd_instruments s) = length (stored_ids sd) \<and>
      (\<forall>n < length (stored_ids sd). same_as sd reg (stored_ids sd ! n) (sd_instruments s ! n) \<and>
         sd_quotes s (sd_instruments s ! n) = sd_quotes sd (stored_ids sd ! n) \<and> first (sd_instruments s ! n))" by auto
  moreover have "dt_warnings data = []" "\<not> dt_has_spot data" "ds_sessions (source_of data) = dt_dates data"
    by (simp_all add: f p source_of_def dt_has_spot_def valid_def data_def)
  ultimately show ?thesis using data dates(1) set unfolding first_def exactly_as_def f(1) [symmetric] f(3) [symmetric]
    by - (rule exI [of _ data], intro conjI; assumption)
qed


theorem store_serves_every_day_witness:
  "\<exists>d data s. open_store ''store'' (Some [(''day.vfday'', ''day.vfday'', True)]) d = Inr data \<and>
     dt_dates data = [Date 20250701] \<and> ds_load (source_of data) (Date 20250701) = Inr (Some s) \<and>
     sd_quotes s (sd_instruments s ! 0) = one_quote"
proof -
  obtain d stats where w: "write_vfday sample_store ''day.vfday'' True empty_disk = Inr (d, stats)"
    using write_storable [OF sample_storable, of "''day.vfday''" empty_disk] by (auto simp: empty_disk_def)
  have fields: "sd_date sample_store = Date 20250701" "length (sd_instruments sample_store) = 1"
    by (simp_all add: sample_store_def memory_data_def)
  have ids: "stored_ids sample_store = [InstrumentId 0]"
    by (simp add: stored_ids_def sample_quotes sample_store_def memory_data_def)
      (simp add: one_quote_def size_of_def ms_quotes_def)
  let ?days = "[(''day.vfday'', ''day.vfday'', sample_store)]"
  have "path_extension ''day.vfday'' = ''.vfday''" by code_simp
  then have "?days \<noteq> []" "\<forall>(p, name, sd) \<in> set ?days. stored_at d p sd \<and> path_extension name = ''.vfday''"
    "distinct (map (\<lambda>(p, name, sd). sd_date sd) ?days)"
    "sum_list (map (\<lambda>(p, name, sd). length (sd_instruments sd)) ?days) \<le> 2 ^ 31"
    using sample_storable w by (auto simp: stored_at_def fields)
  from store_serves_every_day [OF this, of "''store''"] obtain data where
    data: "open_store ''store'' (Some [(''day.vfday'', ''day.vfday'', True)]) d = Inr data"
      "sorted_wrt (<) (dt_dates data)" "set (dt_dates data) = {Date 20250701}"
      "\<exists>s. ds_load (source_of data) (Date 20250701) = Inr (Some s) \<and>
        sd_quotes s (sd_instruments s ! 0) = sd_quotes sample_store (InstrumentId 0)"
    by (auto simp: fields ids)
  have "dt_dates data = [Date 20250701]"
    using data(2,3) by (intro strict_sorted_equal) simp_all
  then show ?thesis using data by (auto simp: sample_quotes)
qed

end
