(* ===== verification/Spec2Isabelle.thy ===== *)
theory Spec2Isabelle
  imports BacktestRuns Costs VfdayDamage ConvertLaws ExamplesLaws SyntheticSeries StoreLaws
begin

text \<open>
  Verification of volforge, a C++ backtesting engine for index options (\<open>src/cpp\<close>).

  \<^bold>\<open>The program.\<close>  Market data reaches the engine as sessions: an adapter parses a vendor day
  (\<open>gfdl_csv.cpp\<close>) into an in-memory session (\<open>memory_source.cpp\<close>), the day store writes such a
  session to one checksummed, compressed file and opens it again (\<open>vfday.cpp\<close>, \<open>codec.cpp\<close>).  A
  session names its contracts by the identifiers of a registry (\<open>instrument.cpp\<close>) and keeps one
  column set of quotes for each (\<open>quotes.cpp\<close>).  The event loop (\<open>event_loop.cpp\<close>) walks the
  distinct timestamps of a session; at each it moves the clock, lets the portfolio (\<open>portfolio.cpp\<close>)
  fill due orders and run the risk rules, and resumes the strategy, a coroutine that waits on a
  condition (\<open>condition.cpp\<close>).  The strategy sees the session through a context (\<open>strategy.cpp\<close>)
  and a view bounded by the clock (\<open>data_source.cpp\<close>): bars (\<open>bars.cpp\<close>), indicators
  (\<open>indicators.cpp\<close>), chains, Greeks (\<open>greeks.cpp\<close>) and margin (\<open>margin.cpp\<close>).  A backtest
  (\<open>backtest.cpp\<close>) chains sessions, settling what expires; the look-ahead check (\<open>lookahead.cpp\<close>)
  replays a strategy on truncated sessions and compares the trades.

  \<^bold>\<open>Theories and sources.\<close>
  \<^item> \<open>Prelude\<close>: C++ integer conversions and division, bounds-checked access, binary search, folds
    that may fail.  Every conversion and sum that can leave its width wraps (\<open>to_i32\<close>, \<open>to_i64\<close>,
    \<open>to_u32\<close>) or is bounded in a theorem's hypotheses.
  \<^item> \<open>CoreTypes\<close>, \<open>Calendar\<close> (\<open>types.hpp\<close>): timestamps, prices, money and dates; the day count is
    the Gregorian calendar, and dates round trip through it.
  \<^item> \<open>Doubles\<close>, \<open>Prices\<close>: binary64 with round-to-nearest-even over exact rationals, with the laws
    of rounding; prices survive the trip through a double.
  \<^item> \<open>Registry\<close> (\<open>instrument.cpp\<close>): one record of vectors and maps; the locale \<open>interner\<close> is the
    contract of both interning tables.
  \<^item> \<open>Quotes\<close>, \<open>Session\<close>, \<open>Cursor\<close> (\<open>quotes.cpp\<close>, \<open>data_source.cpp\<close>): columns, the interface of a
    session (locale \<open>session_source\<close>), clock, bounded view and the merging event cursor.
  \<^item> \<open>OrderedMap\<close>, \<open>MemorySource\<close> (\<open>memory_source.cpp\<close>): \<open>std::map\<close> as an ascending association
    list; the in-memory session, which satisfies the session interface.
  \<^item> \<open>Display\<close> (\<open>types.cpp\<close>), \<open>Arguments\<close>: the printed forms of dates, times and prices; what the
    command-line tools do with their arguments (\<open>atoi\<close>, paths).
  \<^item> \<open>Bars\<close>, \<open>Indicators\<close>, \<open>Costs\<close>, \<open>Greeks\<close>, \<open>Margin\<close>: the files of these names.  Prices of bars
    never come from the future, a reading of an indicator is the mean of the last closes known at
    the clock (and bands so many deviations around it), the search for a volatility evaluates at
    most a hundred prices and what it returns reproduces the price or is bracketed by it, margin
    is the worst loss of the sixteen scenarios and the exposure charge, both written out.
  \<^item> \<open>Portfolio\<close>, \<open>PortfolioLaws\<close>, \<open>PortfolioRuns\<close> (\<open>portfolio.cpp\<close>): positions, orders and rules; the
    invariant that orders work exactly the legs whose state says so, its preservation by every
    operation, the abstraction to a book, and the step relation of the public operations with the
    properties of all reachable portfolios.  What the engine calls can fail only as the registry
    fails for an instrument a leg was given; every index it uses is in range.
  \<^item> \<open>Conditions\<close>, \<open>Strategy\<close>, \<open>StrategyLaws\<close> (\<open>condition.cpp\<close>, \<open>strategy.cpp\<close>): the context and what
    it answers, all of which depends on the session through the past only.
  \<^item> \<open>EventLoop\<close>, \<open>EventLoopLaws\<close>, \<open>Runs\<close> (\<open>event_loop.cpp\<close>, \<open>examples/short_straddle.cpp\<close>): one run,
    and how often a strategy is resumed in each of its steps;
    the locale \<open>order_strategy\<close> is the interface of a strategy that trades through its context.
  \<^item> \<open>Lookahead\<close>, \<open>LookaheadLaws\<close> (\<open>lookahead.cpp\<close>): the truncated session and the check: the
    verdict for any strategy is the comparison of its truncated runs with its full run, and the locale
    \<open>causal_strategy\<close> carries the theorem that a causal one passes.
  \<^item> \<open>Backtest\<close>, \<open>BacktestLaws\<close>, \<open>BacktestRuns\<close> (\<open>backtest.cpp\<close>): sessions in sequence, settlement
    and the accounts of a whole backtest.
  \<^item> \<open>Codec\<close>, \<open>CodecLaws\<close>, \<open>CodecColumns\<close> (\<open>codec.cpp\<close>): packing is concatenation of bit fields,
    decoding inverts encoding, a truncated column is refused.
  \<^item> \<open>Files\<close>, \<open>Gfdl\<close>, \<open>GfdlLaws\<close>, \<open>GfdlRoundTrip\<close> (\<open>gfdl_csv.cpp\<close>): scanners, symbols, rows and the two
    loaders; what a loaded day is, and that a day printed in the vendor's format, with any number
    of decimals in its prices, loads back.
  \<^item> \<open>Vfday\<close> (\<open>vfday.cpp\<close>), \<open>VfdayCrc\<close>, \<open>VfdayFormat\<close>, \<open>VfdayWriter\<close>, \<open>VfdayFile\<close>, \<open>VfdayOpen\<close>,
    \<open>VfdayRoundTrip\<close>, \<open>VfdayDamage\<close>: the file format byte for byte, the checksum, the writer, \<open>open\<close>,
    the lazily decoding session (again a \<open>session_source\<close>) and the source of a directory; a
    written session opens as the same session, and damage is refused.  A contract new to the registry
    it is opened against comes out with the lot and tick size stored; a known one keeps those the
    registry has for it.
  \<^item> \<open>VerifyStore\<close>, \<open>VerifyStoreLaws\<close> (\<open>examples/verify_store.cpp\<close>), \<open>Convert\<close>, \<open>ConvertLaws\<close>
    (\<open>examples/convert.cpp\<close>): the two store tools; the check reports no problem exactly when the
    days agree, and an interrupted conversion can be run again.
  \<^item> \<open>Handles\<close> (\<open>strategy.hpp\<close>): the position and leg handles and the memo caches of the context;
    a cached answer is the computed one.
  \<^item> \<open>Examples\<close>, \<open>ExamplesLaws\<close> (\<open>examples/bollinger.cpp\<close>, \<open>examples/positional.cpp\<close>): the two other
    example strategies, as interpretations of \<open>order_strategy\<close> and \<open>causal_strategy\<close>.
  \<^item> \<open>Synthetic\<close>, \<open>SyntheticLaws\<close>, \<open>SyntheticSeries\<close> (\<open>synthetic.cpp\<close>): the random engine bit for bit and
    the generators of one session and of a series; they return, never fail, and give well-formed
    sessions whose instruments print only when they may.
  \<^item> \<open>Tasks\<close> (\<open>strategy.hpp\<close>): the coroutine handle the event loop drives; the locale \<open>same_strategy\<close>
    says when two strategies give the same runs and backtests.
  \<^item> \<open>Bindings\<close>, \<open>BindingsLaws\<close>, \<open>StoreLaws\<close> (\<open>python/src/bindings.cpp\<close>): the bridge that drives a
    Python coroutine, an interpretation of \<open>same_strategy\<close>, so a strategy does the same in Python as
    in C++; the data sets Python works on; opening a directory of stored days gives each day back.

  \<^bold>\<open>How code becomes definitions.\<close>  A class is a record, a member function a function that takes
  the record and returns it changed; an exception is the left of a sum, and abandons the run.  The
  frame of a coroutine is a datatype of its suspension points.  A loop is a fold, structural
  recursion, or recursion with a measure; nothing runs on fuel except where the code itself
  bounds a loop (the root searches: 100 steps and the like).  The loops of the generator and of the
  look-ahead check whose end depends on their input are partial functions, shown to return.

  \<^bold>\<open>Bounds.\<close>  Registries hold fewer than \<open>2 ^ 31\<close> contracts (identifiers are 32-bit), a stored
  session fewer than \<open>2 ^ 32\<close> rows and less than 2 GiB (\<open>storable\<close>: the file's own 32-bit fields
  and \<open>std::streamsize\<close>); prices and quantities fit their 32-bit and 64-bit columns.

  \<^bold>\<open>Parameters.\<close>  \<open>exp\<close>, \<open>log\<close> and \<open>erfc\<close> (libm), the random draws of the look-ahead check, the random
  distributions of the generator, a Python coroutine, a
  strategy, a session, a cost policy and a margin model are arguments of the definitions that use
  them.  The file system is a map from paths to files; an archive is the listing its reader gives.

  \<^bold>\<open>Not modelled.\<close>  The printed reports of the tools, timing, the order of an \<open>unordered_map\<close>,
  memory allocation, the object an exception leaves behind, the binding declarations that only
  name a member, the benchmarks, third-party code (miniz, nanobind) and the tests.
\<close>

end
